(* ===== verification/Lizard_Prelude.thy ===== *)
theory Lizard_Prelude
  imports Main "HOL-Library.Word" "HOL-Library.Signed_Division" "HOL-Library.Multiset"
begin

text \<open>
  Shared vocabulary of the Lizard-OS development: the C integer types of
  \<^verbatim>\<open>src/nolibc/types.h\<close> as machine words, the alignment helpers of
  \<^verbatim>\<open>src/lizard/helpers.h\<close>, and the generic lemmas on lists, words and intervals that
  the component theories use.
\<close>

unbundle bit_operations_syntax

section \<open>Collections of facts\<close>

named_theorems lizard_defs \<open>definitions that proofs about a component unfold\<close>
named_theorems lizard_inv \<open>preservation lemmas of component invariants\<close>

section \<open>C integer types\<close>

text \<open>\<^verbatim>\<open>u8\<close> to \<^verbatim>\<open>u64\<close> are words: their arithmetic wraps as unsigned C arithmetic does.\<close>

type_synonym u8 = "8 word"
type_synonym u16 = "16 word"
type_synonym u32 = "32 word"
type_synonym u64 = "64 word"
type_synonym vaddr = u64
type_synonym paddr = u64

abbreviation PAGE_SIZE :: nat where "PAGE_SIZE \<equiv> 4096"

text \<open>\<^verbatim>\<open>align_up\<close> and the macro \<^verbatim>\<open>align_down\<close> of helpers.h, on 64-bit words.\<close>

definition align_up :: "u64 \<Rightarrow> u64 \<Rightarrow> u64" where
  "align_up x a = (x + a - 1) AND NOT (a - 1)"

definition align_down :: "u64 \<Rightarrow> u64 \<Rightarrow> u64" where
  "align_down num a = num - (num mod a)"

definition align_ptr_down :: "u64 \<Rightarrow> u64 \<Rightarrow> u64" where
  "align_ptr_down p a = p AND NOT (a - 1)"

section \<open>Alignment\<close>

lemma and_not_mask_pow2:
  "x AND NOT (2 ^ n - 1) = x - (x mod 2 ^ n)" if "n < 64" for x :: u64
proof -
  have "NOT x AND (x AND mask n) = 0"
    by (rule bit_eqI) (auto simp: bit_simps)
  then have "x - (x AND mask n) = x AND NOT (x AND mask n)"
    by (rule disjunctive_diff_eq_and_not)
  also have "\<dots> = x AND NOT (mask n)"
    by (rule bit_eqI) (auto simp: bit_simps)
  finally have "x - (x AND mask n) = x AND NOT (mask n)" .
  moreover have "x AND mask n = x mod 2 ^ n"
    by (metis take_bit_eq_mask take_bit_eq_mod)
  ultimately show ?thesis
    by (simp only: mask_eq_decr_exp)
qed

lemma unat_pow2_64: "n < 64 \<Longrightarrow> unat (2 ^ n :: u64) = 2 ^ n"
  using unat_of_nat [where 'a = 64, of "2 ^ n"] power_strict_increasing [of n 64 "2 :: nat"]
  by (simp add: mod_less)

lemma unat_sub_mod:
  "n < 64 \<Longrightarrow> unat (x - (x mod 2 ^ n)) = unat x div 2 ^ n * 2 ^ n" for x :: u64
proof -
  assume n: "n < 64"
  have m: "unat (x mod 2 ^ n) = unat x mod 2 ^ n"
    using n by (simp add: unat_mod_distrib unat_pow2_64)
  have "x mod 2 ^ n \<le> x"
    by (simp add: word_le_nat_alt m)
  then have "unat (x - (x mod 2 ^ n)) = unat x - unat x mod 2 ^ n"
    by (simp add: unat_sub m)
  then show ?thesis
    by (simp add: minus_mod_eq_div_mult)
qed

lemma unat_align_down:
  "n < 64 \<Longrightarrow> unat (align_down x (2 ^ n)) = unat x div 2 ^ n * 2 ^ n"
  by (simp add: align_down_def unat_sub_mod)

lemma unat_align_ptr_down:
  "n < 64 \<Longrightarrow> unat (align_ptr_down x (2 ^ n)) = unat x div 2 ^ n * 2 ^ n"
  by (simp add: align_ptr_down_def and_not_mask_pow2 unat_sub_mod)

lemma unat_align_up:
  assumes n: "n < 64" and nov: "unat x + 2 ^ n - 1 < 2 ^ 64"
  shows "unat (align_up x (2 ^ n)) = (unat x + 2 ^ n - 1) div 2 ^ n * 2 ^ n"
proof -
  have "unat x + (2 ^ n - 1) < 2 ^ LENGTH(64)"
    using nov by simp
  moreover have s: "unat (2 ^ n - 1 :: u64) = 2 ^ n - 1"
    using n by (simp add: unat_sub unat_pow2_64 word_le_nat_alt)
  ultimately have "unat (x + (2 ^ n - 1)) = unat x + (2 ^ n - 1)"
    by (subst unat_add_lem [THEN iffD1]) simp_all
  then have u: "unat (x + 2 ^ n - 1) = unat x + 2 ^ n - 1"
    by (simp add: algebra_simps)
  have "align_up x (2 ^ n) = (x + 2 ^ n - 1) - (x + 2 ^ n - 1) mod 2 ^ n"
    using n by (simp add: align_up_def and_not_mask_pow2)
  then show ?thesis
    using n by (simp only: unat_sub_mod u)
qed

text \<open>The page size is \<open>2 ^ 12\<close>; the general facts specialise to it.\<close>

lemmas unat_align_down_page = unat_align_down [of 12, simplified]
lemmas unat_align_ptr_down_page = unat_align_ptr_down [of 12, simplified]
lemmas unat_align_up_page = unat_align_up [of 12, simplified]

lemma round_up_bounds:
  assumes "0 < (b::nat)"
  shows "a \<le> (a + b - 1) div b * b" and "(a + b - 1) div b * b < a + b"
proof -
  have eq: "(a + b - 1) div b * b = (a + b - 1) - (a + b - 1) mod b"
    by (simp add: minus_mod_eq_div_mult)
  have "(a + b - 1) mod b < b"
    using assms by simp
  then show "a \<le> (a + b - 1) div b * b"
    unfolding eq using assms by linarith
  show "(a + b - 1) div b * b < a + b"
    unfolding eq using assms by linarith
qed

section \<open>Words without wrap-around\<close>

lemma sint_eq_uint_small: "uint w < 2 ^ 63 \<Longrightarrow> sint w = uint w" for w :: u64
proof -
  assume "uint w < 2 ^ 63"
  moreover have "- (2 ^ 63) \<le> uint w"
    by (rule order_trans [of _ 0]) simp_all
  ultimately show ?thesis
    by (simp add: sint_uint signed_take_bit_int_eq_self)
qed

lemma sint_small_32: "l < 2 ^ 31 \<Longrightarrow> sint (ucast (of_nat l :: u64) :: u32) = int l"
proof -
  assume l: "l < 2 ^ 31"
  have "uint (ucast (of_nat l :: u64) :: u32) = int l"
    using l by (simp add: unsigned_ucast_eq unsigned_of_nat take_bit_nat_eq_self take_bit_eq_mod flip: of_nat_take_bit)
  then show ?thesis using l by (simp add: sint_uint signed_take_bit_int_eq_self)
qed

lemma unat_of_nat_small: "n < 2 ^ LENGTH('a) \<Longrightarrow> unat (of_nat n :: 'a::len word) = n"
  by (simp add: unat_of_nat mod_less)

lemma unat_lt2p: "unat w < 2 ^ LENGTH('a)" for w :: "'a::len word"
  by (rule unsigned_less)

lemma unat_ucast_16_32 [simp]: "unat (ucast (w :: u16) :: u32) = unat w"
  using unat_lt2p [of w] by (simp add: unsigned_ucast_eq take_bit_nat_eq_self)

lemma unat_ucast_32_64 [simp]: "unat (ucast (w :: u32) :: u64) = unat w"
  using unat_lt2p [of w] by (simp add: unsigned_ucast_eq take_bit_nat_eq_self)

lemma unat_ucast_8_32 [simp]: "unat (ucast (w :: u8) :: u32) = unat w"
  using unat_lt2p [of w] by (simp add: unsigned_ucast_eq take_bit_nat_eq_self)

lemma unat_add_small: "unat a + unat b < 2 ^ LENGTH('a) \<Longrightarrow> unat (a + b) = unat a + unat b" for a b :: "'a::len word"
  by (rule unat_add_lem [THEN iffD1])

lemma uint_add_nowrap: "uint a + uint b < 2 ^ 64 \<Longrightarrow> uint (a + b) = uint a + uint b" for a b :: u64
  by (simp add: uint_word_ariths mod_pos_pos_trivial)

lemma uint_mult_nowrap: "uint a * uint b < 2 ^ 64 \<Longrightarrow> uint (a * b) = uint a * uint b" for a b :: u64
  by (simp add: uint_word_ariths mod_pos_pos_trivial)

lemma uint_ucast_u8 [simp]: "uint (ucast (b :: u8) :: u64) = uint b"
  by (simp add: unsigned_ucast_eq take_bit_int_eq_self_iff)
    (use uint_lt2p [of b] in simp)

lemma unat_minus_step: "s < e \<Longrightarrow> unat (e - (s + 1)) < unat (e - s)" for s e :: "'a::len word"
proof -
  assume "s < e"
  then have "e - s \<noteq> 0" by auto
  moreover have "e - (s + 1) = (e - s) - 1" by simp
  ultimately show ?thesis by (metis measure_unat)
qed

section \<open>Truncating division\<close>

lemma sdiv_nonneg: "0 \<le> k \<Longrightarrow> 0 < l \<Longrightarrow> k sdiv l = k div l" for k l :: int
  by (cases "k = 0") (auto simp: signed_divide_int_def)

lemma smod_nonneg: "0 \<le> k \<Longrightarrow> 0 < l \<Longrightarrow> k smod l = k mod l" for k l :: int
  by (cases "k = 0") (auto simp: signed_modulo_int_def)

lemma sdiv_neg: "k < 0 \<Longrightarrow> 0 < l \<Longrightarrow> k sdiv l = - ((- k) div l)" for k l :: int
  by (simp add: signed_divide_int_def)

lemma smod_neg: "k < 0 \<Longrightarrow> 0 < l \<Longrightarrow> k smod l = - ((- k) mod l)" for k l :: int
  by (simp add: signed_modulo_int_def)

section \<open>Lists, intervals and multisets\<close>

lemma upt_split: "i \<le> j \<Longrightarrow> j \<le> k \<Longrightarrow> [i..<k] = [i..<j] @ [j..<k]"
  by (metis le_add_diff_inverse upt_add_eq_append)

lemma nth_list_update_if: "xs[i := v] ! j = (if j = i \<and> i < length xs then v else xs ! j)"
  by (cases "i < length xs") (auto simp: nth_list_update list_update_beyond)

lemma list_update_same_nth: "map f (xs[i := v]) = (map f xs)[i := f v]"
  by (simp add: map_update)

lemma mset_remove1_mem: "x \<in> set xs \<Longrightarrow> add_mset x (mset (remove1 x xs)) = mset xs"
  by simp

text \<open>Setting a field on every index of an interval, the shape of the page-marking loops.\<close>

primrec update_range :: "('a \<Rightarrow> 'a) \<Rightarrow> nat \<Rightarrow> nat \<Rightarrow> 'a list \<Rightarrow> 'a list" where
  "update_range f i 0 xs = xs"
| "update_range f i (Suc n) xs = update_range f (Suc i) n (xs[i := f (xs ! i)])"

lemma length_update_range [simp]: "length (update_range f i n xs) = length xs"
  by (induction n arbitrary: i xs) auto

lemma nth_update_range:
  "j < length xs \<Longrightarrow>
    update_range f i n xs ! j = (if i \<le> j \<and> j < i + n then f (xs ! j) else xs ! j)"
  by (induction n arbitrary: i xs) (auto simp: nth_list_update, metis le_antisym not_less_eq_eq)

section \<open>Little-endian fields\<close>

text \<open>A 16- or 32-bit field of a packed structure as its bytes in memory, on a little-endian machine.\<close>

definition le16 :: "u8 \<Rightarrow> u8 \<Rightarrow> u16" where
  "le16 a b = ucast a OR push_bit 8 (ucast b)"

definition le16_bytes :: "u16 \<Rightarrow> u8 list" where
  "le16_bytes w = [ucast w, ucast (drop_bit 8 w)]"

definition le32 :: "u8 \<Rightarrow> u8 \<Rightarrow> u8 \<Rightarrow> u8 \<Rightarrow> u32" where
  "le32 a b c d = ucast a OR push_bit 8 (ucast b) OR push_bit 16 (ucast c) OR push_bit 24 (ucast d)"

definition le32_bytes :: "u32 \<Rightarrow> u8 list" where
  "le32_bytes w = [ucast w, ucast (drop_bit 8 w), ucast (drop_bit 16 w), ucast (drop_bit 24 w)]"

lemma length_le_bytes [simp]: "length (le16_bytes w) = 2" "length (le32_bytes v) = 4"
  by (simp_all add: le16_bytes_def le32_bytes_def)

lemma le16_of_bytes [simp]: "le16 (ucast w) (ucast (drop_bit 8 w)) = w"
  by (rule bit_eqI) (auto simp: le16_def bit_simps)

lemma le16_bytes_of [simp]: "ucast (le16 a b) = a" "ucast (drop_bit 8 (le16 a b)) = b"
  by (rule bit_eqI, auto simp: le16_def bit_simps dest: bit_imp_le_length)+

lemma le32_of_bytes [simp]:
  "le32 (ucast w) (ucast (drop_bit 8 w)) (ucast (drop_bit 16 w)) (ucast (drop_bit 24 w)) = w"
proof (rule bit_word_eqI)
  fix n
  assume "n < LENGTH(32)"
  then show "bit (le32 (ucast w) (ucast (drop_bit 8 w)) (ucast (drop_bit 16 w)) (ucast (drop_bit 24 w))) n = bit w n"
    by (cases "n < 8"; cases "n < 16"; cases "n < 24") (auto simp: le32_def bit_simps)
qed

lemma le32_bytes_of [simp]:
  "ucast (le32 a b c d) = a" "ucast (drop_bit 8 (le32 a b c d)) = b"
  "ucast (drop_bit 16 (le32 a b c d)) = c" "ucast (drop_bit 24 (le32 a b c d)) = d"
  unfolding le32_def by (rule bit_eqI, auto simp: bit_simps dest: bit_imp_le_length)+

end
