(* ===== verification/Ktime.thy ===== *)
theory Ktime
  imports Lizard_Prelude
begin

text \<open>
  Time keeping: \<^verbatim>\<open>src/lizard/ktime.h\<close>, \<^verbatim>\<open>src/lizard/ktime.c\<close>, the BCD conversion and the
  register sequences of \<^verbatim>\<open>src/lizard/rtc.c\<close>, and \<^verbatim>\<open>days_in_month\<close> of
  \<^verbatim>\<open>src/lizard/helpers.c\<close>. \<^verbatim>\<open>i64\<close> values are \<open>int\<close>: their overflow is undefined in C. The two
  places where the code computes in \<^verbatim>\<open>u64\<close> (days since the epoch, the tick increment) are
  words, converted back with \<open>sint\<close>. \<open>sdiv\<close> and \<open>smod\<close> truncate as C division does. The CMOS
  chip behind the RTC ports is a parameter: the function from a register number to the byte
  that \<^verbatim>\<open>inb\<close> returns once that register is selected.
\<close>

section \<open>ktime.h\<close>

record time_spec =
  sec :: int
  nsec :: int

abbreviation NSEC_PER_SEC :: int where "NSEC_PER_SEC \<equiv> 1000000000"
abbreviation USEC_PER_SEC :: int where "USEC_PER_SEC \<equiv> 1000000"
abbreviation MSEC_PER_SEC :: int where "MSEC_PER_SEC \<equiv> 1000"
abbreviation NSEC_PER_MSEC :: int where "NSEC_PER_MSEC \<equiv> 1000000"
abbreviation NSEC_PER_USEC :: int where "NSEC_PER_USEC \<equiv> 1000"

definition timespec_is_normalized :: "time_spec \<Rightarrow> bool" where
  "timespec_is_normalized ts \<longleftrightarrow> nsec ts \<ge> 0 \<and> nsec ts < NSEC_PER_SEC"

definition timespec_normalize :: "time_spec \<Rightarrow> time_spec" where
  "timespec_normalize ts =
     (let ts1 = (if nsec ts \<ge> NSEC_PER_SEC \<or> nsec ts \<le> - NSEC_PER_SEC
                 then ts\<lparr>sec := sec ts + nsec ts sdiv NSEC_PER_SEC,
                         nsec := nsec ts smod NSEC_PER_SEC\<rparr>
                 else ts)
      in if nsec ts1 < 0
         then ts1\<lparr>nsec := nsec ts1 + NSEC_PER_SEC, sec := sec ts1 - 1\<rparr>
         else ts1)"

definition timespec_to_ns :: "time_spec \<Rightarrow> int" where
  "timespec_to_ns ts = sec ts * NSEC_PER_SEC + nsec ts"

definition timespec_to_us :: "time_spec \<Rightarrow> int" where
  "timespec_to_us ts = sec ts * USEC_PER_SEC + nsec ts sdiv NSEC_PER_USEC"

definition timespec_to_ms :: "time_spec \<Rightarrow> int" where
  "timespec_to_ms ts = sec ts * MSEC_PER_SEC + nsec ts sdiv NSEC_PER_MSEC"

definition timespec_from_ns :: "int \<Rightarrow> time_spec" where
  "timespec_from_ns ns =
     (let ts = \<lparr>sec = ns sdiv NSEC_PER_SEC, nsec = ns smod NSEC_PER_SEC\<rparr>
      in if nsec ts < 0
         then ts\<lparr>nsec := nsec ts + NSEC_PER_SEC, sec := sec ts - 1\<rparr>
         else ts)"

definition timespec_from_us :: "int \<Rightarrow> time_spec" where
  "timespec_from_us us =
     \<lparr>sec = us sdiv USEC_PER_SEC, nsec = (us smod USEC_PER_SEC) * NSEC_PER_USEC\<rparr>"

definition timespec_from_ms :: "int \<Rightarrow> time_spec" where
  "timespec_from_ms ms =
     \<lparr>sec = ms sdiv MSEC_PER_SEC, nsec = (ms smod MSEC_PER_SEC) * NSEC_PER_MSEC\<rparr>"

definition timespec_add :: "time_spec \<Rightarrow> time_spec \<Rightarrow> time_spec" where
  "timespec_add a b = timespec_normalize \<lparr>sec = sec a + sec b, nsec = nsec a + nsec b\<rparr>"

definition timespec_sub :: "time_spec \<Rightarrow> time_spec \<Rightarrow> time_spec" where
  "timespec_sub a b = timespec_normalize \<lparr>sec = sec a - sec b, nsec = nsec a - nsec b\<rparr>"

definition timespec_lt :: "time_spec \<Rightarrow> time_spec \<Rightarrow> bool" where
  "timespec_lt a b \<longleftrightarrow> sec a < sec b \<or> (sec a = sec b \<and> nsec a < nsec b)"

section \<open>rtc.c and helpers.c\<close>

record rtc_timer =
  seconds :: u8
  seconds_alarm :: u8
  minutes :: u8
  minutes_alarm :: u8
  hours :: u8
  hours_alarm :: u8
  day_in_week :: u8
  day_of_month :: u8
  month :: u8
  year :: u8
  status_register_A :: u8
  status_register_B :: u8
  status_register_C :: u8
  status_register_D :: u8

text \<open>The C expressions are computed in \<^verbatim>\<open>int\<close> and cut to \<^verbatim>\<open>u8\<close> on return.\<close>

definition bcd_to_binary :: "u8 \<Rightarrow> u8" where
  "bcd_to_binary bcd = drop_bit 4 (bcd AND 0xF0) * 10 + (bcd AND 0x0F)"

definition binary_to_bcd :: "u8 \<Rightarrow> u8" where
  "binary_to_bcd b = push_bit 4 (b div 10) OR (b mod 10)"

text \<open>\<^verbatim>\<open>rtc_read\<close>: registers 0 to 0xD of the CMOS, each converted from BCD.\<close>

definition rtc_read_b :: "(u8 \<Rightarrow> u8) \<Rightarrow> u8 \<Rightarrow> u8" where
  "rtc_read_b cmos reg = bcd_to_binary (cmos reg)"

definition rtc_read :: "(u8 \<Rightarrow> u8) \<Rightarrow> rtc_timer" where
  "rtc_read cmos =
     \<lparr>seconds = rtc_read_b cmos 0, seconds_alarm = rtc_read_b cmos 1,
      minutes = rtc_read_b cmos 2, minutes_alarm = rtc_read_b cmos 3,
      hours = rtc_read_b cmos 4, hours_alarm = rtc_read_b cmos 5,
      day_in_week = rtc_read_b cmos 6, day_of_month = rtc_read_b cmos 7,
      month = rtc_read_b cmos 8, year = rtc_read_b cmos 9,
      status_register_A = rtc_read_b cmos 0xA, status_register_B = rtc_read_b cmos 0xB,
      status_register_C = rtc_read_b cmos 0xC, status_register_D = rtc_read_b cmos 0xD\<rparr>"

text \<open>\<^verbatim>\<open>rtc_write\<close>: the port writes it performs, in order; \<open>prev\<close> is what register B reads as.\<close>

type_synonym port_write = "u16 \<times> u8"

abbreviation RTC_COMMAND_PORT :: u16 where "RTC_COMMAND_PORT \<equiv> 0x70"
abbreviation RTC_DATA_PORT :: u16 where "RTC_DATA_PORT \<equiv> 0x71"

definition rtc_write_b :: "u8 \<Rightarrow> u8 \<Rightarrow> port_write list" where
  "rtc_write_b reg v = [(RTC_COMMAND_PORT, reg), (RTC_DATA_PORT, binary_to_bcd v)]"

definition rtc_write :: "u8 \<Rightarrow> rtc_timer \<Rightarrow> port_write list" where
  "rtc_write prev t =
     [(RTC_COMMAND_PORT, 0x8B), (RTC_COMMAND_PORT, 0x8B), (RTC_DATA_PORT, prev OR 0x80)]
     @ rtc_write_b 0 (seconds t) @ rtc_write_b 2 (minutes t) @ rtc_write_b 4 (hours t)
     @ rtc_write_b 7 (day_of_month t) @ rtc_write_b 8 (month t)
     @ rtc_write_b 9 (year t mod 100)
     @ [(RTC_COMMAND_PORT, 0x8B), (RTC_DATA_PORT, prev AND NOT 0x80)]"

text \<open>\<^verbatim>\<open>days_in_month\<close> of helpers.c; \<open>None\<close> is a read outside its table.\<close>

definition days_in_month :: "int \<Rightarrow> int \<Rightarrow> int option" where
  "days_in_month mon y =
     (if mon = 2 \<and> ((y smod 4 = 0 \<and> y smod 100 \<noteq> 0) \<or> y smod 400 = 0) then Some 29
      else if mon < 1 \<or> mon > 12 then None
      else Some ([31, 28, 31, 30, 31, 30, 31, 31, 30, 31, 30, 31] ! nat (mon - 1)))"

section \<open>ktime.c\<close>

definition is_leap_year :: "int \<Rightarrow> bool" where
  "is_leap_year y \<longleftrightarrow> (y smod 4 = 0 \<and> y smod 100 \<noteq> 0) \<or> y smod 400 = 0"

definition days_before_month :: "u64 list list" where
  "days_before_month =
     [[0, 31, 59, 90, 120, 151, 181, 212, 243, 273, 304, 334],
      [0, 31, 60, 91, 121, 152, 182, 213, 244, 274, 305, 335]]"

definition days_before_year :: "int \<Rightarrow> u64" where
  "days_before_year y =
     (let years = word_of_int (y - 1970) :: u64
      in years * 365 + (years + 1) div 4 - (years + 69) div 100 + (years + 369) div 400)"

text \<open>\<open>None\<close> is the out-of-range read of \<^verbatim>\<open>days_before_month\<close>.\<close>

definition rtc_to_timespec :: "rtc_timer \<Rightarrow> time_spec option" where
  "rtc_to_timespec t =
     (let y = 2000 + uint (year t);
          m = unat (month t)
      in if m < 1 \<or> m > 12 then None
         else
           (let days = days_before_year y
                       + days_before_month ! (if is_leap_year y then 1 else 0) ! (m - 1)
                       + (ucast (day_of_month t) - 1)
            in Some \<lparr>sec = sint (days * 86400 + ucast (hours t) * 3600
                                 + ucast (minutes t) * 60 + ucast (seconds t) :: u64),
                     nsec = 0\<rparr>))"

record time_state =
  wall_clock :: time_spec
  mono_clock :: time_spec
  boot_wall :: time_spec
  boot_mono :: time_spec

definition time_init :: "(u8 \<Rightarrow> u8) \<Rightarrow> time_state option" where
  "time_init cmos =
     map_option
       (\<lambda>w. \<lparr>wall_clock = w, mono_clock = \<lparr>sec = 0, nsec = 0\<rparr>,
             boot_wall = w, boot_mono = \<lparr>sec = 0, nsec = 0\<rparr>\<rparr>)
       (rtc_to_timespec (rtc_read cmos))"

text \<open>\<^verbatim>\<open>nsec += delta_ns\<close> adds an \<^verbatim>\<open>i64\<close> and a \<^verbatim>\<open>u64\<close>: the sum is a \<^verbatim>\<open>u64\<close>, stored as \<^verbatim>\<open>i64\<close>.\<close>

definition add_nsec :: "u64 \<Rightarrow> time_spec \<Rightarrow> time_spec" where
  "add_nsec delta_ns ts = ts\<lparr>nsec := sint (word_of_int (nsec ts) + delta_ns)\<rparr>"

definition time_tick_ns :: "u64 \<Rightarrow> time_state \<Rightarrow> time_state" where
  "time_tick_ns delta_ns s =
     (let s1 = s\<lparr>mono_clock := timespec_normalize (add_nsec delta_ns (mono_clock s))\<rparr>
      in s1\<lparr>wall_clock := timespec_normalize (add_nsec delta_ns (wall_clock s1))\<rparr>)"

definition timespec_uptime :: "time_state \<Rightarrow> time_spec" where
  "timespec_uptime s =
     timespec_normalize \<lparr>sec = sec (mono_clock s) - sec (boot_mono s),
                         nsec = nsec (mono_clock s) - nsec (boot_mono s)\<rparr>"

definition time_uptime_ns :: "time_state \<Rightarrow> int" where
  "time_uptime_ns s = timespec_to_ns (timespec_uptime s)"

definition time_uptime_us :: "time_state \<Rightarrow> int" where
  "time_uptime_us s = timespec_to_us (timespec_uptime s)"

definition time_uptime_ms :: "time_state \<Rightarrow> int" where
  "time_uptime_ms s = timespec_to_ms (timespec_uptime s)"

definition time_now :: "time_state \<Rightarrow> time_spec" where
  "time_now s = wall_clock s"

text \<open>The two loops of \<^verbatim>\<open>timespec_split\<close>; in the month loop, \<open>None\<close> is a read past \<^verbatim>\<open>mdays\<close>.\<close>

function split_years :: "int \<Rightarrow> int \<Rightarrow> int \<times> int" where
  "split_years days y =
     (let diy = (if is_leap_year y then 366 else 365)
      in if days < diy then (days, y) else split_years (days - diy) (y + 1))"
  by pat_completeness auto
termination
  by (relation "measure (\<lambda>(days, y). nat days)") (auto split: if_splits)

definition mdays :: "int list" where
  "mdays = [31, 28, 31, 30, 31, 30, 31, 31, 30, 31, 30, 31]"

function split_months :: "int \<Rightarrow> int \<Rightarrow> nat \<Rightarrow> (int \<times> nat) option" where
  "split_months days y m =
     (if m \<ge> 12 then None
      else
        (let dim = mdays ! m + (if m = 1 \<and> is_leap_year y then 1 else 0)
         in if days < dim then Some (days, m) else split_months (days - dim) y (Suc m)))"
  by pat_completeness auto
termination
  by (relation "measure (\<lambda>(days, y, m). 12 - m)") auto

declare split_years.simps [simp del] split_months.simps [simp del]

record calendar =
  c_year :: int
  c_month :: int
  c_day :: int
  c_hour :: int
  c_min :: int
  c_sec :: int

definition timespec_split :: "time_spec \<Rightarrow> calendar option" where
  "timespec_split ts =
     (let s = sec ts;
          days0 = s sdiv 86400;
          rem0 = s smod 86400;
          (rem1, days1) = (if rem0 < 0 then (rem0 + 86400, days0 - 1) else (rem0, days0));
          h = rem1 sdiv 3600;
          rem2 = rem1 smod 3600;
          mi = rem2 sdiv 60;
          se = rem2 smod 60;
          (days2, y) = split_years days1 1970
      in case split_months days2 y 0 of
           None \<Rightarrow> None
         | Some (days3, m) \<Rightarrow>
             Some \<lparr>c_year = y, c_month = int m + 1, c_day = days3 + 1,
                   c_hour = h, c_min = mi, c_sec = se\<rparr>)"

definition timespec_get_day :: "time_spec \<Rightarrow> int option" where
  "timespec_get_day ts = map_option c_day (timespec_split ts)"

definition timespec_get_month :: "time_spec \<Rightarrow> int option" where
  "timespec_get_month ts = map_option c_month (timespec_split ts)"

definition timespec_get_year :: "time_spec \<Rightarrow> int option" where
  "timespec_get_year ts = map_option c_year (timespec_split ts)"

definition timespec_get_hour :: "time_spec \<Rightarrow> int option" where
  "timespec_get_hour ts = map_option c_hour (timespec_split ts)"

definition timespec_get_min :: "time_spec \<Rightarrow> int option" where
  "timespec_get_min ts = map_option c_min (timespec_split ts)"

definition timespec_get_sec :: "time_spec \<Rightarrow> int option" where
  "timespec_get_sec ts = map_option c_sec (timespec_split ts)"

section \<open>Normalisation and conversions\<close>

lemma timespec_to_ns_normalize [simp]:
  "timespec_to_ns (timespec_normalize ts) = timespec_to_ns ts"
  using sdiv_mult_smod_eq [of "nsec ts" NSEC_PER_SEC]
  by (auto simp: timespec_normalize_def timespec_to_ns_def Let_def algebra_simps)

lemma smod_bounds: "0 < l \<Longrightarrow> - l < k smod l \<and> k smod l < l" for k l :: int
  using pos_mod_bound [of l k] pos_mod_sign [of l k] pos_mod_bound [of l "- k"]
    pos_mod_sign [of l "- k"] smod_neg [of k l] smod_nonneg [of k l]
  by linarith

lemma smod_eq_0_iff: "0 < l \<Longrightarrow> k smod l = 0 \<longleftrightarrow> l dvd k" for k l :: int
  by (cases "k < 0") (simp_all add: smod_neg smod_nonneg dvd_eq_mod_eq_0 [symmetric])

lemma smod_sign: "0 < l \<Longrightarrow> 0 \<le> k smod l \<longleftrightarrow> 0 \<le> k \<or> l dvd k" for k l :: int
proof (cases "k < 0")
  case True
  assume l: "0 < l"
  then have "0 \<le> k smod l \<longleftrightarrow> k smod l = 0"
    using smod_neg [OF True l] pos_mod_sign [OF l, of "- k"] by linarith
  then show ?thesis
    using True l by (simp add: smod_eq_0_iff)
next
  case False
  assume "0 < l"
  with False show ?thesis by (simp add: smod_nonneg)
qed

lemma timespec_normalize_normalized: "timespec_is_normalized (timespec_normalize ts)"
  using smod_bounds [of NSEC_PER_SEC "nsec ts"]
  by (auto simp: timespec_normalize_def timespec_is_normalized_def Let_def)

text \<open>A normalised value is determined by its nanosecond count.\<close>

lemma normalized_div_mod:
  "timespec_is_normalized ts \<Longrightarrow>
    sec ts = timespec_to_ns ts div NSEC_PER_SEC \<and> nsec ts = timespec_to_ns ts mod NSEC_PER_SEC"
  by (auto simp: timespec_is_normalized_def timespec_to_ns_def)

lemma sec_normalize: "sec (timespec_normalize ts) = timespec_to_ns ts div NSEC_PER_SEC"
  and nsec_normalize: "nsec (timespec_normalize ts) = timespec_to_ns ts mod NSEC_PER_SEC"
  using normalized_div_mod [OF timespec_normalize_normalized, of ts] by simp_all

lemma timespec_to_ms_normalized:
  "timespec_is_normalized ts \<Longrightarrow> timespec_to_ms ts = timespec_to_ns ts div NSEC_PER_MSEC"
  by (auto simp: timespec_is_normalized_def timespec_to_ms_def timespec_to_ns_def sdiv_nonneg)


section \<open>The two clocks\<close>

text \<open>One tick of the timer interrupt: \<^verbatim>\<open>isr_pit\<close> calls \<^verbatim>\<open>time_tick_ns(1000000)\<close>.\<close>

lemma sint_add_small:
  assumes "0 \<le> x" "x + uint d < 2 ^ 63"
  shows "sint (word_of_int x + d :: u64) = x + uint d"
proof -
  have "uint (word_of_int x + d :: u64) = (x + uint d) mod 2 ^ 64"
    by (simp add: uint_word_ariths uint_word_of_int mod_simps)
  also have "\<dots> = x + uint d"
    using assms by (intro mod_pos_pos_trivial) auto
  finally have "uint (word_of_int x + d :: u64) = x + uint d" .
  then show ?thesis
    using assms(2) sint_eq_uint_small [of "word_of_int x + d"] by simp
qed

lemma timespec_to_ns_add_nsec:
  assumes "timespec_is_normalized ts" and "uint d \<le> 2 ^ 62"
  shows "timespec_to_ns (add_nsec d ts) = timespec_to_ns ts + uint d"
proof -
  have "sint (word_of_int (nsec ts) + d) = nsec ts + uint d"
    using assms by (intro sint_add_small) (auto simp: timespec_is_normalized_def)
  then show ?thesis
    by (simp add: add_nsec_def timespec_to_ns_def)
qed

text \<open>The clock state reached after any number of ticks from boot.\<close>

definition clocks_ok :: "time_state \<Rightarrow> time_spec \<Rightarrow> int \<Rightarrow> bool" where
  "clocks_ok s w n \<longleftrightarrow>
     timespec_is_normalized (mono_clock s) \<and> timespec_is_normalized (wall_clock s) \<and>
     boot_mono s = \<lparr>sec = 0, nsec = 0\<rparr> \<and> boot_wall s = w \<and>
     timespec_to_ns (mono_clock s) = n \<and>
     timespec_to_ns (wall_clock s) = timespec_to_ns w + n"

lemma clocks_ok_tick:
  "clocks_ok s w n \<Longrightarrow> uint d \<le> 2 ^ 62 \<Longrightarrow> clocks_ok (time_tick_ns d s) w (n + uint d)"
  by (simp add: clocks_ok_def time_tick_ns_def Let_def timespec_normalize_normalized
      timespec_to_ns_add_nsec)

lemma clocks_ok_init: "time_init cmos = Some s \<Longrightarrow> clocks_ok s (wall_clock s) 0"
  by (auto simp: time_init_def clocks_ok_def rtc_to_timespec_def Let_def timespec_to_ns_def
      timespec_is_normalized_def split: if_splits)

lemma clocks_ok_ticks:
  assumes "clocks_ok s w n" and "uint d \<le> 2 ^ 62"
  shows "clocks_ok ((time_tick_ns d ^^ k) s) w (n + int k * uint d)"
proof (induction k)
  case 0
  then show ?case using assms(1) by simp
next
  case (Suc k)
  then show ?case
    using clocks_ok_tick [OF Suc assms(2)] by (simp add: algebra_simps)
qed

lemma uptime_clocks_ok: "clocks_ok s w n \<Longrightarrow> time_uptime_ms s = n div NSEC_PER_MSEC"
  by (simp add: clocks_ok_def time_uptime_ms_def timespec_uptime_def
      timespec_to_ms_normalized [OF timespec_normalize_normalized])
    (simp add: timespec_to_ns_def)


section \<open>The calendar\<close>

abbreviation diy :: "int \<Rightarrow> int" where
  "diy y \<equiv> (if is_leap_year y then 366 else 365)"

text \<open>Days from 1 January 1970 to 1 January of year \<open>1970 + n\<close>.\<close>

definition epoch_days :: "nat \<Rightarrow> int" where
  "epoch_days n = (\<Sum>k<n. diy (1970 + int k))"

lemma is_leap_year_dvd:
  "is_leap_year (1970 + int n) \<longleftrightarrow>
    (4 dvd n + 2 \<and> \<not> 100 dvd n + 70) \<or> 400 dvd n + 370"
proof -
  have "(1970 + int n) mod int k = 0 \<longleftrightarrow> k dvd 1970 + n" for k
    by (metis mod_0_imp_dvd dvd_imp_mod_0 of_nat_dvd_iff of_nat_add of_nat_numeral)
  from this [of 4] this [of 100] this [of 400] show ?thesis
    using dvd_add_right_iff [of 4 1968 "n + 2"] dvd_add_right_iff [of 100 1900 "n + 70"]
      dvd_add_right_iff [of 400 1600 "n + 370"]
    by (simp add: is_leap_year_def smod_nonneg)
qed

lemma div_Suc_dvd: "0 < k \<Longrightarrow> Suc m div k = m div k + (if k dvd Suc m then 1 else 0)"
  by (simp add: div_Suc dvd_eq_mod_eq_0)

lemma epoch_days_closed:
  "epoch_days n = int (n * 365 + (n + 1) div 4 + (n + 369) div 400) - int ((n + 69) div 100)"
proof (induction n)
  case 0
  then show ?case by (simp add: epoch_days_def)
next
  case (Suc n)
  have imp: "400 dvd n + 370 \<Longrightarrow> 100 dvd n + 70" "100 dvd n + 70 \<Longrightarrow> 4 dvd n + 2"
    using dvd_trans [of 100 400 "n + 370"] dvd_add_right_iff [of 100 300 "n + 70"]
      dvd_trans [of 4 100 "n + 70"] dvd_add_right_iff [of 4 68 "n + 2"]
    by (simp_all add: add.commute)
  have "epoch_days (Suc n) = epoch_days n + diy (1970 + int n)"
    by (simp add: epoch_days_def)
  moreover have "diy (1970 + int n) = 365 + (if 4 dvd n + 2 then 1 else 0)
      - (if 100 dvd n + 70 then 1 else 0) + (if 400 dvd n + 370 then 1 else 0)"
    using imp by (simp add: is_leap_year_dvd)
  moreover have "(Suc n + 1) div 4 = (n + 1) div 4 + (if 4 dvd n + 2 then 1 else 0)"
    "(Suc n + 69) div 100 = (n + 69) div 100 + (if 100 dvd n + 70 then 1 else 0)"
    "(Suc n + 369) div 400 = (n + 369) div 400 + (if 400 dvd n + 370 then 1 else 0)"
    using div_Suc_dvd [of 4 "n + 1"] div_Suc_dvd [of 100 "n + 69"] div_Suc_dvd [of 400 "n + 369"]
    by (simp_all add: add.commute)
  ultimately show ?case
    using Suc by (simp only: mult_Suc of_nat_add) (simp split: if_split)
qed

lemma epoch_days_mono: "m \<le> n \<Longrightarrow> epoch_days m \<le> epoch_days n"
  unfolding epoch_days_def by (rule sum_mono2) auto

lemma unat_days_before_year:
  assumes n: "n < 2 ^ 32"
  shows "int (unat (days_before_year (1970 + int n))) = epoch_days n"
proof -
  define w :: u64 where "w = word_of_nat n"
  have w: "unat w = n"
    using n by (simp add: w_def unat_of_nat)
  have a: "unat (w * 365) = n * 365" "unat (w + 1) = n + 1" "unat (w + 69) = n + 69"
    "unat (w + 369) = n + 369"
    using n w by (simp_all add: unat_word_ariths)
  have b: "unat (w * 365 + (w + 1) div 4) = n * 365 + (n + 1) div 4"
    using n a by (simp add: unat_word_ariths(1) unat_div)
  have "(n + 69) div 100 \<le> n * 365 + (n + 1) div 4"
    by linarith
  then have c: "unat (w * 365 + (w + 1) div 4 - (w + 69) div 100)
      = n * 365 + (n + 1) div 4 - (n + 69) div 100"
    using a b by (simp add: unat_sub word_le_nat_alt unat_div)
  have "unat (w * 365 + (w + 1) div 4 - (w + 69) div 100 + (w + 369) div 400)
      = n * 365 + (n + 1) div 4 - (n + 69) div 100 + (n + 369) div 400"
    using n a c by (subst unat_add_lem [THEN iffD1]) (simp_all add: unat_div)
  moreover have "days_before_year (1970 + int n)
      = w * 365 + (w + 1) div 4 - (w + 69) div 100 + (w + 369) div 400"
    by (simp add: days_before_year_def w_def Let_def)
  ultimately show ?thesis
    using \<open>(n + 69) div 100 \<le> n * 365 + (n + 1) div 4\<close> by (simp add: epoch_days_closed)
qed

lemma split_years_epoch_days:
  assumes "0 \<le> d" "d < diy (1970 + int (m + n))"
  shows "split_years (d + epoch_days (m + n) - epoch_days m) (1970 + int m)
    = (d, 1970 + int (m + n))"
  using assms
proof (induction n arbitrary: m)
  case 0
  then show ?case by (subst split_years.simps) simp
next
  case (Suc n)
  have mono: "epoch_days (Suc m) \<le> epoch_days (Suc m + n)"
    by (rule epoch_days_mono) simp
  have step: "epoch_days (Suc m) = epoch_days m + diy (1970 + int m)"
    by (simp add: epoch_days_def)
  have "split_years (d + epoch_days (Suc m + n) - epoch_days (Suc m)) (1970 + int (Suc m))
      = (d, 1970 + int (Suc m + n))"
    by (rule Suc.IH) (use Suc.prems in \<open>simp_all add: algebra_simps\<close>)
  then show ?case
    using mono step Suc.prems(1)
    by (subst split_years.simps) (simp add: Let_def algebra_simps)
qed


definition mlen :: "int \<Rightarrow> nat \<Rightarrow> int" where
  "mlen y m = mdays ! m + (if m = 1 \<and> is_leap_year y then 1 else 0)"

definition mcum :: "int \<Rightarrow> nat \<Rightarrow> int" where
  "mcum y m = (\<Sum>j<m. mlen y j)"

lemma less_12_cases:
  "m < (12::nat) \<Longrightarrow> m = 0 \<or> m = 1 \<or> m = 2 \<or> m = 3 \<or> m = 4 \<or> m = 5 \<or> m = 6 \<or> m = 7 \<or> m = 8 \<or>
    m = 9 \<or> m = 10 \<or> m = 11"
  by presburger

lemma mlen_pos: "m < 12 \<Longrightarrow> 0 < mlen y m"
  unfolding mlen_def mdays_def by (drule less_12_cases) (elim disjE; simp)

lemma mcum_12: "mcum y 12 = diy y"
  by (simp add: mcum_def mlen_def mdays_def eval_nat_numeral)

lemma mcum_mono: "m \<le> n \<Longrightarrow> n \<le> 12 \<Longrightarrow> mcum y m \<le> mcum y n"
  unfolding mcum_def by (rule sum_mono2) (auto intro!: less_imp_le [OF mlen_pos])

lemma days_before_month_mcum:
  "m < 12 \<Longrightarrow> uint (days_before_month ! (if is_leap_year y then 1 else 0) ! m) = mcum y m"
  unfolding mcum_def mlen_def mdays_def days_before_month_def
  by (drule less_12_cases) (elim disjE; simp add: lessThan_nat_numeral lessThan_Suc)

lemma days_in_month_mlen:
  "m < 12 \<Longrightarrow> days_in_month (int m + 1) y = Some (mlen y m)"
  by (auto simp: days_in_month_def mlen_def mdays_def is_leap_year_def)

lemma split_months_mcum:
  assumes "k + n < 12" "0 \<le> d" "d < mlen y (k + n)"
  shows "split_months (d + mcum y (k + n) - mcum y k) y k = Some (d, k + n)"
  using assms
proof (induction n arbitrary: k)
  case 0
  then show ?case by (subst split_months.simps) (simp add: mlen_def)
next
  case (Suc n)
  have step: "mcum y (Suc k) = mcum y k + mlen y k"
    by (simp add: mcum_def)
  have "mcum y (Suc k) \<le> mcum y (Suc k + n)"
    using Suc.prems(1) by (intro mcum_mono) auto
  moreover have "split_months (d + mcum y (Suc k + n) - mcum y (Suc k)) y (Suc k)
      = Some (d, Suc k + n)"
    using Suc.prems by (intro Suc.IH) auto
  ultimately show ?case
    using step Suc.prems
    by (subst split_months.simps) (simp add: mlen_def Let_def algebra_simps)
qed

lemma split_years_total:
  "0 \<le> days \<Longrightarrow> y = 1970 + int m \<Longrightarrow>
    \<exists>d n. split_years days y = (d, 1970 + int (m + n)) \<and> 0 \<le> d \<and> d < diy (1970 + int (m + n)) \<and>
          days = d + epoch_days (m + n) - epoch_days m"
proof (induction days y arbitrary: m rule: split_years.induct)
  case (1 days y)
  show ?case
  proof (cases "days < diy y")
    case True
    then show ?thesis
      using "1.prems" by (intro exI [of _ days] exI [of _ 0]) (auto simp: split_years.simps [of days])
  next
    case False
    have e: "epoch_days (Suc m) = epoch_days m + diy y"
      using "1.prems" by (simp add: epoch_days_def)
    have r: "split_years days y = split_years (days - diy y) (y + 1)"
      using False by (subst split_years.simps) (simp add: Let_def)
    obtain d n where spl: "split_years (days - diy y) (y + 1) = (d, 1970 + int (Suc m + n))"
      and d: "0 \<le> d" "d < diy (1970 + int (Suc m + n))"
      "days - diy y = d + epoch_days (Suc m + n) - epoch_days (Suc m)"
      using "1.IH" [OF refl False, of "Suc m"] False "1.prems" by auto
    have "split_years days y = (d, 1970 + int (m + Suc n))"
      by (simp only: r spl add_Suc_right add_Suc)
    moreover have "days = d + epoch_days (m + Suc n) - epoch_days m"
      using d(3) e by simp
    ultimately show ?thesis
      using d(1,2) by (intro exI [of _ d] exI [of _ "Suc n"]) simp
  qed
qed

lemma split_months_total:
  assumes "0 \<le> d" "d < diy y"
  shows "\<exists>e m. split_months d y 0 = Some (e, m) \<and> m < 12 \<and> 0 \<le> e \<and> e < mlen y m \<and> d = e + mcum y m"
proof -
  let ?P = "\<lambda>m. m < 12 \<and> mcum y m \<le> d"
  define m where "m = Greatest ?P"
  have "?P 0" using assms by (simp add: mcum_def)
  then have m: "?P m" unfolding m_def by (rule GreatestI_nat [where b = 12]) simp
  have "\<not> ?P (Suc m)"
    unfolding m_def using Greatest_le_nat [of ?P "Suc (Greatest ?P)" 12] by auto
  then have "d < mcum y (Suc m)"
    using m assms(2) mcum_12 [of y] by (cases "Suc m = 12") auto
  then have lt: "d - mcum y m < mlen y m"
    by (simp add: mcum_def)
  have "split_months (d - mcum y m + mcum y (0 + m) - mcum y 0) y 0 = Some (d - mcum y m, 0 + m)"
    by (rule split_months_mcum) (use m lt in auto)
  then have "split_months d y 0 = Some (d - mcum y m, m)"
    by (simp add: mcum_def)
  then show ?thesis
    using m lt by auto
qed


text \<open>The time of day, and the calendar fields that make up a count of seconds.\<close>

definition calendar_ok :: "calendar \<Rightarrow> bool" where
  "calendar_ok c \<longleftrightarrow>
     1970 \<le> c_year c \<and> 1 \<le> c_month c \<and> c_month c \<le> 12 \<and>
     (\<exists>l. days_in_month (c_month c) (c_year c) = Some l \<and> 1 \<le> c_day c \<and> c_day c \<le> l) \<and>
     0 \<le> c_hour c \<and> c_hour c < 24 \<and> 0 \<le> c_min c \<and> c_min c < 60 \<and> 0 \<le> c_sec c \<and> c_sec c < 60"

definition calendar_secs :: "calendar \<Rightarrow> int" where
  "calendar_secs c =
     (epoch_days (nat (c_year c - 1970)) + mcum (c_year c) (nat (c_month c - 1)) + (c_day c - 1)) * 86400
     + c_hour c * 3600 + c_min c * 60 + c_sec c"

lemma time_of_day:
  assumes "0 \<le> h" "h < 24" "0 \<le> mi" "mi < 60" "0 \<le> se" "se < (60::int)"
  shows "(D * 86400 + h * 3600 + mi * 60 + se) div 86400 = D"
    and "(D * 86400 + h * 3600 + mi * 60 + se) mod 86400 = h * 3600 + mi * 60 + se"
    and "(h * 3600 + mi * 60 + se) div 3600 = h"
    and "(h * 3600 + mi * 60 + se) mod 3600 = mi * 60 + se"
    and "(mi * 60 + se) div 60 = mi"
    and "(mi * 60 + se) mod 60 = se"
proof -
  have q: "(q * b + r) div b = q" "(q * b + r) mod b = r" if "0 \<le> r" "r < b" for q r b :: int
    using that by (simp_all add: div_add1_eq mod_add_eq [symmetric])
  show "(D * 86400 + h * 3600 + mi * 60 + se) div 86400 = D"
    "(D * 86400 + h * 3600 + mi * 60 + se) mod 86400 = h * 3600 + mi * 60 + se"
    using q [of "h * 3600 + mi * 60 + se" 86400 D] assms by (simp_all add: add.assoc)
  show "(h * 3600 + mi * 60 + se) div 3600 = h" "(h * 3600 + mi * 60 + se) mod 3600 = mi * 60 + se"
    using q [of "mi * 60 + se" 3600 h] assms by (simp_all add: add.assoc)
  show "(mi * 60 + se) div 60 = mi" "(mi * 60 + se) mod 60 = se"
    using q [of se 60 mi] assms by simp_all
qed

lemma timespec_split_calendar:
  assumes c: "calendar_ok c" and s: "sec ts = calendar_secs c"
  shows "timespec_split ts = Some c"
proof -
  define n where "n = nat (c_year c - 1970)"
  define m where "m = nat (c_month c - 1)"
  define D where "D = epoch_days n + mcum (c_year c) m + (c_day c - 1)"
  have y: "c_year c = 1970 + int n" and mo: "c_month c = int m + 1" and m12: "m < 12"
    using c by (auto simp: calendar_ok_def n_def m_def)
  have d: "0 \<le> c_day c - 1" "c_day c - 1 < mlen (c_year c) m"
    using c m12 by (auto simp: calendar_ok_def mo days_in_month_mlen)
  have tod: "0 \<le> c_hour c" "c_hour c < 24" "0 \<le> c_min c" "c_min c < 60" "0 \<le> c_sec c" "c_sec c < 60"
    using c by (auto simp: calendar_ok_def)
  have sec: "sec ts = D * 86400 + c_hour c * 3600 + c_min c * 60 + c_sec c"
    by (simp add: s calendar_secs_def D_def n_def m_def)
  have c0: "0 \<le> mcum (c_year c) m"
    using mcum_mono [of 0 m] m12 by (simp add: mcum_def)
  have cle: "mcum (c_year c) m + mlen (c_year c) m \<le> diy (c_year c)"
    using mcum_mono [of "Suc m" 12 "c_year c"] m12 mcum_12 [of "c_year c"] by (simp add: mcum_def)
  have "split_years (mcum (c_year c) m + (c_day c - 1) + epoch_days (0 + n) - epoch_days 0) (1970 + int 0)
      = (mcum (c_year c) m + (c_day c - 1), 1970 + int (0 + n))"
    by (rule split_years_epoch_days) (use d c0 cle y in auto)
  then have yrs: "split_years D 1970 = (mcum (c_year c) m + (c_day c - 1), c_year c)"
    by (simp add: D_def y epoch_days_def algebra_simps)
  have "split_months (c_day c - 1 + mcum (c_year c) (0 + m) - mcum (c_year c) 0) (c_year c) 0
      = Some (c_day c - 1, 0 + m)"
    by (rule split_months_mcum) (use d m12 in auto)
  then have mts: "split_months (mcum (c_year c) m + (c_day c - 1)) (c_year c) 0 = Some (c_day c - 1, m)"
    by (simp add: mcum_def add.commute)
  have "0 \<le> D"
    using d c0 epoch_days_mono [of 0 n] by (simp add: D_def epoch_days_def)
  then have "0 \<le> sec ts"
    using tod by (simp add: sec)
  then show ?thesis
    using tod time_of_day(1,2) [OF tod, of D] time_of_day(3-6) [OF tod]
    by (simp add: timespec_split_def sec sdiv_nonneg smod_nonneg yrs mts mo)
qed

text \<open>
  Conversely every non-negative count of seconds is that of exactly one valid calendar
  date, the one \<^verbatim>\<open>timespec_split\<close> computes.
\<close>

lemma timespec_split_total:
  assumes s: "0 \<le> sec ts"
  shows "\<exists>c. timespec_split ts = Some c \<and> calendar_ok c \<and> calendar_secs c = sec ts"
proof -
  define D r where "D = sec ts div 86400" and "r = sec ts mod 86400"
  have D: "0 \<le> D" and r: "0 \<le> r" "r < 86400" and sec: "sec ts = D * 86400 + r"
    using s by (auto simp: D_def r_def)
  obtain d n where y: "D = d + epoch_days n" "0 \<le> d" "d < diy (1970 + int n)"
    using split_years_total [OF D, of 1970 0] by (auto simp: epoch_days_def)
  obtain e m where m: "m < 12" "0 \<le> e" "e < mlen (1970 + int n) m" "d = e + mcum (1970 + int n) m"
    using split_months_total [OF y(2,3)] by auto
  let ?c = "\<lparr>c_year = 1970 + int n, c_month = int m + 1, c_day = e + 1,
    c_hour = r div 3600, c_min = r mod 3600 div 60, c_sec = r mod 3600 mod 60\<rparr>"
  have "r = r div 3600 * 3600 + r mod 3600 div 60 * 60 + r mod 3600 mod 60"
    by presburger
  then have "calendar_secs ?c = sec ts"
    by (simp add: calendar_secs_def y m sec)
  moreover have "0 \<le> r div 3600 \<and> r div 3600 < 24"
    using r by (auto simp: div_less_iff_less_mult pos_imp_zdiv_nonneg_iff)
  moreover have "r mod 3600 div 60 < 60 \<and> 0 \<le> r mod 3600 div 60"
    by (auto simp: div_less_iff_less_mult pos_imp_zdiv_nonneg_iff)
  ultimately have "calendar_ok ?c \<and> calendar_secs ?c = sec ts"
    using m by (simp add: calendar_ok_def days_in_month_mlen)
  then show ?thesis
    using timespec_split_calendar by metis
qed


section \<open>From the RTC to the calendar\<close>

definition rtc_calendar :: "rtc_timer \<Rightarrow> calendar" where
  "rtc_calendar t =
     \<lparr>c_year = 2000 + uint (year t), c_month = uint (month t), c_day = uint (day_of_month t),
      c_hour = uint (hours t), c_min = uint (minutes t), c_sec = uint (seconds t)\<rparr>"

lemma epoch_days_bound: "epoch_days n \<le> 366 * int n"
  by (induction n) (auto simp: epoch_days_def)

lemma sint_secs:
  fixes W :: u64 and h mi se :: u8
  assumes "uint W \<le> 200000" "uint h < 24" "uint mi < 60" "uint se < 60"
  shows "sint (W * 86400 + ucast h * 3600 + ucast mi * 60 + ucast se :: u64)
    = uint W * 86400 + uint h * 3600 + uint mi * 60 + uint se"
proof -
  have "uint (W * 86400 + ucast h * 3600 + ucast mi * 60 + ucast se :: u64)
      = uint W * 86400 + uint h * 3600 + uint mi * 60 + uint se"
    using assms by (simp add: uint_add_nowrap uint_mult_nowrap)
  then show ?thesis
    using assms by (subst sint_eq_uint_small) simp_all
qed

lemma rtc_to_timespec_secs:
  assumes c: "calendar_ok (rtc_calendar t)"
  shows "rtc_to_timespec t = Some \<lparr>sec = calendar_secs (rtc_calendar t), nsec = 0\<rparr>"
proof -
  define y where "y = 2000 + uint (year t)"
  define m where "m = unat (month t) - 1"
  have n: "nat (y - 1970) = 30 + unat (year t)" and y': "y = 1970 + int (30 + unat (year t))"
    by (simp_all add: y_def nat_add_distrib)
  have mb: "1 \<le> uint (month t)" "uint (month t) \<le> 12" and i: "int (unat (month t)) = uint (month t)"
    using c by (simp_all add: calendar_ok_def rtc_calendar_def)
  then have mo: "unat (month t) = Suc m" "uint (month t) = int m + 1" "m < 12"
    unfolding m_def by linarith+
  then have m: "nat (uint (month t) - 1) = m" by simp
  have day: "1 \<le> uint (day_of_month t)" and h: "uint (hours t) < 24" "uint (minutes t) < 60" "uint (seconds t) < 60"
    using c by (auto simp: calendar_ok_def rtc_calendar_def)
  define Y where "Y = epoch_days (30 + unat (year t))"
  have yb: "unat (year t) < 256" using unsigned_less [of "year t"] by simp
  have Yu: "uint (days_before_year y) = Y"
    using unat_days_before_year [of "30 + unat (year t)"] yb by (simp add: y' Y_def)
  have Yb: "0 \<le> Y" "Y \<le> 104676"
    using epoch_days_bound [of "30 + unat (year t)"] epoch_days_mono [of 0 "30 + unat (year t)"]
      uint_lt2p [of "year t"]
    by (auto simp: Y_def epoch_days_def)
  define M where "M = mcum y m"
  have Mu: "uint (days_before_month ! (if is_leap_year y then 1 else 0) ! m) = M"
    using mo(3) by (simp add: days_before_month_mcum M_def)
  have Mb: "0 \<le> M" "M \<le> 366"
    using mcum_mono [of 0 m y] mcum_mono [of m 12 y] mo(3) mcum_12 [of y]
    by (auto simp: M_def mcum_def split: if_splits)
  have db: "uint (day_of_month t) < 256" using uint_lt2p [of "day_of_month t"] by simp
  have du: "uint (ucast (day_of_month t) - 1 :: u64) = uint (day_of_month t) - 1"
    using day by (subst uint_sub_lem [THEN iffD1]) simp_all
  let ?days = "days_before_year y + days_before_month ! (if is_leap_year y then 1 else 0) ! m
    + (ucast (day_of_month t) - 1)"
  have "uint ?days = Y + M + (uint (day_of_month t) - 1)"
    using Yb Mb db by (simp add: uint_add_nowrap Yu Mu du)
  then have "sint (?days * 86400 + ucast (hours t) * 3600 + ucast (minutes t) * 60 + ucast (seconds t))
      = (Y + M + (uint (day_of_month t) - 1)) * 86400 + uint (hours t) * 3600
        + uint (minutes t) * 60 + uint (seconds t)"
    using sint_secs [of ?days "hours t" "minutes t" "seconds t"] Yb Mb db h by simp
  then show ?thesis
    using mo m n by (simp add: rtc_to_timespec_def Let_def calendar_secs_def rtc_calendar_def
        Y_def M_def flip: y_def)
qed

section \<open>Properties\<close>

text \<open>
  : counting timer interrupts. After \<open>k\<close> calls \<^verbatim>\<open>time_tick_ns(1000000)\<close>, as
  \<^verbatim>\<open>isr_pit\<close> makes them, the uptime is exactly \<open>k\<close> milliseconds and the wall clock is
  exactly \<open>k\<close> milliseconds past its boot value.
\<close>

theorem uptime_counts_ticks:
  assumes "time_init cmos = Some s"
  shows "time_uptime_ms ((time_tick_ns 1000000 ^^ k) s) = int k \<and>
    timespec_to_ns (time_now ((time_tick_ns 1000000 ^^ k) s)) = timespec_to_ns (time_now s) + int k * 1000000"
proof -
  have "clocks_ok ((time_tick_ns 1000000 ^^ k) s) (wall_clock s) (0 + int k * uint (1000000 :: u64))"
    by (rule clocks_ok_ticks [OF clocks_ok_init [OF assms]]) simp
  from this uptime_clocks_ok [OF this] show ?thesis
    by (simp add: clocks_ok_def time_now_def)
qed

theorem uptime_counts_ticks_witness:
  "time_init (\<lambda>r. if r = 7 \<or> r = 8 then 1 else 0) =
     Some \<lparr>wall_clock = \<lparr>sec = 946684800, nsec = 0\<rparr>, mono_clock = \<lparr>sec = 0, nsec = 0\<rparr>,
           boot_wall = \<lparr>sec = 946684800, nsec = 0\<rparr>, boot_mono = \<lparr>sec = 0, nsec = 0\<rparr>\<rparr> \<and>
   time_uptime_ms ((time_tick_ns 1000000 ^^ 1500)
     \<lparr>wall_clock = \<lparr>sec = 946684800, nsec = 0\<rparr>, mono_clock = \<lparr>sec = 0, nsec = 0\<rparr>,
      boot_wall = \<lparr>sec = 946684800, nsec = 0\<rparr>, boot_mono = \<lparr>sec = 0, nsec = 0\<rparr>\<rparr>) = 1500"
  (is "time_init ?c = Some ?s \<and> _")
proof -
  have i: "time_init ?c = Some ?s" by code_simp
  then show ?thesis using uptime_counts_ticks [OF i, of 1500] by simp
qed

text \<open>
  : \<^verbatim>\<open>timespec_normalize\<close>, and with it \<^verbatim>\<open>timespec_add\<close> and \<^verbatim>\<open>timespec_sub\<close>, is
  exact floor division: the result is in normal form and denotes the same (respectively the
  added or subtracted) number of nanoseconds, for operands of either sign.
\<close>

theorem timespec_arith_exact:
  "timespec_is_normalized (timespec_normalize ts) \<and>
   timespec_to_ns (timespec_normalize ts) = timespec_to_ns ts \<and>
   timespec_is_normalized (timespec_add a b) \<and>
   timespec_to_ns (timespec_add a b) = timespec_to_ns a + timespec_to_ns b \<and>
   timespec_is_normalized (timespec_sub a b) \<and>
   timespec_to_ns (timespec_sub a b) = timespec_to_ns a - timespec_to_ns b"
  by (simp add: timespec_normalize_normalized timespec_add_def timespec_sub_def)
    (simp add: timespec_to_ns_def algebra_simps)

text \<open>
  Property C40: the RTC date survives the conversion to seconds and back. For every valid
  RTC reading, \<^verbatim>\<open>rtc_to_timespec\<close> stays inside its tables and \<^verbatim>\<open>timespec_split\<close> of the result
  returns the year, month, day, hour, minute and second the RTC reported.
\<close>

theorem rtc_calendar_roundtrip:
  assumes "calendar_ok (rtc_calendar t)"
  shows "\<exists>ts. rtc_to_timespec t = Some ts \<and> timespec_split ts = Some (rtc_calendar t)"
  using rtc_to_timespec_secs [OF assms] timespec_split_calendar [OF assms] by simp

definition rtc_leap_day :: rtc_timer where
  "rtc_leap_day =
     \<lparr>seconds = 59, seconds_alarm = 0, minutes = 58, minutes_alarm = 0, hours = 23, hours_alarm = 0,
      day_in_week = 0, day_of_month = 29, month = 2, year = 24, status_register_A = 0,
      status_register_B = 0, status_register_C = 0, status_register_D = 0\<rparr>"

theorem rtc_calendar_roundtrip_witness:
  "calendar_ok (rtc_calendar rtc_leap_day) \<and>
   (\<exists>ts. rtc_to_timespec rtc_leap_day = Some ts \<and> timespec_split ts = Some (rtc_calendar rtc_leap_day))"
proof -
  have c: "calendar_ok (rtc_calendar rtc_leap_day)"
    by (simp add: calendar_ok_def rtc_calendar_def rtc_leap_day_def days_in_month_def smod_nonneg)
  from c rtc_calendar_roundtrip [OF c] show ?thesis by blast
qed

text \<open>
  : \<^verbatim>\<open>timespec_split\<close> is total and exact on times since the epoch: its loops stop
  without reading past the month table, its result is a valid calendar date, and that date
  determines the number of seconds again.
\<close>

theorem timespec_split_exact:
  assumes "0 \<le> sec ts"
  shows "\<exists>c. timespec_split ts = Some c \<and> calendar_ok c \<and> calendar_secs c = sec ts"
  using assms by (rule timespec_split_total)

theorem timespec_split_exact_witness:
  "(0::int) \<le> sec \<lparr>sec = 1709251139, nsec = 0\<rparr> \<and>
   (\<exists>c. timespec_split \<lparr>sec = 1709251139, nsec = 0\<rparr> = Some c \<and> calendar_ok c \<and>
        calendar_secs c = 1709251139)"
  using timespec_split_exact [of "\<lparr>sec = 1709251139, nsec = 0\<rparr>"] by simp

text \<open>
  : \<^verbatim>\<open>timespec_from_ms\<close> and \<^verbatim>\<open>timespec_from_us\<close> do not normalise negative values,
  unlike \<^verbatim>\<open>timespec_from_ns\<close>: their result has \<^verbatim>\<open>nsec\<close> in the documented range
  \<open>[0, NSEC_PER_SEC)\<close> exactly when the argument is non-negative or a whole number of seconds.
\<close>

theorem timespec_from_ms_us_normalized_iff:
  "timespec_is_normalized (timespec_from_ns ns) \<and>
   (timespec_is_normalized (timespec_from_ms ms) \<longleftrightarrow> 0 \<le> ms \<or> 1000 dvd ms) \<and>
   (timespec_is_normalized (timespec_from_us us) \<longleftrightarrow> 0 \<le> us \<or> 1000000 dvd us)"
  using smod_bounds [of NSEC_PER_SEC ns] smod_bounds [of MSEC_PER_SEC ms] smod_bounds [of USEC_PER_SEC us]
    smod_sign [of MSEC_PER_SEC ms] smod_sign [of USEC_PER_SEC us]
  by (auto simp: timespec_is_normalized_def timespec_from_ns_def timespec_from_ms_def
      timespec_from_us_def Let_def zero_le_mult_iff)

end
