(* ===== verification/Klist.thy ===== *)
theory Klist
  imports Lizard_Prelude "HOL-Library.Monad_Syntax"
begin

text \<open>
  The intrusive circular doubly-linked list of \<^verbatim>\<open>src/nolibc/list.h\<close>. The memory is an explicit
  store from the addresses of \<^verbatim>\<open>struct list_head\<close> cells to their two fields; an access to an
  address outside it (NULL included) is \<open>None\<close>, so a theorem that an operation returns
  \<open>Some\<close> also says it dereferences no bad pointer. The predicate \<open>dlist\<close> says which sequence of
  cells hangs off a list head; the locale \<open>kernel_list\<close> is the contract the rest of the
  kernel uses, interpreted on these operations. The other theories keep the members of a
  kernel list as a HOL list: \<open>list_add\<close> is \<open>(#)\<close>, \<open>list_add_tail\<close> appends, \<open>list_del\<close> removes.
\<close>

section \<open>list.h\<close>

type_synonym addr = u64

record list_head =
  lh_next :: addr
  lh_prev :: addr

type_synonym lheap = "addr \<rightharpoonup> list_head"

abbreviation NULL :: addr where "NULL \<equiv> 0"

definition load_next :: "lheap \<Rightarrow> addr \<Rightarrow> addr option" where
  "load_next h p = map_option lh_next (h p)"

definition load_prev :: "lheap \<Rightarrow> addr \<Rightarrow> addr option" where
  "load_prev h p = map_option lh_prev (h p)"

definition store_next :: "lheap \<Rightarrow> addr \<Rightarrow> addr \<Rightarrow> lheap option" where
  "store_next h p v = (case h p of None \<Rightarrow> None | Some c \<Rightarrow> Some (h(p \<mapsto> c\<lparr>lh_next := v\<rparr>)))"

definition store_prev :: "lheap \<Rightarrow> addr \<Rightarrow> addr \<Rightarrow> lheap option" where
  "store_prev h p v = (case h p of None \<Rightarrow> None | Some c \<Rightarrow> Some (h(p \<mapsto> c\<lparr>lh_prev := v\<rparr>)))"

definition InitListHead :: "lheap \<Rightarrow> addr \<Rightarrow> lheap option" where
  "InitListHead h l = do { h \<leftarrow> store_next h l l; store_prev h l l }"

definition list_add_between :: "lheap \<Rightarrow> addr \<Rightarrow> addr \<Rightarrow> addr \<Rightarrow> lheap option" where
  "list_add_between h new pr nx =
     do { h \<leftarrow> store_prev h nx new;
          h \<leftarrow> store_next h new nx;
          h \<leftarrow> store_prev h new pr;
          store_next h pr new }"

definition list_add :: "lheap \<Rightarrow> addr \<Rightarrow> addr \<Rightarrow> lheap option" where
  "list_add h new head = do { n \<leftarrow> load_next h head; list_add_between h new head n }"

definition list_add_tail :: "lheap \<Rightarrow> addr \<Rightarrow> addr \<Rightarrow> lheap option" where
  "list_add_tail h new head = do { p \<leftarrow> load_prev h head; list_add_between h new p head }"

definition list_del_between :: "lheap \<Rightarrow> addr \<Rightarrow> addr \<Rightarrow> lheap option" where
  "list_del_between h pr nx = do { h \<leftarrow> store_prev h nx pr; store_next h pr nx }"

definition list_del :: "lheap \<Rightarrow> addr \<Rightarrow> lheap option" where
  "list_del h entry =
     do { p \<leftarrow> load_prev h entry;
          n \<leftarrow> load_next h entry;
          h \<leftarrow> list_del_between h p n;
          h \<leftarrow> store_prev h entry NULL;
          store_next h entry NULL }"

definition list_move_tail :: "lheap \<Rightarrow> addr \<Rightarrow> addr \<Rightarrow> lheap option" where
  "list_move_tail h entry head = do { h \<leftarrow> list_del h entry; list_add_tail h entry head }"

definition list_move :: "lheap \<Rightarrow> addr \<Rightarrow> addr \<Rightarrow> lheap option" where
  "list_move h entry head = do { h \<leftarrow> list_del h entry; list_add h entry head }"

definition list_empty :: "lheap \<Rightarrow> addr \<Rightarrow> bool option" where
  "list_empty h head = do { n \<leftarrow> load_next h head; Some (n = head) }"

definition list_next :: "lheap \<Rightarrow> addr \<Rightarrow> addr \<Rightarrow> addr option" where
  "list_next h pos head =
     do { n \<leftarrow> load_next h pos; if n = head then load_next h n else Some n }"

text \<open>
  \<^verbatim>\<open>list_for_each\<close> with its look-ahead pointer: the positions it visits, in order. A corrupt list
  may make the loop endless, so it is \<open>partial_function\<close>: \<open>None\<close> is a bad access or no end.
\<close>

partial_function (option) list_walk :: "lheap \<Rightarrow> addr \<Rightarrow> addr \<Rightarrow> addr list \<Rightarrow> addr list option" where
  "list_walk h head pos acc =
     (if pos = head then Some (rev acc)
      else do { tmp \<leftarrow> load_next h pos; list_walk h head tmp (pos # acc) })"

definition list_for_each :: "lheap \<Rightarrow> addr \<Rightarrow> addr list option" where
  "list_for_each h head = do { n \<leftarrow> load_next h head; list_walk h head n [] }"

section \<open>Which cells hang off a list head\<close>

definition linked :: "lheap \<Rightarrow> addr \<Rightarrow> addr \<Rightarrow> bool" where
  "linked h a b \<longleftrightarrow> load_next h a = Some b \<and> load_prev h b = Some a"

fun chain :: "lheap \<Rightarrow> addr \<Rightarrow> addr list \<Rightarrow> addr \<Rightarrow> bool" where
  "chain h a [] z = linked h a z"
| "chain h a (x # xs) z = (linked h a x \<and> chain h x xs z)"

definition dlist :: "lheap \<Rightarrow> addr \<Rightarrow> addr list \<Rightarrow> bool" where
  "dlist h head xs \<longleftrightarrow> chain h head xs head \<and> distinct (head # xs)"

lemmas list_heap_defs = load_next_def load_prev_def store_next_def store_prev_def

section \<open>Chains\<close>

lemma chain_append: "chain h a (xs @ y # ys) z \<longleftrightarrow> chain h a xs y \<and> chain h y ys z"
  by (induction xs arbitrary: a) auto

lemma linked_cong:
  "load_next h' a = load_next h a \<Longrightarrow> load_prev h' b = load_prev h b \<Longrightarrow> linked h' a b = linked h a b"
  by (simp add: linked_def)

lemma chain_cong:
  assumes "\<And>p. p \<in> set (a # xs) \<Longrightarrow> load_next h' p = load_next h p"
    and "\<And>p. p \<in> set (xs @ [z]) \<Longrightarrow> load_prev h' p = load_prev h p"
  shows "chain h' a xs z = chain h a xs z"
  using assms
proof (induction xs arbitrary: a)
  case Nil
  then have "linked h' a z = linked h a z" by (intro linked_cong) simp_all
  then show ?case by simp
next
  case (Cons x xs)
  then have "chain h' x xs z = chain h x xs z" by simp
  moreover have "linked h' a x = linked h a x"
    using Cons.prems by (intro linked_cong) simp_all
  ultimately show ?case by simp
qed

lemma chain_frame:
  assumes n: "\<And>p. p \<noteq> u \<Longrightarrow> p \<noteq> v \<Longrightarrow> load_next h' p = load_next h p"
    and p: "\<And>p. p \<noteq> w \<Longrightarrow> p \<noteq> v \<Longrightarrow> load_prev h' p = load_prev h p"
    and u: "u \<notin> set (a # xs)" "v \<notin> set (a # xs)" and w: "w \<notin> set (xs @ [z])" "v \<notin> set (xs @ [z])"
  shows "chain h' a xs z = chain h a xs z"
proof (rule chain_cong)
  show "load_next h' q = load_next h q" if "q \<in> set (a # xs)" for q
    using that u by (intro n) auto
  show "load_prev h' q = load_prev h q" if "q \<in> set (xs @ [z])" for q
    using that w by (intro p) auto
qed

lemma chain_next: "chain h a xs z \<Longrightarrow> load_next h a = Some (hd (xs @ [z]))"
  by (cases xs) (simp_all add: linked_def)

lemma chain_prev: "chain h a xs z \<Longrightarrow> load_prev h z = Some (last (a # xs))"
  by (induction xs arbitrary: a) (auto simp: linked_def)

lemma chain_cells: "chain h a xs z \<Longrightarrow> p \<in> set (a # xs) \<Longrightarrow> h p \<noteq> None"
  by (induction xs arbitrary: a) (auto simp: linked_def load_next_def)

lemma dlist_split: "dlist h head xs \<Longrightarrow> e \<in> set xs \<Longrightarrow>
  \<exists>ys zs. xs = ys @ e # zs \<and> chain h head ys e \<and> chain h e zs head"
  unfolding dlist_def by (metis chain_append in_set_conv_decomp)

section \<open>Insertion and deletion between two neighbours\<close>

lemma list_add_between_ok:
  assumes l: "linked h pr nx" and new: "h new \<noteq> None" "new \<noteq> pr" "new \<noteq> nx"
  shows "\<exists>h'. list_add_between h new pr nx = Some h' \<and> linked h' pr new \<and> linked h' new nx \<and>
    (\<forall>p. p \<noteq> pr \<longrightarrow> p \<noteq> new \<longrightarrow> load_next h' p = load_next h p) \<and>
    (\<forall>p. p \<noteq> nx \<longrightarrow> p \<noteq> new \<longrightarrow> load_prev h' p = load_prev h p) \<and> dom h' = dom h"
  using l new unfolding linked_def list_add_between_def list_heap_defs
  by (cases "pr = nx") (auto split: option.splits)

lemma list_del_ok:
  assumes l: "linked h pr e" "linked h e nx" and e: "e \<noteq> pr" "e \<noteq> nx"
  shows "\<exists>h'. list_del h e = Some h' \<and> linked h' pr nx \<and>
    load_next h' e = Some NULL \<and> load_prev h' e = Some NULL \<and>
    (\<forall>p. p \<noteq> pr \<longrightarrow> p \<noteq> e \<longrightarrow> load_next h' p = load_next h p) \<and>
    (\<forall>p. p \<noteq> nx \<longrightarrow> p \<noteq> e \<longrightarrow> load_prev h' p = load_prev h p) \<and> dom h' = dom h"
  using l e unfolding linked_def list_del_def list_del_between_def list_heap_defs
  by (cases "pr = nx") (auto split: option.splits)


section \<open>Whole lists\<close>

text \<open>Two heaps that differ only at cells of \<open>S\<close> agree on every list outside \<open>S\<close>.\<close>

lemma dlist_frame:
  assumes "dlist h l ys" and "set (l # ys) \<inter> S = {}"
    and "\<And>p. p \<notin> S \<Longrightarrow> load_next h' p = load_next h p \<and> load_prev h' p = load_prev h p"
  shows "dlist h' l ys"
proof -
  have "chain h' l ys l = chain h l ys l"
    using assms(2,3) by (intro chain_cong) auto
  then show ?thesis
    using assms(1) by (simp add: dlist_def)
qed

lemma dlist_add_at:
  assumes c: "chain h head ys y" "chain h y zs head" and d: "distinct (head # ys @ y # zs)"
    and new: "h new \<noteq> None" "new \<notin> set (head # ys @ y # zs)"
    and n: "n = hd (zs @ [head])"
  shows "\<exists>h'. list_add_between h new y n = Some h' \<and> dlist h' head (ys @ y # new # zs) \<and>
    (\<forall>p. p \<notin> set (new # head # ys @ y # zs) \<longrightarrow>
         load_next h' p = load_next h p \<and> load_prev h' p = load_prev h p) \<and> dom h' = dom h"
proof -
  have nx: "linked h y n"
    using c(2) n by (cases zs) auto
  have mem: "n \<in> set (head # zs)"
    using n by (cases zs) auto
  have ne: "new \<noteq> y" "new \<noteq> n"
    using new(2) mem by auto
  obtain h' where h': "list_add_between h new y n = Some h'" "linked h' y new" "linked h' new n"
    and fn: "\<And>p. p \<noteq> y \<Longrightarrow> p \<noteq> new \<Longrightarrow> load_next h' p = load_next h p"
    and fp: "\<And>p. p \<noteq> n \<Longrightarrow> p \<noteq> new \<Longrightarrow> load_prev h' p = load_prev h p" and dom: "dom h' = dom h"
    using list_add_between_ok [OF nx new(1) ne] by auto
  have nys: "n \<notin> set (ys @ [y])" and ynot: "y \<notin> set (head # ys)" "y \<notin> set zs"
    using d mem by auto
  have c1: "chain h' head ys y = chain h head ys y"
    by (rule chain_frame [where u = y and v = new and w = n]) (use fn fp nys ynot new(2) in auto)
  have c2: "chain h' new zs head"
  proof (cases zs)
    case Nil
    then show ?thesis using h'(3) n by simp
  next
    case (Cons z zs')
    have "chain h' z zs' head = chain h z zs' head"
      by (rule chain_frame [where u = y and v = new and w = n]) (use fn fp d Cons n ynot new(2) in auto)
    then show ?thesis using h'(3) n c(2) Cons by simp
  qed
  have "dlist h' head (ys @ y # new # zs)"
    unfolding dlist_def using c(1) c1 c2 h'(2) d new(2) by (auto simp: chain_append)
  moreover have "load_next h' p = load_next h p \<and> load_prev h' p = load_prev h p"
    if "p \<notin> set (new # head # ys @ y # zs)" for p
    using that mem by (intro conjI fn fp) auto
  ultimately show ?thesis
    using h'(1) dom by blast
qed

lemma dlist_add_head:
  assumes c: "chain h head zs head" and d: "distinct (head # zs)"
    and new: "h new \<noteq> None" "new \<notin> set (head # zs)" and n: "n = hd (zs @ [head])"
  shows "\<exists>h'. list_add_between h new head n = Some h' \<and> dlist h' head (new # zs) \<and>
    (\<forall>p. p \<notin> set (new # head # zs) \<longrightarrow>
         load_next h' p = load_next h p \<and> load_prev h' p = load_prev h p) \<and> dom h' = dom h"
proof -
  have nx: "linked h head n" and mem: "n \<in> set (head # zs)"
    using c n by (cases zs; auto)+
  have ne: "new \<noteq> head" "new \<noteq> n"
    using new(2) mem by auto
  obtain h' where h': "list_add_between h new head n = Some h'" "linked h' head new" "linked h' new n"
    and fn: "\<And>p. p \<noteq> head \<Longrightarrow> p \<noteq> new \<Longrightarrow> load_next h' p = load_next h p"
    and fp: "\<And>p. p \<noteq> n \<Longrightarrow> p \<noteq> new \<Longrightarrow> load_prev h' p = load_prev h p" and dom: "dom h' = dom h"
    using list_add_between_ok [OF nx new(1) ne] by auto
  have "chain h' new zs head"
  proof (cases zs)
    case Nil
    then show ?thesis using h'(3) n by simp
  next
    case (Cons z zs')
    have "chain h' z zs' head = chain h z zs' head"
      by (rule chain_frame [where u = head and v = new and w = n]) (use fn fp d Cons n new(2) in auto)
    then show ?thesis using h'(3) n c Cons by simp
  qed
  then have "dlist h' head (new # zs)"
    unfolding dlist_def using h'(2) d new(2) by auto
  moreover have "load_next h' p = load_next h p \<and> load_prev h' p = load_prev h p"
    if "p \<notin> set (new # head # zs)" for p
    using that mem by (intro conjI fn fp) auto
  ultimately show ?thesis
    using h'(1) dom by blast
qed

lemma dlist_del:
  assumes dl: "dlist h head xs" and e: "e \<in> set xs"
  shows "\<exists>h'. list_del h e = Some h' \<and> dlist h' head (remove1 e xs) \<and>
    (\<forall>p. p \<notin> set (head # xs) \<longrightarrow> load_next h' p = load_next h p \<and> load_prev h' p = load_prev h p) \<and>
    dom h' = dom h"
proof -
  obtain ys zs where xs: "xs = ys @ e # zs" and c: "chain h head ys e" "chain h e zs head"
    using dlist_split [OF dl e] by auto
  have d: "distinct (head # ys @ e # zs)"
    using dl xs by (simp add: dlist_def)
  define pr nx where "pr = last (head # ys)" and "nx = hd (zs @ [head])"
  have l: "linked h pr e" "linked h e nx"
    using c chain_next [OF c(2)] chain_prev [OF c(1)]
    by (cases ys rule: rev_cases; cases zs; auto simp: pr_def nx_def chain_append)+
  have mem: "pr \<in> set (head # ys)" "nx \<in> set (head # zs)"
    unfolding pr_def nx_def by (metis last_in_set list.distinct(1)) (cases zs; simp)
  have ne: "e \<noteq> pr" "e \<noteq> nx"
    using d mem by auto
  obtain h' where h': "list_del h e = Some h'" "linked h' pr nx"
    and fn: "\<And>p. p \<noteq> pr \<Longrightarrow> p \<noteq> e \<Longrightarrow> load_next h' p = load_next h p"
    and fp: "\<And>p. p \<noteq> nx \<Longrightarrow> p \<noteq> e \<Longrightarrow> load_prev h' p = load_prev h p" and dom: "dom h' = dom h"
    using list_del_ok [OF l ne] by auto
  have "chain h' head (ys @ zs) head"
  proof (cases ys rule: rev_cases)
    case Nil
    show ?thesis
    proof (cases zs)
      case Nil
      then show ?thesis using \<open>ys = []\<close> h'(2) by (simp add: pr_def nx_def)
    next
      case (Cons z zs')
      have "chain h' z zs' head = chain h z zs' head"
        by (rule chain_frame [where u = pr and v = e and w = nx]) (use fn fp d Cons \<open>ys = []\<close> in \<open>auto simp: pr_def nx_def\<close>)
      then show ?thesis using \<open>ys = []\<close> Cons h'(2) c(2) by (simp add: pr_def nx_def)
    qed
  next
    case (snoc ys' y)
    have pr: "pr = y" by (simp add: pr_def snoc)
    have "chain h' head ys' y = chain h head ys' y"
      by (rule chain_frame [where u = pr and v = e and w = nx]) (use fn fp d snoc mem pr in auto)
    then have c1: "chain h' head ys' y" using c(1) snoc by (simp add: chain_append)
    have "chain h' y zs head"
    proof (cases zs)
      case Nil
      then show ?thesis using h'(2) pr by (simp add: nx_def)
    next
      case (Cons z zs')
      have "chain h' z zs' head = chain h z zs' head"
        by (rule chain_frame [where u = pr and v = e and w = nx]) (use fn fp d Cons snoc pr in \<open>auto simp: nx_def\<close>)
      then show ?thesis using Cons h'(2) c(2) pr by (simp add: nx_def)
    qed
    then show ?thesis using c1 snoc by (simp add: chain_append)
  qed
  moreover have "remove1 e xs = ys @ zs"
    using d xs by (simp add: remove1_append)
  ultimately have "dlist h' head (remove1 e xs)"
    using d by (simp add: dlist_def)
  moreover have "load_next h' p = load_next h p \<and> load_prev h' p = load_prev h p"
    if "p \<notin> set (head # xs)" for p
    using that mem xs by (intro conjI fn fp) auto
  ultimately show ?thesis
    using h'(1) dom by blast
qed


text \<open>\<^verbatim>\<open>list_for_each\<close> visits exactly the members, in order, and ends.\<close>

lemma list_walk_chain:
  "chain h a xs head \<Longrightarrow> head \<notin> set (a # xs) \<Longrightarrow> list_walk h head a acc = Some (rev acc @ a # xs)"
proof (induction xs arbitrary: a acc)
  case Nil
  then show ?case by (simp add: list_walk.simps [of h head] linked_def)
next
  case (Cons x xs)
  then show ?case by (auto simp: list_walk.simps [of h head a] linked_def)
qed

lemma list_for_each_dlist: "dlist h head xs \<Longrightarrow> list_for_each h head = Some xs"
  unfolding dlist_def list_for_each_def
  by (cases xs) (auto simp: linked_def list_walk_chain list_walk.simps [of h head head])

lemma list_empty_dlist: "dlist h head xs \<Longrightarrow> list_empty h head = Some (xs = [])"
  using chain_next [of h head xs head] by (cases xs) (auto simp: dlist_def list_empty_def)

lemma list_next_dlist:
  assumes dl: "dlist h head xs" and i: "i < length xs"
  shows "list_next h (xs ! i) head = Some (xs ! ((i + 1) mod length xs))"
proof -
  have xs: "xs = take i xs @ xs ! i # drop (Suc i) xs"
    using i by (rule id_take_nth_drop)
  then have c: "chain h (xs ! i) (drop (Suc i) xs) head" and c0: "chain h head xs head"
    using dl unfolding dlist_def by (metis chain_append)+
  have n: "load_next h (xs ! i) = Some (hd (drop (Suc i) xs @ [head]))"
    using chain_next [OF c] .
  show ?thesis
  proof (cases "Suc i < length xs")
    case True
    then have "hd (drop (Suc i) xs @ [head]) = xs ! Suc i"
      by (simp add: hd_append hd_drop_conv_nth)
    moreover have "xs ! Suc i \<noteq> head"
      using dl True by (auto simp: dlist_def)
    ultimately show ?thesis
      using n True by (simp add: list_next_def)
  next
    case False
    then have "length xs = Suc i" using i by simp
    moreover have "load_next h head = Some (xs ! 0)"
      using chain_next [OF c0] i by (cases xs) simp_all
    ultimately show ?thesis
      using n by (simp add: list_next_def)
  qed
qed

section \<open>The contract of a kernel list\<close>

locale kernel_list =
  fixes rep :: "'h \<Rightarrow> 'a \<Rightarrow> 'a list \<Rightarrow> bool"
    and cell :: "'h \<Rightarrow> 'a \<Rightarrow> bool"
    and add :: "'h \<Rightarrow> 'a \<Rightarrow> 'a \<Rightarrow> 'h option"
    and add_tail :: "'h \<Rightarrow> 'a \<Rightarrow> 'a \<Rightarrow> 'h option"
    and del :: "'h \<Rightarrow> 'a \<Rightarrow> 'h option"
  assumes rep_distinct: "rep h l xs \<Longrightarrow> distinct (l # xs)"
    and rep_cell: "rep h l xs \<Longrightarrow> x \<in> set xs \<Longrightarrow> cell h x"
    and add_spec: "rep h l xs \<Longrightarrow> cell h x \<Longrightarrow> x \<notin> set (l # xs) \<Longrightarrow>
      \<exists>h'. add h x l = Some h' \<and> rep h' l (x # xs) \<and> (\<forall>y. cell h' y = cell h y) \<and>
           (\<forall>m ys. rep h m ys \<longrightarrow> set (m # ys) \<inter> set (x # l # xs) = {} \<longrightarrow> rep h' m ys)"
    and add_tail_spec: "rep h l xs \<Longrightarrow> cell h x \<Longrightarrow> x \<notin> set (l # xs) \<Longrightarrow>
      \<exists>h'. add_tail h x l = Some h' \<and> rep h' l (xs @ [x]) \<and> (\<forall>y. cell h' y = cell h y) \<and>
           (\<forall>m ys. rep h m ys \<longrightarrow> set (m # ys) \<inter> set (x # l # xs) = {} \<longrightarrow> rep h' m ys)"
    and del_spec: "rep h l xs \<Longrightarrow> x \<in> set xs \<Longrightarrow>
      \<exists>h'. del h x = Some h' \<and> rep h' l (remove1 x xs) \<and> (\<forall>y. cell h' y = cell h y) \<and>
           (\<forall>m ys. rep h m ys \<longrightarrow> set (m # ys) \<inter> set (l # xs) = {} \<longrightarrow> rep h' m ys)"
begin

text \<open>Moving a member to the front or the back of another list (or of its own).\<close>

lemma move_other:
  assumes "rep h l xs" "rep h m ys" "x \<in> set xs" "set (l # xs) \<inter> set (m # ys) = {}"
  shows "\<exists>h'. Option.bind (del h x) (\<lambda>h. add h x m) = Some h' \<and>
    rep h' l (remove1 x xs) \<and> rep h' m (x # ys)"
proof -
  obtain h1 where h1: "del h x = Some h1" "rep h1 l (remove1 x xs)" "rep h1 m ys" "cell h1 x"
    using del_spec [OF assms(1,3)] assms rep_cell [OF assms(1,3)] by (metis inf_commute)
  have "x \<notin> set (m # ys)" using assms(3,4) by auto
  then obtain h2 where h2: "add h1 x m = Some h2" "rep h2 m (x # ys)"
    and fr: "\<forall>k zs. rep h1 k zs \<longrightarrow> set (k # zs) \<inter> set (x # m # ys) = {} \<longrightarrow> rep h2 k zs"
    using add_spec [OF h1(3,4)] by auto
  have "set (l # remove1 x xs) \<inter> set (x # m # ys) = {}"
    using assms rep_distinct [OF assms(1)] by (auto dest: notin_set_remove1)
  then have "rep h2 l (remove1 x xs)"
    using fr h1(2) by blast
  then show ?thesis
    using h1(1) h2 by auto
qed

lemma move_same:
  assumes "rep h l xs" "x \<in> set xs"
  shows "\<exists>h'. Option.bind (del h x) (\<lambda>h. add h x l) = Some h' \<and> rep h' l (x # remove1 x xs)"
proof -
  obtain h1 where h1: "del h x = Some h1" "rep h1 l (remove1 x xs)" "cell h1 x"
    using del_spec [OF assms] rep_cell [OF assms] by auto
  moreover have "x \<notin> set (l # remove1 x xs)"
    using rep_distinct [OF assms(1)] assms(2) by auto
  ultimately show ?thesis
    using add_spec [OF h1(2,3)] by auto
qed

end

lemma cells_eq: "dom h' = dom h \<Longrightarrow> (h' y \<noteq> None) = (h y \<noteq> None)"
  by (metis domIff)

lemma dlist_add:
  assumes "dlist h l xs" "h x \<noteq> None" "x \<notin> set (l # xs)"
  shows "\<exists>h'. list_add h x l = Some h' \<and> dlist h' l (x # xs) \<and> (\<forall>y. (h' y \<noteq> None) = (h y \<noteq> None)) \<and>
    (\<forall>m ys. dlist h m ys \<longrightarrow> set (m # ys) \<inter> set (x # l # xs) = {} \<longrightarrow> dlist h' m ys)"
proof -
  have c: "chain h l xs l" and d: "distinct (l # xs)"
    using assms(1) by (auto simp: dlist_def)
  obtain h' where h': "list_add_between h x l (hd (xs @ [l])) = Some h'" "dlist h' l (x # xs)" "dom h' = dom h"
    and fr: "\<And>p. p \<notin> set (x # l # xs) \<Longrightarrow> load_next h' p = load_next h p \<and> load_prev h' p = load_prev h p"
    using dlist_add_head [OF c d assms(2,3) refl] by blast
  have "list_add h x l = Some h'"
    using h'(1) chain_next [OF c] by (simp add: list_add_def)
  with h'(2) cells_eq [OF h'(3)] dlist_frame [OF _ _ fr] show ?thesis
    by blast
qed

lemma dlist_add_tail:
  assumes "dlist h l xs" "h x \<noteq> None" "x \<notin> set (l # xs)"
  shows "\<exists>h'. list_add_tail h x l = Some h' \<and> dlist h' l (xs @ [x]) \<and> (\<forall>y. (h' y \<noteq> None) = (h y \<noteq> None)) \<and>
    (\<forall>m ys. dlist h m ys \<longrightarrow> set (m # ys) \<inter> set (x # l # xs) = {} \<longrightarrow> dlist h' m ys)"
proof (cases xs rule: rev_cases)
  case Nil
  then show ?thesis
    using dlist_add [OF assms] chain_prev [of h l xs l] chain_next [of h l xs l] assms(1)
    by (simp add: list_add_def list_add_tail_def dlist_def)
next
  case (snoc ys y)
  have c: "chain h l ys y" "chain h y [] l" and d: "distinct (l # ys @ [y])"
    using assms(1) snoc by (auto simp: dlist_def chain_append)
  have n: "x \<notin> set (l # ys @ [y])" using assms(3) snoc by simp
  obtain h' where h': "list_add_between h x y l = Some h'" "dlist h' l (ys @ [y, x])" "dom h' = dom h"
    and fr: "\<And>p. p \<notin> set (x # l # ys @ [y]) \<Longrightarrow> load_next h' p = load_next h p \<and> load_prev h' p = load_prev h p"
    using dlist_add_at [OF c d assms(2) n, of l] by auto
  have "list_add_tail h x l = Some h'" "dlist h' l (xs @ [x])"
    using h'(1,2) c(2) snoc by (simp_all add: list_add_tail_def linked_def)
  with cells_eq [OF h'(3)] dlist_frame [OF _ _ fr] show ?thesis
    unfolding snoc by blast
qed

lemma dlist_del_frame:
  assumes "dlist h l xs" "x \<in> set xs"
  shows "\<exists>h'. list_del h x = Some h' \<and> dlist h' l (remove1 x xs) \<and> (\<forall>y. (h' y \<noteq> None) = (h y \<noteq> None)) \<and>
    (\<forall>m ys. dlist h m ys \<longrightarrow> set (m # ys) \<inter> set (l # xs) = {} \<longrightarrow> dlist h' m ys)"
proof -
  obtain h' where h': "list_del h x = Some h'" "dlist h' l (remove1 x xs)" "dom h' = dom h"
    and fr: "\<And>p. p \<notin> set (l # xs) \<Longrightarrow> load_next h' p = load_next h p \<and> load_prev h' p = load_prev h p"
    using dlist_del [OF assms] by blast
  with cells_eq [OF h'(3)] dlist_frame [OF _ _ fr] show ?thesis
    by blast
qed

interpretation klist: kernel_list dlist "\<lambda>h p. h p \<noteq> None" list_add list_add_tail list_del
proof
  show "distinct (l # xs)" if "dlist h l xs" for h l xs
    using that by (simp add: dlist_def)
  show "h x \<noteq> None" if "dlist h l xs" "x \<in> set xs" for h l xs x
    using that chain_cells [of h l xs l x] by (simp add: dlist_def)
qed (rule dlist_add dlist_add_tail dlist_del_frame; assumption)+

section \<open>What clients rely on\<close>

lemma InitListHead_dlist:
  assumes "h l \<noteq> None"
  shows "\<exists>h'. InitListHead h l = Some h' \<and> dlist h' l [] \<and> (\<forall>y. (h' y \<noteq> None) = (h y \<noteq> None))"
  using assms by (auto simp: InitListHead_def dlist_def linked_def list_heap_defs)

text \<open>A loop that appends each of a sequence of cells, as the device, task and dentry lists are built.\<close>

primrec list_add_tail_all :: "lheap \<Rightarrow> addr \<Rightarrow> addr list \<Rightarrow> lheap option" where
  "list_add_tail_all h l [] = Some h"
| "list_add_tail_all h l (x # xs) = do { h \<leftarrow> list_add_tail h x l; list_add_tail_all h l xs }"

lemma list_add_tail_all_dlist:
  "dlist h l ys \<Longrightarrow> \<forall>x\<in>set xs. h x \<noteq> None \<Longrightarrow> distinct (l # ys @ xs) \<Longrightarrow>
    \<exists>h'. list_add_tail_all h l xs = Some h' \<and> dlist h' l (ys @ xs)"
proof (induction xs arbitrary: h ys)
  case (Cons x xs)
  have "x \<notin> set (l # ys)" "h x \<noteq> None"
    using Cons.prems by auto
  then obtain h1 where "list_add_tail h x l = Some h1" "dlist h1 l (ys @ [x])"
    "\<And>y. (h1 y \<noteq> None) = (h y \<noteq> None)"
    using klist.add_tail_spec [OF Cons.prems(1)] by blast
  then show ?case
    using Cons.IH [of h1 "ys @ [x]"] Cons.prems(2,3) by auto
qed simp

text \<open>
  Initialising a list head and appending distinct cells to it succeeds without a bad
  access, and \<^verbatim>\<open>list_for_each\<close> then terminates and visits exactly those cells in that order;
  \<^verbatim>\<open>list_empty\<close> answers whether there is any.
\<close>

theorem list_build_traverse:
  assumes "distinct (l # xs)" and "\<forall>x\<in>set (l # xs). h x \<noteq> None"
  shows "\<exists>h'. Option.bind (InitListHead h l) (\<lambda>h. list_add_tail_all h l xs) = Some h' \<and>
    list_for_each h' l = Some xs \<and> list_empty h' l = Some (xs = [])"
proof -
  obtain h1 where h1: "InitListHead h l = Some h1" "dlist h1 l []" "\<And>y. (h1 y \<noteq> None) = (h y \<noteq> None)"
    using InitListHead_dlist [of h l] assms(2) by auto
  obtain h2 where "list_add_tail_all h1 l xs = Some h2" "dlist h2 l xs"
    using list_add_tail_all_dlist [OF h1(2), of xs] h1(3) assms by auto
  then show ?thesis
    using h1(1) list_for_each_dlist list_empty_dlist by auto
qed

text \<open>A concrete heap: heads at 16 and 32, cells at 48 and 64, nothing at NULL.\<close>

definition small_heap :: lheap where
  "small_heap = (\<lambda>p. if p \<in> {16, 32, 48, 64} then Some \<lparr>lh_next = NULL, lh_prev = NULL\<rparr> else None)"

theorem list_build_traverse_witness:
  "\<exists>h'. Option.bind (InitListHead small_heap 16) (\<lambda>h. list_add_tail_all h 16 [48, 64]) = Some h' \<and>
    list_for_each h' 16 = Some [48, 64] \<and> list_empty h' 16 = Some False"
  using list_build_traverse [of 16 "[48, 64]" small_heap] by (simp add: small_heap_def)

text \<open>
  \<^verbatim>\<open>list_move\<close> takes a member out of its list and puts it at the front of another,
  disjoint one: both lists stay well-formed circular lists, every other member keeps its order, and
  no pointer outside the two lists is read or written to an invalid address.
\<close>

theorem list_move_refines:
  assumes "dlist h l xs" "dlist h m ys" "x \<in> set xs" "set (l # xs) \<inter> set (m # ys) = {}"
  shows "\<exists>h'. list_move h x m = Some h' \<and> dlist h' l (remove1 x xs) \<and> dlist h' m (x # ys)"
  unfolding list_move_def by (rule klist.move_other [OF assms])

definition two_lists :: lheap where
  "two_lists = [16 \<mapsto> \<lparr>lh_next = 48, lh_prev = 64\<rparr>, 48 \<mapsto> \<lparr>lh_next = 64, lh_prev = 16\<rparr>,
     64 \<mapsto> \<lparr>lh_next = 16, lh_prev = 48\<rparr>, 32 \<mapsto> \<lparr>lh_next = 32, lh_prev = 32\<rparr>]"

theorem list_move_refines_witness:
  "dlist two_lists 16 [48, 64] \<and> dlist two_lists 32 [] \<and>
   (\<exists>h'. list_move two_lists 48 32 = Some h' \<and> dlist h' 16 [64] \<and> dlist h' 32 [48])"
proof -
  have "dlist two_lists 16 [48, 64]" "dlist two_lists 32 []"
    by (simp_all add: dlist_def linked_def load_next_def load_prev_def two_lists_def)
  then show ?thesis
    using list_move_refines [of two_lists 16 "[48, 64]" 32 "[]" 48] by simp
qed

end
