(* ===== verification/Early_Alloc.thy ===== *)
theory Early_Alloc
  imports Lizard_Prelude "HOL-Library.Monad_Syntax"
begin

text \<open>
  The hand-off from the boot loader (\<^verbatim>\<open>src/lizard/boot.h\<close>, \<^verbatim>\<open>boot.c\<close>) and the boot-time bump
  allocator (\<^verbatim>\<open>src/lizard/early_alloc.c\<close>). The memory map is the list of entries the loader filled;
  \<^verbatim>\<open>kpanic\<close>, which stops the machine, is \<open>None\<close>. Addresses are 64-bit words, so
  \<^verbatim>\<open>early_current + size\<close> wraps as in the code; the theorems say under which bound it does not.
\<close>

section \<open>boot.h and boot.c\<close>

definition BOOT_INFO_MAGIC :: u64 where "BOOT_INFO_MAGIC = 0x4C495A424F4F5431"
definition BI_USABLE :: u32 where "BI_USABLE = 1"
definition BI_MMAP_MAX :: u64 where "BI_MMAP_MAX = 256"

record bi_mmap_entry =
  e_base :: u64
  e_len :: u64
  e_type :: u32

record boot_info =
  bi_magic :: u64
  bi_hhdm_base :: u64
  bi_highest_addr :: u64
  bi_kernel_phys_base :: u64
  bi_kernel_virt_base :: u64
  bi_kernel_size :: u64
  bi_scratch_phys_base :: u64
  bi_scratch_size :: u64
  bi_mmap_count :: u64
  bi_mmap :: "bi_mmap_entry list"

text \<open>The entries a loop \<^verbatim>\<open>for (i = 0; i < bi->mmap_count; i++)\<close> visits.\<close>

definition bi_entries :: "boot_info \<Rightarrow> bi_mmap_entry list" where
  "bi_entries bi = take (unat (bi_mmap_count bi)) (bi_mmap bi)"

definition boot_info_relocate :: "boot_info option \<Rightarrow> boot_info option" where
  "boot_info_relocate src =
     (case src of
        None \<Rightarrow> None
      | Some s \<Rightarrow>
          if bi_magic s \<noteq> BOOT_INFO_MAGIC then None
          else let n = (if bi_mmap_count s > BI_MMAP_MAX then BI_MMAP_MAX else bi_mmap_count s)
               in Some (s\<lparr>bi_mmap_count := n, bi_mmap := take (unat n) (bi_mmap s)\<rparr>))"

section \<open>early_alloc.c\<close>

record early_state =
  early_base :: u64
  early_end :: u64
  early_current :: u64
  highest_addr :: u64
  hhdm_offset :: u64

text \<open>One round of the scan of \<^verbatim>\<open>early_alloc_init\<close>: largest usable base and size, highest end.\<close>

definition early_scan :: "u64 \<times> u64 \<times> u64 \<Rightarrow> bi_mmap_entry \<Rightarrow> u64 \<times> u64 \<times> u64" where
  "early_scan acc e =
     (case acc of (lb, ls, hi) \<Rightarrow>
        if e_type e = BI_USABLE then
          (if e_len e > ls then e_base e else lb,
           if e_len e > ls then e_len e else ls,
           if e_base e + e_len e > hi then e_base e + e_len e else hi)
        else (lb, ls, hi))"

definition early_alloc_init :: "boot_info option \<Rightarrow> early_state option" where
  "early_alloc_init bi =
     (case bi of
        None \<Rightarrow> None
      | Some bi \<Rightarrow>
          if bi_magic bi \<noteq> BOOT_INFO_MAGIC \<or> bi_mmap_count bi = 0 then None
          else case foldl early_scan (0, 0, 0) (bi_entries bi) of (lb, ls, hi) \<Rightarrow>
            let base = align_up lb 4096 in
            Some \<lparr>early_base = base, early_end = align_down (lb + ls) 4096, early_current = base,
                  highest_addr = hi, hhdm_offset = bi_hhdm_base bi\<rparr>)"

definition early_alloc :: "early_state \<Rightarrow> u64 \<Rightarrow> u64 \<Rightarrow> (u64 \<times> early_state) option" where
  "early_alloc st sz align =
     (let align = (if align = 0 then 8 else align);
          curr = align_up (early_current st) align;
          next = curr + sz
      in if next > early_end st then None
         else Some (curr + hhdm_offset st, st\<lparr>early_current := next\<rparr>))"

text \<open>A sequence of boot-time requests: the virtual addresses handed out with their sizes.\<close>

primrec early_allocs :: "early_state \<Rightarrow> (u64 \<times> u64) list \<Rightarrow> ((u64 \<times> u64) list \<times> early_state) option" where
  "early_allocs st [] = Some ([], st)"
| "early_allocs st (r # rs) =
     do { (v, st) \<leftarrow> early_alloc st (fst r) (snd r);
          (vs, st) \<leftarrow> early_allocs st rs;
          Some ((v, fst r) # vs, st) }"

section \<open>The loader's memory map after relocation\<close>

lemma boot_info_relocate_entries:
  assumes "boot_info_relocate src = Some b"
  shows "\<exists>s. src = Some s \<and> bi_entries b = take 256 (bi_entries s) \<and> unat (bi_mmap_count b) \<le> 256"
proof -
  obtain s where s: "src = Some s" "bi_magic s = BOOT_INFO_MAGIC"
    using assms by (auto simp: boot_info_relocate_def split: option.splits if_splits)
  show ?thesis
    using assms s
    by (auto simp: boot_info_relocate_def bi_entries_def BI_MMAP_MAX_def Let_def word_less_nat_alt
        min_def split: if_splits)
qed

section \<open>Requests that fit\<close>

text \<open>The request is a power-of-two alignment (or 0) and no sum wraps past \<open>2 ^ 64\<close>.\<close>

definition early_req_ok :: "early_state \<Rightarrow> u64 \<times> u64 \<Rightarrow> bool" where
  "early_req_ok st r \<longleftrightarrow>
     (snd r = 0 \<or> (\<exists>n<63. snd r = 2 ^ n)) \<and>
     unat (early_end st) + unat (fst r) + unat (snd r) + 8 < 2 ^ 64"

definition early_inv :: "early_state \<Rightarrow> bool" where
  "early_inv st \<longleftrightarrow> early_base st \<le> early_current st \<and> early_current st \<le> early_end st"

definition early_phys :: "early_state \<Rightarrow> u64 \<Rightarrow> nat" where
  "early_phys st v = unat (v - hhdm_offset st)"

lemma align_up_pow2:
  assumes "n < 63" "unat x + 2 ^ n < 2 ^ 64"
  shows "unat x \<le> unat (align_up x (2 ^ n))" "unat (align_up x (2 ^ n)) < unat x + 2 ^ n"
    "2 ^ n dvd unat (align_up x (2 ^ n))"
proof -
  have "unat (align_up x (2 ^ n)) = (unat x + 2 ^ n - 1) div 2 ^ n * 2 ^ n"
    using assms by (intro unat_align_up) auto
  then show "unat x \<le> unat (align_up x (2 ^ n))" "unat (align_up x (2 ^ n)) < unat x + 2 ^ n"
    "2 ^ n dvd unat (align_up x (2 ^ n))"
    using round_up_bounds [of "2 ^ n" "unat x"] by simp_all
qed

lemma early_alloc_step:
  assumes inv: "early_inv st" and ok: "early_req_ok st (sz, align)"
    and run: "early_alloc st sz align = Some (v, st')"
  shows "early_inv st' \<and> early_end st' = early_end st \<and> early_base st' = early_base st \<and>
    hhdm_offset st' = hhdm_offset st \<and> unat (early_current st) \<le> early_phys st v \<and>
    early_phys st v + unat sz = unat (early_current st') \<and>
    (if align = 0 then 8 else unat align) dvd early_phys st v"
proof -
  define al where "al = (if align = 0 then 8 else align)"
  obtain n where n: "n < 63" "al = 2 ^ n" "unat al \<le> unat align + 8"
  proof (cases "align = 0")
    case True
    then show ?thesis using that [of 3] by (simp add: al_def)
  next
    case False
    then show ?thesis using ok that by (auto simp: al_def early_req_ok_def)
  qed
  have ual: "unat al = 2 ^ n"
    using n by (simp add: unat_pow2_64)
  define curr where "curr = align_up (early_current st) al"
  have cur_le: "unat (early_current st) \<le> unat (early_end st)"
    using inv by (simp add: early_inv_def word_le_nat_alt)
  then have "unat (early_current st) + 2 ^ n < 2 ^ 64"
    using ok n(3) ual by (simp add: early_req_ok_def)
  note au = align_up_pow2 [OF n(1) this]
  have "unat curr + unat sz < 2 ^ 64"
    using au(2) ok n(3) ual cur_le by (simp add: early_req_ok_def curr_def n(2))
  then have nxt: "unat (curr + sz) = unat curr + unat sz"
    by (subst unat_add_lem [THEN iffD1]) simp_all
  have r: "v = curr + hhdm_offset st" "st' = st\<lparr>early_current := curr + sz\<rparr>"
    "curr + sz \<le> early_end st"
    using run by (auto simp: early_alloc_def Let_def al_def curr_def split: if_splits)
  have "early_phys st v = unat curr"
    by (simp add: early_phys_def r(1))
  moreover have "early_base st \<le> curr + sz"
    using inv au(1) nxt by (simp add: early_inv_def word_le_nat_alt curr_def n(2))
  moreover have "(if align = 0 then 8 else unat align) = 2 ^ n"
    using ual unfolding al_def by (auto split: if_splits)
  ultimately show ?thesis
    using r(2,3) nxt au unfolding early_inv_def curr_def n(2) by simp
qed

text \<open>
  A sequence of boot-time allocations that does not panic hands out aligned regions in
  increasing, non-overlapping order, all of them between the current pointer and the end of the
  largest usable memory region.
\<close>

theorem early_allocs_disjoint:
  assumes "early_inv st" and "\<forall>r\<in>set rs. early_req_ok st r" and "early_allocs st rs = Some (vs, st')"
  shows "sorted_wrt (\<lambda>(v, n) (w, m). early_phys st v + unat n \<le> early_phys st w) vs \<and>
    (\<forall>(v, n)\<in>set vs. unat (early_current st) \<le> early_phys st v \<and> early_phys st v + unat n \<le> unat (early_end st)) \<and>
    list_all2 (\<lambda>r (v, n). n = fst r \<and> (if snd r = 0 then 8 else unat (snd r)) dvd early_phys st v) rs vs \<and>
    early_inv st' \<and> unat (early_current st) \<le> unat (early_current st')"
  using assms
proof (induction rs arbitrary: st vs)
  case (Cons r rs)
  obtain v st1 ws where run: "early_alloc st (fst r) (snd r) = Some (v, st1)"
    "early_allocs st1 rs = Some (ws, st')" and vs: "vs = (v, fst r) # ws"
    using Cons.prems(3) by (auto simp: bind_eq_Some_conv)
  note step = early_alloc_step [OF Cons.prems(1) _ run(1)]
  have s: "early_inv st1" "early_end st1 = early_end st" "hhdm_offset st1 = hhdm_offset st"
    "unat (early_current st) \<le> early_phys st v" "early_phys st v + unat (fst r) = unat (early_current st1)"
    "(if snd r = 0 then 8 else unat (snd r)) dvd early_phys st v"
    using step Cons.prems(2) by auto
  have ph: "early_phys st1 = early_phys st" and req: "early_req_ok st1 = early_req_ok st"
    by (auto simp: early_phys_def early_req_ok_def s(2,3) fun_eq_iff)
  have "early_current st1 \<le> early_end st"
    using s(1,2) by (simp add: early_inv_def)
  then show ?case
    using Cons.IH [OF s(1) _ run(2)] Cons.prems(2) s(2,4-6) vs unfolding ph req
    by (fastforce simp: word_le_nat_alt)
qed simp

definition demo_early :: early_state where
  "demo_early = \<lparr>early_base = 0x100000, early_end = 0x200000, early_current = 0x100000,
     highest_addr = 0x200000, hhdm_offset = 0xFFFF800000000000\<rparr>"

theorem early_allocs_disjoint_witness:
  "early_allocs demo_early [(24, 0), (100, 4096)] =
     Some ([(0xFFFF800000100000, 24), (0xFFFF800000101000, 100)], demo_early\<lparr>early_current := 0x101064\<rparr>) \<and>
   early_phys demo_early 0xFFFF800000100000 + 24 \<le> early_phys demo_early 0xFFFF800000101000"
proof -
  have run: "early_allocs demo_early [(24, 0), (100, 4096)] =
     Some ([(0xFFFF800000100000, 24), (0xFFFF800000101000, 100)], demo_early\<lparr>early_current := 0x101064\<rparr>)"
    by code_simp
  have "early_inv demo_early" "early_req_ok demo_early (24, 0)"
    by (simp_all add: early_inv_def early_req_ok_def demo_early_def)
  moreover have "early_req_ok demo_early (100, 4096)"
    unfolding early_req_ok_def by (auto simp: demo_early_def intro!: exI [of _ 12])
  ultimately have "sorted_wrt (\<lambda>(v, n) (w, m). early_phys demo_early v + unat n \<le> early_phys demo_early w)
      [(0xFFFF800000100000, 24 :: u64), (0xFFFF800000101000, 100)]"
    using early_allocs_disjoint [OF _ _ run] by auto
  then show ?thesis
    using run by simp
qed

end
