(* ===== verification/Buddy.thy ===== *)
theory Buddy
  imports Early_Alloc Klist
begin

text \<open>
  The physical page allocator of \<^verbatim>\<open>src/lizard/buddy.c\<close>. The page descriptors are a list indexed by
  page frame number; each free area keeps the members of its kernel list (see \<open>Klist\<close>) as the list
  of page frame numbers whose descriptor is linked, first member first, so \<^verbatim>\<open>list_add\<close> is \<open>(#)\<close>. An
  operation is \<open>None\<close> where the code would index outside \<^verbatim>\<open>pages\<close> or \<^verbatim>\<open>free_areas\<close>, link a
  descriptor that is already linked, or panic. Page frame numbers are natural numbers: they are at
  most \<open>2 ^ 52\<close>, so none of the 64-bit sums over them wraps.
\<close>

section \<open>buddy.h\<close>

abbreviation MAX_ORDER :: nat where "MAX_ORDER \<equiv> 16"

definition PAGE_FREE :: u8 where "PAGE_FREE = 1"
definition PAGE_RESERVED :: u8 where "PAGE_RESERVED = 2"
definition PAGE_ALLOCATED :: u8 where "PAGE_ALLOCATED = 4"

record buddy_page =
  bp_order :: nat
  bp_flags :: u8

record buddy_area =
  ba_list :: "nat list"
  ba_count :: int

record buddy_allocator =
  b_pages :: "buddy_page list"
  b_page_count :: nat
  b_areas :: "buddy_area list"

section \<open>buddy.c\<close>

text \<open>\<^verbatim>\<open>32 - __builtin_clz(x)\<close> is the number of significant bits of \<open>x\<close>.\<close>

fun bit_width :: "nat \<Rightarrow> nat" where
  "bit_width x = (if x = 0 then 0 else Suc (bit_width (x div 2)))"

declare bit_width.simps [simp del]

definition pages_to_order :: "u32 \<Rightarrow> nat" where
  "pages_to_order pages = (if pages \<le> 1 then 0 else bit_width (unat (pages - 1)))"

definition detect_page_count :: "boot_info option \<Rightarrow> nat" where
  "detect_page_count bi =
     (case bi of
        None \<Rightarrow> 0
      | Some bi \<Rightarrow>
          unat (align_up (foldl (\<lambda>m e. if e_type e = BI_USABLE \<and> e_base e + e_len e > m
                                       then e_base e + e_len e else m) 0 (bi_entries bi)) 4096
                div 4096))"

definition linked_page :: "buddy_allocator \<Rightarrow> nat \<Rightarrow> bool" where
  "linked_page b pfn \<longleftrightarrow> (\<exists>a\<in>set (b_areas b). pfn \<in> set (ba_list a))"

definition buddy_add_block :: "buddy_allocator \<Rightarrow> nat \<Rightarrow> nat \<Rightarrow> buddy_allocator option" where
  "buddy_add_block b pfn order =
     (if pfn < length (b_pages b) \<and> order < length (b_areas b) \<and> \<not> linked_page b pfn then
        let a = b_areas b ! order in
        Some (b\<lparr>b_pages := (b_pages b)[pfn := (b_pages b ! pfn)\<lparr>bp_flags := PAGE_FREE, bp_order := order\<rparr>],
                b_areas := (b_areas b)[order := a\<lparr>ba_list := pfn # ba_list a, ba_count := ba_count a + 1\<rparr>]\<rparr>)
      else None)"

text \<open>\<^verbatim>\<open>IS_ALIGNED\<close>.\<close>

definition IS_ALIGNED :: "nat \<Rightarrow> nat \<Rightarrow> bool" where
  "IS_ALIGNED pfn order \<longleftrightarrow> pfn AND (2 ^ order - 1) = 0"

text \<open>The page frames of a usable entry that are outside the kernel and the early allocations.\<close>

definition mark_entry :: "nat \<times> nat \<Rightarrow> nat \<times> nat \<Rightarrow> bi_mmap_entry \<Rightarrow> buddy_allocator \<Rightarrow> buddy_allocator option" where
  "mark_entry kr er e b =
     (if e_type e \<noteq> BI_USABLE then Some b
      else let base = align_up (e_base e) 4096; end = align_down (e_base e + e_len e) 4096 in
        if base \<ge> end then Some b
        else let pfns = filter (\<lambda>pfn. \<not> (fst kr \<le> pfn \<and> pfn < snd kr \<or> fst er \<le> pfn \<and> pfn < snd er))
                           [unat (base div 4096)..<unat (end div 4096)] in
          if list_all (\<lambda>pfn. pfn < length (b_pages b)) pfns then
            Some (b\<lparr>b_pages := fold (\<lambda>pfn ps. ps[pfn := (ps ! pfn)\<lparr>bp_flags := PAGE_FREE\<rparr>]) pfns (b_pages b)\<rparr>)
          else None)"

primrec mark_entries :: "nat \<times> nat \<Rightarrow> nat \<times> nat \<Rightarrow> bi_mmap_entry list \<Rightarrow> buddy_allocator \<Rightarrow> buddy_allocator option" where
  "mark_entries kr er [] b = Some b"
| "mark_entries kr er (e # es) b = do { b \<leftarrow> mark_entry kr er e b; mark_entries kr er es b }"

text \<open>The inner loop of the grouping: the largest order whose aligned block at \<open>i\<close> is all free.\<close>

primrec block_order :: "buddy_allocator \<Rightarrow> nat \<Rightarrow> nat \<Rightarrow> nat" where
  "block_order b i 0 = 0"
| "block_order b i (Suc n) =
     (if IS_ALIGNED i (Suc n) \<and> i + 2 ^ Suc n \<le> b_page_count b
      then if list_all (\<lambda>j. bp_flags (b_pages b ! (i + j)) = PAGE_FREE) [0..<2 ^ Suc n]
           then Suc n else block_order b i n
      else block_order b i n)"

function group_free :: "buddy_allocator \<Rightarrow> nat \<Rightarrow> buddy_allocator option" where
  "group_free b i =
     (if i \<ge> b_page_count b then Some b
      else if bp_flags (b_pages b ! i) \<noteq> PAGE_FREE then group_free b (Suc i)
      else case buddy_add_block b i (block_order b i MAX_ORDER) of
             None \<Rightarrow> None
           | Some b' \<Rightarrow> group_free b' (i + 2 ^ block_order b i MAX_ORDER))"
  by pat_completeness auto
termination
proof (relation "measure (\<lambda>(b, i). b_page_count b - i)", goal_cases)
  case (3 b i b')
  then have "b_page_count b' = b_page_count b"
    by (auto simp: buddy_add_block_def Let_def split: if_splits)
  moreover have "b_page_count b - (i + 2 ^ block_order b i MAX_ORDER) < b_page_count b - i"
    using 3 by (intro diff_less_mono2) simp_all
  ultimately show ?case
    by simp
qed auto

declare group_free.simps [simp del]

abbreviation sizeof_buddy_page :: u64 where "sizeof_buddy_page \<equiv> 24"

definition buddy_init ::
  "boot_info option \<Rightarrow> u64 \<Rightarrow> u64 \<Rightarrow> early_state \<Rightarrow> (buddy_allocator \<times> early_state) option" where
  "buddy_init boot_info_ptr kernel_start kernel_end est =
     do { let n = detect_page_count boot_info_ptr;
          (_, est) \<leftarrow> early_alloc est (of_nat n * sizeof_buddy_page) 0;
          let b = \<lparr>b_pages = replicate n \<lparr>bp_order = 0, bp_flags = PAGE_RESERVED\<rparr>, b_page_count = n,
                   b_areas = replicate (Suc MAX_ORDER) \<lparr>ba_list = [], ba_count = 0\<rparr>\<rparr>;
          bi \<leftarrow> boot_info_ptr;
          let kernel_phys_end = bi_kernel_phys_base bi + (kernel_end - kernel_start);
          let kr = (unat (bi_kernel_phys_base bi div 4096), unat (align_up kernel_phys_end 4096 div 4096));
          let er = (unat (align_down (early_base est) 4096 div 4096),
                    unat (align_up (early_current est) 4096 div 4096));
          b \<leftarrow> mark_entries kr er (bi_entries bi) b;
          b \<leftarrow> group_free b 0;
          Some (b, est) }"

text \<open>The search for the smallest order with a free block, and the splitting loop.\<close>

function find_order :: "buddy_allocator \<Rightarrow> nat \<Rightarrow> nat option" where
  "find_order b i =
     (if i > MAX_ORDER then None
      else if ba_list (b_areas b ! i) = [] then find_order b (Suc i)
      else Some i)"
  by pat_completeness auto
termination
  by (relation "measure (\<lambda>(b, i). Suc MAX_ORDER - i)") auto

declare find_order.simps [simp del]

primrec split_block :: "buddy_allocator \<Rightarrow> nat \<Rightarrow> nat \<Rightarrow> nat \<Rightarrow> buddy_allocator option" where
  "split_block b pfn order 0 = Some b"
| "split_block b pfn order (Suc i) =
     (if Suc i > order then
        do { b \<leftarrow> buddy_add_block b (pfn + 2 ^ i) i; split_block b pfn order i }
      else Some b)"

definition set_allocated :: "nat \<Rightarrow> nat \<Rightarrow> buddy_allocator \<Rightarrow> buddy_allocator option" where
  "set_allocated pfn order b =
     (if pfn + 2 ^ order \<le> length (b_pages b) then
        Some (b\<lparr>b_pages := update_range (\<lambda>pg. pg\<lparr>bp_flags := PAGE_ALLOCATED, bp_order := order\<rparr>)
                             pfn (2 ^ order) (b_pages b)\<rparr>)
      else None)"

definition pop_block :: "nat \<Rightarrow> buddy_allocator \<Rightarrow> nat \<times> buddy_allocator" where
  "pop_block i b =
     (let a = b_areas b ! i in
      (hd (ba_list a),
       b\<lparr>b_areas := (b_areas b)[i := a\<lparr>ba_list := tl (ba_list a), ba_count := ba_count a - 1\<rparr>]\<rparr>))"

definition buddy_alloc_vaddr :: "u64 \<Rightarrow> buddy_allocator \<Rightarrow> int \<Rightarrow> (vaddr \<times> buddy_allocator) option" where
  "buddy_alloc_vaddr hhdm b order =
     (if order > int MAX_ORDER then Some (0, b)
      else if order < 0 then None
      else case find_order b (nat order) of
             None \<Rightarrow> Some (0, b)
           | Some i \<Rightarrow>
               (case pop_block i b of (pfn, b) \<Rightarrow>
                  do { b \<leftarrow> split_block b pfn (nat order) i;
                       b \<leftarrow> set_allocated pfn (nat order) b;
                       Some (of_nat (pfn * 4096) + hhdm, b) }))"

definition buddy_alloc :: "u64 \<Rightarrow> buddy_allocator \<Rightarrow> int \<Rightarrow> (vaddr \<times> buddy_allocator) option" where
  "buddy_alloc = buddy_alloc_vaddr"

definition buddy_free :: "u64 \<Rightarrow> buddy_allocator \<Rightarrow> vaddr \<Rightarrow> int \<Rightarrow> buddy_allocator option" where
  "buddy_free hhdm b v order =
     (if v = 0 then Some b
      else let pfn = unat ((v - hhdm) div 4096) in
        if pfn \<ge> b_page_count b then Some b
        else if order < 0 \<or> order > int MAX_ORDER \<or> pfn + 2 ^ nat order > length (b_pages b) then None
        else buddy_add_block
               (b\<lparr>b_pages := update_range (\<lambda>pg. pg\<lparr>bp_flags := PAGE_FREE\<rparr>) pfn (2 ^ nat order) (b_pages b)\<rparr>)
               pfn (nat order))"

text \<open>
  \<^verbatim>\<open>free_init_sections\<close> of \<^verbatim>\<open>src/lizard/init.c\<close>: every page of the linker's init section is given
  to the allocator at the end of the boot.
\<close>

primrec free_pages_from :: "u64 \<Rightarrow> buddy_allocator \<Rightarrow> u64 \<Rightarrow> nat \<Rightarrow> buddy_allocator option" where
  "free_pages_from hhdm b phys 0 = Some b"
| "free_pages_from hhdm b phys (Suc n) =
     do { b \<leftarrow> buddy_free hhdm b (phys + hhdm) 0; free_pages_from hhdm b (phys + 4096) n }"

definition free_init_sections ::
  "u64 \<Rightarrow> boot_info \<Rightarrow> u64 \<Rightarrow> u64 \<Rightarrow> u64 \<Rightarrow> buddy_allocator \<Rightarrow> buddy_allocator option" where
  "free_init_sections hhdm bi kernel_start init_start init_end b =
     (let start = align_down init_start 4096; end = align_up init_end 4096 in
      free_pages_from hhdm b (start - kernel_start + bi_kernel_phys_base bi)
        (if start < end then unat ((end - start) div 4096) else 0))"

section \<open>The allocator's invariant\<close>

definition blocks :: "buddy_allocator \<Rightarrow> (nat \<times> nat) set" where
  "blocks b = {(p, k). k \<le> MAX_ORDER \<and> p \<in> set (ba_list (b_areas b ! k))}"

definition block_pages :: "nat \<times> nat \<Rightarrow> nat set" where
  "block_pages x = {fst x..<fst x + 2 ^ snd x}"

definition free_pages :: "buddy_allocator \<Rightarrow> nat set" where
  "free_pages b = {i. i < length (b_pages b) \<and> bp_flags (b_pages b ! i) = PAGE_FREE}"

definition covered :: "buddy_allocator \<Rightarrow> nat set" where
  "covered b = (\<Union>x\<in>blocks b. block_pages x)"

text \<open>The free lists alone: counted, aligned, in range, pairwise disjoint blocks.\<close>

definition lists_ok :: "buddy_allocator \<Rightarrow> bool" where
  "lists_ok b \<longleftrightarrow>
     length (b_areas b) = Suc MAX_ORDER \<and> b_page_count b = length (b_pages b) \<and>
     (\<forall>k\<le>MAX_ORDER. distinct (ba_list (b_areas b ! k)) \<and>
                    ba_count (b_areas b ! k) = int (length (ba_list (b_areas b ! k)))) \<and>
     (\<forall>(p, k)\<in>blocks b. 2 ^ k dvd p \<and> p + 2 ^ k \<le> length (b_pages b)) \<and>
     (\<forall>x\<in>blocks b. \<forall>y\<in>blocks b. x \<noteq> y \<longrightarrow> block_pages x \<inter> block_pages y = {})"

definition buddy_inv :: "buddy_allocator \<Rightarrow> bool" where
  "buddy_inv b \<longleftrightarrow> lists_ok b \<and> covered b = free_pages b"

lemma block_pages_ne: "p \<in> block_pages (p, k)"
  by (simp add: block_pages_def)

lemma linked_page_blocks:
  "length (b_areas b) = Suc MAX_ORDER \<Longrightarrow> linked_page b p \<longleftrightarrow> (\<exists>k. (p, k) \<in> blocks b)"
proof -
  assume len: "length (b_areas b) = Suc MAX_ORDER"
  have "linked_page b p \<longleftrightarrow> (\<exists>k<length (b_areas b). p \<in> set (ba_list (b_areas b ! k)))"
    unfolding linked_page_def by (metis in_set_conv_nth)
  then show ?thesis
    using len by (simp add: blocks_def less_Suc_eq_le [symmetric])
qed

text \<open>Adding a block disjoint from the free ones.\<close>

lemma buddy_add_block_ok:
  assumes ok: "lists_ok b" and k: "k \<le> MAX_ORDER" and al: "2 ^ k dvd p"
    and bnd: "p + 2 ^ k \<le> length (b_pages b)" and dis: "block_pages (p, k) \<inter> covered b = {}"
  shows "\<exists>b'. buddy_add_block b p k = Some b' \<and> lists_ok b' \<and>
    blocks b' = insert (p, k) (blocks b) \<and> covered b' = covered b \<union> block_pages (p, k) \<and>
    b_pages b' = (b_pages b)[p := (b_pages b ! p)\<lparr>bp_flags := PAGE_FREE, bp_order := k\<rparr>]"
proof -
  let ?a = "b_areas b ! k"
  define b' where "b' = b\<lparr>b_pages := (b_pages b)[p := (b_pages b ! p)\<lparr>bp_flags := PAGE_FREE, bp_order := k\<rparr>],
    b_areas := (b_areas b)[k := ?a\<lparr>ba_list := p # ba_list ?a, ba_count := ba_count ?a + 1\<rparr>]\<rparr>"
  have len: "length (b_areas b) = Suc MAX_ORDER"
    using ok by (simp add: lists_ok_def)
  have np: "(p, j) \<notin> blocks b" for j
    using dis block_pages_ne [of p k] block_pages_ne [of p j] by (auto simp: covered_def)
  have p: "p < length (b_pages b)"
    using bnd zero_less_power [of "2::nat" k] by linarith
  have run: "buddy_add_block b p k = Some b'"
    using np p k len linked_page_blocks [OF len] by (simp add: buddy_add_block_def b'_def Let_def)
  have areas: "b_areas b' ! j = (if j = k then ?a\<lparr>ba_list := p # ba_list ?a, ba_count := ba_count ?a + 1\<rparr>
      else b_areas b ! j)" for j
    using len k by (simp add: b'_def nth_list_update_if)
  have bl: "blocks b' = insert (p, k) (blocks b)"
    using k by (auto simp: blocks_def areas split: if_splits)
  have cov: "covered b' = covered b \<union> block_pages (p, k)"
    by (auto simp: covered_def bl)
  have sep: "block_pages (p, k) \<inter> block_pages y = {}" if "y \<in> blocks b" for y
    using that dis by (auto simp: covered_def)
  have "p \<notin> set (ba_list ?a)"
    using np [of k] k by (simp add: blocks_def)
  then have "lists_ok b'"
    using ok al bnd sep unfolding lists_ok_def bl areas
    by (auto simp: b'_def Int_commute)
  then show ?thesis
    using run bl cov by (auto simp: b'_def)
qed

lemma free_pages_add:
  "p < length (b_pages b) \<Longrightarrow>
   b_pages b' = (b_pages b)[p := (b_pages b ! p)\<lparr>bp_flags := PAGE_FREE, bp_order := k\<rparr>] \<Longrightarrow>
   free_pages b' = insert p (free_pages b)"
  by (auto simp: free_pages_def nth_list_update)

text \<open>Taking the first block of a non-empty free list.\<close>

lemma pop_block_ok:
  assumes ok: "lists_ok b" and k: "k \<le> MAX_ORDER" and ne: "ba_list (b_areas b ! k) \<noteq> []"
    and pop: "pop_block k b = (p, b')"
  shows "lists_ok b' \<and> (p, k) \<in> blocks b \<and> blocks b' = blocks b - {(p, k)} \<and>
    covered b' = covered b - block_pages (p, k) \<and> b_pages b' = b_pages b"
proof -
  let ?a = "b_areas b ! k"
  have len: "length (b_areas b) = Suc MAX_ORDER"
    using ok by (simp add: lists_ok_def)
  have p: "p = hd (ba_list ?a)" and b': "b_pages b' = b_pages b" "b_page_count b' = b_page_count b"
    and areas: "b_areas b' ! j = (if j = k then ?a\<lparr>ba_list := tl (ba_list ?a), ba_count := ba_count ?a - 1\<rparr>
      else b_areas b ! j)" and len': "length (b_areas b') = Suc MAX_ORDER" for j
    using pop len k by (auto simp: pop_block_def Let_def nth_list_update_if)
  have lst: "ba_list ?a = p # tl (ba_list ?a)"
    using ne p by simp
  have mem: "(p, k) \<in> blocks b"
    using k ne p by (simp add: blocks_def)
  have dist: "distinct (ba_list ?a)"
    using ok k by (simp add: lists_ok_def)
  have tl: "set (tl (ba_list ?a)) = set (ba_list ?a) - {p}"
    using dist lst by (metis Diff_insert_absorb distinct.simps(2) list.simps(15))
  have bl: "blocks b' = blocks b - {(p, k)}"
    using tl by (auto simp: blocks_def areas split: if_splits)
  have sep: "block_pages y \<inter> block_pages (p, k) = {}" if "y \<in> blocks b" "y \<noteq> (p, k)" for y
    using that mem ok unfolding lists_ok_def by blast
  then have cov: "covered b' = covered b - block_pages (p, k)"
    by (auto simp: covered_def bl)
  have "lists_ok b'"
    using ok dist ne unfolding lists_ok_def bl areas b' len'
    by (auto simp: distinct_tl) (metis length_greater_0_conv of_nat_1 of_nat_diff Suc_leI One_nat_def)
  then show ?thesis
    using mem bl cov b' by blast
qed

text \<open>Splitting a taken block of order \<open>i\<close> down to \<open>order\<close>: the upper halves are freed again.\<close>

lemma split_block_ok:
  "lists_ok b \<Longrightarrow> k \<le> i \<Longrightarrow> i \<le> MAX_ORDER \<Longrightarrow> 2 ^ i dvd p \<Longrightarrow> p + 2 ^ i \<le> length (b_pages b) \<Longrightarrow>
   block_pages (p, i) \<inter> covered b = {} \<Longrightarrow> block_pages (p, i) \<subseteq> free_pages b \<Longrightarrow>
   \<exists>b'. split_block b p k i = Some b' \<and> lists_ok b' \<and>
     covered b' = covered b \<union> {p + 2 ^ k..<p + 2 ^ i} \<and> free_pages b' = free_pages b \<and>
     length (b_pages b') = length (b_pages b) \<and>
     (\<forall>j. j \<notin> {p..<p + 2 ^ i} \<longrightarrow> b_pages b' ! j = b_pages b ! j)"
proof (induction i arbitrary: b)
  case (Suc i)
  show ?case
  proof (cases "k < Suc i")
    case False
    then show ?thesis using Suc.prems by (auto simp: le_antisym)
  next
    case True
    have half: "(2::nat) ^ Suc i = 2 ^ i + 2 ^ i"
      by simp
    have up: "block_pages (p + 2 ^ i, i) = {p + 2 ^ i..<p + 2 ^ Suc i}"
      by (auto simp: block_pages_def)
    have dv: "2 ^ i dvd p"
      using Suc.prems(4) by (meson dvd_trans le_imp_power_dvd lessI less_imp_le)
    then have dv2: "2 ^ i dvd p + 2 ^ i"
      by simp
    have sub: "block_pages (p + 2 ^ i, i) \<subseteq> block_pages (p, Suc i)"
      by (auto simp: block_pages_def)
    have "\<exists>b'. buddy_add_block b (p + 2 ^ i) i = Some b' \<and> lists_ok b' \<and>
      blocks b' = insert (p + 2 ^ i, i) (blocks b) \<and> covered b' = covered b \<union> block_pages (p + 2 ^ i, i) \<and>
      b_pages b' = (b_pages b)[p + 2 ^ i := (b_pages b ! (p + 2 ^ i))\<lparr>bp_flags := PAGE_FREE, bp_order := i\<rparr>]"
      by (rule buddy_add_block_ok) (use Suc.prems dv2 sub in auto)
    then obtain b1 where b1: "buddy_add_block b (p + 2 ^ i) i = Some b1" "lists_ok b1"
      "covered b1 = covered b \<union> block_pages (p + 2 ^ i, i)"
      "b_pages b1 = (b_pages b)[p + 2 ^ i := (b_pages b ! (p + 2 ^ i))\<lparr>bp_flags := PAGE_FREE, bp_order := i\<rparr>]"
      by blast
    have lt: "p + 2 ^ i < length (b_pages b)"
      using Suc.prems(5) half zero_less_power [of "2::nat" i] by linarith
    have "p + 2 ^ i \<in> free_pages b"
      using Suc.prems(7) block_pages_ne [of "p + 2 ^ i" i] sub by blast
    then have fr: "free_pages b1 = free_pages b"
      using free_pages_add [OF lt b1(4)] by auto
    have low_sub: "block_pages (p, i) \<subseteq> block_pages (p, Suc i)"
      "block_pages (p, i) \<inter> block_pages (p + 2 ^ i, i) = {}"
      by (auto simp: block_pages_def)
    have low: "block_pages (p, i) \<inter> covered b1 = {}" "block_pages (p, i) \<subseteq> free_pages b1"
      using Suc.prems(6,7) low_sub fr b1(3) by (blast, blast)
    obtain b2 where b2: "split_block b1 p k i = Some b2" "lists_ok b2"
      "covered b2 = covered b1 \<union> {p + 2 ^ k..<p + 2 ^ i}" "free_pages b2 = free_pages b1"
      "length (b_pages b2) = length (b_pages b1)"
      "\<And>j. j \<notin> {p..<p + 2 ^ i} \<Longrightarrow> b_pages b2 ! j = b_pages b1 ! j"
      using Suc.IH [OF b1(2) _ _ dv _ low] Suc.prems(3,5) True b1(4) half by auto
    have le: "(2::nat) ^ k \<le> 2 ^ i"
      using True by simp
    have "covered b2 = covered b \<union> {p + 2 ^ k..<p + 2 ^ Suc i}"
      using ivl_disj_un_two(3) [of "p + 2 ^ k" "p + 2 ^ i" "p + 2 ^ Suc i"] le
      unfolding b2(3) b1(3) up by auto
    moreover have "b_pages b2 ! j = b_pages b ! j" if "j \<notin> {p..<p + 2 ^ Suc i}" for j
    proof -
      have "j \<noteq> p + 2 ^ i" "j \<notin> {p..<p + 2 ^ i}"
        using that half by auto
      then show ?thesis
        using b2(6) [of j] b1(4) by (simp add: nth_list_update_if)
    qed
    ultimately show ?thesis
      using b1(1) b2 b1(4) fr True by auto
  qed
qed auto

section \<open>Allocation and release\<close>

lemma find_order_spec:
  "case find_order b i of
     None \<Rightarrow> \<forall>j. i \<le> j \<and> j \<le> MAX_ORDER \<longrightarrow> ba_list (b_areas b ! j) = []
   | Some k \<Rightarrow> i \<le> k \<and> k \<le> MAX_ORDER \<and> ba_list (b_areas b ! k) \<noteq> []"
proof (induction b i rule: find_order.induct)
  case (1 b i)
  show ?case
  proof (cases "i > MAX_ORDER \<or> ba_list (b_areas b ! i) \<noteq> []")
    case True
    then show ?thesis by (auto simp: find_order.simps [of b i])
  next
    case False
    then have eq: "find_order b i = find_order b (Suc i)"
      by (simp add: find_order.simps [of b i])
    show ?thesis
      using 1 False unfolding eq
      by (auto split: option.splits) (metis Suc_leI le_neq_implies_less)+
  qed
qed

lemma set_allocated_ok:
  assumes ok: "lists_ok b" and bnd: "p + 2 ^ k \<le> length (b_pages b)"
  shows "\<exists>b'. set_allocated p k b = Some b' \<and> lists_ok b' \<and> covered b' = covered b \<and>
    free_pages b' = free_pages b - block_pages (p, k) \<and> length (b_pages b') = length (b_pages b) \<and>
    (\<forall>j<length (b_pages b). b_pages b' ! j =
       (if j \<in> block_pages (p, k) then (b_pages b ! j)\<lparr>bp_flags := PAGE_ALLOCATED, bp_order := k\<rparr>
        else b_pages b ! j))"
proof -
  let ?f = "\<lambda>pg. pg\<lparr>bp_flags := PAGE_ALLOCATED, bp_order := k\<rparr>"
  define b' where "b' = b\<lparr>b_pages := update_range ?f p (2 ^ k) (b_pages b)\<rparr>"
  have n: "\<forall>j<length (b_pages b). b_pages b' ! j = (if j \<in> block_pages (p, k) then ?f (b_pages b ! j) else b_pages b ! j)"
    by (simp add: b'_def nth_update_range block_pages_def)
  have bl: "blocks b' = blocks b"
    by (simp add: b'_def blocks_def)
  have "lists_ok b'"
    using ok unfolding lists_ok_def bl by (simp add: b'_def)
  moreover have "free_pages b' = free_pages b - block_pages (p, k)"
    using n by (auto simp: free_pages_def b'_def PAGE_FREE_def PAGE_ALLOCATED_def split: if_splits)
  ultimately show ?thesis
    using bnd n by (auto simp: set_allocated_def b'_def [symmetric] covered_def bl) (simp_all add: b'_def)
qed

text \<open>What a successful allocation of order \<open>k\<close> at page \<open>p\<close> does to the allocator.\<close>

definition took_block :: "buddy_allocator \<Rightarrow> nat \<Rightarrow> nat \<Rightarrow> buddy_allocator \<Rightarrow> bool" where
  "took_block b p k b' \<longleftrightarrow>
     2 ^ k dvd p \<and> p + 2 ^ k \<le> length (b_pages b) \<and> block_pages (p, k) \<subseteq> free_pages b \<and>
     free_pages b' = free_pages b - block_pages (p, k) \<and> length (b_pages b') = length (b_pages b) \<and>
     (\<forall>j\<in>block_pages (p, k). b_pages b' ! j = \<lparr>bp_order = k, bp_flags = PAGE_ALLOCATED\<rparr>) \<and>
     (\<forall>j<length (b_pages b). j \<notin> free_pages b \<longrightarrow> b_pages b' ! j = b_pages b ! j)"

lemma alloc_at:
  assumes inv: "buddy_inv b" and k: "k \<le> i" "i \<le> MAX_ORDER" and ne: "ba_list (b_areas b ! i) \<noteq> []"
    and pop: "pop_block i b = (p, b0)"
  shows "\<exists>b'. do { b1 \<leftarrow> split_block b0 p k i; set_allocated p k b1 } = Some b' \<and>
    buddy_inv b' \<and> took_block b p k b'"
proof -
  have ok: "lists_ok b" and cov: "covered b = free_pages b"
    using inv by (simp_all add: buddy_inv_def)
  have b0: "lists_ok b0" "(p, i) \<in> blocks b" "covered b0 = covered b - block_pages (p, i)" "b_pages b0 = b_pages b"
    using pop_block_ok [OF ok k(2) ne pop] by auto
  have p: "2 ^ i dvd p" "p + 2 ^ i \<le> length (b_pages b)"
    using ok b0(2) by (auto simp: lists_ok_def)
  have sub: "block_pages (p, i) \<subseteq> free_pages b"
    using b0(2) unfolding cov [symmetric] covered_def by blast
  have fr0: "free_pages b0 = free_pages b"
    by (simp add: free_pages_def b0(4))
  have le: "(2::nat) ^ k \<le> 2 ^ i"
    using k(1) by simp
  have dis: "block_pages (p, i) \<inter> covered b0 = {}"
    using b0(3) by blast
  obtain b1 where b1: "split_block b0 p k i = Some b1" "lists_ok b1"
    "covered b1 = covered b0 \<union> {p + 2 ^ k..<p + 2 ^ i}" "free_pages b1 = free_pages b"
    "length (b_pages b1) = length (b_pages b)" "\<forall>j. j \<notin> {p..<p + 2 ^ i} \<longrightarrow> b_pages b1 ! j = b_pages b ! j"
    using split_block_ok [OF b0(1) k p(1) _ dis] p(2) sub unfolding fr0 b0(4) by blast
  have bnd: "p + 2 ^ k \<le> length (b_pages b1)"
    using p(2) le b1(5) by linarith
  obtain b' where b': "set_allocated p k b1 = Some b'" "lists_ok b'" "covered b' = covered b1"
    "free_pages b' = free_pages b - block_pages (p, k)" "length (b_pages b') = length (b_pages b)"
    "\<forall>j<length (b_pages b). b_pages b' ! j =
      (if j \<in> block_pages (p, k) then (b_pages b1 ! j)\<lparr>bp_flags := PAGE_ALLOCATED, bp_order := k\<rparr> else b_pages b1 ! j)"
    using set_allocated_ok [OF b1(2) bnd] b1(4,5) by auto
  have sub2: "block_pages (p, k) \<subseteq> block_pages (p, i)" "block_pages (p, i) - block_pages (p, k) = {p + 2 ^ k..<p + 2 ^ i}"
    using le by (auto simp: block_pages_def)
  have "covered b' = free_pages b'"
    unfolding b'(3,4) b1(3) b0(3) cov sub2(2) [symmetric] using sub sub2(1) by blast
  then have "buddy_inv b'"
    using b'(2) by (simp add: buddy_inv_def)
  moreover have "took_block b p k b'"
  proof -
    have "2 ^ k dvd p"
      using p(1) k(1) by (meson dvd_trans le_imp_power_dvd)
    moreover have "b_pages b' ! j = \<lparr>bp_order = k, bp_flags = PAGE_ALLOCATED\<rparr>" if "j \<in> block_pages (p, k)" for j
    proof -
      have "j < length (b_pages b)"
        using that bnd b1(5) by (auto simp: block_pages_def)
      then show ?thesis
        using b'(6) that by simp
    qed
    moreover have "b_pages b' ! j = b_pages b ! j" if "j < length (b_pages b)" "j \<notin> free_pages b" for j
    proof -
      have "j \<notin> block_pages (p, k)" "j \<notin> {p..<p + 2 ^ i}"
        using that(2) sub sub2(1) block_pages_def [of "(p, i)"] by (blast, auto)
      then show ?thesis
        using that b'(6) b1(6) by simp
    qed
    ultimately show ?thesis
      using sub sub2(1) bnd b1(5) b'(4,5) unfolding took_block_def by auto
  qed
  ultimately show ?thesis
    using b1(1) b'(1) by auto
qed

text \<open>\<^verbatim>\<open>buddy_alloc\<close> on every branch, and that it never leaves the descriptor arrays.\<close>

lemma buddy_alloc_cases:
  assumes inv: "buddy_inv b" and k: "k \<le> MAX_ORDER"
  shows "(buddy_alloc hhdm b (int k) = Some (0, b) \<and> (\<forall>(p, i)\<in>blocks b. i < k)) \<or>
    (\<exists>p b'. buddy_alloc hhdm b (int k) = Some (of_nat (p * 4096) + hhdm, b') \<and> buddy_inv b' \<and> took_block b p k b')"
proof (cases "find_order b k")
  case None
  then have "\<forall>j. k \<le> j \<and> j \<le> MAX_ORDER \<longrightarrow> ba_list (b_areas b ! j) = []"
    using find_order_spec [where b = b and i = k] by simp
  then have "\<forall>(p, i)\<in>blocks b. i < k"
    by (auto simp: blocks_def) (metis emptyE leI set_empty2)
  then show ?thesis
    using None k by (simp add: buddy_alloc_def buddy_alloc_vaddr_def)
next
  case (Some i)
  then have i: "k \<le> i" "i \<le> MAX_ORDER" "ba_list (b_areas b ! i) \<noteq> []"
    using find_order_spec [where b = b and i = k] by simp_all
  obtain p b0 where pop: "pop_block i b = (p, b0)"
    by fastforce
  from alloc_at [OF inv i pop] show ?thesis
    using Some k pop by (auto simp: buddy_alloc_def buddy_alloc_vaddr_def bind_eq_Some_conv)
qed

lemma buddy_free_ok:
  assumes inv: "buddy_inv b" and k: "k \<le> MAX_ORDER" and al: "2 ^ k dvd p"
    and bnd: "p + 2 ^ k \<le> length (b_pages b)" and dis: "block_pages (p, k) \<inter> free_pages b = {}"
    and v: "v \<noteq> 0" "unat ((v - hhdm) div 4096) = p"
  shows "\<exists>b'. buddy_free hhdm b v (int k) = Some b' \<and> buddy_inv b' \<and>
    free_pages b' = free_pages b \<union> block_pages (p, k) \<and> length (b_pages b') = length (b_pages b) \<and>
    blocks b' = insert (p, k) (blocks b)"
proof -
  let ?f = "\<lambda>pg. pg\<lparr>bp_flags := PAGE_FREE\<rparr>"
  define b1 where "b1 = b\<lparr>b_pages := update_range ?f p (2 ^ k) (b_pages b)\<rparr>"
  have ok: "lists_ok b" and cov: "covered b = free_pages b"
    using inv by (simp_all add: buddy_inv_def)
  have bl: "blocks b1 = blocks b"
    by (simp add: b1_def blocks_def)
  have ok1: "lists_ok b1"
    using ok unfolding lists_ok_def bl by (simp add: b1_def)
  have cov1: "covered b1 = free_pages b"
    by (simp add: covered_def bl cov [unfolded covered_def])
  have fr1: "free_pages b1 = free_pages b \<union> block_pages (p, k)"
    using bnd by (auto simp: free_pages_def b1_def nth_update_range block_pages_def split: if_splits)
  have len1: "length (b_pages b1) = length (b_pages b)"
    by (simp add: b1_def)
  obtain b' where b': "buddy_add_block b1 p k = Some b'" "lists_ok b'" "blocks b' = insert (p, k) (blocks b1)"
    "covered b' = covered b1 \<union> block_pages (p, k)"
    "b_pages b' = (b_pages b1)[p := (b_pages b1 ! p)\<lparr>bp_flags := PAGE_FREE, bp_order := k\<rparr>]"
    using buddy_add_block_ok [OF ok1 k al] bnd len1 dis cov1 by metis
  have lt: "p < length (b_pages b)"
    using bnd zero_less_power [of "2::nat" k] by linarith
  have "free_pages b' = free_pages b1"
    using free_pages_add [OF _ b'(5)] lt len1 fr1 block_pages_ne [of p k] by auto
  then have "buddy_inv b'" "free_pages b' = free_pages b \<union> block_pages (p, k)"
    using b'(2,4) cov1 fr1 by (simp_all add: buddy_inv_def)
  moreover have "buddy_free hhdm b v (int k) = buddy_add_block b1 p k"
    using v k lt bnd ok by (simp add: buddy_free_def lists_ok_def b1_def Let_def)
  ultimately show ?thesis
    using b'(1,3,5) bl len1 by auto
qed

section \<open>Initialisation\<close>

lemma IS_ALIGNED_dvd: "IS_ALIGNED p k \<longleftrightarrow> 2 ^ k dvd p"
proof -
  have "p AND (2 ^ k - 1) = p mod 2 ^ k"
    by (metis mask_eq_exp_minus_1 take_bit_eq_mask take_bit_eq_mod)
  then show ?thesis
    by (simp add: IS_ALIGNED_def dvd_eq_mod_eq_0)
qed

lemma block_order_ok:
  assumes "i \<in> free_pages b" and "b_page_count b = length (b_pages b)"
  shows "block_order b i n \<le> n \<and> 2 ^ block_order b i n dvd i \<and>
    i + 2 ^ block_order b i n \<le> length (b_pages b) \<and> block_pages (i, block_order b i n) \<subseteq> free_pages b"
proof (induction n)
  case 0
  have "block_pages (i, 0) = {i}"
    by (auto simp: block_pages_def)
  then show ?case
    using assms by (auto simp: free_pages_def)
next
  case (Suc n)
  have "block_pages (i, Suc n) \<subseteq> free_pages b"
    if "i + 2 ^ Suc n \<le> length (b_pages b)"
      "list_all (\<lambda>j. bp_flags (b_pages b ! (i + j)) = PAGE_FREE) [0..<2 ^ Suc n]"
  proof
    fix j assume "j \<in> block_pages (i, Suc n)"
    then obtain d where "j = i + d" "d < 2 ^ Suc n"
      unfolding block_pages_def by (metis atLeastLessThan_iff fst_conv le_Suc_ex nat_add_left_cancel_less snd_conv)
    then show "j \<in> free_pages b"
      using that by (auto simp: free_pages_def list_all_iff)
  qed
  then show ?case
    using Suc assms(2) by (auto simp: IS_ALIGNED_dvd)
qed

text \<open>
  The grouping loop never touches a flag, and when it ends the free lists cover exactly the pages
  flagged free from the starting index on.
\<close>

lemma group_free_ok:
  "lists_ok b \<Longrightarrow> covered b = {j \<in> free_pages b. j < i} \<Longrightarrow>
   \<exists>b'. group_free b i = Some b' \<and> buddy_inv b' \<and> free_pages b' = free_pages b \<and>
     length (b_pages b') = length (b_pages b)"
proof (induction b i rule: group_free.induct)
  case (1 b i)
  have cnt: "b_page_count b = length (b_pages b)"
    using 1 by (simp add: lists_ok_def)
  show ?case
  proof (cases "i \<ge> b_page_count b")
    case True
    then have "{j \<in> free_pages b. j < i} = free_pages b"
      by (auto simp: free_pages_def cnt)
    then show ?thesis
      using 1 True by (simp add: group_free.simps [of b i] buddy_inv_def)
  next
    case lt: False
    show ?thesis
    proof (cases "i \<in> free_pages b")
      case False
      then have "{j \<in> free_pages b. j < Suc i} = {j \<in> free_pages b. j < i}"
        by (auto simp: less_Suc_eq)
      moreover have "bp_flags (b_pages b ! i) \<noteq> PAGE_FREE"
        using False lt cnt by (simp add: free_pages_def)
      ultimately show ?thesis
        using "1.IH"(1) "1.prems" lt by (simp add: group_free.simps [of b i])
    next
      case True
      define k where "k = block_order b i MAX_ORDER"
      have k: "k \<le> MAX_ORDER" "2 ^ k dvd i" "i + 2 ^ k \<le> length (b_pages b)" "block_pages (i, k) \<subseteq> free_pages b"
        using block_order_ok [OF True cnt, of MAX_ORDER] by (simp_all add: k_def)
      have dis: "block_pages (i, k) \<inter> covered b = {}"
        unfolding "1.prems"(2) block_pages_def by auto
      obtain b' where b': "buddy_add_block b i k = Some b'" "lists_ok b'"
        "covered b' = covered b \<union> block_pages (i, k)"
        "b_pages b' = (b_pages b)[i := (b_pages b ! i)\<lparr>bp_flags := PAGE_FREE, bp_order := k\<rparr>]"
        using buddy_add_block_ok [OF "1.prems"(1) k(1-3) dis] by blast
      have fr: "free_pages b' = free_pages b"
        using free_pages_add [OF _ b'(4)] lt cnt True by auto
      have "covered b' = {j \<in> free_pages b'. j < i + 2 ^ k}"
        unfolding b'(3) fr "1.prems"(2) using k(4) by (auto simp: block_pages_def)
      moreover have "bp_flags (b_pages b ! i) = PAGE_FREE"
        using True by (simp add: free_pages_def)
      ultimately show ?thesis
        using "1.IH"(2) [of b'] lt b' fr
        by (simp add: group_free.simps [of b i] k_def [symmetric])
    qed
  qed
qed

text \<open>Marking: which pages are flagged after the loop over the memory map.\<close>

definition entry_pfns :: "bi_mmap_entry \<Rightarrow> nat set" where
  "entry_pfns e = (if e_type e = BI_USABLE
     then {unat (align_up (e_base e) 4096 div 4096)..<unat (align_down (e_base e + e_len e) 4096 div 4096)} else {})"

definition in_range :: "nat \<times> nat \<Rightarrow> nat \<Rightarrow> bool" where
  "in_range r p \<longleftrightarrow> fst r \<le> p \<and> p < snd r"

lemma fold_set_flag:
  "length (fold (\<lambda>p ps. ps[p := (ps ! p)\<lparr>bp_flags := PAGE_FREE\<rparr>]) xs ps) = length ps \<and>
   (\<forall>j<length ps. fold (\<lambda>p ps. ps[p := (ps ! p)\<lparr>bp_flags := PAGE_FREE\<rparr>]) xs ps ! j =
      (if j \<in> set xs then (ps ! j)\<lparr>bp_flags := PAGE_FREE\<rparr> else ps ! j))"
  by (induction xs arbitrary: ps) (auto simp: nth_list_update_if)

lemma mark_entry_ok:
  assumes "mark_entry kr er e b = Some b'"
  shows "b_areas b' = b_areas b \<and> b_page_count b' = b_page_count b \<and> length (b_pages b') = length (b_pages b) \<and>
    free_pages b' = free_pages b \<union> {p \<in> entry_pfns e. \<not> in_range kr p \<and> \<not> in_range er p}"
proof (cases "e_type e = BI_USABLE \<and> align_up (e_base e) 4096 < align_down (e_base e + e_len e) 4096")
  case False
  have "unat (align_down (e_base e + e_len e) 4096) div 4096 \<le> unat (align_up (e_base e) 4096) div 4096"
    if "align_down (e_base e + e_len e) 4096 \<le> align_up (e_base e) 4096"
    using that by (simp add: word_le_nat_alt div_le_mono)
  then show ?thesis
    using False assms by (auto simp: mark_entry_def entry_pfns_def Let_def unat_div split: if_splits)
next
  case True
  define xs where "xs = filter (\<lambda>p. \<not> (fst kr \<le> p \<and> p < snd kr \<or> fst er \<le> p \<and> p < snd er))
     [unat (align_up (e_base e) 4096 div 4096)..<unat (align_down (e_base e + e_len e) 4096 div 4096)]"
  have b': "b' = b\<lparr>b_pages := fold (\<lambda>pfn ps. ps[pfn := (ps ! pfn)\<lparr>bp_flags := PAGE_FREE\<rparr>]) xs (b_pages b)\<rparr>"
    "\<forall>p\<in>set xs. p < length (b_pages b)"
    using assms True
    by (auto simp: mark_entry_def Let_def xs_def list_all_iff not_le split: if_splits)
  have "free_pages b' = free_pages b \<union> set xs"
  proof (rule set_eqI)
    show "j \<in> free_pages b' \<longleftrightarrow> j \<in> free_pages b \<union> set xs" for j
      using b' fold_set_flag [of xs "b_pages b"]
      by (cases "j < length (b_pages b)") (auto simp: free_pages_def)
  qed
  moreover have "set xs = {p \<in> entry_pfns e. \<not> in_range kr p \<and> \<not> in_range er p}"
    using True by (auto simp: xs_def entry_pfns_def in_range_def)
  ultimately show ?thesis
    using b'(1) fold_set_flag [of xs "b_pages b"] by simp
qed

lemma mark_entries_ok:
  "mark_entries kr er es b = Some b' \<Longrightarrow>
   b_areas b' = b_areas b \<and> b_page_count b' = b_page_count b \<and> length (b_pages b') = length (b_pages b) \<and>
   free_pages b' = free_pages b \<union> {p \<in> (\<Union>e\<in>set es. entry_pfns e). \<not> in_range kr p \<and> \<not> in_range er p}"
proof (induction es arbitrary: b)
  case (Cons e es)
  obtain b1 where b1: "mark_entry kr er e b = Some b1" "mark_entries kr er es b1 = Some b'"
    using Cons.prems by (auto simp: bind_eq_Some_conv)
  show ?case
    using mark_entry_ok [OF b1(1)] Cons.IH [OF b1(2)] by auto
qed simp

text \<open>The page ranges of the kernel image and of the boot-time allocations.\<close>

definition kernel_pfns :: "boot_info \<Rightarrow> u64 \<Rightarrow> u64 \<Rightarrow> nat \<times> nat" where
  "kernel_pfns bi kernel_start kernel_end =
     (unat (bi_kernel_phys_base bi div 4096),
      unat (align_up (bi_kernel_phys_base bi + (kernel_end - kernel_start)) 4096 div 4096))"

definition early_pfns :: "early_state \<Rightarrow> nat \<times> nat" where
  "early_pfns est = (unat (align_down (early_base est) 4096 div 4096), unat (align_up (early_current est) 4096 div 4096))"

text \<open>The descriptor array is long enough for every usable entry, so marking never leaves it.\<close>

definition max_end :: "u64 \<Rightarrow> bi_mmap_entry list \<Rightarrow> u64" where
  "max_end = foldl (\<lambda>m e. if e_type e = BI_USABLE \<and> e_base e + e_len e > m then e_base e + e_len e else m)"

lemma max_end_bounds:
  "m \<le> max_end m es \<and> (\<forall>e\<in>set es. e_type e = BI_USABLE \<longrightarrow> e_base e + e_len e \<le> max_end m es) \<and>
   (max_end m es = m \<or> (\<exists>e\<in>set es. e_type e = BI_USABLE \<and> max_end m es = e_base e + e_len e))"
proof (induction es arbitrary: m)
  case (Cons e es)
  let ?m = "if e_type e = BI_USABLE \<and> e_base e + e_len e > m then e_base e + e_len e else m"
  have "max_end m (e # es) = max_end ?m es"
    by (simp add: max_end_def)
  then show ?case
    using Cons.IH [of ?m] by (auto split: if_splits)
qed (simp add: max_end_def)

lemma entry_pfns_bound:
  assumes "e \<in> set (bi_entries bi)" and small: "\<forall>e\<in>set (bi_entries bi). unat (e_base e + e_len e) \<le> 2 ^ 64 - 4096"
    and p: "p \<in> entry_pfns e"
  shows "p < detect_page_count (Some bi)"
proof -
  let ?m = "max_end 0 (bi_entries bi)"
  have us: "e_type e = BI_USABLE" and p': "p < unat (align_down (e_base e + e_len e) 4096) div 4096"
    using p by (auto simp: entry_pfns_def unat_div split: if_splits)
  have le: "e_base e + e_len e \<le> ?m"
    using max_end_bounds assms(1) us by blast
  have bnd: "unat ?m \<le> 2 ^ 64 - 4096"
    using max_end_bounds [of 0 "bi_entries bi"] small by (metis le0 unsigned_0)
  have "p < unat (e_base e + e_len e) div 4096"
    using p' by (simp add: unat_align_down_page)
  also have "\<dots> \<le> unat ?m div 4096"
    using le by (simp add: word_le_nat_alt div_le_mono)
  also have "\<dots> \<le> (unat ?m + 4095) div 4096"
    by (simp add: div_le_mono)
  also have "\<dots> = unat (align_up ?m 4096) div 4096"
    using bnd by (subst unat_align_up_page) simp_all
  also have "\<dots> = detect_page_count (Some bi)"
    by (simp add: detect_page_count_def max_end_def unat_div)
  finally show ?thesis .
qed

lemma mark_entries_total:
  "\<forall>e\<in>set es. \<forall>p\<in>entry_pfns e. p < length (b_pages b) \<Longrightarrow> \<exists>b'. mark_entries kr er es b = Some b'"
proof (induction es arbitrary: b)
  case (Cons e es)
  have "\<exists>b1. mark_entry kr er e b = Some b1"
    using Cons.prems by (auto simp: mark_entry_def entry_pfns_def Let_def list_all_iff)
  then obtain b1 where b1: "mark_entry kr er e b = Some b1" by blast
  then show ?case
    using Cons.IH [of b1] Cons.prems mark_entry_ok [OF b1] by simp
qed simp

lemma buddy_init_ok:
  assumes room: "early_alloc est (of_nat (detect_page_count (Some bi)) * sizeof_buddy_page) 0 = Some (v, est')"
    and small: "\<forall>e\<in>set (bi_entries bi). unat (e_base e + e_len e) \<le> 2 ^ 64 - 4096"
  shows "\<exists>b. buddy_init (Some bi) kernel_start kernel_end est = Some (b, est') \<and> buddy_inv b \<and>
    free_pages b = {p \<in> (\<Union>e\<in>set (bi_entries bi). entry_pfns e).
      \<not> in_range (kernel_pfns bi kernel_start kernel_end) p \<and> \<not> in_range (early_pfns est') p}"
proof -
  let ?n = "detect_page_count (Some bi)"
  let ?b0 = "\<lparr>b_pages = replicate ?n \<lparr>bp_order = 0, bp_flags = PAGE_RESERVED\<rparr>, b_page_count = ?n,
    b_areas = replicate (Suc MAX_ORDER) \<lparr>ba_list = [], ba_count = 0\<rparr>\<rparr>"
  let ?kr = "kernel_pfns bi kernel_start kernel_end" and ?er = "early_pfns est'"
  obtain b1 where b1: "mark_entries ?kr ?er (bi_entries bi) ?b0 = Some b1"
    using mark_entries_total [of "bi_entries bi" ?b0 ?kr ?er] entry_pfns_bound [OF _ small] by auto
  note m = mark_entries_ok [OF b1]
  have ar: "b_areas b1 ! k = \<lparr>ba_list = [], ba_count = 0\<rparr>" if "k \<le> MAX_ORDER" for k
    using m that nth_replicate [of k "Suc MAX_ORDER"] by (simp del: replicate_Suc)
  then have bl: "blocks b1 = {}"
    by (auto simp: blocks_def)
  have "lists_ok b1"
    using m ar unfolding lists_ok_def bl by (simp del: replicate_Suc)
  moreover have "covered b1 = {j \<in> free_pages b1. j < 0}"
    by (simp add: covered_def bl)
  ultimately obtain b where b: "group_free b1 0 = Some b" "buddy_inv b" "free_pages b = free_pages b1"
    using group_free_ok [of b1 0] by blast
  have "free_pages ?b0 = {}"
    by (auto simp: free_pages_def PAGE_FREE_def PAGE_RESERVED_def)
  moreover have "buddy_init (Some bi) kernel_start kernel_end est = Some (b, est')"
    using b1 b(1) room unfolding buddy_init_def kernel_pfns_def early_pfns_def
    by (simp add: Let_def del: replicate_Suc)
  ultimately show ?thesis
    using b m by auto
qed

section \<open>The page allocator as its clients see it\<close>

text \<open>
  The slab allocator, the page tables, the task stacks and the loader rely on these laws only: a
  block handed out is aligned and was free, and is not free any more; releasing it makes exactly its
  pages free again; neither operation ever faults.
\<close>

primrec alloc_all :: "('s \<Rightarrow> nat \<Rightarrow> (vaddr \<times> 's) option) \<Rightarrow> 's \<Rightarrow> nat list \<Rightarrow> (vaddr list \<times> 's) option" where
  "alloc_all f s [] = Some ([], s)"
| "alloc_all f s (k # ks) = do { (v, s) \<leftarrow> f s k; (vs, s) \<leftarrow> alloc_all f s ks; Some (v # vs, s) }"

locale page_allocator =
  fixes inv :: "'s \<Rightarrow> bool"
    and free :: "'s \<Rightarrow> nat set"
    and total :: "'s \<Rightarrow> nat"
    and page :: "vaddr \<Rightarrow> nat"
    and addr :: "nat \<Rightarrow> vaddr"
    and alloc :: "'s \<Rightarrow> nat \<Rightarrow> (vaddr \<times> 's) option"
    and release :: "'s \<Rightarrow> vaddr \<Rightarrow> nat \<Rightarrow> 's option"
    and max_order :: nat
  assumes alloc_spec: "inv s \<Longrightarrow> k \<le> max_order \<Longrightarrow>
      \<exists>v s'. alloc s k = Some (v, s') \<and> inv s' \<and> total s' = total s \<and>
        (if v = 0 then s' = s
         else 2 ^ k dvd page v \<and> page v + 2 ^ k \<le> total s \<and> {page v..<page v + 2 ^ k} \<subseteq> free s \<and>
              free s' = free s - {page v..<page v + 2 ^ k} \<and> addr (page v) = v)"
    and release_spec: "inv s \<Longrightarrow> k \<le> max_order \<Longrightarrow> v \<noteq> 0 \<Longrightarrow> 2 ^ k dvd page v \<Longrightarrow>
      page v + 2 ^ k \<le> total s \<Longrightarrow> {page v..<page v + 2 ^ k} \<inter> free s = {} \<Longrightarrow>
      \<exists>s'. release s v k = Some s' \<and> inv s' \<and> total s' = total s \<and>
        free s' = free s \<union> {page v..<page v + 2 ^ k}"
begin

definition region :: "vaddr \<Rightarrow> nat \<Rightarrow> nat set" where
  "region v k = (if v = 0 then {} else {page v..<page v + 2 ^ k})"

lemma alloc_free_restores:
  assumes "inv s" "k \<le> max_order" "alloc s k = Some (v, s')" "v \<noteq> 0"
  shows "\<exists>s''. release s' v k = Some s'' \<and> inv s'' \<and> free s'' = free s"
proof -
  have a: "inv s'" "total s' = total s" "2 ^ k dvd page v" "page v + 2 ^ k \<le> total s"
    "{page v..<page v + 2 ^ k} \<subseteq> free s" "free s' = free s - {page v..<page v + 2 ^ k}"
    using alloc_spec [OF assms(1,2)] assms(3,4) by auto
  then have "{page v..<page v + 2 ^ k} \<inter> free s' = {}"
    by blast
  then obtain s'' where "release s' v k = Some s''" "inv s''" "free s'' = free s' \<union> {page v..<page v + 2 ^ k}"
    using release_spec [OF a(1) assms(2,4) a(3)] a(2,4) by auto
  then show ?thesis
    using a(5,6) by auto
qed

text \<open>Successive allocations never overlap, and stay off the free pages.\<close>

lemma alloc_all_disjoint:
  "inv s \<Longrightarrow> \<forall>k\<in>set ks. k \<le> max_order \<Longrightarrow>
   \<exists>vs s'. alloc_all alloc s ks = Some (vs, s') \<and> inv s' \<and> length vs = length ks \<and> free s' \<subseteq> free s \<and>
     (\<forall>i<length ks. region (vs ! i) (ks ! i) \<subseteq> free s - free s') \<and>
     (\<forall>i<length ks. \<forall>j<i. region (vs ! i) (ks ! i) \<inter> region (vs ! j) (ks ! j) = {})"
proof (induction ks arbitrary: s)
  case (Cons k ks)
  obtain v s1 where a: "alloc s k = Some (v, s1)" "inv s1"
    "if v = 0 then s1 = s
     else 2 ^ k dvd page v \<and> page v + 2 ^ k \<le> total s \<and> {page v..<page v + 2 ^ k} \<subseteq> free s \<and>
          free s1 = free s - {page v..<page v + 2 ^ k} \<and> addr (page v) = v"
    using alloc_spec [OF Cons.prems(1), of k] Cons.prems(2) by auto
  then have r: "region v k \<subseteq> free s" "free s1 = free s - region v k"
    by (auto simp: region_def split: if_splits)
  obtain vs s' where s': "alloc_all alloc s1 ks = Some (vs, s')" "inv s'" "length vs = length ks" "free s' \<subseteq> free s1"
    "\<forall>i<length ks. region (vs ! i) (ks ! i) \<subseteq> free s1 - free s'"
    "\<forall>i<length ks. \<forall>j<i. region (vs ! i) (ks ! i) \<inter> region (vs ! j) (ks ! j) = {}"
    using Cons.IH [OF a(2)] Cons.prems(2) by auto
  have "region ((v # vs) ! i) ((k # ks) ! i) \<subseteq> free s - free s'" if "i < length (k # ks)" for i
    using that s'(4,5) r by (cases i) auto
  moreover have "region ((v # vs) ! i) ((k # ks) ! i) \<inter> region ((v # vs) ! j) ((k # ks) ! j) = {}"
    if "i < length (k # ks)" "j < i" for i j
  proof (cases j)
    case 0
    then show ?thesis using that s'(5) r(2) by (cases i) auto
  next
    case (Suc j')
    then show ?thesis using that s'(6) by (cases i) auto
  qed
  ultimately show ?case
    using a(1) s'(1-4) r(2) by (intro exI [of _ "v # vs"] exI [of _ s']) auto
qed simp

end

text \<open>The allocator with its direct map: the whole of it is mapped, below the end of the address space.\<close>

definition buddy_ok :: "u64 \<Rightarrow> buddy_allocator \<Rightarrow> bool" where
  "buddy_ok hhdm b \<longleftrightarrow> buddy_inv b \<and> hhdm \<noteq> 0 \<and> unat hhdm + length (b_pages b) * 4096 < 2 ^ 64"

definition page_of :: "u64 \<Rightarrow> vaddr \<Rightarrow> nat" where
  "page_of hhdm v = unat ((v - hhdm) div 4096)"

definition addr_of :: "u64 \<Rightarrow> nat \<Rightarrow> vaddr" where
  "addr_of hhdm p = of_nat (p * 4096) + hhdm"

lemma page_of_vaddr:
  assumes "p < n" "unat hhdm + n * 4096 < 2 ^ 64" "hhdm \<noteq> 0"
  shows "page_of hhdm (of_nat (p * 4096) + hhdm) = p" and "of_nat (p * 4096) + hhdm \<noteq> 0"
proof -
  have lt: "unat hhdm + p * 4096 < 2 ^ 64"
    using assms(1,2) by linarith
  then have u: "unat (of_nat (p * 4096) :: u64) = p * 4096"
    by (intro unat_of_nat_small) simp
  then show "page_of hhdm (of_nat (p * 4096) + hhdm) = p"
    unfolding page_of_def by (simp add: unat_div)
  have "unat (of_nat (p * 4096) + hhdm) = p * 4096 + unat hhdm"
    using lt u by (subst unat_add_lem [THEN iffD1]) simp_all
  then show "of_nat (p * 4096) + hhdm \<noteq> 0"
    using assms(3) by (metis add_is_0 unat_eq_zero)
qed

lemma buddy_alloc_law:
  assumes "buddy_ok hhdm b" "k \<le> MAX_ORDER"
  shows "\<exists>v b'. buddy_alloc hhdm b (int k) = Some (v, b') \<and> buddy_ok hhdm b' \<and>
    length (b_pages b') = length (b_pages b) \<and>
    (if v = 0 then b' = b
     else 2 ^ k dvd page_of hhdm v \<and> page_of hhdm v + 2 ^ k \<le> length (b_pages b) \<and>
       {page_of hhdm v..<page_of hhdm v + 2 ^ k} \<subseteq> free_pages b \<and>
       free_pages b' = free_pages b - {page_of hhdm v..<page_of hhdm v + 2 ^ k} \<and>
       addr_of hhdm (page_of hhdm v) = v)"
proof -
  have ok: "buddy_inv b" "hhdm \<noteq> 0" "unat hhdm + length (b_pages b) * 4096 < 2 ^ 64"
    using assms(1) by (simp_all add: buddy_ok_def)
  show ?thesis
    using buddy_alloc_cases [OF ok(1) assms(2), of hhdm]
  proof (elim disjE exE conjE)
    assume "buddy_alloc hhdm b (int k) = Some (0, b)"
    then show ?thesis using assms(1) by simp
  next
    fix p b'
    assume a: "buddy_alloc hhdm b (int k) = Some (of_nat (p * 4096) + hhdm, b')" "buddy_inv b'"
      and t: "took_block b p k b'"
    have "p < length (b_pages b)"
      using t zero_less_power [of "2::nat" k] unfolding took_block_def by linarith
    note pv = page_of_vaddr [OF this ok(3,2)]
    show ?thesis
      using a t pv ok unfolding took_block_def block_pages_def buddy_ok_def addr_of_def
      by (intro exI [of _ "of_nat (p * 4096) + hhdm"] exI [of _ b']) auto
  qed
qed

lemma buddy_free_law:
  assumes "buddy_ok hhdm b" "k \<le> MAX_ORDER" "v \<noteq> 0" "2 ^ k dvd page_of hhdm v"
    "page_of hhdm v + 2 ^ k \<le> length (b_pages b)"
    "{page_of hhdm v..<page_of hhdm v + 2 ^ k} \<inter> free_pages b = {}"
  shows "\<exists>b'. buddy_free hhdm b v (int k) = Some b' \<and> buddy_ok hhdm b' \<and>
    length (b_pages b') = length (b_pages b) \<and>
    free_pages b' = free_pages b \<union> {page_of hhdm v..<page_of hhdm v + 2 ^ k}"
  using buddy_free_ok [of b k "page_of hhdm v" v hhdm] assms
  by (fastforce simp: buddy_ok_def block_pages_def page_of_def)

interpretation buddy: page_allocator "buddy_ok hhdm" free_pages "\<lambda>b. length (b_pages b)" "page_of hhdm" "addr_of hhdm"
  "\<lambda>b k. buddy_alloc hhdm b (int k)" "\<lambda>b v k. buddy_free hhdm b v (int k)" MAX_ORDER
  for hhdm
  by unfold_locales (rule buddy_alloc_law buddy_free_law; assumption)+

section \<open>What the page allocator promises\<close>

text \<open>The page frames of a block handed out at \<open>v\<close>; none for the failure value 0.\<close>

definition block_at :: "u64 \<Rightarrow> vaddr \<Rightarrow> nat \<Rightarrow> nat set" where
  "block_at hhdm v k = (if v = 0 then {} else {page_of hhdm v..<page_of hhdm v + 2 ^ k})"

lemma block_at_region: "block_at hhdm v k = buddy.region hhdm v k"
  by (simp add: block_at_def buddy.region_def)

text \<open>A machine with ten pages of memory: the first holds the descriptors, the last the kernel.\<close>

definition demo_bi :: boot_info where
  "demo_bi = \<lparr>bi_magic = BOOT_INFO_MAGIC, bi_hhdm_base = 0xFFFF800000000000, bi_highest_addr = 0x10000,
     bi_kernel_phys_base = 0x9000, bi_kernel_virt_base = 0xFFFFFFFF80000000, bi_kernel_size = 0x1000,
     bi_scratch_phys_base = 0, bi_scratch_size = 0, bi_mmap_count = 1,
     bi_mmap = [\<lparr>e_base = 0, e_len = 0xA000, e_type = BI_USABLE\<rparr>]\<rparr>"

definition demo_est :: early_state where
  "demo_est = \<lparr>early_base = 0, early_end = 0xA000, early_current = 0, highest_addr = 0xA000,
     hhdm_offset = 0xFFFF800000000000\<rparr>"

definition demo_marked :: buddy_allocator where
  "demo_marked =
     \<lparr>b_pages = [\<lparr>bp_order = 0, bp_flags = PAGE_RESERVED\<rparr>] @
        replicate 8 \<lparr>bp_order = 0, bp_flags = PAGE_FREE\<rparr> @ [\<lparr>bp_order = 0, bp_flags = PAGE_RESERVED\<rparr>],
      b_page_count = 10, b_areas = replicate (Suc MAX_ORDER) \<lparr>ba_list = [], ba_count = 0\<rparr>\<rparr>"

definition demo_buddy :: buddy_allocator where
  "demo_buddy = the (group_free demo_marked 0)"

lemma demo_buddy_ok: "buddy_ok 0xFFFF800000000000 demo_buddy" (is ?ok)
  and demo_buddy_free: "free_pages demo_buddy = {1..<9}"
  and demo_buddy_len: "length (b_pages demo_buddy) = 10"
proof -
  have bl: "blocks demo_marked = {}"
    by (auto simp: blocks_def demo_marked_def simp del: replicate_Suc)
  have "lists_ok demo_marked" "covered demo_marked = {j \<in> free_pages demo_marked. j < 0}"
    unfolding lists_ok_def covered_def bl by (simp_all add: demo_marked_def del: replicate_Suc)
  then obtain b' where b': "group_free demo_marked 0 = Some b'" "buddy_inv b'"
    "free_pages b' = free_pages demo_marked" "length (b_pages b') = length (b_pages demo_marked)"
    using group_free_ok by blast
  have "demo_buddy = b'"
    unfolding demo_buddy_def b'(1) by (rule option.sel)
  note b = b'(2-4) [folded this]
  have len: "length (b_pages demo_marked) = 10"
    by (simp add: demo_marked_def)
  then show "length (b_pages demo_buddy) = 10"
    by (simp add: b(3))
  show ?ok
    unfolding buddy_ok_def b(3) len using b(1) by simp
  have "free_pages demo_marked = set (filter (\<lambda>i. bp_flags (b_pages demo_marked ! i) = PAGE_FREE) [0..<10])"
    by (auto simp: free_pages_def len)
  also have "filter (\<lambda>i. bp_flags (b_pages demo_marked ! i) = PAGE_FREE) [0..<10] = [1..<9]"
    by code_simp
  finally show "free_pages demo_buddy = {1..<9}"
    by (simp add: b(2))
qed

lemma demo_alloc:
  "\<exists>p b'. buddy_alloc 0xFFFF800000000000 demo_buddy (int 0) = Some (of_nat (p * 4096) + 0xFFFF800000000000, b') \<and>
    of_nat (p * 4096) + 0xFFFF800000000000 \<noteq> (0 :: u64)"
proof -
  have ok: "buddy_inv demo_buddy" "unat (0xFFFF800000000000 :: u64) + length (b_pages demo_buddy) * 4096 < 2 ^ 64"
    using demo_buddy_ok by (simp_all add: buddy_ok_def)
  have "blocks demo_buddy \<noteq> {}"
    using ok(1) demo_buddy_free by (auto simp: buddy_inv_def covered_def)
  then obtain p b' where a: "buddy_alloc 0xFFFF800000000000 demo_buddy (int 0) =
      Some (of_nat (p * 4096) + 0xFFFF800000000000, b')" and t: "took_block demo_buddy p 0 b'"
    using buddy_alloc_cases [of demo_buddy 0 "0xFFFF800000000000"] ok(1) by fastforce
  then show ?thesis
    using page_of_vaddr(2) [OF _ ok(2), of p] by (auto simp: took_block_def)
qed

text \<open>
  Property C1. If the early allocator has room for the page descriptors and no memory-map entry
  ends in the last page of the address space, \<^verbatim>\<open>buddy_init\<close> returns with a well-formed allocator
  (aligned, pairwise disjoint blocks on counted free lists, covering exactly the pages flagged
  free), whose free pages are exactly the whole pages of usable memory-map entries outside the kernel
  image and outside the boot-time allocations, the page descriptors themselves included.
\<close>

theorem buddy_init_sound:
  assumes "early_alloc est (of_nat (detect_page_count (Some bi)) * sizeof_buddy_page) 0 = Some (v, est')"
    and "\<forall>e\<in>set (bi_entries bi). unat (e_base e + e_len e) \<le> 2 ^ 64 - 4096"
  shows "\<exists>b. buddy_init (Some bi) kernel_start kernel_end est = Some (b, est') \<and> buddy_inv b \<and>
    free_pages b = {p \<in> (\<Union>e\<in>set (bi_entries bi). entry_pfns e).
      \<not> in_range (kernel_pfns bi kernel_start kernel_end) p \<and> \<not> in_range (early_pfns est') p}"
  by (rule buddy_init_ok [OF assms])

theorem buddy_init_sound_witness:
  "\<exists>b est'. buddy_init (Some demo_bi) 0xFFFFFFFF80000000 0xFFFFFFFF80001000 demo_est = Some (b, est') \<and>
     buddy_inv b \<and> 0 \<notin> free_pages b \<and> 9 \<notin> free_pages b"
proof -
  have "detect_page_count (Some demo_bi) = 10"
    by code_simp
  then have room: "early_alloc demo_est (of_nat (detect_page_count (Some demo_bi)) * sizeof_buddy_page) 0 =
      Some (0xFFFF800000000000, demo_est\<lparr>early_current := 240\<rparr>)"
    by (simp add: early_alloc_def demo_est_def align_up_def)
  have small: "\<forall>e\<in>set (bi_entries demo_bi). unat (e_base e + e_len e) \<le> 2 ^ 64 - 4096"
    by (simp add: demo_bi_def bi_entries_def)
  obtain b where b: "buddy_init (Some demo_bi) 0xFFFFFFFF80000000 0xFFFFFFFF80001000 demo_est =
      Some (b, demo_est\<lparr>early_current := 240\<rparr>)" "buddy_inv b"
    "free_pages b = {p \<in> (\<Union>e\<in>set (bi_entries demo_bi). entry_pfns e).
      \<not> in_range (kernel_pfns demo_bi 0xFFFFFFFF80000000 0xFFFFFFFF80001000) p \<and>
      \<not> in_range (early_pfns (demo_est\<lparr>early_current := 240\<rparr>)) p}"
    using buddy_init_sound [OF room small, of "0xFFFFFFFF80000000" "0xFFFFFFFF80001000"] by metis
  moreover have "in_range (early_pfns (demo_est\<lparr>early_current := 240\<rparr>)) 0"
    "in_range (kernel_pfns demo_bi 0xFFFFFFFF80000000 0xFFFFFFFF80001000) 9"
    by code_simp+
  ultimately have "0 \<notin> free_pages b" "9 \<notin> free_pages b"
    unfolding b(3) by simp_all
  then show ?thesis
    using b(1,2) by metis
qed

text \<open>
  Property C2. Any sequence of allocations from a well-formed allocator runs without a fault and
  keeps it well formed; the blocks it hands out were free, are free no more, and no two of them
  share a page.
\<close>

theorem buddy_allocs_disjoint:
  assumes "buddy_ok hhdm b" and "\<forall>k\<in>set ks. k \<le> MAX_ORDER"
  shows "\<exists>vs b'. alloc_all (\<lambda>b k. buddy_alloc hhdm b (int k)) b ks = Some (vs, b') \<and> buddy_ok hhdm b' \<and>
    length vs = length ks \<and>
    (\<forall>i<length ks. block_at hhdm (vs ! i) (ks ! i) \<subseteq> free_pages b - free_pages b') \<and>
    (\<forall>i<length ks. \<forall>j<i. block_at hhdm (vs ! i) (ks ! i) \<inter> block_at hhdm (vs ! j) (ks ! j) = {})"
  using buddy.alloc_all_disjoint [OF assms] unfolding block_at_region by blast

theorem buddy_allocs_disjoint_witness:
  "\<exists>vs b'. alloc_all (\<lambda>b k. buddy_alloc 0xFFFF800000000000 b (int k)) demo_buddy [0, 2, 0] = Some (vs, b') \<and>
     buddy_ok 0xFFFF800000000000 b' \<and>
     block_at 0xFFFF800000000000 (vs ! 1) 2 \<inter> block_at 0xFFFF800000000000 (vs ! 0) 0 = {}"
proof -
  obtain vs b' where "alloc_all (\<lambda>b k. buddy_alloc 0xFFFF800000000000 b (int k)) demo_buddy [0, 2, 0] = Some (vs, b')"
    "buddy_ok 0xFFFF800000000000 b'"
    "\<forall>i<3. \<forall>j<i. block_at 0xFFFF800000000000 (vs ! i) ([0, 2, 0] ! i) \<inter>
        block_at 0xFFFF800000000000 (vs ! j) ([0, 2, 0] ! j) = {}"
    using buddy_allocs_disjoint [OF demo_buddy_ok, of "[0, 2, 0]"] by auto
  then show ?thesis
    by (metis (no_types, lifting) nth_Cons_0 nth_Cons_Suc One_nat_def lessI numeral_3_eq_3 less_SucI)
qed



text \<open>
  Property C4. Freeing a block that was allocated gives back exactly its pages: allocation followed by
  release leaves the same set of free pages and a well-formed allocator.
\<close>

theorem buddy_alloc_free_roundtrip:
  assumes "buddy_ok hhdm b" "k \<le> MAX_ORDER" "buddy_alloc hhdm b (int k) = Some (v, b')" "v \<noteq> 0"
  shows "\<exists>b''. buddy_free hhdm b' v (int k) = Some b'' \<and> buddy_ok hhdm b'' \<and> free_pages b'' = free_pages b"
  by (rule buddy.alloc_free_restores [OF assms])

theorem buddy_alloc_free_roundtrip_witness:
  "\<exists>v b' b''. buddy_alloc 0xFFFF800000000000 demo_buddy 0 = Some (v, b') \<and> v \<noteq> 0 \<and>
     buddy_free 0xFFFF800000000000 b' v 0 = Some b'' \<and> free_pages b'' = {1..<9}"
proof -
  obtain v b' where a: "buddy_alloc 0xFFFF800000000000 demo_buddy (int 0) = Some (v, b')" "v \<noteq> 0"
    using demo_alloc by blast
  then show ?thesis
    using buddy_alloc_free_roundtrip [OF demo_buddy_ok _ a] demo_buddy_free by auto
qed

lemma bit_width_bounds: "0 < x \<Longrightarrow> 2 ^ (bit_width x - 1) \<le> x \<and> x < 2 ^ bit_width x"
proof (induction x rule: bit_width.induct)
  case (1 x)
  show ?case
  proof (cases "x = 1")
    case True
    then show ?thesis by (simp add: bit_width.simps)
  next
    case False
    then have h: "0 < x div 2" using 1(2) by auto
    then have ih: "2 ^ (bit_width (x div 2) - 1) \<le> x div 2" "x div 2 < 2 ^ bit_width (x div 2)"
      using 1 by auto
    have w: "bit_width x = Suc (bit_width (x div 2))" "0 < bit_width (x div 2)"
      using 1(2) h by (simp_all add: bit_width.simps [of x] bit_width.simps [of "x div 2"])
    have "(2::nat) ^ bit_width (x div 2) = 2 * 2 ^ (bit_width (x div 2) - 1)"
      using w(2) by (metis Suc_diff_1 power_Suc)
    moreover have "x = 2 * (x div 2) + x mod 2" "x mod 2 < 2"
      by simp_all
    ultimately show ?thesis
      unfolding w(1) power_Suc diff_Suc_1 using ih by linarith
  qed
qed

text \<open>
  \<^verbatim>\<open>pages_to_order\<close> is the least order whose block holds the requested pages.
\<close>

theorem pages_to_order_least:
  "unat pages \<le> 2 ^ k \<longleftrightarrow> pages_to_order pages \<le> k"
proof (cases "pages \<le> 1")
  case True
  then have "unat pages \<le> 1"
    by (simp add: word_le_nat_alt)
  then have "unat pages \<le> 2 ^ k"
    by (rule order_trans) simp
  then show ?thesis using True by (simp add: pages_to_order_def)
next
  case False
  then have gt: "1 < unat pages"
    by (simp add: word_le_nat_alt not_le)
  define x where "x = unat (pages - 1)"
  have x: "unat pages = Suc x" "0 < x"
    using gt unat_sub [of 1 pages] by (simp_all add: x_def word_le_nat_alt)
  have b: "2 ^ (bit_width x - 1) \<le> x" "x < 2 ^ bit_width x"
    using bit_width_bounds [OF x(2)] by auto
  have "bit_width x \<le> k" if "Suc x \<le> 2 ^ k"
  proof (rule ccontr)
    assume "\<not> bit_width x \<le> k"
    then have "(2::nat) ^ k \<le> 2 ^ (bit_width x - 1)"
      by (intro power_increasing) simp_all
    then show False using b(1) that by linarith
  qed
  moreover have "Suc x \<le> 2 ^ k" if "bit_width x \<le> k"
    using b(2) power_increasing [OF that, of "2::nat"] by linarith
  ultimately show ?thesis
    using False x(1) by (auto simp: pages_to_order_def x_def [symmetric])
qed

lemma free_pages_from_ok:
  "buddy_ok hhdm b \<Longrightarrow> p + n \<le> length (b_pages b) \<Longrightarrow> {p..<p + n} \<inter> free_pages b = {} \<Longrightarrow>
   \<exists>b'. free_pages_from hhdm b (of_nat (p * 4096)) n = Some b' \<and> buddy_ok hhdm b' \<and>
     free_pages b' = free_pages b \<union> {p..<p + n}"
proof (induction n arbitrary: b p)
  case (Suc n)
  have lt: "p < length (b_pages b)" and h: "hhdm \<noteq> 0" "unat hhdm + length (b_pages b) * 4096 < 2 ^ 64"
    using Suc.prems by (auto simp: buddy_ok_def)
  note v = page_of_vaddr [OF lt h(2,1)]
  have "p \<in> {p..<p + Suc n}"
    by simp
  then have "p \<notin> free_pages b"
    using Suc.prems(3) by blast
  then obtain b1 where b1: "buddy_free hhdm b (of_nat (p * 4096) + hhdm) 0 = Some b1" "buddy_ok hhdm b1"
    "length (b_pages b1) = length (b_pages b)" "free_pages b1 = free_pages b \<union> {p..<p + 1}"
    using buddy_free_law [OF Suc.prems(1), of 0 "of_nat (p * 4096) + hhdm"] lt v by auto
  have nxt: "of_nat (p * 4096) + 4096 = (of_nat (Suc p * 4096) :: u64)"
    by simp
  have sub: "{Suc p..<Suc p + n} \<subseteq> {p..<p + Suc n}" and dis: "{Suc p..<Suc p + n} \<inter> {p..<p + 1} = {}"
    by auto
  have "{Suc p..<Suc p + n} \<inter> free_pages b = {}"
    by (rule Int_emptyI) (use sub Suc.prems(3) in blast)
  then have d1: "{Suc p..<Suc p + n} \<inter> free_pages b1 = {}"
    unfolding b1(4) Int_Un_distrib dis by simp
  have le: "Suc p + n \<le> length (b_pages b1)"
    using Suc.prems(2) b1(3) by simp
  obtain b' where "free_pages_from hhdm b1 (of_nat (Suc p * 4096)) n = Some b'" "buddy_ok hhdm b'"
    "free_pages b' = free_pages b1 \<union> {Suc p..<Suc p + n}"
    using Suc.IH [OF b1(2) le d1] by blast
  moreover have "{p..<p + Suc n} = {p..<p + 1} \<union> {Suc p..<Suc p + n}"
    by (rule set_eqI) (simp, linarith)
  then have "free_pages b1 \<union> {Suc p..<Suc p + n} = free_pages b \<union> {p..<p + Suc n}"
    unfolding b1(4) by (simp only: Un_assoc)
  moreover have "free_pages_from hhdm b (of_nat (p * 4096)) (Suc n) = free_pages_from hhdm b1 (of_nat (Suc p * 4096)) n"
    unfolding free_pages_from.simps nxt b1(1) by (rule bind.simps)
  ultimately show ?case
    by metis
qed simp

text \<open>
  \<^verbatim>\<open>free_init_sections\<close> gives exactly the page frames of the linker's init section to the
  allocator: when the page-aligned section lies at frames \<open>p\<close> to \<open>p + n\<close> of the kernel image, which no
  free block covers, those frames become free and nothing else changes status.
\<close>

theorem free_init_sections_releases:
  assumes "buddy_ok hhdm b" "p + n \<le> length (b_pages b)" "{p..<p + n} \<inter> free_pages b = {}"
    and "align_down init_start 4096 = kernel_start + d" "align_up init_end 4096 = kernel_start + d + of_nat (n * 4096)"
    and "d + bi_kernel_phys_base bi = of_nat (p * 4096)"
    and "0 < n" "unat (kernel_start + d) + n * 4096 < 2 ^ 64"
  shows "\<exists>b'. free_init_sections hhdm bi kernel_start init_start init_end b = Some b' \<and> buddy_ok hhdm b' \<and>
    free_pages b' = free_pages b \<union> {p..<p + n}"
proof -
  have n: "unat (of_nat (n * 4096) :: u64) = n * 4096"
    using assms(8) by (intro unat_of_nat_small) simp
  then have "unat (kernel_start + d + of_nat (n * 4096)) = unat (kernel_start + d) + n * 4096"
    using assms(8) by (subst unat_add_small) simp_all
  then have lt: "kernel_start + d < kernel_start + d + of_nat (n * 4096)"
    using assms(7) by (simp add: word_less_nat_alt)
  have "unat (of_nat (n * 4096) div 4096 :: u64) = n"
    using n by (simp add: unat_div)
  moreover have "kernel_start + d - kernel_start + bi_kernel_phys_base bi = of_nat (p * 4096)"
    using assms(6) by simp
  ultimately show ?thesis
    unfolding free_init_sections_def assms(4,5) Let_def
    using lt free_pages_from_ok [OF assms(1-3)] by (simp del: of_nat_mult)
qed

theorem free_init_sections_releases_witness:
  "\<exists>b'. free_init_sections 0xFFFF800000000000 demo_bi 0xFFFFFFFF80000000 0xFFFFFFFF80000010 0xFFFFFFFF80000F00 demo_buddy
     = Some b' \<and> free_pages b' = {1..<10}"
proof -
  have len: "length (b_pages demo_buddy) = 10"
    using demo_buddy_len .
  have ivl: "{Suc 0..<9} \<union> {9..<10} = {Suc 0..<10}"
    by auto
  have "align_down 0xFFFFFFFF80000010 4096 = (0xFFFFFFFF80000000 :: u64) + 0"
    "align_up 0xFFFFFFFF80000F00 4096 = (0xFFFFFFFF80000000 :: u64) + 0 + of_nat (1 * 4096)"
    by (simp_all add: align_down_def align_up_def)
  then show ?thesis
    using free_init_sections_releases [OF demo_buddy_ok, of 9 1 "0xFFFFFFFF80000010" "0xFFFFFFFF80000000" 0 "0xFFFFFFFF80000F00" demo_bi]
    by (auto simp: len demo_buddy_free demo_bi_def ivl)
qed

end
