(* ===== verification/Slab.thy ===== *)
theory Slab
  imports Buddy
begin

text \<open>
  The object caches of \<^verbatim>\<open>src/lizard/slab.c\<close>. The slab headers, the cache headers and the back
  pointers of the objects live in memory; they are three maps keyed by address, on top of the page
  allocator's state. The members of a cache's three kernel lists are address lists (see \<open>Klist\<close>), and
  so is the free list threaded through the objects of a slab: \<^verbatim>\<open>o->next\<close> chains become list
  order. \<open>None\<close> is a panic or an access to memory that holds no such structure. Every cache of the
  kernel is created with null \<^verbatim>\<open>ctor\<close> and \<^verbatim>\<open>dtor\<close>, so their calls never happen and
  the two fields are left out.
\<close>

section \<open>slab.h\<close>

definition SLAB_MAGIC :: u64 where "SLAB_MAGIC = 0xDEADBEEF"
definition KMEMCACHE_NAME_LEN :: nat where "KMEMCACHE_NAME_LEN = 32"
definition MAX_FREE_SLABS :: u32 where "MAX_FREE_SLABS = 3"

abbreviation sizeof_slab :: u64 where "sizeof_slab \<equiv> 56"
abbreviation sizeof_slab_obj :: u64 where "sizeof_slab_obj \<equiv> 16"

record kmem_cache =
  kc_name :: "u8 list"
  kc_object_size :: u64
  kc_real_object_size :: u64
  kc_align :: u64
  kc_in_use :: u32
  kc_free_slab_count :: u32
  kc_objects_per_slab :: u32
  kc_order :: nat
  kc_full :: "vaddr list"
  kc_partial :: "vaddr list"
  kc_free :: "vaddr list"

record slab =
  sl_start :: vaddr
  sl_in_use :: u32
  sl_free :: u32
  sl_freelist :: "vaddr list"
  sl_magic :: u64
  sl_cache :: vaddr

record mm =
  mm_buddy :: buddy_allocator
  mm_caches :: "vaddr \<rightharpoonup> kmem_cache"
  mm_slabs :: "vaddr \<rightharpoonup> slab"
  mm_owner :: "vaddr \<rightharpoonup> vaddr"

section \<open>slab.c\<close>

text \<open>\<^verbatim>\<open>list_move\<close> of a slab to one of the lists of its cache.\<close>

definition unlink_slab :: "vaddr \<Rightarrow> kmem_cache \<Rightarrow> kmem_cache" where
  "unlink_slab s k = k\<lparr>kc_full := remove1 s (kc_full k), kc_partial := remove1 s (kc_partial k),
     kc_free := remove1 s (kc_free k)\<rparr>"

definition move_full :: "vaddr \<Rightarrow> kmem_cache \<Rightarrow> kmem_cache" where
  "move_full s k = (unlink_slab s k)\<lparr>kc_full := s # remove1 s (kc_full k)\<rparr>"

definition move_partial :: "vaddr \<Rightarrow> kmem_cache \<Rightarrow> kmem_cache" where
  "move_partial s k = (unlink_slab s k)\<lparr>kc_partial := s # remove1 s (kc_partial k)\<rparr>"

definition move_free :: "vaddr \<Rightarrow> kmem_cache \<Rightarrow> kmem_cache" where
  "move_free s k = (unlink_slab s k)\<lparr>kc_free := s # remove1 s (kc_free k)\<rparr>"

definition slab_end :: "kmem_cache \<Rightarrow> vaddr \<Rightarrow> vaddr" where
  "slab_end k s = s + push_bit (kc_order k) 4096"

definition obj_start :: "kmem_cache \<Rightarrow> vaddr \<Rightarrow> vaddr" where
  "obj_start k s = align_up (s + sizeof_slab) (kc_align k)"

text \<open>The loop of \<^verbatim>\<open>slab_create\<close> that threads the objects, last one first.\<close>

primrec thread_objs :: "u64 \<Rightarrow> u64 \<Rightarrow> nat \<Rightarrow> vaddr list \<Rightarrow> vaddr list" where
  "thread_objs base step 0 fl = fl"
| "thread_objs base step (Suc i) fl = thread_objs base step i ((base + of_nat i * step) # fl)"

definition slab_create :: "u64 \<Rightarrow> vaddr \<Rightarrow> mm \<Rightarrow> (vaddr \<times> mm) option" where
  "slab_create hhdm c st =
     do { k \<leftarrow> mm_caches st c;
          (mem, b) \<leftarrow> buddy_alloc hhdm (mm_buddy st) (int (kc_order k));
          let st = st\<lparr>mm_buddy := b\<rparr>;
          if mem = 0 then Some (0, st)
          else if obj_start k mem \<ge> slab_end k mem then None
          else let objs = (ucast ((slab_end k mem - obj_start k mem) div kc_real_object_size k) :: u32) in
            if objs = 0 then None
            else let fl = thread_objs (obj_start k mem) (kc_real_object_size k) (unat objs) [] in
              Some (mem, st\<lparr>mm_slabs := (mm_slabs st)(mem \<mapsto>
                           \<lparr>sl_start = mem, sl_in_use = 0, sl_free = objs, sl_freelist = fl,
                            sl_magic = SLAB_MAGIC, sl_cache = c\<rparr>),
                         mm_owner := (\<lambda>a. if a \<in> set fl then Some mem else mm_owner st a)\<rparr>) }"

definition slab_destroy :: "u64 \<Rightarrow> vaddr \<Rightarrow> vaddr \<Rightarrow> mm \<Rightarrow> mm option" where
  "slab_destroy hhdm c s st =
     do { k \<leftarrow> mm_caches st c;
          sl \<leftarrow> mm_slabs st s;
          if sl_magic sl \<noteq> SLAB_MAGIC then None
          else do { b \<leftarrow> buddy_free hhdm (mm_buddy st) s (int (kc_order k));
                    Some (st\<lparr>mm_buddy := b, mm_caches := (mm_caches st)(c \<mapsto> unlink_slab s k),
                             mm_slabs := (mm_slabs st)(s \<mapsto> sl\<lparr>sl_magic := 0\<rparr>)\<rparr>) } }"

text \<open>The order search of \<^verbatim>\<open>kmemcache_create\<close>; \<open>None\<close> when the shift never reaches the size.\<close>

partial_function (option) cache_order :: "u64 \<Rightarrow> nat \<Rightarrow> nat option" where
  "cache_order needed k = (if push_bit k 4096 < needed then cache_order needed (Suc k) else Some k)"

definition kmemcache_create :: "u64 \<Rightarrow> u8 list \<Rightarrow> u64 \<Rightarrow> mm \<Rightarrow> (vaddr \<times> mm) option" where
  "kmemcache_create hhdm name obj_size st =
     do { (c, b) \<leftarrow> buddy_alloc hhdm (mm_buddy st) 0;
          let st = st\<lparr>mm_buddy := b\<rparr>;
          if c = 0 then Some (0, st)
          else do {
            let real = align_up (sizeof_slab_obj + obj_size) 8;
            order \<leftarrow> cache_order (sizeof_slab + real) 0;
            let per_slab = (ucast ((push_bit order 4096 - sizeof_slab) div real) :: u32);
            if per_slab = 0 then None
            else Some (c, st\<lparr>mm_caches := (mm_caches st)(c \<mapsto>
                   \<lparr>kc_name = take (KMEMCACHE_NAME_LEN - 1) name, kc_object_size = obj_size,
                    kc_real_object_size = real, kc_align = 8, kc_in_use = 0, kc_free_slab_count = 0,
                    kc_objects_per_slab = per_slab, kc_order = order,
                    kc_full = [], kc_partial = [], kc_free = []\<rparr>)\<rparr>) } }"

text \<open>\<^verbatim>\<open>kmemcache_alloc\<close>: the choice of the slab, then the removal of its first free object.\<close>

definition slab_pick :: "u64 \<Rightarrow> vaddr \<Rightarrow> mm \<Rightarrow> (vaddr \<times> mm) option" where
  "slab_pick hhdm c st =
     do { k \<leftarrow> mm_caches st c;
          if kc_partial k \<noteq> [] then Some (hd (kc_partial k), st)
          else if kc_free k \<noteq> [] then
            let s = hd (kc_free k) in
            Some (s, st\<lparr>mm_caches := (mm_caches st)(c \<mapsto>
                          (move_partial s k)\<lparr>kc_free_slab_count := kc_free_slab_count k - 1\<rparr>)\<rparr>)
          else do { (s, st) \<leftarrow> slab_create hhdm c st;
                    if s = 0 then Some (0, st)
                    else Some (s, st\<lparr>mm_caches := (mm_caches st)(c \<mapsto> k\<lparr>kc_partial := s # kc_partial k\<rparr>)\<rparr>) } }"

definition slab_take :: "vaddr \<Rightarrow> vaddr \<Rightarrow> mm \<Rightarrow> (vaddr \<times> mm) option" where
  "slab_take c s st =
     do { k \<leftarrow> mm_caches st c;
          sl \<leftarrow> mm_slabs st s;
          case sl_freelist sl of
            [] \<Rightarrow> None
          | q # fl \<Rightarrow>
              let sl = sl\<lparr>sl_freelist := fl, sl_in_use := sl_in_use sl + 1, sl_free := sl_free sl - 1\<rparr>;
                  k = k\<lparr>kc_in_use := kc_in_use k + 1\<rparr>;
                  k = (if sl_free sl = 0 then move_full s k else k)
              in Some (q + sizeof_slab_obj,
                       st\<lparr>mm_caches := (mm_caches st)(c \<mapsto> k), mm_slabs := (mm_slabs st)(s \<mapsto> sl)\<rparr>) }"

definition kmemcache_alloc :: "u64 \<Rightarrow> vaddr \<Rightarrow> mm \<Rightarrow> (vaddr \<times> mm) option" where
  "kmemcache_alloc hhdm c st =
     do { (s, st) \<leftarrow> slab_pick hhdm c st;
          if s = 0 then Some (0, st) else slab_take c s st }"

definition get_slab :: "mm \<Rightarrow> vaddr \<Rightarrow> vaddr option" where
  "get_slab st obj = mm_owner st (obj - sizeof_slab_obj)"

definition is_valid_slab :: "slab \<Rightarrow> bool" where
  "is_valid_slab sl \<longleftrightarrow> sl_magic sl = SLAB_MAGIC"

text \<open>\<^verbatim>\<open>kmemcache_free\<close>: the object goes back, then an emptied slab is kept or destroyed.\<close>

definition slab_put :: "vaddr \<Rightarrow> vaddr \<Rightarrow> vaddr \<Rightarrow> mm \<Rightarrow> mm option" where
  "slab_put c s q st =
     do { k \<leftarrow> mm_caches st c;
          sl \<leftarrow> mm_slabs st s;
          let sl = sl\<lparr>sl_freelist := q # sl_freelist sl, sl_in_use := sl_in_use sl - 1, sl_free := sl_free sl + 1\<rparr>;
          let k = k\<lparr>kc_in_use := kc_in_use k - 1\<rparr>;
          let k = (if sl_free sl = 1 then move_partial s k else k);
          Some (st\<lparr>mm_caches := (mm_caches st)(c \<mapsto> k), mm_slabs := (mm_slabs st)(s \<mapsto> sl)\<rparr>) }"

definition slab_retire :: "u64 \<Rightarrow> vaddr \<Rightarrow> vaddr \<Rightarrow> mm \<Rightarrow> mm option" where
  "slab_retire hhdm c s st =
     do { k \<leftarrow> mm_caches st c;
          sl \<leftarrow> mm_slabs st s;
          if sl_in_use sl = 0 then
            if kc_free_slab_count k \<ge> MAX_FREE_SLABS then slab_destroy hhdm c s st
            else Some (st\<lparr>mm_caches := (mm_caches st)(c \<mapsto>
                          (move_free s k)\<lparr>kc_free_slab_count := kc_free_slab_count k + 1\<rparr>)\<rparr>)
          else Some st }"

definition kmemcache_free :: "u64 \<Rightarrow> vaddr \<Rightarrow> mm \<Rightarrow> (int \<times> mm) option" where
  "kmemcache_free hhdm obj st =
     (if obj = 0 then Some (- 1, st)
      else do { s \<leftarrow> get_slab st obj;
                sl \<leftarrow> mm_slabs st s;
                if \<not> is_valid_slab sl then None
                else do { st \<leftarrow> slab_put (sl_cache sl) s (obj - sizeof_slab_obj) st;
                          st \<leftarrow> slab_retire hhdm (sl_cache sl) s st;
                          Some (0, st) } })"

section \<open>Geometry of a slab\<close>

definition slab_bytes :: "kmem_cache \<Rightarrow> nat" where
  "slab_bytes k = 4096 * 2 ^ kc_order k"

definition n_objs :: "kmem_cache \<Rightarrow> nat" where
  "n_objs k = (slab_bytes k - 56) div unat (kc_real_object_size k)"

definition slots :: "kmem_cache \<Rightarrow> vaddr \<Rightarrow> vaddr list" where
  "slots k s = map (\<lambda>i. s + 56 + of_nat i * kc_real_object_size k) [0..<n_objs k]"

definition cache_wf :: "kmem_cache \<Rightarrow> bool" where
  "cache_wf k \<longleftrightarrow> kc_align k = 8 \<and> kc_order k \<le> MAX_ORDER \<and>
     16 + unat (kc_object_size k) \<le> unat (kc_real_object_size k) \<and>
     56 + unat (kc_real_object_size k) \<le> slab_bytes k"

definition placed :: "kmem_cache \<Rightarrow> vaddr \<Rightarrow> bool" where
  "placed k s \<longleftrightarrow> 8 dvd unat s \<and> unat s + slab_bytes k < 2 ^ 64"

lemma slab_bytes_le: "cache_wf k \<Longrightarrow> slab_bytes k \<le> 2 ^ 28"
proof -
  assume "cache_wf k"
  then have "(2::nat) ^ kc_order k \<le> 2 ^ MAX_ORDER"
    by (intro power_increasing) (simp_all add: cache_wf_def)
  then show ?thesis
    by (simp add: slab_bytes_def)
qed

lemma unat_push_4096: "k \<le> MAX_ORDER \<Longrightarrow> unat (push_bit k 4096 :: u64) = 4096 * 2 ^ k"
proof -
  assume "k \<le> MAX_ORDER"
  then have le: "(2::nat) ^ k \<le> 2 ^ MAX_ORDER"
    by (intro power_increasing) simp_all
  have "push_bit k 4096 = (of_nat (4096 * 2 ^ k) :: u64)"
    by (simp add: push_bit_eq_mult)
  also have "unat \<dots> = 4096 * 2 ^ k"
    using le by (intro unat_of_nat_small) simp
  finally show ?thesis .
qed

lemma unat_slab_end: "cache_wf k \<Longrightarrow> placed k s \<Longrightarrow> unat (slab_end k s) = unat s + slab_bytes k"
  unfolding slab_end_def placed_def slab_bytes_def cache_wf_def
  by (subst unat_add_small) (simp_all add: unat_push_4096)

lemma unat_obj_start:
  assumes "cache_wf k" "placed k s"
  shows "unat (obj_start k s) = unat s + 56" "obj_start k s = s + 56"
proof -
  have le: "56 < slab_bytes k" and lt: "unat s + slab_bytes k < 2 ^ 64"
    using assms by (auto simp: cache_wf_def placed_def)
  have u: "unat (s + 56) = unat s + 56"
    using le lt by (subst unat_add_small) simp_all
  have "unat (obj_start k s) = (unat s + 56 + 7) div 8 * 8"
    using assms(1) unat_align_up [of 3 "s + 56"] le lt slab_bytes_le [OF assms(1)]
    by (simp add: obj_start_def cache_wf_def u)
  also have "\<dots> = unat s + 56"
    using assms(2) by (auto simp: placed_def elim!: dvdE)
  finally show e: "unat (obj_start k s) = unat s + 56" .
  show "obj_start k s = s + 56"
    by (rule word_unat_eq_iff [THEN iffD2]) (simp only: e u)
qed

lemma n_objs_pos: "cache_wf k \<Longrightarrow> 0 < n_objs k"
  unfolding cache_wf_def n_objs_def by (auto simp: div_greater_zero_iff)

lemma n_objs_small: "cache_wf k \<Longrightarrow> n_objs k < 2 ^ 28"
proof -
  assume wf: "cache_wf k"
  have "n_objs k \<le> slab_bytes k - 56"
    by (simp add: n_objs_def)
  moreover have "56 < slab_bytes k"
    using wf by (auto simp: cache_wf_def)
  ultimately show ?thesis
    using slab_bytes_le [OF wf] by linarith
qed

lemma slot_fits: "i < n_objs k \<Longrightarrow> 56 + i * unat (kc_real_object_size k) + unat (kc_real_object_size k) \<le> slab_bytes k"
proof -
  assume "i < n_objs k"
  then have "Suc i * unat (kc_real_object_size k) \<le> n_objs k * unat (kc_real_object_size k)"
    by (intro mult_le_mono1) simp
  also have "\<dots> \<le> slab_bytes k - 56"
    by (simp add: n_objs_def)
  finally have "Suc i * unat (kc_real_object_size k) \<le> slab_bytes k - 56" .
  moreover have "4096 * 1 \<le> slab_bytes k"
    unfolding slab_bytes_def by (intro mult_le_mono2) simp
  ultimately show ?thesis
    by simp
qed

lemma unat_slot:
  assumes wf: "cache_wf k" and pl: "placed k s" and i: "i < n_objs k"
  shows "unat (s + 56 + of_nat i * kc_real_object_size k) = unat s + 56 + i * unat (kc_real_object_size k)"
proof -
  let ?r = "kc_real_object_size k"
  have fit: "unat s + (56 + i * unat ?r) < 2 ^ 64"
    using slot_fits [OF i] pl by (simp add: placed_def)
  have i': "unat (of_nat i :: u64) = i"
    using i n_objs_small [OF wf] by (intro unat_of_nat_small) simp
  have m: "unat (of_nat i * ?r) = i * unat ?r"
    using fit by (subst unat_mult_lem [THEN iffD1]) (simp_all add: i')
  have "unat (s + 56) = unat s + 56"
    using fit by (subst unat_add_small) simp_all
  then show ?thesis
    using fit by (subst unat_add_small) (simp_all add: m)
qed

lemma real_pos: "cache_wf k \<Longrightarrow> 0 < unat (kc_real_object_size k)"
  by (auto simp: cache_wf_def)

lemma distinct_slots:
  assumes "cache_wf k" "placed k s"
  shows "distinct (slots k s)"
proof -
  have "inj_on (\<lambda>i. s + 56 + of_nat i * kc_real_object_size k) (set [0..<n_objs k])"
  proof (rule inj_onI)
    fix i j assume "i \<in> set [0..<n_objs k]" "j \<in> set [0..<n_objs k]"
      and eq: "s + 56 + of_nat i * kc_real_object_size k = s + 56 + of_nat j * kc_real_object_size k"
    then have "unat s + 56 + i * unat (kc_real_object_size k) = unat s + 56 + j * unat (kc_real_object_size k)"
      using unat_slot [OF assms] by (metis atLeastLessThan_iff atLeastLessThan_upt)
    then show "i = j"
      using real_pos [OF assms(1)] by simp
  qed
  then show ?thesis
    by (simp add: slots_def distinct_map)
qed

lemma length_slots: "length (slots k s) = n_objs k"
  by (simp add: slots_def)

lemma thread_objs_eq: "thread_objs b r n fl = map (\<lambda>i. b + of_nat i * r) [0..<n] @ fl"
  by (induction n arbitrary: fl) simp_all

section \<open>The invariant of the object allocator\<close>

definition cache_slabs :: "kmem_cache \<Rightarrow> vaddr list" where
  "cache_slabs k = kc_full k @ kc_partial k @ kc_free k"

definition slab_wf :: "(vaddr \<rightharpoonup> vaddr) \<Rightarrow> kmem_cache \<Rightarrow> vaddr \<Rightarrow> slab \<Rightarrow> bool" where
  "slab_wf ow k s sl \<longleftrightarrow>
     distinct (sl_freelist sl) \<and> set (sl_freelist sl) \<subseteq> set (slots k s) \<and>
     unat (sl_free sl) = length (sl_freelist sl) \<and>
     unat (sl_in_use sl) + length (sl_freelist sl) = n_objs k \<and>
     (\<forall>q\<in>set (slots k s). ow q = Some s)"

text \<open>
  A slab sits on the list its occupation says; the slabs in \<open>E\<close> may be on the partial list while
  nothing is allocated from them, which happens between two steps of one operation only.
\<close>

definition on_list :: "vaddr set \<Rightarrow> kmem_cache \<Rightarrow> vaddr \<Rightarrow> slab \<Rightarrow> bool" where
  "on_list E k s sl \<longleftrightarrow>
     (s \<in> set (kc_full k) \<longrightarrow> sl_freelist sl = []) \<and>
     (s \<in> set (kc_partial k) \<longrightarrow> sl_freelist sl \<noteq> [] \<and> (s \<in> E \<or> sl_in_use sl \<noteq> 0)) \<and>
     (s \<in> set (kc_free k) \<longrightarrow> sl_in_use sl = 0)"

definition lists_inv :: "vaddr set \<Rightarrow> (vaddr \<rightharpoonup> slab) \<Rightarrow> (vaddr \<rightharpoonup> vaddr) \<Rightarrow> vaddr \<Rightarrow> kmem_cache \<Rightarrow> bool" where
  "lists_inv E slabs ow c k \<longleftrightarrow>
     distinct (cache_slabs k) \<and>
     (\<forall>s\<in>set (cache_slabs k). \<exists>sl. slabs s = Some sl \<and> sl_cache sl = c \<and> sl_magic sl = SLAB_MAGIC \<and>
        slab_wf ow k s sl \<and> on_list E k s sl) \<and>
     unat (kc_free_slab_count k) = length (kc_free k) \<and> length (kc_free k) \<le> 3"

text \<open>The page blocks in use: one page per cache header (tag \<open>True\<close>), one block per slab.\<close>

definition cache_blocks :: "vaddr \<Rightarrow> kmem_cache option \<Rightarrow> (bool \<times> vaddr \<times> nat) set" where
  "cache_blocks c m = (case m of None \<Rightarrow> {}
     | Some k \<Rightarrow> insert (True, c, 0) ((\<lambda>s. (False, s, kc_order k)) ` set (cache_slabs k)))"

definition owned :: "mm \<Rightarrow> (bool \<times> vaddr \<times> nat) set" where
  "owned st = (\<Union>c. cache_blocks c (mm_caches st c))"

definition pages_of :: "u64 \<Rightarrow> vaddr \<times> nat \<Rightarrow> nat set" where
  "pages_of h x = {page_of h (fst x)..<page_of h (fst x) + 2 ^ snd x}"

definition own_ok :: "u64 \<Rightarrow> buddy_allocator \<Rightarrow> vaddr \<times> nat \<Rightarrow> bool" where
  "own_ok h b x \<longleftrightarrow> fst x \<noteq> 0 \<and> snd x \<le> MAX_ORDER \<and> 2 ^ snd x dvd page_of h (fst x) \<and>
     page_of h (fst x) + 2 ^ snd x \<le> length (b_pages b) \<and> addr_of h (page_of h (fst x)) = fst x \<and>
     pages_of h x \<inter> free_pages b = {}"

definition mm_inv :: "u64 \<Rightarrow> vaddr set \<Rightarrow> mm \<Rightarrow> bool" where
  "mm_inv h E st \<longleftrightarrow>
     buddy_ok h (mm_buddy st) \<and> 4096 dvd unat h \<and>
     (\<forall>c k. mm_caches st c = Some k \<longrightarrow> cache_wf k \<and> lists_inv E (mm_slabs st) (mm_owner st) c k) \<and>
     (\<forall>x\<in>owned st. own_ok h (mm_buddy st) (snd x)) \<and>
     (\<forall>x\<in>owned st. \<forall>y\<in>owned st. x \<noteq> y \<longrightarrow> pages_of h (snd x) \<inter> pages_of h (snd y) = {})"

text \<open>The headers of the objects that are allocated.\<close>

definition live :: "mm \<Rightarrow> vaddr set" where
  "live st = {q. \<exists>c k s sl. mm_caches st c = Some k \<and> s \<in> set (cache_slabs k) \<and> mm_slabs st s = Some sl \<and>
     q \<in> set (slots k s) \<and> q \<notin> set (sl_freelist sl)}"

definition same_geom :: "kmem_cache \<Rightarrow> kmem_cache \<Rightarrow> bool" where
  "same_geom k k' \<longleftrightarrow> kc_order k = kc_order k' \<and> kc_real_object_size k = kc_real_object_size k' \<and>
     kc_object_size k = kc_object_size k' \<and> kc_align k = kc_align k'"

lemma same_geom_eqs:
  assumes "same_geom k k'"
  shows "slots k s = slots k' s" "n_objs k = n_objs k'" "cache_wf k = cache_wf k'" "kc_order k = kc_order k'"
    "slab_wf ow k s sl = slab_wf ow k' s sl"
  using assms by (simp_all add: same_geom_def slots_def n_objs_def slab_bytes_def cache_wf_def slab_wf_def)

text \<open>No operation removes a cache or changes the size of its objects.\<close>

definition caches_kept :: "mm \<Rightarrow> mm \<Rightarrow> bool" where
  "caches_kept st st' \<longleftrightarrow> (\<forall>d k. mm_caches st d = Some k \<longrightarrow> (\<exists>k'. mm_caches st' d = Some k' \<and> same_geom k' k))"

lemma same_geom_refl [simp]: "same_geom k k"
  by (simp add: same_geom_def)

lemma same_geom_trans: "same_geom k3 k2 \<Longrightarrow> same_geom k2 k1 \<Longrightarrow> same_geom k3 k1"
  by (simp add: same_geom_def)

lemma caches_kept_refl [simp]: "caches_kept st st"
  by (simp add: caches_kept_def)

lemma caches_kept_trans: "caches_kept st1 st2 \<Longrightarrow> caches_kept st2 st3 \<Longrightarrow> caches_kept st1 st3"
  unfolding caches_kept_def by (meson same_geom_trans)

lemma caches_kept_upd:
  "mm_caches st c = Some k \<Longrightarrow> mm_caches st' = (mm_caches st)(c \<mapsto> k') \<Longrightarrow> same_geom k' k \<Longrightarrow> caches_kept st st'"
  by (simp add: caches_kept_def)

section \<open>Placement\<close>

lemma unat_owned:
  assumes "buddy_ok h b" "own_ok h b x"
  shows "unat (fst x) = page_of h (fst x) * 4096 + unat h" "unat (fst x) + 4096 * 2 ^ snd x < 2 ^ 64"
proof -
  let ?p = "page_of h (fst x)"
  have le: "?p + 2 ^ snd x \<le> length (b_pages b)" and b: "unat h + length (b_pages b) * 4096 < 2 ^ 64"
    using assms by (simp_all add: own_ok_def buddy_ok_def)
  have "(?p + 2 ^ snd x) * 4096 \<le> length (b_pages b) * 4096"
    using le by (rule mult_le_mono1)
  then have lt: "?p * 4096 + 4096 * 2 ^ snd x + unat h < 2 ^ 64"
    using b by simp
  have "unat (of_nat (?p * 4096) :: u64) = ?p * 4096"
    using lt by (intro unat_of_nat_small) simp
  then have "unat (addr_of h ?p) = ?p * 4096 + unat h"
    unfolding addr_of_def using lt by (subst unat_add_small) simp_all
  then show u: "unat (fst x) = ?p * 4096 + unat h"
    using assms(2) by (simp add: own_ok_def)
  show "unat (fst x) + 4096 * 2 ^ snd x < 2 ^ 64"
    unfolding u using lt by simp
qed

lemma placed_owned:
  assumes "buddy_ok h b" "4096 dvd unat h" "own_ok h b (s, kc_order k)"
  shows "placed k s"
proof -
  have "(8::nat) dvd 4096"
    by simp
  then have "8 dvd unat h"
    using assms(2) by (rule dvd_trans)
  then have "8 dvd page_of h s * 4096 + unat h"
    using dvd_add [of 8 "page_of h s * 4096" "unat h"] dvd_mult [of 8 4096 "page_of h s"] by simp
  then show ?thesis
    using unat_owned [OF assms(1,3)] by (simp add: placed_def slab_bytes_def)
qed

text \<open>Every object header lies inside the pages of its slab.\<close>

lemma slot_page:
  assumes b: "buddy_ok h b" "4096 dvd unat h" and own: "own_ok h b (s, kc_order k)" and wf: "cache_wf k"
    and q: "q \<in> set (slots k s)"
  shows "page_of h q \<in> pages_of h (s, kc_order k)"
proof -
  let ?p = "page_of h s"
  obtain i where i: "i < n_objs k" "q = s + 56 + of_nat i * kc_real_object_size k"
    using q by (auto simp: slots_def)
  define d where "d = 56 + i * unat (kc_real_object_size k)"
  have d: "d < 4096 * 2 ^ kc_order k"
    using slot_fits [OF i(1)] real_pos [OF wf] by (simp add: d_def slab_bytes_def)
  have uq: "unat q = ?p * 4096 + unat h + d"
    using unat_slot [OF wf placed_owned [OF b own] i(1)] i(2) unat_owned(1) [OF b(1) own] by (simp add: d_def)
  then have "h \<le> q"
    by (simp add: word_le_nat_alt)
  then have "unat (q - h) = ?p * 4096 + d"
    using uq by (simp add: unat_sub)
  then have "page_of h q = ?p + d div 4096"
    by (simp add: page_of_def unat_div)
  moreover have "d div 4096 < 2 ^ kc_order k"
    using d by (simp add: less_mult_imp_div_less mult.commute)
  ultimately show ?thesis
    by (simp add: pages_of_def)
qed

lemma mm_invD:
  assumes "mm_inv h E st"
  shows "buddy_ok h (mm_buddy st)" "4096 dvd unat h"
    "mm_caches st c = Some k \<Longrightarrow> cache_wf k"
    "mm_caches st c = Some k \<Longrightarrow> lists_inv E (mm_slabs st) (mm_owner st) c k"
    "x \<in> owned st \<Longrightarrow> own_ok h (mm_buddy st) (snd x)"
    "x \<in> owned st \<Longrightarrow> y \<in> owned st \<Longrightarrow> x \<noteq> y \<Longrightarrow> pages_of h (snd x) \<inter> pages_of h (snd y) = {}"
  using assms unfolding mm_inv_def by blast+

lemma owned_slab: "mm_caches st c = Some k \<Longrightarrow> s \<in> set (cache_slabs k) \<Longrightarrow> (False, s, kc_order k) \<in> owned st"
  unfolding owned_def cache_blocks_def by (rule UN_I [of c]) simp_all

lemma owned_cache: "mm_caches st c = Some k \<Longrightarrow> (True, c, 0) \<in> owned st"
  unfolding owned_def cache_blocks_def by (rule UN_I [of c]) simp_all

lemma lists_invD:
  assumes "lists_inv E slabs ow c k" "s \<in> set (cache_slabs k)"
  obtains sl where "slabs s = Some sl" "sl_cache sl = c" "sl_magic sl = SLAB_MAGIC" "slab_wf ow k s sl" "on_list E k s sl"
  using assms unfolding lists_inv_def by blast

text \<open>Slabs of different caches are different.\<close>

lemma slab_cache_unique:
  assumes "mm_inv h E st" "mm_caches st c = Some k" "mm_caches st c' = Some k'"
    "s \<in> set (cache_slabs k)" "s \<in> set (cache_slabs k')"
  shows "c' = c" "k' = k"
proof -
  show "c' = c"
    using lists_invD [OF mm_invD(4) [OF assms(1,2)] assms(4)] lists_invD [OF mm_invD(4) [OF assms(1,3)] assms(5)]
    by (metis option.inject)
  then show "k' = k" using assms(2,3) by simp
qed

lemma page_in_pages: "page_of h (fst x) \<in> pages_of h x"
  by (simp add: pages_of_def)

lemma slot_page_owned:
  assumes inv: "mm_inv h E st" and c: "mm_caches st c = Some k" "s \<in> set (cache_slabs k)" and q: "q \<in> set (slots k s)"
  shows "page_of h q \<in> pages_of h (s, kc_order k)"
  using slot_page [OF mm_invD(1,2) [OF inv] _ mm_invD(3) [OF inv c(1)] q] mm_invD(5) [OF inv owned_slab [OF c]]
  by simp

lemma slots_disjoint:
  assumes inv: "mm_inv h E st" and c: "mm_caches st c = Some k" "s \<in> set (cache_slabs k)"
    and c': "mm_caches st c' = Some k'" "s' \<in> set (cache_slabs k')" and ne: "s \<noteq> s'"
  shows "set (slots k s) \<inter> set (slots k' s') = {}"
proof -
  have "pages_of h (s, kc_order k) \<inter> pages_of h (s', kc_order k') = {}"
    using mm_invD(6) [OF inv owned_slab [OF c] owned_slab [OF c']] ne by simp
  then show ?thesis
    using slot_page_owned [OF inv c] slot_page_owned [OF inv c'] by blast
qed

lemma live_split:
  assumes inv: "mm_inv h E st" and c: "mm_caches st c = Some k" "s \<in> set (cache_slabs k)" "mm_slabs st s = Some sl"
  shows "live st \<inter> set (slots k s) = set (slots k s) - set (sl_freelist sl)"
proof -
  have "q \<notin> set (sl_freelist sl)" if "q \<in> live st" "q \<in> set (slots k s)" for q
  proof -
    note lq = that
    obtain c' k' s' sl' where q: "mm_caches st c' = Some k'" "s' \<in> set (cache_slabs k')" "mm_slabs st s' = Some sl'"
      "q \<in> set (slots k' s')" "q \<notin> set (sl_freelist sl')"
      using lq(1) by (auto simp: live_def)
    then have "s' = s"
      using slots_disjoint [OF inv q(1,2) c(1,2)] lq(2) by blast
    then show ?thesis using q(3,5) c(3) by simp
  qed
  moreover have "q \<in> live st" if "q \<in> set (slots k s)" "q \<notin> set (sl_freelist sl)" for q
    using c that unfolding live_def by blast
  ultimately show ?thesis
    by blast
qed

section \<open>Updating one slab of one cache\<close>

lemma lists_inv_frame:
  assumes "lists_inv E slabs ow c k" "\<And>s. s \<in> set (cache_slabs k) \<Longrightarrow> slabs' s = slabs s"
    "\<And>s q. s \<in> set (cache_slabs k) \<Longrightarrow> q \<in> set (slots k s) \<Longrightarrow> ow' q = ow q"
    "\<And>s. s \<in> set (cache_slabs k) \<Longrightarrow> s \<in> E \<Longrightarrow> s \<in> E'"
  shows "lists_inv E' slabs' ow' c k"
proof -
  have "\<exists>sl. slabs' s = Some sl \<and> sl_cache sl = c \<and> sl_magic sl = SLAB_MAGIC \<and>
      slab_wf ow' k s sl \<and> on_list E' k s sl" if s: "s \<in> set (cache_slabs k)" for s
  proof -
    obtain sl where sl: "slabs s = Some sl" "sl_cache sl = c" "sl_magic sl = SLAB_MAGIC" "slab_wf ow k s sl" "on_list E k s sl"
      using lists_invD [OF assms(1) s] .
    have "slab_wf ow' k s sl"
      using sl(4) assms(3) [OF s] by (simp add: slab_wf_def)
    moreover have "on_list E' k s sl"
      using sl(5) assms(4) [OF s] by (auto simp: on_list_def)
    ultimately show ?thesis
      using sl assms(2) [OF s] by simp
  qed
  then show ?thesis
    using assms(1) by (simp add: lists_inv_def)
qed

text \<open>
  The frame rule of the allocator: replacing a slab and its cache's lists by ones that satisfy the
  invariant, with the same set of slabs, changes nothing else.
\<close>

lemma mm_inv_update:
  assumes inv: "mm_inv h E st" and E: "E \<subseteq> {s}" and c: "mm_caches st c = Some k" and s: "s \<in> set (cache_slabs k)"
    and geom: "same_geom k' k" and same: "set (cache_slabs k') = set (cache_slabs k)"
    and ok: "lists_inv E' ((mm_slabs st)(s \<mapsto> sl')) (mm_owner st) c k'"
  shows "mm_inv h E' (st\<lparr>mm_caches := (mm_caches st)(c \<mapsto> k'), mm_slabs := (mm_slabs st)(s \<mapsto> sl')\<rparr>)" (is "mm_inv h E' ?st")
    and "live (st\<lparr>mm_caches := (mm_caches st)(c \<mapsto> k'), mm_slabs := (mm_slabs st)(s \<mapsto> sl')\<rparr>) =
      (live st - set (slots k s)) \<union> (set (slots k s) - set (sl_freelist sl'))"
proof -
  note g = same_geom_eqs [OF geom]
  have "cache_blocks d (mm_caches ?st d) = cache_blocks d (mm_caches st d)" for d
    using c g(4) same by (cases "d = c") (simp_all add: cache_blocks_def)
  then have own: "owned ?st = owned st"
    unfolding owned_def by simp
  have other: "lists_inv E' (mm_slabs ?st) (mm_owner ?st) d m" if d: "mm_caches st d = Some m" "d \<noteq> c" for d m
  proof -
    have ne: "t \<noteq> s" if "t \<in> set (cache_slabs m)" for t
      using slab_cache_unique(1) [OF inv c d(1) s] that d(2) by auto
    have ss: "(mm_slabs ?st) t = mm_slabs st t" if "t \<in> set (cache_slabs m)" for t
      using ne [OF that] by simp
    show ?thesis
      by (rule lists_inv_frame [OF mm_invD(4) [OF inv d(1)]]) (use ss ne E in auto)
  qed
  have "\<forall>d m. mm_caches ?st d = Some m \<longrightarrow> cache_wf m \<and> lists_inv E' (mm_slabs ?st) (mm_owner ?st) d m"
  proof (intro allI impI)
    fix d m assume d: "mm_caches ?st d = Some m"
    show "cache_wf m \<and> lists_inv E' (mm_slabs ?st) (mm_owner ?st) d m"
    proof (cases "d = c")
      case True
      then show ?thesis using d ok g(3) mm_invD(3) [OF inv c] by simp
    next
      case False
      then show ?thesis using d other [of d m] mm_invD(3) [OF inv, of d m] by simp
    qed
  qed
  then show "mm_inv h E' ?st"
    using inv unfolding mm_inv_def own by simp
  show "live ?st = (live st - set (slots k s)) \<union> (set (slots k s) - set (sl_freelist sl'))"
  proof (intro subset_antisym subsetI)
    fix q assume "q \<in> live ?st"
    then obtain d m t tl where q: "mm_caches ?st d = Some m" "t \<in> set (cache_slabs m)" "mm_slabs ?st t = Some tl"
      "q \<in> set (slots m t)" "q \<notin> set (sl_freelist tl)"
      by (auto simp: live_def)
    obtain m' where m': "mm_caches st d = Some m'" "t \<in> set (cache_slabs m')" "slots m t = slots m' t"
      using q(1,2) c same g(1) by (cases "d = c") auto
    show "q \<in> (live st - set (slots k s)) \<union> (set (slots k s) - set (sl_freelist sl'))"
    proof (cases "t = s")
      case True
      then have "m' = k" using slab_cache_unique(2) [OF inv c m'(1) s] m'(2) by simp
      then show ?thesis using q(3-5) m'(3) True by simp
    next
      case False
      then have "q \<notin> set (slots k s)"
        using slots_disjoint [OF inv m'(1,2) c s] q(4) m'(3) by auto
      moreover have "q \<in> live st"
        using False q(3-5) m' by (auto simp: live_def)
      ultimately show ?thesis by blast
    qed
  next
    fix q assume "q \<in> (live st - set (slots k s)) \<union> (set (slots k s) - set (sl_freelist sl'))"
    then show "q \<in> live ?st"
    proof
      assume "q \<in> live st - set (slots k s)"
      then obtain d m t tl where q: "mm_caches st d = Some m" "t \<in> set (cache_slabs m)" "mm_slabs st t = Some tl"
        "q \<in> set (slots m t)" "q \<notin> set (sl_freelist tl)" "q \<notin> set (slots k s)"
        by (auto simp: live_def)
      then have "t \<noteq> s"
        using slab_cache_unique(2) [OF inv c q(1) s] by auto
      then show ?thesis
        using q c same g(1) unfolding live_def by (cases "d = c") (fastforce, fastforce)
    next
      assume "q \<in> set (slots k s) - set (sl_freelist sl')"
      then show ?thesis
        using s same g(1) unfolding live_def by fastforce
    qed
  qed
qed

section \<open>Steps on one slab\<close>

lemma lists_inv_step:
  assumes inv: "lists_inv E slabs ow c k" and E: "E \<subseteq> {s}" and s: "s \<in> set (cache_slabs k)"
    and d: "distinct (cache_slabs k')" and same: "set (cache_slabs k') = set (cache_slabs k)" and geom: "same_geom k' k"
    and sub: "set (kc_full k') - {s} \<subseteq> set (kc_full k)" "set (kc_partial k') - {s} \<subseteq> set (kc_partial k)"
      "set (kc_free k') - {s} \<subseteq> set (kc_free k)"
    and sl: "sl_cache sl' = c" "sl_magic sl' = SLAB_MAGIC" "slab_wf ow k s sl'" "on_list E' k' s sl'"
    and cnt: "unat (kc_free_slab_count k') = length (kc_free k')" "length (kc_free k') \<le> 3"
  shows "lists_inv E' (slabs(s \<mapsto> sl')) ow c k'"
proof -
  note g = same_geom_eqs [OF geom]
  have "\<exists>sl. (slabs(s \<mapsto> sl')) t = Some sl \<and> sl_cache sl = c \<and> sl_magic sl = SLAB_MAGIC \<and>
      slab_wf ow k' t sl \<and> on_list E' k' t sl" if t: "t \<in> set (cache_slabs k')" for t
  proof (cases "t = s")
    case True
    then show ?thesis using sl g(5) by simp
  next
    case False
    obtain tl where tl: "slabs t = Some tl" "sl_cache tl = c" "sl_magic tl = SLAB_MAGIC" "slab_wf ow k t tl" "on_list E k t tl"
      using lists_invD [OF inv] t same by metis
    have "on_list E' k' t tl"
      using tl(5) False E sub unfolding on_list_def by blast
    then show ?thesis
      using tl False g(5) by simp
  qed
  then show ?thesis
    using d cnt by (simp add: lists_inv_def)
qed

lemma set_moved:
  assumes "distinct (cache_slabs k)" "s \<in> set (cache_slabs k)"
  shows "distinct (cache_slabs (move_full s k))" "set (cache_slabs (move_full s k)) = set (cache_slabs k)"
    "distinct (cache_slabs (move_partial s k))" "set (cache_slabs (move_partial s k)) = set (cache_slabs k)"
    "distinct (cache_slabs (move_free s k))" "set (cache_slabs (move_free s k)) = set (cache_slabs k)"
    "distinct (cache_slabs (unlink_slab s k))" "set (cache_slabs (unlink_slab s k)) = set (cache_slabs k) - {s}"
  using assms by (auto simp: cache_slabs_def move_full_def move_partial_def move_free_def unlink_slab_def)

lemma moved_lists:
  "kc_full (move_full s k) = s # remove1 s (kc_full k)" "kc_partial (move_full s k) = remove1 s (kc_partial k)"
  "kc_free (move_full s k) = remove1 s (kc_free k)" "kc_free_slab_count (move_full s k) = kc_free_slab_count k"
  "kc_full (move_partial s k) = remove1 s (kc_full k)" "kc_partial (move_partial s k) = s # remove1 s (kc_partial k)"
  "kc_free (move_partial s k) = remove1 s (kc_free k)" "kc_free_slab_count (move_partial s k) = kc_free_slab_count k"
  "kc_full (move_free s k) = remove1 s (kc_full k)" "kc_partial (move_free s k) = remove1 s (kc_partial k)"
  "kc_free (move_free s k) = s # remove1 s (kc_free k)" "kc_free_slab_count (move_free s k) = kc_free_slab_count k"
  "kc_full (unlink_slab s k) = remove1 s (kc_full k)" "kc_partial (unlink_slab s k) = remove1 s (kc_partial k)"
  "kc_free (unlink_slab s k) = remove1 s (kc_free k)" "kc_free_slab_count (unlink_slab s k) = kc_free_slab_count k"
  by (simp_all add: move_full_def move_partial_def move_free_def unlink_slab_def)

lemma same_geom_moves [simp]:
  "same_geom (move_full s k) k" "same_geom (move_partial s k) k" "same_geom (move_free s k) k" "same_geom (unlink_slab s k) k"
  "same_geom (k\<lparr>kc_in_use := n\<rparr>) k" "same_geom (m\<lparr>kc_free_slab_count := n'\<rparr>) k = same_geom m k"
  "same_geom (k\<lparr>kc_partial := ps\<rparr>) k"
  by (simp_all add: same_geom_def move_full_def move_partial_def move_free_def unlink_slab_def)

lemma cache_slabs_fields [simp]:
  "cache_slabs (k\<lparr>kc_in_use := n\<rparr>) = cache_slabs k" "cache_slabs (k\<lparr>kc_free_slab_count := n'\<rparr>) = cache_slabs k"
  by (simp_all add: cache_slabs_def)

lemma unat_dec: "0 < unat x \<Longrightarrow> unat (x - 1) = unat x - 1" for x :: u32
  using unat_sub [of 1 x] by (simp add: word_le_nat_alt)

lemma unat_inc: "unat x < 2 ^ 28 \<Longrightarrow> unat (x + 1) = unat x + 1" for x :: u32
  by (subst unat_add_small) simp_all

text \<open>Taking the first free object of a partial slab.\<close>

lemma slab_take_ok:
  assumes inv: "mm_inv h {s} st" and c: "mm_caches st c = Some k" and s: "s \<in> set (kc_partial k)"
  shows "\<exists>q st'. slab_take c s st = Some (q + sizeof_slab_obj, st') \<and> mm_inv h {} st' \<and>
    q \<notin> live st \<and> live st' = insert q (live st) \<and> q \<in> set (slots k s) \<and> caches_kept st st' \<and>
    (\<exists>k'. mm_caches st' c = Some k' \<and> s \<in> set (cache_slabs k'))"
proof -
  have s': "s \<in> set (cache_slabs k)"
    using s by (simp add: cache_slabs_def)
  note li = mm_invD(4) [OF inv c]
  obtain sl where sl: "mm_slabs st s = Some sl" "sl_cache sl = c" "sl_magic sl = SLAB_MAGIC"
    "slab_wf (mm_owner st) k s sl" "on_list {s} k s sl"
    using lists_invD [OF li s'] .
  obtain q fl where fl: "sl_freelist sl = q # fl"
    using sl(5) s by (cases "sl_freelist sl") (auto simp: on_list_def)
  have wf: "distinct (q # fl)" "q \<in> set (slots k s)" "set fl \<subseteq> set (slots k s)" "unat (sl_free sl) = Suc (length fl)"
    "unat (sl_in_use sl) + Suc (length fl) = n_objs k" "\<forall>p\<in>set (slots k s). mm_owner st p = Some s"
    using sl(4) fl by (auto simp: slab_wf_def)
  define sl' where "sl' = sl\<lparr>sl_freelist := fl, sl_in_use := sl_in_use sl + 1, sl_free := sl_free sl - 1\<rparr>"
  have f': "unat (sl_free sl') = length fl"
    using wf(4) by (simp add: sl'_def unat_dec)
  have u': "unat (sl_in_use sl') = Suc (unat (sl_in_use sl))"
    using wf(5) n_objs_small [OF mm_invD(3) [OF inv c]] by (simp add: sl'_def unat_inc)
  define k1 where "k1 = k\<lparr>kc_in_use := kc_in_use k + 1\<rparr>"
  define k' where "k' = (if sl_free sl' = 0 then move_full s k1 else k1)"
  have d: "distinct (cache_slabs k)" and cnt: "unat (kc_free_slab_count k) = length (kc_free k)" "length (kc_free k) \<le> 3"
    using li by (auto simp: lists_inv_def)
  have nfree: "s \<notin> set (kc_free k)" "s \<notin> set (kc_full k)"
    using d s by (auto simp: cache_slabs_def)
  have zero: "sl_free sl' = 0 \<longleftrightarrow> fl = []"
    using f' by (metis length_0_conv unat_eq_zero)
  have "lists_inv {} ((mm_slabs st)(s \<mapsto> sl')) (mm_owner st) c k'"
  proof (rule lists_inv_step [OF li])
    show "distinct (cache_slabs k')" "set (cache_slabs k') = set (cache_slabs k)"
      using set_moved(1,2) [of k1 s] d s' by (simp_all add: k'_def k1_def)
    show "same_geom k' k"
      by (simp add: k'_def k1_def same_geom_def move_full_def unlink_slab_def)
    show "set (kc_full k') - {s} \<subseteq> set (kc_full k)" "set (kc_partial k') - {s} \<subseteq> set (kc_partial k)"
      "set (kc_free k') - {s} \<subseteq> set (kc_free k)"
      by (auto simp: k'_def k1_def moved_lists dest: notin_set_remove1)
    show "slab_wf (mm_owner st) k s sl'"
      using wf f' u' by (auto simp: slab_wf_def sl'_def)
    show "on_list {} k' s sl'"
      using zero nfree s d u' by (auto simp: on_list_def k'_def k1_def moved_lists sl'_def cache_slabs_def)
    show "unat (kc_free_slab_count k') = length (kc_free k')" "length (kc_free k') \<le> 3"
      using cnt nfree by (auto simp: k'_def k1_def moved_lists remove1_idem)
  qed (use s' sl in \<open>simp_all add: sl'_def\<close>)
  note up = mm_inv_update [OF inv _ c s' _ _ this]
  have geom: "same_geom k' k" "set (cache_slabs k') = set (cache_slabs k)"
    using set_moved(2) [of k1 s] d s' by (simp_all add: k'_def k1_def same_geom_def move_full_def unlink_slab_def)
  have lv: "live st \<inter> set (slots k s) = set (slots k s) - set (q # fl)"
    using live_split [OF inv c s' sl(1)] fl by simp
  have "slab_take c s st = Some (q + sizeof_slab_obj,
      st\<lparr>mm_caches := (mm_caches st)(c \<mapsto> k'), mm_slabs := (mm_slabs st)(s \<mapsto> sl')\<rparr>)"
    using c sl(1) fl by (simp add: slab_take_def Let_def k'_def k1_def sl'_def)
  moreover have "(live st - set (slots k s)) \<union> (set (slots k s) - set (sl_freelist sl')) = insert q (live st)"
    using lv wf(1,2) by (auto simp: sl'_def)
  moreover have "caches_kept st (st\<lparr>mm_caches := (mm_caches st)(c \<mapsto> k'), mm_slabs := (mm_slabs st)(s \<mapsto> sl')\<rparr>)"
    using caches_kept_upd [OF c _ geom(1)] by simp
  ultimately show ?thesis
    using up geom lv wf(1,2) s' by auto
qed

text \<open>Giving a live object back to its slab.\<close>

lemma slab_put_ok:
  assumes inv: "mm_inv h {} st" and c: "mm_caches st c = Some k" and s: "s \<in> set (cache_slabs k)"
    and q: "q \<in> set (slots k s)" "q \<in> live st"
  shows "\<exists>st' k'. slab_put c s q st = Some st' \<and> mm_inv h {s} st' \<and> live st' = live st - {q} \<and>
    mm_caches st' c = Some k' \<and> s \<in> set (kc_partial k') \<and> caches_kept st st'"
proof -
  note li = mm_invD(4) [OF inv c]
  obtain sl where sl: "mm_slabs st s = Some sl" "sl_cache sl = c" "sl_magic sl = SLAB_MAGIC"
    "slab_wf (mm_owner st) k s sl" "on_list {} k s sl"
    using lists_invD [OF li s] .
  define fl where "fl = sl_freelist sl"
  have lv: "live st \<inter> set (slots k s) = set (slots k s) - set fl"
    using live_split [OF inv c s sl(1)] by (simp add: fl_def)
  then have qn: "q \<notin> set fl"
    using q by blast
  have wf: "distinct fl" "set fl \<subseteq> set (slots k s)" "unat (sl_free sl) = length fl"
    "unat (sl_in_use sl) + length fl = n_objs k" "\<forall>p\<in>set (slots k s). mm_owner st p = Some s"
    using sl(4) by (auto simp: slab_wf_def fl_def)
  have "card (set (q # fl)) \<le> card (set (slots k s))"
    using wf(2) q(1) by (intro card_mono) auto
  also have "\<dots> \<le> n_objs k"
    using card_length [of "slots k s"] by (simp add: slots_def)
  finally have used: "Suc (length fl) \<le> n_objs k"
    using qn wf(1) by (simp add: distinct_card)
  define sl' where "sl' = sl\<lparr>sl_freelist := q # fl, sl_in_use := sl_in_use sl - 1, sl_free := sl_free sl + 1\<rparr>"
  have f': "unat (sl_free sl') = Suc (length fl)"
    using wf(3) used n_objs_small [OF mm_invD(3) [OF inv c]] by (simp add: sl'_def unat_inc)
  have u': "unat (sl_in_use sl') + Suc (length fl) = n_objs k"
    using wf(4) used by (simp add: sl'_def unat_dec)
  define k1 where "k1 = k\<lparr>kc_in_use := kc_in_use k - 1\<rparr>"
  define k' where "k' = (if sl_free sl' = 1 then move_partial s k1 else k1)"
  have d: "distinct (cache_slabs k)" and cnt: "unat (kc_free_slab_count k) = length (kc_free k)" "length (kc_free k) \<le> 3"
    using li by (auto simp: lists_inv_def)
  have used0: "sl_in_use sl \<noteq> 0"
  proof
    assume "sl_in_use sl = 0"
    then show False using wf(4) used by simp
  qed
  have nfree: "s \<notin> set (kc_free k)"
    using sl(5) used0 by (auto simp: on_list_def)
  have one: "sl_free sl' = 1 \<longleftrightarrow> fl = []"
  proof
    assume "sl_free sl' = 1"
    then show "fl = []" using f' by simp
  next
    assume "fl = []"
    then have "unat (sl_free sl') = unat (1 :: u32)" using f' by simp
    then show "sl_free sl' = 1" by (simp add: word_unat_eq_iff)
  qed
  have part: "fl \<noteq> [] \<Longrightarrow> s \<in> set (kc_partial k) \<and> s \<notin> set (kc_full k)"
    using sl(5) s nfree by (auto simp: on_list_def cache_slabs_def fl_def)
  have sp: "s \<in> set (kc_partial k')"
    using one part by (auto simp: k'_def k1_def moved_lists)
  have geom: "same_geom k' k" "set (cache_slabs k') = set (cache_slabs k)"
    using set_moved(4) [of k1 s] d s by (simp_all add: k'_def k1_def same_geom_def move_partial_def unlink_slab_def)
  have "lists_inv {s} ((mm_slabs st)(s \<mapsto> sl')) (mm_owner st) c k'"
  proof (rule lists_inv_step [OF li])
    show "distinct (cache_slabs k')"
      using set_moved(3) [of k1 s] d s by (simp add: k'_def k1_def)
    show "set (kc_full k') - {s} \<subseteq> set (kc_full k)" "set (kc_partial k') - {s} \<subseteq> set (kc_partial k)"
      "set (kc_free k') - {s} \<subseteq> set (kc_free k)"
      by (auto simp: k'_def k1_def moved_lists dest: notin_set_remove1)
    show "slab_wf (mm_owner st) k s sl'"
      using wf f' u' q(1) qn by (auto simp: slab_wf_def sl'_def)
    show "on_list {s} k' s sl'"
      using one nfree d part by (auto simp: on_list_def k'_def k1_def moved_lists sl'_def cache_slabs_def)
    show "unat (kc_free_slab_count k') = length (kc_free k')" "length (kc_free k') \<le> 3"
      using cnt nfree by (auto simp: k'_def k1_def moved_lists remove1_idem)
  qed (use s sl geom in \<open>simp_all add: sl'_def\<close>)
  note up = mm_inv_update [OF inv _ c s geom this]
  have "slab_put c s q st = Some (st\<lparr>mm_caches := (mm_caches st)(c \<mapsto> k'), mm_slabs := (mm_slabs st)(s \<mapsto> sl')\<rparr>)"
    using c sl(1) by (simp add: slab_put_def Let_def k'_def k1_def sl'_def fl_def)
  moreover have "(live st - set (slots k s)) \<union> (set (slots k s) - set (sl_freelist sl')) = live st - {q}"
    using lv q by (auto simp: sl'_def)
  moreover have "caches_kept st (st\<lparr>mm_caches := (mm_caches st)(c \<mapsto> k'), mm_slabs := (mm_slabs st)(s \<mapsto> sl')\<rparr>)"
    using caches_kept_upd [OF c _ geom(1)] by simp
  ultimately show ?thesis
    using up sp by auto
qed

text \<open>Moving an empty slab between the partial and the free list.\<close>

lemma lists_inv_move_free:
  assumes inv: "mm_inv h {s} st" and c: "mm_caches st c = Some k" and s: "s \<in> set (kc_partial k)"
    and sl: "mm_slabs st s = Some sl" "sl_in_use sl = 0" and cnt: "kc_free_slab_count k < MAX_FREE_SLABS"
  shows "mm_inv h {} (st\<lparr>mm_caches := (mm_caches st)(c \<mapsto> (move_free s k)\<lparr>kc_free_slab_count := kc_free_slab_count k + 1\<rparr>)\<rparr>)" (is "mm_inv h {} ?st")
    and "live (st\<lparr>mm_caches := (mm_caches st)(c \<mapsto> (move_free s k)\<lparr>kc_free_slab_count := kc_free_slab_count k + 1\<rparr>)\<rparr>) = live st"
proof -
  let ?k = "(move_free s k)\<lparr>kc_free_slab_count := kc_free_slab_count k + 1\<rparr>"
  note li = mm_invD(4) [OF inv c]
  have s': "s \<in> set (cache_slabs k)"
    using s by (simp add: cache_slabs_def)
  obtain sl1 where "mm_slabs st s = Some sl1" "sl_cache sl1 = c" "sl_magic sl1 = SLAB_MAGIC" "slab_wf (mm_owner st) k s sl1"
    using lists_invD [OF li s'] .
  then have w: "sl_cache sl = c" "sl_magic sl = SLAB_MAGIC" "slab_wf (mm_owner st) k s sl"
    using sl(1) by simp_all
  have d: "distinct (cache_slabs k)" and n: "unat (kc_free_slab_count k) = length (kc_free k)"
    using li by (auto simp: lists_inv_def)
  have nf: "s \<notin> set (kc_free k)" "s \<notin> set (kc_full k)"
    using d s by (auto simp: cache_slabs_def)
  have lt: "unat (kc_free_slab_count k) < 3"
    using cnt by (simp add: MAX_FREE_SLABS_def word_less_nat_alt)
  have geom: "same_geom ?k k" "set (cache_slabs ?k) = set (cache_slabs k)"
    using set_moved(6) [OF d s'] by simp_all
  have "lists_inv {} ((mm_slabs st)(s \<mapsto> sl)) (mm_owner st) c ?k"
  proof (rule lists_inv_step [OF li])
    show "set (kc_full ?k) - {s} \<subseteq> set (kc_full k)" "set (kc_partial ?k) - {s} \<subseteq> set (kc_partial k)"
      "set (kc_free ?k) - {s} \<subseteq> set (kc_free k)"
      by (auto simp: moved_lists dest: notin_set_remove1)
    show "on_list {} ?k s sl"
      using nf sl(2) d by (auto simp: on_list_def moved_lists cache_slabs_def)
    show "unat (kc_free_slab_count ?k) = length (kc_free ?k)" "length (kc_free ?k) \<le> 3"
      using n lt nf by (simp_all add: moved_lists remove1_idem unat_inc)
  qed (use s' w geom set_moved(5) [OF d s'] in simp_all)
  note up = mm_inv_update [OF inv _ c s' geom this]
  have same: "(mm_slabs st)(s \<mapsto> sl) = mm_slabs st"
    using sl(1) by (simp add: fun_upd_idem)
  have lv: "live st \<inter> set (slots k s) = set (slots k s) - set (sl_freelist sl)"
    by (rule live_split [OF inv c s' sl(1)])
  show "mm_inv h {} ?st"
    using up(1) unfolding same by simp
  show "live ?st = live st"
    using up(2) lv unfolding same by auto
qed

lemma lists_inv_move_partial:
  assumes inv: "mm_inv h {} st" and c: "mm_caches st c = Some k" and s: "s \<in> set (kc_free k)"
  shows "mm_inv h {s} (st\<lparr>mm_caches := (mm_caches st)(c \<mapsto> (move_partial s k)\<lparr>kc_free_slab_count := kc_free_slab_count k - 1\<rparr>)\<rparr>)" (is "mm_inv h {s} ?st")
    and "live (st\<lparr>mm_caches := (mm_caches st)(c \<mapsto> (move_partial s k)\<lparr>kc_free_slab_count := kc_free_slab_count k - 1\<rparr>)\<rparr>) = live st"
proof -
  let ?k = "(move_partial s k)\<lparr>kc_free_slab_count := kc_free_slab_count k - 1\<rparr>"
  note li = mm_invD(4) [OF inv c]
  have s': "s \<in> set (cache_slabs k)"
    using s by (simp add: cache_slabs_def)
  obtain sl where sl: "mm_slabs st s = Some sl" "sl_cache sl = c" "sl_magic sl = SLAB_MAGIC"
    "slab_wf (mm_owner st) k s sl" "on_list {} k s sl"
    using lists_invD [OF li s'] .
  have "sl_in_use sl = 0"
    using sl(5) s by (simp add: on_list_def)
  then have fl: "sl_freelist sl \<noteq> []"
    using sl(4) n_objs_pos [OF mm_invD(3) [OF inv c]] by (auto simp: slab_wf_def)
  have d: "distinct (cache_slabs k)" and n: "unat (kc_free_slab_count k) = length (kc_free k)" "length (kc_free k) \<le> 3"
    using li by (auto simp: lists_inv_def)
  have pos: "0 < length (kc_free k)"
    using s by (auto simp: length_pos_if_in_set)
  have nf: "s \<notin> set (kc_full k)" "s \<notin> set (remove1 s (kc_free k))"
    using d s by (auto simp: cache_slabs_def)
  have geom: "same_geom ?k k" "set (cache_slabs ?k) = set (cache_slabs k)"
    using set_moved(4) [OF d s'] by simp_all
  have "lists_inv {s} ((mm_slabs st)(s \<mapsto> sl)) (mm_owner st) c ?k"
  proof (rule lists_inv_step [OF li])
    show "set (kc_full ?k) - {s} \<subseteq> set (kc_full k)" "set (kc_partial ?k) - {s} \<subseteq> set (kc_partial k)"
      "set (kc_free ?k) - {s} \<subseteq> set (kc_free k)"
      by (auto simp: moved_lists dest: notin_set_remove1)
    show "on_list {s} ?k s sl"
      using nf fl by (auto simp: on_list_def moved_lists dest: notin_set_remove1)
    show "unat (kc_free_slab_count ?k) = length (kc_free ?k)" "length (kc_free ?k) \<le> 3"
      using n pos s by (simp_all add: moved_lists length_remove1 unat_dec)
  qed (use s' sl geom set_moved(3) [OF d s'] in simp_all)
  note up = mm_inv_update [OF inv _ c s' geom this]
  have same: "(mm_slabs st)(s \<mapsto> sl) = mm_slabs st"
    using sl(1) by (simp add: fun_upd_idem)
  have lv: "live st \<inter> set (slots k s) = set (slots k s) - set (sl_freelist sl)"
    by (rule live_split [OF inv c s' sl(1)])
  show "mm_inv h {s} ?st"
    using up(1) unfolding same by simp
  show "live ?st = live st"
    using up(2) lv unfolding same by auto
qed

section \<open>Creating and destroying slabs\<close>

lemma unat_ucast_u32: "unat x < 2 ^ 32 \<Longrightarrow> unat (ucast x :: u32) = unat x" for x :: u64
  by (simp add: unsigned_ucast_eq take_bit_nat_eq_self)

text \<open>The header fields \<^verbatim>\<open>slab_create\<close> computes for a placed block.\<close>

lemma slab_create_layout:
  assumes wf: "cache_wf k" and pl: "placed k v"
  shows "\<not> slab_end k v \<le> obj_start k v"
    "unat (ucast ((slab_end k v - obj_start k v) div kc_real_object_size k) :: u32) = n_objs k"
    "thread_objs (obj_start k v) (kc_real_object_size k) (n_objs k) [] = slots k v"
proof -
  have b: "56 + unat (kc_real_object_size k) \<le> slab_bytes k"
    using wf by (simp add: cache_wf_def)
  have lt: "unat (obj_start k v) < unat (slab_end k v)"
    using b real_pos [OF wf] by (simp only: unat_obj_start(1) [OF wf pl] unat_slab_end [OF wf pl])
  then show "\<not> slab_end k v \<le> obj_start k v"
    by (simp add: word_le_nat_alt)
  have "unat (slab_end k v - obj_start k v) = slab_bytes k - 56"
  proof -
    have "obj_start k v \<le> slab_end k v"
      using lt by (simp add: word_le_nat_alt)
    then show ?thesis
      by (simp only: unat_sub unat_obj_start(1) [OF wf pl] unat_slab_end [OF wf pl])
  qed
  then have "unat ((slab_end k v - obj_start k v) div kc_real_object_size k) = n_objs k"
    by (simp add: unat_div n_objs_def)
  then show "unat (ucast ((slab_end k v - obj_start k v) div kc_real_object_size k) :: u32) = n_objs k"
    using n_objs_small [OF wf] by (simp add: unat_ucast_u32)
  show "thread_objs (obj_start k v) (kc_real_object_size k) (n_objs k) [] = slots k v"
    by (simp add: thread_objs_eq unat_obj_start(2) [OF wf pl] slots_def)
qed

lemma owned_off_free:
  assumes inv: "mm_inv h E st" and c: "mm_caches st c = Some k" "s \<in> set (cache_slabs k)"
  shows "pages_of h (s, kc_order k) \<inter> free_pages (mm_buddy st) = {}"
  using mm_invD(5) [OF inv owned_slab [OF c]] by (simp add: own_ok_def)

lemma UN_insert_at: "(\<Union>d. if d = c then insert x (B d) else B d) = insert x (\<Union>d. B d)"
  by (auto split: if_splits)

lemma fresh_slab:
  assumes inv: "mm_inv h {} st" and c: "mm_caches st c = Some k"
    and b': "buddy_ok h b'" "length (b_pages b') = length (b_pages (mm_buddy st))"
      "pages_of h (v, kc_order k) \<subseteq> free_pages (mm_buddy st)"
      "free_pages b' = free_pages (mm_buddy st) - pages_of h (v, kc_order k)"
    and own: "own_ok h b' (v, kc_order k)"
    and sl: "sl_cache sl = c" "sl_magic sl = SLAB_MAGIC" "sl_in_use sl = 0" "sl_freelist sl = slots k v"
      "unat (sl_free sl) = n_objs k"
    and st': "st' = st\<lparr>mm_buddy := b', mm_slabs := (mm_slabs st)(v \<mapsto> sl),
      mm_owner := (\<lambda>a. if a \<in> set (slots k v) then Some v else mm_owner st a),
      mm_caches := (mm_caches st)(c \<mapsto> k\<lparr>kc_partial := v # kc_partial k\<rparr>)\<rparr>"
  shows "mm_inv h {v} st'" "live st' = live st"
proof -
  let ?k = "k\<lparr>kc_partial := v # kc_partial k\<rparr>" and ?x = "(False, v, kc_order k)"
  note wf = mm_invD(3) [OF inv c]
  have pl: "placed k v"
    using placed_owned [OF b'(1) mm_invD(2) [OF inv] own] .
  have new: "t \<noteq> v" "\<And>q. q \<in> set (slots m t) \<Longrightarrow> q \<notin> set (slots k v)"
    if t: "mm_caches st d = Some m" "t \<in> set (cache_slabs m)" for d m t
  proof -
    note off = owned_off_free [OF inv t]
    show "t \<noteq> v"
    proof
      assume "t = v"
      then have "page_of h v \<in> pages_of h (t, kc_order m)"
        using page_in_pages [of h "(t, kc_order m)"] by simp
      moreover have "page_of h v \<in> pages_of h (v, kc_order k)"
        using page_in_pages [of h "(v, kc_order k)"] by simp
      ultimately show False using off b'(3) by blast
    qed
    show "q \<notin> set (slots k v)" if "q \<in> set (slots m t)" for q
      using slot_page_owned [OF inv t that] slot_page [OF b'(1) mm_invD(2) [OF inv] own wf, of q] off b'(3) by blast
  qed
  have geom: "slots ?k t = slots k t" "n_objs ?k = n_objs k" "cache_wf ?k = cache_wf k" for t
    using same_geom_eqs [of ?k k] by simp_all
  have cs: "set (cache_slabs ?k) = insert v (set (cache_slabs k))"
    by (auto simp: cache_slabs_def)
  have oldl: "lists_inv {v} (mm_slabs st') (mm_owner st') d m" if d: "mm_caches st d = Some m" for d m
    by (rule lists_inv_frame [OF mm_invD(4) [OF inv d]]) (use new [OF d] in \<open>auto simp: st'\<close>)
  have newl: "lists_inv {v} (mm_slabs st') (mm_owner st') c ?k"
  proof -
    have li: "lists_inv {v} (mm_slabs st') (mm_owner st') c k"
      by (rule oldl [OF c])
    have "slab_wf (mm_owner st') ?k v sl"
      using sl distinct_slots [OF wf pl] by (simp add: slab_wf_def geom st') (simp add: slots_def)
    moreover have ne: "slots k v \<noteq> []"
      using n_objs_pos [OF wf] by (simp add: slots_def)
    moreover have notin: "v \<notin> set (cache_slabs k)"
      using new(1) [OF c] by blast
    moreover have "\<exists>sl. mm_slabs st' t = Some sl \<and> sl_cache sl = c \<and> sl_magic sl = SLAB_MAGIC \<and>
        slab_wf (mm_owner st') ?k t sl \<and> on_list {v} ?k t sl" if t: "t \<in> set (cache_slabs k)" for t
    proof -
      obtain tl where "mm_slabs st' t = Some tl" "sl_cache tl = c" "sl_magic tl = SLAB_MAGIC"
        "slab_wf (mm_owner st') k t tl" "on_list {v} k t tl"
        using lists_invD [OF li t] .
      moreover have "slab_wf (mm_owner st') ?k t tl = slab_wf (mm_owner st') k t tl"
        by (simp add: slab_wf_def geom)
      moreover have "on_list {v} ?k t tl = on_list {v} k t tl"
        using t notin by (auto simp: on_list_def)
      ultimately show ?thesis by simp
    qed
    moreover have "on_list {v} ?k v sl"
      using ne sl notin by (auto simp: on_list_def cache_slabs_def)
    moreover have "mm_slabs st' v = Some sl"
      by (simp add: st')
    moreover have "distinct (cache_slabs ?k)"
      using li notin by (auto simp: lists_inv_def cache_slabs_def)
    ultimately show ?thesis
      using li sl unfolding lists_inv_def cs by auto
  qed
  have caches: "cache_wf m \<and> lists_inv {v} (mm_slabs st') (mm_owner st') d m" if "mm_caches st' d = Some m" for d m
    using that newl oldl [of d m] wf geom(3) mm_invD(3) [OF inv, of d m] by (cases "d = c") (auto simp: st')
  have "cache_blocks d (mm_caches st' d) =
      (if d = c then insert ?x (cache_blocks d (mm_caches st d)) else cache_blocks d (mm_caches st d))" for d
    using c cs by (auto simp: cache_blocks_def st')
  then have own': "owned st' = insert ?x (owned st)"
    unfolding owned_def by (simp only: UN_insert_at)
  have off: "pages_of h (snd x) \<inter> free_pages (mm_buddy st) = {}" if "x \<in> owned st" for x
    using mm_invD(5) [OF inv that] by (simp add: own_ok_def)
  have b: "mm_buddy st' = b'"
    by (simp add: st')
  have "own_ok h b' (snd x)" if "x \<in> owned st" for x
    using mm_invD(5) [OF inv that] b'(2,4) unfolding own_ok_def by auto
  then have o1: "\<forall>x\<in>owned st'. own_ok h b' (snd x)"
    using own own' by simp
  have dis: "pages_of h (snd x) \<inter> pages_of h (v, kc_order k) = {}" if "x \<in> owned st" for x
    using off [OF that] b'(3) by blast
  have o2: "pages_of h (snd x) \<inter> pages_of h (snd y) = {}" if "x \<in> owned st'" "y \<in> owned st'" "x \<noteq> y" for x y
    using that dis mm_invD(6) [OF inv] unfolding own' by (metis Int_commute insert_iff snd_conv)
  show "mm_inv h {v} st'"
    unfolding mm_inv_def b using b'(1) mm_invD(2) [OF inv] caches o1 o2 by blast
  show "live st' = live st"
  proof (intro subset_antisym subsetI)
    fix q assume "q \<in> live st'"
    then obtain d m t tl where q: "mm_caches st' d = Some m" "t \<in> set (cache_slabs m)" "mm_slabs st' t = Some tl"
      "q \<in> set (slots m t)" "q \<notin> set (sl_freelist tl)"
      by (auto simp: live_def)
    have "t \<noteq> v"
    proof
      assume tv: "t = v"
      then have "tl = sl" using q(3) by (simp add: st')
      moreover have "m = ?k"
        using q(1,2) tv new(1) [of d m v] by (cases "d = c") (auto simp: st')
      ultimately show False using q(4,5) sl(4) tv geom(1) by simp
    qed
    then show "q \<in> live st"
      using q c cs geom(1) unfolding live_def st' by (cases "d = c") (fastforce, fastforce)
  next
    fix q assume "q \<in> live st"
    then obtain d m t tl where q: "mm_caches st d = Some m" "t \<in> set (cache_slabs m)" "mm_slabs st t = Some tl"
      "q \<in> set (slots m t)" "q \<notin> set (sl_freelist tl)"
      by (auto simp: live_def)
    then show "q \<in> live st'"
      using new(1) [OF q(1,2)] c cs geom(1) unfolding live_def st' by (cases "d = c") (fastforce, fastforce)
  qed
qed

lemma mm_inv_weaken: "mm_inv h {} st \<Longrightarrow> mm_inv h {s} st"
  unfolding mm_inv_def using lists_inv_frame [of "{}" "mm_slabs st" "mm_owner st" _ _ "mm_slabs st" "mm_owner st" "{s}"]
  by blast

lemma owned_nonzero: "mm_inv h E st \<Longrightarrow> mm_caches st c = Some k \<Longrightarrow> s \<in> set (cache_slabs k) \<Longrightarrow> s \<noteq> 0"
  using mm_invD(5) [OF _ owned_slab] by (fastforce simp: own_ok_def)

text \<open>The choice of a slab: failure leaves everything as it was.\<close>

lemma slab_pick_ok:
  assumes inv: "mm_inv h {} st" and c: "mm_caches st c = Some k"
  shows "(slab_pick h c st = Some (0, st) \<and> kc_partial k = [] \<and> kc_free k = [] \<and>
      buddy_alloc h (mm_buddy st) (int (kc_order k)) = Some (0, mm_buddy st)) \<or>
    (\<exists>s st' k'. slab_pick h c st = Some (s, st') \<and> s \<noteq> 0 \<and> mm_inv h {s} st' \<and> live st' = live st \<and>
      mm_caches st' c = Some k' \<and> s \<in> set (kc_partial k') \<and> same_geom k' k \<and> caches_kept st st')"
proof -
  consider (part) "kc_partial k \<noteq> []" | (free) "kc_partial k = []" "kc_free k \<noteq> []"
    | (none) "kc_partial k = []" "kc_free k = []"
    by blast
  then show ?thesis
  proof cases
    case part
    then have "hd (kc_partial k) \<in> set (kc_partial k)" by simp
    moreover from this have "hd (kc_partial k) \<noteq> 0"
      using owned_nonzero [OF inv c] by (simp add: cache_slabs_def)
    moreover have "slab_pick h c st = Some (hd (kc_partial k), st)"
      using part c by (simp add: slab_pick_def)
    ultimately show ?thesis
      using mm_inv_weaken [OF inv] c by auto
  next
    case free
    define s where "s = hd (kc_free k)"
    have s: "s \<in> set (kc_free k)"
      using free by (simp add: s_def)
    then have "s \<noteq> 0"
      using owned_nonzero [OF inv c] by (simp add: cache_slabs_def)
    moreover have "slab_pick h c st = Some (s, st\<lparr>mm_caches := (mm_caches st)(c \<mapsto>
        (move_partial s k)\<lparr>kc_free_slab_count := kc_free_slab_count k - 1\<rparr>)\<rparr>)"
      using free c by (simp add: slab_pick_def Let_def s_def)
    ultimately show ?thesis
      using lists_inv_move_partial [OF inv c s] caches_kept_upd [OF c] by (auto simp: moved_lists)
  next
    case none
    let ?b = "mm_buddy st"
    note wf = mm_invD(3) [OF inv c]
    have ord: "kc_order k \<le> MAX_ORDER"
      using wf by (simp add: cache_wf_def)
    obtain v b' where a: "buddy_alloc h ?b (int (kc_order k)) = Some (v, b')" "buddy_ok h b'"
      "length (b_pages b') = length (b_pages ?b)"
      "if v = 0 then b' = ?b else 2 ^ kc_order k dvd page_of h v \<and> page_of h v + 2 ^ kc_order k \<le> length (b_pages ?b) \<and>
       {page_of h v..<page_of h v + 2 ^ kc_order k} \<subseteq> free_pages ?b \<and>
       free_pages b' = free_pages ?b - {page_of h v..<page_of h v + 2 ^ kc_order k} \<and> addr_of h (page_of h v) = v"
      using buddy_alloc_law [OF mm_invD(1) [OF inv] ord] by blast
    show ?thesis
    proof (cases "v = 0")
      case True
      then show ?thesis
        using a none c by (simp add: slab_pick_def slab_create_def)
    next
      case False
      have p: "pages_of h (v, kc_order k) \<subseteq> free_pages ?b" "free_pages b' = free_pages ?b - pages_of h (v, kc_order k)"
        using a(4) False by (simp_all add: pages_of_def)
      have own: "own_ok h b' (v, kc_order k)"
        using a(3,4) False ord by (auto simp: own_ok_def pages_of_def)
      note lay = slab_create_layout [OF wf placed_owned [OF a(2) mm_invD(2) [OF inv] own]]
      let ?objs = "ucast ((slab_end k v - obj_start k v) div kc_real_object_size k) :: u32"
      have nz: "?objs \<noteq> 0"
        using lay(2) n_objs_pos [OF wf] by (metis less_irrefl unsigned_0)
      define sl where "sl = \<lparr>sl_start = v, sl_in_use = 0, sl_free = ?objs, sl_freelist = slots k v,
        sl_magic = SLAB_MAGIC, sl_cache = c\<rparr>"
      define st' where "st' = st\<lparr>mm_buddy := b', mm_slabs := (mm_slabs st)(v \<mapsto> sl),
        mm_owner := (\<lambda>a. if a \<in> set (slots k v) then Some v else mm_owner st a),
        mm_caches := (mm_caches st)(c \<mapsto> k\<lparr>kc_partial := v # kc_partial k\<rparr>)\<rparr>"
      have "mm_inv h {v} st'" "live st' = live st"
        using fresh_slab [OF inv c a(2,3) p own _ _ _ _ _ st'_def] lay(2) by (simp_all add: sl_def)
      moreover have "slab_pick h c st = Some (v, st')"
        using none c a(1) False lay nz
        by (simp add: slab_pick_def slab_create_def Let_def st'_def sl_def cong: if_cong)
      ultimately show ?thesis
        using False caches_kept_upd [OF c, of st'] by (auto simp: st'_def)
    qed
  qed
qed

text \<open>\<^verbatim>\<open>kmemcache_alloc\<close>.\<close>

lemma kmemcache_alloc_ok:
  assumes inv: "mm_inv h {} st" and c: "mm_caches st c = Some k"
  shows "(kmemcache_alloc h c st = Some (0, st) \<and> kc_partial k = [] \<and> kc_free k = [] \<and>
      buddy_alloc h (mm_buddy st) (int (kc_order k)) = Some (0, mm_buddy st)) \<or>
    (\<exists>q st' k' s. kmemcache_alloc h c st = Some (q + sizeof_slab_obj, st') \<and> mm_inv h {} st' \<and>
      q \<notin> live st \<and> live st' = insert q (live st) \<and>
      mm_caches st' c = Some k' \<and> s \<in> set (cache_slabs k') \<and> q \<in> set (slots k s) \<and> caches_kept st st')"
proof -
  note pick = slab_pick_ok [OF inv c]
  show ?thesis
  proof (cases "slab_pick h c st = Some (0, st)")
    case True
    then show ?thesis
      using pick by (auto simp: kmemcache_alloc_def)
  next
    case False
    then obtain s st1 k1 where p: "slab_pick h c st = Some (s, st1)" "s \<noteq> 0" "mm_inv h {s} st1" "live st1 = live st"
      "mm_caches st1 c = Some k1" "s \<in> set (kc_partial k1)" "same_geom k1 k" "caches_kept st st1"
      using pick by blast
    obtain q st' k' where t: "slab_take c s st1 = Some (q + sizeof_slab_obj, st')" "mm_inv h {} st'"
      "q \<notin> live st1" "live st' = insert q (live st1)" "q \<in> set (slots k1 s)" "caches_kept st1 st'"
      "mm_caches st' c = Some k'" "s \<in> set (cache_slabs k')"
      using slab_take_ok [OF p(3,5,6)] by blast
    have "kmemcache_alloc h c st = Some (q + sizeof_slab_obj, st')"
      using p(1,2) t(1) by (simp add: kmemcache_alloc_def)
    moreover have "q \<in> set (slots k s)"
      using t(5) same_geom_eqs(1) [OF p(7)] by simp
    ultimately show ?thesis
      using t p(4) caches_kept_trans [OF p(8) t(6)] by auto
  qed
qed

text \<open>Destroying an empty slab returns its block of pages.\<close>

lemma UN_remove_at:
  "x \<in> B c \<Longrightarrow> (\<And>d. d \<noteq> c \<Longrightarrow> x \<notin> B d) \<Longrightarrow> (\<Union>d. if d = c then B d - {x} else B d) = (\<Union>d. B d) - {x}"
proof (rule set_eqI)
  fix y assume x: "x \<in> B c" "\<And>d. d \<noteq> c \<Longrightarrow> x \<notin> B d"
  have "y \<in> (if d = c then B d - {x} else B d) \<longleftrightarrow> y \<in> B d \<and> y \<noteq> x" for d
    using x by auto
  then show "y \<in> (\<Union>d. if d = c then B d - {x} else B d) \<longleftrightarrow> y \<in> (\<Union>d. B d) - {x}"
    unfolding UN_iff Diff_iff singleton_iff by blast
qed

lemma slab_destroy_ok:
  assumes inv: "mm_inv h {s} st" and c: "mm_caches st c = Some k" and s: "s \<in> set (kc_partial k)"
    and sl: "mm_slabs st s = Some sl" "sl_in_use sl = 0"
  shows "\<exists>st'. slab_destroy h c s st = Some st' \<and> mm_inv h {} st' \<and> live st' = live st \<and> caches_kept st st'"
proof -
  let ?b = "mm_buddy st" and ?k = "unlink_slab s k" and ?x = "(False, s, kc_order k)"
  have s': "s \<in> set (cache_slabs k)"
    using s by (simp add: cache_slabs_def)
  note li = mm_invD(4) [OF inv c] and own = mm_invD(5) [OF inv owned_slab [OF c s']]
  have d: "distinct (cache_slabs k)" and cnt: "unat (kc_free_slab_count k) = length (kc_free k)" "length (kc_free k) \<le> 3"
    using li by (auto simp: lists_inv_def)
  obtain sl1 where "mm_slabs st s = Some sl1" "sl_magic sl1 = SLAB_MAGIC" "slab_wf (mm_owner st) k s sl1"
    using lists_invD [OF li s'] .
  then have w: "sl_magic sl = SLAB_MAGIC" "slab_wf (mm_owner st) k s sl"
    using sl(1) by simp_all
  have nf: "s \<notin> set (kc_free k)"
    using d s by (auto simp: cache_slabs_def)
  have full: "set (sl_freelist sl) = set (slots k s)"
  proof (rule card_subset_eq)
    show "card (set (sl_freelist sl)) = card (set (slots k s))"
    proof -
      have "distinct (slots k s)"
        using distinct_slots [OF mm_invD(3) [OF inv c] placed_owned [OF mm_invD(1,2) [OF inv]]] own by simp
      then show ?thesis
        using w(2) sl(2) by (simp add: slab_wf_def distinct_card length_slots)
    qed
  qed (use w(2) in \<open>auto simp: slab_wf_def\<close>)
  obtain b' where b': "buddy_free h ?b s (int (kc_order k)) = Some b'" "buddy_ok h b'"
    "length (b_pages b') = length (b_pages ?b)" "free_pages b' = free_pages ?b \<union> pages_of h (s, kc_order k)"
    using buddy_free_law [OF mm_invD(1) [OF inv], of "kc_order k" s] own by (auto simp: own_ok_def pages_of_def)
  define st' where "st' = st\<lparr>mm_buddy := b', mm_caches := (mm_caches st)(c \<mapsto> ?k),
    mm_slabs := (mm_slabs st)(s \<mapsto> sl\<lparr>sl_magic := 0\<rparr>)\<rparr>"
  have run: "slab_destroy h c s st = Some st'"
    using c sl(1) w(1) b'(1) by (simp add: slab_destroy_def st'_def)
  have other: "t \<noteq> s" if "mm_caches st e = Some m" "t \<in> set (cache_slabs m)" "e \<noteq> c" for e m t
    using slab_cache_unique(1) [OF inv c that(1) s'] that by auto
  have cs: "set (cache_slabs ?k) = set (cache_slabs k) - {s}"
    by (rule set_moved(8) [OF d s'])
  have geom: "slots ?k t = slots k t" "cache_wf ?k = cache_wf k" "slab_wf ow ?k t tl = slab_wf ow k t tl" for t ow tl
    using same_geom_eqs [of ?k k] by simp_all
  have lk: "lists_inv {} (mm_slabs st') (mm_owner st') c ?k"
  proof -
    have "\<exists>tl. mm_slabs st' t = Some tl \<and> sl_cache tl = c \<and> sl_magic tl = SLAB_MAGIC \<and>
        slab_wf (mm_owner st') ?k t tl \<and> on_list {} ?k t tl" if t: "t \<in> set (cache_slabs ?k)" for t
    proof -
      have t': "t \<in> set (cache_slabs k)" "t \<noteq> s" using t cs by auto
      obtain tl where "mm_slabs st t = Some tl" "sl_cache tl = c" "sl_magic tl = SLAB_MAGIC"
        "slab_wf (mm_owner st) k t tl" "on_list {s} k t tl"
        using lists_invD [OF li t'(1)] .
      moreover have "on_list {} ?k t tl" if "on_list {s} k t tl"
        using that t'(2) by (auto simp: on_list_def moved_lists dest: notin_set_remove1)
      ultimately show ?thesis
        using t'(2) geom(3) by (auto simp: st'_def)
    qed
    then show ?thesis
      using set_moved(7) [OF d s'] cnt nf by (auto simp: lists_inv_def moved_lists remove1_idem)
  qed
  have lo: "lists_inv {} (mm_slabs st') (mm_owner st') e m" if e: "mm_caches st e = Some m" "e \<noteq> c" for e m
    by (rule lists_inv_frame [OF mm_invD(4) [OF inv e(1)]]) (use other [OF e(1) _ e(2)] in \<open>auto simp: st'_def\<close>)
  have caches: "cache_wf m \<and> lists_inv {} (mm_slabs st') (mm_owner st') e m" if "mm_caches st' e = Some m" for e m
    using that lk lo [of e m] geom(2) mm_invD(3) [OF inv c] mm_invD(3) [OF inv, of e m]
    by (cases "e = c") (auto simp: st'_def)
  have "cache_blocks e (mm_caches st' e) =
      (if e = c then cache_blocks e (mm_caches st e) - {?x} else cache_blocks e (mm_caches st e))" for e
    using c cs by (auto simp: cache_blocks_def st'_def unlink_slab_def)
  moreover have "?x \<in> cache_blocks c (mm_caches st c)"
    using c s' by (simp add: cache_blocks_def)
  moreover have "?x \<notin> cache_blocks e (mm_caches st e)" if "e \<noteq> c" for e
    using other [OF _ _ that] by (auto simp: cache_blocks_def split: option.splits)
  ultimately have own': "owned st' = owned st - {?x}"
    unfolding owned_def
    using UN_remove_at [where B = "\<lambda>e. cache_blocks e (mm_caches st e)" and c = c and x = ?x] by simp
  have dis: "pages_of h (snd y) \<inter> pages_of h (s, kc_order k) = {}" if "y \<in> owned st" "y \<noteq> ?x" for y
    using mm_invD(6) [OF inv that(1) owned_slab [OF c s'] that(2)] by simp
  have o1: "own_ok h b' (snd y)" if "y \<in> owned st'" for y
    using mm_invD(5) [OF inv, of y] dis [of y] that b'(3,4) unfolding own' own_ok_def by auto
  have "mm_inv h {} st'"
    unfolding mm_inv_def using b'(2) mm_invD(2) [OF inv] caches o1 mm_invD(6) [OF inv] own' by (simp add: st'_def)
  moreover have "live st' = live st"
  proof (intro subset_antisym subsetI)
    fix q assume "q \<in> live st'"
    then obtain e m t tl where q: "mm_caches st' e = Some m" "t \<in> set (cache_slabs m)" "mm_slabs st' t = Some tl"
      "q \<in> set (slots m t)" "q \<notin> set (sl_freelist tl)"
      by (auto simp: live_def)
    then have "t \<noteq> s"
      using other [of e m t] cs by (cases "e = c") (auto simp: st'_def)
    then show "q \<in> live st"
      using q c cs geom(1) unfolding live_def st'_def by (cases "e = c") (fastforce, fastforce)
  next
    fix q assume "q \<in> live st"
    then obtain e m t tl where q: "mm_caches st e = Some m" "t \<in> set (cache_slabs m)" "mm_slabs st t = Some tl"
      "q \<in> set (slots m t)" "q \<notin> set (sl_freelist tl)"
      by (auto simp: live_def)
    have "t \<noteq> s"
      using q full sl(1) slab_cache_unique(2) [OF inv c q(1) s'] by auto
    then show "q \<in> live st'"
      using q c cs geom(1) unfolding live_def st'_def by (cases "e = c") (fastforce, fastforce)
  qed
  moreover have "caches_kept st st'"
    using caches_kept_upd [OF c, of st' ?k] by (simp add: st'_def)
  ultimately show ?thesis
    using run by blast
qed

lemma slab_retire_ok:
  assumes inv: "mm_inv h {s} st" and c: "mm_caches st c = Some k" and s: "s \<in> set (kc_partial k)"
  shows "\<exists>st'. slab_retire h c s st = Some st' \<and> mm_inv h {} st' \<and> live st' = live st \<and> caches_kept st st'"
proof -
  note li = mm_invD(4) [OF inv c]
  have s': "s \<in> set (cache_slabs k)"
    using s by (simp add: cache_slabs_def)
  obtain sl where sl: "mm_slabs st s = Some sl"
    using lists_invD [OF li s'] .
  show ?thesis
  proof (cases "sl_in_use sl = 0")
    case True
    show ?thesis
    proof (cases "kc_free_slab_count k \<ge> MAX_FREE_SLABS")
      case full: True
      have "slab_retire h c s st = slab_destroy h c s st"
        using c sl True full by (simp add: slab_retire_def)
      then show ?thesis
        using slab_destroy_ok [OF inv c s sl True] by simp
    next
      case False
      have "slab_retire h c s st = Some (st\<lparr>mm_caches := (mm_caches st)(c \<mapsto>
          (move_free s k)\<lparr>kc_free_slab_count := kc_free_slab_count k + 1\<rparr>)\<rparr>)"
        using c sl True False by (simp add: slab_retire_def)
      then show ?thesis
        using lists_inv_move_free [OF inv c s sl True] False caches_kept_upd [OF c] by auto
    qed
  next
    case False
    have "mm_inv h {} st"
    proof -
      have "lists_inv {} (mm_slabs st) (mm_owner st) e m" if e: "mm_caches st e = Some m" for e m
      proof -
        have "\<exists>tl. mm_slabs st t = Some tl \<and> sl_cache tl = e \<and> sl_magic tl = SLAB_MAGIC \<and>
            slab_wf (mm_owner st) m t tl \<and> on_list {} m t tl" if t: "t \<in> set (cache_slabs m)" for t
        proof -
          obtain tl where tl: "mm_slabs st t = Some tl" "sl_cache tl = e" "sl_magic tl = SLAB_MAGIC"
            "slab_wf (mm_owner st) m t tl" "on_list {s} m t tl"
            using lists_invD [OF mm_invD(4) [OF inv e] t] .
          have "on_list {} m t tl"
            using tl(1,5) sl False unfolding on_list_def by force
          then show ?thesis using tl by blast
        qed
        then show ?thesis
          using mm_invD(4) [OF inv e] by (simp add: lists_inv_def)
      qed
      then show ?thesis
        using inv unfolding mm_inv_def by blast
    qed
    moreover have "slab_retire h c s st = Some st"
      using c sl False by (simp add: slab_retire_def)
    ultimately show ?thesis
      by auto
  qed
qed

text \<open>\<^verbatim>\<open>kmemcache_free\<close> of a live object.\<close>

lemma kmemcache_free_ok:
  assumes inv: "mm_inv h {} st" and q: "q \<in> live st" and nz: "q + sizeof_slab_obj \<noteq> 0"
  shows "\<exists>st'. kmemcache_free h (q + sizeof_slab_obj) st = Some (0, st') \<and> mm_inv h {} st' \<and>
    live st' = live st - {q} \<and> caches_kept st st'"
proof -
  obtain c k s sl where l: "mm_caches st c = Some k" "s \<in> set (cache_slabs k)" "mm_slabs st s = Some sl"
    "q \<in> set (slots k s)"
    using q by (auto simp: live_def)
  obtain sl1 where "mm_slabs st s = Some sl1" "sl_cache sl1 = c" "sl_magic sl1 = SLAB_MAGIC" "slab_wf (mm_owner st) k s sl1"
    using lists_invD [OF mm_invD(4) [OF inv l(1)] l(2)] .
  then have sl: "sl_cache sl = c" "sl_magic sl = SLAB_MAGIC" "mm_owner st q = Some s"
    using l(3,4) by (auto simp: slab_wf_def)
  obtain st1 k1 where p: "slab_put c s q st = Some st1" "mm_inv h {s} st1" "live st1 = live st - {q}"
    "mm_caches st1 c = Some k1" "s \<in> set (kc_partial k1)" "caches_kept st st1"
    using slab_put_ok [OF inv l(1,2,4) q] by blast
  obtain st' where r: "slab_retire h c s st1 = Some st'" "mm_inv h {} st'" "live st' = live st1" "caches_kept st1 st'"
    using slab_retire_ok [OF p(2,4,5)] by blast
  have "kmemcache_free h (q + sizeof_slab_obj) st = Some (0, st')"
    using nz sl l(3) p(1) r(1) by (simp add: kmemcache_free_def get_slab_def is_valid_slab_def)
  then show ?thesis
    using r p(3) caches_kept_trans [OF p(6) r(4)] by auto
qed

section \<open>Creating a cache\<close>

lemma cache_order_ok:
  "k \<le> MAX_ORDER \<Longrightarrow> unat needed \<le> 2 ^ 28 \<Longrightarrow>
   \<exists>n. cache_order needed k = Some n \<and> k \<le> n \<and> n \<le> MAX_ORDER \<and> unat needed \<le> 4096 * 2 ^ n"
proof (induction "MAX_ORDER - k" arbitrary: k)
  case 0
  then have k: "k = MAX_ORDER" by simp
  then have "\<not> push_bit k 4096 < needed"
    using 0 by (simp add: word_less_nat_alt unat_push_4096)
  then show ?case
    using 0 k by (simp add: cache_order.simps [of needed])
next
  case (Suc d)
  show ?case
  proof (cases "push_bit k 4096 < needed")
    case True
    have "d = MAX_ORDER - Suc k" "Suc k \<le> MAX_ORDER"
      using Suc.hyps(2) by simp_all
    then show ?thesis
      using Suc.hyps(1) [of "Suc k"] Suc.prems(2) True by (auto simp: cache_order.simps [of needed k])
  next
    case False
    then have "unat needed \<le> 4096 * 2 ^ k"
      using Suc.prems(1) by (simp add: word_less_nat_alt unat_push_4096)
    then show ?thesis
      using False Suc.prems(1) by (simp add: cache_order.simps [of needed k])
  qed
qed

lemma new_cache_wf:
  assumes sz: "unat obj_size \<le> 2 ^ 20" and real: "real = align_up (sizeof_slab_obj + obj_size) 8"
    and ord: "cache_order (sizeof_slab + real) 0 = Some n"
  shows "n \<le> MAX_ORDER" "16 + unat obj_size \<le> unat real" "56 + unat real \<le> 4096 * 2 ^ n"
    "ucast ((push_bit n 4096 - sizeof_slab) div real) \<noteq> (0 :: u32)"
proof -
  have u: "unat (sizeof_slab_obj + obj_size) = 16 + unat obj_size"
    using sz by (subst unat_add_small) simp_all
  have r: "16 + unat obj_size \<le> unat real" "unat real < 16 + unat obj_size + 8"
    using unat_align_up [of 3 "sizeof_slab_obj + obj_size"] round_up_bounds [of 8 "16 + unat obj_size"] sz
    by (simp_all add: real u)
  show "16 + unat obj_size \<le> unat real" by (rule r(1))
  have nd: "unat (sizeof_slab + real) = 56 + unat real"
    using r(2) sz by (subst unat_add_small) simp_all
  obtain m where m: "cache_order (sizeof_slab + real) 0 = Some m" "m \<le> MAX_ORDER" "unat (sizeof_slab + real) \<le> 4096 * 2 ^ m"
    using cache_order_ok [of 0 "sizeof_slab + real"] nd r(2) sz by auto
  then show n: "n \<le> MAX_ORDER" and b: "56 + unat real \<le> 4096 * 2 ^ n"
    using ord nd by simp_all
  have le: "sizeof_slab \<le> push_bit n 4096"
    using b n by (simp add: word_le_nat_alt unat_push_4096)
  have q: "unat ((push_bit n 4096 - sizeof_slab) div real) = (4096 * 2 ^ n - 56) div unat real"
    using le n by (simp add: unat_div unat_sub unat_push_4096)
  have "(4096 * 2 ^ n - 56) div unat real \<le> 4096 * 2 ^ n"
    by (meson diff_le_self div_le_dividend order_trans)
  also have "\<dots> \<le> 4096 * 2 ^ MAX_ORDER"
    using n by (intro mult_le_mono2 power_increasing) simp_all
  finally have "unat (ucast ((push_bit n 4096 - sizeof_slab) div real) :: u32) = (4096 * 2 ^ n - 56) div unat real"
    by (subst unat_ucast_u32) (simp_all add: q)
  moreover have "0 < (4096 * 2 ^ n - 56) div unat real"
    using b r(1) by (simp add: div_greater_zero_iff)
  ultimately show "ucast ((push_bit n 4096 - sizeof_slab) div real) \<noteq> (0 :: u32)"
    by (metis less_irrefl unsigned_0)
qed

text \<open>A new cache is empty, its header sits on a page of its own, and nothing else changes.\<close>

lemma kmemcache_create_ok:
  assumes inv: "mm_inv h {} st" and sz: "unat obj_size \<le> 2 ^ 20"
  shows "kmemcache_create h name obj_size st = Some (0, st) \<or>
    (\<exists>c k st'. kmemcache_create h name obj_size st = Some (c, st') \<and> c \<noteq> 0 \<and> mm_inv h {} st' \<and>
      live st' = live st \<and> mm_caches st c = None \<and> mm_caches st' = (mm_caches st)(c \<mapsto> k) \<and>
      kc_object_size k = obj_size)"
proof -
  let ?b = "mm_buddy st"
  obtain v b' where a: "buddy_alloc h ?b (int 0) = Some (v, b')" "buddy_ok h b'" "length (b_pages b') = length (b_pages ?b)"
    "if v = 0 then b' = ?b else 2 ^ 0 dvd page_of h v \<and> page_of h v + 2 ^ 0 \<le> length (b_pages ?b) \<and>
       {page_of h v..<page_of h v + 2 ^ 0} \<subseteq> free_pages ?b \<and>
       free_pages b' = free_pages ?b - {page_of h v..<page_of h v + 2 ^ 0} \<and> addr_of h (page_of h v) = v"
    using buddy_alloc_law [OF mm_invD(1) [OF inv], of 0] by blast
  show ?thesis
  proof (cases "v = 0")
    case True
    then show ?thesis using a by (simp add: kmemcache_create_def)
  next
    case False
    define real where "real = align_up (sizeof_slab_obj + obj_size) 8"
    have "unat (sizeof_slab + real) \<le> 2 ^ 28"
    proof -
      have "unat real < 2 ^ 21"
        using unat_align_up [of 3 "sizeof_slab_obj + obj_size"] round_up_bounds(2) [of 8 "16 + unat obj_size"] sz
          unat_add_small [of sizeof_slab_obj obj_size] by (simp add: real_def)
      then show ?thesis by (subst unat_add_small) simp_all
    qed
    then obtain n where n: "cache_order (sizeof_slab + real) 0 = Some n"
      using cache_order_ok [of 0] by blast
    note wf = new_cache_wf [OF sz real_def n]
    define k where "k = \<lparr>kc_name = take (KMEMCACHE_NAME_LEN - 1) name, kc_object_size = obj_size,
      kc_real_object_size = real, kc_align = 8, kc_in_use = 0, kc_free_slab_count = 0,
      kc_objects_per_slab = ucast ((push_bit n 4096 - sizeof_slab) div real), kc_order = n,
      kc_full = [], kc_partial = [], kc_free = []\<rparr>"
    define st' where "st' = st\<lparr>mm_buddy := b', mm_caches := (mm_caches st)(v \<mapsto> k)\<rparr>"
    have run: "kmemcache_create h name obj_size st = Some (v, st')"
      using a(1) False n wf(4) by (simp add: kmemcache_create_def Let_def real_def [symmetric] k_def st'_def)
    have pg: "pages_of h (v, 0) = {page_of h v}"
      by (auto simp: pages_of_def)
    have fr: "page_of h v \<in> free_pages ?b" "free_pages b' = free_pages ?b - {page_of h v}"
      using a(4) False by auto
    have off: "page_of h v \<notin> pages_of h (snd x)" if "x \<in> owned st" for x
      using mm_invD(5) [OF inv that] fr(1) by (auto simp: own_ok_def)
    have new: "mm_caches st v = None"
    proof (rule ccontr)
      assume "mm_caches st v \<noteq> None"
      then have "(True, v, 0) \<in> owned st" using owned_cache by blast
      then show False using off [of "(True, v, 0)"] pg by simp
    qed
    have cs: "cache_slabs k = []"
      by (simp add: k_def cache_slabs_def)
    have kwf: "cache_wf k" "lists_inv {} (mm_slabs st) (mm_owner st) v k"
      using wf(1-3) cs by (simp_all add: k_def cache_wf_def slab_bytes_def lists_inv_def)
    have "cache_blocks d (mm_caches st' d) =
        (if d = v then insert (True, v, 0) (cache_blocks d (mm_caches st d)) else cache_blocks d (mm_caches st d))" for d
      using new cs by (simp add: st'_def cache_blocks_def)
    then have own': "owned st' = insert (True, v, 0) (owned st)"
      unfolding owned_def by (simp only: UN_insert_at)
    have o0: "own_ok h b' (v, 0)"
      using a(3,4) False fr pg by (simp add: own_ok_def)
    have o1: "own_ok h b' (snd x)" if "x \<in> owned st" for x
      using mm_invD(5) [OF inv that] a(3) fr(2) by (auto simp: own_ok_def)
    have o2: "pages_of h (snd x) \<inter> pages_of h (snd y) = {}" if "x \<in> owned st'" "y \<in> owned st'" "x \<noteq> y" for x y
      using that off mm_invD(6) [OF inv] pg unfolding own' by (metis Int_insert_left_if0 Int_insert_right_if0 inf_bot_left inf_bot_right insert_iff snd_conv)
    have cw: "cache_wf m \<and> lists_inv {} (mm_slabs st') (mm_owner st') d m" if "mm_caches st' d = Some m" for d m
      using that kwf mm_invD(3,4) [OF inv, of d m] by (cases "d = v") (auto simp: st'_def)
    have b: "mm_buddy st' = b'"
      by (simp add: st'_def)
    have o3: "own_ok h b' (snd x)" if "x \<in> owned st'" for x
      using that o0 o1 [of x] own' by (cases "x = (True, v, 0)") simp_all
    have "mm_inv h {} st'"
      unfolding mm_inv_def b using a(2) mm_invD(2) [OF inv] cw o2 o3 by blast
    moreover have "live st' = live st"
    proof (rule set_eqI)
      have "mm_caches st' d = Some m \<and> s \<in> set (cache_slabs m) \<longleftrightarrow> mm_caches st d = Some m \<and> s \<in> set (cache_slabs m)" for d m s
        using new cs by (cases "d = v") (auto simp: st'_def)
      moreover have "mm_slabs st' = mm_slabs st"
        by (simp add: st'_def)
      ultimately show "q \<in> live st' \<longleftrightarrow> q \<in> live st" for q
        unfolding live_def mem_Collect_eq by metis
    qed
    ultimately show ?thesis
      using run False new by (auto simp: st'_def k_def)
  qed
qed

section \<open>Live objects do not overlap\<close>

definition extent :: "mm \<Rightarrow> vaddr \<Rightarrow> nat set" where
  "extent st q = (case mm_owner st q of None \<Rightarrow> {} | Some s \<Rightarrow>
     (case mm_slabs st s of None \<Rightarrow> {} | Some sl \<Rightarrow>
       (case mm_caches st (sl_cache sl) of None \<Rightarrow> {} | Some k \<Rightarrow>
         {unat q + 16..<unat q + 16 + unat (kc_object_size k)})))"

lemma interval_disjoint: "{a..<a + m} \<inter> {b..<b + n} = {} \<Longrightarrow> 0 < m \<Longrightarrow> 0 < n \<Longrightarrow> a + m \<le> b \<or> b + n \<le> a" for a :: nat
proof (rule ccontr)
  assume d: "{a..<a + m} \<inter> {b..<b + n} = {}" "0 < m" "0 < n" and "\<not> (a + m \<le> b \<or> b + n \<le> a)"
  then have "max a b \<in> {a..<a + m} \<inter> {b..<b + n}"
    by auto
  then show False using d by blast
qed

lemma live_slot:
  assumes inv: "mm_inv h {} st" and q: "q \<in> live st"
  obtains c k s i where "mm_caches st c = Some k" "s \<in> set (cache_slabs k)" "i < n_objs k"
    "unat q = unat s + 56 + i * unat (kc_real_object_size k)" "placed k s" "cache_wf k"
    "extent st q = {unat q + 16..<unat q + 16 + unat (kc_object_size k)}" "q = s + 56 + of_nat i * kc_real_object_size k"
proof -
  obtain c k s sl where l: "mm_caches st c = Some k" "s \<in> set (cache_slabs k)" "mm_slabs st s = Some sl" "q \<in> set (slots k s)"
    using q by (auto simp: live_def)
  obtain sl1 where "mm_slabs st s = Some sl1" "sl_cache sl1 = c" "slab_wf (mm_owner st) k s sl1"
    using lists_invD [OF mm_invD(4) [OF inv l(1)] l(2)] .
  then have sl: "sl_cache sl = c" "mm_owner st q = Some s"
    using l(3,4) by (auto simp: slab_wf_def)
  have wf: "cache_wf k" and pl: "placed k s"
    using mm_invD(3) [OF inv l(1)] placed_owned [OF mm_invD(1,2) [OF inv]] mm_invD(5) [OF inv owned_slab [OF l(1,2)]]
    by simp_all
  obtain i where i: "i < n_objs k" "q = s + 56 + of_nat i * kc_real_object_size k"
    using l(4) by (auto simp: slots_def)
  show ?thesis
    by (rule that [OF l(1,2) i(1) _ pl wf _ i(2)]) (use unat_slot [OF wf pl i(1)] i(2) sl l in \<open>simp_all add: extent_def\<close>)
qed

lemma live_extents_disjoint:
  assumes inv: "mm_inv h {} st" and q: "q \<in> live st" "q' \<in> live st" "q \<noteq> q'"
  shows "extent st q \<inter> extent st q' = {}"
proof -
  obtain c k s i where l: "mm_caches st c = Some k" "s \<in> set (cache_slabs k)" "i < n_objs k"
    "unat q = unat s + 56 + i * unat (kc_real_object_size k)" "placed k s" "cache_wf k"
    "extent st q = {unat q + 16..<unat q + 16 + unat (kc_object_size k)}" "q = s + 56 + of_nat i * kc_real_object_size k"
    using live_slot [OF inv q(1)] .
  obtain c' k' s' i' where l': "mm_caches st c' = Some k'" "s' \<in> set (cache_slabs k')" "i' < n_objs k'"
    "unat q' = unat s' + 56 + i' * unat (kc_real_object_size k')" "placed k' s'" "cache_wf k'"
    "extent st q' = {unat q' + 16..<unat q' + 16 + unat (kc_object_size k')}" "q' = s' + 56 + of_nat i' * kc_real_object_size k'"
    using live_slot [OF inv q(2)] .
  let ?r = "unat (kc_real_object_size k)" and ?r' = "unat (kc_real_object_size k')"
  have sz: "16 + unat (kc_object_size k) \<le> ?r" "16 + unat (kc_object_size k') \<le> ?r'"
    using l(6) l'(6) by (simp_all add: cache_wf_def)
  have "unat q + ?r \<le> unat q' \<or> unat q' + ?r' \<le> unat q"
  proof (cases "s = s'")
    case True
    then have k: "k' = k" using slab_cache_unique(2) [OF inv l(1) l'(1) l(2)] l'(2) by simp
    then have "i \<noteq> i'" using q(3) l(8) l'(8) True by auto
    then consider "i + 1 \<le> i'" | "i' + 1 \<le> i" by linarith
    then have "(i + 1) * ?r \<le> i' * ?r \<or> (i' + 1) * ?r \<le> i * ?r"
      using mult_le_mono1 by metis
    then show ?thesis using l(4) l'(4) True k by auto
  next
    case False
    note o1 = owned_slab [OF l(1,2)] and o2 = owned_slab [OF l'(1,2)]
    have "pages_of h (s, kc_order k) \<inter> pages_of h (s', kc_order k') = {}"
      using mm_invD(6) [OF inv o1 o2] False by simp
    then have pg: "page_of h s + 2 ^ kc_order k \<le> page_of h s' \<or> page_of h s' + 2 ^ kc_order k' \<le> page_of h s"
      by (intro interval_disjoint) (simp_all add: pages_of_def)
    have u: "unat s = page_of h s * 4096 + unat h" "unat s' = page_of h s' * 4096 + unat h"
      using unat_owned(1) [OF mm_invD(1) [OF inv] mm_invD(5) [OF inv o1]]
        unat_owned(1) [OF mm_invD(1) [OF inv] mm_invD(5) [OF inv o2]] by simp_all
    have "unat s + slab_bytes k \<le> unat s' \<or> unat s' + slab_bytes k' \<le> unat s"
      using pg mult_le_mono1 [of "page_of h s + 2 ^ kc_order k" "page_of h s'" 4096]
        mult_le_mono1 [of "page_of h s' + 2 ^ kc_order k'" "page_of h s" 4096]
      unfolding u slab_bytes_def by (auto simp: algebra_simps)
    then show ?thesis
      using slot_fits [OF l(3)] slot_fits [OF l'(3)] l(4) l'(4) by linarith
  qed
  then show ?thesis
    using sz unfolding l(7) l'(7) by auto
qed

lemma live_nonzero: "mm_inv h {} st \<Longrightarrow> q \<in> live st \<Longrightarrow> q + sizeof_slab_obj \<noteq> 0"
proof
  assume inv: "mm_inv h {} st" and q: "q \<in> live st" and z: "q + sizeof_slab_obj = 0"
  obtain c k s i where l: "i < n_objs k" "unat q = unat s + 56 + i * unat (kc_real_object_size k)" "placed k s" "cache_wf k"
    using live_slot [OF inv q] .
  have "unat q + 16 < 2 ^ 64"
    using slot_fits [OF l(1)] l(2-4) by (auto simp: placed_def cache_wf_def)
  then have "unat (q + sizeof_slab_obj) = unat q + 16"
    by (subst unat_add_small) simp_all
  then show False using z by simp
qed

end
