(* ===== verification/Kstring.thy ===== *)
theory Kstring
  imports Lizard_Prelude "HOL-Library.Monad_Syntax" "HOL-Library.List_Lexorder"
begin

text \<open>
  The freestanding C string library of \<^verbatim>\<open>src/nolibc/string.c\<close>. Memory is a total map from 64-bit
  addresses to bytes and pointers are addresses, so overlapping buffers and pointer wrap-around are
  visible; a loop that ends only at a terminator is a \<open>partial_function\<close> whose value \<open>None\<close> is
  not ending. The predicate \<open>cstr m p s\<close> says that the bytes \<open>s\<close> followed by a terminator lie at
  \<open>p\<close>. \<^verbatim>\<open>sprintf\<close> is modelled on the bytes of its format and arguments.
\<close>

type_synonym bmem = "u64 \<Rightarrow> u8"

section \<open>Comparison and case\<close>

primrec memcmp :: "bmem \<Rightarrow> u64 \<Rightarrow> u64 \<Rightarrow> nat \<Rightarrow> int" where
  "memcmp m a b 0 = 0"
| "memcmp m a b (Suc n) = (if m a < m b then - 1 else if m a > m b then 1 else memcmp m (a + 1) (b + 1) n)"

definition tolower :: "int \<Rightarrow> int" where
  "tolower c = (if 65 \<le> c \<and> c \<le> 90 then c + 32 else c)"

definition toupper :: "int \<Rightarrow> int" where
  "toupper c = (if 97 \<le> c \<and> c \<le> 122 then c - 32 else c)"

partial_function (option) strcasecmp :: "bmem \<Rightarrow> u64 \<Rightarrow> u64 \<Rightarrow> int option" where
  "strcasecmp m a b =
     (if m a \<noteq> 0 \<and> tolower (uint (m a)) = tolower (uint (m b)) then strcasecmp m (a + 1) (b + 1)
      else Some (tolower (uint (m a)) - tolower (uint (m b))))"

partial_function (option) strcmp :: "bmem \<Rightarrow> u64 \<Rightarrow> u64 \<Rightarrow> int option" where
  "strcmp m a b =
     (if m a \<noteq> 0 \<and> m a = m b then strcmp m (a + 1) (b + 1)
      else Some (if m a < m b then - 1 else if m a > m b then 1 else 0))"

primrec strncmp :: "bmem \<Rightarrow> u64 \<Rightarrow> u64 \<Rightarrow> nat \<Rightarrow> int" where
  "strncmp m a b 0 = 0"
| "strncmp m a b (Suc n) =
     (if m a < m b then - 1 else if m a > m b then 1 else if m a = 0 then 0 else strncmp m (a + 1) (b + 1) n)"

primrec strsIsEqual :: "bmem \<Rightarrow> u64 \<Rightarrow> u64 \<Rightarrow> nat \<Rightarrow> bool" where
  "strsIsEqual m a b 0 = True"
| "strsIsEqual m a b (Suc n) = (if m a \<noteq> m b then False else strsIsEqual m (a + 1) (b + 1) n)"

section \<open>Copying and filling\<close>

primrec copy_up :: "u64 \<Rightarrow> u64 \<Rightarrow> nat \<Rightarrow> bmem \<Rightarrow> bmem" where
  "copy_up d s 0 m = m"
| "copy_up d s (Suc n) m = copy_up (d + 1) (s + 1) n (m(d := m s))"

primrec copy_down :: "u64 \<Rightarrow> u64 \<Rightarrow> nat \<Rightarrow> bmem \<Rightarrow> bmem" where
  "copy_down d s 0 m = m"
| "copy_down d s (Suc n) m = copy_down d s n (m(d + of_nat n := m (s + of_nat n)))"

definition memcpy :: "u64 \<Rightarrow> u64 \<Rightarrow> nat \<Rightarrow> bmem \<Rightarrow> bmem" where
  "memcpy d s n m = copy_up d s n m"

definition memmove :: "u64 \<Rightarrow> u64 \<Rightarrow> nat \<Rightarrow> bmem \<Rightarrow> bmem" where
  "memmove d s n m = (if d < s then copy_up d s n m else copy_down d s n m)"

primrec memset :: "u64 \<Rightarrow> int \<Rightarrow> nat \<Rightarrow> bmem \<Rightarrow> bmem" where
  "memset p v 0 m = m"
| "memset p v (Suc n) m = memset (p + 1) v n (m(p := of_int v))"

partial_function (option) strcpy :: "u64 \<Rightarrow> u64 \<Rightarrow> bmem \<Rightarrow> bmem option" where
  "strcpy d s m = (let m' = m(d := m s) in if m s \<noteq> 0 then strcpy (d + 1) (s + 1) m' else Some m')"

text \<open>The two loops of \<^verbatim>\<open>strncpy\<close>: copy up to the terminator, then pad.\<close>

primrec strncpy :: "u64 \<Rightarrow> u64 \<Rightarrow> nat \<Rightarrow> bmem \<Rightarrow> bmem" where
  "strncpy d s 0 m = m"
| "strncpy d s (Suc n) m =
     (if m s \<noteq> 0 then strncpy (d + 1) (s + 1) n (m(d := m s)) else memset d 0 (Suc n) m)"

section \<open>Length and search\<close>

partial_function (option) strlen_from :: "bmem \<Rightarrow> u64 \<Rightarrow> u64 \<Rightarrow> u64 option" where
  "strlen_from m p len = (if m (p + len) \<noteq> 0 then strlen_from m p (len + 1) else Some len)"

definition strlen :: "bmem \<Rightarrow> u64 \<Rightarrow> u64 option" where
  "strlen m p = strlen_from m p 0"

text \<open>The result is \<open>Some 0\<close> for the null pointer.\<close>

partial_function (option) strchr :: "bmem \<Rightarrow> u64 \<Rightarrow> u8 \<Rightarrow> u64 option" where
  "strchr m p ch = (if m p = ch then Some p else if m p = 0 then Some 0 else strchr m (p + 1) ch)"

definition last_char :: "bmem \<Rightarrow> u64 \<Rightarrow> u64 option" where
  "last_char m p = do { len \<leftarrow> strlen m p; Some (if len = 0 then 0 else p + (len - 1)) }"

section \<open>Tokenising\<close>

text \<open>
  \<^verbatim>\<open>strtok_r\<close> with its saved pointer; \<^verbatim>\<open>strtok\<close> is the same code with a static one. The two
  skipping loops stop at a byte in (outside) the delimiter set or at the terminator.
\<close>

partial_function (option) skip_delims :: "bmem \<Rightarrow> u64 \<Rightarrow> u64 \<Rightarrow> u64 option" where
  "skip_delims m delim p =
     (if m p = 0 then Some p
      else do { c \<leftarrow> strchr m delim (m p); if c \<noteq> 0 then skip_delims m delim (p + 1) else Some p })"

partial_function (option) skip_token :: "bmem \<Rightarrow> u64 \<Rightarrow> u64 \<Rightarrow> u64 option" where
  "skip_token m delim p =
     (if m p = 0 then Some p
      else do { c \<leftarrow> strchr m delim (m p); if c = 0 then skip_token m delim (p + 1) else Some p })"

text \<open>The result, the new saved pointer and the memory.\<close>

definition strtok_r :: "bmem \<Rightarrow> u64 \<Rightarrow> u64 \<Rightarrow> u64 \<Rightarrow> (u64 \<times> u64 \<times> bmem) option" where
  "strtok_r m str delim save =
     (let save = (if str \<noteq> 0 then str else save) in
      if save = 0 then Some (0, save, m)
      else do { start \<leftarrow> skip_delims m delim save;
                if m start = 0 then Some (0, 0, m)
                else do { e \<leftarrow> skip_token m delim start;
                          if m e \<noteq> 0 then Some (start, e + 1, m(e := 0)) else Some (start, 0, m) } })"

definition strtok :: "bmem \<Rightarrow> u64 \<Rightarrow> u64 \<Rightarrow> u64 \<Rightarrow> (u64 \<times> u64 \<times> bmem) option" where
  "strtok m str delim nxt = strtok_r m str delim nxt"

section \<open>Numbers as text\<close>

text \<open>The digits of a value, least significant first, as the conversion loops fill their buffers.\<close>

function dec_buffer :: "u64 \<Rightarrow> u8 list" where
  "dec_buffer value = (if value > 0 then (ucast (value mod 10) + 48) # dec_buffer (value div 10) else [])"
  by pat_completeness auto
termination
  by (relation "measure unat") (auto simp: word_less_nat_alt unat_div)

declare dec_buffer.simps [simp del]

definition unsigned_to_string :: "u64 \<Rightarrow> u8 list" where
  "unsigned_to_string value = (if value = 0 then [48] else rev (dec_buffer value))"

definition hex_digit :: "u64 \<Rightarrow> u8" where
  "hex_digit d = (if d < 10 then ucast d + 48 else ucast d + 87)"

primrec hex_buffer :: "nat \<Rightarrow> u64 \<Rightarrow> u8 list" where
  "hex_buffer 0 value = []"
| "hex_buffer (Suc n) value = (if value > 0 then hex_digit (value AND 0xF) # hex_buffer n (drop_bit 4 value) else [])"

definition unsigned_to_hexstring :: "u64 \<Rightarrow> u8 list" where
  "unsigned_to_hexstring value = (if value = 0 then [48] else rev (hex_buffer 16 value))"

function count_digits :: "u64 \<Rightarrow> u64 \<Rightarrow> nat" where
  "count_digits base value = (if value > 0 \<and> base > 1 then Suc (count_digits base (value div base)) else 0)"
  by pat_completeness auto
termination
  by (relation "measure (unat \<circ> snd)") (auto simp: word_less_nat_alt unat_div)

declare count_digits.simps [simp del]

definition get_unsigned2string_final_size :: "u64 \<Rightarrow> nat" where
  "get_unsigned2string_final_size value = (if value = 0 then 1 else count_digits 10 value)"

definition get_u64tostring_final_size :: "u64 \<Rightarrow> nat" where
  "get_u64tostring_final_size value = (if value = 0 then 1 else count_digits 10 value)"

definition get_unsigned2hex_final_size :: "u64 \<Rightarrow> nat" where
  "get_unsigned2hex_final_size value = (if value = 0 then 1 else count_digits 16 value)"

section \<open>sprintf\<close>

datatype varg = Va_string "u8 list" | Va_int u32

text \<open>
  The bytes written before the terminator, for a format given as its bytes without the terminator;
  \<open>None\<close> when the loop runs past the terminator (a format that ends in a per cent sign) or an
  argument is missing. \<^verbatim>\<open>(val < 0) ? -val : val\<close> is an \<^verbatim>\<open>int\<close> that is converted to
  \<^verbatim>\<open>u64\<close> by sign extension; its digits and their terminator go through \<^verbatim>\<open>num_buffer[20]\<close>, and
  \<open>None\<close> is also writing past it.
\<close>

definition sprintf_d :: "u32 \<Rightarrow> u8 list option" where
  "sprintf_d v = (let ds = unsigned_to_string (scast (if v <s 0 then - v else v)) in
     if length ds < 20 then Some ((if v <s 0 then [0x2D] else []) @ ds) else None)"

fun sprintf :: "u8 list \<Rightarrow> varg list \<Rightarrow> u8 list option" where
  "sprintf [] args = Some []"
| "sprintf (c # fmt) args =
     (if c = 0x25 then
        case fmt of
          [] \<Rightarrow> None
        | f # fmt' \<Rightarrow>
            if f = 0x73 then
              (case args of Va_string s # args' \<Rightarrow> map_option ((@) s) (sprintf fmt' args') | _ \<Rightarrow> None)
            else if f = 0x64 then
              (case args of Va_int v # args' \<Rightarrow>
                 do { ds \<leftarrow> sprintf_d v; map_option ((@) ds) (sprintf fmt' args') } | _ \<Rightarrow> None)
            else if f = 0x75 then
              (case args of Va_int v # args' \<Rightarrow> map_option ((@) (unsigned_to_string (ucast v))) (sprintf fmt' args') | _ \<Rightarrow> None)
            else if f = 0x78 then
              (case args of Va_int v # args' \<Rightarrow> map_option ((@) (unsigned_to_hexstring (ucast v))) (sprintf fmt' args') | _ \<Rightarrow> None)
            else if f = 0x63 then
              (case args of Va_int v # args' \<Rightarrow> map_option ((#) (ucast v)) (sprintf fmt' args') | _ \<Rightarrow> None)
            else map_option ((@) [0x25, f]) (sprintf fmt' args)
      else map_option ((#) c) (sprintf fmt args))"

section \<open>Copies\<close>

lemma unat_sub_one: "x \<noteq> 0 \<Longrightarrow> unat (x - 1) = unat x - 1" for x :: u64
  by (metis unat_minus_one)

lemma unat_max64: "unat (- 1 :: u64) = 2 ^ 64 - 1"
  by (simp add: unsigned_minus_1_eq_mask mask_eq_exp_minus_1)

lemma copy_up_spec:
  assumes "n < 2 ^ 64" and "\<And>i j. i < j \<Longrightarrow> j < n \<Longrightarrow> d + of_nat i \<noteq> s + of_nat j"
  shows "copy_up d s n m x = (if unat (x - d) < n then m (s + (x - d)) else m x)"
  using assms
proof (induction n arbitrary: d s m)
  case (Suc n)
  have sh: "d + 1 + of_nat i \<noteq> s + 1 + of_nat j" if "i < j" "j < n" for i j
    using Suc.prems(2) [of "Suc i" "Suc j"] that by (simp add: algebra_simps)
  have IH: "copy_up (d + 1) (s + 1) n m' x = (if unat (x - (d + 1)) < n then m' (s + 1 + (x - (d + 1))) else m' x)" for m'
    using Suc.IH [of "d + 1" "s + 1"] sh Suc.prems(1) by simp
  have e: "x - (d + 1) = (x - d) - 1" "s + 1 + (x - (d + 1)) = s + (x - d)"
    by simp_all
  show ?case
  proof (cases "x = d")
    case True
    have "unat (x - (d + 1)) = 2 ^ 64 - 1"
      using True by (simp add: unat_max64)
    then show ?thesis
      using Suc.prems(1) True unfolding copy_up.simps IH by simp
  next
    case False
    then have u: "unat (x - (d + 1)) = unat (x - d) - 1" "0 < unat (x - d)"
      unfolding e(1) by (simp_all add: unat_sub_one unat_gt_0)
    have "s + (x - d) \<noteq> d" if "unat (x - d) - 1 < n"
    proof -
      have "d + of_nat 0 \<noteq> s + of_nat (unat (x - d))"
        using that u(2) by (intro Suc.prems(2)) simp_all
      then show ?thesis by auto
    qed
    then show ?thesis
      using False u(2) unfolding copy_up.simps IH e(2) u(1) by auto
  qed
qed simp

lemma copy_down_spec:
  assumes "n < 2 ^ 64" and "\<And>i j. i < j \<Longrightarrow> j < n \<Longrightarrow> d + of_nat j \<noteq> s + of_nat i"
  shows "copy_down d s n m x = (if unat (x - d) < n then m (s + (x - d)) else m x)"
  using assms
proof (induction n arbitrary: m)
  case (Suc n)
  have IH: "copy_down d s n m' x = (if unat (x - d) < n then m' (s + (x - d)) else m' x)" for m'
    using Suc.IH [of m'] Suc.prems by simp
  have n: "unat (of_nat n :: u64) = n"
    using Suc.prems(1) by (intro unat_of_nat_small) simp
  show ?case
  proof (cases "unat (x - d) < n")
    case True
    then have "d + of_nat n \<noteq> s + of_nat (unat (x - d))"
      by (intro Suc.prems(2)) simp_all
    then show ?thesis
      using True by (simp add: IH)
  next
    case False
    have "x = d + of_nat n" "x - d = of_nat n" if "unat (x - d) = n"
    proof -
      have "of_nat (unat (x - d)) = x - d" by simp
      then show "x = d + of_nat n" "x - d = of_nat n" using that by (simp_all add: algebra_simps)
    qed
    moreover have "x \<noteq> d + of_nat n" if "unat (x - d) \<noteq> n"
      using that n by auto
    moreover have "unat (x - d) < Suc n \<longleftrightarrow> unat (x - d) = n"
      using False by auto
    ultimately show ?thesis
      using False unfolding copy_down.simps IH by auto
  qed
qed simp

text \<open>Two ranges that do not run past the end of the address space.\<close>

lemma offset_eq:
  fixes d s :: u64
  assumes "unat d + n \<le> 2 ^ 64" "unat s + n \<le> 2 ^ 64" "i < n" "j < n"
  shows "d + of_nat i = s + of_nat j \<longleftrightarrow> unat d + i = unat s + j"
proof -
  have "unat (d + of_nat i) = unat d + i" "unat (s + of_nat j) = unat s + j"
    using assms by (simp_all add: unat_add_small unat_of_nat_small)
  then show ?thesis
    by (metis word_unat_eq_iff)
qed

text \<open>
  \<^verbatim>\<open>memmove\<close> copies correctly however the two buffers overlap: afterwards the destination
  holds what the source held before, and no other byte has changed.
\<close>

theorem memmove_correct:
  assumes "unat d + n \<le> 2 ^ 64" and "unat s + n \<le> 2 ^ 64" and "n < 2 ^ 64"
  shows "memmove d s n m x = (if unat (x - d) < n then m (s + (x - d)) else m x)"
proof (cases "d < s")
  case True
  then have "copy_up d s n m x = (if unat (x - d) < n then m (s + (x - d)) else m x)"
    using assms by (intro copy_up_spec) (simp_all add: offset_eq [OF assms(1,2)] word_less_nat_alt)
  then show ?thesis using True by (simp add: memmove_def)
next
  case False
  then have "copy_down d s n m x = (if unat (x - d) < n then m (s + (x - d)) else m x)"
    using assms by (intro copy_down_spec) (simp_all add: offset_eq [OF assms(1,2)] word_less_nat_alt)
  then show ?thesis using False by (simp add: memmove_def)
qed

theorem memmove_correct_witness:
  "memmove 101 100 3 (\<lambda>a. ucast a) 102 = (101 :: u8) \<and> memmove 101 100 3 (\<lambda>a. ucast a) 104 = (104 :: u8)"
proof -
  have "memmove 101 100 3 (\<lambda>a. ucast a) x = (if unat (x - 101) < 3 then ucast (100 + (x - 101)) else ucast x :: u8)" for x
    using memmove_correct [of 101 3 100 "\<lambda>a. ucast a" x] by simp
  then show ?thesis by simp
qed

lemma memcpy_disjoint:
  assumes "unat d + n \<le> 2 ^ 64" "unat s + n \<le> 2 ^ 64" "n < 2 ^ 64" "unat d \<le> unat s \<or> unat s + n \<le> unat d"
  shows "memcpy d s n m x = (if unat (x - d) < n then m (s + (x - d)) else m x)"
  unfolding memcpy_def using assms
  by (intro copy_up_spec) (auto simp: offset_eq [OF assms(1,2)])

lemma memset_spec: "n < 2 ^ 64 \<Longrightarrow> memset p v n m x = (if unat (x - p) < n then of_int v else m x)"
proof (induction n arbitrary: p m)
  case (Suc n)
  have e: "x - (p + 1) = (x - p) - 1" by simp
  have IH: "memset (p + 1) v n m' x = (if unat ((x - p) - 1) < n then of_int v else m' x)" for m'
    using Suc.IH [of "p + 1" m'] Suc.prems e by simp
  show ?case
  proof (cases "x = p")
    case True
    have "unat (x - p - 1) = 2 ^ 64 - 1"
      using True by (simp add: unat_max64)
    then show ?thesis using Suc.prems True unfolding memset.simps IH by simp
  next
    case False
    then have "unat ((x - p) - 1) = unat (x - p) - 1" "0 < unat (x - p)"
      by (simp_all add: unat_sub_one unat_gt_0)
    then show ?thesis using False unfolding memset.simps IH by auto
  qed
qed simp

section \<open>Terminated strings\<close>

fun cstr :: "bmem \<Rightarrow> u64 \<Rightarrow> u8 list \<Rightarrow> bool" where
  "cstr m p [] = (m p = 0)"
| "cstr m p (c # cs) = (m p = c \<and> c \<noteq> 0 \<and> cstr m (p + 1) cs)"

text \<open>
  On terminated strings \<^verbatim>\<open>strcmp\<close> ends and decides the lexicographic order of the
  bytes as unsigned numbers; in particular it is 0 exactly for equal strings.
\<close>

theorem strcmp_lexicographic:
  assumes "cstr m a xs" and "cstr m b ys"
  shows "strcmp m a b = Some (if xs < ys then - 1 else if xs = ys then 0 else 1)"
  using assms
proof (induction xs arbitrary: a b ys)
  case Nil
  then show ?case
    by (cases ys) (auto simp: strcmp.simps [of m a b] word_gt_0)
next
  case (Cons x xs)
  show ?case
  proof (cases ys)
    case Nil
    then show ?thesis using Cons.prems by (auto simp: strcmp.simps [of m a b] word_gt_0)
  next
    case (Cons y ys')
    show ?thesis
    proof (cases "x = y")
      case True
      then show ?thesis
        using Cons.IH [of "a + 1" "b + 1" ys'] Cons.prems Cons by (simp add: strcmp.simps [of m a b])
    next
      case False
      then show ?thesis
        using Cons.prems Cons by (auto simp: strcmp.simps [of m a b])
    qed
  qed
qed

definition two_strings :: bmem where
  "two_strings = (\<lambda>a. if a = 16 then 97 else if a = 17 then 98 else if a = 32 then 97 else if a = 33 then 99 else 0)"

theorem strcmp_lexicographic_witness: "strcmp two_strings 16 32 = Some (- 1)"
  using strcmp_lexicographic [of two_strings 16 "[97, 98]" 32 "[97, 99]"] by (simp add: two_strings_def)

lemma strncmp_prefix:
  "cstr m a xs \<Longrightarrow> cstr m b ys \<Longrightarrow>
   strncmp m a b n = (if take n xs < take n ys then - 1 else if take n xs = take n ys then 0 else 1)"
proof (induction n arbitrary: a b xs ys)
  case (Suc n)
  show ?case
  proof (cases xs)
    case Nil
    then show ?thesis using Suc.prems by (cases ys) (auto simp: word_gt_0)
  next
    case x: (Cons x xs')
    show ?thesis
    proof (cases ys)
      case Nil
      then show ?thesis using Suc.prems x by (auto simp: word_gt_0)
    next
      case (Cons y ys')
      then show ?thesis using Suc.prems x Suc.IH [of "a + 1" xs' "b + 1" ys'] by auto
    qed
  qed
qed simp

lemma strcasecmp_zero:
  "cstr m a xs \<Longrightarrow> cstr m b ys \<Longrightarrow>
   \<exists>r. strcasecmp m a b = Some r \<and> (r = 0 \<longleftrightarrow> map (\<lambda>c. tolower (uint c)) xs = map (\<lambda>c. tolower (uint c)) ys)"
proof (induction xs arbitrary: a b ys)
  case Nil
  have "tolower (uint c) \<noteq> 0" if "c \<noteq> 0" for c :: u8
    using that uint_nonnegative [of c] by (auto simp: tolower_def uint_0_iff)
  then show ?case
    using Nil by (cases ys) (auto simp: strcasecmp.simps [of m a b] tolower_def)
next
  case (Cons x xs)
  have nz: "tolower (uint c) \<noteq> 0" if "c \<noteq> 0" for c :: u8
    using that uint_nonnegative [of c] by (auto simp: tolower_def uint_0_iff)
  have t0: "tolower 0 = 0"
    by (simp add: tolower_def)
  show ?case
  proof (cases ys)
    case Nil
    then show ?thesis
      using Cons.prems nz [of x] t0 by (auto simp: strcasecmp.simps [of m a b])
  next
    case y: (Cons y ys')
    show ?thesis
      using Cons.IH [of "a + 1" "b + 1" ys'] Cons.prems y by (auto simp: strcasecmp.simps [of m a b])
  qed
qed

lemma strlen_from_cstr: "cstr m (p + k) xs \<Longrightarrow> strlen_from m p k = Some (k + of_nat (length xs))"
proof (induction xs arbitrary: k)
  case (Cons x xs)
  then show ?case
    using Cons.IH [of "k + 1"] by (simp add: strlen_from.simps [of m p k] algebra_simps)
qed (simp add: strlen_from.simps)

lemma strlen_cstr: "cstr m p xs \<Longrightarrow> strlen m p = Some (of_nat (length xs))"
  using strlen_from_cstr [of m p 0 xs] by (simp add: strlen_def)

section \<open>Printed numbers\<close>

definition dec_value :: "u8 list \<Rightarrow> nat" where
  "dec_value ds = foldl (\<lambda>v d. 10 * v + (unat d - 48)) 0 ds"

lemma dec_value_append: "dec_value (xs @ [d]) = 10 * dec_value xs + (unat d - 48)"
  by (simp add: dec_value_def)

lemma unat_dec_digit: "unat (ucast (v mod 10 :: u64) + 48 :: u8) = unat v mod 10 + 48"
proof -
  have m: "unat (v mod 10) = unat v mod 10"
    by (simp add: unat_mod_distrib)
  have lt: "unat v mod 10 < 10"
    by simp
  have "unat (ucast (v mod 10) :: u8) = unat v mod 10"
    using lt by (simp add: unsigned_ucast_eq take_bit_nat_eq_self m)
  then show ?thesis
    using lt by (subst unat_add_small) simp_all
qed

lemma dec_buffer_value: "dec_value (rev (dec_buffer v)) = unat v"
proof (induction v rule: dec_buffer.induct)
  case (1 v)
  show ?case
  proof (cases "v > 0")
    case True
    then have "dec_value (rev (dec_buffer v)) = 10 * unat (v div 10) + (unat v mod 10)"
      using 1 by (simp add: dec_buffer.simps [of v] dec_value_append unat_dec_digit)
    then show ?thesis by (simp add: unat_div)
  next
    case False
    then show ?thesis by (simp add: dec_buffer.simps dec_value_def word_gt_0)
  qed
qed

lemma dec_buffer_digits: "list_all (\<lambda>d. 48 \<le> d \<and> d \<le> 57) (dec_buffer v)"
proof (induction v rule: dec_buffer.induct)
  case (1 v)
  have "unat v mod 10 < 10" by simp
  then have "48 \<le> ucast (v mod 10) + (48 :: u8) \<and> ucast (v mod 10) + 48 \<le> (57 :: u8)"
    by (simp add: word_le_nat_alt unat_dec_digit)
  then show ?case
    using 1 by (simp add: dec_buffer.simps [of v])
qed

lemma length_dec_buffer: "unat v < 10 ^ k \<Longrightarrow> length (dec_buffer v) \<le> k"
proof (induction k arbitrary: v)
  case 0
  then have "v = 0" by (simp add: unat_eq_zero)
  then show ?case by (simp add: dec_buffer.simps)
next
  case (Suc k)
  then have "unat (v div 10) < 10 ^ k"
    by (simp add: unat_div less_mult_imp_div_less mult.commute)
  then show ?case
    using Suc.IH by (simp add: dec_buffer.simps [of v])
qed

lemma length_dec_buffer_count: "length (dec_buffer v) = count_digits 10 v"
  by (induction v rule: dec_buffer.induct) (simp add: dec_buffer.simps count_digits.simps)

lemma dec_buffer_last: "v \<noteq> 0 \<Longrightarrow> dec_buffer v \<noteq> [] \<and> last (dec_buffer v) \<noteq> 48"
proof (induction v rule: dec_buffer.induct)
  case (1 v)
  show ?case
  proof (cases "v div 10 = 0")
    case True
    have "unat v div 10 = 0"
      using arg_cong [OF True, of unat] by (simp add: unat_div)
    then have "unat v mod 10 = unat v" by (simp add: div_eq_0_iff)
    moreover have "0 < unat v"
      using 1(2) by (simp add: unat_gt_0)
    ultimately have "unat (ucast (v mod 10) + 48 :: u8) \<noteq> unat (48 :: u8)"
      by (simp add: unat_dec_digit)
    then have "ucast (v mod 10) + 48 \<noteq> (48 :: u8)"
      by metis
    then show ?thesis
      using 1(2) True by (simp add: dec_buffer.simps [of v] dec_buffer.simps [of 0] word_gt_0)
  next
    case False
    then show ?thesis
      using 1 by (simp add: dec_buffer.simps [of v] word_gt_0)
  qed
qed

lemma unsigned_to_string_length: "unat v < 10 ^ k \<Longrightarrow> 0 < k \<Longrightarrow> length (unsigned_to_string v) \<le> k"
  using length_dec_buffer [of v k] by (simp add: unsigned_to_string_def)

text \<open>
  \<^verbatim>\<open>unsigned_to_string\<close> writes the decimal representation of every 64-bit value: digits
  only, denoting the value, without a leading zero except for 0, at most twenty of them (so the
  twenty-byte buffer is enough), and as many as \<^verbatim>\<open>get_unsigned2string_final_size\<close> announces.
\<close>

theorem unsigned_to_string_correct:
  "dec_value (unsigned_to_string v) = unat v \<and>
   list_all (\<lambda>d. 48 \<le> d \<and> d \<le> 57) (unsigned_to_string v) \<and>
   (hd (unsigned_to_string v) = 48 \<longleftrightarrow> v = 0) \<and>
   length (unsigned_to_string v) \<le> 20 \<and>
   length (unsigned_to_string v) = get_unsigned2string_final_size v"
proof -
  have "unat v < 10 ^ 20"
    using unsigned_less [of v, where 'a = nat] by simp
  then have "length (unsigned_to_string v) \<le> 20"
    by (rule unsigned_to_string_length) simp
  moreover have "hd (rev (dec_buffer v)) = 48 \<longleftrightarrow> v = 0" if "v \<noteq> 0"
    using dec_buffer_last [OF that] that by (simp add: hd_rev)
  ultimately show ?thesis
    using dec_buffer_value [of v] dec_buffer_digits [of v] length_dec_buffer_count [of v]
    by (auto simp: unsigned_to_string_def get_unsigned2string_final_size_def dec_value_def)
qed

text \<open>The value of a signed decimal text.\<close>

definition signed_value :: "u8 list \<Rightarrow> int" where
  "signed_value s = (case s of [] \<Rightarrow> 0 | c # ds \<Rightarrow> if c = 0x2D then - int (dec_value ds) else int (dec_value s))"

lemma uint_sint_u32: "uint v = sint v mod 2 ^ 32" for v :: u32
  using uint_word_of_int [of "sint v", where 'a = 32] by simp

lemma sint_u32_bounds: "- (2 ^ 31) \<le> sint v" "sint v < 2 ^ 31" for v :: u32
  using sint_greater_eq [of v] sint_less [of v] by simp_all

lemma uint_minus_u32: "uint (- v) = (- sint v) mod 2 ^ 32" for v :: u32
proof -
  have "- v = word_of_int (- sint v)"
    by simp
  then show ?thesis
    using uint_word_of_int [of "- sint v", where 'a = 32] by simp
qed

lemma sint_neg_u32:
  fixes v :: u32
  assumes "sint v < 0" "v \<noteq> 0x80000000"
  shows "sint (- v) = - sint v"
proof -
  have "sint v \<noteq> - (2 ^ 31)"
  proof
    assume "sint v = - (2 ^ 31)"
    then have "word_of_int (sint v) = (word_of_int (- (2 ^ 31)) :: u32)"
      by simp
    then show False
      using assms(2) by simp
  qed
  then have lt: "- sint v < 2 ^ 31"
    using sint_u32_bounds [of v] by simp
  then have "uint (- v) = - sint v"
    using assms(1) uint_minus_u32 [of v] by simp
  moreover have "sint (- v) = signed_take_bit 31 (uint (- v))"
    by (simp add: sint_uint)
  ultimately have "sint (- v) = signed_take_bit 31 (- sint v)"
    by simp
  also have "\<dots> = - sint v"
    by (rule signed_take_bit_int_eq_self) (use lt assms(1) in simp_all)
  finally show ?thesis .
qed

lemma unat_scast_u32: "0 \<le> sint x \<Longrightarrow> unat (scast x :: u64) = nat (sint x)" for x :: u32
proof -
  assume "0 \<le> sint x"
  moreover have "uint (scast x :: u64) = sint x mod 2 ^ 64"
    using uint_word_of_int [of "sint x", where 'a = 64] by simp
  ultimately have "uint (scast x :: u64) = sint x"
    using sint_u32_bounds [of x] by simp
  then show ?thesis
    by (simp only: unat_eq_nat_uint)
qed

lemma sprintf_d_abs:
  fixes v :: u32
  assumes "v \<noteq> 0x80000000"
  shows "unat (scast (if v <s 0 then - v else v) :: u64) = nat \<bar>sint v\<bar>"
proof (cases "v <s 0")
  case True
  then have neg: "sint v < 0"
    by (simp add: word_sless_alt)
  then show ?thesis
    using True sint_neg_u32 [OF neg assms] unat_scast_u32 [of "- v"] by simp
next
  case False
  then have "0 \<le> sint v"
    by (simp add: word_sless_alt)
  then show ?thesis
    using False unat_scast_u32 [of v] by simp
qed

text \<open>
  \<^verbatim>\<open>sprintf\<close> prints every \<^verbatim>\<open>int\<close> given to \<^verbatim>\<open>%d\<close> with its sign and decimal digits,
  except \<^verbatim>\<open>INT_MIN\<close>: negating it leaves it negative, the sign extension gives twenty digits, and
  the terminator is written past \<^verbatim>\<open>num_buffer[20]\<close>.
\<close>

theorem sprintf_d_exact:
  "(case sprintf_d v of None \<Rightarrow> v = 0x80000000 | Some s \<Rightarrow> v \<noteq> 0x80000000 \<and> signed_value s = sint v)"
proof (cases "v = 0x80000000")
  case True
  have "sprintf_d 0x80000000 = None"
    by code_simp
  then show ?thesis using True by simp
next
  case False
  define w where "w = (scast (if v <s 0 then - v else v) :: u64)"
  have w: "unat w = nat \<bar>sint v\<bar>"
    unfolding w_def by (rule sprintf_d_abs [OF False])
  have "unat w \<le> 2 ^ 31"
    using w sint_u32_bounds [of v] by simp
  then have len: "length (unsigned_to_string w) \<le> 10"
    by (intro unsigned_to_string_length) simp_all
  have dig: "list_all (\<lambda>d. 48 \<le> d \<and> d \<le> 57) (unsigned_to_string w)" "dec_value (unsigned_to_string w) = unat w"
    "unsigned_to_string w \<noteq> []"
    using dec_buffer_digits [of w] dec_buffer_value [of w] dec_buffer_last [of w]
    by (auto simp: unsigned_to_string_def dec_value_def)
  have "signed_value (unsigned_to_string w) = int (unat w)"
    using dig by (cases "unsigned_to_string w") (auto simp: signed_value_def)
  moreover have "signed_value (0x2D # unsigned_to_string w) = - int (unat w)"
    using dig(2) by (simp add: signed_value_def)
  moreover have "sprintf_d v = Some ((if v <s 0 then [0x2D] else []) @ unsigned_to_string w)"
    unfolding sprintf_d_def w_def [symmetric] Let_def using len by simp
  ultimately show ?thesis
    using False w by (cases "sint v < 0") (simp_all add: word_sless_alt)
qed

section \<open>Tokens\<close>

text \<open>The maximal runs of bytes outside the delimiter set.\<close>

function tokens :: "u8 list \<Rightarrow> u8 list \<Rightarrow> u8 list list" where
  "tokens ds s =
     (let r = dropWhile (\<lambda>c. c \<in> set ds) s in
      if r = [] then []
      else takeWhile (\<lambda>c. c \<notin> set ds) r # tokens ds (tl (dropWhile (\<lambda>c. c \<notin> set ds) r)))"
  by pat_completeness auto
termination
proof (relation "measure (length \<circ> snd)", goal_cases)
  case (2 ds s r)
  have "length r \<le> length s"
    using 2(1) by (simp add: length_dropWhile_le)
  moreover have "0 < length r"
    using 2(2) by (simp only: length_greater_0_conv) simp
  ultimately have "length r - 1 < length s"
    by linarith
  moreover have "length (tl (dropWhile (\<lambda>c. c \<notin> set ds) r)) \<le> length r - 1"
    by (simp add: diff_le_mono length_dropWhile_le)
  ultimately show ?case
    by simp
qed simp

declare tokens.simps [simp del]

text \<open>The loop \<^verbatim>\<open>for (tok = strtok_r(s, d, &save); tok; tok = strtok_r(NULL, d, &save))\<close>.\<close>

partial_function (option) strtok_loop :: "bmem \<Rightarrow> u64 \<Rightarrow> u64 \<Rightarrow> u64 \<Rightarrow> u64 list \<Rightarrow> (u64 list \<times> bmem) option" where
  "strtok_loop m str delim save acc =
     do { (t, save, m) \<leftarrow> strtok_r m str delim save;
          if t = 0 then Some (rev acc, m) else strtok_loop m 0 delim save (t # acc) }"

text \<open>The addresses of a string and its terminator.\<close>

definition span :: "u64 \<Rightarrow> nat \<Rightarrow> u64 set" where
  "span p n = {x. unat p \<le> unat x \<and> unat x \<le> unat p + n}"

definition fits :: "u64 \<Rightarrow> nat \<Rightarrow> bool" where
  "fits p n \<longleftrightarrow> p \<noteq> 0 \<and> unat p + n < 2 ^ 64"

lemma fits_add: "fits p n \<Longrightarrow> k \<le> n \<Longrightarrow> fits (p + of_nat k) (n - k) \<and> unat (p + of_nat k) = unat p + k"
proof -
  assume f: "fits p n" "k \<le> n"
  then have u: "unat (p + of_nat k) = unat p + k"
    by (simp add: fits_def unat_add_small unat_of_nat_small)
  moreover have "p + of_nat k \<noteq> 0"
    using u f by (metis add_is_0 fits_def unat_eq_zero unsigned_0)
  ultimately show ?thesis
    using f by (simp add: fits_def)
qed

lemma fits_Suc: "fits p (Suc n) \<Longrightarrow> fits (p + 1) n \<and> unat (p + 1) = unat p + 1"
  using fits_add [of p "Suc n" 1] by simp

lemma cstr_frame: "cstr m p s \<Longrightarrow> fits p (length s) \<Longrightarrow> (\<And>x. x \<in> span p (length s) \<Longrightarrow> m' x = m x) \<Longrightarrow> cstr m' p s"
proof (induction s arbitrary: p)
  case (Cons c s)
  have f: "fits (p + 1) (length s)" "unat (p + 1) = unat p + 1"
    using fits_Suc [of p "length s"] Cons.prems(2) by simp_all
  have "cstr m' (p + 1) s"
    using Cons.prems f by (intro Cons.IH) (auto simp: span_def)
  moreover have "m' p = m p"
    by (rule Cons.prems(3)) (simp add: span_def)
  ultimately show ?case
    using Cons.prems(1) by simp
qed (simp add: span_def)

lemma cstr_drop: "cstr m p s \<Longrightarrow> k \<le> length s \<Longrightarrow> cstr m (p + of_nat k) (drop k s)"
proof (induction k arbitrary: p s)
  case (Suc k)
  then obtain c cs where s: "s = c # cs" by (cases s) auto
  then show ?case
    using Suc.IH [of "p + 1" cs] Suc.prems by (simp add: algebra_simps)
qed simp

lemma cstr_zero_free: "cstr m p s \<Longrightarrow> 0 \<notin> set s"
  by (induction s arbitrary: p) auto

text \<open>Cutting a string by a terminator.\<close>

lemma cstr_take:
  "cstr m p s \<Longrightarrow> k \<le> length s \<Longrightarrow> fits p (length s) \<Longrightarrow> cstr (m(p + of_nat k := 0)) p (take k s)"
proof (induction k arbitrary: p s)
  case (Suc k)
  then obtain c cs where s: "s = c # cs" by (cases s) auto
  have f: "fits (p + 1) (length cs)"
    using fits_Suc Suc.prems(3) s by simp
  have "p + of_nat (Suc k) \<noteq> p"
    using fits_add [OF Suc.prems(3), of "Suc k"] Suc.prems(2) by auto
  moreover have "p + of_nat (Suc k) = p + 1 + of_nat k"
    by simp
  ultimately show ?case
    using Suc.IH [of "p + 1" cs] Suc.prems s f by (simp add: add.assoc)
qed simp

lemma strchr_member:
  "cstr m d ds \<Longrightarrow> fits d (length ds) \<Longrightarrow> c \<noteq> 0 \<Longrightarrow> \<exists>r. strchr m d c = Some r \<and> (r = 0 \<longleftrightarrow> c \<notin> set ds)"
proof (induction ds arbitrary: d)
  case Nil
  then show ?case by (auto simp: strchr.simps [of m d c] fits_def)
next
  case (Cons x ds)
  then show ?case
    using fits_Suc [of d "length ds"] Cons.IH [of "d + 1"]
    by (auto simp: strchr.simps [of m d c] fits_def)
qed

lemma skip_delims_spec:
  "cstr m p s \<Longrightarrow> cstr m d ds \<Longrightarrow> fits d (length ds) \<Longrightarrow>
   skip_delims m d p = Some (p + of_nat (length (takeWhile (\<lambda>c. c \<in> set ds) s)))"
proof (induction s arbitrary: p)
  case (Cons c s)
  obtain r where "strchr m d c = Some r" "r = 0 \<longleftrightarrow> c \<notin> set ds"
    using strchr_member [OF Cons.prems(2,3)] Cons.prems(1) by auto
  then show ?case
    using Cons.IH [of "p + 1"] Cons.prems by (auto simp: skip_delims.simps [of m d p] algebra_simps)
qed (simp add: skip_delims.simps)

lemma skip_token_spec:
  "cstr m p s \<Longrightarrow> cstr m d ds \<Longrightarrow> fits d (length ds) \<Longrightarrow>
   skip_token m d p = Some (p + of_nat (length (takeWhile (\<lambda>c. c \<notin> set ds) s)))"
proof (induction s arbitrary: p)
  case (Cons c s)
  obtain r where "strchr m d c = Some r" "r = 0 \<longleftrightarrow> c \<notin> set ds"
    using strchr_member [OF Cons.prems(2,3)] Cons.prems(1) by auto
  then show ?case
    using Cons.IH [of "p + 1"] Cons.prems by (auto simp: skip_token.simps [of m d p] algebra_simps)
qed (simp add: skip_token.simps)

text \<open>One call: the token, and the rest of the string behind it.\<close>

lemma strtok_r_step:
  assumes c: "cstr m p s" "cstr m d ds" and f: "fits p (length s)" "fits d (length ds)"
    and dis: "span p (length s) \<inter> span d (length ds) = {}" and str: "str = p \<or> str = 0 \<and> save = p"
  defines "r \<equiv> dropWhile (\<lambda>c. c \<in> set ds) s"
  defines "t \<equiv> takeWhile (\<lambda>c. c \<notin> set ds) r" and "u \<equiv> dropWhile (\<lambda>c. c \<notin> set ds) r"
  shows "if r = [] then strtok_r m str d save = Some (0, 0, m)
    else \<exists>st sv m'. strtok_r m str d save = Some (st, sv, m') \<and> fits st (length t) \<and> cstr m' st t \<and>
      (\<forall>x. x \<notin> span p (length s) \<longrightarrow> m' x = m x) \<and> span st (length t) \<subseteq> span p (length s) \<and>
      (if u = [] then sv = 0 else cstr m' sv (tl u) \<and> fits sv (length (tl u)) \<and>
         span sv (length (tl u)) \<subseteq> span p (length s) \<and> span st (length t) \<inter> span sv (length (tl u)) = {})"
proof -
  define k where "k = length (takeWhile (\<lambda>c. c \<in> set ds) s)"
  have k: "k \<le> length s" "r = drop k s"
    by (simp_all add: k_def r_def length_takeWhile_le dropWhile_eq_drop)
  define st where "st = p + of_nat k"
  have st: "fits st (length r)" "unat st = unat p + k" "cstr m st r"
    using fits_add [OF f(1) k(1)] cstr_drop [OF c(1) k(1)] k(2) by (simp_all add: st_def)
  have p0: "p \<noteq> 0"
    using f(1) by (simp add: fits_def)
  have sd: "skip_delims m d p = Some st"
    using skip_delims_spec [OF c f(2)] by (simp add: st_def k_def)
  have sv: "(if str \<noteq> 0 then str else save) = p"
    using str p0 by auto
  show ?thesis
  proof (cases "r = []")
    case True
    then show ?thesis
      using sd st(3) p0 sv by (simp add: strtok_r_def Let_def)
  next
    case False
    then have nz: "m st \<noteq> 0"
      using st(3) by (cases r) auto
    define e where "e = st + of_nat (length t)"
    have tl: "length t \<le> length r" "r = t @ u"
      by (simp_all add: t_def u_def length_takeWhile_le)
    then have tl2: "u = drop (length t) r" "t = take (length t) r"
      by (metis append_eq_conv_conj)+
    have stk: "skip_token m d st = Some e"
      using skip_token_spec [OF st(3) c(2) f(2)] by (simp add: e_def t_def)
    have e: "unat e = unat st + length t" "fits e (length u)" "cstr m e u"
      using fits_add [OF st(1) tl(1)] cstr_drop [OF st(3) tl(1)] tl2(1) by (simp_all add: e_def)
    have run: "strtok_r m str d save = Some (if m e \<noteq> 0 then (st, e + 1, m(e := 0)) else (st, 0, m))"
      using sd stk nz p0 sv by (simp add: strtok_r_def Let_def)
    have lens: "length s = k + length r" "length r = length t + length u"
      using k(1) arg_cong [OF k(2), of length] arg_cong [OF tl(2), of length] by simp_all
    have ft: "fits st (length t)"
      using st(1) lens by (simp add: fits_def)
    have s1: "span st (length t) \<subseteq> span p (length s)"
      using st(2) lens by (auto simp: span_def)
    show ?thesis
    proof (cases "u = []")
      case True
      then have "m e = 0" "t = r" using e(3) tl(2) by simp_all
      then show ?thesis
        using run False True st(3) ft s1 by simp
    next
      case ne: False
      then obtain c0 u' where u: "u = c0 # u'" by (cases u) auto
      have me: "m e \<noteq> 0" using e(3) u by simp
      have f1: "fits (e + 1) (length u')" "unat (e + 1) = unat e + 1"
        using fits_Suc [of e "length u'"] e(2) u by simp_all
      have ct: "cstr (m(e := 0)) st t"
        using cstr_take [OF st(3) tl(1) st(1)] unfolding e_def tl2(2) [symmetric] .
      have cu0: "cstr m (e + 1) u'"
        using e(3) u by simp
      have "(m(e := 0)) x = m x" if "x \<in> span (e + 1) (length u')" for x
        using that f1(2) by (auto simp: span_def)
      with cu0 f1(1) have cu: "cstr (m(e := 0)) (e + 1) u'"
        by (rule cstr_frame)
      have ein: "e \<in> span p (length s)"
        using e(1) st(2) lens by (simp add: span_def)
      have s2: "span (e + 1) (length u') \<subseteq> span p (length s)" "span st (length t) \<inter> span (e + 1) (length u') = {}"
        using f1(2) e(1) st(2) lens u by (auto simp: span_def)
      show ?thesis
        using run me False ne u ct cu f1(1) ft s1 s2 ein by auto
    qed
  qed
qed

text \<open>The whole loop.\<close>

lemma strtok_loop_tokens:
  assumes "cstr m p s" "cstr m d ds" "fits p (length s)" "fits d (length ds)"
    "span p (length s) \<inter> span d (length ds) = {}" "str = p \<or> str = 0 \<and> save = p"
  shows "\<exists>as m'. strtok_loop m str d save acc = Some (rev acc @ as, m') \<and> list_all2 (cstr m') as (tokens ds s) \<and>
    (\<forall>x. x \<notin> span p (length s) \<longrightarrow> m' x = m x) \<and>
    list_all2 (\<lambda>a t. fits a (length t) \<and> span a (length t) \<subseteq> span p (length s)) as (tokens ds s)"
  using assms
proof (induction "length s" arbitrary: m p s str save acc rule: less_induct)
  case less
  define r where "r = dropWhile (\<lambda>c. c \<in> set ds) s"
  define t where "t = takeWhile (\<lambda>c. c \<notin> set ds) r"
  define u where "u = dropWhile (\<lambda>c. c \<notin> set ds) r"
  note step = strtok_r_step [OF less.prems, folded r_def, folded t_def u_def]
  have tk: "tokens ds s = (if r = [] then [] else t # tokens ds (tl u))"
    by (simp add: tokens.simps [of ds s] r_def t_def u_def Let_def)
  show ?case
  proof (cases "r = []")
    case True
    then show ?thesis
      using step tk by (simp add: strtok_loop.simps [of m])
  next
    case False
    obtain st sv m1 where s1: "strtok_r m str d save = Some (st, sv, m1)" "fits st (length t)" "cstr m1 st t"
      "\<forall>x. x \<notin> span p (length s) \<longrightarrow> m1 x = m x" "span st (length t) \<subseteq> span p (length s)"
      "if u = [] then sv = 0 else cstr m1 sv (tl u) \<and> fits sv (length (tl u)) \<and>
         span sv (length (tl u)) \<subseteq> span p (length s) \<and> span st (length t) \<inter> span sv (length (tl u)) = {}"
      using step False by auto
    have st0: "st \<noteq> 0" using s1(2) by (simp add: fits_def)
    have unroll: "strtok_loop m str d save acc = strtok_loop m1 0 d sv (st # acc)"
      using s1(1) st0 by (simp add: strtok_loop.simps [of m])
    show ?thesis
    proof (cases "u = []")
      case True
      then have "strtok_loop m1 0 d sv (st # acc) = Some (rev acc @ [st], m1)"
        using s1(6) by (simp add: strtok_loop.simps [of m1] strtok_r_def)
      moreover have "tokens ds [] = []"
        by (simp add: tokens.simps)
      ultimately show ?thesis
        using unroll tk False True s1 by (intro exI [of _ "[st]"] exI [of _ m1]) simp
    next
      case ne: False
      have rest: "cstr m1 sv (tl u)" "fits sv (length (tl u))" "span sv (length (tl u)) \<subseteq> span p (length s)"
        "span st (length t) \<inter> span sv (length (tl u)) = {}"
        using s1(6) ne by auto
      have "length u \<le> length r" "length r \<le> length s"
        by (simp_all add: u_def r_def length_dropWhile_le)
      then have lt: "length (tl u) < length s"
        using ne by (cases u) auto
      have "m1 x = m x" if "x \<in> span d (length ds)" for x
        using that less.prems(5) s1(4) by blast
      with less.prems(2,4) have dd: "cstr m1 d ds"
        by (rule cstr_frame)
      have dis: "span sv (length (tl u)) \<inter> span d (length ds) = {}"
        using rest(3) less.prems(5) by blast
      obtain as m' where IH: "strtok_loop m1 0 d sv (st # acc) = Some (rev (st # acc) @ as, m')"
        "list_all2 (cstr m') as (tokens ds (tl u))" "\<forall>x. x \<notin> span sv (length (tl u)) \<longrightarrow> m' x = m1 x"
        "list_all2 (\<lambda>a t. fits a (length t) \<and> span a (length t) \<subseteq> span sv (length (tl u))) as (tokens ds (tl u))"
        using less.hyps [OF lt rest(1) dd rest(2) less.prems(4) dis, of 0 sv "st # acc"] by blast
      have "m' x = m1 x" if "x \<in> span st (length t)" for x
        using that IH(3) rest(4) by blast
      with s1(3,2) have "cstr m' st t"
        by (rule cstr_frame)
      moreover have "list_all2 (\<lambda>a t. fits a (length t) \<and> span a (length t) \<subseteq> span p (length s)) as (tokens ds (tl u))"
        using IH(4) rest(3) by (elim list_all2_mono) auto
      moreover have "m' x = m x" if "x \<notin> span p (length s)" for x
        using that IH(3) s1(4) rest(3) by (metis subsetD)
      ultimately show ?thesis
        using unroll IH tk False s1(2,4,5) subsetD [OF rest(3)] by (intro exI [of _ "st # as"] exI [of _ m']) auto
    qed
  qed
qed

text \<open>
  Calling \<^verbatim>\<open>strtok_r\<close> until it returns NULL on a string and a delimiter string that do not
  overlap ends and yields, in order, exactly the maximal runs of non-delimiter bytes, each left in
  place as a terminated string; no byte outside the string's own buffer is written.
\<close>

theorem strtok_r_tokenises:
  assumes "cstr m p s" and "cstr m d ds" and "fits p (length s)" and "fits d (length ds)"
    and "span p (length s) \<inter> span d (length ds) = {}"
  shows "\<exists>as m'. strtok_loop m p d save [] = Some (as, m') \<and> list_all2 (cstr m') as (tokens ds s) \<and>
    (\<forall>x. x \<notin> span p (length s) \<longrightarrow> m' x = m x)"
  using strtok_loop_tokens [OF assms, of p save "[]"] by auto

definition path_mem :: bmem where
  "path_mem = (\<lambda>a. if a = 16 then 47 else if a = 17 then 97 else if a = 18 then 47 else if a = 19 then 98
     else if a = 32 then 47 else 0)"

theorem strtok_r_tokenises_witness:
  "\<exists>as m'. strtok_loop path_mem 16 32 0 [] = Some (as, m') \<and> list_all2 (cstr m') as [[97], [98]]"
proof -
  have "span 16 (Suc (Suc (Suc (Suc 0)))) \<inter> span 32 (Suc 0) = {}"
    by (auto simp: span_def)
  moreover have "tokens [47] [47, 97, 47, 98] = [[97], [98]]"
    by code_simp
  ultimately show ?thesis
    using strtok_r_tokenises [of path_mem 16 "[47, 97, 47, 98]" 32 "[47]" 0]
    by (auto simp: path_mem_def fits_def)
qed

end
