(* ===== verification/Kmalloc.thy ===== *)
theory Kmalloc
  imports Slab Kstring
begin

text \<open>
  The kernel heap of \<^verbatim>\<open>src/lizard/kmalloc.c\<close>: fifteen object caches of doubling sizes behind
  \<^verbatim>\<open>kmalloc\<close>, \<^verbatim>\<open>kfree\<close> and \<^verbatim>\<open>zalloc\<close>. The list of cache nodes is the list of its members, last
  created first. \<open>None\<close> is a panic or a null-pointer access. The locale \<open>kernel_heap\<close> is what
  the rest of the kernel relies on.
\<close>

section \<open>kmalloc.c\<close>

definition KMALLOC_SIZES :: "u64 list" where
  "KMALLOC_SIZES = [8, 16, 32, 64, 128, 256, 512, 1024, 2048, 4096, 8192, 16384, 32768, 65536, 131072]"

record cache_node =
  cn_cache :: vaddr
  cn_size :: u64

record kheap =
  kh_mm :: mm
  kh_initialized :: bool
  kh_list :: "cache_node list"
  kh_node_cache :: vaddr

abbreviation sizeof_cache_node :: u64 where "sizeof_cache_node \<equiv> 32"

text \<open>The text \<^verbatim>\<open>kmalloc_node\<close> and the format \<^verbatim>\<open>kmalloc_%u\<close>.\<close>

definition kmalloc_node_name :: "u8 list" where
  "kmalloc_node_name = [107, 109, 97, 108, 108, 111, 99, 95, 110, 111, 100, 101]"

definition kmalloc_name_format :: "u8 list" where
  "kmalloc_name_format = [107, 109, 97, 108, 108, 111, 99, 95, 37, 117]"

definition CREATE_CACHE :: "u64 \<Rightarrow> u64 \<Rightarrow> kheap \<Rightarrow> kheap option" where
  "CREATE_CACHE hhdm sz kh =
     do { (node, mm) \<leftarrow> kmemcache_alloc hhdm (kh_node_cache kh) (kh_mm kh);
          if node = 0 then None
          else do { name \<leftarrow> sprintf kmalloc_name_format [Va_int (ucast sz)];
                    (c, mm) \<leftarrow> kmemcache_create hhdm name sz mm;
                    Some (kh\<lparr>kh_mm := mm, kh_list := \<lparr>cn_cache = c, cn_size = sz\<rparr> # kh_list kh\<rparr>) } }"

primrec create_caches :: "u64 \<Rightarrow> u64 list \<Rightarrow> kheap \<Rightarrow> kheap option" where
  "create_caches hhdm [] kh = Some kh"
| "create_caches hhdm (sz # szs) kh = do { kh \<leftarrow> CREATE_CACHE hhdm sz kh; create_caches hhdm szs kh }"

definition kmalloc_init :: "u64 \<Rightarrow> kheap \<Rightarrow> kheap option" where
  "kmalloc_init hhdm kh =
     do { (nc, mm) \<leftarrow> kmemcache_create hhdm kmalloc_node_name sizeof_cache_node (kh_mm kh);
          kh \<leftarrow> create_caches hhdm KMALLOC_SIZES (kh\<lparr>kh_mm := mm, kh_list := [], kh_node_cache := nc\<rparr>);
          Some (kh\<lparr>kh_initialized := True\<rparr>) }"

text \<open>The best-fit scan.\<close>

definition better :: "u64 \<Rightarrow> cache_node option \<Rightarrow> cache_node \<Rightarrow> cache_node option" where
  "better sz best node =
     (if cn_size node \<ge> sz \<and> (case best of None \<Rightarrow> True | Some b \<Rightarrow> cn_size node < cn_size b)
      then Some node else best)"

definition best_fit :: "u64 \<Rightarrow> cache_node list \<Rightarrow> cache_node option" where
  "best_fit sz nodes = foldl (better sz) None nodes"

definition kmalloc :: "u64 \<Rightarrow> u64 \<Rightarrow> kheap \<Rightarrow> (vaddr \<times> kheap) option" where
  "kmalloc hhdm sz kh =
     do { kh \<leftarrow> (if kh_initialized kh then Some kh else kmalloc_init hhdm kh);
          best \<leftarrow> best_fit sz (kh_list kh);
          (p, mm) \<leftarrow> kmemcache_alloc hhdm (cn_cache best) (kh_mm kh);
          Some (p, kh\<lparr>kh_mm := mm\<rparr>) }"

definition kfree :: "u64 \<Rightarrow> vaddr \<Rightarrow> kheap \<Rightarrow> kheap option" where
  "kfree hhdm p kh =
     (if p = 0 then Some kh
      else if \<not> kh_initialized kh then None
      else do { s \<leftarrow> get_slab (kh_mm kh) p;
                sl \<leftarrow> mm_slabs (kh_mm kh) s;
                if is_valid_slab sl
                then do { (_, mm) \<leftarrow> kmemcache_free hhdm p (kh_mm kh); Some (kh\<lparr>kh_mm := mm\<rparr>) }
                else None })"

text \<open>\<^verbatim>\<open>zalloc\<close> also clears the bytes of the object, in the memory it is given.\<close>

definition zalloc :: "u64 \<Rightarrow> u64 \<Rightarrow> kheap \<times> bmem \<Rightarrow> (vaddr \<times> kheap \<times> bmem) option" where
  "zalloc hhdm sz s =
     do { (p, kh) \<leftarrow> kmalloc hhdm sz (fst s);
          Some (p, kh, if p \<noteq> 0 then memset p 0 (unat sz) (snd s) else snd s) }"

section \<open>Best fit\<close>

lemma best_fit_foldl:
  "case foldl (better sz) best nodes of
     None \<Rightarrow> best = None \<and> (\<forall>n\<in>set nodes. cn_size n < sz)
   | Some b \<Rightarrow> (b \<in> set nodes \<and> sz \<le> cn_size b \<or> best = Some b) \<and>
       (\<forall>n\<in>set nodes. sz \<le> cn_size n \<longrightarrow> cn_size b \<le> cn_size n) \<and>
       (\<forall>b0. best = Some b0 \<longrightarrow> cn_size b \<le> cn_size b0)"
proof (induction nodes arbitrary: best)
  case Nil
  then show ?case by (auto split: option.splits)
next
  case (Cons n nodes)
  let ?best = "better sz best n"
  have IH: "case foldl (better sz) ?best nodes of
     None \<Rightarrow> ?best = None \<and> (\<forall>n\<in>set nodes. cn_size n < sz)
   | Some b \<Rightarrow> (b \<in> set nodes \<and> sz \<le> cn_size b \<or> ?best = Some b) \<and>
       (\<forall>n\<in>set nodes. sz \<le> cn_size n \<longrightarrow> cn_size b \<le> cn_size n) \<and>
       (\<forall>b0. ?best = Some b0 \<longrightarrow> cn_size b \<le> cn_size b0)"
    by (rule Cons.IH)
  show ?case
  proof (cases "foldl (better sz) ?best nodes")
    case None
    then have "?best = None" "\<forall>n\<in>set nodes. cn_size n < sz"
      using IH by auto
    moreover from this(1) have "best = None" "cn_size n < sz"
      by (auto simp: better_def not_le split: if_splits option.splits)
    ultimately show ?thesis
      using None by simp
  next
    case (Some b)
    then have b: "b \<in> set nodes \<and> sz \<le> cn_size b \<or> ?best = Some b"
      "\<forall>n\<in>set nodes. sz \<le> cn_size n \<longrightarrow> cn_size b \<le> cn_size n" "\<forall>b0. ?best = Some b0 \<longrightarrow> cn_size b \<le> cn_size b0"
      using IH by auto
    have "sz \<le> cn_size n \<longrightarrow> cn_size b \<le> cn_size n"
      using b(3) by (cases best) (auto simp: better_def split: if_splits)
    moreover have "\<forall>b0. best = Some b0 \<longrightarrow> cn_size b \<le> cn_size b0"
      using b(3) by (auto simp: better_def split: if_splits)
    moreover have "b \<in> set (n # nodes) \<and> sz \<le> cn_size b \<or> best = Some b"
      using b(1) by (auto simp: better_def split: if_splits)
    ultimately show ?thesis
      using Some b(2) by simp
  qed
qed

lemma best_fit_spec:
  "case best_fit sz nodes of
     None \<Rightarrow> \<forall>n\<in>set nodes. cn_size n < sz
   | Some b \<Rightarrow> b \<in> set nodes \<and> sz \<le> cn_size b \<and> (\<forall>n\<in>set nodes. sz \<le> cn_size n \<longrightarrow> cn_size b \<le> cn_size n)"
  using best_fit_foldl [where sz = sz and best = None and nodes = nodes] by (auto simp: best_fit_def split: option.splits)

section \<open>The invariant of the heap\<close>

text \<open>
  An initialised heap has one node per size, in the reverse of the creation order, and the cache of
  each node holds objects of that size.
\<close>

definition nodes_ok :: "mm \<Rightarrow> cache_node list \<Rightarrow> bool" where
  "nodes_ok mm nodes \<longleftrightarrow> (\<forall>n\<in>set nodes. \<exists>k. mm_caches mm (cn_cache n) = Some k \<and> kc_object_size k = cn_size n)"

definition heap_inv :: "u64 \<Rightarrow> kheap \<Rightarrow> bool" where
  "heap_inv h kh \<longleftrightarrow> mm_inv h {} (kh_mm kh) \<and> kh_initialized kh \<and>
     map cn_size (kh_list kh) = rev KMALLOC_SIZES \<and> nodes_ok (kh_mm kh) (kh_list kh)"

text \<open>Pointers handed out and not freed yet: object addresses, sixteen bytes behind the headers.\<close>

definition allocated :: "kheap \<Rightarrow> vaddr set" where
  "allocated kh = (\<lambda>q. q + sizeof_slab_obj) ` live (kh_mm kh)"

text \<open>The bytes a pointer may be used for.\<close>

definition usable :: "kheap \<Rightarrow> vaddr \<Rightarrow> nat set" where
  "usable kh p = extent (kh_mm kh) (p - sizeof_slab_obj)"

lemma nodes_ok_kept: "nodes_ok mm nodes \<Longrightarrow> caches_kept mm mm' \<Longrightarrow> nodes_ok mm' nodes"
  unfolding nodes_ok_def caches_kept_def same_geom_def by metis

lemma heap_size_max: "heap_inv h kh \<Longrightarrow> n \<in> set (kh_list kh) \<Longrightarrow> cn_size n \<le> 131072"
proof -
  assume h: "heap_inv h kh" and "n \<in> set (kh_list kh)"
  then have "cn_size n \<in> set (map cn_size (kh_list kh))" by simp
  then show ?thesis
    using h by (simp add: heap_inv_def KMALLOC_SIZES_def) auto
qed

lemma best_fit_exists: "heap_inv h kh \<Longrightarrow> sz \<le> 131072 \<Longrightarrow> \<exists>b. best_fit sz (kh_list kh) = Some b"
proof -
  assume h: "heap_inv h kh" and sz: "sz \<le> 131072"
  have "131072 \<in> set (map cn_size (kh_list kh))"
    using h by (simp add: heap_inv_def KMALLOC_SIZES_def)
  then obtain n where "n \<in> set (kh_list kh)" "cn_size n = 131072" by auto
  then show ?thesis
    using best_fit_spec [where sz = sz and nodes = "kh_list kh"] sz by (auto split: option.splits)
qed

text \<open>No free block of pages is large enough for a slab of the cache that serves the size.\<close>

definition exhausted :: "u64 \<Rightarrow> kheap \<Rightarrow> bool" where
  "exhausted sz kh \<longleftrightarrow> (\<exists>n k. best_fit sz (kh_list kh) = Some n \<and> mm_caches (kh_mm kh) (cn_cache n) = Some k \<and>
     kc_partial k = [] \<and> kc_free k = [] \<and> (\<forall>(p, i)\<in>blocks (mm_buddy (kh_mm kh)). i < kc_order k))"

lemma buddy_alloc_zero:
  assumes "buddy_ok h b" "k \<le> MAX_ORDER" "buddy_alloc h b (int k) = Some (0, b')"
  shows "\<forall>(p, i)\<in>blocks b. i < k"
proof -
  have ok: "buddy_inv b" "h \<noteq> 0" "unat h + length (b_pages b) * 4096 < 2 ^ 64"
    using assms(1) by (simp_all add: buddy_ok_def)
  have "of_nat (p * 4096) + h \<noteq> 0" if "took_block b p k b'" for p b'
  proof -
    have "p + 2 ^ k \<le> length (b_pages b)"
      using that by (simp add: took_block_def)
    then have "p < length (b_pages b)"
      using zero_less_power [of "2::nat" k] by linarith
    then show ?thesis
      by (rule page_of_vaddr(2) [OF _ ok(3,2)])
  qed
  then show ?thesis
    using buddy_alloc_cases [OF ok(1) assms(2), of h] assms(3) by fastforce
qed

text \<open>\<^verbatim>\<open>kmalloc\<close> on an initialised heap.\<close>

lemma kmalloc_ok:
  assumes inv: "heap_inv h kh" and sz: "sz \<le> 131072"
  shows "kmalloc h sz kh = Some (0, kh) \<and> exhausted sz kh \<or>
    (\<exists>p kh'. kmalloc h sz kh = Some (p, kh') \<and> p \<noteq> 0 \<and> heap_inv h kh' \<and> p \<notin> allocated kh \<and>
      allocated kh' = insert p (allocated kh) \<and>
      {unat p..<unat p + unat sz} \<subseteq> usable kh' p)"
proof -
  have mi: "mm_inv h {} (kh_mm kh)" and ini: "kh_initialized kh"
    using inv by (simp_all add: heap_inv_def)
  obtain b where b: "best_fit sz (kh_list kh) = Some b"
    using best_fit_exists [OF inv sz] by blast
  then have bm: "b \<in> set (kh_list kh)" "sz \<le> cn_size b"
    using best_fit_spec [where sz = sz and nodes = "kh_list kh"] by simp_all
  obtain k where k: "mm_caches (kh_mm kh) (cn_cache b) = Some k" "kc_object_size k = cn_size b"
    using inv bm(1) unfolding heap_inv_def nodes_ok_def by blast
  show ?thesis
    using kmemcache_alloc_ok [OF mi k(1)]
  proof (elim disjE exE conjE)
    assume z: "kmemcache_alloc h (cn_cache b) (kh_mm kh) = Some (0, kh_mm kh)" "kc_partial k = []" "kc_free k = []"
      "buddy_alloc h (mm_buddy (kh_mm kh)) (int (kc_order k)) = Some (0, mm_buddy (kh_mm kh))"
    have "kc_order k \<le> MAX_ORDER"
      using mm_invD(3) [OF mi k(1)] by (simp add: cache_wf_def)
    then have "exhausted sz kh"
      using buddy_alloc_zero [OF mm_invD(1) [OF mi] _ z(4)] z(2,3) b k(1) unfolding exhausted_def by blast
    then show ?thesis
      using b ini z(1) by (simp add: kmalloc_def)
  next
    fix q mm' k' s
    assume a: "kmemcache_alloc h (cn_cache b) (kh_mm kh) = Some (q + sizeof_slab_obj, mm')" "mm_inv h {} mm'"
      "q \<notin> live (kh_mm kh)" "live mm' = insert q (live (kh_mm kh))" "mm_caches mm' (cn_cache b) = Some k'"
      "s \<in> set (cache_slabs k')" "q \<in> set (slots k s)" "caches_kept (kh_mm kh) mm'"
    let ?kh = "kh\<lparr>kh_mm := mm'\<rparr>" and ?p = "q + sizeof_slab_obj"
    have run: "kmalloc h sz kh = Some (?p, ?kh)"
      using b ini a(1) by (simp add: kmalloc_def)
    have inv': "heap_inv h ?kh"
      using inv a(2) nodes_ok_kept [OF _ a(8)] by (simp add: heap_inv_def)
    have nz: "?p \<noteq> 0"
      using live_nonzero [OF a(2)] a(4) by simp
    have geom: "same_geom k' k"
      using a(5,8) k(1) unfolding caches_kept_def by (metis option.inject)
    have ext: "extent mm' q = {unat q + 16..<unat q + 16 + unat (cn_size b)}" "unat ?p = unat q + 16"
    proof -
      have ql: "q \<in> live mm'" using a(4) by simp
      obtain c2 k2 s2 i where l: "mm_caches mm' c2 = Some k2" "s2 \<in> set (cache_slabs k2)" "i < n_objs k2"
        "unat q = unat s2 + 56 + i * unat (kc_real_object_size k2)" "placed k2 s2" "cache_wf k2"
        "extent mm' q = {unat q + 16..<unat q + 16 + unat (kc_object_size k2)}" "q = s2 + 56 + of_nat i * kc_real_object_size k2"
        using live_slot [OF a(2) ql] .
      have "q \<in> set (slots k2 s2)"
        using l(3,8) by (auto simp: slots_def)
      moreover have "q \<in> set (slots k' s)"
        using a(7) same_geom_eqs(1) [OF geom] by simp
      ultimately have "s2 = s"
        using slots_disjoint [OF a(2) l(1,2) a(5,6)] by blast
      then have "k2 = k'"
        using slab_cache_unique(2) [OF a(2,5) l(1) a(6)] l(2) by simp
      then show "extent mm' q = {unat q + 16..<unat q + 16 + unat (cn_size b)}"
        using l(7) geom k(2) by (simp add: same_geom_def)
      have "unat q + 16 < 2 ^ 64"
        using slot_fits [OF l(3)] l(4-6) by (auto simp: placed_def cache_wf_def)
      then show "unat ?p = unat q + 16"
        by (subst unat_add_small) simp_all
    qed
    have "?p \<notin> allocated kh" "allocated ?kh = insert ?p (allocated kh)"
      using a(3,4) by (auto simp: allocated_def)
    moreover have "{unat ?p..<unat ?p + unat sz} \<subseteq> usable ?kh ?p"
      using ext bm(2) by (auto simp: usable_def word_le_nat_alt)
    ultimately show ?thesis
      using run nz inv' by blast
  qed
qed

lemma live_get_slab:
  assumes inv: "mm_inv h {} st" and q: "q \<in> live st"
  shows "\<exists>s sl. get_slab st (q + sizeof_slab_obj) = Some s \<and> mm_slabs st s = Some sl \<and> is_valid_slab sl"
proof -
  obtain c k s where l: "mm_caches st c = Some k" "s \<in> set (cache_slabs k)" "q \<in> set (slots k s)"
    using q by (auto simp: live_def)
  obtain sl where "mm_slabs st s = Some sl" "sl_magic sl = SLAB_MAGIC" "slab_wf (mm_owner st) k s sl"
    using lists_invD [OF mm_invD(4) [OF inv l(1)] l(2)] .
  then show ?thesis
    using l(3) by (auto simp: slab_wf_def get_slab_def is_valid_slab_def)
qed

lemma kfree_ok:
  assumes inv: "heap_inv h kh" and p: "p \<in> allocated kh"
  shows "\<exists>kh'. kfree h p kh = Some kh' \<and> heap_inv h kh' \<and> allocated kh' = allocated kh - {p}"
proof -
  have mi: "mm_inv h {} (kh_mm kh)" and ini: "kh_initialized kh"
    using inv by (simp_all add: heap_inv_def)
  obtain q where q: "q \<in> live (kh_mm kh)" "p = q + sizeof_slab_obj"
    using p by (auto simp: allocated_def)
  note nz = live_nonzero [OF mi q(1)]
  obtain mm' where f: "kmemcache_free h p (kh_mm kh) = Some (0, mm')" "mm_inv h {} mm'"
    "live mm' = live (kh_mm kh) - {q}" "caches_kept (kh_mm kh) mm'"
    using kmemcache_free_ok [OF mi q(1) nz] q(2) by blast
  obtain s sl where sl: "get_slab (kh_mm kh) p = Some s" "mm_slabs (kh_mm kh) s = Some sl" "is_valid_slab sl"
    using live_get_slab [OF mi q(1)] q(2) by blast
  have "kfree h p kh = Some (kh\<lparr>kh_mm := mm'\<rparr>)"
    unfolding kfree_def using f(1) nz ini sl unfolding q(2) by simp
  moreover have "heap_inv h (kh\<lparr>kh_mm := mm'\<rparr>)"
    using inv f(2) nodes_ok_kept [OF _ f(4)] by (simp add: heap_inv_def)
  moreover have "allocated (kh\<lparr>kh_mm := mm'\<rparr>) = allocated kh - {p}"
    unfolding allocated_def q(2) by (simp add: f(3) image_set_diff inj_def)
  ultimately show ?thesis by blast
qed

section \<open>Initialisation\<close>

lemma kmalloc_name_some: "\<exists>name. sprintf kmalloc_name_format [Va_int v] = Some name"
  by (simp add: kmalloc_name_format_def)

lemma CREATE_CACHE_ok:
  assumes inv: "mm_inv h {} (kh_mm kh)" and nok: "nodes_ok (kh_mm kh) (kh_list kh)"
    and run: "CREATE_CACHE h sz kh = Some kh'" and sz: "unat sz \<le> 2 ^ 20"
    and nc: "mm_caches (kh_mm kh) (kh_node_cache kh) = Some k"
    and ok: "cn_cache (hd (kh_list kh')) \<noteq> 0"
  shows "mm_inv h {} (kh_mm kh') \<and> nodes_ok (kh_mm kh') (kh_list kh') \<and>
    (\<exists>c. kh_list kh' = \<lparr>cn_cache = c, cn_size = sz\<rparr> # kh_list kh) \<and>
    kh_node_cache kh' = kh_node_cache kh \<and> caches_kept (kh_mm kh) (kh_mm kh')"
proof -
  obtain node mm1 name c mm2 where r: "kmemcache_alloc h (kh_node_cache kh) (kh_mm kh) = Some (node, mm1)" "node \<noteq> 0"
    "kmemcache_create h name sz mm1 = Some (c, mm2)"
    "kh' = kh\<lparr>kh_mm := mm2, kh_list := \<lparr>cn_cache = c, cn_size = sz\<rparr> # kh_list kh\<rparr>"
    using run by (auto simp: CREATE_CACHE_def bind_eq_Some_conv split: if_splits prod.splits)
  have m1: "mm_inv h {} mm1" "caches_kept (kh_mm kh) mm1"
    using kmemcache_alloc_ok [OF inv nc] r(1,2) by auto
  have "c \<noteq> 0" using ok r(4) by simp
  then obtain kc where m2: "mm_inv h {} mm2" "mm_caches mm1 c = None" "mm_caches mm2 = (mm_caches mm1)(c \<mapsto> kc)"
    "kc_object_size kc = sz"
    using kmemcache_create_ok [OF m1(1) sz, of name] r(3) by auto
  have kept: "caches_kept mm1 mm2"
    using m2(2,3) by (auto simp: caches_kept_def)
  note kept2 = caches_kept_trans [OF m1(2) kept]
  have "nodes_ok mm2 (kh_list kh')"
    using nodes_ok_kept [OF nok kept2] m2(3,4) r(4) by (auto simp: nodes_ok_def)
  then show ?thesis
    using r(4) m2(1) kept2 by auto
qed

lemma CREATE_CACHE_list: "CREATE_CACHE h sz kh = Some kh' \<Longrightarrow> \<exists>n. kh_list kh' = n # kh_list kh"
  by (auto simp: CREATE_CACHE_def bind_eq_Some_conv split: if_splits prod.splits)

lemma create_caches_list: "create_caches h szs kh = Some kh' \<Longrightarrow> \<exists>ns. kh_list kh' = ns @ kh_list kh"
proof (induction szs arbitrary: kh)
  case (Cons sz szs)
  then obtain kh1 where "CREATE_CACHE h sz kh = Some kh1" "create_caches h szs kh1 = Some kh'"
    by (auto simp: bind_eq_Some_conv)
  then show ?case
    using CREATE_CACHE_list [of h sz kh kh1] Cons.IH [of kh1] by auto
qed simp

lemma create_caches_ok:
  assumes "mm_inv h {} (kh_mm kh)" "nodes_ok (kh_mm kh) (kh_list kh)" "create_caches h szs kh = Some kh'"
    "list_all (\<lambda>sz. unat sz \<le> 2 ^ 20) szs" "mm_caches (kh_mm kh) (kh_node_cache kh) \<noteq> None"
    "\<forall>n\<in>set (kh_list kh'). cn_cache n \<noteq> 0"
  shows "mm_inv h {} (kh_mm kh') \<and> nodes_ok (kh_mm kh') (kh_list kh') \<and>
    map cn_size (kh_list kh') = rev szs @ map cn_size (kh_list kh)"
  using assms
proof (induction szs arbitrary: kh)
  case (Cons sz szs)
  obtain kh1 where r: "CREATE_CACHE h sz kh = Some kh1" "create_caches h szs kh1 = Some kh'"
    using Cons.prems(3) by (auto simp: bind_eq_Some_conv)
  obtain k where k: "mm_caches (kh_mm kh) (kh_node_cache kh) = Some k"
    using Cons.prems(5) by auto
  have "set (kh_list kh1) \<subseteq> set (kh_list kh')"
    using create_caches_list [OF r(2)] by auto
  then have "cn_cache (hd (kh_list kh1)) \<noteq> 0"
    using CREATE_CACHE_list [OF r(1)] Cons.prems(6) by auto
  then have c: "mm_inv h {} (kh_mm kh1)" "nodes_ok (kh_mm kh1) (kh_list kh1)"
    "map cn_size (kh_list kh1) = sz # map cn_size (kh_list kh)" "kh_node_cache kh1 = kh_node_cache kh"
    "caches_kept (kh_mm kh) (kh_mm kh1)"
    using CREATE_CACHE_ok [OF Cons.prems(1,2) r(1) _ k] Cons.prems(4) by auto
  have "mm_caches (kh_mm kh1) (kh_node_cache kh1) \<noteq> None"
    using c(4,5) k by (auto simp: caches_kept_def)
  then show ?case
    using Cons.IH [OF c(1,2) r(2)] Cons.prems(4,6) c(3) by simp
qed simp

text \<open>
  When the page allocator could serve every header of \<^verbatim>\<open>kmalloc_init\<close>, the heap it leaves is
  well formed. (\<^verbatim>\<open>kmalloc_init\<close> does not test the results of \<^verbatim>\<open>kmemcache_create\<close>: a cache that
  could not be created stays on the list as a null pointer.)
\<close>

lemma kmalloc_init_ok:
  assumes inv: "mm_inv h {} (kh_mm kh)" and run: "kmalloc_init h kh = Some kh'"
    and ok: "\<forall>n\<in>set (kh_list kh'). cn_cache n \<noteq> 0"
  shows "heap_inv h kh'"
proof -
  obtain nc mm kh1 where r: "kmemcache_create h kmalloc_node_name sizeof_cache_node (kh_mm kh) = Some (nc, mm)"
    "create_caches h KMALLOC_SIZES (kh\<lparr>kh_mm := mm, kh_list := [], kh_node_cache := nc\<rparr>) = Some kh1"
    "kh' = kh1\<lparr>kh_initialized := True\<rparr>"
    using run by (auto simp: kmalloc_init_def bind_eq_Some_conv split: prod.splits)
  let ?kh = "kh\<lparr>kh_mm := mm, kh_list := [], kh_node_cache := nc\<rparr>"
  have none: "mm_caches (kh_mm kh) 0 = None"
    using mm_invD(5) [OF inv owned_cache] by (fastforce simp: own_ok_def)
  have "nc \<noteq> 0"
  proof
    assume "nc = 0"
    then have "mm = kh_mm kh"
      using kmemcache_create_ok [OF inv, of sizeof_cache_node kmalloc_node_name] r(1) by auto
    then have "CREATE_CACHE h 8 ?kh = None"
      using none \<open>nc = 0\<close> by (simp add: CREATE_CACHE_def kmemcache_alloc_def slab_pick_def)
    then show False
      using r(2) by (simp add: KMALLOC_SIZES_def)
  qed
  then have m: "mm_inv h {} mm" "mm_caches mm nc \<noteq> None"
    using kmemcache_create_ok [OF inv, of sizeof_cache_node kmalloc_node_name] r(1) by auto
  have "list_all (\<lambda>sz. unat sz \<le> 2 ^ 20) KMALLOC_SIZES"
    by (simp add: KMALLOC_SIZES_def)
  then have "mm_inv h {} (kh_mm kh1) \<and> nodes_ok (kh_mm kh1) (kh_list kh1) \<and> map cn_size (kh_list kh1) = rev KMALLOC_SIZES"
    using create_caches_ok [OF _ _ r(2)] m ok r(3) by (simp add: nodes_ok_def)
  then show ?thesis
    using r(3) by (simp add: heap_inv_def)
qed

section \<open>What a heap promises to its clients\<close>

datatype heap_op = Alloc u64 | Free vaddr

locale kernel_heap =
  fixes inv :: "'s \<Rightarrow> bool"
    and ptrs :: "'s \<Rightarrow> vaddr set"
    and alloc :: "u64 \<Rightarrow> 's \<Rightarrow> (vaddr \<times> 's) option"
    and release :: "vaddr \<Rightarrow> 's \<Rightarrow> 's option"
    and limit :: u64
  assumes alloc_law: "inv s \<Longrightarrow> n \<le> limit \<Longrightarrow>
      alloc n s = Some (0, s) \<or>
      (\<exists>p s'. alloc n s = Some (p, s') \<and> p \<noteq> 0 \<and> inv s' \<and> p \<notin> ptrs s \<and> ptrs s' = insert p (ptrs s))"
    and release_law: "inv s \<Longrightarrow> p \<in> ptrs s \<Longrightarrow> \<exists>s'. release p s = Some s' \<and> inv s' \<and> ptrs s' = ptrs s - {p}"
begin

text \<open>The states a client can reach by allocating within the limit and freeing what it holds.\<close>

inductive reach :: "'s \<Rightarrow> 's \<Rightarrow> bool" where
  start: "reach s s"
| alloc: "reach s t \<Longrightarrow> n \<le> limit \<Longrightarrow> alloc n t = Some (p, u) \<Longrightarrow> reach s u"
| free: "reach s t \<Longrightarrow> p \<in> ptrs t \<Longrightarrow> release p t = Some u \<Longrightarrow> reach s u"

lemma reach_inv: "reach s t \<Longrightarrow> inv s \<Longrightarrow> inv t"
proof (induction rule: reach.induct)
  case (alloc s t n p u)
  then show ?case using alloc_law [of t n] by auto
next
  case (free s t p u)
  then show ?case using release_law [of t p] by auto
qed simp

lemma never_faults:
  assumes "inv s" "reach s t"
  shows "n \<le> limit \<Longrightarrow> alloc n t \<noteq> None" "p \<in> ptrs t \<Longrightarrow> release p t \<noteq> None"
  using alloc_law [OF reach_inv [OF assms(2,1)]] release_law [OF reach_inv [OF assms(2,1)]] by fastforce+

lemma alloc_then_free:
  assumes "inv s" "n \<le> limit" "alloc n s = Some (p, s')" "p \<noteq> 0"
  shows "\<exists>s''. release p s' = Some s'' \<and> inv s'' \<and> ptrs s'' = ptrs s"
proof -
  have a: "inv s'" "p \<notin> ptrs s" "ptrs s' = insert p (ptrs s)"
    using alloc_law [OF assms(1,2)] assms(3,4) by auto
  then show ?thesis
    using release_law [of s' p] by auto
qed

end

lemma kmalloc_law:
  assumes "heap_inv h kh" "n \<le> 131072"
  shows "kmalloc h n kh = Some (0, kh) \<or>
    (\<exists>p kh'. kmalloc h n kh = Some (p, kh') \<and> p \<noteq> 0 \<and> heap_inv h kh' \<and> p \<notin> allocated kh \<and>
      allocated kh' = insert p (allocated kh))"
  using kmalloc_ok [OF assms] by blast

interpretation heap: kernel_heap "heap_inv h" allocated "kmalloc h" "kfree h" 131072 for h
  by unfold_locales (rule kmalloc_law kfree_ok; assumption)+

section \<open>What the kernel heap promises\<close>

text \<open>A heap right after its initialisation: fifteen empty caches, five free pages.\<close>

definition demo_h :: u64 where "demo_h = 0xFFFF800000000000"

definition demo_cache :: "u64 \<times> nat \<Rightarrow> kmem_cache" where
  "demo_cache x = \<lparr>kc_name = [], kc_object_size = fst x, kc_real_object_size = 16 + fst x, kc_align = 8, kc_in_use = 0,
     kc_free_slab_count = 0, kc_objects_per_slab = 1, kc_order = snd x, kc_full = [], kc_partial = [], kc_free = []\<rparr>"

definition demo_orders :: "(u64 \<times> nat) list" where
  "demo_orders = zip KMALLOC_SIZES [0, 0, 0, 0, 0, 0, 0, 0, 0, 1, 2, 3, 4, 5, 6]"

definition demo_pages :: buddy_allocator where
  "demo_pages = \<lparr>b_pages = replicate 15 \<lparr>bp_order = 0, bp_flags = PAGE_ALLOCATED\<rparr> @ replicate 5 \<lparr>bp_order = 0, bp_flags = PAGE_FREE\<rparr>,
     b_page_count = 20, b_areas = replicate (Suc MAX_ORDER) \<lparr>ba_list = [], ba_count = 0\<rparr>\<rparr>"

definition demo_heap :: kheap where
  "demo_heap = \<lparr>kh_mm = \<lparr>mm_buddy = the (group_free demo_pages 0),
       mm_caches = map_of (zip (map (addr_of demo_h) [0..<15]) (map demo_cache demo_orders)),
       mm_slabs = (\<lambda>_. None), mm_owner = (\<lambda>_. None)\<rparr>,
     kh_initialized = True,
     kh_list = rev (map (\<lambda>(c, sz). \<lparr>cn_cache = c, cn_size = sz\<rparr>) (zip (map (addr_of demo_h) [0..<15]) KMALLOC_SIZES)),
     kh_node_cache = 0\<rparr>"

lemma demo_buddy_pages: "buddy_ok demo_h (mm_buddy (kh_mm demo_heap))"
  "length (b_pages (mm_buddy (kh_mm demo_heap))) = 20" "free_pages (mm_buddy (kh_mm demo_heap)) \<inter> {0..<15} = {}"
  and demo_buddy_free_eq: "free_pages (mm_buddy (kh_mm demo_heap)) = free_pages demo_pages"
proof -
  have bl: "blocks demo_pages = {}"
    by (auto simp: blocks_def demo_pages_def simp del: replicate_Suc)
  have "lists_ok demo_pages" "covered demo_pages = {j \<in> free_pages demo_pages. j < 0}"
    unfolding lists_ok_def covered_def bl by (simp_all add: demo_pages_def del: replicate_Suc)
  then obtain b' where b': "group_free demo_pages 0 = Some b'" "buddy_inv b'"
    "free_pages b' = free_pages demo_pages" "length (b_pages b') = length (b_pages demo_pages)"
    using group_free_ok by blast
  have eq: "mm_buddy (kh_mm demo_heap) = b'"
    unfolding demo_heap_def b'(1) by simp
  have len: "length (b_pages b') = 20"
    unfolding b'(4) by (simp add: demo_pages_def)
  show "length (b_pages (mm_buddy (kh_mm demo_heap))) = 20" "buddy_ok demo_h (mm_buddy (kh_mm demo_heap))"
    unfolding eq buddy_ok_def len using b'(2) by (simp_all add: demo_h_def)
  have "j \<notin> free_pages demo_pages" if "j < 15" for j
    using that by (simp add: free_pages_def demo_pages_def nth_append PAGE_FREE_def PAGE_ALLOCATED_def)
  then show "free_pages (mm_buddy (kh_mm demo_heap)) \<inter> {0..<15} = {}"
    unfolding eq b'(3) by auto
  show "free_pages (mm_buddy (kh_mm demo_heap)) = free_pages demo_pages"
    unfolding eq b'(3) ..
qed

lemma demo_free_page: "15 \<in> free_pages (mm_buddy (kh_mm demo_heap))"
proof -
  have "15 \<in> free_pages demo_pages"
    by (simp add: free_pages_def demo_pages_def nth_append)
  then show ?thesis
    by (simp add: demo_buddy_free_eq)
qed

lemma demo_addr: "p < 15 \<Longrightarrow> page_of demo_h (addr_of demo_h p) = p \<and> addr_of demo_h p \<noteq> 0"
  unfolding addr_of_def using page_of_vaddr [of p 15 demo_h] by (simp add: demo_h_def)

lemma demo_caches_dom:
  assumes "mm_caches (kh_mm demo_heap) c = Some k"
  shows "\<exists>p<15. c = addr_of demo_h p" "\<exists>x\<in>set demo_orders. k = demo_cache x"
proof -
  have "(c, k) \<in> set (zip (map (addr_of demo_h) [0..<15]) (map demo_cache demo_orders))"
    using assms unfolding demo_heap_def by (simp add: map_of_SomeD)
  then have "c \<in> set (map (addr_of demo_h) [0..<15])" "k \<in> set (map demo_cache demo_orders)"
    by (auto dest: set_zip_leftD set_zip_rightD simp del: upt_rec_numeral)
  then show "\<exists>p<15. c = addr_of demo_h p" "\<exists>x\<in>set demo_orders. k = demo_cache x"
    by (auto simp del: upt_rec_numeral)
qed

lemma demo_cache_wf: "x \<in> set demo_orders \<Longrightarrow> cache_wf (demo_cache x)"
  by (auto simp: demo_orders_def KMALLOC_SIZES_def demo_cache_def cache_wf_def slab_bytes_def)

lemma demo_mm_inv: "mm_inv demo_h {} (kh_mm demo_heap)"
proof -
  let ?st = "kh_mm demo_heap"
  have cs: "cache_slabs (demo_cache x) = []" for x
    by (simp add: cache_slabs_def demo_cache_def)
  have own: "\<exists>p<15. x = (True, addr_of demo_h p, 0)" if x: "x \<in> owned ?st" for x
  proof -
    obtain c where "x \<in> cache_blocks c (mm_caches ?st c)"
      using x unfolding owned_def by blast
    then obtain k where k: "mm_caches ?st c = Some k" "x \<in> cache_blocks c (Some k)"
      by (cases "mm_caches ?st c") (simp_all add: cache_blocks_def)
    then show ?thesis
      using demo_caches_dom [OF k(1)] cs by (auto simp: cache_blocks_def)
  qed
  have pg: "pages_of demo_h (addr_of demo_h p, 0) = {p}" if "p < 15" for p
    using demo_addr [OF that] by (auto simp: pages_of_def)
  have "own_ok demo_h (mm_buddy ?st) (snd x)" if "x \<in> owned ?st" for x
    using own [OF that] demo_addr pg demo_buddy_pages(2,3) by (auto simp: own_ok_def)
  moreover have "pages_of demo_h (snd x) \<inter> pages_of demo_h (snd y) = {}" if "x \<in> owned ?st" "y \<in> owned ?st" "x \<noteq> y" for x y
    using own [OF that(1)] own [OF that(2)] that(3) pg by auto
  moreover have "cache_wf k \<and> lists_inv {} (mm_slabs ?st) (mm_owner ?st) c k" if "mm_caches ?st c = Some k" for c k
    using demo_caches_dom(2) [OF that] demo_cache_wf cs by (auto simp: lists_inv_def) (simp_all add: demo_cache_def)
  moreover have "4096 dvd unat demo_h"
    by (simp add: demo_h_def)
  ultimately show ?thesis
    unfolding mm_inv_def using demo_buddy_pages(1) by blast
qed

lemma demo_heap_inv: "heap_inv demo_h demo_heap"
proof -
  have upt: "[0..<15] = [0, 1, 2, 3, 4, 5, 6, 7, 8, 9, 10, 11, 12, 13, 14 :: nat]"
    by code_simp
  have "map cn_size (kh_list demo_heap) = rev KMALLOC_SIZES"
    by (simp add: demo_heap_def KMALLOC_SIZES_def upt)
  moreover have "nodes_ok (kh_mm demo_heap) (kh_list demo_heap)"
    by (simp add: nodes_ok_def demo_heap_def KMALLOC_SIZES_def demo_orders_def upt addr_of_def demo_h_def demo_cache_def)
  ultimately show ?thesis
    using demo_mm_inv by (simp add: heap_inv_def) (simp add: demo_heap_def)
qed

lemma usable_disjoint:
  assumes "heap_inv h kh" and "p \<in> allocated kh" "q \<in> allocated kh" "p \<noteq> q"
  shows "usable kh p \<inter> usable kh q = {}"
proof -
  obtain a b where a: "a \<in> live (kh_mm kh)" "p = a + sizeof_slab_obj" and b: "b \<in> live (kh_mm kh)" "q = b + sizeof_slab_obj"
    using assms(2,3) by (auto simp: allocated_def)
  have "a \<noteq> b" using assms(4) a(2) b(2) by auto
  moreover have "mm_inv h {} (kh_mm kh)"
    using assms(1) by (simp add: heap_inv_def)
  ultimately show ?thesis
    using live_extents_disjoint [OF _ a(1) b(1)] by (simp add: usable_def a(2) b(2))
qed

text \<open>
  Property C5. \<^verbatim>\<open>kmalloc\<close> of at most 131072 bytes never faults. Either no free block of pages can hold
  a slab of the serving cache, and the result is NULL with nothing changed; or the result is a new
  pointer, not handed out before, with at least the requested number of usable bytes, none of which
  belongs to any other pointer in use, and the heap stays well formed.
\<close>

theorem kmalloc_total:
  assumes "heap_inv h kh" and "sz \<le> 131072"
  shows "kmalloc h sz kh = Some (0, kh) \<and> exhausted sz kh \<or>
    (\<exists>p kh'. kmalloc h sz kh = Some (p, kh') \<and> p \<noteq> 0 \<and> heap_inv h kh' \<and> p \<notin> allocated kh \<and>
      allocated kh' = insert p (allocated kh) \<and> {unat p..<unat p + unat sz} \<subseteq> usable kh' p \<and>
      (\<forall>q\<in>allocated kh. usable kh' p \<inter> usable kh' q = {}))"
  using kmalloc_ok [OF assms]
proof (elim disjE exE conjE)
  fix p kh'
  assume a: "kmalloc h sz kh = Some (p, kh')" "p \<noteq> 0" "heap_inv h kh'" "p \<notin> allocated kh"
    "allocated kh' = insert p (allocated kh)" "{unat p..<unat p + unat sz} \<subseteq> usable kh' p"
  then have "\<forall>q\<in>allocated kh. usable kh' p \<inter> usable kh' q = {}"
    using usable_disjoint [OF a(3), of p] by (metis insert_iff)
  then show ?thesis using a by blast
qed blast

theorem kmalloc_total_witness:
  "heap_inv demo_h demo_heap \<and> kmalloc demo_h 100 demo_heap \<noteq> None"
  using kmalloc_total [OF demo_heap_inv, of 100] demo_heap_inv by auto

text \<open>
  A request above the largest cache stops the machine instead of returning NULL.
\<close>

theorem kmalloc_oversize_panics:
  assumes "heap_inv h kh" and "131072 < sz"
  shows "kmalloc h sz kh = None"
proof -
  have "best_fit sz (kh_list kh) = None"
  proof (cases "best_fit sz (kh_list kh)")
    case (Some b)
    then have "b \<in> set (kh_list kh)" "sz \<le> cn_size b"
      using best_fit_spec [where sz = sz and nodes = "kh_list kh"] by simp_all
    then show ?thesis
      using heap_size_max [OF assms(1)] assms(2) by fastforce
  qed
  then show ?thesis
    using assms(1) by (simp add: kmalloc_def heap_inv_def)
qed

theorem kmalloc_oversize_panics_witness: "kmalloc demo_h 131073 demo_heap = None"
  using kmalloc_oversize_panics [OF demo_heap_inv, of 131073] by simp

lemma demo_not_exhausted: "\<not> exhausted 8 demo_heap"
proof
  assume "exhausted 8 demo_heap"
  then obtain n k where n: "best_fit 8 (kh_list demo_heap) = Some n" "mm_caches (kh_mm demo_heap) (cn_cache n) = Some k"
    "\<forall>(p, i)\<in>blocks (mm_buddy (kh_mm demo_heap)). i < kc_order k"
    unfolding exhausted_def by blast
  have upt: "[0..<15] = [0, 1, 2, 3, 4, 5, 6, 7, 8, 9, 10, 11, 12, 13, 14 :: nat]"
    by code_simp
  have bf: "best_fit 8 (kh_list demo_heap) = Some \<lparr>cn_cache = addr_of demo_h 0, cn_size = 8\<rparr>"
    by (simp add: best_fit_def better_def demo_heap_def KMALLOC_SIZES_def upt)
  have "mm_caches (kh_mm demo_heap) (addr_of demo_h 0) = Some (demo_cache (8, 0))"
    by (simp add: demo_heap_def upt demo_orders_def KMALLOC_SIZES_def)
  then have "kc_order k = 0"
    using n(1,2) unfolding bf by (auto simp: demo_cache_def)
  then have "blocks (mm_buddy (kh_mm demo_heap)) = {}"
    using n(3) by auto
  moreover have "buddy_inv (mm_buddy (kh_mm demo_heap))"
    using demo_buddy_pages(1) by (simp add: buddy_ok_def)
  ultimately have "free_pages (mm_buddy (kh_mm demo_heap)) = {}"
    by (simp add: buddy_inv_def covered_def)
  then show False
    using demo_free_page by simp
qed

lemma demo_alloc8: "\<exists>p kh'. kmalloc demo_h 8 demo_heap = Some (p, kh') \<and> p \<noteq> 0"
  using kmalloc_ok [OF demo_heap_inv, of 8] demo_not_exhausted by auto

text \<open>
  \<^verbatim>\<open>kfree\<close> of a pointer \<^verbatim>\<open>kmalloc\<close> returned never faults and leaves exactly the
  pointers that were in use before the allocation; in particular the object can be handed out again.
\<close>

theorem kmalloc_kfree_roundtrip:
  assumes "heap_inv h kh" "sz \<le> 131072" "kmalloc h sz kh = Some (p, kh')" "p \<noteq> 0"
  shows "\<exists>kh''. kfree h p kh' = Some kh'' \<and> heap_inv h kh'' \<and> allocated kh'' = allocated kh"
  by (rule heap.alloc_then_free [OF assms])

theorem kmalloc_kfree_roundtrip_witness:
  "\<exists>p kh' kh''. kmalloc demo_h 8 demo_heap = Some (p, kh') \<and> p \<noteq> 0 \<and> kfree demo_h p kh' = Some kh'' \<and>
     allocated kh'' = allocated demo_heap"
proof -
  obtain p kh' where p: "kmalloc demo_h 8 demo_heap = Some (p, kh')" "p \<noteq> 0"
    using demo_alloc8 by blast
  then show ?thesis
    using kmalloc_kfree_roundtrip [OF demo_heap_inv _ p] by auto
qed



end
