(* ===== verification/Blk_Dev.thy ===== *)
theory Blk_Dev
  imports Lizard_Prelude
begin

text \<open>
  The block layer of \<^verbatim>\<open>src/lizard/blk_dev.c\<close>: devices with their operation tables, the
  write-through sector cache, and partitions as offsets into their parent. The operation table
  of a device is a record of functions on the hardware state \<open>'h\<close>, as the code calls drivers
  through \<^verbatim>\<open>dev->ops\<close>; a driver call returns its code, the bytes it put in the buffer and the
  new hardware state. The locale \<open>block_driver\<close> is the contract between the layer and a driver.
\<close>

section \<open>blk_dev.h\<close>

datatype blkdev_type = BLKDEV_TYPE_PHYSICAL | BLKDEV_TYPE_PARTITION

record 'h block_dev_ops =
  op_read :: "(u64 \<Rightarrow> nat \<Rightarrow> 'h \<Rightarrow> int \<times> u8 list \<times> 'h) option"
  op_write :: "(u64 \<Rightarrow> u8 list \<Rightarrow> nat \<Rightarrow> 'h \<Rightarrow> int \<times> 'h) option"

text \<open>\<open>bd_ptr\<close> is the address of the structure, which the cache compares; the cnters and the
  flush and ioctl operations are never used.\<close>

record 'h block_dev =
  bd_ptr :: vaddr
  bd_name :: "u8 list"
  bd_id :: u32
  bd_type :: blkdev_type
  bd_total_sectors :: u64
  bd_sector_size :: u32
  bd_ops :: "'h block_dev_ops option"
  bd_initialized :: bool
  bd_read_only :: bool
  bd_present :: bool
  bd_parent :: vaddr
  bd_children :: "vaddr list"

record partition_private =
  pp_start_lba :: u64
  pp_sec_count :: u64

section \<open>blk_dev.c\<close>

definition BCACHE_LINES :: nat where "BCACHE_LINES = 64"
definition BCACHE_SECTOR_SIZE :: nat where "BCACHE_SECTOR_SIZE = 512"

record bcache_line =
  bl_dev :: vaddr
  bl_sector :: u64
  bl_lru :: u64
  bl_valid :: bool
  bl_data :: "u8 list"

text \<open>The state of the block layer: the array of lines, the clock and the hardware.\<close>

record 'h blk =
  bcache :: "bcache_line list"
  bcache_clock :: u64
  hw :: 'h

definition bcache_eligible :: "'h block_dev \<Rightarrow> nat \<Rightarrow> bool" where
  "bcache_eligible dev cnt \<longleftrightarrow> cnt = 1 \<and> (bd_sector_size dev = 0 \<or> bd_sector_size dev = of_nat BCACHE_SECTOR_SIZE)"

definition line_hit :: "vaddr \<Rightarrow> u64 \<Rightarrow> bcache_line \<Rightarrow> bool" where
  "line_hit dev sector l \<longleftrightarrow> bl_valid l \<and> bl_dev l = dev \<and> bl_sector l = sector"

primrec find_line :: "(bcache_line \<Rightarrow> bool) \<Rightarrow> nat \<Rightarrow> bcache_line list \<Rightarrow> nat option" where
  "find_line P i [] = None"
| "find_line P i (l # ls) = (if P l then Some i else find_line P (Suc i) ls)"

definition bcache_find :: "'h block_dev \<Rightarrow> u64 \<Rightarrow> 'h blk \<Rightarrow> nat option" where
  "bcache_find dev sector st = find_line (line_hit (bd_ptr dev) sector) 0 (bcache st)"

text \<open>The victim scan from line \<open>i\<close> on, with the candidate \<open>v\<close> so far: the first invalid line after
  line 0, otherwise the least recently used one.\<close>

fun victim_scan :: "bcache_line list \<Rightarrow> nat \<Rightarrow> nat \<Rightarrow> bcache_line list \<Rightarrow> nat" where
  "victim_scan ls v i [] = v"
| "victim_scan ls v i (l # rest) =
     (if \<not> bl_valid l then i
      else victim_scan ls (if bl_lru l < bl_lru (ls ! v) then i else v) (Suc i) rest)"

definition bcache_victim :: "'h blk \<Rightarrow> nat" where
  "bcache_victim st = victim_scan (bcache st) 0 1 (tl (bcache st))"

definition bcache_store :: "'h block_dev \<Rightarrow> u64 \<Rightarrow> u8 list \<Rightarrow> 'h blk \<Rightarrow> 'h blk" where
  "bcache_store dev sector data st =
     (let i = (case bcache_find dev sector st of Some i \<Rightarrow> i | None \<Rightarrow> bcache_victim st);
          clock = bcache_clock st + 1
      in st\<lparr>bcache := (bcache st)[i := \<lparr>bl_dev = bd_ptr dev, bl_sector = sector, bl_lru = clock, bl_valid = True,
                                          bl_data = take BCACHE_SECTOR_SIZE data\<rparr>],
            bcache_clock := clock\<rparr>)"

definition bcache_invalidate_range :: "'h block_dev \<Rightarrow> u64 \<Rightarrow> nat \<Rightarrow> 'h blk \<Rightarrow> 'h blk" where
  "bcache_invalidate_range dev sector cnt st =
     st\<lparr>bcache := map (\<lambda>l. if bl_valid l \<and> bl_dev l = bd_ptr dev \<and> bl_sector l \<ge> sector \<and>
                             bl_sector l < sector + of_nat cnt
                          then l\<lparr>bl_valid := False\<rparr> else l) (bcache st)\<rparr>"

definition blk_dev_read :: "'h block_dev \<Rightarrow> u64 \<Rightarrow> nat \<Rightarrow> 'h blk \<Rightarrow> int \<times> u8 list \<times> 'h blk" where
  "blk_dev_read dev sector cnt st =
     (case bd_ops dev of None \<Rightarrow> (-1, [], st)
      | Some ops \<Rightarrow>
        (case op_read ops of None \<Rightarrow> (-1, [], st)
         | Some rd \<Rightarrow>
           if \<not> bcache_eligible dev cnt
           then (case rd sector cnt (hw st) of (r, data, h) \<Rightarrow> (r, data, st\<lparr>hw := h\<rparr>))
           else (case bcache_find dev sector st of
                   Some i \<Rightarrow>
                     (let clock = bcache_clock st + 1
                      in (0, bl_data (bcache st ! i),
                          st\<lparr>bcache := (bcache st)[i := (bcache st ! i)\<lparr>bl_lru := clock\<rparr>], bcache_clock := clock\<rparr>))
                 | None \<Rightarrow>
                     (case rd sector cnt (hw st) of (r, data, h) \<Rightarrow>
                        if r \<noteq> 0 then (-1, data, st\<lparr>hw := h\<rparr>)
                        else (0, data, bcache_store dev sector data (st\<lparr>hw := h\<rparr>))))))"

definition blk_dev_write :: "'h block_dev \<Rightarrow> u64 \<Rightarrow> u8 list \<Rightarrow> nat \<Rightarrow> 'h blk \<Rightarrow> int \<times> 'h blk" where
  "blk_dev_write dev sector data cnt st =
     (case bd_ops dev of None \<Rightarrow> (-1, st)
      | Some ops \<Rightarrow>
        (case op_write ops of None \<Rightarrow> (-1, st)
         | Some wr \<Rightarrow>
           (case wr sector data cnt (hw st) of (r, h) \<Rightarrow>
              if r \<noteq> 0 then (-1, st\<lparr>hw := h\<rparr>)
              else if bcache_eligible dev cnt
              then (0, bcache_store dev sector data (st\<lparr>hw := h\<rparr>))
              else (0, bcache_invalidate_range dev sector cnt (st\<lparr>hw := h\<rparr>)))))"

text \<open>A partition reaches its sectors through the operations of its parent, past the cache. The first
  argument is \<^verbatim>\<open>parent->ops->read\<close> (or \<^verbatim>\<open>write\<close>), which exists for every registered device; the guard
  on the partition's own table cannot fire, since the function is called through that table.\<close>

definition blk_dev_part_read ::
  "(u64 \<Rightarrow> nat \<Rightarrow> 'h \<Rightarrow> int \<times> u8 list \<times> 'h) \<Rightarrow> partition_private \<Rightarrow> u64 \<Rightarrow> nat \<Rightarrow> 'h \<Rightarrow> int \<times> u8 list \<times> 'h" where
  "blk_dev_part_read parent_read part sector cnt h = parent_read (sector + pp_start_lba part) cnt h"

definition blk_dev_part_write ::
  "(u64 \<Rightarrow> u8 list \<Rightarrow> nat \<Rightarrow> 'h \<Rightarrow> int \<times> 'h) \<Rightarrow> partition_private \<Rightarrow> u64 \<Rightarrow> u8 list \<Rightarrow> nat \<Rightarrow> 'h \<Rightarrow> int \<times> 'h" where
  "blk_dev_part_write parent_write part sector data cnt h = parent_write (sector + pp_start_lba part) data cnt h"

section \<open>The cache array\<close>

lemma find_line_None: "find_line P i ls = None \<longleftrightarrow> (\<forall>l\<in>set ls. \<not> P l)"
  by (induction ls arbitrary: i) auto

lemma find_line_Some: "find_line P i ls = Some k \<Longrightarrow> i \<le> k \<and> k < i + length ls \<and> P (ls ! (k - i))"
proof (induction ls arbitrary: i)
  case (Cons l ls)
  show ?case
  proof (cases "P l")
    case False
    then have "Suc i \<le> k \<and> k < Suc i + length ls \<and> P (ls ! (k - Suc i))"
      using Cons.IH [of "Suc i"] Cons.prems by simp
    then show ?thesis
      by (auto simp: nth_Cons' not_less_eq_eq)
  qed (use Cons in auto)
qed simp

text \<open>At most one valid line caches a given sector of a given device.\<close>

definition uniq_lines :: "bcache_line list \<Rightarrow> bool" where
  "uniq_lines ls \<longleftrightarrow> (\<forall>d s i j. i < length ls \<longrightarrow> j < length ls \<longrightarrow> line_hit d s (ls ! i) \<longrightarrow> line_hit d s (ls ! j) \<longrightarrow> i = j)"

lemma uniq_linesD:
  "uniq_lines ls \<Longrightarrow> i < length ls \<Longrightarrow> j < length ls \<Longrightarrow> line_hit d s (ls ! i) \<Longrightarrow> line_hit d s (ls ! j) \<Longrightarrow> i = j"
  unfolding uniq_lines_def by blast

text \<open>The index that \<^verbatim>\<open>bcache_store\<close> overwrites is the only one that may hold the sector.\<close>

lemma store_index:
  assumes "uniq_lines (bcache st)" "j < length (bcache st)" "line_hit (bd_ptr dev) sector (bcache st ! j)"
  shows "(case bcache_find dev sector st of Some i \<Rightarrow> i | None \<Rightarrow> bcache_victim st) = j"
proof (cases "bcache_find dev sector st")
  case None
  then show ?thesis
    using assms(2,3) by (auto simp: bcache_find_def find_line_None)
next
  case (Some i)
  then show ?thesis
    using find_line_Some [of "line_hit (bd_ptr dev) sector" 0 "bcache st" i]
      uniq_linesD [OF assms(1) _ assms(2) _ assms(3), of i]
    by (simp add: bcache_find_def)
qed

lemma bcache_store_hw [simp]: "hw (bcache_store dev sector data st) = hw st"
  by (simp add: bcache_store_def Let_def)

lemma length_bcache_store [simp]: "length (bcache (bcache_store dev sector data st)) = length (bcache st)"
  by (simp add: bcache_store_def Let_def)

lemma bcache_store_nth:
  assumes "uniq_lines (bcache st)" "j < length (bcache st)"
  shows "bcache (bcache_store dev sector data st) ! j = bcache st ! j \<and> \<not> line_hit (bd_ptr dev) sector (bcache st ! j) \<or>
    bcache (bcache_store dev sector data st) ! j =
      \<lparr>bl_dev = bd_ptr dev, bl_sector = sector, bl_lru = bcache_clock st + 1, bl_valid = True,
       bl_data = take BCACHE_SECTOR_SIZE data\<rparr> \<and>
    (case bcache_find dev sector st of Some i \<Rightarrow> i | None \<Rightarrow> bcache_victim st) = j"
  using assms store_index [OF assms]
  by (auto simp: bcache_store_def Let_def nth_list_update_if)

lemma bcache_store_uniq:
  assumes u: "uniq_lines (bcache st)"
  shows "uniq_lines (bcache (bcache_store dev sector data st))"
  unfolding uniq_lines_def
proof (intro allI impI)
  fix d s i j
  assume a: "i < length (bcache (bcache_store dev sector data st))" "j < length (bcache (bcache_store dev sector data st))"
    "line_hit d s (bcache (bcache_store dev sector data st) ! i)" "line_hit d s (bcache (bcache_store dev sector data st) ! j)"
  let ?b = "bcache (bcache_store dev sector data st)"
  consider "?b ! i = bcache st ! i" "\<not> line_hit (bd_ptr dev) sector (bcache st ! i)"
    | "(case bcache_find dev sector st of Some i \<Rightarrow> i | None \<Rightarrow> bcache_victim st) = i" "line_hit (bd_ptr dev) sector (?b ! i)"
    using bcache_store_nth [OF u, of i dev sector data] a(1) by (auto simp: line_hit_def)
  note ci = this
  consider "?b ! j = bcache st ! j" "\<not> line_hit (bd_ptr dev) sector (bcache st ! j)"
    | "(case bcache_find dev sector st of Some i \<Rightarrow> i | None \<Rightarrow> bcache_victim st) = j" "line_hit (bd_ptr dev) sector (?b ! j)"
    using bcache_store_nth [OF u, of j dev sector data] a(2) by (auto simp: line_hit_def)
  note cj = this
  show "i = j"
  proof (cases rule: ci)
    case 1
    note i1 = this
    show ?thesis
    proof (cases rule: cj)
      case 1
      then show ?thesis using i1 a uniq_linesD [OF u, of i j d s] by simp
    next
      case 2
      then have "d = bd_ptr dev" "s = sector" using a(4) by (auto simp: line_hit_def)
      then show ?thesis using i1 a(3) by simp
    qed
  next
    case 2
    note i2 = this
    show ?thesis
    proof (cases rule: cj)
      case 1
      have "d = bd_ptr dev" "s = sector" using a(3) i2(2) by (auto simp: line_hit_def)
      then show ?thesis using 1 a(4) by simp
    next
      case 2
      then show ?thesis using i2 by simp
    qed
  qed
qed

lemma bcache_store_lines:
  assumes "uniq_lines (bcache st)" "l \<in> set (bcache (bcache_store dev sector data st))"
  shows "l \<in> set (bcache st) \<and> \<not> line_hit (bd_ptr dev) sector l \<or>
    bl_dev l = bd_ptr dev \<and> bl_sector l = sector \<and> bl_data l = take BCACHE_SECTOR_SIZE data"
proof -
  obtain j where "j < length (bcache st)" "l = bcache (bcache_store dev sector data st) ! j"
    using assms(2) by (auto simp: in_set_conv_nth)
  then show ?thesis
    using bcache_store_nth [OF assms(1), of j dev sector data] by auto
qed

lemma bcache_touch_uniq:
  assumes "uniq_lines ls" "i < length ls"
  shows "uniq_lines (ls[i := (ls ! i)\<lparr>bl_lru := c\<rparr>])"
  using assms unfolding uniq_lines_def line_hit_def by (auto simp: nth_list_update)

lemma bcache_invalidate_uniq:
  assumes "uniq_lines (bcache st)"
  shows "uniq_lines (bcache (bcache_invalidate_range dev sector cnt st))"
  using assms unfolding uniq_lines_def line_hit_def bcache_invalidate_range_def by (auto split: if_splits)

section \<open>The contract with a driver\<close>

text \<open>The sectors \<open>s\<close> to \<open>s + n - 1\<close> of a disk read as one buffer, and a disk after writing one.\<close>

definition disk_read :: "(u64 \<Rightarrow> u8 list) \<Rightarrow> u64 \<Rightarrow> nat \<Rightarrow> u8 list" where
  "disk_read f s n = concat (map (\<lambda>i. f (s + of_nat i)) [0..<n])"

definition disk_write :: "u64 \<Rightarrow> u8 list \<Rightarrow> nat \<Rightarrow> (u64 \<Rightarrow> u8 list) \<Rightarrow> u64 \<Rightarrow> u8 list" where
  "disk_write s data n f t =
     (if unat s \<le> unat t \<and> unat t < unat s + n then take 512 (drop ((unat t - unat s) * 512) data) else f t)"

lemma disk_read_1 [simp]: "disk_read f s (Suc 0) = f s"
  by (simp add: disk_read_def)

lemma disk_write_1 [simp]: "length data = 512 \<Longrightarrow> disk_write s data (Suc 0) f = f(s := data)"
  by (auto simp: disk_write_def fun_eq_iff less_Suc_eq_le simp flip: word_le_nat_alt)

lemma disk_read_Suc: "disk_read f s (Suc n) = f s @ disk_read f (s + 1) n"
proof -
  have "[0..<Suc n] = 0 # map Suc [0..<n]"
    by (simp add: map_Suc_upt upt_conv_Cons del: upt_Suc)
  then show ?thesis
    by (simp add: disk_read_def comp_def algebra_simps del: upt_Suc)
qed

lemma disk_read_0 [simp]: "disk_read f s 0 = []"
  by (simp add: disk_read_def)

lemma disk_write_0 [simp]: "disk_write s data 0 f = f"
  by (auto simp: disk_write_def fun_eq_iff)

lemma disk_write_Suc:
  assumes "unat s + Suc n < 2 ^ 64"
  shows "disk_write s data (Suc n) f = disk_write (s + 1) (drop 512 data) n (f(s := take 512 data))"
proof
  fix t
  have s1: "unat (s + 1) = unat s + 1"
    using unat_add_small [of s 1] assms by simp
  show "disk_write s data (Suc n) f t = disk_write (s + 1) (drop 512 data) n (f(s := take 512 data)) t"
  proof (cases "t = s")
    case True
    then show ?thesis by (simp add: disk_write_def s1)
  next
    case False
    then have "unat t \<noteq> unat s" by (metis word_unat_eq_iff)
    moreover have "(unat t - unat s) * 512 = (unat t - (unat s + 1)) * 512 + 512" if "unat s < unat t"
      using that by (simp add: diff_mult_distrib)
    ultimately show ?thesis
      using False by (auto simp: disk_write_def s1)
  qed
qed

text \<open>The cache is coherent for a device when its valid lines hold what the disk holds; a device is attached to a
  driver when its operation table holds the driver's functions.\<close>

definition blk_coherent :: "('h \<Rightarrow> u64 \<Rightarrow> u8 list) \<Rightarrow> ('h \<Rightarrow> bool) \<Rightarrow> nat \<Rightarrow> 'h block_dev \<Rightarrow> 'h blk \<Rightarrow> bool" where
  "blk_coherent content good nsec dev st \<longleftrightarrow> good (hw st) \<and> length (bcache st) = BCACHE_LINES \<and> uniq_lines (bcache st) \<and>
     (\<forall>l\<in>set (bcache st). bl_valid l \<longrightarrow> bl_dev l = bd_ptr dev \<longrightarrow>
        unat (bl_sector l) < nsec \<and> bl_data l = content (hw st) (bl_sector l))"

definition blk_attached ::
  "(u64 \<Rightarrow> nat \<Rightarrow> 'h \<Rightarrow> int \<times> u8 list \<times> 'h) \<Rightarrow> (u64 \<Rightarrow> u8 list \<Rightarrow> nat \<Rightarrow> 'h \<Rightarrow> int \<times> 'h) \<Rightarrow> 'h block_dev \<Rightarrow> bool" where
  "blk_attached rd wr dev \<longleftrightarrow> (\<exists>ops. bd_ops dev = Some ops \<and> op_read ops = Some rd \<and> op_write ops = Some wr)"

text \<open>What the layer relies on: a transfer inside the disk succeeds, returns the sectors it names, and a
  write changes exactly these.\<close>

locale block_driver =
  fixes rd :: "u64 \<Rightarrow> nat \<Rightarrow> 'h \<Rightarrow> int \<times> u8 list \<times> 'h"
    and wr :: "u64 \<Rightarrow> u8 list \<Rightarrow> nat \<Rightarrow> 'h \<Rightarrow> int \<times> 'h"
    and content :: "'h \<Rightarrow> u64 \<Rightarrow> u8 list"
    and good :: "'h \<Rightarrow> bool"
    and nsec :: nat
  assumes nsec_bound: "nsec < 2 ^ 64"
    and content_length: "good h \<Longrightarrow> unat s < nsec \<Longrightarrow> length (content h s) = 512"
    and read_ok: "good h \<Longrightarrow> unat s + n \<le> nsec \<Longrightarrow>
      \<exists>h'. rd s n h = (0, disk_read (content h) s n, h') \<and> good h' \<and> content h' = content h"
    and write_ok: "good h \<Longrightarrow> unat s + n \<le> nsec \<Longrightarrow> length data = n * 512 \<Longrightarrow>
      \<exists>h'. wr s data n h = (0, h') \<and> good h' \<and> content h' = disk_write s data n (content h)"
begin

abbreviation coherent :: "'h block_dev \<Rightarrow> 'h blk \<Rightarrow> bool" where
  "coherent \<equiv> blk_coherent content good nsec"

abbreviation attached :: "'h block_dev \<Rightarrow> bool" where
  "attached \<equiv> blk_attached rd wr"

lemma coherent_store:
  assumes c: "coherent dev st" and h: "good h'" and s: "unat sector < nsec"
    and data: "take 512 data = content h' sector"
    and other: "\<And>t. t \<noteq> sector \<Longrightarrow> content h' t = content (hw st) t"
  shows "coherent dev (bcache_store dev sector data (st\<lparr>hw := h'\<rparr>))"
proof -
  have u: "uniq_lines (bcache (st\<lparr>hw := h'\<rparr>))"
    using c by (simp add: blk_coherent_def)
  have "unat (bl_sector l) < nsec \<and> bl_data l = content h' (bl_sector l)"
    if l: "l \<in> set (bcache (bcache_store dev sector data (st\<lparr>hw := h'\<rparr>)))" "bl_valid l" "bl_dev l = bd_ptr dev" for l
    using bcache_store_lines [OF u l(1)] l(2,3) c s data other [of "bl_sector l"]
    by (auto simp: blk_coherent_def line_hit_def BCACHE_SECTOR_SIZE_def)
  then show ?thesis
    using c h bcache_store_uniq [OF u, of dev sector data] by (auto simp: blk_coherent_def)
qed

lemma blk_dev_read_ok:
  assumes c: "coherent dev st" and a: "attached dev" and n: "unat sector + cnt \<le> nsec"
  shows "\<exists>st'. blk_dev_read dev sector cnt st = (0, disk_read (content (hw st)) sector cnt, st') \<and>
    coherent dev st' \<and> content (hw st') = content (hw st)"
proof -
  have g: "good (hw st)" and u: "uniq_lines (bcache st)" using c by (simp_all add: blk_coherent_def)
  obtain ops where ops: "bd_ops dev = Some ops" "op_read ops = Some rd" using a by (auto simp: blk_attached_def)
  obtain h' where h': "rd sector cnt (hw st) = (0, disk_read (content (hw st)) sector cnt, h')" "good h'"
    "content h' = content (hw st)"
    using read_ok [OF g n] by blast
  show ?thesis
  proof (cases "bcache_eligible dev cnt")
    case False
    moreover have "coherent dev (st\<lparr>hw := h'\<rparr>)"
      using c h' by (simp add: blk_coherent_def)
    ultimately show ?thesis
      using ops h' by (simp add: blk_dev_read_def)
  next
    case True
    then have 1: "cnt = 1" by (simp add: bcache_eligible_def)
    show ?thesis
    proof (cases "bcache_find dev sector st")
      case None
      have "coherent dev (bcache_store dev sector (content (hw st) sector) (st\<lparr>hw := h'\<rparr>))"
        using n 1 content_length [OF g, of sector] h' by (intro coherent_store [OF c]) auto
      then show ?thesis
        using True None ops h' 1 by (simp add: blk_dev_read_def)
    next
      case (Some i)
      then have i: "i < length (bcache st)" "line_hit (bd_ptr dev) sector (bcache st ! i)"
        using find_line_Some [of _ 0 "bcache st" i] by (auto simp: bcache_find_def)
      let ?l = "(bcache st ! i)\<lparr>bl_lru := bcache_clock st + 1\<rparr>"
      have d: "bl_data (bcache st ! i) = content (hw st) sector" "unat (bl_sector (bcache st ! i)) < nsec"
        using c i by (auto simp: blk_coherent_def line_hit_def)
      have "coherent dev (st\<lparr>bcache := (bcache st)[i := ?l], bcache_clock := bcache_clock st + 1\<rparr>)"
        using c d i bcache_touch_uniq [OF u i(1)] set_update_subset_insert [of "bcache st" i ?l]
        by (auto simp: blk_coherent_def line_hit_def)
      then show ?thesis
        using True Some ops d 1 by (simp add: blk_dev_read_def Let_def)
    qed
  qed
qed

lemma disk_write_other: "\<not> (unat s \<le> unat t \<and> unat t < unat s + n) \<Longrightarrow> disk_write s data n f t = f t"
  unfolding disk_write_def by presburger

lemma blk_dev_write_ok:
  assumes c: "coherent dev st" and a: "attached dev" and n: "unat sector + cnt \<le> nsec" and len: "length data = cnt * 512"
  shows "\<exists>st'. blk_dev_write dev sector data cnt st = (0, st') \<and> coherent dev st' \<and>
    content (hw st') = disk_write sector data cnt (content (hw st))"
proof -
  have g: "good (hw st)" and u: "uniq_lines (bcache st)" using c by (simp_all add: blk_coherent_def)
  obtain ops where ops: "bd_ops dev = Some ops" "op_write ops = Some wr" using a by (auto simp: blk_attached_def)
  obtain h' where h': "wr sector data cnt (hw st) = (0, h')" "good h'"
    "content h' = disk_write sector data cnt (content (hw st))"
    using write_ok [OF g n len] by blast
  show ?thesis
  proof (cases "bcache_eligible dev cnt")
    case True
    then have 1: "cnt = 1" by (simp add: bcache_eligible_def)
    have "coherent dev (bcache_store dev sector data (st\<lparr>hw := h'\<rparr>))"
      using n 1 len h' by (intro coherent_store [OF c]) auto
    then show ?thesis
      using True ops h' by (simp add: blk_dev_write_def)
  next
    case False
    let ?st = "bcache_invalidate_range dev sector cnt (st\<lparr>hw := h'\<rparr>)"
    have e: "unat (sector + of_nat cnt) = unat sector + cnt"
      using n nsec_bound by (subst unat_add_small) (auto simp: unat_of_nat_small)
    have "unat (bl_sector l) < nsec \<and> bl_data l = content h' (bl_sector l)"
      if l: "l \<in> set (bcache ?st)" "bl_valid l" "bl_dev l = bd_ptr dev" for l
    proof -
      have "l \<in> set (bcache st)" "\<not> (unat sector \<le> unat (bl_sector l) \<and> unat (bl_sector l) < unat sector + cnt)"
        using l by (auto simp: bcache_invalidate_range_def word_le_nat_alt word_less_nat_alt e split: if_splits)
      then show ?thesis
        using c l(2,3) by (auto simp: blk_coherent_def h'(3) disk_write_other)
    qed
    moreover have "hw ?st = h'" "length (bcache ?st) = BCACHE_LINES" "uniq_lines (bcache ?st)"
      using c bcache_invalidate_uniq [of "st\<lparr>hw := h'\<rparr>" dev sector cnt] u
      by (simp_all add: blk_coherent_def bcache_invalidate_range_def)
    ultimately have "coherent dev ?st"
      using h'(2) unfolding blk_coherent_def by metis
    moreover have "content (hw ?st) = disk_write sector data cnt (content (hw st))"
      by (simp add: bcache_invalidate_range_def h'(3))
    ultimately show ?thesis
      using False ops h' by (simp add: blk_dev_write_def)
  qed
qed

end

section \<open>Partitions\<close>

text \<open>A partition inside its parent is again a driver that honours the contract, for its own sectors.\<close>

lemma disk_write_alt:
  assumes "unat s + n < 2 ^ 64"
  shows "disk_write s data n f t = (if unat (t - s) < n then take 512 (drop (unat (t - s) * 512) data) else f t)"
proof -
  have "unat s \<le> unat t \<and> unat t < unat s + n \<longleftrightarrow> unat (t - s) < n"
  proof (cases "unat s \<le> unat t")
    case True
    then show ?thesis by (simp add: unat_sub word_le_nat_alt) linarith
  next
    case False
    then have "unat (t - s) = unat t + 2 ^ 64 - unat s"
      by (simp add: unat_sub_if_size word_le_nat_alt word_size)
    then show ?thesis using False assms by simp
  qed
  then show ?thesis
    by (auto simp: disk_write_def unat_sub word_le_nat_alt)
qed

lemma block_driver_partition:
  assumes d: "block_driver rd wr content good nsec"
    and fit: "unat (pp_start_lba p) + unat (pp_sec_count p) \<le> nsec"
  shows "block_driver (blk_dev_part_read rd p) (blk_dev_part_write wr p) (\<lambda>h s. content h (s + pp_start_lba p)) good
    (unat (pp_sec_count p))"
proof -
  let ?b = "pp_start_lba p" and ?c = "unat (pp_sec_count p)"
  have n: "nsec < 2 ^ 64" using d by (rule block_driver.nsec_bound)
  have sec: "unat (s + ?b) = unat s + unat ?b" if "unat s + k \<le> ?c" for s k
    using that fit n by (intro unat_add_small) simp
  show ?thesis
  proof (unfold_locales, goal_cases)
    case 1
    then show ?case using fit n by linarith
  next
    case (2 h s)
    then show ?case
      using sec [of s 1] fit by (intro block_driver.content_length [OF d]) auto
  next
    case (3 h s k)
    have "unat (s + ?b) + k \<le> nsec"
      using sec [OF 3(2)] 3(2) fit by simp
    then obtain h' where "rd (s + ?b) k h = (0, disk_read (content h) (s + ?b) k, h')" "good h'" "content h' = content h"
      using block_driver.read_ok [OF d 3(1)] by blast
    then show ?case
      by (auto simp: blk_dev_part_read_def disk_read_def algebra_simps)
  next
    case (4 h s k data)
    have m: "unat (s + ?b) + k \<le> nsec"
      using sec [OF 4(2)] 4(2) fit by simp
    then obtain h' where "wr (s + ?b) data k h = (0, h')" "good h'" "content h' = disk_write (s + ?b) data k (content h)"
      using block_driver.write_ok [OF d 4(1) _ 4(3)] by blast
    moreover have "unat s + k < 2 ^ 64"
      using 4(2) fit n by linarith
    ultimately show ?case
      using m n by (auto simp: blk_dev_part_write_def disk_write_alt fun_eq_iff)
  qed
qed

section \<open>Requests against an uncached disk\<close>

datatype blk_req = Blk_Read u64 nat | Blk_Write u64 "u8 list" nat

definition req_ok :: "nat \<Rightarrow> blk_req \<Rightarrow> bool" where
  "req_ok nsec r = (case r of Blk_Read s n \<Rightarrow> unat s + n \<le> nsec
     | Blk_Write s data n \<Rightarrow> unat s + n \<le> nsec \<and> length data = n * 512)"

text \<open>The answers of the cached layer to a sequence of requests, and those of a plain array of sectors.\<close>

fun blk_run :: "'h block_dev \<Rightarrow> blk_req list \<Rightarrow> 'h blk \<Rightarrow> (int \<times> u8 list) list \<times> 'h blk" where
  "blk_run dev [] st = ([], st)"
| "blk_run dev (Blk_Read s n # rs) st =
     (let (r, data, st) = blk_dev_read dev s n st; (out, st) = blk_run dev rs st in ((r, data) # out, st))"
| "blk_run dev (Blk_Write s data n # rs) st =
     (let (r, st) = blk_dev_write dev s data n st; (out, st) = blk_run dev rs st in ((r, []) # out, st))"

fun disk_run :: "blk_req list \<Rightarrow> (u64 \<Rightarrow> u8 list) \<Rightarrow> (int \<times> u8 list) list \<times> (u64 \<Rightarrow> u8 list)" where
  "disk_run [] f = ([], f)"
| "disk_run (Blk_Read s n # rs) f = (let (out, g) = disk_run rs f in ((0, disk_read f s n) # out, g))"
| "disk_run (Blk_Write s data n # rs) f = (let (out, g) = disk_run rs (disk_write s data n f) in ((0, []) # out, g))"

context block_driver
begin

lemma blk_run_ok:
  assumes "coherent dev st" "attached dev" "\<forall>r\<in>set rs. req_ok nsec r"
  shows "\<exists>st'. blk_run dev rs st = (fst (disk_run rs (content (hw st))), st') \<and> coherent dev st' \<and>
    content (hw st') = snd (disk_run rs (content (hw st)))"
  using assms(1,3)
proof (induction rs arbitrary: st)
  case (Cons r rs)
  show ?case
  proof (cases r)
    case (Blk_Read s n)
    then have "unat s + n \<le> nsec" using Cons.prems(2) by (simp add: req_ok_def)
    then obtain st1 where st1: "blk_dev_read dev s n st = (0, disk_read (content (hw st)) s n, st1)" "coherent dev st1"
      "content (hw st1) = content (hw st)"
      using blk_dev_read_ok [OF Cons.prems(1) assms(2)] by blast
    then show ?thesis
      using Cons.IH [OF st1(2)] Cons.prems(2) Blk_Read by (auto split: prod.splits)
  next
    case (Blk_Write s data n)
    then have "unat s + n \<le> nsec" "length data = n * 512" using Cons.prems(2) by (simp_all add: req_ok_def)
    then obtain st1 where st1: "blk_dev_write dev s data n st = (0, st1)" "coherent dev st1"
      "content (hw st1) = disk_write s data n (content (hw st))"
      using blk_dev_write_ok [OF Cons.prems(1) assms(2)] by blast
    then show ?thesis
      using Cons.IH [OF st1(2)] Cons.prems(2) Blk_Write by (auto split: prod.splits)
  qed
qed simp

end

text \<open>Property C7. The write-through cache is transparent: on a device whose driver honours the contract, any
  sequence of reads and writes inside the disk, of one sector or of many, is answered exactly as a plain array of
  sectors answers it, and leaves the same sectors on the disk; the cache stays coherent.\<close>

theorem blk_refines_disk:
  assumes d: "block_driver rd wr content good nsec" and a: "blk_attached rd wr dev"
    and c: "blk_coherent content good nsec dev st" and rs: "list_all (req_ok nsec) rs"
  shows "fst (blk_run dev rs st) = fst (disk_run rs (content (hw st))) \<and>
    content (hw (snd (blk_run dev rs st))) = snd (disk_run rs (content (hw st))) \<and>
    blk_coherent content good nsec dev (snd (blk_run dev rs st))"
proof -
  have "\<forall>r\<in>set rs. req_ok nsec r" using rs by (simp add: list_all_iff)
  then show ?thesis
    using block_driver.blk_run_ok [OF d c a] by fastforce
qed

text \<open>A disk kept in memory, to run the layer on.\<close>

definition ram_read :: "nat \<Rightarrow> u64 \<Rightarrow> nat \<Rightarrow> (u64 \<Rightarrow> u8 list) \<Rightarrow> int \<times> u8 list \<times> (u64 \<Rightarrow> u8 list)" where
  "ram_read nsec s n h = (if unat s + n \<le> nsec then (0, disk_read h s n, h) else (-1, [], h))"

definition ram_write :: "nat \<Rightarrow> u64 \<Rightarrow> u8 list \<Rightarrow> nat \<Rightarrow> (u64 \<Rightarrow> u8 list) \<Rightarrow> int \<times> (u64 \<Rightarrow> u8 list)" where
  "ram_write nsec s data n h = (if unat s + n \<le> nsec then (0, disk_write s data n h) else (-1, h))"

abbreviation ram_good :: "nat \<Rightarrow> (u64 \<Rightarrow> u8 list) \<Rightarrow> bool" where
  "ram_good nsec h \<equiv> \<forall>s. unat s < nsec \<longrightarrow> length (h s) = 512"

lemma ram_driver: "nsec < 2 ^ 64 \<Longrightarrow> block_driver (ram_read nsec) (ram_write nsec) (\<lambda>h. h) (ram_good nsec) nsec"
proof (unfold_locales, goal_cases)
  case (4 h s n data)
  have "length (disk_write s data n h t) = 512" if "unat t < nsec" for t
  proof (cases "unat s \<le> unat t \<and> unat t < unat s + n")
    case True
    then have "512 \<le> length data - (unat t - unat s) * 512"
      using 4(4) True by (simp flip: diff_mult_distrib) linarith
    then show ?thesis using True by (simp add: disk_write_def)
  qed (use that 4(2) in \<open>auto simp: disk_write_def\<close>)
  then show ?case using 4(3) by (simp add: ram_write_def)
qed (auto simp: ram_read_def)

definition ram_dev :: "nat \<Rightarrow> (u64 \<Rightarrow> u8 list) block_dev" where
  "ram_dev nsec = \<lparr>bd_ptr = 4096, bd_name = [], bd_id = 0, bd_type = BLKDEV_TYPE_PHYSICAL,
     bd_total_sectors = of_nat nsec, bd_sector_size = 512,
     bd_ops = Some \<lparr>op_read = Some (ram_read nsec), op_write = Some (ram_write nsec)\<rparr>,
     bd_initialized = True, bd_read_only = False, bd_present = True, bd_parent = 0, bd_children = []\<rparr>"

text \<open>The cache as it is at boot, all zero.\<close>

definition blk_boot :: "'h \<Rightarrow> 'h blk" where
  "blk_boot h = \<lparr>bcache = replicate BCACHE_LINES \<lparr>bl_dev = 0, bl_sector = 0, bl_lru = 0, bl_valid = False,
     bl_data = replicate BCACHE_SECTOR_SIZE 0\<rparr>, bcache_clock = 0, hw = h\<rparr>"

lemma blk_boot_coherent: "good h \<Longrightarrow> blk_coherent content good nsec dev (blk_boot h)"
  by (simp add: blk_coherent_def blk_boot_def uniq_lines_def line_hit_def)

lemma ram_attached: "blk_attached (ram_read nsec) (ram_write nsec) (ram_dev nsec)"
  by (simp add: blk_attached_def ram_dev_def)

theorem blk_refines_disk_witness:
  "fst (blk_run (ram_dev 4) [Blk_Read 1 1, Blk_Write 1 (replicate 512 7) 1, Blk_Read 1 1] (blk_boot (\<lambda>_. replicate 512 0))) =
    [(0, replicate 512 0), (0, []), (0, replicate 512 7)]"
  using blk_refines_disk [OF ram_driver [of 4] ram_attached blk_boot_coherent,
      of "\<lambda>_. replicate 512 0" "[Blk_Read 1 1, Blk_Write 1 (replicate 512 7) 1, Blk_Read 1 1]"]
  by (simp add: req_ok_def blk_boot_def)

text \<open>Reading and writing a partition is safe for the partition, but its parent's lines are not told: after the
  parent has cached a sector, a write to that sector through the partition leaves the old bytes in the cache, and
  the parent goes on reading them.\<close>

definition ram_part :: "nat \<Rightarrow> partition_private \<Rightarrow> (u64 \<Rightarrow> u8 list) block_dev" where
  "ram_part nsec p = (ram_dev nsec)\<lparr>bd_ptr := 8192, bd_type := BLKDEV_TYPE_PARTITION, bd_parent := 4096,
     bd_ops := Some \<lparr>op_read = Some (blk_dev_part_read (ram_read nsec) p), op_write = Some (blk_dev_part_write (ram_write nsec) p)\<rparr>\<rparr>"

lemma replicate_lines: "replicate BCACHE_LINES z = z # z # z # replicate 61 z"
  by (simp add: BCACHE_LINES_def flip: replicate_Suc)

lemma find_line_replicate: "\<not> P z \<Longrightarrow> find_line P i (replicate n z) = None"
  by (simp add: find_line_None)

lemma partition_write_stale:
  "let part = ram_part 4 \<lparr>pp_start_lba = 1, pp_sec_count = 2\<rparr>;
       (_, before, st) = blk_dev_read (ram_dev 4) 2 1 (blk_boot (\<lambda>_. [0]));
       (_, st) = blk_dev_write part 1 [7] 1 st;
       (_, after, st) = blk_dev_read (ram_dev 4) 2 1 st
   in before = [0] \<and> after = [0] \<and> hw st 2 = [7]"
  by (simp add: blk_boot_def replicate_lines blk_dev_read_def blk_dev_write_def ram_dev_def ram_part_def bcache_eligible_def
      bcache_find_def find_line_replicate line_hit_def bcache_store_def bcache_victim_def ram_read_def ram_write_def
      blk_dev_part_write_def BCACHE_SECTOR_SIZE_def disk_write_def Let_def)

end
