(* ===== verification/Blkdev_Manager.thy ===== *)
theory Blkdev_Manager
  imports Blk_Dev Kmalloc
begin

text \<open>
  The registry of block devices of \<^verbatim>\<open>src/lizard/blkdev_manager.c\<close> and the partition scan of
  \<^verbatim>\<open>src/lizard/mbr.c\<close>. Device structures live at addresses of the kernel heap; \<open>bm_devs\<close> maps an address to
  its structure and \<open>blk_devs\<close> is the list of registered addresses, last registered first. A name is the text
  before the terminator of the \<^verbatim>\<open>name\<close> array, so \<^verbatim>\<open>strcmp\<close> on names is equality. Messages are not modelled.
  \<open>None\<close> is a fault: a null-pointer access or a store outside an array.
\<close>

section \<open>blkdev_manager.c\<close>

definition MAX_BLKDEVS :: nat where "MAX_BLKDEVS = 16"
definition DEFAULT_NAME_SIZE :: nat where "DEFAULT_NAME_SIZE = 32"

record 'h blkdev_manager =
  bm_blk :: "'h blk"
  bm_heap :: "kheap \<times> bmem"
  blk_devs :: "vaddr list"
  bm_devs :: "vaddr \<rightharpoonup> 'h block_dev"
  blkdev_id_bitmap :: "u8 list"

primrec alloc_id_loop :: "nat \<Rightarrow> nat \<Rightarrow> u8 list \<Rightarrow> u32 \<times> u8 list" where
  "alloc_id_loop i 0 bits = (-1, bits)"
| "alloc_id_loop i (Suc n) bits =
     (if bits ! (i div 8) AND push_bit (i mod 8) 1 = 0
      then (of_nat i, bits[i div 8 := bits ! (i div 8) OR push_bit (i mod 8) 1])
      else alloc_id_loop (Suc i) n bits)"

definition blkdev_alloc_id :: "u8 list \<Rightarrow> u32 \<times> u8 list" where
  "blkdev_alloc_id bits = alloc_id_loop 0 MAX_BLKDEVS bits"

definition blkdev_free_id :: "u32 \<Rightarrow> u8 list \<Rightarrow> u8 list option" where
  "blkdev_free_id i bits =
     (let byte = unat i div 8; bit = unat i mod 8
      in if byte \<ge> length bits then None
         else Some (bits[byte := bits ! byte AND NOT (push_bit bit 1)]))"

text \<open>The names of the registered devices, read through their addresses.\<close>

primrec name_taken :: "(vaddr \<rightharpoonup> 'h block_dev) \<Rightarrow> u8 list \<Rightarrow> vaddr list \<Rightarrow> bool option" where
  "name_taken devs name [] = Some False"
| "name_taken devs name (d # ds) =
     (case devs d of None \<Rightarrow> None
      | Some cur \<Rightarrow> if bd_name cur = name then Some True else name_taken devs name ds)"

text \<open>Registration, with the scan that follows the registration of a physical device as an argument: a
  partition is registered by the scan itself and is not scanned again.\<close>

definition manager_add_with ::
  "('h block_dev \<Rightarrow> 'h blkdev_manager \<Rightarrow> 'h blkdev_manager option) \<Rightarrow> vaddr \<Rightarrow> 'h blkdev_manager \<Rightarrow>
   (int \<times> 'h blkdev_manager) option" where
  "manager_add_with scan d bm =
     (if d = 0 then Some (-1, bm)
      else do { dev \<leftarrow> bm_devs bm d;
        case bd_ops dev of None \<Rightarrow> Some (-1, bm)
        | Some ops \<Rightarrow>
          if op_read ops = None \<or> op_write ops = None then Some (-1, bm)
          else do { taken \<leftarrow> name_taken (bm_devs bm) (bd_name dev) (blk_devs bm);
            if taken then Some (-1, bm)
            else let (i, bits) = blkdev_alloc_id (blkdev_id_bitmap bm); dev = dev\<lparr>bd_id := i\<rparr>;
                     bm = bm\<lparr>blkdev_id_bitmap := bits, bm_devs := (bm_devs bm)(d \<mapsto> dev), blk_devs := d # blk_devs bm\<rparr>
                 in if bd_type dev = BLKDEV_TYPE_PHYSICAL
                    then do { bm \<leftarrow> scan dev bm; Some (0, bm) }
                    else Some (0, bm) } })"

definition blkdev_manager_remove :: "u32 \<Rightarrow> 'h blkdev_manager \<Rightarrow> 'h blkdev_manager option" where
  "blkdev_manager_remove i bm =
     do { bits \<leftarrow> blkdev_free_id i (blkdev_id_bitmap bm); Some (bm\<lparr>blkdev_id_bitmap := bits\<rparr>) }"

definition blkdev_manager_get :: "u32 \<Rightarrow> 'h blkdev_manager \<Rightarrow> vaddr" where
  "blkdev_manager_get i bm =
     (case find (\<lambda>d. map_option bd_id (bm_devs bm d) = Some i) (blk_devs bm) of Some d \<Rightarrow> d | None \<Rightarrow> 0)"

definition blkdev_manager_get_by_name :: "u8 list \<Rightarrow> 'h blkdev_manager \<Rightarrow> vaddr" where
  "blkdev_manager_get_by_name name bm =
     (case find (\<lambda>d. map_option bd_name (bm_devs bm d) = Some name) (blk_devs bm) of Some d \<Rightarrow> d | None \<Rightarrow> 0)"

abbreviation sizeof_block_dev :: u64 where "sizeof_block_dev \<equiv> 160"
abbreviation sizeof_block_dev_ops :: u64 where "sizeof_block_dev_ops \<equiv> 32"
abbreviation sizeof_partition_private :: u64 where "sizeof_partition_private \<equiv> 16"

text \<open>The name of a partition: the formats are \<^verbatim>\<open>%s%c%d\<close>, with the letter \<open>p\<close>, after a digit and
  \<^verbatim>\<open>%s%d\<close> otherwise.\<close>

definition partition_name :: "u8 list \<Rightarrow> u32 \<Rightarrow> u8 list option" where
  "partition_name name part_num =
     do { text \<leftarrow> (if name \<noteq> [] \<and> last name \<ge> 48 \<and> last name \<le> 57
                   then sprintf [37, 115, 37, 99, 37, 100] [Va_string name, Va_int 112, Va_int part_num]
                   else sprintf [37, 115, 37, 100] [Va_string name, Va_int part_num]);
          if length text < DEFAULT_NAME_SIZE then Some text else None }"

definition blkdev_register_partition ::
  "u64 \<Rightarrow> vaddr \<Rightarrow> u32 \<Rightarrow> u64 \<Rightarrow> u64 \<Rightarrow> 'h blkdev_manager \<Rightarrow> (int \<times> 'h blkdev_manager) option" where
  "blkdev_register_partition hhdm parent part_num start secs bm =
     do { (part, heap) \<leftarrow> zalloc hhdm sizeof_block_dev (bm_heap bm);
          (ops, heap) \<leftarrow> zalloc hhdm sizeof_block_dev_ops heap;
          if ops = 0 then None
          else do { pdev \<leftarrow> bm_devs bm parent;
            name \<leftarrow> partition_name (bd_name pdev) part_num;
            (priv, heap) \<leftarrow> zalloc hhdm sizeof_partition_private heap;
            if part = 0 \<or> priv = 0 then None
            else do { pops \<leftarrow> bd_ops pdev; prd \<leftarrow> op_read pops; pwr \<leftarrow> op_write pops;
              let info = \<lparr>pp_start_lba = start, pp_sec_count = secs\<rparr>;
                  dev = \<lparr>bd_ptr = part, bd_name = name, bd_id = 0, bd_type = BLKDEV_TYPE_PARTITION,
                         bd_total_sectors = secs, bd_sector_size = bd_sector_size pdev,
                         bd_ops = Some \<lparr>op_read = Some (blk_dev_part_read prd info), op_write = Some (blk_dev_part_write pwr info)\<rparr>,
                         bd_initialized = True, bd_read_only = False, bd_present = True,
                         bd_parent = parent, bd_children = []\<rparr>;
                  bm = bm\<lparr>bm_heap := heap,
                          bm_devs := (bm_devs bm)(parent \<mapsto> pdev\<lparr>bd_children := bd_children pdev @ [part]\<rparr>, part \<mapsto> dev)\<rparr>
              in do { (_, bm) \<leftarrow> manager_add_with (\<lambda>_. Some) part bm; Some (0, bm) } } } }"

section \<open>mbr.h and mbr.c\<close>

definition MBR_PARTITION_COUNT :: nat where "MBR_PARTITION_COUNT = 4"
definition MBR_SIGNATURE :: u16 where "MBR_SIGNATURE = 0xAA55"
definition MBRYPE_EMPTY :: u8 where "MBRYPE_EMPTY = 0"
definition MBRYPE_GPT_PROTECTIVE :: u8 where "MBRYPE_GPT_PROTECTIVE = 0xEE"
definition MBR_PARTITION_ACTIVE :: u8 where "MBR_PARTITION_ACTIVE = 0x80"

record mbr_partition_entry =
  mp_status :: u8
  mp_type :: u8
  mp_lba_first :: u32
  mp_sector_count :: u32

record mbr_header =
  mbr_partitions :: "mbr_partition_entry list"
  mbr_signature :: u16

text \<open>The packed structure as it lies in the 512 bytes of the sector.\<close>

definition mbr_entry_of :: "u8 list \<Rightarrow> nat \<Rightarrow> mbr_partition_entry" where
  "mbr_entry_of b i = (let o' = 446 + 16 * i in
     \<lparr>mp_status = b ! o', mp_type = b ! (o' + 4),
      mp_lba_first = le32 (b ! (o' + 8)) (b ! (o' + 9)) (b ! (o' + 10)) (b ! (o' + 11)),
      mp_sector_count = le32 (b ! (o' + 12)) (b ! (o' + 13)) (b ! (o' + 14)) (b ! (o' + 15))\<rparr>)"

definition mbr_of :: "u8 list \<Rightarrow> mbr_header" where
  "mbr_of b = \<lparr>mbr_partitions = map (mbr_entry_of b) [0..<MBR_PARTITION_COUNT], mbr_signature = le16 (b ! 510) (b ! 511)\<rparr>"

definition mbr_is_valid :: "mbr_header \<Rightarrow> bool" where
  "mbr_is_valid m \<longleftrightarrow> mbr_signature m = MBR_SIGNATURE"

definition mbr_partition_is_used :: "mbr_partition_entry \<Rightarrow> bool" where
  "mbr_partition_is_used p \<longleftrightarrow> mp_type p \<noteq> MBRYPE_EMPTY \<and> mp_sector_count p \<noteq> 0"

definition mbr_partition_is_active :: "mbr_partition_entry \<Rightarrow> bool" where
  "mbr_partition_is_active p \<longleftrightarrow> mp_status p = MBR_PARTITION_ACTIVE"

definition mbr_read :: "'h block_dev \<Rightarrow> 'h blk \<Rightarrow> int \<times> u8 list \<times> 'h blk" where
  "mbr_read dev st = blk_dev_read dev 0 1 st"

definition mbr_write :: "'h block_dev \<Rightarrow> u8 list \<Rightarrow> 'h blk \<Rightarrow> int \<times> 'h blk" where
  "mbr_write dev mbr st = blk_dev_write dev 0 mbr 1 st"

fun mbr_scan_loop ::
  "u64 \<Rightarrow> 'h block_dev \<Rightarrow> nat \<Rightarrow> mbr_partition_entry list \<Rightarrow> int \<Rightarrow> 'h blkdev_manager \<Rightarrow>
   (int \<times> 'h blkdev_manager) option" where
  "mbr_scan_loop hhdm dev i [] registered bm = Some (registered, bm)"
| "mbr_scan_loop hhdm dev i (p # ps) registered bm =
     (if \<not> mbr_partition_is_used p then mbr_scan_loop hhdm dev (Suc i) ps registered bm
      else if mp_type p = MBRYPE_GPT_PROTECTIVE then Some (0, bm)
      else let start = ucast (mp_lba_first p) :: u64; secs = ucast (mp_sector_count p) :: u64
           in if secs = 0 then mbr_scan_loop hhdm dev (Suc i) ps registered bm
              else if start + secs > bd_total_sectors dev then mbr_scan_loop hhdm dev (Suc i) ps registered bm
              else do { (r, bm) \<leftarrow> blkdev_register_partition hhdm (bd_ptr dev) (of_nat i) start secs bm;
                        mbr_scan_loop hhdm dev (Suc i) ps (if r = 0 then registered + 1 else registered) bm })"

definition mbr_scan :: "u64 \<Rightarrow> 'h block_dev \<Rightarrow> 'h blkdev_manager \<Rightarrow> (int \<times> 'h blkdev_manager) option" where
  "mbr_scan hhdm dev bm =
     (case mbr_read dev (bm_blk bm) of (r, b, st) \<Rightarrow>
        let bm = bm\<lparr>bm_blk := st\<rparr>
        in if r = -1 then Some (-1, bm)
           else if \<not> mbr_is_valid (mbr_of b) then Some (0, bm)
           else mbr_scan_loop hhdm dev 0 (mbr_partitions (mbr_of b)) 0 bm)"

definition blkdev_manager_add :: "u64 \<Rightarrow> vaddr \<Rightarrow> 'h blkdev_manager \<Rightarrow> (int \<times> 'h blkdev_manager) option" where
  "blkdev_manager_add hhdm d bm =
     manager_add_with (\<lambda>dev bm. map_option snd (mbr_scan hhdm dev bm)) d bm"

section \<open>Device numbers\<close>

text \<open>The numbers in use, read off the bitmap.\<close>

definition used_ids :: "u8 list \<Rightarrow> nat set" where
  "used_ids bits = {i. i < 8 * length bits \<and> bit (bits ! (i div 8)) (i mod 8)}"

lemma alloc_id_loop_spec:
  assumes "i + n \<le> 8 * length bits"
  shows "alloc_id_loop i n bits =
    (if \<forall>j. i \<le> j \<and> j < i + n \<longrightarrow> j \<in> used_ids bits then (-1, bits)
     else let k = (LEAST k. i \<le> k \<and> k \<notin> used_ids bits)
          in (of_nat k, bits[k div 8 := bits ! (k div 8) OR push_bit (k mod 8) 1]))"
  using assms
proof (induction n arbitrary: i)
  case (Suc n)
  show ?case
  proof (cases "i \<in> used_ids bits")
    case True
    then have "bits ! (i div 8) AND push_bit (i mod 8) 1 \<noteq> 0"
      by (simp add: and_exp_eq_0_iff_not_bit used_ids_def)
    moreover have "(i \<le> k \<and> k \<notin> used_ids bits) = (Suc i \<le> k \<and> k \<notin> used_ids bits)" for k
      using True by (metis Suc_le_eq Suc_leD le_neq_implies_less)
    moreover have "(\<forall>j. i \<le> j \<and> j < i + Suc n \<longrightarrow> j \<in> used_ids bits) = (\<forall>j. Suc i \<le> j \<and> j < Suc i + n \<longrightarrow> j \<in> used_ids bits)"
      using True by (metis Suc_le_eq Suc_leD add_Suc_right add_Suc_shift le_neq_implies_less)
    ultimately show ?thesis
      using Suc.IH [of "Suc i"] Suc.prems by simp blast
  next
    case False
    then have "bits ! (i div 8) AND push_bit (i mod 8) 1 = 0"
      using Suc.prems by (auto simp: and_exp_eq_0_iff_not_bit used_ids_def)
    moreover have "(LEAST k. i \<le> k \<and> k \<notin> used_ids bits) = i"
      using False by (intro Least_equality) auto
    moreover have "\<not> (\<forall>j. i \<le> j \<and> j < i + Suc n \<longrightarrow> j \<in> used_ids bits)"
      using False by (auto intro!: exI [of _ i])
    ultimately show ?thesis
      by (simp add: Let_def) blast
  qed
qed auto

lemma used_ids_set:
  assumes "k < 8 * length bits"
  shows "used_ids (bits[k div 8 := bits ! (k div 8) OR push_bit (k mod 8) 1]) = insert k (used_ids bits)"
proof -
  have k8: "k div 8 < length bits" using assms by linarith
  have "bit (bits[k div 8 := bits ! (k div 8) OR push_bit (k mod 8) 1] ! (i div 8)) (i mod 8) \<longleftrightarrow>
        i = k \<or> bit (bits ! (i div 8)) (i mod 8)" for i
    using k8 div_mod_decomp [of i 8] div_mod_decomp [of k 8]
    by (auto simp: nth_list_update_if bit_or_iff bit_exp_iff) (metis div_mult_mod_eq)
  then show ?thesis
    using assms by (auto simp: used_ids_def)
qed

lemma free_set_bit:
  assumes "k < 8 * length bits" "k \<notin> used_ids bits"
  shows "bits[k div 8 := bits ! (k div 8) OR push_bit (k mod 8) 1, k div 8 :=
      (bits[k div 8 := bits ! (k div 8) OR push_bit (k mod 8) 1] ! (k div 8)) AND NOT (push_bit (k mod 8) 1)] = bits"
proof -
  have k8: "k div 8 < length bits" "\<not> bit (bits ! (k div 8)) (k mod 8)"
    using assms by (auto simp: used_ids_def)
  then have "(bits ! (k div 8) OR push_bit (k mod 8) 1) AND NOT (push_bit (k mod 8) 1) = bits ! (k div 8)"
    by (intro bit_word_eqI) (auto simp: bit_simps)
  then show ?thesis
    using k8 by simp
qed

text \<open>\<^verbatim>\<open>blkdev_alloc_id\<close> hands out the smallest free number and marks it, and only it, as used; freeing it
  restores the bitmap. With all sixteen numbers used it returns \<open>-1\<close>, which the caller stores as an ordinary
  number.\<close>

theorem blkdev_alloc_id_spec:
  assumes len: "length bits = 2"
  shows "case blkdev_alloc_id bits of (i, bits') \<Rightarrow>
    if used_ids bits = {0..<MAX_BLKDEVS} then i = - 1 \<and> bits' = bits
    else unat i = (LEAST k. k \<notin> used_ids bits) \<and> unat i < MAX_BLKDEVS \<and>
      used_ids bits' = insert (unat i) (used_ids bits) \<and> blkdev_free_id i bits' = Some bits"
proof (cases "used_ids bits = {0..<MAX_BLKDEVS}")
  case True
  then show ?thesis
    using alloc_id_loop_spec [of 0 MAX_BLKDEVS bits] len by (simp add: blkdev_alloc_id_def MAX_BLKDEVS_def)
next
  case False
  let ?k = "LEAST k. k \<notin> used_ids bits"
  have sub: "used_ids bits \<subseteq> {0..<16}" using len by (auto simp: used_ids_def)
  have "\<not> {0..<16} \<subseteq> used_ids bits"
    using False sub unfolding MAX_BLKDEVS_def by (metis subset_antisym)
  then obtain j where j: "j < 16" "j \<notin> used_ids bits"
    by (meson atLeastLessThan_iff subsetI)
  then have k: "?k \<notin> used_ids bits" "?k < 16"
    using LeastI [of "\<lambda>k. k \<notin> used_ids bits" j] Least_le [of "\<lambda>k. k \<notin> used_ids bits" j] by linarith+
  then have u: "unat (of_nat ?k :: u32) = ?k"
    by (intro unat_of_nat_small) simp
  have "blkdev_alloc_id bits = (of_nat ?k, bits[?k div 8 := bits ! (?k div 8) OR push_bit (?k mod 8) 1])"
    using alloc_id_loop_spec [of 0 MAX_BLKDEVS bits] len j by (auto simp: blkdev_alloc_id_def MAX_BLKDEVS_def Let_def)
  moreover have "?k div 8 < 2" using k(2) by linarith
  ultimately show ?thesis
    using False k u len used_ids_set [of ?k bits] free_set_bit [of ?k bits]
    by (simp add: blkdev_free_id_def Let_def MAX_BLKDEVS_def del: push_bit_of_1)
qed

theorem blkdev_alloc_id_spec_witness:
  "length [7, 0 :: u8] = 2 \<and> (case blkdev_alloc_id [7, 0] of (i, bits') \<Rightarrow>
    if used_ids [7, 0] = {0..<MAX_BLKDEVS} then i = - 1 \<and> bits' = [7, 0]
    else unat i = (LEAST k. k \<notin> used_ids [7, 0]) \<and> unat i < MAX_BLKDEVS \<and>
      used_ids bits' = insert (unat i) (used_ids [7, 0]) \<and> blkdev_free_id i bits' = Some [7, 0])"
  using blkdev_alloc_id_spec [of "[7, 0]"] by simp

section \<open>The registry\<close>

text \<open>Device structures are objects of the heap, registered devices exist, and their names are distinct.\<close>

definition dev_names :: "'h blkdev_manager \<Rightarrow> u8 list list" where
  "dev_names bm = map (\<lambda>d. bd_name (the (bm_devs bm d))) (blk_devs bm)"

definition bm_inv :: "u64 \<Rightarrow> 'h blkdev_manager \<Rightarrow> bool" where
  "bm_inv hhdm bm \<longleftrightarrow> heap_inv hhdm (fst (bm_heap bm)) \<and> dom (bm_devs bm) \<subseteq> allocated (fst (bm_heap bm)) \<and>
     set (blk_devs bm) \<subseteq> dom (bm_devs bm) \<and> distinct (dev_names bm)"

lemma name_taken_ok:
  "set ds \<subseteq> dom devs \<Longrightarrow> name_taken devs name ds = Some (name \<in> (\<lambda>d. bd_name (the (devs d))) ` set ds)"
  by (induction ds) (auto split: option.splits)

lemma zalloc_ok:
  assumes "heap_inv h (fst hp)" "sz \<le> 131072" "zalloc h sz hp = Some (p, hp')"
  shows "heap_inv h (fst hp')" "allocated (fst hp) \<subseteq> allocated (fst hp')"
    "p \<noteq> 0 \<Longrightarrow> p \<notin> allocated (fst hp) \<and> p \<in> allocated (fst hp')"
  using kmalloc_ok [OF assms(1,2)] assms(3) assms(1) unfolding zalloc_def
  by (auto split: if_splits simp: case_prod_beta)

text \<open>Registering a partition: nothing happens to the registered devices but the parent's list of children, and
  at most one new device appears, whose operations are the parent's, shifted.\<close>

definition partition_dev ::
  "(u64 \<Rightarrow> nat \<Rightarrow> 'h \<Rightarrow> int \<times> u8 list \<times> 'h) \<Rightarrow> (u64 \<Rightarrow> u8 list \<Rightarrow> nat \<Rightarrow> 'h \<Rightarrow> int \<times> 'h) \<Rightarrow> partition_private \<Rightarrow>
   'h block_dev \<Rightarrow> bool" where
  "partition_dev rd wr info dev \<longleftrightarrow> bd_type dev = BLKDEV_TYPE_PARTITION \<and> bd_total_sectors dev = pp_sec_count info \<and>
     bd_ops dev = Some \<lparr>op_read = Some (blk_dev_part_read rd info), op_write = Some (blk_dev_part_write wr info)\<rparr>"

definition same_dev :: "'h block_dev \<Rightarrow> 'h block_dev \<Rightarrow> bool" where
  "same_dev a b \<longleftrightarrow> a\<lparr>bd_children := []\<rparr> = b\<lparr>bd_children := []\<rparr>"

definition devs_kept :: "'h blkdev_manager \<Rightarrow> 'h blkdev_manager \<Rightarrow> bool" where
  "devs_kept bm bm' \<longleftrightarrow> (\<forall>d dev. bm_devs bm d = Some dev \<longrightarrow> (\<exists>dev'. bm_devs bm' d = Some dev' \<and> same_dev dev' dev))"

lemma same_devD: "same_dev a b \<Longrightarrow> bd_name a = bd_name b \<and> bd_ops a = bd_ops b \<and> bd_type a = bd_type b \<and>
    bd_total_sectors a = bd_total_sectors b"
  by (cases a; cases b) (simp add: same_dev_def)

lemma devs_kept_refl: "devs_kept bm bm"
  by (simp add: devs_kept_def same_dev_def)

lemma devs_kept_trans: "devs_kept a b \<Longrightarrow> devs_kept b c \<Longrightarrow> devs_kept a c"
  unfolding devs_kept_def same_dev_def by metis

lemma register_partition_ok:
  fixes bm :: "'h blkdev_manager"
  assumes inv: "bm_inv h bm" and par: "bm_devs bm parent = Some pdev" "bd_ops pdev = Some \<lparr>op_read = Some rd, op_write = Some wr\<rparr>"
    and run: "blkdev_register_partition h parent n start secs bm = Some (r, bm')"
  shows "bm_inv h bm' \<and> devs_kept bm bm' \<and> bm_blk bm' = bm_blk bm \<and>
    (blk_devs bm' = blk_devs bm \<or>
     (\<exists>part dev. blk_devs bm' = part # blk_devs bm \<and> bm_devs bm' part = Some dev \<and>
        partition_dev rd wr \<lparr>pp_start_lba = start, pp_sec_count = secs\<rparr> dev))"
proof -
  obtain part h1 ops h2 name priv h3 where z: "zalloc h sizeof_block_dev (bm_heap bm) = Some (part, h1)"
      "zalloc h sizeof_block_dev_ops h1 = Some (ops, h2)" "zalloc h sizeof_partition_private h2 = Some (priv, h3)"
      "partition_name (bd_name pdev) n = Some name" "part \<noteq> 0"
    using run par by (auto simp: blkdev_register_partition_def Let_def split: if_splits bind_splits)
  have hi: "heap_inv h (fst (bm_heap bm))" and dm: "dom (bm_devs bm) \<subseteq> allocated (fst (bm_heap bm))"
    and reg: "set (blk_devs bm) \<subseteq> dom (bm_devs bm)" and dn: "distinct (dev_names bm)"
    using inv by (simp_all add: bm_inv_def)
  note z1 = zalloc_ok [OF hi _ z(1)] and z2 = zalloc_ok [OF _ _ z(2)] and z3 = zalloc_ok [OF _ _ z(3)]
  have heap: "heap_inv h (fst h3)" "allocated (fst (bm_heap bm)) \<subseteq> allocated (fst h3)" "part \<in> allocated (fst h3)"
    "part \<notin> allocated (fst (bm_heap bm))"
    using z1 z2 z3 z(5) by auto
  have fresh: "bm_devs bm part = None" "part \<noteq> parent" "part \<notin> set (blk_devs bm)"
    using heap(4) dm reg par(1) by auto
  let ?info = "\<lparr>pp_start_lba = start, pp_sec_count = secs\<rparr>"
  let ?dev = "\<lparr>bd_ptr = part, bd_name = name, bd_id = 0, bd_type = BLKDEV_TYPE_PARTITION,
     bd_total_sectors = secs, bd_sector_size = bd_sector_size pdev,
     bd_ops = Some \<lparr>op_read = Some (blk_dev_part_read rd ?info), op_write = Some (blk_dev_part_write wr ?info)\<rparr>,
     bd_initialized = True, bd_read_only = False, bd_present = True, bd_parent = parent, bd_children = []\<rparr>"
  let ?devs = "(bm_devs bm)(parent \<mapsto> pdev\<lparr>bd_children := bd_children pdev @ [part]\<rparr>, part \<mapsto> ?dev)"
  let ?bm = "bm\<lparr>bm_heap := h3, bm_devs := ?devs\<rparr>"
  have names: "bd_name (the (?devs d)) = bd_name (the (bm_devs bm d))" if "d \<in> set (blk_devs bm)" for d
    using that fresh par(1) by auto
  have inv1: "bm_inv h ?bm"
    using heap dm reg dn names fresh par(1) by (auto simp: bm_inv_def dev_names_def cong: map_cong)
  have kept1: "devs_kept bm ?bm"
    using fresh par(1) by (auto simp: devs_kept_def same_dev_def)
  have tk: "name_taken ?devs name (blk_devs bm) = Some (name \<in> set (dev_names bm))"
    using reg par(1) names by (subst name_taken_ok) (auto simp: dev_names_def image_iff)
  obtain i bits where ib: "blkdev_alloc_id (blkdev_id_bitmap bm) = (i, bits)" by (cases "blkdev_alloc_id (blkdev_id_bitmap bm)")
  have bm': "bm' = (if name \<in> set (dev_names bm) then ?bm
     else ?bm\<lparr>blkdev_id_bitmap := bits, bm_devs := ?devs(part \<mapsto> ?dev\<lparr>bd_id := i\<rparr>), blk_devs := part # blk_devs bm\<rparr>)"
    using run z par tk ib by (auto simp: blkdev_register_partition_def manager_add_with_def Let_def split: if_splits)
  show ?thesis
  proof (cases "name \<in> set (dev_names bm)")
    case True
    then show ?thesis using bm' inv1 kept1 by simp
  next
    case False
    have b: "blk_devs bm' = part # blk_devs bm" "bm_devs bm' = ?devs(part \<mapsto> ?dev\<lparr>bd_id := i\<rparr>)"
      using bm' False by simp_all
    have "bd_name (the (bm_devs bm' d)) = bd_name (the (bm_devs bm d))" if "d \<in> set (blk_devs bm)" for d
      using names [OF that] that fresh(3) unfolding b(2) by auto
    then have "dev_names bm' = name # dev_names bm"
      unfolding dev_names_def b(1) by (simp add: b(2))
    then have "bm_inv h bm'"
      using inv1 False dn bm' by (auto simp: bm_inv_def)
    moreover have "devs_kept bm bm'"
      using fresh par(1) by (auto simp: devs_kept_def same_dev_def b(2))
    ultimately show ?thesis
      using bm' False by (simp add: partition_dev_def)
  qed
qed

text \<open>The scan keeps the registry well formed, and every device it registers is a partition that lies inside the
  disk.\<close>

definition inside_partition ::
  "(u64 \<Rightarrow> nat \<Rightarrow> 'h \<Rightarrow> int \<times> u8 list \<times> 'h) \<Rightarrow> (u64 \<Rightarrow> u8 list \<Rightarrow> nat \<Rightarrow> 'h \<Rightarrow> int \<times> 'h) \<Rightarrow> u64 \<Rightarrow> 'h block_dev \<Rightarrow> bool" where
  "inside_partition rd wr tot dev \<longleftrightarrow>
     (\<exists>info. partition_dev rd wr info dev \<and> unat (pp_start_lba info) + unat (pp_sec_count info) \<le> unat tot)"

lemma partition_fits:
  fixes p q :: u32
  assumes "\<not> (ucast p + ucast q :: u64) > tot"
  shows "unat (ucast p :: u64) + unat (ucast q :: u64) \<le> unat tot"
proof -
  have "unat p + unat q < 2 ^ 64"
    using unat_lt2p [of p] unat_lt2p [of q] by simp
  then show ?thesis
    using assms by (simp add: word_less_nat_alt unat_add_small)
qed

lemma mbr_scan_loop_ok:
  assumes "bm_inv h bm" "bm_devs bm (bd_ptr dev) = Some pdev" "bd_ops pdev = Some \<lparr>op_read = Some rd, op_write = Some wr\<rparr>"
    and "mbr_scan_loop h dev i ps reg bm = Some (r, bm')"
  shows "bm_inv h bm' \<and> devs_kept bm bm' \<and> bm_blk bm' = bm_blk bm \<and>
    (\<exists>new. blk_devs bm' = new @ blk_devs bm \<and>
       (\<forall>d\<in>set new. \<exists>pd. bm_devs bm' d = Some pd \<and> inside_partition rd wr (bd_total_sectors dev) pd))"
  using assms
proof (induction ps arbitrary: i reg bm pdev)
  case Nil
  then show ?case by (simp add: devs_kept_refl)
next
  case (Cons p ps)
  let ?start = "ucast (mp_lba_first p) :: u64" and ?secs = "ucast (mp_sector_count p) :: u64"
  consider (skip) "mbr_scan_loop h dev (Suc i) ps reg bm = Some (r, bm')" | (gpt) "bm' = bm"
    | (reg) r1 bm1 reg1 where "blkdev_register_partition h (bd_ptr dev) (of_nat i) ?start ?secs bm = Some (r1, bm1)"
      "mbr_scan_loop h dev (Suc i) ps reg1 bm1 = Some (r, bm')" "\<not> ?start + ?secs > bd_total_sectors dev"
    using Cons.prems(4) by (auto simp: Let_def split: if_splits bind_splits)
  then show ?case
  proof cases
    case skip
    then show ?thesis using Cons.IH [OF Cons.prems(1-3)] by simp
  next
    case gpt
    then show ?thesis using Cons.prems(1) by (simp add: devs_kept_refl)
  next
    case reg
    note r1 = register_partition_ok [OF Cons.prems(1-3) reg(1)]
    then obtain pdev1 where p1: "bm_devs bm1 (bd_ptr dev) = Some pdev1" "same_dev pdev1 pdev"
      using Cons.prems(2) unfolding devs_kept_def by blast
    then have ops: "bd_ops pdev1 = Some \<lparr>op_read = Some rd, op_write = Some wr\<rparr>"
      using same_devD [OF p1(2)] Cons.prems(3) by simp
    note ih = Cons.IH [OF conjunct1 [OF r1] p1(1) ops reg(2)]
    then obtain new where new: "blk_devs bm' = new @ blk_devs bm1"
      "\<forall>d\<in>set new. \<exists>pd. bm_devs bm' d = Some pd \<and> inside_partition rd wr (bd_total_sectors dev) pd" "devs_kept bm1 bm'"
      by blast
    have fit: "unat ?start + unat ?secs \<le> unat (bd_total_sectors dev)"
      by (rule partition_fits [OF reg(3)])
    have kept: "devs_kept bm bm'"
      using r1 new(3) devs_kept_trans by blast
    have "\<exists>new'. blk_devs bm1 = new' @ blk_devs bm \<and>
       (\<forall>d\<in>set new'. \<exists>pd. bm_devs bm' d = Some pd \<and> inside_partition rd wr (bd_total_sectors dev) pd)"
      using r1
    proof (elim conjE disjE exE)
      fix part pd
      assume a: "blk_devs bm1 = part # blk_devs bm" "bm_devs bm1 part = Some pd"
        "partition_dev rd wr \<lparr>pp_start_lba = ?start, pp_sec_count = ?secs\<rparr> pd"
      then obtain pd' where "bm_devs bm' part = Some pd'" "same_dev pd' pd"
        using new(3) unfolding devs_kept_def by blast
      moreover from this(2) a(3) have "partition_dev rd wr \<lparr>pp_start_lba = ?start, pp_sec_count = ?secs\<rparr> pd'"
        using same_devD [of pd' pd] by (simp add: partition_dev_def)
      then have "inside_partition rd wr (bd_total_sectors dev) pd'"
        using fit unfolding inside_partition_def by fastforce
      ultimately show ?thesis using a(1) by (intro exI [of _ "[part]"]) simp
    qed simp
    then obtain new' where "blk_devs bm1 = new' @ blk_devs bm"
      "\<forall>d\<in>set new'. \<exists>pd. bm_devs bm' d = Some pd \<and> inside_partition rd wr (bd_total_sectors dev) pd" by blast
    then show ?thesis
      using new ih r1 kept by (intro conjI exI [of _ "new @ new'"]) auto
  qed
qed


text \<open>A disk of 64 sectors with one partition of 16 sectors, registered on the demonstration heap.\<close>

definition demo_mbr :: "u8 list" where
  "demo_mbr = replicate 446 0 @ [0, 0, 0, 0, 6, 0, 0, 0, 1, 0, 0, 0, 16, 0, 0, 0] @ replicate 48 0 @ [0x55, 0xAA]"

definition demo_bm :: "vaddr \<Rightarrow> kheap \<Rightarrow> (u64 \<Rightarrow> u8 list) blkdev_manager" where
  "demo_bm p kh = \<lparr>bm_blk = blk_boot ((\<lambda>_. replicate 512 0)(0 := demo_mbr)), bm_heap = (kh, \<lambda>_. 0), blk_devs = [p],
     bm_devs = [p \<mapsto> (ram_dev 64)\<lparr>bd_ptr := p\<rparr>], blkdev_id_bitmap = [1, 0]\<rparr>"


end
