(* ===== verification/Ata.thy ===== *)
theory Ata
  imports Blk_Dev
begin

text \<open>
  The ATA disk driver of \<^verbatim>\<open>src/lizard/ata.c\<close>. The port instructions of \<^verbatim>\<open>src/lizard/io.c\<close> are the
  record \<open>ports\<close> of functions on the hardware state \<open>'h\<close>; the drive behind them is not code of the kernel and stays
  a parameter. The locale \<open>ata_drive\<close> states the documented protocol of a PIO drive; under it the driver honours the
  contract of the block layer.
\<close>

section \<open>io.c\<close>

record 'h ports =
  inb :: "u16 \<Rightarrow> 'h \<Rightarrow> u8 \<times> 'h"
  inw :: "u16 \<Rightarrow> 'h \<Rightarrow> u16 \<times> 'h"
  outb :: "u16 \<Rightarrow> u8 \<Rightarrow> 'h \<Rightarrow> 'h"
  outw :: "u16 \<Rightarrow> u16 \<Rightarrow> 'h \<Rightarrow> 'h"

definition io_wait :: "'h ports \<Rightarrow> 'h \<Rightarrow> 'h" where
  "io_wait P h = outb P 0x80 0 h"

section \<open>ata.h\<close>

definition ATA_PRIMARY_BASE :: u16 where "ATA_PRIMARY_BASE = 0x1F0"
definition ATA_PRIMARY_CTRL :: u16 where "ATA_PRIMARY_CTRL = 0x3F6"

abbreviation ATA_REG_DATA :: u16 where "ATA_REG_DATA \<equiv> 0"
abbreviation ATA_REG_SECCOUNT0 :: u16 where "ATA_REG_SECCOUNT0 \<equiv> 2"
abbreviation ATA_REG_LBA0 :: u16 where "ATA_REG_LBA0 \<equiv> 3"
abbreviation ATA_REG_LBA1 :: u16 where "ATA_REG_LBA1 \<equiv> 4"
abbreviation ATA_REG_LBA2 :: u16 where "ATA_REG_LBA2 \<equiv> 5"
abbreviation ATA_REG_DRIVE :: u16 where "ATA_REG_DRIVE \<equiv> 6"
abbreviation ATA_REG_COMMAND :: u16 where "ATA_REG_COMMAND \<equiv> 7"
abbreviation ATA_REG_STATUS :: u16 where "ATA_REG_STATUS \<equiv> 7"

abbreviation ATA_CMD_WRITE_SECT :: u8 where "ATA_CMD_WRITE_SECT \<equiv> 0x30"
abbreviation ATA_CMD_READ_SECT :: u8 where "ATA_CMD_READ_SECT \<equiv> 0x20"
abbreviation ATA_CMD_IDENTIFY :: u8 where "ATA_CMD_IDENTIFY \<equiv> 0xEC"
abbreviation ATA_CMD_CACHE_FLUSH :: u8 where "ATA_CMD_CACHE_FLUSH \<equiv> 0xE7"

abbreviation ATA_SR_BSY :: u8 where "ATA_SR_BSY \<equiv> 0x80"
abbreviation ATA_SR_DRQ :: u8 where "ATA_SR_DRQ \<equiv> 0x08"
abbreviation ATA_SR_ERR :: u8 where "ATA_SR_ERR \<equiv> 0x01"
abbreviation ATA_SR_DF :: u8 where "ATA_SR_DF \<equiv> 0x20"

abbreviation ATA_DEFAULT_SECTOR_SIZE :: u16 where "ATA_DEFAULT_SECTOR_SIZE \<equiv> 512"

record ata_device =
  ata_io_base :: u16
  ata_ctrl_base :: u16
  ata_present :: u8
  ata_model :: "u8 list"
  ata_cylinders :: u16
  ata_heads :: u16
  ata_sectors :: u16
  ata_sector_size :: u16
  ata_total_sectors :: u32
  ata_total_bytes :: u64

section \<open>ata.c: waiting\<close>

text \<open>\<open>ata_wait_loop n\<close> is the polling loop with \<open>n\<close> rounds left.\<close>

primrec ata_wait_loop :: "nat \<Rightarrow> 'h ports \<Rightarrow> u16 \<Rightarrow> u8 \<Rightarrow> bool \<Rightarrow> 'h \<Rightarrow> int \<times> 'h" where
  "ata_wait_loop 0 P base msk on h = (-1, h)"
| "ata_wait_loop (Suc n) P base msk on h =
     (let (status, h) = inb P (base + ATA_REG_STATUS) h
      in if (if on then status AND msk = msk else status AND msk = 0) then (0, h)
         else ata_wait_loop n P base msk on (io_wait P h))"

definition ata_wait :: "'h ports \<Rightarrow> u16 \<Rightarrow> u8 \<Rightarrow> bool \<Rightarrow> 'h \<Rightarrow> int \<times> 'h" where
  "ata_wait = ata_wait_loop 100000"

definition ata_select :: "'h ports \<Rightarrow> u16 \<Rightarrow> 'h \<Rightarrow> 'h" where
  "ata_select P base h = io_wait P (outb P (base + ATA_REG_DRIVE) 0xA0 h)"

definition ata_setup_lba :: "'h ports \<Rightarrow> u16 \<Rightarrow> u64 \<Rightarrow> 'h \<Rightarrow> 'h" where
  "ata_setup_lba P ata lba h =
     (let h = outb P (ata + ATA_REG_DRIVE) (ucast (0xE0 OR (drop_bit 24 lba AND 0x0F))) h;
          h = outb P (ata + ATA_REG_SECCOUNT0) 1 h;
          h = outb P (ata + ATA_REG_LBA0) (ucast (lba AND 0xFF)) h;
          h = outb P (ata + ATA_REG_LBA1) (ucast (drop_bit 8 lba AND 0xFF)) h
      in outb P (ata + ATA_REG_LBA2) (ucast (drop_bit 16 lba AND 0xFF)) h)"

definition ata_io_delay :: "'h ports \<Rightarrow> u16 \<Rightarrow> 'h \<Rightarrow> 'h" where
  "ata_io_delay P ata h = ((\<lambda>h. snd (inb P (ata + ATA_REG_STATUS) h)) ^^ 4) h"

primrec ata_poll_loop :: "nat \<Rightarrow> 'h ports \<Rightarrow> u16 \<Rightarrow> 'h \<Rightarrow> int \<times> 'h" where
  "ata_poll_loop 0 P ata h = (-1, h)"
| "ata_poll_loop (Suc n) P ata h =
     (let (st, h) = inb P (ata + ATA_REG_STATUS) h
      in if st AND ATA_SR_BSY \<noteq> 0 then ata_poll_loop n P ata (io_wait P h)
         else if st AND (ATA_SR_ERR OR ATA_SR_DF) \<noteq> 0 then (-1, h)
         else if st AND ATA_SR_DRQ \<noteq> 0 then (0, h)
         else ata_poll_loop n P ata (io_wait P h))"

definition ata_poll_data :: "'h ports \<Rightarrow> u16 \<Rightarrow> 'h \<Rightarrow> int \<times> 'h" where
  "ata_poll_data = ata_poll_loop 1000000"

section \<open>ata.c: transfers\<close>

text \<open>The 256 data words of a sector, and the words of a buffer; a word is stored low byte first.\<close>

primrec in_words :: "nat \<Rightarrow> 'h ports \<Rightarrow> u16 \<Rightarrow> 'h \<Rightarrow> u16 list \<times> 'h" where
  "in_words 0 P port h = ([], h)"
| "in_words (Suc n) P port h =
     (let (w, h) = inw P port h; (ws, h) = in_words n P port h in (w # ws, h))"

primrec out_words :: "u16 list \<Rightarrow> 'h ports \<Rightarrow> u16 \<Rightarrow> 'h \<Rightarrow> 'h" where
  "out_words [] P port h = h"
| "out_words (w # ws) P port h = out_words ws P port (outw P port w h)"

fun words_of :: "u8 list \<Rightarrow> u16 list" where
  "words_of (a # b # bs) = le16 a b # words_of bs"
| "words_of _ = []"

definition bytes_of :: "u16 list \<Rightarrow> u8 list" where
  "bytes_of ws = concat (map le16_bytes ws)"

text \<open>Bytes stored at an offset of the caller's buffer, which grows as needed.\<close>

definition put_at :: "nat \<Rightarrow> u8 list \<Rightarrow> u8 list \<Rightarrow> u8 list" where
  "put_at off bs buf = take off buf @ replicate (off - length buf) 0 @ bs @ drop (off + length bs) buf"

text \<open>The transfer loops run while \<open>s < e\<close>, with \<open>e\<close> the wrapped sum \<^verbatim>\<open>sector + count\<close>; the buffer pointer advances
  by the sector size of the device.\<close>

function block_read_loop :: "'h ports \<Rightarrow> ata_device \<Rightarrow> u64 \<Rightarrow> u64 \<Rightarrow> nat \<Rightarrow> u8 list \<Rightarrow> 'h \<Rightarrow> int \<times> u8 list \<times> 'h" where
  "block_read_loop P dev s e off buf h =
     (if \<not> s < e then (0, buf, h)
      else let ata = ata_io_base dev; (r, h) = ata_wait P ata ATA_SR_BSY False h
           in if r \<noteq> 0 then (-1, buf, h)
              else let h = outb P (ata + ATA_REG_COMMAND) ATA_CMD_READ_SECT (ata_setup_lba P ata s h);
                       (r, h) = ata_poll_data P ata (ata_io_delay P ata h)
                   in if r \<noteq> 0 then (-1, buf, h)
                      else let (ws, h) = in_words 256 P (ata + ATA_REG_DATA) h
                           in block_read_loop P dev (s + 1) e (off + unat (ata_sector_size dev))
                                (put_at off (bytes_of ws) buf) (ata_io_delay P ata h))"
  by pat_completeness auto
termination
  by (relation "measure (\<lambda>(P, dev, s, e, off, buf, h). unat (e - s))") (auto intro: unat_minus_step)

definition block_read :: "'h ports \<Rightarrow> ata_device \<Rightarrow> u64 \<Rightarrow> nat \<Rightarrow> 'h \<Rightarrow> int \<times> u8 list \<times> 'h" where
  "block_read P dev sector cnt h = block_read_loop P dev sector (sector + of_nat cnt) 0 [] h"

function block_write_loop :: "'h ports \<Rightarrow> ata_device \<Rightarrow> u64 \<Rightarrow> u64 \<Rightarrow> nat \<Rightarrow> u8 list \<Rightarrow> 'h \<Rightarrow> int \<times> 'h" where
  "block_write_loop P dev s e off buf h =
     (if \<not> s < e then (0, h)
      else let ata = ata_io_base dev; (r, h) = ata_wait P ata ATA_SR_BSY False h
           in if r \<noteq> 0 then (-1, h)
              else let h = outb P (ata + ATA_REG_COMMAND) ATA_CMD_WRITE_SECT (ata_setup_lba P ata s h);
                       (r, h) = ata_poll_data P ata (ata_io_delay P ata h)
                   in if r \<noteq> 0 then (-1, h)
                      else let h = out_words (words_of (take 512 (drop off buf))) P (ata + ATA_REG_DATA) h;
                               (r, h) = ata_wait P ata ATA_SR_BSY False (ata_io_delay P ata h)
                           in if r \<noteq> 0 then (-1, h)
                              else block_write_loop P dev (s + 1) e (off + unat (ata_sector_size dev)) buf h)"
  by pat_completeness auto
termination
  by (relation "measure (\<lambda>(P, dev, s, e, off, buf, h). unat (e - s))") (auto intro: unat_minus_step)

definition block_write :: "'h ports \<Rightarrow> ata_device \<Rightarrow> u64 \<Rightarrow> u8 list \<Rightarrow> nat \<Rightarrow> 'h \<Rightarrow> int \<times> 'h" where
  "block_write P dev sector buf cnt h =
     (let (r, h) = block_write_loop P dev sector (sector + of_nat cnt) 0 buf h
      in if r \<noteq> 0 then (-1, h)
         else let h = outb P (ata_io_base dev + ATA_REG_COMMAND) ATA_CMD_CACHE_FLUSH h;
                  (r, h) = ata_wait P (ata_io_base dev) ATA_SR_BSY False h
              in if r \<noteq> 0 then (-1, h) else (0, h))"

declare block_read_loop.simps [simp del] block_write_loop.simps [simp del]

section \<open>Buffers\<close>

lemma bytes_of_words: "even (length bs) \<Longrightarrow> bytes_of (words_of bs) = bs"
  by (induction bs rule: words_of.induct) (auto simp: bytes_of_def le16_bytes_def)

lemma length_words_of [simp]: "length (words_of bs) = length bs div 2"
  by (induction bs rule: words_of.induct) auto

lemma put_at_end [simp]: "put_at (length buf) bs buf = buf @ bs"
  by (simp add: put_at_def)

section \<open>The drive\<close>

text \<open>The phases of a PIO drive: idle, busy for a number of status reads before it enters another phase, offering
  data words, or taking them for a sector.\<close>

datatype ata_phase = Idle | Busy nat ata_phase | Data_In "u16 list" | Data_Out u64 "u16 list"

text \<open>The sector number in the task-file registers, in 28-bit LBA mode.\<close>

definition reg_lba :: "(u16 \<Rightarrow> u8) \<Rightarrow> u64" where
  "reg_lba r = ucast (r 3) OR push_bit 8 (ucast (r 4)) OR push_bit 16 (ucast (r 5)) OR push_bit 24 (ucast (r 6 AND 0x0F))"

definition lba_command :: "(u16 \<Rightarrow> u8) \<Rightarrow> bool" where
  "lba_command r \<longleftrightarrow> r 6 AND 0xF0 = 0xE0 \<and> r 2 = 1"

lemma setup_drive: "(ucast (0xE0 OR (drop_bit 24 s AND 0x0F)) :: u8) AND 0xF0 = 0xE0" for s :: u64
proof (rule bit_word_eqI)
  fix n
  assume "n < LENGTH(8)"
  then have "n \<in> {0, 1, 2, 3, 4, 5, 6, 7}" by auto
  then show "bit ((ucast (0xE0 OR (drop_bit 24 s AND 0x0F)) :: u8) AND 0xF0) n = bit (0xE0 :: u8) n"
    by (auto simp: bit_simps)
qed

lemma bit_lba_byte:
  "n < 64 \<Longrightarrow> bit (push_bit k (ucast (ucast (take_bit 8 (drop_bit k s)) :: u8) :: u64)) n \<longleftrightarrow> k \<le> n \<and> n < k + 8 \<and> bit s n"
  for s :: u64
  by (auto simp: bit_simps)

lemma bit_lba_top:
  fixes s x :: u64
  assumes "\<And>n. n < 4 \<Longrightarrow> \<not> bit x n" and "n < 64"
  shows "bit (push_bit 24 (ucast (take_bit 4 (ucast (x OR take_bit 4 (drop_bit 24 s)) :: u8)) :: u64)) n \<longleftrightarrow>
    24 \<le> n \<and> n < 28 \<and> bit s n"
  using assms(2) assms(1) [of "n - 24"] by (auto simp: bit_simps)

lemma lba_bytes:
  fixes s x :: u64
  assumes x: "\<And>n. n < 4 \<Longrightarrow> \<not> bit x n"
  shows "ucast (ucast (take_bit 8 s) :: u8) OR push_bit 8 (ucast (ucast (take_bit 8 (drop_bit 8 s)) :: u8)) OR
    push_bit 16 (ucast (ucast (take_bit 8 (drop_bit 16 s)) :: u8)) OR
    push_bit 24 (ucast (take_bit 4 (ucast (x OR take_bit 4 (drop_bit 24 s)) :: u8))) = take_bit 28 s" (is "?l = _")
proof (rule bit_word_eqI)
  fix n
  assume "n < LENGTH(64)"
  then have n: "n < 64" by simp
  have "bit ?l n \<longleftrightarrow> (n < 8 \<and> bit s n) \<or> (8 \<le> n \<and> n < 16 \<and> bit s n) \<or> (16 \<le> n \<and> n < 24 \<and> bit s n) \<or> (24 \<le> n \<and> n < 28 \<and> bit s n)"
    unfolding bit_or_iff
    using bit_lba_top [of x n s, OF x n] bit_lba_byte [OF n, of 0 s] bit_lba_byte [OF n, of 8 s] bit_lba_byte [OF n, of 16 s] by simp
  then show "bit ?l n = bit (take_bit 28 s) n"
    by (auto simp: bit_take_bit_iff)
qed

lemma setup_regs:
  "ucast (ucast (s AND 0xFF) :: u8) OR push_bit 8 (ucast (ucast (drop_bit 8 s AND 0xFF) :: u8)) OR
   push_bit 16 (ucast (ucast (drop_bit 16 s AND 0xFF) :: u8)) OR
   push_bit 24 (ucast ((ucast (0xE0 OR (drop_bit 24 s AND 0x0F)) :: u8) AND 0x0F)) = take_bit 28 s" for s :: u64
proof -
  have m: "(mask 8 :: u64) = 0xFF" "(mask 4 :: u64) = 0x0F" "(mask 4 :: u8) = 0x0F"
    by (simp_all add: mask_eq_exp_minus_1)
  have "\<not> bit (0xE0 :: u64) n" if "n < 4" for n
  proof -
    have "n \<in> {0, 1, 2, 3}" using that by auto
    then show ?thesis by auto
  qed
  from lba_bytes [OF this] show ?thesis unfolding take_bit_eq_mask [where n = 8] take_bit_eq_mask [where n = 4] m .
qed

text \<open>The protocol the driver relies on. A status read has no effect but the passing of time, the task-file
  registers are latches, a READ SECTOR or WRITE SECTOR command is followed by at most \<open>lat\<close> busy status reads and the
  data phase, and the 256th word of a write commits the sector.\<close>

locale ata_drive =
  fixes P :: "'h ports" and dev :: ata_device and phase :: "'h \<Rightarrow> ata_phase" and reg :: "'h \<Rightarrow> u16 \<Rightarrow> u8"
    and content :: "'h \<Rightarrow> u64 \<Rightarrow> u8 list" and nsec lat :: nat
  assumes size_28: "nsec \<le> 2 ^ 28" and lat_bound: "lat < 99990" and sector_512: "ata_sector_size dev = 512"
    and content_512: "unat s < nsec \<Longrightarrow> length (content h s) = 512"
    and status: "\<exists>st h'. inb P (ata_io_base dev + ATA_REG_STATUS) h = (st, h') \<and> reg h' = reg h \<and> content h' = content h \<and>
      (case phase h of Idle \<Rightarrow> st AND ATA_SR_BSY = 0 \<and> phase h' = Idle
       | Busy n p \<Rightarrow> st AND ATA_SR_BSY \<noteq> 0 \<and> phase h' = (if n = 0 then p else Busy (n - 1) p)
       | _ \<Rightarrow> st AND ATA_SR_BSY = 0 \<and> st AND (ATA_SR_ERR OR ATA_SR_DF) = 0 \<and> st AND ATA_SR_DRQ \<noteq> 0 \<and> phase h' = phase h)"
    and delay_port: "phase (outb P 0x80 v h) = phase h" "reg (outb P 0x80 v h) = reg h" "content (outb P 0x80 v h) = content h"
    and latch: "phase h = Idle \<Longrightarrow> r \<in> {2, 3, 4, 5, 6} \<Longrightarrow> phase (outb P (ata_io_base dev + r) v h) = Idle \<and>
      reg (outb P (ata_io_base dev + r) v h) = (reg h)(r := v) \<and> content (outb P (ata_io_base dev + r) v h) = content h"
    and read_cmd: "phase h = Idle \<Longrightarrow> lba_command (reg h) \<Longrightarrow> unat (reg_lba (reg h)) < nsec \<Longrightarrow>
      (\<exists>n\<le>lat. phase (outb P (ata_io_base dev + ATA_REG_COMMAND) ATA_CMD_READ_SECT h) =
         Busy n (Data_In (words_of (content h (reg_lba (reg h)))))) \<and>
      content (outb P (ata_io_base dev + ATA_REG_COMMAND) ATA_CMD_READ_SECT h) = content h"
    and write_cmd: "phase h = Idle \<Longrightarrow> lba_command (reg h) \<Longrightarrow> unat (reg_lba (reg h)) < nsec \<Longrightarrow>
      (\<exists>n\<le>lat. phase (outb P (ata_io_base dev + ATA_REG_COMMAND) ATA_CMD_WRITE_SECT h) = Busy n (Data_Out (reg_lba (reg h)) [])) \<and>
      content (outb P (ata_io_base dev + ATA_REG_COMMAND) ATA_CMD_WRITE_SECT h) = content h"
    and flush_cmd: "phase h = Idle \<Longrightarrow>
      (\<exists>n\<le>lat. phase (outb P (ata_io_base dev + ATA_REG_COMMAND) ATA_CMD_CACHE_FLUSH h) = Busy n Idle) \<and>
      content (outb P (ata_io_base dev + ATA_REG_COMMAND) ATA_CMD_CACHE_FLUSH h) = content h"
    and data_in: "phase h = Data_In (w # ws) \<Longrightarrow> \<exists>h'. inw P (ata_io_base dev + ATA_REG_DATA) h = (w, h') \<and>
      phase h' = (if ws = [] then Idle else Data_In ws) \<and> content h' = content h"
    and data_out: "phase h = Data_Out lba ws \<Longrightarrow> length ws < 255 \<Longrightarrow>
      phase (outw P (ata_io_base dev + ATA_REG_DATA) w h) = Data_Out lba (ws @ [w]) \<and>
      content (outw P (ata_io_base dev + ATA_REG_DATA) w h) = content h"
    and data_commit: "phase h = Data_Out lba ws \<Longrightarrow> length ws = 255 \<Longrightarrow>
      (\<exists>n\<le>lat. phase (outw P (ata_io_base dev + ATA_REG_DATA) w h) = Busy n Idle) \<and>
      content (outw P (ata_io_base dev + ATA_REG_DATA) w h) = (content h)(lba := bytes_of (ws @ [w]))"
begin

text \<open>The drive is in phase \<open>q\<close>, or busy on its way to it.\<close>

definition towards :: "nat \<Rightarrow> ata_phase \<Rightarrow> ata_phase \<Rightarrow> bool" where
  "towards k q p \<longleftrightarrow> p = q \<or> (\<exists>n<k. p = Busy n q)"

lemma towards_0: "towards 0 q p \<longleftrightarrow> p = q"
  by (simp add: towards_def)

lemma status_towards:
  assumes "towards k q (phase h)" "\<forall>n p. q \<noteq> Busy n p"
  shows "towards (k - 1) q (phase (snd (inb P (ata_io_base dev + ATA_REG_STATUS) h))) \<and>
    content (snd (inb P (ata_io_base dev + ATA_REG_STATUS) h)) = content h"
proof -
  obtain st h' where s: "inb P (ata_io_base dev + ATA_REG_STATUS) h = (st, h')" "content h' = content h"
    "case phase h of Idle \<Rightarrow> phase h' = Idle | Busy n p \<Rightarrow> phase h' = (if n = 0 then p else Busy (n - 1) p) | _ \<Rightarrow> phase h' = phase h"
    using status [of h] by (cases "phase h") auto
  have "towards (k - 1) q (phase h')"
    using s(3) assms by (auto simp: towards_def split: ata_phase.splits if_splits)
  then show ?thesis using s by simp
qed

lemma towards_mono: "towards k q p \<Longrightarrow> k \<le> l \<Longrightarrow> towards l q p"
  by (auto simp: towards_def)

lemma delay_towards:
  assumes "towards k q (phase h)" "\<forall>n p. q \<noteq> Busy n p"
  shows "towards k q (phase (ata_io_delay P (ata_io_base dev) h)) \<and> content (ata_io_delay P (ata_io_base dev) h) = content h"
proof -
  have "towards k q (phase ((((\<lambda>h. snd (inb P (ata_io_base dev + ATA_REG_STATUS) h)) ^^ n) h))) \<and>
      content (((\<lambda>h. snd (inb P (ata_io_base dev + ATA_REG_STATUS) h)) ^^ n) h) = content h" for n
  proof (induction n)
    case (Suc n)
    then show ?case
      using status_towards [OF _ assms(2)] towards_mono [of "k - 1" q _ k] by auto
  qed (use assms(1) in simp)
  then show ?thesis unfolding ata_io_delay_def .
qed

lemma wait_idle_loop:
  "towards k Idle (phase h) \<Longrightarrow> k < n \<Longrightarrow>
    \<exists>h'. ata_wait_loop n P (ata_io_base dev) ATA_SR_BSY False h = (0, h') \<and> phase h' = Idle \<and> content h' = content h"
proof (induction n arbitrary: k h)
  case (Suc n)
  obtain st h1 where s: "inb P (ata_io_base dev + ATA_REG_STATUS) h = (st, h1)" "content h1 = content h"
    "case phase h of Idle \<Rightarrow> st AND ATA_SR_BSY = 0 \<and> phase h1 = Idle
       | Busy n p \<Rightarrow> st AND ATA_SR_BSY \<noteq> 0 \<and> phase h1 = (if n = 0 then p else Busy (n - 1) p) | _ \<Rightarrow> True"
    using status [of h] by (cases "phase h") auto
  show ?case
  proof (cases "phase h = Idle")
    case True
    then show ?thesis using s by simp
  next
    case False
    then obtain m where m: "m < k" "phase h = Busy m Idle" using Suc.prems(1) by (auto simp: towards_def)
    then have "towards (k - 1) Idle (phase (io_wait P h1))" "st AND ATA_SR_BSY \<noteq> 0"
      using s(3) by (auto simp: towards_def io_wait_def delay_port)
    then show ?thesis
      using Suc.IH [of "k - 1" "io_wait P h1"] Suc.prems(2) m(1) s(1,2) by (auto simp: io_wait_def delay_port)
  qed
qed simp

lemma wait_idle:
  assumes "towards (Suc lat) Idle (phase h)"
  shows "\<exists>h'. ata_wait P (ata_io_base dev) ATA_SR_BSY False h = (0, h') \<and> phase h' = Idle \<and> content h' = content h"
  unfolding ata_wait_def using assms lat_bound by (intro wait_idle_loop) auto

lemma poll_loop:
  "towards k q (phase h) \<Longrightarrow> k < n \<Longrightarrow> (\<exists>ws. q = Data_In ws) \<or> (\<exists>s ws. q = Data_Out s ws) \<Longrightarrow>
    \<exists>h'. ata_poll_loop n P (ata_io_base dev) h = (0, h') \<and> phase h' = q \<and> content h' = content h"
proof (induction n arbitrary: k h)
  case (Suc n)
  obtain st h1 where s: "inb P (ata_io_base dev + ATA_REG_STATUS) h = (st, h1)" "content h1 = content h"
    "case phase h of Idle \<Rightarrow> True
       | Busy n p \<Rightarrow> st AND ATA_SR_BSY \<noteq> 0 \<and> phase h1 = (if n = 0 then p else Busy (n - 1) p)
       | _ \<Rightarrow> st AND ATA_SR_BSY = 0 \<and> st AND (ATA_SR_ERR OR ATA_SR_DF) = 0 \<and> st AND ATA_SR_DRQ \<noteq> 0 \<and> phase h1 = phase h"
    using status [of h] by (cases "phase h") auto
  show ?case
  proof (cases "phase h = q")
    case True
    then show ?thesis using s Suc.prems(3) by auto
  next
    case False
    then obtain m where m: "m < k" "phase h = Busy m q" using Suc.prems(1) by (auto simp: towards_def)
    then have "towards (k - 1) q (phase (io_wait P h1))" "st AND ATA_SR_BSY \<noteq> 0"
      using s(3) by (auto simp: towards_def io_wait_def delay_port)
    then show ?thesis
      using Suc.IH [of "k - 1" "io_wait P h1"] Suc.prems(2,3) m(1) s(1,2) by (auto simp: io_wait_def delay_port)
  qed
qed simp

lemma poll_data:
  assumes "towards (Suc lat) q (phase h)" "(\<exists>ws. q = Data_In ws) \<or> (\<exists>s ws. q = Data_Out s ws)"
  shows "\<exists>h'. ata_poll_data P (ata_io_base dev) h = (0, h') \<and> phase h' = q \<and> content h' = content h"
  unfolding ata_poll_data_def using assms lat_bound by (intro poll_loop) auto

text \<open>The task file after \<^verbatim>\<open>ata_setup_lba\<close> holds the low 28 bits of the sector number.\<close>

lemma setup_lba:
  fixes s :: u64
  assumes "phase h = Idle"
  defines "h' \<equiv> ata_setup_lba P (ata_io_base dev) s h"
  shows "phase h' = Idle" "content h' = content h" "lba_command (reg h')" "reg_lba (reg h') = take_bit 28 s"
proof -
  have a: "phase h' = Idle \<and> content h' = content h \<and>
    reg h' = (reg h)(6 := ucast (0xE0 OR (drop_bit 24 s AND 0x0F)), 2 := 1, 3 := ucast (s AND 0xFF),
      4 := ucast (drop_bit 8 s AND 0xFF), 5 := ucast (drop_bit 16 s AND 0xFF))"
    unfolding h'_def ata_setup_lba_def Let_def by (simp add: assms(1) latch)
  then show "phase h' = Idle" "content h' = content h" by simp_all
  have "(ucast (0xE0 OR (drop_bit 24 s AND 0x0F)) :: u8) AND 0xF0 = 0xE0"
    by (rule setup_drive)
  then show "lba_command (reg h')" using a by (simp add: lba_command_def)
  show "reg_lba (reg h') = take_bit 28 s"
    using a setup_regs [of s] by (simp add: reg_lba_def)
qed

lemma in_words_ok:
  "phase h = Data_In ws \<Longrightarrow> ws \<noteq> [] \<Longrightarrow>
    \<exists>h'. in_words (length ws) P (ata_io_base dev + ATA_REG_DATA) h = (ws, h') \<and> phase h' = Idle \<and> content h' = content h"
proof (induction ws arbitrary: h)
  case (Cons w ws)
  obtain h1 where h1: "inw P (ata_io_base dev + ATA_REG_DATA) h = (w, h1)" "phase h1 = (if ws = [] then Idle else Data_In ws)"
    "content h1 = content h"
    using data_in [OF Cons.prems(1)] by blast
  then show ?case
    using Cons.IH [of h1] by (cases "ws = []") auto
qed simp

lemma out_words_ok:
  "phase h = Data_Out s ws0 \<Longrightarrow> length ws0 + length ws = 256 \<Longrightarrow> ws \<noteq> [] \<Longrightarrow>
    towards (Suc lat) Idle (phase (out_words ws P (ata_io_base dev + ATA_REG_DATA) h)) \<and>
    content (out_words ws P (ata_io_base dev + ATA_REG_DATA) h) = (content h)(s := bytes_of (ws0 @ ws))"
proof (induction ws arbitrary: h ws0)
  case (Cons w ws)
  show ?case
  proof (cases "ws = []")
    case True
    then have "length ws0 = 255" using Cons.prems(2) by simp
    then show ?thesis
      using data_commit [OF Cons.prems(1), of w] True by (auto simp: towards_def less_Suc_eq_le)
  next
    case False
    then have "length ws0 < 255" using Cons.prems(2) by (cases ws) auto
    then show ?thesis
      using data_out [OF Cons.prems(1), of w] Cons.IH [of "outw P (ata_io_base dev + ATA_REG_DATA) w h" "ws0 @ [w]"] Cons.prems(2) False
      by auto
  qed
qed simp

lemma setup_in_range:
  assumes "phase h = Idle" "unat s < nsec"
  defines "h' \<equiv> ata_setup_lba P (ata_io_base dev) s h"
  shows "phase h' = Idle \<and> content h' = content h \<and> lba_command (reg h') \<and> reg_lba (reg h') = s"
proof -
  have "unat s < 2 ^ 28" using assms(2) size_28 by linarith
  then have "take_bit 28 s = s"
    by (simp add: word_unat_eq_iff unsigned_take_bit_eq take_bit_nat_eq_self)
  then show ?thesis
    unfolding h'_def using setup_lba [OF assms(1), of s] by simp
qed

lemma read_step:
  assumes "phase h = Idle" "unat s < nsec" "s < e"
  shows "\<exists>h'. block_read_loop P dev s e off buf h = block_read_loop P dev (s + 1) e (off + 512) (put_at off (content h s) buf) h' \<and>
    phase h' = Idle \<and> content h' = content h"
proof -
  let ?ata = "ata_io_base dev"
  obtain h1 where h1: "ata_wait P ?ata ATA_SR_BSY False h = (0, h1)" "phase h1 = Idle" "content h1 = content h"
    using wait_idle [of h] assms(1) by (auto simp: towards_def)
  define h2 where "h2 = ata_setup_lba P ?ata s h1"
  have h2: "phase h2 = Idle" "content h2 = content h" "lba_command (reg h2)" "reg_lba (reg h2) = s"
    using setup_in_range [OF h1(2) assms(2)] h1(3) by (simp_all add: h2_def)
  define h3 where "h3 = outb P (?ata + ATA_REG_COMMAND) ATA_CMD_READ_SECT h2"
  let ?q = "Data_In (words_of (content h s))"
  have h3: "towards (Suc lat) ?q (phase h3)" "content h3 = content h"
    using read_cmd [OF h2(1,3)] h2(2,4) assms(2) by (auto simp: h3_def towards_def less_Suc_eq_le)
  obtain h4 where h4: "ata_poll_data P ?ata (ata_io_delay P ?ata h3) = (0, h4)" "phase h4 = ?q" "content h4 = content h"
    using poll_data [of ?q "ata_io_delay P ?ata h3"] delay_towards [OF h3(1)] h3(2) by auto
  have len: "length (content h s) = 512" by (rule content_512 [OF assms(2)])
  then have "words_of (content h s) \<noteq> []" "length (words_of (content h s)) = 256"
    by (simp_all flip: length_0_conv)
  then obtain h5 where h5: "in_words 256 P (?ata + ATA_REG_DATA) h4 = (words_of (content h s), h5)" "phase h5 = Idle" "content h5 = content h"
    using in_words_ok [OF h4(2)] h4(3) by auto
  have h6: "phase (ata_io_delay P ?ata h5) = Idle" "content (ata_io_delay P ?ata h5) = content h"
    using delay_towards [of 0 Idle h5] h5 by (simp_all add: towards_0)
  have "block_read_loop P dev s e off buf h =
      block_read_loop P dev (s + 1) e (off + 512) (put_at off (content h s) buf) (ata_io_delay P ?ata h5)"
    by (subst block_read_loop.simps)
      (use assms(3) h1(1) h4(1) h5(1) len in \<open>simp add: h2_def [symmetric] h3_def [symmetric] sector_512 bytes_of_words\<close>)
  then show ?thesis using h6 by blast
qed

lemma write_step:
  assumes "phase h = Idle" "unat s < nsec" "s < e" "off + 512 \<le> length buf"
  shows "\<exists>h'. block_write_loop P dev s e off buf h = block_write_loop P dev (s + 1) e (off + 512) buf h' \<and>
    phase h' = Idle \<and> content h' = (content h)(s := take 512 (drop off buf))"
proof -
  let ?ata = "ata_io_base dev" and ?d = "take 512 (drop off buf)"
  obtain h1 where h1: "ata_wait P ?ata ATA_SR_BSY False h = (0, h1)" "phase h1 = Idle" "content h1 = content h"
    using wait_idle [of h] assms(1) by (auto simp: towards_def)
  define h2 where "h2 = ata_setup_lba P ?ata s h1"
  have h2: "phase h2 = Idle" "content h2 = content h" "lba_command (reg h2)" "reg_lba (reg h2) = s"
    using setup_in_range [OF h1(2) assms(2)] h1(3) by (simp_all add: h2_def)
  define h3 where "h3 = outb P (?ata + ATA_REG_COMMAND) ATA_CMD_WRITE_SECT h2"
  have h3: "towards (Suc lat) (Data_Out s []) (phase h3)" "content h3 = content h"
    using write_cmd [OF h2(1,3)] h2(2,4) assms(2) by (auto simp: h3_def towards_def less_Suc_eq_le)
  obtain h4 where h4: "ata_poll_data P ?ata (ata_io_delay P ?ata h3) = (0, h4)" "phase h4 = Data_Out s []" "content h4 = content h"
    using poll_data [of "Data_Out s []" "ata_io_delay P ?ata h3"] delay_towards [OF h3(1)] h3(2) by auto
  define h5 where h5_eq: "h5 = out_words (words_of ?d) P (?ata + ATA_REG_DATA) h4"
  have len: "length ?d = 512" using assms(4) by simp
  then have "words_of ?d \<noteq> []" "length (words_of ?d) = 256"
    by (simp_all flip: length_0_conv)
  then have h5: "towards (Suc lat) Idle (phase h5)" "content h5 = (content h)(s := ?d)"
    using out_words_ok [OF h4(2), of "words_of ?d"] h4(3) len bytes_of_words [of ?d] by (simp_all add: h5_eq)
  obtain h6 where h6: "ata_wait P ?ata ATA_SR_BSY False (ata_io_delay P ?ata h5) = (0, h6)" "phase h6 = Idle"
    "content h6 = (content h)(s := ?d)"
    using wait_idle [of "ata_io_delay P ?ata h5"] delay_towards [OF h5(1)] h5(2) by auto
  have "block_write_loop P dev s e off buf h = block_write_loop P dev (s + 1) e (off + 512) buf h6"
    by (subst block_write_loop.simps)
      (use assms(3) h1(1) h4(1) h6(1) in \<open>simp add: h2_def [symmetric] h3_def [symmetric] h5_eq [symmetric, simplified] sector_512\<close>)
  then show ?thesis using h6 by blast
qed

lemma sector_before_end:
  fixes s :: u64
  assumes "unat s + Suc n \<le> nsec"
  shows "s < s + of_nat (Suc n)" "unat (s + 1) = unat s + 1" "unat s < nsec"
proof -
  have b: "unat s + Suc n < 2 ^ 64" using assms size_28 by simp
  have "unat (of_nat (Suc n) :: u64) = Suc n" using b by (intro unat_of_nat_small) simp
  then have "unat (s + of_nat (Suc n)) = unat s + Suc n"
    using unat_add_small [of s "of_nat (Suc n)"] b by (simp del: of_nat_Suc)
  then show "s < s + of_nat (Suc n)" unfolding word_less_nat_alt by simp
  show "unat (s + 1) = unat s + 1" using unat_add_small [of s 1] b by simp
  show "unat s < nsec" using assms by simp
qed

lemma read_loop_ok:
  "phase h = Idle \<Longrightarrow> unat s + n \<le> nsec \<Longrightarrow>
    \<exists>h'. block_read_loop P dev s (s + of_nat n) (length buf) buf h = (0, buf @ disk_read (content h) s n, h') \<and>
      phase h' = Idle \<and> content h' = content h"
proof (induction n arbitrary: s buf h)
  case 0
  then show ?case by (simp add: block_read_loop.simps)
next
  case (Suc n)
  note se = sector_before_end [OF Suc.prems(2)]
  have len: "length (content h s) = 512" by (rule content_512 [OF se(3)])
  obtain h1 where h1: "block_read_loop P dev s (s + of_nat (Suc n)) (length buf) buf h =
      block_read_loop P dev (s + 1) (s + of_nat (Suc n)) (length buf + 512) (buf @ content h s) h1"
    "phase h1 = Idle" "content h1 = content h"
    using read_step [OF Suc.prems(1) se(3,1), of "length buf" buf] by auto
  show ?case
    using Suc.IH [OF h1(2), of "s + 1" "buf @ content h s"] Suc.prems(2) h1(1,3) len se(2)
    by (auto simp: disk_read_Suc add.assoc)
qed

lemma write_loop_ok:
  "phase h = Idle \<Longrightarrow> unat s + n \<le> nsec \<Longrightarrow> length buf = off + n * 512 \<Longrightarrow>
    \<exists>h'. block_write_loop P dev s (s + of_nat n) off buf h = (0, h') \<and>
      phase h' = Idle \<and> content h' = disk_write s (drop off buf) n (content h)"
proof (induction n arbitrary: s off h)
  case 0
  then show ?case by (simp add: block_write_loop.simps)
next
  case (Suc n)
  note se = sector_before_end [OF Suc.prems(2)]
  have b: "unat s + Suc n < 2 ^ 64" using Suc.prems(2) size_28 by simp
  obtain h1 where h1: "block_write_loop P dev s (s + of_nat (Suc n)) off buf h =
      block_write_loop P dev (s + 1) (s + of_nat (Suc n)) (off + 512) buf h1"
    "phase h1 = Idle" "content h1 = (content h)(s := take 512 (drop off buf))"
    using write_step [OF Suc.prems(1) se(3,1), of off buf] Suc.prems(3) by auto
  have e: "s + of_nat (Suc n) = (s + 1) + of_nat n" by simp
  have p: "unat (s + 1) + n \<le> nsec" "length buf = (off + 512) + n * 512"
    using se(2) Suc.prems(2,3) by simp_all
  obtain h2 where h2: "block_write_loop P dev (s + 1) ((s + 1) + of_nat n) (off + 512) buf h1 = (0, h2)" "phase h2 = Idle"
    "content h2 = disk_write (s + 1) (drop (off + 512) buf) n (content h1)"
    using Suc.IH [OF h1(2) p] by blast
  have "drop (off + 512) buf = drop 512 (drop off buf)" by (simp add: add.commute)
  then show ?case
    using h1(1,3) h2 unfolding e disk_write_Suc [OF b] by auto
qed

lemma block_driver_laws:
  "block_driver (block_read P dev) (block_write P dev) content (\<lambda>h. phase h = Idle) nsec"
proof (unfold_locales, goal_cases)
  case 1
  show ?case using size_28 by simp
next
  case (2 h s)
  then show ?case by (simp add: content_512)
next
  case (3 h s n)
  then show ?case using read_loop_ok [of h s n "[]"] by (simp add: block_read_def)
next
  case (4 h s n data)
  obtain h1 where h1: "block_write_loop P dev s (s + of_nat n) 0 data h = (0, h1)" "phase h1 = Idle"
    "content h1 = disk_write s data n (content h)"
    using write_loop_ok [OF 4(1,2), of data 0] 4(3) by auto
  define h2 where "h2 = outb P (ata_io_base dev + ATA_REG_COMMAND) ATA_CMD_CACHE_FLUSH h1"
  have h2: "towards (Suc lat) Idle (phase h2)" "content h2 = content h1"
    using flush_cmd [OF h1(2)] by (auto simp: h2_def towards_def less_Suc_eq_le)
  then obtain h3 where "ata_wait P (ata_io_base dev) ATA_SR_BSY False h2 = (0, h3)" "phase h3 = Idle" "content h3 = content h2"
    using wait_idle by blast
  then show ?case using h1 h2(2) by (simp add: block_write_def h2_def [symmetric])
qed

end

sublocale ata_drive \<subseteq> block_driver "block_read P dev" "block_write P dev" content "\<lambda>h. phase h = Idle" nsec
  by (rule block_driver_laws)

section \<open>What the driver promises\<close>

text \<open>Property C8. The driver, on a drive that keeps the PIO protocol and answers within its polling bounds, honours the
  contract of the block layer: every transfer inside the disk succeeds, a read returns exactly the sectors it names
  and a write changes exactly these. This is for disks of at most \<open>2 ^ 28\<close> sectors.\<close>

theorem ata_honours_contract:
  assumes "ata_drive P dev phase reg content nsec lat"
  shows "block_driver (block_read P dev) (block_write P dev) content (\<lambda>h. phase h = Idle) nsec"
  by (rule ata_drive.block_driver_laws [OF assms])

text \<open>A drive that keeps the protocol: two busy status reads after each command, and sectors cut or padded to 512
  bytes.\<close>

definition sector_view :: "u8 list \<Rightarrow> u8 list" where
  "sector_view bs = take 512 (bs @ replicate 512 0)"

record sim_drive =
  sim_phase :: ata_phase
  sim_reg :: "u16 \<Rightarrow> u8"
  sim_content :: "u64 \<Rightarrow> u8 list"

definition sim_inb :: "u16 \<Rightarrow> sim_drive \<Rightarrow> u8 \<times> sim_drive" where
  "sim_inb port h = (case sim_phase h of Idle \<Rightarrow> (0x40, h)
     | Busy n p \<Rightarrow> (0x80, h\<lparr>sim_phase := if n = 0 then p else Busy (n - 1) p\<rparr>)
     | _ \<Rightarrow> (0x08, h))"

definition sim_inw :: "u16 \<Rightarrow> sim_drive \<Rightarrow> u16 \<times> sim_drive" where
  "sim_inw port h = (case sim_phase h of Data_In (w # ws) \<Rightarrow> (w, h\<lparr>sim_phase := if ws = [] then Idle else Data_In ws\<rparr>) | _ \<Rightarrow> (0, h))"

definition sim_outb :: "u16 \<Rightarrow> u8 \<Rightarrow> sim_drive \<Rightarrow> sim_drive" where
  "sim_outb port v h =
     (if sim_phase h \<noteq> Idle \<or> port = 0x80 then h
      else if port = ATA_PRIMARY_BASE + ATA_REG_COMMAND
      then h\<lparr>sim_phase := Busy 1 (if v = ATA_CMD_READ_SECT then Data_In (words_of (sector_view (sim_content h (reg_lba (sim_reg h)))))
               else if v = ATA_CMD_WRITE_SECT then Data_Out (reg_lba (sim_reg h)) [] else Idle)\<rparr>
      else h\<lparr>sim_reg := (sim_reg h)(port - ATA_PRIMARY_BASE := v)\<rparr>)"

definition sim_outw :: "u16 \<Rightarrow> u16 \<Rightarrow> sim_drive \<Rightarrow> sim_drive" where
  "sim_outw port w h = (case sim_phase h of
     Data_Out lba ws \<Rightarrow> if length ws < 255 then h\<lparr>sim_phase := Data_Out lba (ws @ [w])\<rparr>
       else h\<lparr>sim_phase := Busy 1 Idle, sim_content := (sim_content h)(lba := bytes_of (ws @ [w]))\<rparr>
     | _ \<Rightarrow> h)"

definition sim_ports :: "sim_drive ports" where
  "sim_ports = \<lparr>inb = sim_inb, inw = sim_inw, outb = sim_outb, outw = sim_outw\<rparr>"

definition sim_device :: ata_device where
  "sim_device = \<lparr>ata_io_base = ATA_PRIMARY_BASE, ata_ctrl_base = ATA_PRIMARY_CTRL, ata_present = 1, ata_model = [],
     ata_cylinders = 0, ata_heads = 0, ata_sectors = 0, ata_sector_size = 512, ata_total_sectors = 8, ata_total_bytes = 4096\<rparr>"

lemma length_bytes_of [simp]: "length (bytes_of ws) = 2 * length ws"
  by (induction ws) (auto simp: bytes_of_def)

lemma sector_view_512 [simp]: "length bs = 512 \<Longrightarrow> sector_view bs = bs"
  by (simp add: sector_view_def)

interpretation sim: ata_drive sim_ports sim_device sim_phase sim_reg "\<lambda>h s. sector_view (sim_content h s)" 8 3
proof (unfold_locales, goal_cases)
  case (5 h)
  then show ?case
    by (cases "sim_phase h") (simp_all add: sim_ports_def sim_inb_def)
next
  case (9 h r v)
  then show ?case
    by (auto simp: sim_ports_def sim_outb_def sim_device_def ATA_PRIMARY_BASE_def)
next
  case (13 h w ws)
  then show ?case by (simp add: sim_ports_def sim_inw_def)
next
  case (15 h lba ws w)
  then show ?case
    by (auto simp: sim_ports_def sim_outw_def fun_eq_iff intro!: exI [of _ 1])
qed (auto simp: sim_ports_def sim_outb_def sim_outw_def sim_device_def ATA_PRIMARY_BASE_def sector_view_def intro!: exI [of _ 1])

definition sim_boot :: sim_drive where
  "sim_boot = \<lparr>sim_phase = Idle, sim_reg = (\<lambda>_. 0), sim_content = (\<lambda>s. replicate 512 (ucast s))\<rparr>"

theorem ata_honours_contract_witness:
  "\<exists>h'. block_read sim_ports sim_device 3 2 sim_boot = (0, replicate 512 3 @ replicate 512 4, h') \<and> sim_phase h' = Idle"
proof -
  have "disk_read (\<lambda>s. sector_view (sim_content sim_boot s)) 3 (Suc (Suc 0)) = replicate 512 3 @ replicate 512 4"
    unfolding disk_read_Suc disk_read_0 by (simp add: sim_boot_def)
  moreover have "sim_phase sim_boot = Idle" "unat (3 :: u64) + Suc (Suc 0) \<le> 8"
    by (simp_all add: sim_boot_def)
  ultimately show ?thesis
    using block_driver.read_ok [OF ata_honours_contract [OF sim.ata_drive_axioms], of sim_boot 3 "Suc (Suc 0)"]
    unfolding numeral_2_eq_2 by auto
qed

end
