(* ===== verification/Ata_Detect.thy ===== *)
theory Ata_Detect
  imports Ata Blkdev_Manager
begin

text \<open>
  Detection of the ATA disk, \<^verbatim>\<open>ata_detect_devices\<close> of \<^verbatim>\<open>src/lizard/ata.c\<close>: the IDENTIFY command, the
  geometry read off its 256 words, and the registration of the disk with the operations of the driver. The hardware
  state is the one of the block layer. Only the primary channel is probed, as in the loop of the code.
\<close>

section \<open>The IDENTIFY words\<close>

definition identify_total_sectors :: "u16 list \<Rightarrow> u32" where
  "identify_total_sectors d =
     (let lba48 = ucast (d ! 100) OR push_bit 16 (ucast (d ! 101)) OR push_bit 32 (ucast (d ! 102)) OR
                  push_bit 48 (ucast (d ! 103)) :: u64;
          lba28 = ucast (d ! 60) OR push_bit 16 (ucast (d ! 61)) :: u32
      in if d ! 83 AND push_bit 10 1 \<noteq> 0 \<and> lba48 \<noteq> 0 then ucast lba48
         else if lba28 \<noteq> 0 then lba28
         else ucast (d ! 1) * ucast (d ! 3) * ucast (d ! 6))"

definition identify_sector_size :: "u16 list \<Rightarrow> u16" where
  "identify_sector_size d = (if d ! 117 \<noteq> 0 then d ! 117 else ATA_DEFAULT_SECTOR_SIZE)"

definition identify_model :: "u16 list \<Rightarrow> u8 list" where
  "identify_model d = concat (map (\<lambda>i. [ucast (drop_bit 8 (d ! (27 + i))), ucast (d ! (27 + i) AND 0xFF)]) [0..<20]) @ [0]"

definition identify_device :: "u16 list \<Rightarrow> ata_device" where
  "identify_device d =
     \<lparr>ata_io_base = ATA_PRIMARY_BASE, ata_ctrl_base = ATA_PRIMARY_CTRL, ata_present = 1, ata_model = identify_model d,
      ata_cylinders = d ! 1, ata_heads = d ! 3, ata_sectors = d ! 6, ata_sector_size = identify_sector_size d,
      ata_total_sectors = identify_total_sectors d,
      ata_total_bytes = ucast (identify_total_sectors d) * ucast (identify_sector_size d)\<rparr>"

section \<open>Probing\<close>

text \<open>The port traffic of one probe: \<open>None\<close> when there is no usable disk, otherwise the words.\<close>

definition ata_identify :: "'h ports \<Rightarrow> u16 \<Rightarrow> 'h \<Rightarrow> u16 list option \<times> 'h" where
  "ata_identify P base h =
     (let h = ata_select P base h;
          h = outb P (base + ATA_REG_SECCOUNT0) 0 h;
          h = outb P (base + ATA_REG_LBA0) 0 h;
          h = outb P (base + ATA_REG_LBA1) 0 h;
          h = outb P (base + ATA_REG_LBA2) 0 h;
          h = outb P (base + ATA_REG_COMMAND) ATA_CMD_IDENTIFY h;
          (status, h) = inb P (base + ATA_REG_STATUS) h
      in if status = 0 then (None, h)
         else let (r, h) = ata_wait P base ATA_SR_BSY False h
              in if r \<noteq> 0 then (None, h)
                 else let (r, h) = ata_wait P base ATA_SR_ERR False h
                      in if r \<noteq> 0 then (None, h)
                         else let (d, h) = in_words 256 P base h
                              in if d ! 0 AND push_bit 15 1 \<noteq> 0 then (None, h) else (Some d, h))"

abbreviation sizeof_ata_device :: u64 where "sizeof_ata_device \<equiv> 72"

definition ata0_name :: "u8 list" where "ata0_name = [97, 116, 97, 48]"

definition ata_detect_devices :: "u64 \<Rightarrow> 'h ports \<Rightarrow> 'h blkdev_manager \<Rightarrow> (int \<times> 'h blkdev_manager) option" where
  "ata_detect_devices hhdm P bm =
     do { (ata, heap) \<leftarrow> zalloc hhdm sizeof_ata_device (bm_heap bm);
          if ata = 0 then None
          else let (words, h) = ata_identify P ATA_PRIMARY_BASE (hw (bm_blk bm));
                   bm = bm\<lparr>bm_blk := (bm_blk bm)\<lparr>hw := h\<rparr>\<rparr>
               in case words of
                    None \<Rightarrow> do { kh \<leftarrow> kfree hhdm ata (fst heap); Some (0, bm\<lparr>bm_heap := (kh, snd heap)\<rparr>) }
                  | Some d \<Rightarrow>
                    do { (p, heap) \<leftarrow> zalloc hhdm sizeof_block_dev heap;
                         if p = 0 then None
                         else let ad = identify_device d;
                                  dev = \<lparr>bd_ptr = p, bd_name = ata0_name, bd_id = 0, bd_type = BLKDEV_TYPE_PHYSICAL,
                                         bd_total_sectors = ucast (ata_total_sectors ad),
                                         bd_sector_size = ucast (ata_sector_size ad),
                                         bd_ops = Some \<lparr>op_read = Some (block_read P ad), op_write = Some (block_write P ad)\<rparr>,
                                         bd_initialized = True, bd_read_only = False, bd_present = True,
                                         bd_parent = 0, bd_children = []\<rparr>;
                                  bm = bm\<lparr>bm_heap := heap, bm_devs := (bm_devs bm)(p \<mapsto> dev)\<rparr>
                              in do { (_, bm) \<leftarrow> blkdev_manager_add hhdm p bm; Some (0, bm) } } }"

section \<open>Capacity\<close>

text \<open>The capacity is kept in 32 bits: a disk of \<open>2 ^ 32\<close> sectors that reports it in the 48-bit words, as the code
  prefers, is taken to have none.\<close>

lemma identify_total_truncated:
  "identify_total_sectors ((replicate 256 0)[83 := 0x400, 102 := 1]) = 0"
  by (simp add: identify_total_sectors_def)

end
