(* ===== verification/Fat16_Dir.thy ===== *)
theory Fat16_Dir
  imports Kstring Ktime
begin

text \<open>
  FAT16 directory entries: the on-disk layout of \<^verbatim>\<open>src/lizard/fat16_types.h\<close> and the entry and name
  helpers of \<^verbatim>\<open>src/lizard/fat16_helpers.c\<close>. A C string is the list of its bytes before the terminator; on such
  lists \<^verbatim>\<open>strcasecmp\<close> returns 0 exactly when the lower-cased lists are equal, which Kstring proves of the code.
\<close>

section \<open>fat16_types.h\<close>

definition FAT16_SECTOR_SIZE :: nat where "FAT16_SECTOR_SIZE = 512"
definition FAT16_DIR_ENTRY_SIZE :: nat where "FAT16_DIR_ENTRY_SIZE = 32"
definition FAT16_NAME_MAX :: nat where "FAT16_NAME_MAX = 13"
definition FAT16_BOOT_SIGNATURE :: u8 where "FAT16_BOOT_SIGNATURE = 0x29"
definition FAT16_DIR_ENTRY_DELETED :: u8 where "FAT16_DIR_ENTRY_DELETED = 0xE5"
definition FAT16_DIR_ENTRY_END :: u8 where "FAT16_DIR_ENTRY_END = 0"
definition FAT16_ATTR_VOLUME_ID :: u8 where "FAT16_ATTR_VOLUME_ID = 0x08"
definition FAT16_ATTR_DIRECTORY :: u8 where "FAT16_ATTR_DIRECTORY = 0x10"
definition FAT16_ATTR_ARCHIVE :: u8 where "FAT16_ATTR_ARCHIVE = 0x20"
definition FAT16_ATTR_LFN :: u8 where "FAT16_ATTR_LFN = 0x0F"
definition FAT16_FREE_CLUSTER :: u16 where "FAT16_FREE_CLUSTER = 0"
definition FAT16_CLUSTER_MIN :: u16 where "FAT16_CLUSTER_MIN = 2"
definition FAT16_CLUSTER_MAX :: u16 where "FAT16_CLUSTER_MAX = 0xFFEF"
definition FAT16_EOC :: u16 where "FAT16_EOC = 0xFFF8"

lemmas fat16_consts = FAT16_SECTOR_SIZE_def FAT16_DIR_ENTRY_SIZE_def FAT16_NAME_MAX_def FAT16_BOOT_SIGNATURE_def
  FAT16_DIR_ENTRY_DELETED_def FAT16_DIR_ENTRY_END_def FAT16_ATTR_VOLUME_ID_def FAT16_ATTR_DIRECTORY_def
  FAT16_ATTR_ARCHIVE_def FAT16_ATTR_LFN_def FAT16_FREE_CLUSTER_def FAT16_CLUSTER_MIN_def FAT16_CLUSTER_MAX_def FAT16_EOC_def

record fat16_directory =
  fd_name :: "u8 list"
  fd_extension :: "u8 list"
  fd_attributes :: u8
  fd_reserved1 :: u8
  fd_creation_time_tenths :: u8
  fd_creation_time :: u16
  fd_creation_date :: u16
  fd_last_access_date :: u16
  fd_reserved2 :: u16
  fd_write_time :: u16
  fd_write_date :: u16
  fd_first_cluster_low :: u16
  fd_file_size_bytes :: u32

text \<open>The packed structure as its 32 bytes, and back.\<close>

definition dir_bytes :: "fat16_directory \<Rightarrow> u8 list" where
  "dir_bytes e = fd_name e @ fd_extension e @ [fd_attributes e, fd_reserved1 e, fd_creation_time_tenths e] @
     le16_bytes (fd_creation_time e) @ le16_bytes (fd_creation_date e) @ le16_bytes (fd_last_access_date e) @
     le16_bytes (fd_reserved2 e) @ le16_bytes (fd_write_time e) @ le16_bytes (fd_write_date e) @
     le16_bytes (fd_first_cluster_low e) @ le32_bytes (fd_file_size_bytes e)"

definition dir_of :: "u8 list \<Rightarrow> fat16_directory" where
  "dir_of b = \<lparr>fd_name = take 8 b, fd_extension = take 3 (drop 8 b), fd_attributes = b ! 11, fd_reserved1 = b ! 12,
     fd_creation_time_tenths = b ! 13, fd_creation_time = le16 (b ! 14) (b ! 15), fd_creation_date = le16 (b ! 16) (b ! 17),
     fd_last_access_date = le16 (b ! 18) (b ! 19), fd_reserved2 = le16 (b ! 20) (b ! 21),
     fd_write_time = le16 (b ! 22) (b ! 23), fd_write_date = le16 (b ! 24) (b ! 25),
     fd_first_cluster_low = le16 (b ! 26) (b ! 27), fd_file_size_bytes = le32 (b ! 28) (b ! 29) (b ! 30) (b ! 31)\<rparr>"

text \<open>The entry that \<^verbatim>\<open>memset\<close> leaves.\<close>

definition zero_entry :: fat16_directory where
  "zero_entry = dir_of (replicate 32 0)"

section \<open>fat16_helpers.c: entries and names\<close>

definition fat16_cluster_valid :: "u16 \<Rightarrow> bool" where
  "fat16_cluster_valid cluster \<longleftrightarrow> cluster \<ge> FAT16_CLUSTER_MIN \<and> cluster \<le> FAT16_CLUSTER_MAX"

definition fat16_entry_valid :: "fat16_directory \<Rightarrow> bool" where
  "fat16_entry_valid e =
     (if fd_name e ! 0 = FAT16_DIR_ENTRY_DELETED \<or> fd_name e ! 0 = FAT16_DIR_ENTRY_END then False
      else if fd_attributes e = FAT16_ATTR_LFN then False
      else if fd_attributes e AND FAT16_ATTR_VOLUME_ID \<noteq> 0 then False
      else list_all (\<lambda>c. \<not> (c < 0x20 \<or> c > 0x7E)) (fd_name e) \<and> list_all (\<lambda>c. \<not> (c < 0x20 \<or> c > 0x7E)) (fd_extension e))"

definition fat16_name_to_str :: "u8 list \<Rightarrow> u8 list \<Rightarrow> u8 list" where
  "fat16_name_to_str name ext =
     filter (\<lambda>c. c \<noteq> 32) name @ (if ext ! 0 \<noteq> 32 then 46 # filter (\<lambda>c. c \<noteq> 32) ext else [])"

definition to_upper :: "u8 \<Rightarrow> u8" where
  "to_upper c = (if c \<ge> 97 \<and> c \<le> 122 then c - 32 else c)"

definition skip_slashes :: "u8 list \<Rightarrow> u8 list" where
  "skip_slashes = dropWhile (\<lambda>c. c = 47)"

text \<open>One field of a name: upper-cased bytes up to a stop byte, at most \<open>lim\<close> of them.\<close>

fun fill_field :: "nat \<Rightarrow> (u8 \<Rightarrow> bool) \<Rightarrow> u8 list \<Rightarrow> u8 list \<Rightarrow> (u8 list \<times> u8 list) option" where
  "fill_field lim stop acc [] = Some (acc, [])"
| "fill_field lim stop acc (c # cs) =
     (if stop c then Some (acc, c # cs)
      else if length acc \<ge> lim then None
      else fill_field lim stop (acc @ [to_upper c]) cs)"

abbreviation pad :: "nat \<Rightarrow> u8 list \<Rightarrow> u8 list" where
  "pad n bs \<equiv> bs @ replicate (n - length bs) 32"

definition fat16_str_to_name :: "u8 list \<Rightarrow> (u8 list \<times> u8 list) option" where
  "fat16_str_to_name s =
     do { (name, rest) \<leftarrow> fill_field 8 (\<lambda>c. c = 46) [] (skip_slashes s);
          if name = [] then None
          else case rest of
                 [] \<Rightarrow> Some (pad 8 name, replicate 3 32)
               | _ # rest \<Rightarrow> do { (ext, _) \<leftarrow> fill_field 3 (\<lambda>_. False) [] rest; Some (pad 8 name, pad 3 ext) } }"

definition lower :: "u8 list \<Rightarrow> int list" where
  "lower s = map (\<lambda>c. tolower (uint c)) s"

definition fat16_name_cmp :: "u8 list \<Rightarrow> fat16_directory \<Rightarrow> bool" where
  "fat16_name_cmp path e \<longleftrightarrow> lower (skip_slashes path) = lower (fat16_name_to_str (fd_name e) (fd_extension e))"

definition fat16_is_dot :: "fat16_directory \<Rightarrow> bool" where
  "fat16_is_dot e \<longleftrightarrow> fd_name e = 46 # replicate 7 32 \<or> fd_name e = 46 # 46 # replicate 6 32"

text \<open>The wall clock packed into the date and time fields; \<open>None\<close> when the calendar split faults.\<close>

definition fat16_dos_now :: "time_state \<Rightarrow> (u16 \<times> u16) option" where
  "fat16_dos_now t =
     do { let now = time_now t;
          y \<leftarrow> timespec_get_year now; mo \<leftarrow> timespec_get_month now; d \<leftarrow> timespec_get_day now;
          h \<leftarrow> timespec_get_hour now; mi \<leftarrow> timespec_get_min now; s \<leftarrow> timespec_get_sec now;
          let y = (if y < 1980 then 1980 else y);
          Some (word_of_int (push_bit 9 (y - 1980) OR push_bit 5 mo OR d),
                word_of_int (push_bit 11 h OR push_bit 5 mi OR drop_bit 1 s)) }"

definition fat16_entry_stamp :: "u16 \<times> u16 \<Rightarrow> fat16_directory \<Rightarrow> fat16_directory" where
  "fat16_entry_stamp now e = e\<lparr>fd_creation_time_tenths := 0, fd_creation_time := snd now, fd_creation_date := fst now,
     fd_last_access_date := fst now, fd_write_time := snd now, fd_write_date := fst now\<rparr>"

definition fat16_entry_touch :: "u16 \<times> u16 \<Rightarrow> fat16_directory \<Rightarrow> fat16_directory" where
  "fat16_entry_touch now e = e\<lparr>fd_write_time := snd now, fd_write_date := fst now, fd_last_access_date := fst now\<rparr>"

text \<open>\<^verbatim>\<open>is_dir\<close> and \<^verbatim>\<open>fat16_fill_entry\<close> of fat16.c.\<close>

definition is_dir :: "fat16_directory \<Rightarrow> bool" where
  "is_dir e \<longleftrightarrow> fd_attributes e AND FAT16_ATTR_DIRECTORY \<noteq> 0"

definition fat16_fill_entry :: "u16 \<times> u16 \<Rightarrow> u8 list \<Rightarrow> u8 \<Rightarrow> fat16_directory option" where
  "fat16_fill_entry now name attributes =
     map_option (\<lambda>(n, e). fat16_entry_stamp now (zero_entry\<lparr>fd_name := n, fd_extension := e, fd_attributes := attributes\<rparr>))
       (fat16_str_to_name name)"

section \<open>Layout\<close>

lemma length_dir_bytes [simp]: "length (fd_name e) = 8 \<Longrightarrow> length (fd_extension e) = 3 \<Longrightarrow> length (dir_bytes e) = 32"
  by (simp add: dir_bytes_def)

lemma dir_of_bytes:
  assumes "length (fd_name e) = 8" "length (fd_extension e) = 3"
  shows "dir_of (dir_bytes e) = e"
  using assms by (cases e) (simp add: dir_of_def dir_bytes_def nth_append le16_bytes_def le32_bytes_def)

lemma dir_bytes_of:
  assumes "length b = 32"
  shows "dir_bytes (dir_of b) = b"
proof -
  have "b = take 8 b @ take 3 (drop 8 b) @ map ((!) b) [11..<32]"
    by (rule nth_equalityI) (auto simp: assms nth_append simp del: upt_rec_numeral)
  moreover have "[11..<32] = [11, 12, 13, 14, 15, 16, 17, 18, 19, 20, 21, 22, 23, 24, 25, 26, 27, 28, 29, 30, 31 :: nat]"
    by (simp add: upt_rec)
  ultimately show ?thesis
    by (simp add: dir_bytes_def dir_of_def le16_bytes_def le32_bytes_def)
qed

lemma zero_entry_lengths [simp]: "length (fd_name zero_entry) = 8" "length (fd_extension zero_entry) = 3"
  by (simp_all add: zero_entry_def dir_of_def)

section \<open>Names\<close>

lemma fill_field_spec:
  "fill_field lim stop acc cs =
    (if length acc + length (takeWhile (\<lambda>c. \<not> stop c) cs) \<le> lim \<or> takeWhile (\<lambda>c. \<not> stop c) cs = []
     then Some (acc @ map to_upper (takeWhile (\<lambda>c. \<not> stop c) cs), dropWhile (\<lambda>c. \<not> stop c) cs) else None)"
  by (induction cs arbitrary: acc) auto

text \<open>The parts of a name before and after its first dot.\<close>

definition stem :: "u8 list \<Rightarrow> u8 list" where "stem s = takeWhile (\<lambda>c. c \<noteq> 46) s"
definition suffix :: "u8 list \<Rightarrow> u8 list" where "suffix s = drop 1 (dropWhile (\<lambda>c. c \<noteq> 46) s)"

lemma stem_suffix: "s = (if 46 \<in> set s then stem s @ 46 # suffix s else stem s)"
  by (induction s) (auto simp: stem_def suffix_def)

lemma suffix_no_dot: "46 \<notin> set s \<Longrightarrow> suffix s = []"
  by (induction s) (auto simp: suffix_def)

lemma takeWhile_True: "takeWhile (\<lambda>_. True) xs = xs" "dropWhile (\<lambda>_. True) xs = []"
  by (induction xs) auto

lemma str_to_name_spec:
  "fat16_str_to_name s = (let t = skip_slashes s in
     if stem t \<noteq> [] \<and> length (stem t) \<le> 8 \<and> length (suffix t) \<le> 3
     then Some (pad 8 (map to_upper (stem t)), pad 3 (map to_upper (suffix t))) else None)"
proof -
  define w d where "w = takeWhile (\<lambda>c. c \<noteq> 46) (skip_slashes s)" and "d = dropWhile (\<lambda>c. c \<noteq> 46) (skip_slashes s)"
  show ?thesis
    unfolding fat16_str_to_name_def fill_field_spec Let_def stem_def suffix_def w_def [symmetric] d_def [symmetric]
    by (cases d) (auto simp: takeWhile_True)
qed

lemma unat_to_upper: "unat (to_upper c) = (if 97 \<le> unat c \<and> unat c \<le> 122 then unat c - 32 else unat c)"
proof -
  have "unat (c - 32) = unat c - 32" if "97 \<le> unat c"
    using that by (subst unat_sub) (simp_all add: word_le_nat_alt)
  then show ?thesis
    by (simp add: to_upper_def word_le_nat_alt)
qed

lemma to_upper_class [simp]:
  "to_upper c = 32 \<longleftrightarrow> c = 32" "to_upper c = 0 \<longleftrightarrow> c = 0" "to_upper c = 0xE5 \<longleftrightarrow> c = 0xE5" "to_upper c < 32 \<longleftrightarrow> c < 32"
  "0x7E < to_upper c \<longleftrightarrow> 0x7E < c"
  unfolding word_unat_eq_iff word_less_nat_alt unat_to_upper by auto

lemma tolower_upper_nat: "tolower (int (if 97 \<le> n \<and> n \<le> 122 then n - 32 else n)) = tolower (int n)"
  by (auto simp: tolower_def)

lemma tolower_to_upper [simp]: "tolower (uint (to_upper c)) = tolower (uint c)"
  unfolding uint_nat unat_to_upper by (rule tolower_upper_nat)

text \<open>A name comes back from its entry as it was given, up to case, exactly when it has no space and does not
  end in its first dot.\<close>

definition keeps_text :: "u8 list \<Rightarrow> bool" where
  "keeps_text t \<longleftrightarrow> 32 \<notin> set t \<and> t \<noteq> stem t @ [46]"

lemma length_filter_map_upper: "length (filter (\<lambda>c. c \<noteq> 32) (map to_upper xs)) = length (filter (\<lambda>c. c \<noteq> 32) xs)"
  by (induction xs) auto

lemma filter_pad [simp]: "filter (\<lambda>c. c \<noteq> 32) (replicate n (32 :: u8)) = []"
  by (induction n) auto

lemma filter_no_space: "32 \<notin> set xs \<Longrightarrow> filter (\<lambda>c. c \<noteq> 32) xs = xs" for xs :: "u8 list"
  by (induction xs) auto

lemma filter_upper_no_space: "32 \<notin> set xs \<Longrightarrow> filter (\<lambda>c. c \<noteq> 32) (map to_upper xs) = map to_upper xs"
  by (induction xs) auto

lemma filter_space_less: "32 \<in> set xs \<Longrightarrow> length (filter (\<lambda>c. c \<noteq> 32) xs) < length xs" for xs :: "u8 list"
  by (rule length_filter_less) auto

lemma name_text_iff:
  assumes "length (suffix t) \<le> 3"
  shows "lower t = lower (fat16_name_to_str (pad 8 (map to_upper (stem t))) (pad 3 (map to_upper (suffix t)))) \<longleftrightarrow> keeps_text t"
    (is "lower t = lower ?u \<longleftrightarrow> _")
proof
  assume "lower t = lower ?u"
  then have len: "length t = length ?u" by (simp add: lower_def) (metis length_map)
  show "keeps_text t"
  proof (cases "46 \<in> set t")
    case False
    then have st: "stem t = t" "suffix t = []" using stem_suffix [of t] suffix_no_dot by auto
    then have "?u = filter (\<lambda>c. c \<noteq> 32) (map to_upper t)"
      by (simp add: fat16_name_to_str_def)
    then have "32 \<notin> set t"
      using len filter_space_less [of t] length_filter_map_upper [of t] by fastforce
    then show ?thesis using st by (simp add: keeps_text_def)
  next
    case True
    then have t: "t = stem t @ 46 # suffix t" using stem_suffix [of t] by simp
    then have lt: "length t = length (stem t) + 1 + length (suffix t)" by (metis add.assoc add.commute length_Cons length_append plus_1_eq_Suc)
    have u: "length ?u = length (filter (\<lambda>c. c \<noteq> 32) (stem t)) +
        (if suffix t \<noteq> [] \<and> hd (suffix t) \<noteq> 32 then 1 + length (filter (\<lambda>c. c \<noteq> 32) (suffix t)) else 0)"
      by (cases "suffix t") (auto simp: fat16_name_to_str_def filter_map comp_def)
    note fl = length_filter_le [of "\<lambda>c. c \<noteq> 32" "stem t"] length_filter_le [of "\<lambda>c. c \<noteq> 32" "suffix t"]
    have ne: "suffix t \<noteq> [] \<and> hd (suffix t) \<noteq> 32"
    proof (rule ccontr)
      assume "\<not> ?thesis"
      then have "length ?u = length (filter (\<lambda>c. c \<noteq> 32) (stem t))" using u by simp
      then show False using fl(1) len lt by linarith
    qed
    then have "length (filter (\<lambda>c. c \<noteq> 32) (stem t)) + length (filter (\<lambda>c. c \<noteq> 32) (suffix t)) = length (stem t) + length (suffix t)"
      using u len lt by simp
    then have sp: "32 \<notin> set (stem t)" "32 \<notin> set (suffix t)"
      using fl filter_space_less [of "stem t"] filter_space_less [of "suffix t"] by linarith+
    have "set t = set (stem t) \<union> insert 46 (set (suffix t))" by (subst t) simp
    moreover have "t \<noteq> stem t @ [46]" using ne by (subst t) simp
    ultimately show ?thesis
      using sp by (simp add: keeps_text_def)
  qed
next
  assume k: "keeps_text t"
  show "lower t = lower ?u"
  proof (cases "46 \<in> set t")
    case False
    then have "stem t = t" "suffix t = []" using stem_suffix [of t] suffix_no_dot by auto
    then show ?thesis
      using k by (simp add: keeps_text_def fat16_name_to_str_def lower_def filter_no_space filter_map comp_def)
  next
    case True
    then have t: "t = stem t @ 46 # suffix t" using stem_suffix [of t] by simp
    then have s: "32 \<notin> set (stem t)" "32 \<notin> set (suffix t)" "suffix t \<noteq> []"
      using k unfolding keeps_text_def by (metis Un_iff set_append list.set_intros(2), metis Un_iff set_append list.set_intros(2), metis)
    then have "?u = map to_upper (stem t) @ 46 # map to_upper (suffix t)"
      by (cases "suffix t") (auto simp: fat16_name_to_str_def filter_upper_no_space)
    then have "lower ?u = lower (stem t @ 46 # suffix t)"
      by (simp add: lower_def comp_def)
    then show ?thesis using t by simp
  qed
qed

abbreviation printable :: "u8 \<Rightarrow> bool" where "printable c \<equiv> 0x20 \<le> c \<and> c \<le> 0x7E"

lemma set_stem_suffix: "set t = set (stem t) \<union> (if 46 \<in> set t then {46} else {}) \<union> set (suffix t)"
proof (cases "46 \<in> set t")
  case True
  then have "t = stem t @ 46 # suffix t" using stem_suffix [of t] by simp
  from arg_cong [OF this, of set] show ?thesis using True by simp
next
  case False
  then have "t = stem t" "suffix t = []" using stem_suffix [of t] suffix_no_dot by auto
  then show ?thesis using False by simp
qed

lemma printable_stem_suffix:
  "list_all printable t \<longleftrightarrow> list_all printable (stem t) \<and> list_all printable (suffix t)"
proof -
  have "(\<forall>c\<in>set t. P c) \<longleftrightarrow> (\<forall>c\<in>set (stem t). P c) \<and> (\<forall>c\<in>set (suffix t). P c)" if "P 46" for P
    by (subst set_stem_suffix) (use that in auto)
  from this [of printable] show ?thesis unfolding list_all_iff by simp
qed

lemma list_all_pad_upper: "list_all (\<lambda>c. \<not> (c < 0x20 \<or> c > 0x7E)) (pad n (map to_upper xs)) \<longleftrightarrow> list_all printable xs"
proof -
  have "printable (to_upper c) \<longleftrightarrow> printable c" for c
    using to_upper_class(4,5) [of c] unfolding not_less [symmetric] by blast
  then show ?thesis
    by (simp add: list_all_iff ball_Un not_less)
qed

lemma fill_entry_fields:
  assumes "fat16_fill_entry now name attr = Some e"
  shows "fd_name e = pad 8 (map to_upper (stem (skip_slashes name)))" "fd_extension e = pad 3 (map to_upper (suffix (skip_slashes name)))"
    "fd_attributes e = attr" "stem (skip_slashes name) \<noteq> []" "length (stem (skip_slashes name)) \<le> 8" "length (suffix (skip_slashes name)) \<le> 3"
    "fd_first_cluster_low e = 0" "fd_file_size_bytes e = 0"
  using assms
  by (auto simp: fat16_fill_entry_def str_to_name_spec Let_def fat16_entry_stamp_def zero_entry_def dir_of_def le16_def le32_def split: if_splits)

text \<open>A freshly filled entry is valid and answers to the name it was created under exactly when that name,
  without leading slashes, is printable, has no space and does not end in its first dot. Other names that the parser
  accepts, such as \<^verbatim>\<open>a b\<close> or \<^verbatim>\<open>foo.\<close>, are written to the directory but can never be found again.\<close>

theorem fat16_name_found_iff:
  assumes e: "fat16_fill_entry now name attr = Some e" and attr: "attr = FAT16_ATTR_ARCHIVE \<or> attr = FAT16_ATTR_DIRECTORY"
    and str: "0 \<notin> set name"
  shows "fat16_entry_valid e \<and> fat16_name_cmp name e \<longleftrightarrow>
    list_all printable (skip_slashes name) \<and> keeps_text (skip_slashes name)"
proof -
  let ?t = "skip_slashes name"
  note f = fill_entry_fields [OF e]
  obtain c cs where c: "stem ?t = c # cs" using f(4) by (cases "stem ?t") auto
  then have "c \<in> set ?t" using set_stem_suffix [of ?t] by auto
  then have c0: "c \<noteq> 0" using str set_dropWhileD [of c _ name] by (auto simp: skip_slashes_def)
  have cmp: "fat16_name_cmp name e \<longleftrightarrow> keeps_text ?t"
    unfolding fat16_name_cmp_def f(1,2) by (rule name_text_iff [OF f(6)])
  have "fat16_entry_valid e \<longleftrightarrow> c \<noteq> 0xE5 \<and> list_all printable (stem ?t) \<and> list_all printable (suffix ?t)"
    using attr c0 unfolding fat16_entry_valid_def f(1-3) list_all_pad_upper by (auto simp: c fat16_consts)
  moreover have "c \<noteq> 0xE5" if "list_all printable (stem ?t)"
    using that c by (auto simp: word_le_nat_alt)
  ultimately show ?thesis
    using cmp printable_stem_suffix [of ?t] by auto
qed

theorem fat16_name_found_iff_witness:
  "let name = [97, 46, 99] in 0 \<notin> set name \<and>
    (\<exists>e. fat16_fill_entry (0, 0) name FAT16_ATTR_ARCHIVE = Some e \<and> fat16_entry_valid e \<and> fat16_name_cmp name e)"
proof -
  have f: "\<exists>e. fat16_fill_entry (0, 0) [97, 46, 99] FAT16_ATTR_ARCHIVE = Some e"
    by (simp add: fat16_fill_entry_def str_to_name_spec skip_slashes_def stem_def suffix_def)
  then obtain e where e: "fat16_fill_entry (0, 0) [97, 46, 99] FAT16_ATTR_ARCHIVE = Some e" by blast
  moreover have "keeps_text [97, 46, 99]" "list_all printable [97, 46, 99]" "skip_slashes [97, 46, 99] = [97, 46, 99]"
    by (simp_all add: keeps_text_def stem_def skip_slashes_def)
  ultimately show ?thesis
    using fat16_name_found_iff [OF e] by (auto simp: Let_def)
qed

end
