(* ===== verification/Fat16_Table.thy ===== *)
theory Fat16_Table
  imports Fat16_Dir Blk_Dev
begin

text \<open>
  The allocation table of FAT16: the mounted volume of \<^verbatim>\<open>src/lizard/fat16_types.h\<close> and the FAT operations of
  \<^verbatim>\<open>src/lizard/fat16_helpers.c\<close> over the block layer. The record \<open>fat16\<close> also carries the state of the block
  layer, a global of the kernel. An operation returns \<open>None\<close> when it divides by zero, leaves a 512-byte sector
  buffer, or never returns; an error code of the code is the inner \<open>None\<close> or \<open>False\<close>.
\<close>

section \<open>The mounted volume\<close>

record fat_header =
  fh_bytes_per_sector :: u16
  fh_sectors_per_cluster :: u8
  fh_reserved_sector_count :: u16
  fh_num_fats :: u8
  fh_root_entry_count :: u16
  fh_total_sectors_16 :: u16
  fh_fat_size_16 :: u16
  fh_total_sectors_32 :: u32
  fh_boot_signature :: u8

text \<open>The fields of the packed boot sector that the driver reads.\<close>

definition header_of :: "u8 list \<Rightarrow> fat_header" where
  "header_of b = \<lparr>fh_bytes_per_sector = le16 (b ! 11) (b ! 12), fh_sectors_per_cluster = b ! 13,
     fh_reserved_sector_count = le16 (b ! 14) (b ! 15), fh_num_fats = b ! 16, fh_root_entry_count = le16 (b ! 17) (b ! 18),
     fh_total_sectors_16 = le16 (b ! 19) (b ! 20), fh_fat_size_16 = le16 (b ! 22) (b ! 23),
     fh_total_sectors_32 = le32 (b ! 32) (b ! 33) (b ! 34) (b ! 35), fh_boot_signature = b ! 38\<rparr>"

record 'h fat16 =
  fs_header :: fat_header
  fs_dev :: "'h block_dev"
  fat_start_lba :: u32
  root_dir_lba :: u32
  data_region_lba :: u32
  root_dir_sectors :: u32
  total_clusters :: u32
  fat_cache :: "u8 list option"
  fat_bytes :: u32
  fs_blk :: "'h blk"

abbreviation bps :: "'h fat16 \<Rightarrow> u32" where "bps fs \<equiv> ucast (fh_bytes_per_sector (fs_header fs))"
abbreviation spc :: "'h fat16 \<Rightarrow> u32" where "spc fs \<equiv> ucast (fh_sectors_per_cluster (fs_header fs))"

text \<open>One sector read or written through the block layer.\<close>

definition fs_read :: "'h fat16 \<Rightarrow> u32 \<Rightarrow> u8 list option \<times> 'h fat16" where
  "fs_read fs sector =
     (case blk_dev_read (fs_dev fs) (ucast sector) 1 (fs_blk fs) of (r, buf, st) \<Rightarrow>
        (if r \<noteq> 0 then None else Some buf, fs\<lparr>fs_blk := st\<rparr>))"

definition fs_write :: "'h fat16 \<Rightarrow> u32 \<Rightarrow> u8 list \<Rightarrow> bool \<times> 'h fat16" where
  "fs_write fs sector buf =
     (case blk_dev_write (fs_dev fs) (ucast sector) buf 1 (fs_blk fs) of (r, st) \<Rightarrow> (r = 0, fs\<lparr>fs_blk := st\<rparr>))"

text \<open>Bytes overwritten in a buffer; the caller checks that they fit.\<close>

definition patch :: "nat \<Rightarrow> u8 list \<Rightarrow> u8 list \<Rightarrow> u8 list" where
  "patch off bs buf = take off buf @ bs @ drop (off + length bs) buf"

section \<open>FAT entries\<close>

definition fat_get_disk :: "'h fat16 \<Rightarrow> u32 \<Rightarrow> (u16 option \<times> 'h fat16) option" where
  "fat_get_disk fs byte =
     (if bps fs = 0 then None
      else let sector = fat_start_lba fs + byte div bps fs; off = unat (byte mod bps fs)
           in case fs_read fs sector of
                (None, fs) \<Rightarrow> Some (None, fs)
              | (Some buf, fs) \<Rightarrow> if off + 2 > FAT16_SECTOR_SIZE then None else Some (Some (le16 (buf ! off) (buf ! (off + 1))), fs))"

definition fat16_fat_get :: "'h fat16 \<Rightarrow> u16 \<Rightarrow> (u16 option \<times> 'h fat16) option" where
  "fat16_fat_get fs cluster =
     (let byte = ucast cluster * 2 :: u32 in
      case fat_cache fs of
        Some cache \<Rightarrow>
          if unat byte + 2 \<le> unat (fat_bytes fs) then Some (Some (le16 (cache ! unat byte) (cache ! (unat byte + 1))), fs)
          else fat_get_disk fs byte
      | None \<Rightarrow> fat_get_disk fs byte)"

text \<open>The loop over the copies of the FAT, from copy \<open>f\<close> on with \<open>n\<close> copies to go.\<close>

primrec fat_set_loop :: "nat \<Rightarrow> nat \<Rightarrow> u32 \<Rightarrow> u16 \<Rightarrow> 'h fat16 \<Rightarrow> (bool \<times> 'h fat16) option" where
  "fat_set_loop 0 f byte value fs = Some (True, fs)"
| "fat_set_loop (Suc n) f byte value fs =
     (let sector = fat_start_lba fs + of_nat f * ucast (fh_fat_size_16 (fs_header fs)) + byte div bps fs;
          off = unat (byte mod bps fs)
      in case fs_read fs sector of
           (None, fs) \<Rightarrow> Some (False, fs)
         | (Some buf, fs) \<Rightarrow>
             if off + 2 > FAT16_SECTOR_SIZE then None
             else case fs_write fs sector (patch off (le16_bytes value) buf) of
                    (False, fs) \<Rightarrow> Some (False, fs)
                  | (True, fs) \<Rightarrow> fat_set_loop n (Suc f) byte value fs)"

definition fat16_fat_set :: "'h fat16 \<Rightarrow> u16 \<Rightarrow> u16 \<Rightarrow> (bool \<times> 'h fat16) option" where
  "fat16_fat_set fs cluster value =
     (let byte = ucast cluster * 2 :: u32 in
      if bps fs = 0 then None
      else do { (ok, fs) \<leftarrow> fat_set_loop (unat (fh_num_fats (fs_header fs))) 0 byte value fs;
                if \<not> ok then Some (False, fs)
                else case fat_cache fs of
                       Some cache \<Rightarrow>
                         if unat byte + 2 \<le> unat (fat_bytes fs)
                         then Some (True, fs\<lparr>fat_cache := Some (patch (unat byte) (le16_bytes value) cache)\<rparr>)
                         else Some (True, fs)
                     | None \<Rightarrow> Some (True, fs) })"

definition fat16_next_cluster :: "'h fat16 \<Rightarrow> u16 \<Rightarrow> (u16 \<times> 'h fat16) option" where
  "fat16_next_cluster fs cluster =
     do { (v, fs) \<leftarrow> fat16_fat_get fs cluster; Some (case v of None \<Rightarrow> FAT16_EOC | Some n \<Rightarrow> n, fs) }"

definition fat16_cluster_to_lba :: "'h fat16 \<Rightarrow> u16 \<Rightarrow> u32" where
  "fat16_cluster_to_lba fs cluster =
     (if cluster < FAT16_CLUSTER_MIN then 0
      else ucast (cluster - FAT16_CLUSTER_MIN) * spc fs + data_region_lba fs)"

text \<open>The search for a free cluster from \<open>c\<close> on, over \<open>n\<close> candidates.\<close>

primrec cluster_search :: "nat \<Rightarrow> u16 \<Rightarrow> 'h fat16 \<Rightarrow> (u16 option \<times> 'h fat16) option" where
  "cluster_search 0 c fs = Some (None, fs)"
| "cluster_search (Suc n) c fs =
     do { (v, fs) \<leftarrow> fat16_fat_get fs c;
          case v of
            None \<Rightarrow> Some (None, fs)
          | Some v \<Rightarrow>
              if v = FAT16_FREE_CLUSTER
              then do { (ok, fs) \<leftarrow> fat16_fat_set fs c FAT16_EOC; Some (if ok then Some c else None, fs) }
              else cluster_search n (c + 1) fs }"

definition fat16_cluster_alloc :: "'h fat16 \<Rightarrow> (u16 option \<times> 'h fat16) option" where
  "fat16_cluster_alloc fs =
     (let last = total_clusters fs + 1;
          last = (if last > ucast FAT16_CLUSTER_MAX then ucast FAT16_CLUSTER_MAX else last)
      in cluster_search (unat last + 1 - unat FAT16_CLUSTER_MIN) FAT16_CLUSTER_MIN fs)"

partial_function (option) fat16_chain_free :: "'h fat16 \<Rightarrow> u16 \<Rightarrow> (bool \<times> 'h fat16) option" where
  "fat16_chain_free fs c =
     (if \<not> fat16_cluster_valid c then Some (True, fs)
      else do { (next, fs) \<leftarrow> fat16_fat_get fs c;
                case next of
                  None \<Rightarrow> Some (False, fs)
                | Some n \<Rightarrow>
                    do { (ok, fs) \<leftarrow> fat16_fat_set fs c FAT16_FREE_CLUSTER;
                         if \<not> ok then Some (False, fs) else fat16_chain_free fs n } })"

section \<open>Buffers and FAT addresses\<close>

lemma length_patch [simp]: "off + length bs \<le> length buf \<Longrightarrow> length (patch off bs buf) = length buf"
  by (simp add: patch_def)

lemma nth_patch:
  "off + length bs \<le> length buf \<Longrightarrow> i < length buf \<Longrightarrow>
    patch off bs buf ! i = (if off \<le> i \<and> i < off + length bs then bs ! (i - off) else buf ! i)"
  by (auto simp: patch_def nth_append)

lemma unat_fat_byte: "unat (ucast (c :: u16) * 2 :: u32) = 2 * unat c"
proof -
  have "unat c < 65536" using unat_lt2p [of c] by simp
  then have "unat (ucast c :: u32) * unat (2 :: u32) < 2 ^ LENGTH(32)" by simp
  then show ?thesis using unat_mult_lem [of "ucast c :: u32" 2] by simp
qed

lemma fat_byte_div_mod:
  "unat ((ucast (c :: u16) * 2 :: u32) div 512) = unat c div 256" "unat ((ucast c * 2 :: u32) mod 512) = 2 * (unat c mod 256)"
  unfolding unat_div unat_mod_distrib unat_fat_byte using mult_mod_right [of 2 "unat c" 256] by simp_all

text \<open>The sector of copy \<open>g\<close> of the FAT that holds the entry of a cluster.\<close>

definition fat_sector :: "'h fat16 \<Rightarrow> nat \<Rightarrow> u16 \<Rightarrow> u32" where
  "fat_sector fs g c = fat_start_lba fs + of_nat g * ucast (fh_fat_size_16 (fs_header fs)) + (ucast c * 2) div 512"

section \<open>The volume invariant\<close>

abbreviation fat_size :: "'h fat16 \<Rightarrow> nat" where "fat_size fs \<equiv> unat (fh_fat_size_16 (fs_header fs))"
abbreviation num_fats :: "'h fat16 \<Rightarrow> nat" where "num_fats fs \<equiv> unat (fh_num_fats (fs_header fs))"

text \<open>The regions of the volume, in order and inside the disk, with a FAT that has room for every cluster.\<close>

definition fat_geom :: "nat \<Rightarrow> 'h fat16 \<Rightarrow> bool" where
  "fat_geom nsecs fs \<longleftrightarrow> fh_bytes_per_sector (fs_header fs) = 512 \<and> 0 < fh_sectors_per_cluster (fs_header fs) \<and> 0 < num_fats fs \<and>
     unat (fat_start_lba fs) + num_fats fs * fat_size fs \<le> unat (root_dir_lba fs) \<and>
     unat (root_dir_lba fs) + unat (root_dir_sectors fs) \<le> unat (data_region_lba fs) \<and>
     unat (data_region_lba fs) + unat (total_clusters fs) * unat (spc fs) \<le> nsecs \<and> nsecs < 2 ^ 32 \<and>
     unat (total_clusters fs) + 2 \<le> 256 * fat_size fs"

text \<open>The entry of a cluster in the first FAT on the disk, and a cached FAT that agrees with it.\<close>

definition fatv :: "(u64 \<Rightarrow> u8 list) \<Rightarrow> 'h fat16 \<Rightarrow> u16 \<Rightarrow> u16" where
  "fatv D fs c = (let b = D (ucast (fat_sector fs 0 c)); off = 2 * (unat c mod 256) in le16 (b ! off) (b ! (off + 1)))"

definition cache_ok :: "(u64 \<Rightarrow> u8 list) \<Rightarrow> 'h fat16 \<Rightarrow> bool" where
  "cache_ok D fs \<longleftrightarrow> (case fat_cache fs of None \<Rightarrow> True
     | Some cache \<Rightarrow> length cache = unat (fat_bytes fs) \<and> unat (fat_bytes fs) \<le> 512 * fat_size fs \<and>
         (\<forall>c. 2 * unat c + 2 \<le> unat (fat_bytes fs) \<longrightarrow> le16 (cache ! (2 * unat c)) (cache ! (2 * unat c + 1)) = fatv D fs c))"

text \<open>The volume on a device with a driver that honours its contract.\<close>

definition fs_base ::
  "(u64 \<Rightarrow> nat \<Rightarrow> 'h \<Rightarrow> int \<times> u8 list \<times> 'h) \<Rightarrow> (u64 \<Rightarrow> u8 list \<Rightarrow> nat \<Rightarrow> 'h \<Rightarrow> int \<times> 'h) \<Rightarrow>
   ('h \<Rightarrow> u64 \<Rightarrow> u8 list) \<Rightarrow> ('h \<Rightarrow> bool) \<Rightarrow> nat \<Rightarrow> 'h fat16 \<Rightarrow> bool" where
  "fs_base rd wr content good nsecs fs \<longleftrightarrow> blk_attached rd wr (fs_dev fs) \<and>
     blk_coherent content good nsecs (fs_dev fs) (fs_blk fs) \<and> fat_geom nsecs fs"

definition fs_inv ::
  "(u64 \<Rightarrow> nat \<Rightarrow> 'h \<Rightarrow> int \<times> u8 list \<times> 'h) \<Rightarrow> (u64 \<Rightarrow> u8 list \<Rightarrow> nat \<Rightarrow> 'h \<Rightarrow> int \<times> 'h) \<Rightarrow>
   ('h \<Rightarrow> u64 \<Rightarrow> u8 list) \<Rightarrow> ('h \<Rightarrow> bool) \<Rightarrow> nat \<Rightarrow> 'h fat16 \<Rightarrow> bool" where
  "fs_inv rd wr content good nsecs fs \<longleftrightarrow> fs_base rd wr content good nsecs fs \<and> cache_ok (content (hw (fs_blk fs))) fs"

text \<open>Two states of the same mounted volume.\<close>

definition same_vol :: "'h fat16 \<Rightarrow> 'h fat16 \<Rightarrow> bool" where
  "same_vol fs fs' \<longleftrightarrow> fs' = fs\<lparr>fat_cache := fat_cache fs', fs_blk := fs_blk fs'\<rparr>"

lemma same_vol_refl [simp]: "same_vol fs fs"
  by (simp add: same_vol_def)

lemma same_vol_trans: "same_vol a b \<Longrightarrow> same_vol b c \<Longrightarrow> same_vol a c"
  by (cases a; cases b; cases c) (simp add: same_vol_def)

lemma same_volD:
  assumes "same_vol fs fs'"
  shows "fs_header fs' = fs_header fs" "fs_dev fs' = fs_dev fs" "fat_start_lba fs' = fat_start_lba fs" "root_dir_lba fs' = root_dir_lba fs"
    "data_region_lba fs' = data_region_lba fs" "root_dir_sectors fs' = root_dir_sectors fs" "total_clusters fs' = total_clusters fs"
    "fat_bytes fs' = fat_bytes fs"
  using assms by (cases fs; cases fs'; simp add: same_vol_def)+

lemma same_vol_fns:
  assumes "same_vol fs fs'"
  shows "fat_sector fs' = fat_sector fs" "fatv D fs' = fatv D fs" "fat_geom n fs' = fat_geom n fs"
    "fat16_cluster_to_lba fs' = fat16_cluster_to_lba fs"
  using same_volD [OF assms]
  by (auto simp: fat_sector_def fun_eq_iff fatv_def fat_geom_def fat16_cluster_to_lba_def)

lemma unat_fat_sector:
  assumes g: "fat_geom nsecs fs" and f: "f < num_fats fs" and c: "unat c < 256 * fat_size fs"
  shows "unat (fat_sector fs f c) = unat (fat_start_lba fs) + f * fat_size fs + unat c div 256"
    "unat (fat_sector fs f c) < nsecs" "unat (fat_sector fs f c) < unat (root_dir_lba fs)"
proof -
  let ?z = "fat_size fs" and ?s = "unat (fat_start_lba fs)"
  have cz: "unat c div 256 < ?z" using c by (simp add: less_mult_imp_div_less mult.commute)
  have "(f + 1) * ?z \<le> num_fats fs * ?z" using f by (intro mult_le_mono1) simp
  then have lt: "?s + f * ?z + unat c div 256 < unat (root_dir_lba fs)"
    using g cz by (simp add: fat_geom_def)
  also have "unat (root_dir_lba fs) \<le> nsecs" using g by (simp add: fat_geom_def)
  finally have ln: "?s + f * ?z + unat c div 256 < nsecs" .
  have n32: "nsecs < 2 ^ 32" using g by (simp add: fat_geom_def)
  have f8: "f < 256" using f unat_lt2p [of "fh_num_fats (fs_header fs)"] by simp
  have z16: "?z < 65536" using unat_lt2p [of "fh_fat_size_16 (fs_header fs)"] by simp
  have fz: "f * ?z < 2 ^ 32" using ln n32 by linarith
  have uf: "unat (of_nat f :: u32) = f" using f8 by (intro unat_of_nat_small) simp
  have m: "unat (of_nat f * ucast (fh_fat_size_16 (fs_header fs)) :: u32) = f * ?z"
    using unat_mult_lem [of "of_nat f :: u32" "ucast (fh_fat_size_16 (fs_header fs))"] fz uf by simp
  have a1: "unat (fat_start_lba fs + of_nat f * ucast (fh_fat_size_16 (fs_header fs))) = ?s + f * ?z"
    using m ln n32 by (subst unat_add_small) simp_all
  then show "unat (fat_sector fs f c) = ?s + f * ?z + unat c div 256"
    unfolding fat_sector_def using ln n32 by (subst unat_add_small) (simp_all add: fat_byte_div_mod)
  then show "unat (fat_sector fs f c) < nsecs" "unat (fat_sector fs f c) < unat (root_dir_lba fs)"
    using ln lt by simp_all
qed

lemma fat_sector_inj:
  assumes g: "fat_geom nsecs fs" and "f < num_fats fs" "f' < num_fats fs" "unat c < 256 * fat_size fs" "unat c' < 256 * fat_size fs"
    and eq: "fat_sector fs f c = fat_sector fs f' c'"
  shows "f = f' \<and> unat c div 256 = unat c' div 256"
proof -
  have "f * fat_size fs + unat c div 256 = f' * fat_size fs + unat c' div 256"
    using unat_fat_sector(1) [OF g assms(2,4)] unat_fat_sector(1) [OF g assms(3,5)] eq by simp
  moreover have "unat c div 256 < fat_size fs" "unat c' div 256 < fat_size fs"
    using assms(4,5) by (simp_all add: less_mult_imp_div_less mult.commute)
  ultimately show ?thesis
    by (metis (no_types, lifting) div_mult_self3 div_less add.right_neutral add.commute mod_less mod_mult_self3 not_less_zero div_mult_self1)
qed

text \<open>The disk after an entry has been stored in the copies \<open>gs\<close> of the FAT.\<close>

definition fat_upd :: "'h fat16 \<Rightarrow> u16 \<Rightarrow> u16 \<Rightarrow> nat set \<Rightarrow> (u64 \<Rightarrow> u8 list) \<Rightarrow> u64 \<Rightarrow> u8 list" where
  "fat_upd fs c v gs D t =
     (if \<exists>g\<in>gs. t = ucast (fat_sector fs g c) then patch (2 * (unat c mod 256)) (le16_bytes v) (D t) else D t)"

lemma ucast_32_64_inj: "ucast (a :: u32) = (ucast b :: u64) \<longleftrightarrow> a = b"
  by (metis unat_ucast_32_64 word_unat_eq_iff)

lemma entry_offset: "2 * (unat (c :: u16) mod 256) + 2 \<le> 512"
proof -
  have "unat c mod 256 < 256" by simp
  then show ?thesis by linarith
qed

lemma fatv_upd:
  assumes g: "fat_geom nsecs fs" and c: "unat c < 256 * fat_size fs" "unat c' < 256 * fat_size fs"
    and len: "length (D (ucast (fat_sector fs 0 c))) = 512"
  shows "fatv (fat_upd fs c v {0..<num_fats fs} D) fs c' = (if c' = c then v else fatv D fs c')"
proof -
  have nf: "0 < num_fats fs" using g by (simp add: fat_geom_def)
  have hit: "(\<exists>f\<in>{0..<num_fats fs}. ucast (fat_sector fs 0 c') = (ucast (fat_sector fs f c) :: u64)) \<longleftrightarrow> unat c' div 256 = unat c div 256"
    using fat_sector_inj [OF g nf _ c(2,1)] unat_fat_sector(1) [OF g nf c(1)] unat_fat_sector(1) [OF g nf c(2)] nf
    by (auto simp: ucast_32_64_inj word_unat_eq_iff intro!: bexI [of _ 0])
  show ?thesis
  proof (cases "unat c' div 256 = unat c div 256")
    case False
    then show ?thesis using hit by (auto simp: fatv_def fat_upd_def)
  next
    case True
    then have same: "fat_sector fs 0 c' = fat_sector fs 0 c"
      using unat_fat_sector(1) [OF g nf c(1)] unat_fat_sector(1) [OF g nf c(2)] by (simp add: word_unat_eq_iff)
    have eq: "c' = c \<longleftrightarrow> unat c' mod 256 = unat c mod 256"
      using True by (metis div_mult_mod_eq word_unat_eq_iff)
    show ?thesis
      using hit True entry_offset [of c] entry_offset [of c'] len
      by (auto simp: fatv_def fat_upd_def same eq nth_patch le16_bytes_def Let_def; presburger?)
  qed
qed

text \<open>A change of the volume that leaves the entries \<open>F\<close> in the FAT and no trace behind the FATs.\<close>

definition fat_changed :: "(u64 \<Rightarrow> u8 list) \<Rightarrow> (u64 \<Rightarrow> u8 list) \<Rightarrow> 'h fat16 \<Rightarrow> (u16 \<Rightarrow> u16) \<Rightarrow> bool" where
  "fat_changed D D' fs F \<longleftrightarrow> (\<forall>c. unat c < 256 * fat_size fs \<longrightarrow> fatv D' fs c = F c) \<and>
     (\<forall>t. unat (root_dir_lba fs) \<le> unat t \<longrightarrow> D' t = D t)"

text \<open>The last cluster that may be allocated.\<close>

definition last_cluster :: "'h fat16 \<Rightarrow> nat" where
  "last_cluster fs = min (unat (total_clusters fs) + 1) 0xFFEF"

text \<open>The clusters of a chain: from \<open>c\<close> on until an entry that is no cluster number.\<close>

fun fat_chain :: "(u16 \<Rightarrow> u16) \<Rightarrow> u16 \<Rightarrow> u16 list \<Rightarrow> bool" where
  "fat_chain F c [] \<longleftrightarrow> \<not> fat16_cluster_valid c"
| "fat_chain F c (x # xs) \<longleftrightarrow> x = c \<and> fat16_cluster_valid c \<and> fat_chain F (F c) xs"

lemma fat_chain_unique: "fat_chain F c xs \<Longrightarrow> fat_chain F c ys \<Longrightarrow> xs = ys"
proof (induction xs arbitrary: c ys)
  case Nil
  then show ?case by (cases ys) auto
next
  case (Cons x xs)
  then show ?case by (cases ys) auto
qed

lemma fat_chain_suffix: "fat_chain F c (xs @ y # ys) \<Longrightarrow> fat_chain F y (y # ys)"
  by (induction xs arbitrary: c) auto

lemma fat_chain_distinct: "fat_chain F c xs \<Longrightarrow> distinct xs"
proof (induction xs arbitrary: c)
  case (Cons x xs)
  have "x \<notin> set xs"
  proof
    assume "x \<in> set xs"
    then obtain as bs where xs: "xs = as @ x # bs" by (meson split_list)
    have "x = c" "fat_chain F (F c) xs" using Cons.prems by simp_all
    then have "fat_chain F x (x # bs)" using fat_chain_suffix [of F "F c" as x bs] xs by simp
    then have "x # xs = x # bs" using Cons.prems fat_chain_unique by auto
    then show False using xs by simp
  qed
  then show ?case using Cons by auto
qed simp

lemma fat_chain_cong: "fat_chain F c xs \<Longrightarrow> (\<And>k. k \<in> set xs \<Longrightarrow> G k = F k) \<Longrightarrow> fat_chain G c xs"
  by (induction xs arbitrary: c) auto

section \<open>FAT operations on a conforming device\<close>

context block_driver
begin

abbreviation vol_base :: "'h fat16 \<Rightarrow> bool" where "vol_base \<equiv> fs_base rd wr content good nsec"
abbreviation vol :: "'h fat16 \<Rightarrow> bool" where "vol \<equiv> fs_inv rd wr content good nsec"
abbreviation disk :: "'h fat16 \<Rightarrow> u64 \<Rightarrow> u8 list" where "disk fs \<equiv> content (hw (fs_blk fs))"

lemma vol_geom: "vol_base fs \<Longrightarrow> fat_geom nsec fs"
  by (simp add: fs_base_def)

lemma vol_vol_base: "vol fs \<Longrightarrow> vol_base fs"
  by (simp add: fs_inv_def)

lemma disk_length: "vol_base fs \<Longrightarrow> unat s < nsec \<Longrightarrow> length (disk fs s) = 512"
  using content_length by (simp add: fs_base_def blk_coherent_def)

lemma fs_read_ok:
  assumes "vol_base fs" "unat s < nsec"
  shows "\<exists>fs'. fs_read fs s = (Some (disk fs (ucast s)), fs') \<and> vol_base fs' \<and> disk fs' = disk fs \<and> same_vol fs fs' \<and>
    fat_cache fs' = fat_cache fs"
proof -
  obtain st where "blk_dev_read (fs_dev fs) (ucast s) 1 (fs_blk fs) = (0, disk fs (ucast s), st)"
    "blk_coherent content good nsec (fs_dev fs) st" "content (hw st) = disk fs"
    using blk_dev_read_ok [of "fs_dev fs" "fs_blk fs" "ucast s" 1] assms by (auto simp: fs_base_def)
  then show ?thesis
    using assms(1) by (auto simp: fs_read_def fs_base_def same_vol_def fat_geom_def)
qed

lemma fs_write_ok:
  assumes "vol_base fs" "unat s < nsec" "length data = 512"
  shows "\<exists>fs'. fs_write fs s data = (True, fs') \<and> vol_base fs' \<and> disk fs' = (disk fs)(ucast s := data) \<and> same_vol fs fs' \<and>
    fat_cache fs' = fat_cache fs"
proof -
  obtain st where "blk_dev_write (fs_dev fs) (ucast s) data 1 (fs_blk fs) = (0, st)"
    "blk_coherent content good nsec (fs_dev fs) st" "content (hw st) = (disk fs)(ucast s := data)"
    using blk_dev_write_ok [of "fs_dev fs" "fs_blk fs" "ucast s" 1 data] assms by (auto simp: fs_base_def)
  then show ?thesis
    using assms(1) by (auto simp: fs_write_def fs_base_def same_vol_def fat_geom_def)
qed

lemma cache_ok_transfer:
  assumes "cache_ok (disk fs) fs" "same_vol fs fs'" "fat_cache fs' = fat_cache fs" "\<And>c. unat c < 256 * fat_size fs \<Longrightarrow> fatv D fs c = fatv (disk fs) fs c"
  shows "cache_ok D fs'"
  using assms(1,3) assms(4) same_volD [OF assms(2)] same_vol_fns [OF assms(2)]
  by (auto simp: cache_ok_def split: option.splits)

lemma vol_bps [simp]: "vol_base fs \<Longrightarrow> bps fs = 512"
  by (simp add: fs_base_def fat_geom_def)

lemma fat_get_ok:
  assumes "vol fs" "unat c < 256 * fat_size fs"
  shows "\<exists>fs'. fat16_fat_get fs c = Some (Some (fatv (disk fs) fs c), fs') \<and> vol fs' \<and> disk fs' = disk fs \<and> same_vol fs fs'"
proof -
  have b: "vol_base fs" and k: "cache_ok (disk fs) fs" using assms(1) by (simp_all add: fs_inv_def)
  have nf: "0 < num_fats fs" using vol_geom [OF b] by (simp add: fat_geom_def)
  have sec: "fat_start_lba fs + ucast c * 2 div 512 = fat_sector fs 0 c" by (simp add: fat_sector_def)
  obtain fs' where f: "fs_read fs (fat_sector fs 0 c) = (Some (disk fs (ucast (fat_sector fs 0 c))), fs')" "vol_base fs'"
    "disk fs' = disk fs" "same_vol fs fs'" "fat_cache fs' = fat_cache fs"
    using fs_read_ok [OF b unat_fat_sector(2) [OF vol_geom [OF b] nf assms(2)]] by blast
  have "unat c mod 256 < 256" by simp
  then have off: "2 * (unat c mod 256) + 2 \<le> 512" by linarith
  have "fat_get_disk fs (ucast c * 2) = Some (Some (fatv (disk fs) fs c), fs')"
    using b f(1) off by (simp add: fat_get_disk_def sec fatv_def fat_byte_div_mod FAT16_SECTOR_SIZE_def Let_def)
  moreover have "vol fs'"
    using f(2,3) cache_ok_transfer [OF k f(4,5), of "disk fs'"] by (simp add: fs_inv_def)
  ultimately show ?thesis
    using k f(3,4) assms(1) by (auto simp: fat16_fat_get_def cache_ok_def unat_fat_byte Let_def split: option.splits)
qed

lemma fat_set_loop_ok:
  assumes "vol_base fs" "f + n \<le> num_fats fs" "unat c < 256 * fat_size fs"
  shows "\<exists>fs'. fat_set_loop n f (ucast c * 2) v fs = Some (True, fs') \<and> vol_base fs' \<and> same_vol fs fs' \<and> fat_cache fs' = fat_cache fs \<and>
    disk fs' = fat_upd fs c v {f..<f + n} (disk fs)"
  using assms
proof (induction n arbitrary: f fs)
  case 0
  then show ?case by (simp add: fat_upd_def fun_eq_iff)
next
  case (Suc n)
  note g = vol_geom [OF Suc.prems(1)]
  have f: "f < num_fats fs" using Suc.prems(2) by simp
  let ?s = "fat_sector fs f c" and ?off = "2 * (unat c mod 256)"
  note s = unat_fat_sector(2) [OF g f Suc.prems(3)]
  have sec: "fat_start_lba fs + of_nat f * ucast (fh_fat_size_16 (fs_header fs)) + ucast c * 2 div 512 = ?s"
    by (simp add: fat_sector_def)
  obtain fs1 where f1: "fs_read fs ?s = (Some (disk fs (ucast ?s)), fs1)" "vol_base fs1" "disk fs1 = disk fs" "same_vol fs fs1"
    "fat_cache fs1 = fat_cache fs"
    using fs_read_ok [OF Suc.prems(1) s] by blast
  let ?new = "patch ?off (le16_bytes v) (disk fs (ucast ?s))"
  have len: "length (disk fs (ucast ?s)) = 512" using disk_length [OF Suc.prems(1)] s by simp
  then have "length ?new = 512" using entry_offset [of c] by simp
  then obtain fs2 where f2: "fs_write fs1 ?s ?new = (True, fs2)" "vol_base fs2" "disk fs2 = (disk fs)(ucast ?s := ?new)"
    "same_vol fs1 fs2" "fat_cache fs2 = fat_cache fs"
    using fs_write_ok [OF f1(2) s] f1(3,5) by auto
  have v2: "same_vol fs fs2" using f1(4) f2(4) by (rule same_vol_trans)
  obtain fs3 where f3: "fat_set_loop n (Suc f) (ucast c * 2) v fs2 = Some (True, fs3)" "vol_base fs3" "same_vol fs2 fs3"
    "fat_cache fs3 = fat_cache fs2" "disk fs3 = fat_upd fs2 c v {Suc f..<Suc f + n} (disk fs2)"
    using Suc.IH [OF f2(2), of "Suc f"] Suc.prems(2,3) same_volD [OF v2] by auto
  have "fat_sector fs k c \<noteq> ?s" if k: "k \<in> {Suc f..<Suc f + n}" for k
  proof
    assume eq: "fat_sector fs k c = ?s"
    have "k < num_fats fs" using k Suc.prems(2) by simp
    from fat_sector_inj [OF g f this Suc.prems(3,3) eq [symmetric]] show False using k by simp
  qed
  then have "t = ucast ?s \<Longrightarrow> \<not> (\<exists>g\<in>{Suc f..<Suc f + n}. t = ucast (fat_sector fs g c))" for t :: u64
    by (metis ucast_32_64_inj)
  moreover have "{f..<f + Suc n} = insert f {Suc f..<Suc f + n}" by auto
  ultimately have "disk fs3 = fat_upd fs c v {f..<f + Suc n} (disk fs)"
    unfolding f3(5) f2(3) fat_upd_def same_vol_fns [OF v2] fun_eq_iff by auto
  moreover have "fat_set_loop (Suc n) f (ucast c * 2) v fs = Some (True, fs3)"
    using f1(1) f2(1) f3(1) entry_offset [of c] Suc.prems(1)
    by (simp add: sec fat_byte_div_mod FAT16_SECTOR_SIZE_def Let_def del: fat_set_loop.simps(1))
  ultimately show ?case
    using f3 f2(5) same_vol_trans [OF v2 f3(3)] by auto
qed

text \<open>Storing an entry changes that entry, in every copy of the FAT, and no other sector or entry.\<close>

lemma fat_set_ok:
  assumes "vol fs" "unat c < 256 * fat_size fs"
  shows "\<exists>fs'. fat16_fat_set fs c v = Some (True, fs') \<and> vol fs' \<and> same_vol fs fs' \<and>
    disk fs' = fat_upd fs c v {0..<num_fats fs} (disk fs)"
proof -
  have b: "vol_base fs" and k: "cache_ok (disk fs) fs" using assms(1) by (simp_all add: fs_inv_def)
  note g = vol_geom [OF b]
  obtain fs1 where f1: "fat_set_loop (num_fats fs) 0 (ucast c * 2) v fs = Some (True, fs1)" "vol_base fs1" "same_vol fs fs1"
    "fat_cache fs1 = fat_cache fs" "disk fs1 = fat_upd fs c v {0..<num_fats fs} (disk fs)"
    using fat_set_loop_ok [OF b, of 0 "num_fats fs" c v] assms(2) by auto
  have nf: "0 < num_fats fs" using g by (simp add: fat_geom_def)
  have len: "length (disk fs (ucast (fat_sector fs 0 c))) = 512"
    using disk_length [OF b] unat_fat_sector(2) [OF g nf assms(2)] by simp
  have fv: "fatv (disk fs1) fs c' = (if c' = c then v else fatv (disk fs) fs c')" if "unat c' < 256 * fat_size fs" for c'
    unfolding f1(5) using g assms(2) that len by (rule fatv_upd)
  note sv = same_volD [OF f1(3)] same_vol_fns [OF f1(3)]
  show ?thesis
  proof (cases "fat_cache fs")
    case None
    then have "vol fs1" using f1(2,4) by (simp add: fs_inv_def cache_ok_def)
    moreover have "fat16_fat_set fs c v = Some (True, fs1)"
      using f1(1,4) b None by (simp add: fat16_fat_set_def Let_def)
    ultimately show ?thesis using f1 by blast
  next
    case (Some cache)
    have kc: "length cache = unat (fat_bytes fs)" "unat (fat_bytes fs) \<le> 512 * fat_size fs"
      "\<And>c. 2 * unat c + 2 \<le> unat (fat_bytes fs) \<Longrightarrow> le16 (cache ! (2 * unat c)) (cache ! (2 * unat c + 1)) = fatv (disk fs) fs c"
      using k Some by (simp_all add: cache_ok_def)
    have in_fat: "unat c' < 256 * fat_size fs" if "2 * unat c' + 2 \<le> unat (fat_bytes fs)" for c' :: u16
      using that kc(2) by linarith
    show ?thesis
    proof (cases "2 * unat c + 2 \<le> unat (fat_bytes fs)")
      case False
      then have "c' \<noteq> c" if "2 * unat c' + 2 \<le> unat (fat_bytes fs)" for c' using that by auto
      then have "vol fs1"
        using f1(2,4) Some kc fv in_fat by (auto simp: fs_inv_def cache_ok_def sv)
      moreover have "fat16_fat_set fs c v = Some (True, fs1)"
        using f1(1,4) b Some False by (simp add: fat16_fat_set_def Let_def unat_fat_byte sv)
      ultimately show ?thesis using f1 by blast
    next
      case True
      let ?cache = "patch (2 * unat c) (le16_bytes v) cache"
      let ?fs = "fs1\<lparr>fat_cache := Some ?cache\<rparr>"
      have vs: "same_vol fs ?fs" using f1(3) by (cases fs; cases fs1) (simp add: same_vol_def)
      have "le16 (?cache ! (2 * unat c')) (?cache ! (2 * unat c' + 1)) = (if c' = c then v else fatv (disk fs) fs c')"
        if c': "2 * unat c' + 2 \<le> unat (fat_bytes fs)" for c'
        using True c' kc(1) kc(3) [OF c'] by (cases "c' = c") (auto simp: nth_patch le16_bytes_def word_unat_eq_iff)
      then have "cache_ok (disk ?fs) ?fs"
        using kc True fv in_fat by (auto simp: cache_ok_def same_volD [OF vs] same_vol_fns [OF vs])
      moreover have "vol_base ?fs"
        using f1(2) by (simp add: fs_base_def fat_geom_def)
      moreover have "fat16_fat_set fs c v = Some (True, ?fs)"
        using f1(1,4) b Some True by (simp add: fat16_fat_set_def Let_def unat_fat_byte sv)
      ultimately show ?thesis using vs f1(5) by (auto simp: fs_inv_def)
    qed
  qed
qed

lemma fat_set_fatv:
  assumes "vol fs" "unat c < 256 * fat_size fs" "unat c' < 256 * fat_size fs"
  shows "fatv (fat_upd fs c v {0..<num_fats fs} (disk fs)) fs c' = (if c' = c then v else fatv (disk fs) fs c')"
proof -
  have b: "vol_base fs" using assms(1) by (rule vol_vol_base)
  have nf: "0 < num_fats fs" using vol_geom [OF b] by (simp add: fat_geom_def)
  show ?thesis
    using disk_length [OF b] unat_fat_sector(2) [OF vol_geom [OF b] nf assms(2)] by (intro fatv_upd [OF vol_geom [OF b] assms(2,3)]) simp
qed

text \<open>Sectors from the root directory on are not touched by FAT updates.\<close>

lemma fat_upd_outside:
  assumes "vol fs" "unat c < 256 * fat_size fs" "unat (root_dir_lba fs) \<le> unat t"
  shows "fat_upd fs c v {0..<num_fats fs} D t = D t"
proof -
  have "t \<noteq> ucast (fat_sector fs f c)" if "f < num_fats fs" for f
    using unat_fat_sector(3) [OF vol_geom [OF vol_vol_base [OF assms(1)]] that assms(2)] assms(3) by auto
  then show ?thesis by (auto simp: fat_upd_def)
qed

lemma fat_changed_refl: "(\<And>c. unat c < 256 * fat_size fs \<Longrightarrow> F c = fatv D fs c) \<Longrightarrow> fat_changed D D fs F"
  by (simp add: fat_changed_def)

lemma fat_changed_trans:
  assumes "fat_changed D D1 fs F" "fat_changed D1 D2 fs1 G" "same_vol fs fs1"
  shows "fat_changed D D2 fs G"
  using assms(1,2) same_volD [OF assms(3)] same_vol_fns [OF assms(3)] by (simp add: fat_changed_def)

text \<open>The two FAT operations in terms of the entries.\<close>

lemma fat_set_changed:
  assumes "vol fs" "unat c < 256 * fat_size fs"
  shows "\<exists>fs'. fat16_fat_set fs c v = Some (True, fs') \<and> vol fs' \<and> same_vol fs fs' \<and>
    fat_changed (disk fs) (disk fs') fs ((fatv (disk fs) fs)(c := v))"
proof -
  obtain fs' where "fat16_fat_set fs c v = Some (True, fs')" "vol fs'" "same_vol fs fs'"
    "disk fs' = fat_upd fs c v {0..<num_fats fs} (disk fs)"
    using fat_set_ok [OF assms] by blast
  then show ?thesis
    using fat_set_fatv [OF assms] fat_upd_outside [OF assms] by (auto simp: fat_changed_def)
qed

lemma cluster_search_ok:
  assumes "vol fs" "unat c + n \<le> 256 * fat_size fs" "unat c + n < 65536"
  shows "case cluster_search n c fs of None \<Rightarrow> False
    | Some (r, fs') \<Rightarrow> vol fs' \<and> same_vol fs fs' \<and>
      (case r of
        None \<Rightarrow> (\<forall>j. unat c \<le> unat j \<longrightarrow> unat j < unat c + n \<longrightarrow> fatv (disk fs) fs j \<noteq> 0) \<and> disk fs' = disk fs
      | Some k \<Rightarrow> unat c \<le> unat k \<and> unat k < unat c + n \<and> fatv (disk fs) fs k = 0 \<and>
          (\<forall>j. unat c \<le> unat j \<longrightarrow> unat j < unat k \<longrightarrow> fatv (disk fs) fs j \<noteq> 0) \<and>
          fat_changed (disk fs) (disk fs') fs ((fatv (disk fs) fs)(k := FAT16_EOC)))"
  using assms
proof (induction n arbitrary: c fs)
  case 0
  then show ?case by simp
next
  case (Suc n)
  have c: "unat c < 256 * fat_size fs" using Suc.prems(2) by simp
  have c1: "unat (c + 1) = unat c + 1" using unat_add_small [of c 1] Suc.prems(3) by simp
  obtain fs1 where f1: "fat16_fat_get fs c = Some (Some (fatv (disk fs) fs c), fs1)" "vol fs1" "disk fs1 = disk fs" "same_vol fs fs1"
    using fat_get_ok [OF Suc.prems(1) c] by blast
  note sv = same_volD [OF f1(4)] same_vol_fns [OF f1(4)]
  show ?case
  proof (cases "fatv (disk fs) fs c = 0")
    case True
    obtain fs2 where f2: "fat16_fat_set fs1 c FAT16_EOC = Some (True, fs2)" "vol fs2" "same_vol fs1 fs2"
      "fat_changed (disk fs1) (disk fs2) fs1 ((fatv (disk fs1) fs1)(c := FAT16_EOC))"
      using fat_set_changed [OF f1(2), of c FAT16_EOC] c sv by auto
    then have "fat_changed (disk fs) (disk fs2) fs ((fatv (disk fs) fs)(c := FAT16_EOC))"
      using f1(3) sv by (simp add: fat_changed_def)
    then show ?thesis
      using f1(1) f2(1,2) True same_vol_trans [OF f1(4) f2(3)] by (simp add: FAT16_FREE_CLUSTER_def)
  next
    case False
    have run: "cluster_search (Suc n) c fs = cluster_search n (c + 1) fs1"
      using f1(1) False by (simp add: FAT16_FREE_CLUSTER_def)
    have "unat (c + 1) + n \<le> 256 * fat_size fs1" "unat (c + 1) + n < 65536" using Suc.prems(2,3) c1 sv by simp_all
    note ih = Suc.IH [OF f1(2) this]
    have ge: "unat c \<le> unat j \<longleftrightarrow> j = c \<or> unat (c + 1) \<le> unat j" for j
      unfolding c1 word_unat_eq_iff by auto
    obtain r fs2 where r: "cluster_search n (c + 1) fs1 = Some (r, fs2)" using ih by (auto split: option.splits)
    have v2: "vol fs2" "same_vol fs fs2" using ih r same_vol_trans [OF f1(4)] by auto
    have m: "unat c + Suc n = unat (c + 1) + n" using c1 by simp
    show ?thesis
    proof (cases r)
      case None
      then have "\<forall>j. unat (c + 1) \<le> unat j \<longrightarrow> unat j < unat (c + 1) + n \<longrightarrow> fatv (disk fs) fs j \<noteq> 0" "disk fs2 = disk fs"
        using ih r f1(3) sv by auto
      then show ?thesis
        unfolding run r None m using v2 ge False by auto
    next
      case (Some k)
      then have "unat (c + 1) \<le> unat k" "unat k < unat (c + 1) + n" "fatv (disk fs) fs k = 0"
        "\<forall>j. unat (c + 1) \<le> unat j \<longrightarrow> unat j < unat k \<longrightarrow> fatv (disk fs) fs j \<noteq> 0"
        "fat_changed (disk fs) (disk fs2) fs ((fatv (disk fs) fs)(k := FAT16_EOC))"
        using ih r f1(3) sv by (auto simp: fat_changed_def)
      then show ?thesis
        unfolding run r Some m using v2 ge False by auto
    qed
  qed
qed

lemma cluster_alloc_ok:
  assumes "vol fs"
  shows "case fat16_cluster_alloc fs of None \<Rightarrow> False
    | Some (r, fs') \<Rightarrow> vol fs' \<and> same_vol fs fs' \<and>
      (case r of
        None \<Rightarrow> (\<forall>j. 2 \<le> unat j \<longrightarrow> unat j \<le> last_cluster fs \<longrightarrow> fatv (disk fs) fs j \<noteq> 0) \<and> disk fs' = disk fs
      | Some k \<Rightarrow> 2 \<le> unat k \<and> unat k \<le> last_cluster fs \<and> fatv (disk fs) fs k = 0 \<and>
          (\<forall>j. 2 \<le> unat j \<longrightarrow> unat j < unat k \<longrightarrow> fatv (disk fs) fs j \<noteq> 0) \<and>
          fat_changed (disk fs) (disk fs') fs ((fatv (disk fs) fs)(k := FAT16_EOC)))"
proof -
  note g = vol_geom [OF vol_vol_base [OF assms]]
  have "fat_size fs < 65536" using unat_lt2p [of "fh_fat_size_16 (fs_header fs)"] by simp
  then have "unat (total_clusters fs) + 1 < 2 ^ 32" using g by (simp add: fat_geom_def)
  then have t1: "unat (total_clusters fs + 1) = unat (total_clusters fs) + 1"
    using unat_add_small [of "total_clusters fs" 1] by simp
  let ?n = "last_cluster fs - 1"
  have run: "fat16_cluster_alloc fs = cluster_search ?n 2 fs"
    using t1 by (auto simp: fat16_cluster_alloc_def Let_def last_cluster_def fat16_consts word_less_nat_alt min_def)
  have "unat (2 :: u16) + ?n \<le> 256 * fat_size fs" "unat (2 :: u16) + ?n < 65536"
    using g by (auto simp: last_cluster_def fat_geom_def)
  note ok = cluster_search_ok [OF assms this]
  have "unat j < unat (2 :: u16) + ?n \<longleftrightarrow> unat j \<le> last_cluster fs" if "2 \<le> unat j" for j :: u16
    using that by (auto simp: last_cluster_def)
  then show ?thesis
    unfolding run using ok by (auto split: option.splits)
qed

lemma chain_free_ok:
  assumes "vol fs" "fat_chain (fatv (disk fs) fs) c cs" "\<forall>k\<in>set cs. unat k < 256 * fat_size fs"
  shows "\<exists>fs'. fat16_chain_free fs c = Some (True, fs') \<and> vol fs' \<and> same_vol fs fs' \<and>
    fat_changed (disk fs) (disk fs') fs (\<lambda>k. if k \<in> set cs then 0 else fatv (disk fs) fs k)"
  using assms
proof (induction cs arbitrary: fs c)
  case Nil
  then show ?case
    by (subst fat16_chain_free.simps) (simp add: fat_changed_def)
next
  case (Cons x cs)
  have x: "x = c" "fat16_cluster_valid c" "fat_chain (fatv (disk fs) fs) (fatv (disk fs) fs c) cs" "c \<notin> set cs"
    using Cons.prems(2) fat_chain_distinct [OF Cons.prems(2)] by auto
  have c: "unat c < 256 * fat_size fs" using Cons.prems(3) x(1) by simp
  obtain fs1 where f1: "fat16_fat_get fs c = Some (Some (fatv (disk fs) fs c), fs1)" "vol fs1" "disk fs1 = disk fs" "same_vol fs fs1"
    using fat_get_ok [OF Cons.prems(1) c] by blast
  note sv1 = same_volD [OF f1(4)] same_vol_fns [OF f1(4)]
  obtain fs2 where f2: "fat16_fat_set fs1 c FAT16_FREE_CLUSTER = Some (True, fs2)" "vol fs2" "same_vol fs1 fs2"
    "fat_changed (disk fs) (disk fs2) fs ((fatv (disk fs) fs)(c := 0))"
    using fat_set_changed [OF f1(2), of c FAT16_FREE_CLUSTER] c sv1 f1(3) by (auto simp: fat_changed_def FAT16_FREE_CLUSTER_def)
  have v2: "same_vol fs fs2" using f1(4) f2(3) by (rule same_vol_trans)
  note sv2 = same_volD [OF v2] same_vol_fns [OF v2]
  have F2: "fatv (disk fs2) fs2 k = (if k = c then 0 else fatv (disk fs) fs k)" if "unat k < 256 * fat_size fs" for k
    using f2(4) that sv2 by (simp add: fat_changed_def)
  have ch: "fat_chain (fatv (disk fs2) fs2) (fatv (disk fs) fs c) cs"
    using F2 Cons.prems(3) x(4) by (intro fat_chain_cong [OF x(3)]) auto
  obtain fs3 where f3: "fat16_chain_free fs2 (fatv (disk fs) fs c) = Some (True, fs3)" "vol fs3" "same_vol fs2 fs3"
    "fat_changed (disk fs2) (disk fs3) fs2 (\<lambda>k. if k \<in> set cs then 0 else fatv (disk fs2) fs2 k)"
    using Cons.IH [OF f2(2) ch] Cons.prems(3) sv2 by auto
  have "fat_changed (disk fs) (disk fs3) fs (\<lambda>k. if k \<in> set (x # cs) then 0 else fatv (disk fs) fs k)"
    using fat_changed_trans [OF f2(4) f3(4) v2] F2 x(1) by (auto simp: fat_changed_def)
  moreover have "fat16_chain_free fs c = Some (True, fs3)"
    by (subst fat16_chain_free.simps) (simp add: x(2) f1(1) f2(1) f3(1))
  ultimately show ?case
    using f3(2) same_vol_trans [OF v2 f3(3)] by blast
qed

text \<open>Freeing stops on every FAT, a cyclic one too: each round clears an entry, and a cleared entry ends the walk.\<close>

lemma chain_free_stops:
  assumes "vol fs" "fat16_cluster_valid c \<Longrightarrow> unat c < 256 * fat_size fs"
    and "\<forall>k. unat k < 256 * fat_size fs \<longrightarrow> fat16_cluster_valid (fatv (disk fs) fs k) \<longrightarrow> unat (fatv (disk fs) fs k) < 256 * fat_size fs"
  shows "\<exists>fs'. fat16_chain_free fs c = Some (True, fs') \<and> vol fs' \<and> same_vol fs fs'"
  using assms
proof (induction "card {k. unat k < 256 * fat_size fs \<and> fatv (disk fs) fs k \<noteq> 0}" arbitrary: fs c rule: less_induct)
  case less
  show ?case
  proof (cases "fat16_cluster_valid c")
    case False
    then show ?thesis using less.prems(1) by (subst fat16_chain_free.simps) simp
  next
    case True
    then have c: "unat c < 256 * fat_size fs" using less.prems(2) by simp
    let ?n = "fatv (disk fs) fs c"
    obtain fs1 where f1: "fat16_fat_get fs c = Some (Some ?n, fs1)" "vol fs1" "disk fs1 = disk fs" "same_vol fs fs1"
      using fat_get_ok [OF less.prems(1) c] by blast
    note sv1 = same_volD [OF f1(4)] same_vol_fns [OF f1(4)]
    obtain fs2 where f2: "fat16_fat_set fs1 c FAT16_FREE_CLUSTER = Some (True, fs2)" "vol fs2" "same_vol fs1 fs2"
      "fat_changed (disk fs) (disk fs2) fs ((fatv (disk fs) fs)(c := 0))"
      using fat_set_changed [OF f1(2), of c FAT16_FREE_CLUSTER] c sv1 f1(3) by (auto simp: fat_changed_def FAT16_FREE_CLUSTER_def)
    have v2: "same_vol fs fs2" using f1(4) f2(3) by (rule same_vol_trans)
    note sv2 = same_volD [OF v2] same_vol_fns [OF v2]
    have F2: "fatv (disk fs2) fs2 k = (if k = c then 0 else fatv (disk fs) fs k)" if "unat k < 256 * fat_size fs" for k
      using f2(4) that sv2 by (simp add: fat_changed_def)
    have run: "fat16_chain_free fs c = fat16_chain_free fs2 ?n"
      by (subst fat16_chain_free.simps) (simp add: True f1(1) f2(1))
    show ?thesis
    proof (cases "?n = 0")
      case n0: True
      then have "\<not> fat16_cluster_valid ?n" by (simp add: fat16_cluster_valid_def fat16_consts)
      then have "fat16_chain_free fs2 ?n = Some (True, fs2)" by (subst fat16_chain_free.simps) simp
      then show ?thesis using run f2(2) v2 by simp
    next
      case n0: False
      have eq: "{k. unat k < 256 * fat_size fs2 \<and> fatv (disk fs2) fs2 k \<noteq> 0} = {k. unat k < 256 * fat_size fs \<and> fatv (disk fs) fs k \<noteq> 0} - {c}"
        unfolding sv2(1) using F2 by (auto split: if_splits)
      have mem: "c \<in> {k. unat k < 256 * fat_size fs \<and> fatv (disk fs) fs k \<noteq> 0}" using c n0 by simp
      have "card {k. unat k < 256 * fat_size fs2 \<and> fatv (disk fs2) fs2 k \<noteq> 0} < card {k. unat k < 256 * fat_size fs \<and> fatv (disk fs) fs k \<noteq> 0}"
        unfolding eq by (rule card_Diff1_less [OF _ mem]) simp
      moreover have "fat16_cluster_valid ?n \<Longrightarrow> unat ?n < 256 * fat_size fs2"
        using less.prems(3) c sv2 by simp
      moreover have "\<forall>k. unat k < 256 * fat_size fs2 \<longrightarrow> fat16_cluster_valid (fatv (disk fs2) fs2 k) \<longrightarrow> unat (fatv (disk fs2) fs2 k) < 256 * fat_size fs2"
        using less.prems(3) F2 sv2 by (auto simp: fat16_cluster_valid_def fat16_consts)
      ultimately obtain fs3 where "fat16_chain_free fs2 ?n = Some (True, fs3)" "vol fs3" "same_vol fs2 fs3"
        using less.hyps [of fs2 ?n] f2(2) by blast
      then show ?thesis using run same_vol_trans [OF v2] by auto
    qed
  qed
qed

end

section \<open>What the allocation table promises\<close>

text \<open>Storing a FAT entry on a mounted volume succeeds; reading any entry afterwards, through the cached FAT or
  from the disk, gives the stored value for that cluster and the old value for every other one; every copy of the
  FAT on the disk holds the stored value, and nothing behind the FATs changes.\<close>

theorem fat16_fat_set_get:
  assumes d: "block_driver rd wr content good n" and v: "fs_inv rd wr content good n fs"
    and c: "unat c < 256 * fat_size fs" "unat c' < 256 * fat_size fs"
  shows "\<exists>fs'. fat16_fat_set fs c value = Some (True, fs') \<and> fs_inv rd wr content good n fs' \<and>
    (\<exists>fs''. fat16_fat_get fs' c' =
       Some (Some (if c' = c then value else fatv (content (hw (fs_blk fs))) fs c'), fs'') \<and> fs_inv rd wr content good n fs'') \<and>
    (\<forall>f<num_fats fs. \<exists>b. content (hw (fs_blk fs')) (ucast (fat_sector fs f c)) = b \<and>
       le16 (b ! (2 * (unat c mod 256))) (b ! (2 * (unat c mod 256) + 1)) = value) \<and>
    (\<forall>t. unat (root_dir_lba fs) \<le> unat t \<longrightarrow> content (hw (fs_blk fs')) t = content (hw (fs_blk fs)) t)"
proof -
  obtain fs' where f: "fat16_fat_set fs c value = Some (True, fs')" "fs_inv rd wr content good n fs'" "same_vol fs fs'"
    "content (hw (fs_blk fs')) = fat_upd fs c value {0..<num_fats fs} (content (hw (fs_blk fs)))"
    using block_driver.fat_set_ok [OF d v c(1)] by blast
  note sv = same_volD [OF f(3)] same_vol_fns [OF f(3)]
  obtain fs'' where g: "fat16_fat_get fs' c' = Some (Some (fatv (content (hw (fs_blk fs'))) fs' c'), fs'')" "fs_inv rd wr content good n fs''"
    using block_driver.fat_get_ok [OF d f(2), of c'] c(2) sv by auto
  have val: "fatv (content (hw (fs_blk fs'))) fs' c' = (if c' = c then value else fatv (content (hw (fs_blk fs))) fs c')"
    unfolding sv f(4) by (rule block_driver.fat_set_fatv [OF d v c])
  have b: "fs_base rd wr content good n fs" using v by (simp add: fs_inv_def)
  have "le16 (content (hw (fs_blk fs')) (ucast (fat_sector fs k c)) ! (2 * (unat c mod 256)))
      (content (hw (fs_blk fs')) (ucast (fat_sector fs k c)) ! (2 * (unat c mod 256) + 1)) = value" if k: "k < num_fats fs" for k
  proof -
    have "unat (ucast (fat_sector fs k c) :: u64) < n"
      using unat_fat_sector(2) [OF block_driver.vol_geom [OF d b] k c(1)] by simp
    then have "length (content (hw (fs_blk fs)) (ucast (fat_sector fs k c))) = 512"
      by (rule block_driver.disk_length [OF d b])
    then show ?thesis
      using k entry_offset [of c] unfolding f(4) by (auto simp: fat_upd_def nth_patch le16_bytes_def)
  qed
  then show ?thesis
    using f(1,2) g val block_driver.fat_upd_outside [OF d v c(1)] f(4) by auto
qed

text \<open>Cluster allocation never faults. It returns the lowest free cluster of the volume, now marked as the end
  of a chain with every other entry unchanged, or reports a full volume exactly when no cluster is free, and then
  changes nothing.\<close>

theorem fat16_cluster_alloc_lowest:
  assumes d: "block_driver rd wr content good n" and v: "fs_inv rd wr content good n fs"
  shows "case fat16_cluster_alloc fs of None \<Rightarrow> False
    | Some (r, fs') \<Rightarrow> fs_inv rd wr content good n fs' \<and>
      (case r of
        None \<Rightarrow> {k. 2 \<le> unat k \<and> unat k \<le> last_cluster fs \<and> fatv (content (hw (fs_blk fs))) fs k = 0} = {} \<and>
          content (hw (fs_blk fs')) = content (hw (fs_blk fs))
      | Some k \<Rightarrow> k \<in> {k. 2 \<le> unat k \<and> unat k \<le> last_cluster fs \<and> fatv (content (hw (fs_blk fs))) fs k = 0} \<and>
          (\<forall>j. 2 \<le> unat j \<longrightarrow> unat j < unat k \<longrightarrow> fatv (content (hw (fs_blk fs))) fs j \<noteq> 0) \<and>
          fat_changed (content (hw (fs_blk fs))) (content (hw (fs_blk fs'))) fs
            ((fatv (content (hw (fs_blk fs))) fs)(k := FAT16_EOC)))"
  using block_driver.cluster_alloc_ok [OF d v] by (auto split: option.splits)

text \<open>Freeing a chain clears exactly the entries of its clusters.\<close>

theorem fat16_chain_free_exact:
  assumes d: "block_driver rd wr content good n" and v: "fs_inv rd wr content good n fs"
    and ch: "fat_chain (fatv (content (hw (fs_blk fs))) fs) c cs" "list_all (\<lambda>k. unat k < 256 * fat_size fs) cs"
  shows "\<exists>fs'. fat16_chain_free fs c = Some (True, fs') \<and> fs_inv rd wr content good n fs' \<and>
    fat_changed (content (hw (fs_blk fs))) (content (hw (fs_blk fs'))) fs
      (\<lambda>k. if k \<in> set cs then FAT16_FREE_CLUSTER else fatv (content (hw (fs_blk fs))) fs k)"
  unfolding FAT16_FREE_CLUSTER_def using block_driver.chain_free_ok [OF d v ch(1)] ch(2) by (auto simp: list_all_iff)

text \<open>Property C38. Freeing terminates on every FAT whose links stay inside it, even one with a cycle: each round clears an
  entry, and a cleared entry ends the walk.\<close>

theorem fat16_chain_free_terminates:
  assumes d: "block_driver rd wr content good n" and v: "fs_inv rd wr content good n fs"
    and c: "fat16_cluster_valid c \<longrightarrow> unat c < 256 * fat_size fs"
    and F: "\<forall>k. unat k < 256 * fat_size fs \<longrightarrow> fat16_cluster_valid (fatv (content (hw (fs_blk fs))) fs k) \<longrightarrow>
      unat (fatv (content (hw (fs_blk fs))) fs k) < 256 * fat_size fs"
  shows "\<exists>fs'. fat16_chain_free fs c = Some (True, fs') \<and> fs_inv rd wr content good n fs'"
  using block_driver.chain_free_stops [OF d v _ F] c by blast

text \<open>A volume of eight sectors with two FATs; clusters 2 and 3 form a chain, cluster 4 points to itself and cluster 5
  is free.\<close>

definition demo_fat :: "u8 list" where
  "demo_fat = [0xF8, 0xFF, 0xFF, 0xFF, 3, 0, 0xF8, 0xFF, 4, 0] @ replicate 502 0"

definition demo_disk :: "u64 \<Rightarrow> u8 list" where
  "demo_disk s = (if s = 1 \<or> s = 2 then demo_fat else replicate 512 (ucast s))"

definition demo_fs :: "(u64 \<Rightarrow> u8 list) fat16" where
  "demo_fs = \<lparr>fs_header = \<lparr>fh_bytes_per_sector = 512, fh_sectors_per_cluster = 1, fh_reserved_sector_count = 1, fh_num_fats = 2,
       fh_root_entry_count = 16, fh_total_sectors_16 = 8, fh_fat_size_16 = 1, fh_total_sectors_32 = 0, fh_boot_signature = 0x29\<rparr>,
     fs_dev = ram_dev 8, fat_start_lba = 1, root_dir_lba = 3, data_region_lba = 4, root_dir_sectors = 1, total_clusters = 4,
     fat_cache = None, fat_bytes = 512, fs_blk = blk_boot demo_disk\<rparr>"

abbreviation demo_inv :: "(u64 \<Rightarrow> u8 list) fat16 \<Rightarrow> bool" where
  "demo_inv \<equiv> fs_inv (ram_read 8) (ram_write 8) (\<lambda>h. h) (ram_good 8) 8"

lemma demo_driver: "block_driver (ram_read 8) (ram_write 8) (\<lambda>h. h) (ram_good 8) 8"
  by (rule ram_driver) simp

lemma demo_fs_inv: "demo_inv demo_fs"
proof -
  have "ram_good 8 demo_disk" by (simp add: demo_disk_def demo_fat_def)
  then have "blk_coherent (\<lambda>h. h) (ram_good 8) 8 (ram_dev 8) (blk_boot demo_disk)" by (rule blk_boot_coherent [where good = "ram_good 8"])
  then show ?thesis
    using ram_attached [of 8] by (simp add: fs_inv_def fs_base_def cache_ok_def demo_fs_def fat_geom_def)
qed

lemma demo_hw: "hw (fs_blk demo_fs) = demo_disk" "fat_size demo_fs = 1"
  by (simp_all add: demo_fs_def blk_boot_def)

lemma demo_fatv:
  "fatv demo_disk demo_fs 2 = 3" "fatv demo_disk demo_fs 3 = 0xFFF8" "fatv demo_disk demo_fs 4 = 4" "fatv demo_disk demo_fs 5 = 0"
  by (simp_all add: fatv_def fat_sector_def demo_fs_def demo_disk_def demo_fat_def le16_def nth_append Let_def)

theorem fat16_fat_set_get_witness:
  "\<exists>fs' fs''. fat16_fat_set demo_fs 5 7 = Some (True, fs') \<and> fat16_fat_get fs' 2 = Some (Some 3, fs'')"
  using fat16_fat_set_get [OF demo_driver demo_fs_inv, of 5 2 7] by (auto simp: demo_hw demo_fatv)

theorem fat16_cluster_alloc_lowest_witness: "fat16_cluster_alloc demo_fs \<noteq> None"
  using fat16_cluster_alloc_lowest [OF demo_driver demo_fs_inv] by (auto split: option.splits)

lemma demo_chain: "fat_chain (fatv demo_disk demo_fs) 2 [2, 3]"
  by (simp add: demo_fatv fat16_cluster_valid_def fat16_consts)

theorem fat16_chain_free_exact_witness:
  "\<exists>fs'. fat16_chain_free demo_fs 2 = Some (True, fs') \<and> demo_inv fs' \<and> fatv (hw (fs_blk fs')) demo_fs 3 = 0 \<and> fatv (hw (fs_blk fs')) demo_fs 4 = 4"
  using fat16_chain_free_exact [OF demo_driver demo_fs_inv, of 2 "[2, 3]"] demo_chain
  by (auto simp: demo_hw demo_fatv fat_changed_def FAT16_FREE_CLUSTER_def)

lemma demo_fatv_range: "unat k < 256 \<Longrightarrow> unat (fatv demo_disk demo_fs k) < 256 \<or> \<not> fat16_cluster_valid (fatv demo_disk demo_fs k)"
proof -
  assume k: "unat k < 256"
  then have "(ucast k * 2 div 512 :: u32) = 0"
    by (subst word_unat_eq_iff) (simp add: fat_byte_div_mod)
  then have "fat_sector demo_fs 0 k = 1"
    by (simp add: fat_sector_def demo_fs_def)
  moreover have "2 * unat k + 1 < 512" using k by simp
  ultimately have v: "fatv demo_disk demo_fs k = le16 (demo_fat ! (2 * unat k)) (demo_fat ! (2 * unat k + 1))"
    using k by (simp add: fatv_def demo_disk_def Let_def)
  show ?thesis
  proof (cases "unat k < 5")
    case True
    then have "unat k \<in> {0, 1, 2, 3, 4}" by auto
    then show ?thesis unfolding v by (auto simp: demo_fat_def le16_def fat16_cluster_valid_def fat16_consts nth_append)
  next
    case False
    then have "demo_fat ! (2 * unat k) = 0" "demo_fat ! (2 * unat k + 1) = 0"
      using k by (auto simp: demo_fat_def nth_append)
    then show ?thesis unfolding v by (simp add: le16_def)
  qed
qed

theorem fat16_chain_free_terminates_witness:
  "\<exists>fs'. fat16_chain_free demo_fs 4 = Some (True, fs') \<and> demo_inv fs'"
  using fat16_chain_free_terminates [OF demo_driver demo_fs_inv, of 4] demo_fatv_range by (auto simp: demo_hw)

end
