(* ===== verification/Fat16.thy ===== *)
theory Fat16
  imports Fat16_Table Kmalloc
begin

text \<open>
  The FAT16 file system of \<^verbatim>\<open>src/lizard/fat16.c\<close> and the directory part of
  \<^verbatim>\<open>src/lizard/fat16_helpers.c\<close>: directory scans, look-up, files and the namespace operations. A walk along a
  cluster chain that never ends has the value \<open>None\<close>, as has a fault. \<open>now\<close> is the result of
  \<^verbatim>\<open>fat16_dos_now\<close>, the packed date and time of the call. Callbacks with a context pointer are functions that take
  and return the context.
\<close>

section \<open>Directory slots\<close>

record fat16_dir_loc =
  dl_lba :: u32
  dl_off :: u32

definition fat16_dir_read :: "'h fat16 \<Rightarrow> fat16_dir_loc \<Rightarrow> (fat16_directory option \<times> 'h fat16) option" where
  "fat16_dir_read fs loc =
     (case fs_read fs (dl_lba loc) of
        (None, fs) \<Rightarrow> Some (None, fs)
      | (Some buf, fs) \<Rightarrow>
          if unat (dl_off loc) + FAT16_DIR_ENTRY_SIZE > FAT16_SECTOR_SIZE then None
          else Some (Some (dir_of (take FAT16_DIR_ENTRY_SIZE (drop (unat (dl_off loc)) buf))), fs))"

definition fat16_dir_write :: "'h fat16 \<Rightarrow> fat16_dir_loc \<Rightarrow> fat16_directory \<Rightarrow> (bool \<times> 'h fat16) option" where
  "fat16_dir_write fs loc ent =
     (case fs_read fs (dl_lba loc) of
        (None, fs) \<Rightarrow> Some (False, fs)
      | (Some buf, fs) \<Rightarrow>
          if unat (dl_off loc) + FAT16_DIR_ENTRY_SIZE > FAT16_SECTOR_SIZE then None
          else Some (fs_write fs (dl_lba loc) (patch (unat (dl_off loc)) (dir_bytes ent) buf)))"

type_synonym ('h, 'c) slot_cb = "u8 \<Rightarrow> fat16_dir_loc \<Rightarrow> 'c \<Rightarrow> 'h fat16 \<Rightarrow> (int \<times> 'c \<times> 'h fat16) option"

text \<open>The slots of one sector from slot \<open>i\<close> on, the sectors from \<open>lba\<close> on, and the clusters of a chain.\<close>

primrec scan_slots :: "nat \<Rightarrow> nat \<Rightarrow> u8 list \<Rightarrow> u32 \<Rightarrow> ('h, 'c) slot_cb \<Rightarrow> 'c \<Rightarrow> 'h fat16 \<Rightarrow> (int \<times> 'c \<times> 'h fat16) option" where
  "scan_slots 0 i buf lba slot ctx fs = Some (0, ctx, fs)"
| "scan_slots (Suc n) i buf lba slot ctx fs =
     (let off = i * FAT16_DIR_ENTRY_SIZE in
      if off \<ge> FAT16_SECTOR_SIZE then None
      else do { (r, ctx, fs) \<leftarrow> slot (buf ! off) \<lparr>dl_lba = lba, dl_off = of_nat off\<rparr> ctx fs;
                if r \<noteq> 0 then Some (r, ctx, fs) else scan_slots n (Suc i) buf lba slot ctx fs })"

abbreviation per_sector :: "'h fat16 \<Rightarrow> nat" where
  "per_sector fs \<equiv> unat (bps fs) div FAT16_DIR_ENTRY_SIZE"

primrec scan_sectors :: "nat \<Rightarrow> u32 \<Rightarrow> ('h, 'c) slot_cb \<Rightarrow> 'c \<Rightarrow> 'h fat16 \<Rightarrow> (int \<times> 'c \<times> 'h fat16) option" where
  "scan_sectors 0 lba slot ctx fs = Some (0, ctx, fs)"
| "scan_sectors (Suc n) lba slot ctx fs =
     (case fs_read fs lba of
        (None, fs) \<Rightarrow> Some (-1, ctx, fs)
      | (Some buf, fs) \<Rightarrow>
          do { (r, ctx, fs) \<leftarrow> scan_slots (per_sector fs) 0 buf lba slot ctx fs;
               if r \<noteq> 0 then Some (r, ctx, fs) else scan_sectors n (lba + 1) slot ctx fs })"

partial_function (option) scan_chain :: "u16 \<Rightarrow> ('h, 'c) slot_cb \<Rightarrow> 'c \<Rightarrow> 'h fat16 \<Rightarrow> (int \<times> 'c \<times> 'h fat16) option" where
  "scan_chain cluster slot ctx fs =
     (if \<not> fat16_cluster_valid cluster then Some (0, ctx, fs)
      else do { (r, ctx, fs) \<leftarrow> scan_sectors (unat (spc fs)) (fat16_cluster_to_lba fs cluster) slot ctx fs;
                if r \<noteq> 0 then Some (r, ctx, fs)
                else do { (n, fs) \<leftarrow> fat16_next_cluster fs cluster; scan_chain n slot ctx fs } })"

definition fat16_dir_scan :: "'h fat16 \<Rightarrow> u16 \<Rightarrow> ('h, 'c) slot_cb \<Rightarrow> 'c \<Rightarrow> (int \<times> 'c \<times> 'h fat16) option" where
  "fat16_dir_scan fs dir_first slot ctx =
     (if dir_first = 0 then scan_sectors (unat (root_dir_sectors fs)) (root_dir_lba fs) slot ctx fs
      else scan_chain dir_first slot ctx fs)"

definition find_slot :: "u8 list \<Rightarrow> ('h, (fat16_dir_loc \<times> fat16_directory) option) slot_cb" where
  "find_slot name c0 loc ctx fs =
     (if c0 = FAT16_DIR_ENTRY_END then Some (-1, ctx, fs)
      else if c0 = FAT16_DIR_ENTRY_DELETED then Some (0, ctx, fs)
      else do { (e, fs) \<leftarrow> fat16_dir_read fs loc;
                case e of
                  None \<Rightarrow> Some (-1, ctx, fs)
                | Some ent \<Rightarrow>
                    if \<not> fat16_entry_valid ent then Some (0, ctx, fs)
                    else if \<not> fat16_name_cmp name ent then Some (0, ctx, fs)
                    else Some (1, Some (loc, ent), fs) })"

definition fat16_dir_find :: "'h fat16 \<Rightarrow> u16 \<Rightarrow> u8 list \<Rightarrow> ((fat16_dir_loc \<times> fat16_directory) option \<times> 'h fat16) option" where
  "fat16_dir_find fs dir_first name =
     do { (r, ctx, fs) \<leftarrow> fat16_dir_scan fs dir_first (find_slot name) None;
          Some (if r = 1 then ctx else None, fs) }"

definition nonempty_slot :: "('h, unit) slot_cb" where
  "nonempty_slot c0 loc ctx fs =
     (if c0 = FAT16_DIR_ENTRY_END then Some (0, ctx, fs)
      else if c0 = FAT16_DIR_ENTRY_DELETED then Some (0, ctx, fs)
      else do { (e, fs) \<leftarrow> fat16_dir_read fs loc;
                case e of
                  None \<Rightarrow> Some (-1, ctx, fs)
                | Some ent \<Rightarrow> Some (if fat16_entry_valid ent \<and> \<not> fat16_is_dot ent then 1 else 0, ctx, fs) })"

definition fat16_dir_empty :: "'h fat16 \<Rightarrow> u16 \<Rightarrow> (bool \<times> 'h fat16) option" where
  "fat16_dir_empty fs first =
     do { (r, _, fs) \<leftarrow> fat16_dir_scan fs first nonempty_slot (); Some (r = 0, fs) }"

definition free_slot :: "('h, fat16_dir_loc option) slot_cb" where
  "free_slot c0 loc ctx fs =
     (if c0 \<noteq> FAT16_DIR_ENTRY_END \<and> c0 \<noteq> FAT16_DIR_ENTRY_DELETED then Some (0, ctx, fs) else Some (1, Some loc, fs))"

partial_function (option) last_of_chain :: "u16 \<Rightarrow> 'h fat16 \<Rightarrow> (u16 \<times> 'h fat16) option" where
  "last_of_chain lastc fs =
     do { (c, fs) \<leftarrow> fat16_next_cluster fs lastc;
          if fat16_cluster_valid c then last_of_chain c fs else Some (lastc, fs) }"

text \<open>The same buffer written to \<open>n\<close> sectors from \<open>lba\<close> on.\<close>

primrec fill_sectors :: "nat \<Rightarrow> u32 \<Rightarrow> u8 list \<Rightarrow> 'h fat16 \<Rightarrow> bool \<times> 'h fat16" where
  "fill_sectors 0 lba buf fs = (True, fs)"
| "fill_sectors (Suc n) lba buf fs =
     (case fs_write fs lba buf of (False, fs) \<Rightarrow> (False, fs) | (True, fs) \<Rightarrow> fill_sectors n (lba + 1) buf fs)"

definition fat16_dir_alloc_slot :: "'h fat16 \<Rightarrow> u16 \<Rightarrow> (fat16_dir_loc option \<times> 'h fat16) option" where
  "fat16_dir_alloc_slot fs dir_first =
     do { (r, loc, fs) \<leftarrow> fat16_dir_scan fs dir_first free_slot None;
          if r = 1 then Some (loc, fs)
          else if dir_first = 0 then Some (None, fs)
          else do { (lastc, fs) \<leftarrow> last_of_chain dir_first fs;
                    (nc, fs) \<leftarrow> fat16_cluster_alloc fs;
                    case nc of
                      None \<Rightarrow> Some (None, fs)
                    | Some nc \<Rightarrow>
                        do { (ok, fs) \<leftarrow> fat16_fat_set fs lastc nc;
                             if \<not> ok then Some (None, fs)
                             else let base = fat16_cluster_to_lba fs nc;
                                      (ok, fs) = fill_sectors (unat (spc fs)) base (replicate FAT16_SECTOR_SIZE 0) fs
                                  in Some (if ok then Some \<lparr>dl_lba = base, dl_off = 0\<rparr> else None, fs) } } }"

section \<open>Directory iteration\<close>

type_synonym 'c dir_cb = "fat16_directory \<Rightarrow> u32 \<Rightarrow> fat16_dir_loc \<Rightarrow> 'c \<Rightarrow> (int \<times> 'c) option"

text \<open>The slots of a sector from slot \<open>i\<close> on; the result carries the running offset and the end marker.\<close>

primrec walk_slots :: "nat \<Rightarrow> nat \<Rightarrow> u8 list \<Rightarrow> u32 \<Rightarrow> u32 \<Rightarrow> 'c dir_cb \<Rightarrow> 'c \<Rightarrow> (int \<times> bool \<times> u32 \<times> 'c) option" where
  "walk_slots 0 i buf lba offset cb ctx = Some (0, False, offset, ctx)"
| "walk_slots (Suc n) i buf lba offset cb ctx =
     (let off = i * FAT16_DIR_ENTRY_SIZE in
      if off + FAT16_DIR_ENTRY_SIZE > FAT16_SECTOR_SIZE then None
      else let e = dir_of (take FAT16_DIR_ENTRY_SIZE (drop off buf))
           in if fd_name e ! 0 = FAT16_DIR_ENTRY_END then Some (0, True, offset, ctx)
              else do { (r, ctx) \<leftarrow> cb e offset \<lparr>dl_lba = lba, dl_off = of_nat off\<rparr> ctx;
                        if r \<noteq> 0 then Some (r, False, offset, ctx)
                        else walk_slots n (Suc i) buf lba (offset + of_nat FAT16_DIR_ENTRY_SIZE) cb ctx })"

definition walk_sector :: "'h fat16 \<Rightarrow> u32 \<Rightarrow> u32 \<Rightarrow> 'c dir_cb \<Rightarrow> 'c \<Rightarrow> (int \<times> bool \<times> u32 \<times> 'c \<times> 'h fat16) option" where
  "walk_sector fs lba offset cb ctx =
     (case fs_read fs lba of
        (None, fs) \<Rightarrow> Some (-1, False, offset, ctx, fs)
      | (Some buf, fs) \<Rightarrow>
          do { (r, ended, offset, ctx) \<leftarrow> walk_slots (per_sector fs) 0 buf lba offset cb ctx; Some (r, ended, offset, ctx, fs) })"

primrec walk_sectors :: "nat \<Rightarrow> u32 \<Rightarrow> u32 \<Rightarrow> 'c dir_cb \<Rightarrow> 'c \<Rightarrow> 'h fat16 \<Rightarrow> (int \<times> bool \<times> u32 \<times> 'c \<times> 'h fat16) option" where
  "walk_sectors 0 lba offset cb ctx fs = Some (0, False, offset, ctx, fs)"
| "walk_sectors (Suc n) lba offset cb ctx fs =
     do { (r, ended, offset, ctx, fs) \<leftarrow> walk_sector fs lba offset cb ctx;
          if r \<noteq> 0 \<or> ended then Some (r, ended, offset, ctx, fs) else walk_sectors n (lba + 1) offset cb ctx fs }"

partial_function (option) walk_chain :: "u16 \<Rightarrow> u32 \<Rightarrow> 'c dir_cb \<Rightarrow> 'c \<Rightarrow> 'h fat16 \<Rightarrow> (int \<times> 'c \<times> 'h fat16) option" where
  "walk_chain cluster offset cb ctx fs =
     (if \<not> fat16_cluster_valid cluster then Some (0, ctx, fs)
      else do { (r, ended, offset, ctx, fs) \<leftarrow> walk_sectors (unat (spc fs)) (fat16_cluster_to_lba fs cluster) offset cb ctx fs;
                if r \<noteq> 0 then Some (r, ctx, fs)
                else do { (n, fs) \<leftarrow> fat16_next_cluster fs cluster;
                          if ended then Some (0, ctx, fs) else walk_chain n offset cb ctx fs } })"

definition fat16_walk_dir :: "'h fat16 \<Rightarrow> u16 \<Rightarrow> 'c dir_cb \<Rightarrow> 'c \<Rightarrow> (int \<times> 'c \<times> 'h fat16) option" where
  "fat16_walk_dir fs first cb ctx =
     (if first = 0
      then do { (r, _, _, ctx, fs) \<leftarrow> walk_sectors (unat (root_dir_sectors fs)) (root_dir_lba fs) 0 cb ctx fs; Some (r, ctx, fs) }
      else walk_chain first 0 cb ctx fs)"

section \<open>Inodes\<close>

text \<open>An inode of this file system with the state behind \<^verbatim>\<open>private_data\<close>. The operation tables are those of fat16.c and
  the super block is the mounted volume.\<close>

record fat16_inode =
  in_ptr :: vaddr
  in_info :: vaddr
  in_mode :: u32
  in_size :: u64
  fi_ent :: fat16_directory
  fi_loc :: fat16_dir_loc

type_synonym mem = "kheap \<times> bmem"

definition FAT16_MODE_DIR :: u32 where "FAT16_MODE_DIR = 0x41FF"
definition FAT16_MODE_FILE :: u32 where "FAT16_MODE_FILE = 0x81B6"

abbreviation sizeof_inode :: u64 where "sizeof_inode \<equiv> 48"
abbreviation sizeof_inode_info :: u64 where "sizeof_inode_info \<equiv> 40"
abbreviation sizeof_fat16 :: u64 where "sizeof_fat16 \<equiv> 112"

definition inode_alloc :: "u64 \<Rightarrow> mem \<Rightarrow> (vaddr \<times> mem) option" where
  "inode_alloc hhdm m = zalloc hhdm sizeof_inode m"

definition mem_free :: "u64 \<Rightarrow> vaddr \<Rightarrow> mem \<Rightarrow> mem option" where
  "mem_free hhdm p m = do { kh \<leftarrow> kfree hhdm p (fst m); Some (kh, snd m) }"

definition inode_free :: "u64 \<Rightarrow> vaddr \<Rightarrow> mem \<Rightarrow> mem option" where
  "inode_free hhdm inode m = (if inode = 0 then Some m else mem_free hhdm inode m)"

definition fat16_make_inode ::
  "u64 \<Rightarrow> fat16_directory \<Rightarrow> fat16_dir_loc \<Rightarrow> mem \<Rightarrow> (fat16_inode option \<times> mem) option" where
  "fat16_make_inode hhdm ent loc m =
     do { (inode, m) \<leftarrow> inode_alloc hhdm m;
          if inode = 0 then Some (None, m)
          else do { (info, m) \<leftarrow> zalloc hhdm sizeof_inode_info m;
                    if info = 0 then do { m \<leftarrow> inode_free hhdm inode m; Some (None, m) }
                    else Some (Some \<lparr>in_ptr = inode, in_info = info, in_mode = (if is_dir ent then FAT16_MODE_DIR else FAT16_MODE_FILE),
                                     in_size = ucast (fd_file_size_bytes ent), fi_ent = ent, fi_loc = loc\<rparr>, m) } }"

section \<open>Mounting\<close>

text \<open>Both read the boot sector through the driver, past the cache; an absent operation table is a fault.\<close>

definition boot_sector :: "'h block_dev \<Rightarrow> 'h blk \<Rightarrow> (u8 list option \<times> 'h blk) option" where
  "boot_sector dev st =
     do { ops \<leftarrow> bd_ops dev; rd \<leftarrow> op_read ops;
          let (r, data, h) = rd 0 1 (hw st);
          Some (if r \<noteq> 0 then None else Some data, st\<lparr>hw := h\<rparr>) }"

definition fat16_detect :: "'h block_dev option \<Rightarrow> 'h blk \<Rightarrow> (int \<times> 'h blk) option" where
  "fat16_detect dev st =
     (case dev of
        None \<Rightarrow> Some (-1, st)
      | Some dev \<Rightarrow>
          if \<not> bd_present dev then Some (-1, st)
          else do { (b, st) \<leftarrow> boot_sector dev st;
                    case b of
                      None \<Rightarrow> Some (-1, st)
                    | Some b \<Rightarrow> Some (if fh_boot_signature (header_of b) = FAT16_BOOT_SIGNATURE then 1 else -1, st) })"

text \<open>The FAT sectors from number \<open>i\<close> on, read into the cache; the sector buffer is 512 bytes wherever it lands.\<close>

primrec load_fat :: "nat \<Rightarrow> nat \<Rightarrow> u8 list \<Rightarrow> 'h fat16 \<Rightarrow> (u8 list option \<times> 'h fat16) option" where
  "load_fat 0 i cache fs = Some (Some cache, fs)"
| "load_fat (Suc n) i cache fs =
     (case fs_read fs (fat_start_lba fs + of_nat i) of
        (None, fs) \<Rightarrow> Some (None, fs)
      | (Some buf, fs) \<Rightarrow>
          if i * unat (bps fs) + FAT16_SECTOR_SIZE > length cache then None
          else load_fat n (Suc i) (patch (i * unat (bps fs)) buf cache) fs)"

definition volume_of :: "'h block_dev \<Rightarrow> fat_header \<Rightarrow> 'h blk \<Rightarrow> 'h fat16" where
  "volume_of dev h st =
     (let fat_start = ucast (fh_reserved_sector_count h);
          root_lba = fat_start + ucast (fh_num_fats h) * ucast (fh_fat_size_16 h);
          root_sectors = (ucast (fh_root_entry_count h) * of_nat FAT16_DIR_ENTRY_SIZE + ucast (fh_bytes_per_sector h) - 1)
                         div ucast (fh_bytes_per_sector h);
          data_lba = root_lba + root_sectors;
          sectors = (if fh_total_sectors_16 h \<noteq> 0 then ucast (fh_total_sectors_16 h) else fh_total_sectors_32 h)
      in \<lparr>fs_header = h, fs_dev = dev, fat_start_lba = fat_start, root_dir_lba = root_lba, data_region_lba = data_lba,
          root_dir_sectors = root_sectors, total_clusters = (sectors - data_lba) div ucast (fh_sectors_per_cluster h),
          fat_cache = None, fat_bytes = ucast (fh_fat_size_16 h) * ucast (fh_bytes_per_sector h), fs_blk = st\<rparr>)"

definition fat16_mount :: "u64 \<Rightarrow> 'h block_dev \<Rightarrow> 'h blk \<Rightarrow> mem \<Rightarrow> ('h fat16 option \<times> 'h blk \<times> mem) option" where
  "fat16_mount hhdm dev st m =
     do { (b, st) \<leftarrow> boot_sector dev st;
          case b of
            None \<Rightarrow> Some (None, st, m)
          | Some b \<Rightarrow>
              let h = header_of b in
              if fh_bytes_per_sector h = 0 \<or> fh_sectors_per_cluster h = 0 then None
              else let fs = volume_of dev h st in
                do { (p, kh) \<leftarrow> kmalloc hhdm (ucast (fat_bytes fs)) (fst m);
                     if p = 0 then Some (Some fs, st, kh, snd m)
                     else do { (cache, fs) \<leftarrow> load_fat (unat (fh_fat_size_16 h)) 0
                                 (map (\<lambda>i. snd m (p + of_nat i)) [0..<unat (fat_bytes fs)]) fs;
                               case cache of
                                 None \<Rightarrow> do { m \<leftarrow> mem_free hhdm p (kh, snd m); Some (Some fs, fs_blk fs, m) }
                               | Some c \<Rightarrow> Some (Some (fs\<lparr>fat_cache := Some c\<rparr>), fs_blk fs, kh, snd m) } } }"

text \<open>\<^verbatim>\<open>fat16_mount_fs\<close> up to the root inode; the caller's \<open>dentry_alloc\<close> makes the root entry. The result is the volume with
  its root inode and the two allocations that the code then checks together.\<close>

definition root_entry :: fat16_directory where
  "root_entry = zero_entry\<lparr>fd_attributes := FAT16_ATTR_DIRECTORY, fd_first_cluster_low := 0\<rparr>"

definition fat16_mount_fs ::
  "u64 \<Rightarrow> (mem \<Rightarrow> ('d option \<times> mem) option) \<Rightarrow> 'h block_dev \<Rightarrow> 'h blk \<Rightarrow> mem \<Rightarrow>
   (('h fat16 \<times> fat16_inode \<times> 'd) option \<times> 'h blk \<times> mem) option" where
  "fat16_mount_fs hhdm dentry_alloc dev st m =
     do { (p, m) \<leftarrow> zalloc hhdm sizeof_fat16 m;
          if p = 0 then Some (None, st, m)
          else do { (fs, st, m) \<leftarrow> fat16_mount hhdm dev st m;
                    case fs of
                      None \<Rightarrow> do { m \<leftarrow> mem_free hhdm p m; Some (None, st, m) }
                    | Some fs \<Rightarrow>
                        do { (root_inode, m) \<leftarrow> fat16_make_inode hhdm root_entry \<lparr>dl_lba = 0, dl_off = 0\<rparr> m;
                             (root_dentry, m) \<leftarrow> dentry_alloc m;
                             case (root_inode, root_dentry) of
                               (Some i, Some d) \<Rightarrow> Some (Some (fs, i, d), st, m)
                             | _ \<Rightarrow> do { m \<leftarrow> mem_free hhdm p m; Some (None, st, m) } } } }"

section \<open>Look-up and directory listing\<close>

definition lookup_cb :: "u64 \<Rightarrow> u8 list \<Rightarrow> (fat16_inode option \<times> mem) dir_cb" where
  "lookup_cb hhdm name entry offset loc ctx =
     (if \<not> fat16_entry_valid entry then Some (0, ctx)
      else if \<not> fat16_name_cmp name entry then Some (0, ctx)
      else do { (inode, m) \<leftarrow> fat16_make_inode hhdm entry loc (snd ctx);
                case inode of None \<Rightarrow> Some (-1, fst ctx, m) | Some i \<Rightarrow> Some (1, Some i, m) })"

definition fat16_lookup ::
  "u64 \<Rightarrow> fat16_inode \<Rightarrow> u8 list \<Rightarrow> 'h fat16 \<Rightarrow> mem \<Rightarrow> (fat16_inode option \<times> 'h fat16 \<times> mem) option" where
  "fat16_lookup hhdm dir name fs m =
     do { (r, (inode, m), fs) \<leftarrow> fat16_walk_dir fs (fd_first_cluster_low (fi_ent dir)) (lookup_cb hhdm name) (None, m);
          Some (if r = 1 then inode else None, fs, m) }"

datatype dirent_type = DT_UNKNOWN | DT_DIR | DT_REG

record dirent =
  de_inode :: u64
  de_offset :: u32
  de_reclen :: u16
  de_type :: dirent_type
  de_name :: "u8 list"

record 'd readdir_ctx =
  rc_dirent :: 'd
  rc_start :: u32
  rc_next :: u32
  rc_count :: int

definition readdir_cb :: "('d \<Rightarrow> dirent \<Rightarrow> int \<times> 'd) \<Rightarrow> 'd readdir_ctx dir_cb" where
  "readdir_cb filldir entry offset loc ctx =
     (if offset < rc_start ctx then Some (0, ctx)
      else let ctx = ctx\<lparr>rc_next := offset + of_nat FAT16_DIR_ENTRY_SIZE\<rparr> in
           if \<not> fat16_entry_valid entry then Some (0, ctx)
           else let d = \<lparr>de_inode = 0, de_offset = offset, de_reclen = 280,
                         de_type = (if is_dir entry then DT_DIR else DT_REG),
                         de_name = fat16_name_to_str (fd_name entry) (fd_extension entry)\<rparr>;
                    (r, out) = filldir (rc_dirent ctx) d; ctx = ctx\<lparr>rc_dirent := out\<rparr>
                in if r < 0 then Some (1, ctx) else Some (0, ctx\<lparr>rc_count := rc_count ctx + 1\<rparr>))"

text \<open>The number of entries passed on, the listing and the new offset of the file.\<close>

definition fat16_readdir ::
  "('d \<Rightarrow> dirent \<Rightarrow> int \<times> 'd) \<Rightarrow> fat16_inode \<Rightarrow> u64 \<Rightarrow> 'd \<Rightarrow> 'h fat16 \<Rightarrow> (int \<times> u64 \<times> 'd \<times> 'h fat16) option" where
  "fat16_readdir filldir inode offset dirent fs =
     do { (_, ctx, fs) \<leftarrow> fat16_walk_dir fs (fd_first_cluster_low (fi_ent inode)) (readdir_cb filldir)
            \<lparr>rc_dirent = dirent, rc_start = ucast offset, rc_next = ucast offset, rc_count = 0\<rparr>;
          Some (rc_count ctx, ucast (rc_next ctx), rc_dirent ctx, fs) }"

section \<open>Reading files\<close>

definition fat16_open :: "fat16_inode \<Rightarrow> int" where "fat16_open inode = 0"
definition fat16_release :: "fat16_inode \<Rightarrow> int" where "fat16_release inode = 0"

partial_function (option) read_skip :: "u32 \<Rightarrow> u16 \<Rightarrow> u32 \<Rightarrow> 'h fat16 \<Rightarrow> ((u16 \<times> u32) option \<times> 'h fat16) option" where
  "read_skip cluster_size cluster skip fs =
     (if skip < cluster_size then Some (Some (cluster, skip), fs)
      else do { (c, fs) \<leftarrow> fat16_next_cluster fs cluster;
                if \<not> fat16_cluster_valid c then Some (None, fs) else read_skip cluster_size c (skip - cluster_size) fs })"

text \<open>The sectors of a cluster that are left: \<open>skip\<close> bytes to pass over, \<open>copied\<close> bytes of \<open>cnt\<close> copied, \<open>buf\<close> the
  destination. The flag is unset after a failed read.\<close>

primrec read_sectors ::
  "nat \<Rightarrow> u32 \<Rightarrow> u64 \<Rightarrow> u32 \<Rightarrow> u32 \<Rightarrow> u8 list \<Rightarrow> 'h fat16 \<Rightarrow> (bool \<times> u32 \<times> u32 \<times> u8 list \<times> 'h fat16) option" where
  "read_sectors 0 lba cnt skip copied buf fs = Some (True, skip, copied, buf, fs)"
| "read_sectors (Suc n) lba cnt skip copied buf fs =
     (if \<not> ucast copied < cnt then Some (True, skip, copied, buf, fs)
      else if skip \<ge> bps fs then read_sectors n (lba + 1) cnt (skip - bps fs) copied buf fs
      else case fs_read fs lba of
             (None, fs) \<Rightarrow> Some (False, skip, copied, buf, fs)
           | (Some sector, fs) \<Rightarrow>
               let avail = bps fs - skip;
                   to_copy = (if ucast avail < cnt - ucast copied then avail else ucast (cnt - ucast copied))
               in if unat skip + unat to_copy > FAT16_SECTOR_SIZE then None
                  else read_sectors n (lba + 1) cnt 0 (copied + to_copy)
                         (patch (unat copied) (take (unat to_copy) (drop (unat skip) sector)) buf) fs)"

partial_function (option) read_chain ::
  "u16 \<Rightarrow> u64 \<Rightarrow> u32 \<Rightarrow> u32 \<Rightarrow> u8 list \<Rightarrow> 'h fat16 \<Rightarrow> (int \<times> u8 list \<times> 'h fat16) option" where
  "read_chain cluster cnt skip copied buf fs =
     (if fat16_cluster_valid cluster \<and> ucast copied < cnt
      then do { (ok, skip, copied, buf, fs) \<leftarrow> read_sectors (unat (spc fs)) (fat16_cluster_to_lba fs cluster) cnt skip copied buf fs;
                if \<not> ok then Some (if copied > 0 then uint copied else -1, buf, fs)
                else do { (c, fs) \<leftarrow> fat16_next_cluster fs cluster; read_chain c cnt skip copied buf fs } }
      else Some (uint copied, buf, fs))"

text \<open>\<^verbatim>\<open>off_t\<close> is signed; a sum outside its range is an undefined operation. \<open>buf\<close> starts empty: the result lists the
  bytes stored from the start of the caller's buffer on.\<close>

definition i64_ok :: "int \<Rightarrow> bool" where
  "i64_ok x \<longleftrightarrow> - (2 ^ 63) \<le> x \<and> x < 2 ^ 63"

definition fat16_read :: "fat16_inode \<Rightarrow> u64 \<Rightarrow> u64 \<Rightarrow> 'h fat16 \<Rightarrow> (int \<times> u8 list \<times> 'h fat16) option" where
  "fat16_read inode cnt offset fs =
     (if sint offset \<ge> sint (in_size inode) then Some (0, [], fs)
      else if \<not> i64_ok (sint offset + sint cnt) then None
      else let cnt = (if sint offset + sint cnt > sint (in_size inode) then in_size inode - offset else cnt)
           in do { (c, fs) \<leftarrow> read_skip (bps fs * spc fs) (fd_first_cluster_low (fi_ent inode)) (ucast offset) fs;
                   case c of
                     None \<Rightarrow> Some (0, [], fs)
                   | Some (cluster, skip) \<Rightarrow> read_chain cluster cnt skip 0 [] fs })"

section \<open>Writing files\<close>

definition chain_step :: "'h fat16 \<Rightarrow> u16 \<Rightarrow> (u16 \<times> 'h fat16) option" where
  "chain_step fs cluster =
     do { (n, fs) \<leftarrow> fat16_next_cluster fs cluster;
          if fat16_cluster_valid n then Some (n, fs)
          else do { (nc, fs) \<leftarrow> fat16_cluster_alloc fs;
                    case nc of
                      None \<Rightarrow> Some (0, fs)
                    | Some n \<Rightarrow> do { (ok, fs) \<leftarrow> fat16_fat_set fs cluster n; Some (if ok then n else 0, fs) } } }"

partial_function (option) write_skip :: "u32 \<Rightarrow> u32 \<Rightarrow> u32 \<Rightarrow> u16 \<Rightarrow> 'h fat16 \<Rightarrow> (u16 option \<times> 'h fat16) option" where
  "write_skip cluster_size offset pos cluster fs =
     (if pos \<le> offset
      then do { (c, fs) \<leftarrow> chain_step fs cluster;
                if c = 0 then Some (None, fs) else write_skip cluster_size offset (pos + cluster_size) c fs }
      else Some (Some cluster, fs))"

text \<open>The sectors of a cluster that are left, as for reading. \<open>sector\<close> is the buffer on the stack: a sector written whole is
  not read first.\<close>

primrec write_sectors ::
  "nat \<Rightarrow> u32 \<Rightarrow> u8 list \<Rightarrow> u64 \<Rightarrow> u32 \<Rightarrow> u32 \<Rightarrow> u8 list \<Rightarrow> 'h fat16 \<Rightarrow> (bool \<times> u32 \<times> u32 \<times> u8 list \<times> 'h fat16) option" where
  "write_sectors 0 lba buf cnt skip written sector fs = Some (True, skip, written, sector, fs)"
| "write_sectors (Suc n) lba buf cnt skip written sector fs =
     (if \<not> ucast written < cnt then Some (True, skip, written, sector, fs)
      else if skip \<ge> bps fs then write_sectors n (lba + 1) buf cnt (skip - bps fs) written sector fs
      else let avail = bps fs - skip;
               chunk = (if ucast avail < cnt - ucast written then avail else ucast (cnt - ucast written));
               (got, fs) = (if skip \<noteq> 0 \<or> chunk \<noteq> bps fs then fs_read fs lba else (Some sector, fs))
           in case got of
                None \<Rightarrow> Some (False, skip, written, sector, fs)
              | Some sector \<Rightarrow>
                  if unat skip + unat chunk > FAT16_SECTOR_SIZE then None
                  else let sector = patch (unat skip) (take (unat chunk) (drop (unat written) buf)) sector
                       in case fs_write fs lba sector of
                            (False, fs) \<Rightarrow> Some (False, skip, written, sector, fs)
                          | (True, fs) \<Rightarrow> write_sectors n (lba + 1) buf cnt 0 (written + chunk) sector fs)"

partial_function (option) write_chain ::
  "u16 \<Rightarrow> u8 list \<Rightarrow> u64 \<Rightarrow> u32 \<Rightarrow> u32 \<Rightarrow> u8 list \<Rightarrow> 'h fat16 \<Rightarrow> (u32 \<times> 'h fat16) option" where
  "write_chain cluster buf cnt skip written sector fs =
     (if ucast written < cnt
      then do { (ok, skip, written, sector, fs) \<leftarrow>
                  write_sectors (unat (spc fs)) (fat16_cluster_to_lba fs cluster) buf cnt skip written sector fs;
                if \<not> ok then Some (written, fs)
                else if ucast written < cnt
                then do { (c, fs) \<leftarrow> chain_step fs cluster;
                          if c = 0 then Some (written, fs) else write_chain c buf cnt skip written sector fs }
                else Some (written, fs) }
      else Some (written, fs))"

text \<open>The code after the label \<^verbatim>\<open>out\<close>: the result of storing the directory entry is not looked at.\<close>

definition write_out :: "u16 \<times> u16 \<Rightarrow> fat16_inode \<Rightarrow> u64 \<Rightarrow> u32 \<Rightarrow> 'h fat16 \<Rightarrow> (int \<times> fat16_inode \<times> 'h fat16) option" where
  "write_out now inode offset written fs =
     (let fin = offset + ucast written;
          inode = (if fin > in_size inode
                   then inode\<lparr>in_size := fin, fi_ent := (fi_ent inode)\<lparr>fd_file_size_bytes := ucast fin\<rparr>\<rparr> else inode);
          inode = (if written > 0 then inode\<lparr>fi_ent := fat16_entry_touch now (fi_ent inode)\<rparr> else inode)
      in do { (_, fs) \<leftarrow> fat16_dir_write fs (fi_loc inode) (fi_ent inode);
              Some (if written > 0 then uint written else -1, inode, fs) })"

text \<open>The part of \<^verbatim>\<open>fat16_write\<close> that follows the choice of the first cluster.\<close>

definition write_from ::
  "u16 \<times> u16 \<Rightarrow> u8 list \<Rightarrow> fat16_inode \<Rightarrow> u8 list \<Rightarrow> u64 \<Rightarrow> u64 \<Rightarrow> 'h fat16 \<Rightarrow> (int \<times> fat16_inode \<times> 'h fat16) option" where
  "write_from now sector inode buf cnt offset fs =
     (let cluster_size = bps fs * spc fs in
      do { (c, fs) \<leftarrow> write_skip cluster_size (ucast offset) cluster_size (fd_first_cluster_low (fi_ent inode)) fs;
           case c of
             None \<Rightarrow> Some (-1, inode, fs)
           | Some cluster \<Rightarrow>
               if cluster_size = 0 then None
               else do { (written, fs) \<leftarrow> write_chain cluster buf cnt (ucast offset mod cluster_size) 0 sector fs;
                         write_out now inode offset written fs } })"

text \<open>\<open>buf\<close> is the caller's buffer of \<open>cnt\<close> bytes, \<open>sector\<close> what the buffer on the stack holds at first.\<close>

definition fat16_write ::
  "u16 \<times> u16 \<Rightarrow> u8 list \<Rightarrow> fat16_inode \<Rightarrow> u8 list \<Rightarrow> u64 \<Rightarrow> u64 \<Rightarrow> 'h fat16 \<Rightarrow> (int \<times> fat16_inode \<times> 'h fat16) option" where
  "fat16_write now sector inode buf cnt offset fs =
     (if is_dir (fi_ent inode) \<or> bd_read_only (fs_dev fs) then Some (-1, inode, fs)
      else if cnt = 0 then Some (0, inode, fs)
      else if fd_first_cluster_low (fi_ent inode) \<noteq> 0 then write_from now sector inode buf cnt offset fs
      else do { (c, fs) \<leftarrow> fat16_cluster_alloc fs;
                case c of
                  None \<Rightarrow> Some (-1, inode, fs)
                | Some c \<Rightarrow>
                    write_from now sector (inode\<lparr>fi_ent := (fi_ent inode)\<lparr>fd_first_cluster_low := c\<rparr>\<rparr>) buf cnt offset fs })"

definition fat16_truncate :: "u16 \<times> u16 \<Rightarrow> fat16_inode \<Rightarrow> u64 \<Rightarrow> 'h fat16 \<Rightarrow> (bool \<times> fat16_inode \<times> 'h fat16) option" where
  "fat16_truncate now inode len fs =
     (if is_dir (fi_ent inode) \<or> bd_read_only (fs_dev fs) then Some (False, inode, fs)
      else if len \<noteq> 0 then Some (False, inode, fs)
      else if in_size inode = 0 \<and> fd_first_cluster_low (fi_ent inode) = 0 then Some (True, inode, fs)
      else do { (_, fs) \<leftarrow> (if fat16_cluster_valid (fd_first_cluster_low (fi_ent inode))
                            then fat16_chain_free fs (fd_first_cluster_low (fi_ent inode)) else Some (True, fs));
                let ent = fat16_entry_touch now ((fi_ent inode)\<lparr>fd_first_cluster_low := 0, fd_file_size_bytes := 0\<rparr>);
                let inode = inode\<lparr>in_size := 0, fi_ent := ent\<rparr>;
                (ok, fs) \<leftarrow> fat16_dir_write fs (fi_loc inode) ent;
                Some (ok, inode, fs) })"

section \<open>Namespace operations\<close>

text \<open>The common tail of create and mkdir: a slot for the entry, and an inode for it.\<close>

definition link_entry ::
  "u64 \<Rightarrow> u16 \<Rightarrow> fat16_directory \<Rightarrow> 'h fat16 \<Rightarrow> mem \<Rightarrow> (fat16_inode option \<times> 'h fat16 \<times> mem) option" where
  "link_entry hhdm dir_first ent fs m =
     do { (loc, fs) \<leftarrow> fat16_dir_alloc_slot fs dir_first;
          case loc of
            None \<Rightarrow> Some (None, fs, m)
          | Some loc \<Rightarrow>
              do { (ok, fs) \<leftarrow> fat16_dir_write fs loc ent;
                   if \<not> ok then Some (None, fs, m)
                   else do { (inode, m) \<leftarrow> fat16_make_inode hhdm ent loc m; Some (inode, fs, m) } } }"

definition fat16_create ::
  "u64 \<Rightarrow> u16 \<times> u16 \<Rightarrow> fat16_inode \<Rightarrow> u8 list \<Rightarrow> 'h fat16 \<Rightarrow> mem \<Rightarrow> (fat16_inode option \<times> 'h fat16 \<times> mem) option" where
  "fat16_create hhdm now dir name fs m =
     (if bd_read_only (fs_dev fs) then Some (None, fs, m)
      else case fat16_fill_entry now name FAT16_ATTR_ARCHIVE of
             None \<Rightarrow> Some (None, fs, m)
           | Some ent \<Rightarrow>
               let dir_first = fd_first_cluster_low (fi_ent dir) in
               do { (found, fs) \<leftarrow> fat16_dir_find fs dir_first name;
                    if found \<noteq> None then Some (None, fs, m) else link_entry hhdm dir_first ent fs m })"

definition dot_entry :: "u16 \<times> u16 \<Rightarrow> u16 \<Rightarrow> fat16_directory" where
  "dot_entry now cluster =
     fat16_entry_stamp now (zero_entry\<lparr>fd_name := (replicate 8 32)[0 := 46], fd_extension := replicate 3 32,
       fd_attributes := FAT16_ATTR_DIRECTORY, fd_first_cluster_low := cluster\<rparr>)"

definition fat16_mkdir ::
  "u64 \<Rightarrow> u16 \<times> u16 \<Rightarrow> fat16_inode \<Rightarrow> u8 list \<Rightarrow> 'h fat16 \<Rightarrow> mem \<Rightarrow> (fat16_inode option \<times> 'h fat16 \<times> mem) option" where
  "fat16_mkdir hhdm now dir name fs m =
     (if bd_read_only (fs_dev fs) then Some (None, fs, m)
      else case fat16_fill_entry now name FAT16_ATTR_DIRECTORY of
             None \<Rightarrow> Some (None, fs, m)
           | Some ent \<Rightarrow>
               let dir_first = fd_first_cluster_low (fi_ent dir) in
               do { (found, fs) \<leftarrow> fat16_dir_find fs dir_first name;
                    if found \<noteq> None then Some (None, fs, m)
                    else do { (nc, fs) \<leftarrow> fat16_cluster_alloc fs;
                              case nc of
                                None \<Rightarrow> Some (None, fs, m)
                              | Some cluster \<Rightarrow>
                                  let ent = ent\<lparr>fd_first_cluster_low := cluster\<rparr>;
                                      zero = replicate FAT16_SECTOR_SIZE 0;
                                      base = fat16_cluster_to_lba fs cluster;
                                      (ok, fs) = fill_sectors (unat (spc fs) - 1) (base + 1) zero fs
                                  in if \<not> ok then Some (None, fs, m)
                                     else let dot = dot_entry now cluster;
                                              dotdot = dot\<lparr>fd_name := (fd_name dot)[1 := 46], fd_first_cluster_low := dir_first\<rparr>;
                                              buf = patch FAT16_DIR_ENTRY_SIZE (dir_bytes dotdot) (patch 0 (dir_bytes dot) zero);
                                              (ok, fs) = fs_write fs base buf
                                          in if \<not> ok then Some (None, fs, m)
                                             else do { (inode, fs, m) \<leftarrow> link_entry hhdm dir_first ent fs m;
                                                       case inode of
                                                         Some i \<Rightarrow> Some (Some i, fs, m)
                                                       | None \<Rightarrow> do { (_, fs) \<leftarrow> fat16_chain_free fs cluster; Some (None, fs, m) } } } })"

text \<open>The common tail of unlink and rmdir: the clusters are freed and the slot is marked as deleted.\<close>

definition unlink_entry :: "fat16_dir_loc \<Rightarrow> fat16_directory \<Rightarrow> 'h fat16 \<Rightarrow> (bool \<times> 'h fat16) option" where
  "unlink_entry loc ent fs =
     do { (_, fs) \<leftarrow> (if fat16_cluster_valid (fd_first_cluster_low ent)
                      then fat16_chain_free fs (fd_first_cluster_low ent) else Some (True, fs));
          fat16_dir_write fs loc (ent\<lparr>fd_name := (fd_name ent)[0 := FAT16_DIR_ENTRY_DELETED]\<rparr>) }"

definition fat16_unlink :: "fat16_inode \<Rightarrow> u8 list \<Rightarrow> 'h fat16 \<Rightarrow> (bool \<times> 'h fat16) option" where
  "fat16_unlink dir name fs =
     (if bd_read_only (fs_dev fs) then Some (False, fs)
      else do { (found, fs) \<leftarrow> fat16_dir_find fs (fd_first_cluster_low (fi_ent dir)) name;
                case found of
                  None \<Rightarrow> Some (False, fs)
                | Some (loc, ent) \<Rightarrow> if is_dir ent then Some (False, fs) else unlink_entry loc ent fs })"

definition fat16_rmdir :: "fat16_inode \<Rightarrow> u8 list \<Rightarrow> 'h fat16 \<Rightarrow> (bool \<times> 'h fat16) option" where
  "fat16_rmdir dir name fs =
     (if bd_read_only (fs_dev fs) then Some (False, fs)
      else do { (found, fs) \<leftarrow> fat16_dir_find fs (fd_first_cluster_low (fi_ent dir)) name;
                case found of
                  None \<Rightarrow> Some (False, fs)
                | Some (loc, ent) \<Rightarrow>
                    if \<not> is_dir ent then Some (False, fs)
                    else do { (empty, fs) \<leftarrow> fat16_dir_empty fs (fd_first_cluster_low ent);
                              if \<not> empty then Some (False, fs) else unlink_entry loc ent fs } })"

end
