(* ===== verification/Fat16_File.thy ===== *)
theory Fat16_File
  imports Fat16
begin

text \<open>
  File contents on a FAT16 volume: \<^verbatim>\<open>fat16_read\<close> and \<^verbatim>\<open>fat16_write\<close> of \<^verbatim>\<open>src/lizard/fat16.c\<close> against the bytes that the
  clusters of a file hold on the disk.
\<close>

section \<open>The bytes of a file\<close>

definition sector_data :: "(u64 \<Rightarrow> u8 list) \<Rightarrow> u32 \<Rightarrow> nat \<Rightarrow> u8 list" where
  "sector_data D lba n = concat (map (\<lambda>i. D (ucast (lba + of_nat i))) [0..<n])"

definition cluster_data :: "(u64 \<Rightarrow> u8 list) \<Rightarrow> 'h fat16 \<Rightarrow> u16 \<Rightarrow> u8 list" where
  "cluster_data D fs k = sector_data D (fat16_cluster_to_lba fs k) (unat (spc fs))"

definition file_data :: "(u64 \<Rightarrow> u8 list) \<Rightarrow> 'h fat16 \<Rightarrow> u16 list \<Rightarrow> u8 list" where
  "file_data D fs cs = concat (map (cluster_data D fs) cs)"

text \<open>The clusters of the data region.\<close>

definition in_region :: "'h fat16 \<Rightarrow> u16 \<Rightarrow> bool" where
  "in_region fs k \<longleftrightarrow> 2 \<le> unat k \<and> unat k < unat (total_clusters fs) + 2"

lemma sector_data_0 [simp]: "sector_data D lba 0 = []"
  by (simp add: sector_data_def)

lemma sector_data_Suc: "sector_data D lba (Suc n) = D (ucast lba) @ sector_data D (lba + 1) n"
proof -
  have "map (\<lambda>i. D (ucast (lba + of_nat i))) [0..<Suc n] = D (ucast lba) # map (\<lambda>i. D (ucast (lba + of_nat (Suc i)))) [0..<n]"
    by (simp add: map_upt_Suc del: upt_Suc)
  then show ?thesis by (simp add: sector_data_def add.assoc)
qed

lemma file_data_simps [simp]: "file_data D fs [] = []" "file_data D fs (c # cs) = cluster_data D fs c @ file_data D fs cs"
  by (simp_all add: file_data_def)

lemma file_data_append: "file_data D fs (cs @ ds) = file_data D fs cs @ file_data D fs ds"
  by (simp add: file_data_def)

lemma in_region_fat: "fat_geom nsecs fs \<Longrightarrow> in_region fs k \<Longrightarrow> unat k < 256 * fat_size fs"
  by (simp add: fat_geom_def in_region_def)

text \<open>The sectors of a cluster lie in the data region.\<close>

lemma unat_cluster_lba:
  assumes g: "fat_geom nsecs fs" and k: "in_region fs k"
  shows "unat (fat16_cluster_to_lba fs k) = unat (data_region_lba fs) + (unat k - 2) * unat (spc fs)"
    "unat (fat16_cluster_to_lba fs k) + unat (spc fs) \<le> nsecs"
    "unat (data_region_lba fs) \<le> unat (fat16_cluster_to_lba fs k)"
proof -
  let ?s = "unat (spc fs)" and ?d = "unat (data_region_lba fs)"
  have k2: "\<not> k < 2" using k by (simp add: in_region_def word_less_nat_alt)
  then have uk: "unat (k - 2) = unat k - 2" by (subst unat_sub) (simp_all add: not_less)
  have "(unat k - 2 + 1) * ?s \<le> unat (total_clusters fs) * ?s"
    using k unfolding in_region_def by (intro mult_le_mono1) linarith
  then have top: "?d + (unat k - 2) * ?s + ?s \<le> nsecs" using g by (simp add: fat_geom_def)
  then have small: "?d + (unat k - 2) * ?s < 2 ^ 32" using g by (simp add: fat_geom_def)
  have m: "unat (ucast (k - 2) * spc fs) = (unat k - 2) * ?s"
    using unat_mult_lem [of "ucast (k - 2) :: u32" "spc fs"] small uk by simp
  show e: "unat (fat16_cluster_to_lba fs k) = ?d + (unat k - 2) * ?s"
    unfolding fat16_cluster_to_lba_def FAT16_CLUSTER_MIN_def using k2 small m by (simp add: unat_add_small)
  show "unat (fat16_cluster_to_lba fs k) + ?s \<le> nsecs" "?d \<le> unat (fat16_cluster_to_lba fs k)"
    unfolding e using top by simp_all
qed

context block_driver
begin

lemma fs_read_vol:
  assumes "vol fs" "unat s < nsec"
  shows "\<exists>fs'. fs_read fs s = (Some (disk fs (ucast s)), fs') \<and> vol fs' \<and> disk fs' = disk fs \<and> same_vol fs fs'"
proof -
  obtain fs' where f: "fs_read fs s = (Some (disk fs (ucast s)), fs')" "vol_base fs'" "disk fs' = disk fs" "same_vol fs fs'"
    "fat_cache fs' = fat_cache fs"
    using fs_read_ok [OF vol_vol_base [OF assms(1)] assms(2)] by blast
  have "cache_ok (disk fs) fs" using assms(1) by (simp add: fs_inv_def)
  from cache_ok_transfer [OF this f(4,5)] f show ?thesis by (auto simp: fs_inv_def)
qed

text \<open>A write behind the FATs keeps the volume and its FAT.\<close>

lemma fs_write_vol:
  assumes "vol fs" "unat s < nsec" "length data = 512" "unat (root_dir_lba fs) \<le> unat s"
  shows "\<exists>fs'. fs_write fs s data = (True, fs') \<and> vol fs' \<and> disk fs' = (disk fs)(ucast s := data) \<and> same_vol fs fs' \<and>
    (\<forall>c. unat c < 256 * fat_size fs \<longrightarrow> fatv (disk fs') fs c = fatv (disk fs) fs c)"
proof -
  have b: "vol_base fs" and k: "cache_ok (disk fs) fs" using assms(1) by (simp_all add: fs_inv_def)
  obtain fs' where f: "fs_write fs s data = (True, fs')" "vol_base fs'" "disk fs' = (disk fs)(ucast s := data)" "same_vol fs fs'"
    "fat_cache fs' = fat_cache fs"
    using fs_write_ok [OF b assms(2,3)] by blast
  have nf: "0 < num_fats fs" using vol_geom [OF b] by (simp add: fat_geom_def)
  have "fat_sector fs 0 c \<noteq> s" if "unat c < 256 * fat_size fs" for c
    using unat_fat_sector(3) [OF vol_geom [OF b] nf that] assms(4) by auto
  then have eq: "unat c < 256 * fat_size fs \<Longrightarrow> fatv (disk fs') fs c = fatv (disk fs) fs c" for c
    by (auto simp: fatv_def f(3) ucast_32_64_inj)
  from cache_ok_transfer [OF k f(4,5) eq] f eq show ?thesis by (auto simp: fs_inv_def)
qed

text \<open>The next cluster of a chain.\<close>

lemma next_cluster_ok:
  assumes "vol fs" "unat c < 256 * fat_size fs"
  shows "\<exists>fs'. fat16_next_cluster fs c = Some (fatv (disk fs) fs c, fs') \<and> vol fs' \<and> disk fs' = disk fs \<and> same_vol fs fs'"
  using fat_get_ok [OF assms] by (auto simp: fat16_next_cluster_def)

end

section \<open>Reading\<close>

text \<open>The number of bytes taken from a sector.\<close>

lemma chunk_size:
  fixes skip copied :: u32 and cnt :: u64
  assumes "unat skip < 512" "unat copied < unat cnt" "unat cnt < 2 ^ 32"
  defines "t \<equiv> (if ucast (512 - skip) < cnt - ucast copied then 512 - skip else ucast (cnt - ucast copied))"
  shows "unat t = min (512 - unat skip) (unat cnt - unat copied)"
proof -
  have a: "unat (512 - skip) = 512 - unat skip" using assms(1) by (subst unat_sub) (simp_all add: word_le_nat_alt)
  have b: "unat (cnt - ucast copied) = unat cnt - unat copied" using assms(2) by (subst unat_sub) (simp_all add: word_le_nat_alt)
  then have c: "unat (ucast (cnt - ucast copied) :: u32) = unat cnt - unat copied"
    using assms(3) by (simp add: unsigned_ucast_eq take_bit_nat_eq_self)
  show ?thesis unfolding t_def by (auto simp: word_less_nat_alt a b c min_def)
qed

lemma patch_end: "off = length buf \<Longrightarrow> patch off bs buf = buf @ bs"
  by (simp add: patch_def)

lemma length_sector_data:
  "(\<And>i. i < n \<Longrightarrow> length (D (ucast (lba + of_nat i))) = 512) \<Longrightarrow> length (sector_data D lba n) = 512 * n"
  by (induction n) (simp_all add: sector_data_def)

text \<open>Adding a sector number to an address inside the disk.\<close>

lemma lba_suc: "unat (lba :: u32) + Suc n \<le> nsecs \<Longrightarrow> nsecs < 2 ^ 32 \<Longrightarrow> unat (lba + 1) = unat lba + 1"
  by (subst unat_add_small) simp_all

context block_driver
begin

lemma vol_nsec: "vol fs \<Longrightarrow> nsec < 2 ^ 32"
  by (simp add: fs_inv_def fs_base_def fat_geom_def)

lemma read_sectors_ok:
  assumes "vol fs" "unat lba + n \<le> nsec" "unat cnt < 2 ^ 32" "length buf = unat copied" "unat copied \<le> unat cnt"
  shows "\<exists>skip' copied' fs'. read_sectors n lba cnt skip copied buf fs =
      Some (True, skip', copied', buf @ take (unat cnt - unat copied) (drop (unat skip) (sector_data (disk fs) lba n)), fs') \<and>
    unat copied' = unat copied + length (take (unat cnt - unat copied) (drop (unat skip) (sector_data (disk fs) lba n))) \<and>
    unat skip' = (if unat copied = unat cnt then unat skip else unat skip - 512 * n) \<and>
    vol fs' \<and> disk fs' = disk fs \<and> same_vol fs fs'"
  using assms
proof (induction n arbitrary: lba skip copied buf fs)
  case 0
  then show ?case by simp
next
  case (Suc n)
  have bps: "bps fs = 512" using Suc.prems(1) by (simp add: vol_vol_base)
  have lba1: "unat (lba + 1) = unat lba + 1" using lba_suc Suc.prems(2) vol_nsec [OF Suc.prems(1)] by blast
  show ?case
  proof (cases "unat copied = unat cnt")
    case True
    then show ?thesis using Suc.prems(1) by (simp add: word_less_nat_alt)
  next
    case False
    then have lt: "unat copied < unat cnt" using Suc.prems(5) by simp
    have len: "length (disk fs (ucast lba)) = 512"
      using disk_length [OF vol_vol_base [OF Suc.prems(1)]] Suc.prems(2) by simp
    show ?thesis
    proof (cases "unat skip < 512")
      case sk: False
      then have u: "unat (skip - 512) = unat skip - 512" by (subst unat_sub) (simp_all add: word_le_nat_alt)
      have le: "512 \<le> skip" using sk by (simp add: word_le_nat_alt)
      have d: "drop (unat skip) (sector_data (disk fs) lba (Suc n)) = drop (unat (skip - 512)) (sector_data (disk fs) (lba + 1) n)"
        using len sk u by (simp add: sector_data_Suc)
      have st: "read_sectors (Suc n) lba cnt skip copied buf fs = read_sectors n (lba + 1) cnt (skip - 512) copied buf fs"
        using lt bps le by (simp add: word_less_nat_alt)
      show ?thesis
        unfolding st d using Suc.IH [OF Suc.prems(1) _ Suc.prems(3-5), of "lba + 1" "skip - 512"] Suc.prems(2) lba1 u False
        by simp
    next
      case sk: True
      have s: "unat lba < nsec" using Suc.prems(2) by simp
      obtain fs1 where f1: "fs_read fs lba = (Some (disk fs (ucast lba)), fs1)" "vol fs1" "disk fs1 = disk fs" "same_vol fs fs1"
        using fs_read_vol [OF Suc.prems(1) s] by blast
      define t where "t = (if ucast (512 - skip) < cnt - ucast copied then 512 - skip else ucast (cnt - ucast copied))"
      have t: "unat t = min (512 - unat skip) (unat cnt - unat copied)"
        unfolding t_def by (rule chunk_size [OF sk lt Suc.prems(3)])
      let ?piece = "take (unat t) (drop (unat skip) (disk fs (ucast lba)))"
      have lp: "length ?piece = unat t" using len t by simp
      have uc: "unat (copied + t) = unat copied + unat t"
        using t lt Suc.prems(3) by (subst unat_add_small) simp_all
      have bps1: "bps fs1 = 512" using f1(2) by (simp add: vol_vol_base)
      have st: "read_sectors (Suc n) lba cnt skip copied buf fs = read_sectors n (lba + 1) cnt 0 (copied + t) (buf @ ?piece) fs1"
      proof -
        have "ucast copied < cnt" "\<not> 512 \<le> skip" "\<not> 512 < unat skip + unat t"
          using lt sk t by (simp_all add: word_less_nat_alt word_le_nat_alt)
        then show ?thesis
          using bps bps1 f1(1) Suc.prems(4) by (simp add: t_def [symmetric] patch_end FAT16_SECTOR_SIZE_def)
      qed
      have "length (buf @ ?piece) = unat (copied + t)" using lp uc Suc.prems(4) by simp
      moreover have "unat (copied + t) \<le> unat cnt" using uc t lt by simp
      moreover have "unat (lba + 1) + n \<le> nsec" using lba1 Suc.prems(2) by simp
      ultimately obtain skip' copied' fs' where r: "read_sectors n (lba + 1) cnt 0 (copied + t) (buf @ ?piece) fs1 =
          Some (True, skip', copied', (buf @ ?piece) @ take (unat cnt - unat (copied + t)) (sector_data (disk fs) (lba + 1) n), fs')"
        "unat copied' = unat (copied + t) + length (take (unat cnt - unat (copied + t)) (sector_data (disk fs) (lba + 1) n))"
        "unat skip' = 0" "vol fs'" "disk fs' = disk fs" "same_vol fs1 fs'"
        using Suc.IH [OF f1(2) _ Suc.prems(3), of "lba + 1" "buf @ ?piece" "copied + t" 0] f1(3) by fastforce
      have out: "take (unat cnt - unat copied) (drop (unat skip) (sector_data (disk fs) lba (Suc n))) =
          ?piece @ take (unat cnt - unat (copied + t)) (sector_data (disk fs) (lba + 1) n)"
        using len sk t uc lt by (auto simp: sector_data_Suc min_def)
      show ?thesis
        unfolding st out using r same_vol_trans [OF f1(4) r(6)] False sk lp uc by simp
    qed
  qed
qed

text \<open>The loop over the clusters copies from the rest of the chain.\<close>

lemma cluster_sectors:
  assumes "vol fs" "in_region fs k"
  shows "unat (fat16_cluster_to_lba fs k) + unat (spc fs) \<le> nsec"
  using unat_cluster_lba(2) [OF vol_geom [OF vol_vol_base [OF assms(1)]] assms(2)] .

lemma length_cluster_data: "vol fs \<Longrightarrow> in_region fs k \<Longrightarrow> length (cluster_data (disk fs) fs k) = 512 * unat (spc fs)"
proof -
  assume v: "vol fs" and k: "in_region fs k"
  note c = cluster_sectors [OF v k] vol_nsec [OF v]
  have "length (disk fs (ucast (fat16_cluster_to_lba fs k + of_nat i))) = 512" if "i < unat (spc fs)" for i
  proof -
    have "unat (of_nat i :: u32) = i" using that c by (intro unat_of_nat_small) simp
    then have "unat (fat16_cluster_to_lba fs k + of_nat i) = unat (fat16_cluster_to_lba fs k) + i"
      using that c by (subst unat_add_small) simp_all
    then show ?thesis using that c disk_length [OF vol_vol_base [OF v]] by simp
  qed
  then show ?thesis by (simp add: cluster_data_def length_sector_data)
qed

lemma length_file_data:
  "vol fs \<Longrightarrow> list_all (in_region fs) cs \<Longrightarrow> length (file_data (disk fs) fs cs) = 512 * unat (spc fs) * length cs"
  by (induction cs) (simp_all add: length_cluster_data)

lemma same_vol_data:
  assumes "same_vol fs fs'"
  shows "cluster_data D fs' = cluster_data D fs" "file_data D fs' = file_data D fs" "in_region fs' = in_region fs"
proof -
  show "cluster_data D fs' = cluster_data D fs"
    using same_volD [OF assms] same_vol_fns [OF assms] by (auto simp: cluster_data_def fun_eq_iff)
  then show "file_data D fs' = file_data D fs" by (intro ext) (simp add: file_data_def)
  show "in_region fs' = in_region fs" using same_volD [OF assms] by (simp add: in_region_def fun_eq_iff)
qed

lemma read_chain_ok:
  assumes "vol fs" "fat_chain (fatv (disk fs) fs) c cs" "list_all (in_region fs) cs"
    and "unat cnt < 2 ^ 32" "length buf = unat copied" "unat copied \<le> unat cnt"
  shows "\<exists>fs'. read_chain c cnt skip copied buf fs =
      Some (int (length (buf @ take (unat cnt - unat copied) (drop (unat skip) (file_data (disk fs) fs cs)))),
            buf @ take (unat cnt - unat copied) (drop (unat skip) (file_data (disk fs) fs cs)), fs') \<and>
    vol fs' \<and> disk fs' = disk fs \<and> same_vol fs fs'"
  using assms
proof (induction cs arbitrary: c skip copied buf fs)
  case Nil
  then show ?case by (subst read_chain.simps) simp
next
  case (Cons x cs)
  have x: "x = c" "fat16_cluster_valid c" "fat_chain (fatv (disk fs) fs) (fatv (disk fs) fs c) cs" "in_region fs c" "list_all (in_region fs) cs"
    using Cons.prems(2,3) by auto
  show ?case
  proof (cases "unat copied = unat cnt")
    case True
    then have "uint copied = uint cnt" unfolding uint_nat by simp
    then show ?thesis using True Cons.prems(1,5) by (subst read_chain.simps) (simp add: word_less_nat_alt)
  next
    case False
    then have lt: "ucast copied < cnt" using Cons.prems(6) by (simp add: word_less_nat_alt)
    let ?d = "cluster_data (disk fs) fs c"
    let ?p = "take (unat cnt - unat copied) (drop (unat skip) ?d)"
    obtain skip1 copied1 fs1 where f1: "read_sectors (unat (spc fs)) (fat16_cluster_to_lba fs c) cnt skip copied buf fs =
        Some (True, skip1, copied1, buf @ ?p, fs1)"
      "unat copied1 = unat copied + length ?p" "unat skip1 = unat skip - 512 * unat (spc fs)" "vol fs1" "disk fs1 = disk fs" "same_vol fs fs1"
      using read_sectors_ok [OF Cons.prems(1) cluster_sectors [OF Cons.prems(1) x(4)] Cons.prems(4-6), of skip] False
      by (auto simp: cluster_data_def)
    note sv1 = same_volD [OF f1(6)] same_vol_fns [OF f1(6)] same_vol_data [OF f1(6)]
    have "unat c < 256 * fat_size fs1"
      using in_region_fat [OF vol_geom [OF vol_vol_base [OF Cons.prems(1)]] x(4)] sv1 by simp
    then obtain fs2 where f2: "fat16_next_cluster fs1 c = Some (fatv (disk fs) fs c, fs2)" "vol fs2" "disk fs2 = disk fs" "same_vol fs1 fs2"
      using next_cluster_ok [OF f1(4), of c] f1(5) sv1 by auto
    note v2 = same_vol_trans [OF f1(6) f2(4)]
    note sv2 = same_volD [OF v2] same_vol_fns [OF v2] same_vol_data [OF v2]
    have "length (buf @ ?p) = unat copied1" "unat copied1 \<le> unat cnt" using f1(2) Cons.prems(5,6) by simp_all
    moreover have "fat_chain (fatv (disk fs2) fs2) (fatv (disk fs) fs c) cs" "list_all (in_region fs2) cs"
      using x(3,5) f2(3) sv2 by simp_all
    ultimately obtain fs3 where f3: "read_chain (fatv (disk fs) fs c) cnt skip1 copied1 (buf @ ?p) fs2 =
        Some (int (length ((buf @ ?p) @ take (unat cnt - unat copied1) (drop (unat skip1) (file_data (disk fs) fs cs)))),
              (buf @ ?p) @ take (unat cnt - unat copied1) (drop (unat skip1) (file_data (disk fs) fs cs)), fs3)"
      "vol fs3" "disk fs3 = disk fs" "same_vol fs2 fs3"
      using Cons.IH [OF f2(2), of "fatv (disk fs) fs c" "buf @ ?p" copied1 skip1] Cons.prems(4) f2(3) sv2 by auto
    have out: "take (unat cnt - unat copied) (drop (unat skip) (file_data (disk fs) fs (x # cs))) =
        ?p @ take (unat cnt - unat copied1) (drop (unat skip1) (file_data (disk fs) fs cs))"
      using f1(2,3) length_cluster_data [OF Cons.prems(1) x(4)] x(1) by (auto simp: min_def)
    have "read_chain c cnt skip copied buf fs = read_chain (fatv (disk fs) fs c) cnt skip1 copied1 (buf @ ?p) fs2"
      using f1(1) by (subst read_chain.simps) (simp add: x(2) lt f2(1))
    then show ?thesis
      unfolding out using f3 same_vol_trans [OF v2 f3(4)] by auto
  qed
qed

text \<open>Passing over whole clusters.\<close>

lemma read_skip_ok:
  assumes "vol fs" "fat_chain (fatv (disk fs) fs) c cs" "list_all (in_region fs) cs"
    and "unat csz = 512 * unat (spc fs)" "unat skip < unat csz * length cs"
  shows "\<exists>c' cs' skip' fs'. read_skip csz c skip fs = Some (Some (c', skip'), fs') \<and>
    fat_chain (fatv (disk fs) fs) c' cs' \<and> list_all (in_region fs) cs' \<and>
    drop (unat skip) (file_data (disk fs) fs cs) = drop (unat skip') (file_data (disk fs) fs cs') \<and>
    vol fs' \<and> disk fs' = disk fs \<and> same_vol fs fs'"
  using assms
proof (induction cs arbitrary: c skip fs)
  case Nil
  then show ?case by simp
next
  case (Cons x cs)
  have x: "x = c" "fat16_cluster_valid c" "fat_chain (fatv (disk fs) fs) (fatv (disk fs) fs c) cs" "in_region fs c" "list_all (in_region fs) cs"
    using Cons.prems(2,3) by auto
  show ?case
  proof (cases "skip < csz")
    case True
    then have "read_skip csz c skip fs = Some (Some (c, skip), fs)" by (subst read_skip.simps) simp
    then show ?thesis using Cons.prems(1-3) same_vol_refl [of fs] by metis
  next
    case False
    then have ge: "unat csz \<le> unat skip" by (simp add: word_less_nat_alt not_less)
    have us: "unat (skip - csz) = unat skip - unat csz" using False by (subst unat_sub) (simp_all add: not_less)
    have "unat c < 256 * fat_size fs"
      using in_region_fat [OF vol_geom [OF vol_vol_base [OF Cons.prems(1)]] x(4)] .
    then obtain fs1 where f1: "fat16_next_cluster fs c = Some (fatv (disk fs) fs c, fs1)" "vol fs1" "disk fs1 = disk fs" "same_vol fs fs1"
      using next_cluster_ok [OF Cons.prems(1)] by blast
    note sv1 = same_volD [OF f1(4)] same_vol_fns [OF f1(4)] same_vol_data [OF f1(4)]
    have lt: "unat (skip - csz) < unat csz * length cs" using Cons.prems(5) ge us by simp
    then have "cs \<noteq> []" by auto
    then have val: "fat16_cluster_valid (fatv (disk fs) fs c)" using x(3) by (cases cs) auto
    have ch: "fat_chain (fatv (disk fs1) fs1) (fatv (disk fs) fs c) cs" "list_all (in_region fs1) cs" "unat csz = 512 * unat (spc fs1)"
      using x(3,5) Cons.prems(4) f1(3) sv1 by simp_all
    obtain c' cs' skip' fs' where r: "read_skip csz (fatv (disk fs) fs c) (skip - csz) fs1 = Some (Some (c', skip'), fs')"
      "fat_chain (fatv (disk fs) fs) c' cs'" "list_all (in_region fs) cs'"
      "drop (unat (skip - csz)) (file_data (disk fs) fs cs) = drop (unat skip') (file_data (disk fs) fs cs')"
      "vol fs'" "disk fs' = disk fs" "same_vol fs1 fs'"
      using Cons.IH [OF f1(2) ch lt] f1(3) sv1 by auto
    have "read_skip csz c skip fs = read_skip csz (fatv (disk fs) fs c) (skip - csz) fs1"
      by (subst read_skip.simps) (simp add: False f1(1) val)
    moreover have "drop (unat skip) (file_data (disk fs) fs (x # cs)) = drop (unat (skip - csz)) (file_data (disk fs) fs cs)"
      using length_cluster_data [OF Cons.prems(1) x(4)] Cons.prems(4) x(1) ge us by simp
    ultimately show ?thesis
      using r same_vol_trans [OF f1(4) r(7)] by metis
  qed
qed

lemma unat_cluster_size: "vol fs \<Longrightarrow> unat (bps fs * spc fs) = 512 * unat (spc fs)"
proof -
  assume v: "vol fs"
  have "unat (fh_sectors_per_cluster (fs_header fs)) < 256" using unat_lt2p [of "fh_sectors_per_cluster (fs_header fs)"] by simp
  then have "unat (512 :: u32) * unat (spc fs) < 2 ^ LENGTH(32)" by simp
  then show ?thesis using unat_mult_lem [of "512 :: u32" "spc fs"] v by (simp add: vol_vol_base)
qed

end

lemma sint_small: "unat (w :: u64) < 2 ^ 63 \<Longrightarrow> sint w = int (unat w)"
proof -
  assume "unat w < 2 ^ 63"
  then have "int (unat w) < int (2 ^ 63)" by (simp only: of_nat_less_iff)
  then have "uint w < 2 ^ 63" by simp
  then have "signed_take_bit 63 (uint w) = uint w"
    by (intro signed_take_bit_int_eq_self) (auto intro: order_trans [OF _ uint_ge_0])
  then show ?thesis by (simp add: sint_uint)
qed

lemma read_file_ok:
  assumes d: "block_driver rd wr content good n" and v: "fs_inv rd wr content good n fs"
    and ch: "fat_chain (fatv (content (hw (fs_blk fs))) fs) (fd_first_cluster_low (fi_ent inode)) cs" "list_all (in_region fs) cs"
    and sz: "unat (in_size inode) \<le> length (file_data (content (hw (fs_blk fs))) fs cs)" "unat (in_size inode) < 2 ^ 32"
    and args: "unat offset < 2 ^ 62" "unat cnt < 2 ^ 62"
  shows "\<exists>fs'. fat16_read inode cnt offset fs =
      (let data = take (unat cnt) (drop (unat offset) (take (unat (in_size inode)) (file_data (content (hw (fs_blk fs))) fs cs)))
       in Some (int (length data), data, fs')) \<and>
    fs_inv rd wr content good n fs' \<and> content (hw (fs_blk fs')) = content (hw (fs_blk fs))"
proof (cases "unat (in_size inode) \<le> unat offset")
  case True
  have "sint (in_size inode) = int (unat (in_size inode))" "sint offset = int (unat offset)"
    using sz(2) args(1) by (intro sint_small; simp)+
  then have "sint (in_size inode) \<le> sint offset" using True by linarith
  then show ?thesis using True v by (simp add: fat16_read_def)
next
  case False
  let ?sz = "unat (in_size inode)" and ?o = "unat offset" and ?D = "content (hw (fs_blk fs))"
  let ?cnt = "if sint offset + sint cnt > sint (in_size inode) then in_size inode - offset else cnt"
  let ?csz = "bps fs * spc fs"
  have s: "sint (in_size inode) = int ?sz" "sint offset = int ?o" "sint cnt = int (unat cnt)"
    using sz(2) args by (intro sint_small; simp)+
  have nle: "\<not> sint (in_size inode) \<le> sint offset" using s False by linarith
  have us: "unat (in_size inode - offset) = ?sz - ?o" using False by (subst unat_sub) (simp_all add: word_le_nat_alt)
  have c: "unat ?cnt = min (unat cnt) (?sz - ?o)"
    using s us False by (auto simp only: min_def split: if_splits)
  have c32: "unat ?cnt < 2 ^ 32" unfolding c using sz(2) by simp
  have uo: "unat (ucast offset :: u32) = ?o"
    using False sz(2) by (simp add: unsigned_ucast_eq take_bit_nat_eq_self)
  have cs: "unat ?csz = 512 * unat (spc fs)" using block_driver.unat_cluster_size [OF d v] .
  have len: "length (file_data ?D fs cs) = 512 * unat (spc fs) * length cs"
    using block_driver.length_file_data [OF d v ch(2)] .
  have "unat (ucast offset :: u32) < unat ?csz * length cs"
    unfolding uo cs using False sz(1) len by linarith
  from block_driver.read_skip_ok [OF d v ch cs this] obtain c' cs' skip' fs1
    where r: "read_skip ?csz (fd_first_cluster_low (fi_ent inode)) (ucast offset) fs = Some (Some (c', skip'), fs1)"
      "fat_chain (fatv ?D fs) c' cs'" "list_all (in_region fs) cs'"
      "drop ?o (file_data ?D fs cs) = drop (unat skip') (file_data ?D fs cs')"
      "fs_inv rd wr content good n fs1" "content (hw (fs_blk fs1)) = ?D" "same_vol fs fs1"
    unfolding uo by blast
  note sv = same_vol_fns [OF r(7)] block_driver.same_vol_data [OF d r(7)]
  have "fat_chain (fatv (content (hw (fs_blk fs1))) fs1) c' cs'" "list_all (in_region fs1) cs'"
    using r(2,3,6) sv by simp_all
  from block_driver.read_chain_ok [OF d r(5) this c32, of "[]" 0 skip'] obtain fs2
    where q: "read_chain c' ?cnt skip' 0 [] fs1 = Some (int (length (take (unat ?cnt) (drop (unat skip') (file_data ?D fs cs')))),
        take (unat ?cnt) (drop (unat skip') (file_data ?D fs cs')), fs2)"
      "fs_inv rd wr content good n fs2" "content (hw (fs_blk fs2)) = ?D"
    using r(6) sv by auto
  have out: "take (unat cnt) (drop ?o (take ?sz (file_data ?D fs cs))) = take (unat ?cnt) (drop (unat skip') (file_data ?D fs cs'))"
    unfolding c r(4) [symmetric] by (simp add: drop_take)
  have "?o + unat cnt < 2 ^ 63" using args by simp
  then have "int (?o + unat cnt) < int (2 ^ 63)" by (simp only: of_nat_less_iff)
  then have "i64_ok (sint offset + sint cnt)" unfolding s i64_ok_def by (simp add: order_trans [OF _ add_nonneg_nonneg])
  then have "fat16_read inode cnt offset fs = read_chain c' ?cnt skip' 0 [] fs1"
    using nle r(1) by (simp add: fat16_read_def)
  then show ?thesis unfolding out Let_def using q by auto
qed

section \<open>What reading promises\<close>

text \<open>Property C11. Reading a file whose clusters lie in the data region and cover its size returns, for every count and every
  offset, exactly the bytes of the file from the offset on, at most as many as asked for, and changes nothing on the disk.\<close>

theorem fat16_read_exact:
  assumes d: "block_driver rd wr content good n" and v: "fs_inv rd wr content good n fs"
    and ch: "fat_chain (fatv (content (hw (fs_blk fs))) fs) (fd_first_cluster_low (fi_ent inode)) cs" "list_all (in_region fs) cs"
    and sz: "unat (in_size inode) \<le> length (file_data (content (hw (fs_blk fs))) fs cs)" "unat (in_size inode) < 2 ^ 32"
    and args: "unat offset < 2 ^ 62" "unat cnt < 2 ^ 62"
  shows "\<exists>fs'. fat16_read inode cnt offset fs =
      (let data = take (unat cnt) (drop (unat offset) (take (unat (in_size inode)) (file_data (content (hw (fs_blk fs))) fs cs)))
       in Some (int (length data), data, fs')) \<and>
    fs_inv rd wr content good n fs' \<and> content (hw (fs_blk fs')) = content (hw (fs_blk fs))"
  using assms by (rule read_file_ok)

text \<open>A file of 600 bytes in the clusters 2 and 3 of the demonstration volume.\<close>

definition demo_file :: fat16_inode where
  "demo_file = \<lparr>in_ptr = 4096, in_info = 8192, in_mode = FAT16_MODE_FILE, in_size = 600,
     fi_ent = zero_entry\<lparr>fd_first_cluster_low := 2, fd_file_size_bytes := 600\<rparr>, fi_loc = \<lparr>dl_lba = 3, dl_off = 0\<rparr>\<rparr>"

lemma demo_cluster_data: "cluster_data demo_disk demo_fs 2 = replicate 512 4" "cluster_data demo_disk demo_fs 3 = replicate 512 5"
  by (simp_all add: cluster_data_def sector_data_def fat16_cluster_to_lba_def FAT16_CLUSTER_MIN_def demo_disk_def)
    (simp_all add: demo_fs_def demo_disk_def)

theorem fat16_read_exact_witness:
  "\<exists>fs'. fat16_read demo_file 4096 510 demo_fs = Some (90, replicate 2 4 @ replicate 88 5, fs')"
proof -
  have "list_all (in_region demo_fs) [2, 3]" by (simp add: in_region_def demo_fs_def)
  then show ?thesis
    using fat16_read_exact [OF demo_driver demo_fs_inv, of demo_file "[2, 3]" 510 4096] demo_chain
    by (auto simp: demo_hw demo_file_def demo_cluster_data Let_def)
qed

end
