(* ===== verification/Fat16_Write.thy ===== *)
theory Fat16_Write
  imports Fat16_File
begin

text \<open>
  Writing on a FAT16 volume: what \<^verbatim>\<open>fat16_write\<close> of \<^verbatim>\<open>src/lizard/fat16.c\<close> does to the file, to its chain of clusters and
  to everything else on the disk.
\<close>

section \<open>Patched buffers\<close>

lemma patch_Nil [simp]: "patch off [] X = X"
  by (simp add: patch_def)

lemma patch_append_right: "length a \<le> off \<Longrightarrow> patch off bs (a @ X) = a @ patch (off - length a) bs X"
  by (auto simp: patch_def)

lemma patch_append_left: "off + length bs \<le> length a \<Longrightarrow> patch off bs (a @ X) = patch off bs a @ X"
  by (simp add: patch_def)

lemma patch_split:
  "off \<le> length a \<Longrightarrow> off + length p = length a \<or> q = [] \<and> off + length p \<le> length a \<Longrightarrow>
    patch off (p @ q) (a @ X) = patch off p a @ patch 0 q X"
  by (auto simp: patch_def add.assoc [symmetric])

lemma patch_patch:
  "off + length p \<le> length X \<Longrightarrow> patch (off + length p) q (patch off p X) = patch off (p @ q) X"
  by (simp add: patch_def add.commute add.left_commute)

lemma patch_all: "length bs = length X \<Longrightarrow> patch 0 bs X = bs"
  by (simp add: patch_def)

section \<open>Writing the sectors of a cluster\<close>

text \<open>The sectors from \<open>lba\<close> on.\<close>

definition sector_span :: "u32 \<Rightarrow> nat \<Rightarrow> u64 set" where
  "sector_span lba n = {t. unat lba \<le> unat t \<and> unat t < unat lba + n}"

lemma sector_data_cong:
  assumes "\<And>t. t \<in> sector_span lba n \<Longrightarrow> D' t = D t" "unat lba + n < 2 ^ 32"
  shows "sector_data D' lba n = sector_data D lba n"
proof -
  have "D' (ucast (lba + of_nat i)) = D (ucast (lba + of_nat i))" if "i < n" for i
  proof -
    have "unat (of_nat i :: u32) = i" using that assms(2) by (intro unat_of_nat_small) simp
    then have "unat (lba + of_nat i) = unat lba + i" using that assms(2) by (subst unat_add_small) simp_all
    then show ?thesis using that by (intro assms(1)) (simp add: sector_span_def)
  qed
  then have "map (\<lambda>i. D' (ucast (lba + of_nat i))) [0..<n] = map (\<lambda>i. D (ucast (lba + of_nat i))) [0..<n]" by simp
  then show ?thesis by (simp only: sector_data_def)
qed

context block_driver
begin

lemma write_sectors_ok:
  assumes "vol fs" "unat (root_dir_lba fs) \<le> unat lba" "unat lba + n \<le> nsec" "length buf = unat cnt" "unat cnt < 2 ^ 32"
    and "unat written \<le> unat cnt" "length sector = 512"
  shows "\<exists>skip' written' sector' fs'. write_sectors n lba buf cnt skip written sector fs = Some (True, skip', written', sector', fs') \<and>
    unat written' = unat written + min (unat cnt - unat written) (512 * n - unat skip) \<and>
    unat skip' = (if unat written = unat cnt then unat skip else unat skip - 512 * n) \<and> length sector' = 512 \<and>
    sector_data (disk fs') lba n =
      patch (unat skip) (take (unat written' - unat written) (drop (unat written) buf)) (sector_data (disk fs) lba n) \<and>
    (\<forall>t. t \<notin> sector_span lba n \<longrightarrow> disk fs' t = disk fs t) \<and>
    (\<forall>c. unat c < 256 * fat_size fs \<longrightarrow> fatv (disk fs') fs c = fatv (disk fs) fs c) \<and> vol fs' \<and> same_vol fs fs'"
  using assms
proof (induction n arbitrary: lba skip written sector fs)
  case 0
  then show ?case by simp
next
  case (Suc n)
  have bps: "bps fs = 512" using Suc.prems(1) by (simp add: vol_vol_base)
  have n32: "nsec < 2 ^ 32" by (rule vol_nsec [OF Suc.prems(1)])
  have lba1: "unat (lba + 1) = unat lba + 1" using lba_suc Suc.prems(3) n32 by blast
  have next_ok: "unat (root_dir_lba fs) \<le> unat (lba + 1)" "unat (lba + 1) + n \<le> nsec" using lba1 Suc.prems(2,3) by simp_all
  have spans: "t \<notin> sector_span lba (Suc n) \<longleftrightarrow> t \<noteq> ucast lba \<and> t \<notin> sector_span (lba + 1) n" for t
    using lba1 by (auto simp: sector_span_def word_unat_eq_iff)
  show ?case
  proof (cases "unat written = unat cnt")
    case True
    then show ?thesis using Suc.prems(1,7) by (simp add: word_less_nat_alt)
  next
    case False
    then have lt: "unat written < unat cnt" using Suc.prems(6) by simp
    have len: "length (disk fs (ucast lba)) = 512"
      using disk_length [OF vol_vol_base [OF Suc.prems(1)]] Suc.prems(3) by simp
    show ?thesis
    proof (cases "unat skip < 512")
      case sk: False
      then have u: "unat (skip - 512) = unat skip - 512" by (subst unat_sub) (simp_all add: word_le_nat_alt)
      have le: "512 \<le> skip" using sk by (simp add: word_le_nat_alt)
      have st: "write_sectors (Suc n) lba buf cnt skip written sector fs = write_sectors n (lba + 1) buf cnt (skip - 512) written sector fs"
        using lt bps le by (simp add: word_less_nat_alt)
      obtain skip' written' sector' fs' where r:
        "write_sectors n (lba + 1) buf cnt (skip - 512) written sector fs = Some (True, skip', written', sector', fs')"
        "unat written' = unat written + min (unat cnt - unat written) (512 * n - unat (skip - 512))"
        "unat skip' = unat (skip - 512) - 512 * n" "length sector' = 512"
        "sector_data (disk fs') (lba + 1) n = patch (unat (skip - 512)) (take (unat written' - unat written) (drop (unat written) buf))
           (sector_data (disk fs) (lba + 1) n)"
        "\<forall>t. t \<notin> sector_span (lba + 1) n \<longrightarrow> disk fs' t = disk fs t"
        "\<forall>c. unat c < 256 * fat_size fs \<longrightarrow> fatv (disk fs') fs c = fatv (disk fs) fs c" "vol fs'" "same_vol fs fs'"
        using Suc.IH [OF Suc.prems(1) next_ok Suc.prems(4-7), of "skip - 512"] False by auto
      have "ucast lba \<notin> sector_span (lba + 1) n" using lba1 by (simp add: sector_span_def)
      then have "disk fs' (ucast lba) = disk fs (ucast lba)" using r(6) by blast
      then have "sector_data (disk fs') lba (Suc n) =
          patch (unat skip) (take (unat written' - unat written) (drop (unat written) buf)) (sector_data (disk fs) lba (Suc n))"
        using r(5) len sk u by (simp add: sector_data_Suc patch_append_right)
      moreover have "\<forall>t. t \<notin> sector_span lba (Suc n) \<longrightarrow> disk fs' t = disk fs t" using r(6) spans by blast
      moreover have "unat written' = unat written + min (unat cnt - unat written) (512 * Suc n - unat skip)"
        using r(2) u sk by (simp add: add.commute)
      moreover have "unat skip' = (if unat written = unat cnt then unat skip else unat skip - 512 * Suc n)"
        using r(3) u sk False by simp
      ultimately show ?thesis
        unfolding st using r(1,4,7-9) by blast
    next
      case sk: True
      have s: "unat lba < nsec" using Suc.prems(3) by simp
      define t where "t = (if ucast (512 - skip) < cnt - ucast written then 512 - skip else ucast (cnt - ucast written))"
      have t: "unat t = min (512 - unat skip) (unat cnt - unat written)"
        unfolding t_def by (rule chunk_size [OF sk lt Suc.prems(5)])
      define p where "p = take (unat t) (drop (unat written) buf)"
      have lp: "length p = unat t" using t Suc.prems(4) by (simp add: p_def)
      have ut: "unat skip + unat t \<le> 512" using t sk by simp
      obtain fs1 old where f1: "(if skip \<noteq> 0 \<or> t \<noteq> 512 then fs_read fs lba else (Some sector, fs)) = (Some old, fs1)" "vol fs1"
        "disk fs1 = disk fs" "same_vol fs fs1" "length old = 512" "patch (unat skip) p old = patch (unat skip) p (disk fs (ucast lba))"
      proof (cases "skip \<noteq> 0 \<or> t \<noteq> 512")
        case True
        then show ?thesis using that fs_read_vol [OF Suc.prems(1) s] len by force
      next
        case False
        then have "unat skip = 0" "unat t = 512" by simp_all
        then have "patch (unat skip) p sector = patch (unat skip) p (disk fs (ucast lba))"
          using lp len Suc.prems(7) by (simp add: patch_all)
        with False show ?thesis using that [of sector fs] Suc.prems(1,7) by simp
      qed
      let ?new = "patch (unat skip) p (disk fs (ucast lba))"
      have ln: "length ?new = 512" using lp ut len by simp
      have ln1: "unat (root_dir_lba fs1) \<le> unat lba" using Suc.prems(2) same_volD [OF f1(4)] by simp
      obtain fs2 where f2: "fs_write fs1 lba ?new = (True, fs2)" "vol fs2" "disk fs2 = (disk fs)(ucast lba := ?new)" "same_vol fs1 fs2"
        "\<forall>c. unat c < 256 * fat_size fs \<longrightarrow> fatv (disk fs2) fs c = fatv (disk fs) fs c"
        using fs_write_vol [OF f1(2) s ln ln1] f1(3) same_volD [OF f1(4)] same_vol_fns [OF f1(4)] by auto
      note v2 = same_vol_trans [OF f1(4) f2(4)]
      note sv2 = same_volD [OF v2] same_vol_fns [OF v2]
      have uw: "unat (written + t) = unat written + unat t"
        using t lt Suc.prems(5) by (subst unat_add_small) simp_all
      have st: "write_sectors (Suc n) lba buf cnt skip written sector fs = write_sectors n (lba + 1) buf cnt 0 (written + t) ?new fs2"
      proof -
        have "ucast written < cnt" "\<not> 512 \<le> skip" "\<not> 512 < unat skip + unat t"
          using lt sk ut by (simp_all add: word_less_nat_alt word_le_nat_alt)
        then show ?thesis
          using bps f1(1,6) f2(1)
          by (simp add: t_def [symmetric] p_def [symmetric] FAT16_SECTOR_SIZE_def)
      qed
      have "unat (written + t) \<le> unat cnt" using uw t lt by simp
      then obtain skip' written' sector' fs' where r:
        "write_sectors n (lba + 1) buf cnt 0 (written + t) ?new fs2 = Some (True, skip', written', sector', fs')"
        "unat written' = unat (written + t) + min (unat cnt - unat (written + t)) (512 * n)"
        "unat skip' = 0" "length sector' = 512"
        "sector_data (disk fs') (lba + 1) n = patch 0 (take (unat written' - unat (written + t)) (drop (unat (written + t)) buf))
           (sector_data (disk fs2) (lba + 1) n)"
        "\<forall>t. t \<notin> sector_span (lba + 1) n \<longrightarrow> disk fs' t = disk fs2 t"
        "\<forall>c. unat c < 256 * fat_size fs \<longrightarrow> fatv (disk fs') fs c = fatv (disk fs2) fs c" "vol fs'" "same_vol fs2 fs'"
        using Suc.IH [OF f2(2) _ next_ok(2) Suc.prems(4,5), of "written + t" ?new 0] next_ok(1) ln sv2 by auto
      have out: "ucast lba \<notin> sector_span (lba + 1) n" using lba1 by (simp add: sector_span_def)
      have tail: "sector_data (disk fs2) (lba + 1) n = sector_data (disk fs) (lba + 1) n"
      proof (rule sector_data_cong)
        show "disk fs2 u = disk fs u" if "u \<in> sector_span (lba + 1) n" for u using that out f2(3) by auto
        show "unat (lba + 1) + n < 2 ^ 32" using next_ok(2) n32 by simp
      qed
      let ?q = "take (unat written' - unat (written + t)) (drop (unat (written + t)) buf)"
      have split: "take (unat written' - unat written) (drop (unat written) buf) = p @ ?q"
      proof -
        have "unat written' - unat written = unat t + (unat written' - unat (written + t))" using r(2) uw by simp
        then show ?thesis unfolding p_def uw by (simp add: take_add add.commute)
      qed
      have "unat skip + length p = length (disk fs (ucast lba)) \<or> ?q = [] \<and> unat skip + length p \<le> length (disk fs (ucast lba))"
        using lp len ut t r(2) uw lt by (auto simp: min_def)
      then have "sector_data (disk fs') lba (Suc n) =
          patch (unat skip) (take (unat written' - unat written) (drop (unat written) buf)) (sector_data (disk fs) lba (Suc n))"
        unfolding split using out r(5,6) f2(3) tail sk len by (simp add: sector_data_Suc patch_split)
      moreover have "\<forall>t. t \<notin> sector_span lba (Suc n) \<longrightarrow> disk fs' t = disk fs t" using r(6) spans f2(3) by auto
      moreover have "unat written' = unat written + min (unat cnt - unat written) (512 * Suc n - unat skip)"
        using r(2) uw t sk lt by (auto simp: min_def)
      moreover have "unat skip' = (if unat written = unat cnt then unat skip else unat skip - 512 * Suc n)"
        using r(3) sk False by simp
      moreover have "\<forall>c. unat c < 256 * fat_size fs \<longrightarrow> fatv (disk fs') fs c = fatv (disk fs) fs c" using r(7) f2(5) by simp
      ultimately show ?thesis
        unfolding st using r(1,4,8) same_vol_trans [OF v2 r(9)] by blast
    qed
  qed
qed

end

section \<open>Chains that are in use\<close>

text \<open>A chain whose entries are all in use: its last one holds an end mark, not the mark of a free cluster.\<close>

definition used_chain :: "(u16 \<Rightarrow> u16) \<Rightarrow> u16 \<Rightarrow> u16 list \<Rightarrow> bool" where
  "used_chain F c cs \<longleftrightarrow> fat_chain F c cs \<and> list_all (\<lambda>k. F k \<noteq> 0) cs"

text \<open>The sectors of a cluster.\<close>

abbreviation sectors_of :: "'h fat16 \<Rightarrow> u16 \<Rightarrow> u64 set" where
  "sectors_of fs k \<equiv> sector_span (fat16_cluster_to_lba fs k) (unat (spc fs))"

lemma used_chain_cong: "used_chain F c cs \<Longrightarrow> (\<And>k. k \<in> set cs \<Longrightarrow> G k = F k) \<Longrightarrow> used_chain G c cs"
  using fat_chain_cong [of F c cs G] by (auto simp: used_chain_def list_all_iff)

lemma used_chain_distinct: "used_chain F c cs \<Longrightarrow> distinct cs"
  unfolding used_chain_def using fat_chain_distinct by blast

lemma fat_chain_last: "fat_chain F c (xs @ [y]) \<Longrightarrow> \<not> fat16_cluster_valid (F y)"
  by (induction xs arbitrary: c) auto

lemma fat_chain_next: "fat_chain F c (xs @ y # z # zs) \<Longrightarrow> F y = z \<and> fat16_cluster_valid z"
  by (induction xs arbitrary: c) auto

text \<open>Appending a fresh cluster to a chain.\<close>

lemma used_chain_extend:
  assumes "used_chain F c (xs @ [y])" "k \<notin> set (xs @ [y])" "fat16_cluster_valid k"
    and "\<And>j. j \<in> set xs \<Longrightarrow> G j = F j" "G y = k" "G k = FAT16_EOC"
  shows "used_chain G c (xs @ [y, k])"
proof -
  have e: "\<not> fat16_cluster_valid FAT16_EOC" "FAT16_EOC \<noteq> 0" "\<not> fat16_cluster_valid 0"
    by (simp_all add: fat16_cluster_valid_def fat16_consts)
  have "fat_chain G c (xs @ [y, k])"
    using assms by (induction xs arbitrary: c) (auto simp: used_chain_def e)
  moreover have "G j \<noteq> 0" if "j \<in> set (xs @ [y, k])" for j
    using that assms e by (auto simp: used_chain_def list_all_iff)
  ultimately show ?thesis by (auto simp: used_chain_def list_all_iff)
qed

text \<open>Different clusters have different sectors.\<close>

lemma sectors_disjoint:
  assumes g: "fat_geom nsecs fs" and j: "in_region fs j" and k: "in_region fs k" and ne: "j \<noteq> k"
  shows "sectors_of fs j \<inter> sectors_of fs k = {}"
proof -
  have aux: "sectors_of fs a \<inter> sectors_of fs b = {}" if ab: "in_region fs a" "in_region fs b" "unat a < unat b" for a b
  proof -
    have "(unat a - 2 + 1) * unat (spc fs) \<le> (unat b - 2) * unat (spc fs)"
      using ab by (intro mult_le_mono1) (auto simp: in_region_def)
    then show ?thesis
      using unat_cluster_lba(1) [OF g ab(1)] unat_cluster_lba(1) [OF g ab(2)] by (auto simp: sector_span_def)
  qed
  show ?thesis
    using aux [OF j k] aux [OF k j] ne by (cases "unat j < unat k") (auto simp: word_unat_eq_iff)
qed

lemma cluster_data_cong:
  assumes "fat_geom nsecs fs" "in_region fs k" "\<And>t. t \<in> sectors_of fs k \<Longrightarrow> D' t = D t"
  shows "cluster_data D' fs k = cluster_data D fs k"
  using sector_data_cong [OF assms(3)] unat_cluster_lba(2) [OF assms(1,2)] assms(1)
  by (auto simp: cluster_data_def fat_geom_def)

lemma file_data_cong: "(\<And>k. k \<in> set cs \<Longrightarrow> cluster_data D' fs k = cluster_data D fs k) \<Longrightarrow> file_data D' fs cs = file_data D fs cs"
  by (induction cs) simp_all

text \<open>A patch inside one cluster is a patch of the file.\<close>

lemma file_data_patch:
  assumes "cluster_data D' fs c = patch off p (cluster_data D fs c)" "off + length p \<le> length (cluster_data D fs c)"
    and "\<And>k. k \<in> set xs \<union> set ys \<Longrightarrow> cluster_data D' fs k = cluster_data D fs k"
  shows "file_data D' fs (xs @ c # ys) = patch (length (file_data D fs xs) + off) p (file_data D fs (xs @ c # ys))"
proof -
  have "file_data D' fs xs = file_data D fs xs" "file_data D' fs ys = file_data D fs ys"
    using assms(3) by (intro file_data_cong; simp)+
  then show ?thesis
    using assms(1,2) by (simp add: file_data_append patch_append_right patch_append_left)
qed

section \<open>Growing a chain\<close>

text \<open>The chain \<open>cs\<close> has been extended by the clusters \<open>ns\<close>, all free before, and every other entry is as it was.\<close>

definition grown :: "(u64 \<Rightarrow> u8 list) \<Rightarrow> (u64 \<Rightarrow> u8 list) \<Rightarrow> 'h fat16 \<Rightarrow> u16 \<Rightarrow> u16 list \<Rightarrow> u16 list \<Rightarrow> bool" where
  "grown D D' fs first cs ns \<longleftrightarrow> used_chain (fatv D' fs) first (cs @ ns) \<and> list_all (in_region fs) ns \<and>
     list_all (\<lambda>k. fatv D fs k = 0) ns \<and>
     (\<forall>k. unat k < 256 * fat_size fs \<longrightarrow> k \<notin> set (cs @ ns) \<longrightarrow> fatv D' fs k = fatv D fs k)"

definition volume_full :: "(u64 \<Rightarrow> u8 list) \<Rightarrow> 'h fat16 \<Rightarrow> bool" where
  "volume_full D fs \<longleftrightarrow> (\<forall>k. 2 \<le> unat k \<longrightarrow> unat k \<le> last_cluster fs \<longrightarrow> fatv D fs k \<noteq> 0)"

definition data_kept :: "(u64 \<Rightarrow> u8 list) \<Rightarrow> (u64 \<Rightarrow> u8 list) \<Rightarrow> 'h fat16 \<Rightarrow> bool" where
  "data_kept D D' fs \<longleftrightarrow> (\<forall>t. unat (root_dir_lba fs) \<le> unat t \<longrightarrow> D' t = D t)"

lemma grown_refl: "used_chain (fatv D fs) first cs \<Longrightarrow> grown D D fs first cs []"
  by (simp add: grown_def)

lemma grown_trans:
  assumes g: "fat_geom nsecs fs" and a: "grown D D1 fs first cs ns" and b: "grown D1 D2 fs first (cs @ ns) ms"
  shows "grown D D2 fs first cs (ns @ ms)"
proof -
  have "fatv D fs k = 0" if k: "k \<in> set ms" for k
  proof -
    have z: "fatv D1 fs k = 0" "unat k < 256 * fat_size fs"
      using b k in_region_fat [OF g] by (auto simp: grown_def list_all_iff)
    then have "k \<notin> set (cs @ ns)" using a by (auto simp: grown_def used_chain_def list_all_iff)
    then show ?thesis using a z by (simp add: grown_def)
  qed
  then show ?thesis using a b by (auto simp: grown_def list_all_iff)
qed

lemma grown_same_vol: "same_vol fs fs' \<Longrightarrow> grown D D' fs' first cs ns = grown D D' fs first cs ns"
  using same_volD [of fs fs'] same_vol_fns [of fs fs'] by (simp add: grown_def in_region_def [abs_def])

lemma volume_full_same_vol: "same_vol fs fs' \<Longrightarrow> volume_full D fs' = volume_full D fs"
  using same_volD [of fs fs'] same_vol_fns [of fs fs'] by (simp add: volume_full_def last_cluster_def)

lemma data_kept_same_vol: "same_vol fs fs' \<Longrightarrow> data_kept D D' fs' = data_kept D D' fs"
  using same_volD [of fs fs'] by (simp add: data_kept_def)

lemmas vol_transfer = grown_same_vol volume_full_same_vol data_kept_same_vol

lemma data_kept_trans: "data_kept D D1 fs \<Longrightarrow> data_kept D1 D2 fs \<Longrightarrow> data_kept D D2 fs"
  by (simp add: data_kept_def)

text \<open>A cluster that can be allocated.\<close>

lemma allocatable: "2 \<le> unat k \<Longrightarrow> unat k \<le> last_cluster fs \<Longrightarrow> in_region fs k \<and> fat16_cluster_valid k"
  by (auto simp: last_cluster_def in_region_def fat16_cluster_valid_def fat16_consts word_le_nat_alt)

context block_driver
begin

lemma chain_step_ok:
  assumes "vol fs" "used_chain (fatv (disk fs) fs) first (pre @ c # post)" "list_all (in_region fs) (pre @ c # post)"
  shows "\<exists>c' ns fs'. chain_step fs c = Some (c', fs') \<and> vol fs' \<and> same_vol fs fs' \<and>
    grown (disk fs) (disk fs') fs first (pre @ c # post) ns \<and> data_kept (disk fs) (disk fs') fs \<and>
    (if c' = 0 then volume_full (disk fs') fs \<and> post = [] \<and> ns = [] else \<exists>zs. post @ ns = c' # zs)"
proof -
  let ?F = "fatv (disk fs) fs" and ?cs = "pre @ c # post"
  note g = vol_geom [OF vol_vol_base [OF assms(1)]]
  have cf: "unat c < 256 * fat_size fs" using in_region_fat [OF g, of c] assms(3) by simp
  obtain fs1 where f1: "fat16_next_cluster fs c = Some (?F c, fs1)" "vol fs1" "disk fs1 = disk fs" "same_vol fs fs1"
    using next_cluster_ok [OF assms(1) cf] by blast
  note sv1 = same_volD [OF f1(4)] same_vol_fns [OF f1(4)] same_vol_data [OF f1(4)]
  have v0: "\<not> fat16_cluster_valid 0" by (simp add: fat16_cluster_valid_def fat16_consts)
  show ?thesis
  proof (cases post)
    case (Cons z zs)
    then have z: "?F c = z" "fat16_cluster_valid z" using assms(2) fat_chain_next by (auto simp: used_chain_def)
    then have "chain_step fs c = Some (z, fs1)" using f1(1) by (simp add: chain_step_def)
    moreover have "z \<noteq> 0" using z(2) v0 by auto
    ultimately show ?thesis
      using f1 grown_refl [OF assms(2)] Cons by (intro exI [of _ z] exI [of _ "[]"] exI [of _ fs1]) (simp add: data_kept_def)
  next
    case Nil
    then have nv: "\<not> fat16_cluster_valid (?F c)" using assms(2) fat_chain_last [of ?F first pre c] by (simp add: used_chain_def)
    obtain r fs2 where f2: "fat16_cluster_alloc fs1 = Some (r, fs2)" using cluster_alloc_ok [OF f1(2)] by (auto split: option.splits)
    note al = cluster_alloc_ok [OF f1(2), unfolded f2, simplified]
    have v2: "same_vol fs fs2" using al same_vol_trans [OF f1(4)] by simp
    note sv2 = same_volD [OF v2] same_vol_fns [OF v2] same_vol_data [OF v2]
    show ?thesis
    proof (cases r)
      case None
      then have "chain_step fs c = Some (0, fs2)" using f1(1) nv f2 by (simp add: chain_step_def)
      moreover have "disk fs2 = disk fs" "volume_full (disk fs) fs" "vol fs2"
        using al None f1(3) sv1 by (auto simp: volume_full_def last_cluster_def)
      ultimately show ?thesis
        using v2 grown_refl [OF assms(2)] Nil by (intro exI [of _ 0] exI [of _ "[]"] exI [of _ fs2]) (simp add: data_kept_def)
    next
      case (Some k)
      have k: "2 \<le> unat k" "unat k \<le> last_cluster fs" "?F k = 0" "fat_changed (disk fs) (disk fs2) fs (?F(k := FAT16_EOC))" "vol fs2"
        using al Some f1(3) sv1 by (auto simp: last_cluster_def fat_changed_def)
      note ka = allocatable [OF k(1,2)]
      have kf: "unat k < 256 * fat_size fs" using in_region_fat [OF g] ka by blast
      have kn: "k \<notin> set ?cs" using k(3) assms(2) by (auto simp: used_chain_def list_all_iff)
      obtain fs3 where f3: "fat16_fat_set fs2 c k = Some (True, fs3)" "vol fs3" "same_vol fs2 fs3"
        "fat_changed (disk fs2) (disk fs3) fs2 ((fatv (disk fs2) fs2)(c := k))"
        using fat_set_changed [OF k(5), of c k] cf sv2 by auto
      note v3 = same_vol_trans [OF v2 f3(3)]
      have F3: "fatv (disk fs3) fs j = (if j = c then k else if j = k then FAT16_EOC else ?F j)" if "unat j < 256 * fat_size fs" for j
        using k(4) f3(4) that sv2 by (simp add: fat_changed_def)
      have pf: "unat j < 256 * fat_size fs" if "j \<in> set pre" for j
        using in_region_fat [OF g, of j] assms(3) that by (simp add: list_all_iff)
      have cs: "?cs = pre @ [c]" using Nil by simp
      have "distinct ?cs" using assms(2) by (rule used_chain_distinct)
      then have "used_chain (fatv (disk fs3) fs) first (pre @ [c, k])"
        using F3 pf cf kf kn cs assms(2) ka by (intro used_chain_extend [of ?F first pre c k]) auto
      then have "grown (disk fs) (disk fs3) fs first ?cs [k]"
        using F3 ka k(3) cs by (auto simp: grown_def)
      moreover have "data_kept (disk fs) (disk fs3) fs"
        using k(4) f3(4) sv2 by (simp add: data_kept_def fat_changed_def)
      moreover have "chain_step fs c = Some (k, fs3)" using f1(1) nv f2 Some f3(1) by (simp add: chain_step_def)
      moreover have "k \<noteq> 0" using k(1) by auto
      ultimately show ?thesis
        using f3(2) v3 Nil by (intro exI [of _ k] exI [of _ "[k]"] exI [of _ fs3]) simp
    qed
  qed
qed

text \<open>Walking to the cluster of an offset.\<close>

lemma write_skip_ok:
  assumes "vol fs" "used_chain (fatv (disk fs) fs) first (pre @ c # post)" "list_all (in_region fs) (pre @ c # post)"
    and "unat pos = unat csz * (length pre + 1)" "unat csz * length pre \<le> unat off" "unat off + unat csz < 2 ^ 32" "0 < unat csz"
  shows "\<exists>r ns fs'. write_skip csz off pos c fs = Some (r, fs') \<and> vol fs' \<and> same_vol fs fs' \<and>
    grown (disk fs) (disk fs') fs first (pre @ c # post) ns \<and> data_kept (disk fs) (disk fs') fs \<and>
    (case r of None \<Rightarrow> volume_full (disk fs') fs \<and> unat csz * length (pre @ c # post @ ns) \<le> unat off
     | Some c' \<Rightarrow> \<exists>pre' post'. pre @ c # post @ ns = pre' @ c' # post' \<and>
         unat csz * length pre' \<le> unat off \<and> unat off < unat csz * (length pre' + 1))"
  using assms
proof (induction "unat off + unat csz - unat pos" arbitrary: pos c pre post fs rule: less_induct)
  case less
  show ?case
  proof (cases "pos \<le> off")
    case False
    then have run: "write_skip csz off pos c fs = Some (Some c, fs)" by (subst write_skip.simps) simp
    have "unat off < unat csz * (length pre + 1)" using False less.prems(4) by (simp add: word_le_nat_alt)
    then show ?thesis
      unfolding run using less.prems(1,5) grown_refl [OF less.prems(2)]
      by (intro exI [of _ "Some c"] exI [of _ "[]"] exI [of _ fs] conjI) (auto simp: data_kept_def)
  next
    case True
    then have le: "unat pos \<le> unat off" by (simp add: word_le_nat_alt)
    obtain c1 ns1 fs1 where f1: "chain_step fs c = Some (c1, fs1)" "vol fs1" "same_vol fs fs1"
      "grown (disk fs) (disk fs1) fs first (pre @ c # post) ns1" "data_kept (disk fs) (disk fs1) fs"
      "if c1 = 0 then volume_full (disk fs1) fs \<and> post = [] \<and> ns1 = [] else \<exists>zs. post @ ns1 = c1 # zs"
      using chain_step_ok [OF less.prems(1-3)] by blast
    show ?thesis
    proof (cases "c1 = 0")
      case c0: True
      then have run: "write_skip csz off pos c fs = Some (None, fs1)" using True f1(1) by (subst write_skip.simps) simp
      show ?thesis
        unfolding run using f1 c0 le less.prems(4) by (intro exI [of _ None] exI [of _ ns1] exI [of _ fs1] conjI) simp_all
    next
      case c0: False
      then obtain zs where zs: "post @ ns1 = c1 # zs" using f1(6) by auto
      then have cs: "pre @ c # post @ ns1 = (pre @ [c]) @ c1 # zs" by simp
      have run: "write_skip csz off pos c fs = write_skip csz off (pos + csz) c1 fs1"
        using True c0 f1(1) by (subst write_skip.simps) simp
      have up: "unat (pos + csz) = unat pos + unat csz" using le less.prems(6) by (subst unat_add_small) simp_all
      have u: "used_chain (fatv (disk fs1) fs1) first ((pre @ [c]) @ c1 # zs)"
        using f1(4) cs same_vol_fns [OF f1(3)] by (simp add: grown_def)
      have reg: "list_all (in_region fs1) ((pre @ [c]) @ c1 # zs)"
      proof -
        have "list_all (in_region fs) (pre @ c # post @ ns1)" using less.prems(3) f1(4) by (auto simp: grown_def list_all_iff)
        then show ?thesis unfolding cs same_vol_data [OF f1(3)] .
      qed
      have dec: "unat off + unat csz - unat (pos + csz) < unat off + unat csz - unat pos"
        using up le less.prems(7) by linarith
      have pos: "unat (pos + csz) = unat csz * (length (pre @ [c]) + 1)" "unat csz * length (pre @ [c]) \<le> unat off"
        using up le less.prems(4) by simp_all
      obtain r ns2 fs2 where f2: "write_skip csz off (pos + csz) c1 fs1 = Some (r, fs2)" "vol fs2" "same_vol fs1 fs2"
        "grown (disk fs1) (disk fs2) fs1 first ((pre @ [c]) @ c1 # zs) ns2" "data_kept (disk fs1) (disk fs2) fs1"
        "case r of None \<Rightarrow> volume_full (disk fs2) fs1 \<and> unat csz * length ((pre @ [c]) @ c1 # zs @ ns2) \<le> unat off
         | Some c' \<Rightarrow> \<exists>pre' post'. (pre @ [c]) @ c1 # zs @ ns2 = pre' @ c' # post' \<and>
             unat csz * length pre' \<le> unat off \<and> unat off < unat csz * (length pre' + 1)"
        using less.hyps [OF dec f1(2) u reg pos less.prems(6,7)] by (auto simp only:)
      have "grown (disk fs1) (disk fs2) fs first ((pre @ c # post) @ ns1) ns2"
        using f2(4) cs vol_transfer [OF f1(3)] by simp
      then have "grown (disk fs) (disk fs2) fs first (pre @ c # post) (ns1 @ ns2)"
        by (rule grown_trans [OF vol_geom [OF vol_vol_base [OF less.prems(1)]] f1(4)])
      moreover have "data_kept (disk fs) (disk fs2) fs"
        using data_kept_trans [OF f1(5)] f2(5) vol_transfer [OF f1(3)] by simp
      moreover have cs2: "pre @ c # post @ (ns1 @ ns2) = (pre @ [c]) @ c1 # zs @ ns2" using zs by (metis append.assoc append_Cons append_Nil)
      moreover have "case r of None \<Rightarrow> volume_full (disk fs2) fs \<and> unat csz * length (pre @ c # post @ (ns1 @ ns2)) \<le> unat off
         | Some c' \<Rightarrow> \<exists>pre' post'. pre @ c # post @ (ns1 @ ns2) = pre' @ c' # post' \<and>
             unat csz * length pre' \<le> unat off \<and> unat off < unat csz * (length pre' + 1)"
        unfolding cs2 using f2(6) unfolding vol_transfer [OF f1(3)] .
      ultimately show ?thesis
        unfolding run using f2(1,2) same_vol_trans [OF f1(3) f2(3)] by blast
    qed
  qed
qed

end

section \<open>Writing along a chain\<close>

text \<open>The bytes \<open>p\<close> have been stored at offset \<open>off\<close> of the file in the clusters \<open>cs\<close>; from the root directory on, no sector
  outside these clusters has changed.\<close>

definition written_at :: "(u64 \<Rightarrow> u8 list) \<Rightarrow> (u64 \<Rightarrow> u8 list) \<Rightarrow> 'h fat16 \<Rightarrow> u16 list \<Rightarrow> nat \<Rightarrow> u8 list \<Rightarrow> bool" where
  "written_at D D' fs cs off p \<longleftrightarrow> off + length p \<le> length (file_data D fs cs) \<and>
     file_data D' fs cs = patch off p (file_data D fs cs) \<and>
     (\<forall>t. unat (root_dir_lba fs) \<le> unat t \<longrightarrow> (\<forall>k\<in>set cs. t \<notin> sectors_of fs k) \<longrightarrow> D' t = D t)"

lemma written_at_trans:
  "written_at D D1 fs cs off p \<Longrightarrow> written_at D1 D2 fs cs (off + length p) q \<Longrightarrow> written_at D D2 fs cs off (p @ q)"
  by (auto simp: written_at_def patch_patch)

lemma root_before_clusters:
  "fat_geom nsecs fs \<Longrightarrow> in_region fs k \<Longrightarrow> t \<in> sectors_of fs k \<Longrightarrow> unat (root_dir_lba fs) \<le> unat t"
  using unat_cluster_lba(3) [of nsecs fs k] by (auto simp: sector_span_def fat_geom_def)

lemma file_data_kept:
  assumes "fat_geom nsecs fs" "list_all (in_region fs) cs" "data_kept D D' fs"
  shows "file_data D' fs cs = file_data D fs cs"
  using assms root_before_clusters [OF assms(1)]
  by (intro file_data_cong cluster_data_cong [OF assms(1)]) (auto simp: list_all_iff data_kept_def)

lemma written_at_kept:
  assumes "fat_geom nsecs fs" "list_all (in_region fs) cs" "written_at D D1 fs cs off p" "data_kept D1 D2 fs"
  shows "written_at D D2 fs cs off p"
  using assms(3,4) file_data_kept [OF assms(1,2,4)] by (auto simp: written_at_def data_kept_def)

lemma written_at_same_vol: "same_vol fs fs' \<Longrightarrow> written_at D D' fs' cs off p = written_at D D' fs cs off p"
  using same_volD [of fs fs'] same_vol_fns [of fs fs']
  by (simp add: written_at_def file_data_def cluster_data_def [abs_def])

lemma written_at_cluster:
  assumes g: "fat_geom nsecs fs" and reg: "list_all (in_region fs) (pre @ c # post)" and dist: "distinct (pre @ c # post)"
    and c: "cluster_data D' fs c = patch skip p (cluster_data D fs c)" "skip + length p \<le> length (cluster_data D fs c)"
    and out: "\<forall>t. t \<notin> sectors_of fs c \<longrightarrow> D' t = D t"
  shows "written_at D D' fs (pre @ c # post) (length (file_data D fs pre) + skip) p"
proof -
  have "cluster_data D' fs k = cluster_data D fs k" if k: "k \<in> set pre \<union> set post" for k
  proof (rule cluster_data_cong [OF g])
    show "in_region fs k" using k reg by (auto simp: list_all_iff)
    have "k \<noteq> c" using k dist by auto
    then have "sectors_of fs k \<inter> sectors_of fs c = {}"
      using k reg by (intro sectors_disjoint [OF g]) (auto simp: list_all_iff)
    then show "D' t = D t" if "t \<in> sectors_of fs k" for t using that out by blast
  qed
  from file_data_patch [OF c this] show ?thesis
    using out c(2) by (auto simp: written_at_def file_data_append)
qed

context block_driver
begin

lemma write_cluster_ok:
  assumes "vol fs" "in_region fs c" "length buf = unat cnt" "unat cnt < 2 ^ 32" "unat written < unat cnt" "length sector = 512"
    and "unat skip < 512 * unat (spc fs)"
  shows "\<exists>skip' written' sector' fs'.
    write_sectors (unat (spc fs)) (fat16_cluster_to_lba fs c) buf cnt skip written sector fs = Some (True, skip', written', sector', fs') \<and>
    unat written' = unat written + min (unat cnt - unat written) (512 * unat (spc fs) - unat skip) \<and> unat skip' = 0 \<and> length sector' = 512 \<and>
    cluster_data (disk fs') fs c = patch (unat skip) (take (unat written' - unat written) (drop (unat written) buf)) (cluster_data (disk fs) fs c) \<and>
    (\<forall>t. t \<notin> sectors_of fs c \<longrightarrow> disk fs' t = disk fs t) \<and>
    (\<forall>k. unat k < 256 * fat_size fs \<longrightarrow> fatv (disk fs') fs k = fatv (disk fs) fs k) \<and> vol fs' \<and> same_vol fs fs'"
proof -
  note g = vol_geom [OF vol_vol_base [OF assms(1)]]
  have "unat (root_dir_lba fs) \<le> unat (fat16_cluster_to_lba fs c)"
    using unat_cluster_lba(3) [OF g assms(2)] g by (simp add: fat_geom_def)
  from write_sectors_ok [OF assms(1) this cluster_sectors [OF assms(1,2)] assms(3,4) less_imp_le [OF assms(5)] assms(6), of skip]
  show ?thesis
    using assms(5,7) unfolding cluster_data_def by (elim exE conjE) (intro exI conjI, assumption+, auto)
qed

lemma grown_same_fat:
  assumes "vol fs" "used_chain (fatv D fs) first cs" "list_all (in_region fs) cs"
    and "\<forall>k. unat k < 256 * fat_size fs \<longrightarrow> fatv D' fs k = fatv D fs k"
  shows "grown D D' fs first cs []"
  using assms(3,4) in_region_fat [OF vol_geom [OF vol_vol_base [OF assms(1)]]] used_chain_cong [OF assms(2), of "fatv D' fs"]
  by (auto simp: grown_def list_all_iff)

text \<open>One cluster of the file is stored, and then the rest of the bytes.\<close>

lemma write_chain_ok:
  assumes "vol fs" "used_chain (fatv (disk fs) fs) first (pre @ c # post)" "list_all (in_region fs) (pre @ c # post)"
    and "length buf = unat cnt" "unat cnt < 2 ^ 32" "unat written < unat cnt" "length sector = 512" "unat skip < 512 * unat (spc fs)"
  shows "\<exists>written' ns fs'. write_chain c buf cnt skip written sector fs = Some (written', fs') \<and> vol fs' \<and> same_vol fs fs' \<and>
    grown (disk fs) (disk fs') fs first (pre @ c # post) ns \<and>
    written_at (disk fs) (disk fs') fs (pre @ c # post @ ns) (512 * unat (spc fs) * length pre + unat skip)
      (take (unat written' - unat written) (drop (unat written) buf)) \<and>
    unat written < unat written' \<and> unat written' \<le> unat cnt \<and> 
    (unat written' < unat cnt \<longrightarrow> volume_full (disk fs') fs \<and>
      512 * unat (spc fs) * length (pre @ c # post @ ns) = 512 * unat (spc fs) * length pre + unat skip + (unat written' - unat written))"
  using assms
proof (induction "unat cnt - unat written" arbitrary: written c pre post fs skip sector rule: less_induct)
  case less
  let ?cs = "pre @ c # post" and ?z = "512 * unat (spc fs)"
  note g = vol_geom [OF vol_vol_base [OF less.prems(1)]]
  have c: "in_region fs c" using less.prems(3) by simp
  obtain skip1 w1 sector1 fs1 where f1:
    "write_sectors (unat (spc fs)) (fat16_cluster_to_lba fs c) buf cnt skip written sector fs = Some (True, skip1, w1, sector1, fs1)"
    "unat w1 = unat written + min (unat cnt - unat written) (?z - unat skip)" "unat skip1 = 0" "length sector1 = 512"
    "cluster_data (disk fs1) fs c = patch (unat skip) (take (unat w1 - unat written) (drop (unat written) buf)) (cluster_data (disk fs) fs c)"
    "\<forall>t. t \<notin> sectors_of fs c \<longrightarrow> disk fs1 t = disk fs t"
    "\<forall>k. unat k < 256 * fat_size fs \<longrightarrow> fatv (disk fs1) fs k = fatv (disk fs) fs k" "vol fs1" "same_vol fs fs1"
    using write_cluster_ok [OF less.prems(1) c less.prems(4-8)] by blast
  let ?p = "take (unat w1 - unat written) (drop (unat written) buf)"
  have lp: "length ?p = unat w1 - unat written" using f1(2) less.prems(4) by simp
  have fits: "unat skip + length ?p \<le> length (cluster_data (disk fs) fs c)"
    using lp length_cluster_data [OF less.prems(1) c] f1(2) less.prems(8) by linarith
  have w1: "unat written < unat w1" "unat w1 \<le> unat cnt" using f1(2) less.prems(6,8) by auto
  have g1: "grown (disk fs) (disk fs1) fs first ?cs []" by (rule grown_same_fat [OF less.prems(1-3) f1(7)])
  have lpre: "length (file_data (disk fs) fs pre) = ?z * length pre"
    using length_file_data [OF less.prems(1)] less.prems(3) by simp
  have step: "written_at (disk fs) (disk fs1) fs (pre @ c # ys) (?z * length pre + unat skip) ?p"
    if "list_all (in_region fs) (pre @ c # ys)" "distinct (pre @ c # ys)" for ys
    using written_at_cluster [OF g that f1(5) fits f1(6)] lpre by simp
  have lt: "ucast written < cnt" using less.prems(6) by (simp add: word_less_nat_alt)
  show ?case
  proof (cases "unat w1 = unat cnt")
    case True
    then have "\<not> ucast w1 < cnt" by (simp add: word_less_nat_alt)
    then have run: "write_chain c buf cnt skip written sector fs = Some (w1, fs1)"
      using f1(1) lt by (subst write_chain.simps) simp
    have "written_at (disk fs) (disk fs1) fs (pre @ c # post @ []) (?z * length pre + unat skip) ?p"
      using step [of post] less.prems(3) used_chain_distinct [OF less.prems(2)] by simp
    then show ?thesis
      unfolding run using f1(8,9) g1 w1 True by (intro exI [of _ w1] exI [of _ "[]"] exI [of _ fs1] conjI) simp_all
  next
    case False
    then have w1': "ucast w1 < cnt" using w1 by (simp add: word_less_nat_alt)
    have full: "unat w1 - unat written = ?z - unat skip" using False f1(2) less.prems(6) by linarith
    note sv1 = same_volD [OF f1(9)] same_vol_fns [OF f1(9)] same_vol_data [OF f1(9)]
    have u1: "used_chain (fatv (disk fs1) fs1) first ?cs" "list_all (in_region fs1) ?cs"
      using g1 less.prems(3) sv1 by (simp_all add: grown_def)
    obtain c2 ns1 fs2 where f2: "chain_step fs1 c = Some (c2, fs2)" "vol fs2" "same_vol fs1 fs2"
      "grown (disk fs1) (disk fs2) fs first ?cs ns1" "data_kept (disk fs1) (disk fs2) fs"
      "if c2 = 0 then volume_full (disk fs2) fs \<and> post = [] \<and> ns1 = [] else \<exists>zs. post @ ns1 = c2 # zs"
      using chain_step_ok [OF f1(8) u1] unfolding vol_transfer [OF f1(9)] by blast
    have g2: "grown (disk fs) (disk fs2) fs first ?cs ns1" using grown_trans [OF g g1, of "disk fs2" ns1] f2(4) by simp
    have reg2: "list_all (in_region fs) (pre @ c # post @ ns1)" using g2 less.prems(3) by (auto simp: grown_def)
    note v2 = same_vol_trans [OF f1(9) f2(3)]
    show ?thesis
    proof (cases "c2 = 0")
      case True
      have run: "write_chain c buf cnt skip written sector fs = Some (w1, fs2)"
        using f1(1) lt w1' f2(1) True by (subst write_chain.simps) simp
      have "distinct (pre @ c # post @ ns1)" using g2 used_chain_distinct by (fastforce simp: grown_def)
      then have "written_at (disk fs) (disk fs2) fs (pre @ c # post @ ns1) (?z * length pre + unat skip) ?p"
        by (intro written_at_kept [OF g reg2 step [OF reg2] f2(5)])
      then show ?thesis
        unfolding run using f2(2,6) v2 g2 w1 True full less.prems(8)
        by (intro exI [of _ w1] exI [of _ ns1] exI [of _ fs2] conjI) simp_all
    next
      case c2: False
      then obtain zs where zs: "post @ ns1 = c2 # zs" using f2(6) by auto
      then have cs: "pre @ c # post @ ns1 = (pre @ [c]) @ c2 # zs" by simp
      note sv2 = same_volD [OF v2] same_vol_fns [OF v2] same_vol_data [OF v2]
      have u2: "used_chain (fatv (disk fs2) fs2) first ((pre @ [c]) @ c2 # zs)" "list_all (in_region fs2) ((pre @ [c]) @ c2 # zs)"
        using g2 reg2 unfolding cs sv2 by (simp_all add: grown_def cs)
      have "unat cnt - unat w1 < unat cnt - unat written" "unat w1 < unat cnt" "unat skip1 < 512 * unat (spc fs2)"
        using w1 False f1(3) less.prems(8) sv2 by auto
      then obtain w' ns2 fs3 where f3: "write_chain c2 buf cnt skip1 w1 sector1 fs2 = Some (w', fs3)" "vol fs3" "same_vol fs2 fs3"
        "grown (disk fs2) (disk fs3) fs2 first ((pre @ [c]) @ c2 # zs) ns2"
        "written_at (disk fs2) (disk fs3) fs2 ((pre @ [c]) @ c2 # zs @ ns2) (512 * unat (spc fs2) * length (pre @ [c]) + unat skip1)
          (take (unat w' - unat w1) (drop (unat w1) buf))"
        "unat w1 < unat w'" "unat w' \<le> unat cnt" 
        "unat w' < unat cnt \<longrightarrow> volume_full (disk fs3) fs2 \<and>
          512 * unat (spc fs2) * length ((pre @ [c]) @ c2 # zs @ ns2) = 512 * unat (spc fs2) * length (pre @ [c]) + unat skip1 + (unat w' - unat w1)"
        using less.hyps [OF _ f2(2) u2 less.prems(4,5) _ f1(4)] by blast
      have run: "write_chain c buf cnt skip written sector fs = Some (w', fs3)"
        using f1(1) lt w1' f2(1) c2 f3(1) by (subst write_chain.simps) simp
      have cs2: "(pre @ [c]) @ c2 # zs @ ns2 = pre @ c # post @ (ns1 @ ns2)" using zs by (metis append.assoc append_Cons append_Nil)
      have "grown (disk fs2) (disk fs3) fs first (?cs @ ns1) ns2" using f3(4) cs vol_transfer [OF v2] by simp
      then have g3: "grown (disk fs) (disk fs3) fs first ?cs (ns1 @ ns2)" by (rule grown_trans [OF g g2])
      then have reg3: "list_all (in_region fs) (pre @ c # post @ (ns1 @ ns2))" "distinct (pre @ c # post @ (ns1 @ ns2))"
        using less.prems(3) used_chain_distinct by (fastforce simp: grown_def)+
      have a: "written_at (disk fs) (disk fs2) fs (pre @ c # post @ (ns1 @ ns2)) (?z * length pre + unat skip) ?p"
        by (rule written_at_kept [OF g reg3(1) step [OF reg3] f2(5)])
      have off2: "512 * unat (spc fs2) * length (pre @ [c]) + unat skip1 = ?z * length pre + unat skip + length ?p"
        using lp full f1(3) less.prems(8) sv2 by simp
      then have b: "written_at (disk fs2) (disk fs3) fs (pre @ c # post @ (ns1 @ ns2)) (?z * length pre + unat skip + length ?p)
          (take (unat w' - unat w1) (drop (unat w1) buf))"
        using f3(5) unfolding cs2 written_at_same_vol [OF v2] by simp
      have "take (unat w' - unat written) (drop (unat written) buf) = ?p @ take (unat w' - unat w1) (drop (unat w1) buf)"
        using w1 f3(6) take_add [of "unat w1 - unat written" "unat w' - unat w1" "drop (unat written) buf"] by simp
      then have "written_at (disk fs) (disk fs3) fs (pre @ c # post @ (ns1 @ ns2)) (?z * length pre + unat skip)
          (take (unat w' - unat written) (drop (unat written) buf))"
        using written_at_trans [OF a b] by simp
      moreover have "unat w' < unat cnt \<longrightarrow> volume_full (disk fs3) fs \<and>
          ?z * length (pre @ c # post @ (ns1 @ ns2)) = ?z * length pre + unat skip + (unat w' - unat written)"
      proof
        assume "unat w' < unat cnt"
        then have "volume_full (disk fs3) fs"
          "512 * unat (spc fs2) * length (pre @ c # post @ (ns1 @ ns2)) = ?z * length pre + unat skip + length ?p + (unat w' - unat w1)"
          using f3(8) unfolding cs2 off2 vol_transfer [OF v2] by blast+
        then show "volume_full (disk fs3) fs \<and> ?z * length (pre @ c # post @ (ns1 @ ns2)) = ?z * length pre + unat skip + (unat w' - unat written)"
          unfolding lp sv2 using w1 f3(6) by simp
      qed
      moreover have "unat written < unat w'" using w1 f3(6) by simp
      ultimately show ?thesis
        unfolding run using f3(2,7) same_vol_trans [OF v2 f3(3)] g3
        by (intro exI [of _ w'] exI [of _ "ns1 @ ns2"] exI [of _ fs3] conjI) (rule refl | assumption)+
    qed
  qed
qed

end

end
