(* ===== verification/Fat16_Effect.thy ===== *)
theory Fat16_Effect
  imports Fat16_Write
begin

text \<open>
  The effect of a call of \<^verbatim>\<open>fat16_write\<close> (\<^verbatim>\<open>src/lizard/fat16.c\<close>) on the file, its directory entry and the rest of the
  volume, and reading back what was written.
\<close>

section \<open>Storing a directory entry\<close>

text \<open>A directory slot that lies behind the FATs, in no cluster of the file \<open>cs\<close> and in no free cluster.\<close>

definition slot_ok :: "nat \<Rightarrow> (u64 \<Rightarrow> u8 list) \<Rightarrow> 'h fat16 \<Rightarrow> u16 list \<Rightarrow> fat16_dir_loc \<Rightarrow> bool" where
  "slot_ok nsecs D fs cs loc \<longleftrightarrow> unat (root_dir_lba fs) \<le> unat (dl_lba loc) \<and> unat (dl_lba loc) < nsecs \<and> unat (dl_off loc) + 32 \<le> 512 \<and>
     (\<forall>k. in_region fs k \<longrightarrow> ucast (dl_lba loc) \<in> sectors_of fs k \<longrightarrow> fatv D fs k \<noteq> 0 \<and> k \<notin> set cs)"

abbreviation entry_shape :: "fat16_directory \<Rightarrow> bool" where
  "entry_shape e \<equiv> length (fd_name e) = 8 \<and> length (fd_extension e) = 3"

text \<open>The disk with an entry stored in a slot.\<close>

definition slot_stored :: "fat16_dir_loc \<Rightarrow> fat16_directory \<Rightarrow> (u64 \<Rightarrow> u8 list) \<Rightarrow> u64 \<Rightarrow> u8 list" where
  "slot_stored loc ent D = D(ucast (dl_lba loc) := patch (unat (dl_off loc)) (dir_bytes ent) (D (ucast (dl_lba loc))))"

context block_driver
begin

lemma dir_write_ok:
  assumes "vol fs" "unat (root_dir_lba fs) \<le> unat (dl_lba loc)" "unat (dl_lba loc) < nsec" "unat (dl_off loc) + 32 \<le> 512" "entry_shape ent"
  shows "\<exists>fs'. fat16_dir_write fs loc ent = Some (True, fs') \<and> vol fs' \<and> same_vol fs fs' \<and> disk fs' = slot_stored loc ent (disk fs) \<and>
    (\<forall>c. unat c < 256 * fat_size fs \<longrightarrow> fatv (disk fs') fs c = fatv (disk fs) fs c)"
proof -
  let ?b = "disk fs (ucast (dl_lba loc))"
  let ?new = "patch (unat (dl_off loc)) (dir_bytes ent) ?b"
  obtain fs1 where f1: "fs_read fs (dl_lba loc) = (Some ?b, fs1)" "vol fs1" "disk fs1 = disk fs" "same_vol fs fs1"
    using fs_read_vol [OF assms(1,3)] by blast
  have "length ?b = 512" using disk_length [OF vol_vol_base [OF assms(1)]] assms(3) by simp
  then have ln: "length ?new = 512" using assms(4,5) by simp
  have "unat (root_dir_lba fs1) \<le> unat (dl_lba loc)" using assms(2) same_volD [OF f1(4)] by simp
  then obtain fs2 where f2: "fs_write fs1 (dl_lba loc) ?new = (True, fs2)" "vol fs2" "disk fs2 = (disk fs)(ucast (dl_lba loc) := ?new)"
    "same_vol fs1 fs2" "\<forall>c. unat c < 256 * fat_size fs \<longrightarrow> fatv (disk fs2) fs c = fatv (disk fs) fs c"
    using fs_write_vol [OF f1(2) assms(3) ln] f1(3) same_volD [OF f1(4)] same_vol_fns [OF f1(4)] by auto
  have "fat16_dir_write fs loc ent = Some (True, fs2)"
    using f1(1) f2(1) assms(4) by (simp add: fat16_dir_write_def fat16_consts)
  then show ?thesis using f2 same_vol_trans [OF f1(4) f2(4)] by (auto simp: slot_stored_def)
qed

end

section \<open>The effect of a write\<close>

text \<open>The file \<open>cs\<close> of an inode has grown by the clusters \<open>ns\<close>; its bytes are the old ones with the stored bytes at the offset;
  apart from them only the directory slot may have changed. Without a byte stored the size is unchanged and the volume is full;
  otherwise the size covers the bytes, the slot holds the inode's entry, and a short count means a full volume.\<close>

definition write_spec ::
  "(u64 \<Rightarrow> u8 list) \<Rightarrow> (u64 \<Rightarrow> u8 list) \<Rightarrow> 'h fat16 \<Rightarrow> fat16_inode \<Rightarrow> fat16_inode \<Rightarrow> u16 list \<Rightarrow> u16 list \<Rightarrow> u8 list \<Rightarrow> nat \<Rightarrow> int \<Rightarrow> bool" where
  "write_spec D D' fs inode inode' cs ns buf offset r \<longleftrightarrow>
     grown D D' fs (fd_first_cluster_low (fi_ent inode')) cs ns \<and>
     file_data D' fs (cs @ ns) = patch offset (take (nat r) buf) (file_data D fs (cs @ ns)) \<and>
     (\<forall>t. unat (root_dir_lba fs) \<le> unat t \<longrightarrow> t \<noteq> ucast (dl_lba (fi_loc inode)) \<longrightarrow>
        (\<forall>k\<in>set (cs @ ns). t \<notin> sectors_of fs k) \<longrightarrow> D' t = D t) \<and>
     (r = -1 \<and> in_size inode' = in_size inode \<and> volume_full D' fs \<and> length (file_data D fs (cs @ ns)) \<le> offset \<or>
      0 < r \<and> r \<le> int (length buf) \<and> offset + nat r \<le> length (file_data D fs (cs @ ns)) \<and>
      unat (in_size inode') = max (unat (in_size inode)) (offset + nat r) \<and> 
      (r < int (length buf) \<longrightarrow> volume_full D' fs \<and> offset + nat r = length (file_data D fs (cs @ ns))) \<and>
      D' (ucast (dl_lba (fi_loc inode))) =
        patch (unat (dl_off (fi_loc inode))) (dir_bytes (fi_ent inode')) (D (ucast (dl_lba (fi_loc inode)))))"

context block_driver
begin

lemma write_out_ok:
  assumes "vol fs" "slot_ok nsec D fs cs (fi_loc inode)" "entry_shape (fi_ent inode)" "0 < unat written" "unat offset + unat written < 2 ^ 63"
  shows "\<exists>inode' fs'. write_out now inode offset written fs = Some (int (unat written), inode', fs') \<and> vol fs' \<and> same_vol fs fs' \<and>
    disk fs' = slot_stored (fi_loc inode) (fi_ent inode') (disk fs) \<and>
    (\<forall>c. unat c < 256 * fat_size fs \<longrightarrow> fatv (disk fs') fs c = fatv (disk fs) fs c) \<and>
    fd_first_cluster_low (fi_ent inode') = fd_first_cluster_low (fi_ent inode) \<and>
    unat (in_size inode') = max (unat (in_size inode)) (unat offset + unat written)"
proof -
  let ?fin = "offset + ucast written"
  define i1 where "i1 = (if ?fin > in_size inode
    then inode\<lparr>in_size := ?fin, fi_ent := (fi_ent inode)\<lparr>fd_file_size_bytes := ucast ?fin\<rparr>\<rparr> else inode)"
  define i2 where "i2 = i1\<lparr>fi_ent := fat16_entry_touch now (fi_ent i1)\<rparr>"
  have fin: "unat ?fin = unat offset + unat written" using assms(5) by (subst unat_add_small) simp_all
  have i: "fi_loc i2 = fi_loc inode" "entry_shape (fi_ent i2)" "fd_first_cluster_low (fi_ent i2) = fd_first_cluster_low (fi_ent inode)"
    using assms(3) by (simp_all add: i2_def i1_def fat16_entry_touch_def)
  have sz: "unat (in_size i2) = max (unat (in_size inode)) (unat offset + unat written)"
    using fin by (auto simp: i2_def i1_def word_less_nat_alt max_def)
  obtain fs' where f: "fat16_dir_write fs (fi_loc inode) (fi_ent i2) = Some (True, fs')" "vol fs'" "same_vol fs fs'"
    "disk fs' = slot_stored (fi_loc inode) (fi_ent i2) (disk fs)"
    "\<forall>c. unat c < 256 * fat_size fs \<longrightarrow> fatv (disk fs') fs c = fatv (disk fs) fs c"
    using dir_write_ok [OF assms(1) _ _ _ i(2), of "fi_loc inode"] assms(2) by (auto simp: slot_ok_def)
  have pos: "0 < written" using assms(4) by (simp add: word_less_nat_alt)
  have "write_out now inode offset written fs = Some (int (unat written), i2, fs')"
    unfolding write_out_def Let_def i1_def [symmetric] using pos f(1) i(1) by (simp add: i2_def)
  then show ?thesis using f(2-5) i(3) sz by blast
qed

text \<open>The slot of a file is in none of its clusters, old or new.\<close>

lemma slot_outside:
  assumes "slot_ok nsec D fs cs loc" "grown D D' fs first cs ns" "list_all (in_region fs) cs" "k \<in> set (cs @ ns)"
  shows "ucast (dl_lba loc) \<notin> sectors_of fs k"
  using assms by (auto simp: slot_ok_def grown_def list_all_iff)

lemma slot_stored_data:
  assumes "vol fs" "list_all (in_region fs) cs" "\<forall>k\<in>set cs. ucast (dl_lba loc) \<notin> sectors_of fs k"
  shows "file_data (slot_stored loc ent D) fs cs = file_data D fs cs"
  using assms(2,3)
  by (intro file_data_cong cluster_data_cong [OF vol_geom [OF vol_vol_base [OF assms(1)]]]) (auto simp: slot_stored_def list_all_iff)

lemma write_from_ok:
  assumes "vol fs" "used_chain (fatv (disk fs) fs) c (c # post)" "list_all (in_region fs) (c # post)" "c = fd_first_cluster_low (fi_ent inode)"
    and "slot_ok nsec (disk fs) fs (c # post) (fi_loc inode)" "entry_shape (fi_ent inode)"
    and "0 < unat cnt" "length buf = unat cnt" "unat offset + unat cnt < 2 ^ 31" "length sector = 512"
  shows "\<exists>r inode' fs' ns. write_from now sector inode buf cnt offset fs = Some (r, inode', fs') \<and> vol fs' \<and> same_vol fs fs' \<and>
    write_spec (disk fs) (disk fs') fs inode inode' (c # post) ns buf (unat offset) r"
proof -
  let ?z = "bps fs * spc fs" and ?o = "ucast offset :: u32" and ?cs = "c # post"
  note g = vol_geom [OF vol_vol_base [OF assms(1)]]
  have z: "unat ?z = 512 * unat (spc fs)" by (rule unat_cluster_size [OF assms(1)])
  have "0 < fh_sectors_per_cluster (fs_header fs)" using g by (simp add: fat_geom_def)
  then have z0: "0 < unat ?z" unfolding z by (simp add: word_less_nat_alt)
  have "unat (spc fs) < 256" using unat_lt2p [of "fh_sectors_per_cluster (fs_header fs)"] by simp
  then have z17: "unat ?z < 2 ^ 18" unfolding z by simp
  have uo: "unat ?o = unat offset" using assms(9) by (simp add: unsigned_ucast_eq take_bit_nat_eq_self)
  have "(2 :: nat) ^ 18 + 2 ^ 31 \<le> 2 ^ 32" by simp
  then have ob: "unat ?o + unat ?z < 2 ^ 32" using uo z17 assms(9) by linarith
  obtain r ns fs1 where f1: "write_skip ?z ?o ?z c fs = Some (r, fs1)" "vol fs1" "same_vol fs fs1"
    "grown (disk fs) (disk fs1) fs c ?cs ns" "data_kept (disk fs) (disk fs1) fs"
    "case r of None \<Rightarrow> volume_full (disk fs1) fs \<and> unat ?z * length ([] @ c # post @ ns) \<le> unat ?o
     | Some c' \<Rightarrow> \<exists>pre' post'. [] @ c # post @ ns = pre' @ c' # post' \<and>
         unat ?z * length pre' \<le> unat ?o \<and> unat ?o < unat ?z * (length pre' + 1)"
    using write_skip_ok [OF assms(1), of c "[]" c post ?z ?z ?o] assms(2,3) z0 ob by auto
  have regn: "list_all (in_region fs) (?cs @ ns)" using f1(4) assms(3) by (simp add: grown_def)
  have kept: "file_data (disk fs1) fs (?cs @ ns) = file_data (disk fs) fs (?cs @ ns)" by (rule file_data_kept [OF g regn f1(5)])
  show ?thesis
  proof (cases r)
    case None
    then have "write_from now sector inode buf cnt offset fs = Some (-1, inode, fs1)"
      using f1(1) assms(4) by (simp add: write_from_def)
    moreover have "write_spec (disk fs) (disk fs1) fs inode inode ?cs ns buf (unat offset) (-1)"
    proof -
      have "length (file_data (disk fs) fs (?cs @ ns)) \<le> unat offset"
        using f1(6) None length_file_data [OF assms(1) regn] z uo by simp
      then show ?thesis using f1(4-6) None kept assms(4) by (simp add: write_spec_def data_kept_def)
    qed
    ultimately show ?thesis using f1(2,3) by blast
  next
    case (Some c')
    then obtain pre' post' where pp: "?cs @ ns = pre' @ c' # post'" "unat ?z * length pre' \<le> unat ?o" "unat ?o < unat ?z * (length pre' + 1)"
      using f1(6) by auto
    note sv1 = same_volD [OF f1(3)] same_vol_fns [OF f1(3)] same_vol_data [OF f1(3)]
    have u1: "used_chain (fatv (disk fs1) fs1) c (pre' @ c' # post')" "list_all (in_region fs1) (pre' @ c' # post')"
      using f1(4) regn unfolding pp(1) [symmetric] sv1 by (simp_all add: grown_def)
    define skip where "skip = ?o mod ?z"
    have "unat ?o div unat ?z = length pre'" using pp(2,3) by (intro div_nat_eqI) (simp_all add: mult.commute)
    then have uskip: "unat ?o = unat ?z * length pre' + unat skip" unfolding skip_def unat_mod_distrib
      using mult_div_mod_eq [of "unat ?z" "unat ?o"] by simp
    have sk: "unat skip < 512 * unat (spc fs1)" using uskip pp(3) z sv1 by simp
    have c32: "unat cnt < 2 ^ 32" using assms(9) by simp
    obtain w ms fs2 where f2: "write_chain c' buf cnt skip 0 sector fs1 = Some (w, fs2)" "vol fs2" "same_vol fs1 fs2"
      "grown (disk fs1) (disk fs2) fs c (pre' @ c' # post') ms"
      "written_at (disk fs1) (disk fs2) fs (pre' @ c' # post' @ ms) (unat offset) (take (unat w) buf)"
      "0 < unat w" "unat w \<le> unat cnt" 
      "unat w < unat cnt \<longrightarrow> volume_full (disk fs2) fs \<and> 512 * unat (spc fs) * length (pre' @ c' # post' @ ms) = unat offset + unat w"
      using write_chain_ok [OF f1(2) u1 assms(8) c32, of 0 sector skip] assms(7,10) sk uskip uo z sv1
      unfolding vol_transfer [OF f1(3)] written_at_same_vol [OF f1(3)] by auto
    note v2 = same_vol_trans [OF f1(3) f2(3)]
    have g2: "grown (disk fs) (disk fs2) fs c ?cs (ns @ ms)" using f2(4) unfolding pp(1) [symmetric] by (rule grown_trans [OF g f1(4)])
    have wa: "written_at (disk fs1) (disk fs2) fs (?cs @ (ns @ ms)) (unat offset) (take (unat w) buf)"
      using f2(5) pp(1) by (metis append.assoc append_Cons)
    have reg2: "list_all (in_region fs) (?cs @ (ns @ ms))" using g2 assms(3) by (simp add: grown_def)
    have kept2: "file_data (disk fs1) fs (?cs @ (ns @ ms)) = file_data (disk fs) fs (?cs @ (ns @ ms))" by (rule file_data_kept [OF g reg2 f1(5)])
    have ll: "length (?cs @ (ns @ ms)) = length (pre' @ c' # post' @ ms)" using arg_cong [OF pp(1), of length] by simp
    note out = slot_outside [OF assms(5) g2 assms(3)]
    have sl2: "slot_ok nsec (disk fs) fs2 ?cs (fi_loc inode)"
      using assms(5) same_volD [OF v2] same_vol_fns [OF v2] same_vol_data [OF v2] by (simp add: slot_ok_def)
    obtain inode' fs3 where f3: "write_out now inode offset w fs2 = Some (int (unat w), inode', fs3)" "vol fs3" "same_vol fs2 fs3"
      "disk fs3 = slot_stored (fi_loc inode) (fi_ent inode') (disk fs2)"
      "\<forall>k. unat k < 256 * fat_size fs \<longrightarrow> fatv (disk fs3) fs k = fatv (disk fs2) fs k"
      "fd_first_cluster_low (fi_ent inode') = c" "unat (in_size inode') = max (unat (in_size inode)) (unat offset + unat w)"
      using write_out_ok [OF f2(2) sl2 assms(6) f2(6), of offset now] f2(7) assms(4,9) same_volD [OF v2] same_vol_fns [OF v2] by auto
    have g3: "grown (disk fs) (disk fs3) fs c ?cs (ns @ ms)"
      using grown_trans [OF g g2 grown_same_fat [OF assms(1) _ reg2 f3(5)]] g2 by (simp add: grown_def)
    have d3: "file_data (disk fs3) fs (?cs @ (ns @ ms)) = patch (unat offset) (take (unat w) buf) (file_data (disk fs) fs (?cs @ (ns @ ms)))"
      unfolding f3(4) using slot_stored_data [OF assms(1) reg2] out wa kept2 by (auto simp: written_at_def)
    have vf: "volume_full (disk fs3) fs = volume_full (disk fs2) fs"
      using f3(5) allocatable [of _ fs] in_region_fat [OF g] by (auto simp: volume_full_def)
    have "write_spec (disk fs) (disk fs3) fs inode inode' ?cs (ns @ ms) buf (unat offset) (int (unat w))"
    proof -
      have "unat offset + unat w \<le> length (file_data (disk fs) fs (?cs @ (ns @ ms)))"
        using wa f2(7) assms(8) unfolding written_at_def kept2 by simp
      moreover have "disk fs2 (ucast (dl_lba (fi_loc inode))) = disk fs (ucast (dl_lba (fi_loc inode)))"
        using wa out f1(5) assms(5) by (auto simp: written_at_def data_kept_def slot_ok_def)
      then have "disk fs3 (ucast (dl_lba (fi_loc inode))) =
          patch (unat (dl_off (fi_loc inode))) (dir_bytes (fi_ent inode')) (disk fs (ucast (dl_lba (fi_loc inode))))"
        using f3(4) by (simp add: slot_stored_def)
      moreover have "disk fs3 t = disk fs t" if "unat (root_dir_lba fs) \<le> unat t" "t \<noteq> ucast (dl_lba (fi_loc inode))"
        "\<forall>k\<in>set (?cs @ (ns @ ms)). t \<notin> sectors_of fs k" for t
        using that wa f1(5) f3(4) by (auto simp: written_at_def data_kept_def slot_stored_def)
      moreover have "0 < int (unat w)" "int (unat w) \<le> int (length buf)" "int (unat w) < int (length buf) \<longrightarrow> volume_full (disk fs3) fs \<and>
          unat offset + unat w = length (file_data (disk fs) fs (?cs @ (ns @ ms)))"
        unfolding of_nat_0_less_iff of_nat_le_iff of_nat_less_iff length_file_data [OF assms(1) reg2] ll
        using f2(6-8) vf assms(8) by simp_all
      ultimately show ?thesis
        unfolding write_spec_def nat_int f3(6) using g3 d3 f3(7) by blast
    qed
    moreover have "write_from now sector inode buf cnt offset fs = Some (int (unat w), inode', fs3)"
      using f1(1) Some f2(1) f3(1) z0 assms(4) by (auto simp: write_from_def skip_def Let_def)
    ultimately show ?thesis using f3(2) same_vol_trans [OF v2 f3(3)] by blast
  qed
qed

text \<open>The first cluster of an empty file.\<close>

lemma alloc_first_ok:
  assumes "vol fs" "slot_ok nsec (disk fs) fs [] loc"
  shows "\<exists>r fs'. fat16_cluster_alloc fs = Some (r, fs') \<and> vol fs' \<and> same_vol fs fs' \<and>
    (case r of None \<Rightarrow> disk fs' = disk fs \<and> volume_full (disk fs) fs
     | Some k \<Rightarrow> in_region fs k \<and> grown (disk fs) (disk fs') fs k [] [k] \<and> data_kept (disk fs) (disk fs') fs \<and>
         slot_ok nsec (disk fs') fs' [k] loc)"
proof -
  note g = vol_geom [OF vol_vol_base [OF assms(1)]]
  obtain r fs' where f: "fat16_cluster_alloc fs = Some (r, fs')" using cluster_alloc_ok [OF assms(1)] by (auto split: option.splits)
  note al = cluster_alloc_ok [OF assms(1), unfolded f, simplified]
  show ?thesis
  proof (cases r)
    case None
    then show ?thesis using f al by (auto simp: volume_full_def)
  next
    case (Some k)
    then have k: "2 \<le> unat k" "unat k \<le> last_cluster fs" "fatv (disk fs) fs k = 0"
      "fat_changed (disk fs) (disk fs') fs ((fatv (disk fs) fs)(k := FAT16_EOC))" "vol fs'" "same_vol fs fs'"
      using al by auto
    note ka = allocatable [OF k(1,2)]
    have eoc: "\<not> fat16_cluster_valid FAT16_EOC" "FAT16_EOC \<noteq> 0" by (simp_all add: fat16_cluster_valid_def fat16_consts)
    have F: "fatv (disk fs') fs j = (if j = k then FAT16_EOC else fatv (disk fs) fs j)" if "in_region fs j" for j
      using k(4) in_region_fat [OF g that] by (simp add: fat_changed_def)
    have "grown (disk fs) (disk fs') fs k [] [k]"
      using F ka k(3,4) eoc by (auto simp: grown_def used_chain_def fat_changed_def)
    moreover have "data_kept (disk fs) (disk fs') fs" using k(4) by (simp add: data_kept_def fat_changed_def)
    moreover have "slot_ok nsec (disk fs') fs' [k] loc"
      using assms(2) F k(3) eoc same_volD [OF k(6)] same_vol_fns [OF k(6)] same_vol_data [OF k(6)] by (auto simp: slot_ok_def)
    ultimately show ?thesis using f k(5,6) ka Some by auto
  qed
qed

lemma write_spec_first:
  assumes g: "fat_geom nsecs fs" and a: "grown D D0 fs k [] [k]" "data_kept D D0 fs" "in_region fs k"
    and b: "write_spec D0 D' fs ik inode' [k] ns buf offset r" "in_size ik = in_size inode" "fi_loc ik = fi_loc inode"
    and sl: "unat (root_dir_lba fs) \<le> unat (dl_lba (fi_loc inode))"
  shows "write_spec D D' fs inode inode' [] (k # ns) buf offset r"
proof -
  have g1: "grown D0 D' fs (fd_first_cluster_low (fi_ent inode')) [k] ns" using b(1) by (simp add: write_spec_def)
  then have k: "fd_first_cluster_low (fi_ent inode') = k" by (simp add: grown_def used_chain_def)
  have "grown D D' fs k [] ([k] @ ns)" using grown_trans [OF g a(1), of D' ns] g1 k by simp
  then have "grown D D' fs (fd_first_cluster_low (fi_ent inode')) [] (k # ns)" using k by simp
  moreover have fd: "file_data D0 fs (k # ns) = file_data D fs (k # ns)"
    using g1 a(3) by (intro file_data_kept [OF g _ a(2)]) (simp add: grown_def)
  moreover have sd: "D0 (ucast (dl_lba (fi_loc inode))) = D (ucast (dl_lba (fi_loc inode)))" using a(2) sl by (simp add: data_kept_def)
  have "D' t = D t" if t: "unat (root_dir_lba fs) \<le> unat t" "t \<noteq> ucast (dl_lba (fi_loc inode))" "\<forall>j\<in>set (k # ns). t \<notin> sectors_of fs j" for t
  proof -
    have "D' t = D0 t" using b(1) t unfolding write_spec_def b(3) append_Cons append_Nil by blast
    then show ?thesis using a(2) t(1) by (simp add: data_kept_def)
  qed
  ultimately show ?thesis
    using b(1) unfolding write_spec_def b(2,3) append_Cons append_Nil fd sd by blast
qed

lemma write_ok:
  assumes "vol fs" "\<not> is_dir (fi_ent inode)" "\<not> bd_read_only (fs_dev fs)"
    and "used_chain (fatv (disk fs) fs) (fd_first_cluster_low (fi_ent inode)) cs" "list_all (in_region fs) cs"
    and "cs = [] \<longrightarrow> fd_first_cluster_low (fi_ent inode) = 0"
    and "slot_ok nsec (disk fs) fs cs (fi_loc inode)" "entry_shape (fi_ent inode)"
    and "0 < unat cnt" "length buf = unat cnt" "unat offset + unat cnt < 2 ^ 31" "length sector = 512"
  shows "\<exists>r inode' fs' ns. fat16_write now sector inode buf cnt offset fs = Some (r, inode', fs') \<and> vol fs' \<and> same_vol fs fs' \<and>
    write_spec (disk fs) (disk fs') fs inode inode' cs ns buf (unat offset) r"
proof (cases cs)
  case (Cons c post)
  have v0: "\<not> fat16_cluster_valid 0" by (simp add: fat16_cluster_valid_def fat16_consts)
  have c: "c = fd_first_cluster_low (fi_ent inode)" "fat16_cluster_valid c" using assms(4) Cons by (auto simp: used_chain_def)
  then have "fd_first_cluster_low (fi_ent inode) \<noteq> 0" using v0 by auto
  then have run: "fat16_write now sector inode buf cnt offset fs = write_from now sector inode buf cnt offset fs"
    using assms(2,3,9) by (auto simp: fat16_write_def)
  show ?thesis
    unfolding run Cons by (rule write_from_ok) (use assms Cons c(1) in \<open>simp_all\<close>)
next
  case Nil
  note g = vol_geom [OF vol_vol_base [OF assms(1)]]
  have z: "fd_first_cluster_low (fi_ent inode) = 0" using Nil assms(6) by simp
  obtain r0 fs0 where f0: "fat16_cluster_alloc fs = Some (r0, fs0)" "vol fs0" "same_vol fs fs0"
    "case r0 of None \<Rightarrow> disk fs0 = disk fs \<and> volume_full (disk fs) fs
     | Some k \<Rightarrow> in_region fs k \<and> grown (disk fs) (disk fs0) fs k [] [k] \<and> data_kept (disk fs) (disk fs0) fs \<and>
         slot_ok nsec (disk fs0) fs0 [k] (fi_loc inode)"
    using alloc_first_ok [OF assms(1)] assms(7) Nil by blast
  have nz: "cnt \<noteq> 0" using assms(9) by auto
  show ?thesis
  proof (cases r0)
    case None
    then have run: "fat16_write now sector inode buf cnt offset fs = Some (-1, inode, fs0)"
      using assms(2,3) nz z f0(1) by (simp add: fat16_write_def)
    have "write_spec (disk fs) (disk fs0) fs inode inode [] [] buf (unat offset) (-1)"
      using f0(4) None assms(4) Nil by (simp add: write_spec_def grown_def)
    then show ?thesis unfolding run Nil using f0(2,3) by blast
  next
    case (Some k)
    define inode1 where "inode1 = inode\<lparr>fi_ent := (fi_ent inode)\<lparr>fd_first_cluster_low := k\<rparr>\<rparr>"
    have k: "in_region fs k" "grown (disk fs) (disk fs0) fs k [] [k]" "data_kept (disk fs) (disk fs0) fs"
      "slot_ok nsec (disk fs0) fs0 [k] (fi_loc inode)"
      using f0(4) Some by simp_all
    note sv = same_volD [OF f0(3)] same_vol_fns [OF f0(3)] same_vol_data [OF f0(3)]
    have "used_chain (fatv (disk fs0) fs0) k [k]" using k(2) sv by (simp add: grown_def)
    moreover have "list_all (in_region fs0) [k]" "k = fd_first_cluster_low (fi_ent inode1)" "slot_ok nsec (disk fs0) fs0 [k] (fi_loc inode1)"
      "entry_shape (fi_ent inode1)"
      using k(1,4) assms(8) sv by (simp_all add: inode1_def)
    ultimately obtain r inode' fs' ns where w: "write_from now sector inode1 buf cnt offset fs0 = Some (r, inode', fs')" "vol fs'" "same_vol fs0 fs'"
      "write_spec (disk fs0) (disk fs') fs0 inode1 inode' [k] ns buf (unat offset) r"
      using write_from_ok [OF f0(2) _ _ _ _ _ assms(9-12)] by blast
    have run: "fat16_write now sector inode buf cnt offset fs = Some (r, inode', fs')"
      using assms(2,3) nz z f0(1) Some w(1) by (simp add: fat16_write_def inode1_def)
    have "write_spec (disk fs0) (disk fs') fs inode1 inode' [k] ns buf (unat offset) r"
      using w(4) unfolding write_spec_def sv vol_transfer [OF f0(3)] .
    then have "write_spec (disk fs) (disk fs') fs inode inode' [] (k # ns) buf (unat offset) r"
      using assms(7) by (intro write_spec_first [OF g k(2,3,1), where ik = inode1]) (simp_all add: inode1_def slot_ok_def)
    then show ?thesis unfolding run Nil using w(2) same_vol_trans [OF f0(3) w(3)] by blast
  qed
qed

end

section \<open>What writing promises\<close>

text \<open>Property C9. A write of at least one byte to a file always returns. It grows the chain of the file by free clusters only,
  stores a prefix of the buffer at the offset, changes no sector of any other file or directory except the file's own directory
  slot, updates size and entry, and stores fewer bytes than asked for, or none, only when the volume is full.\<close>

theorem fat16_write_effect:
  assumes "block_driver rd wr content good n" "fs_inv rd wr content good n fs"
    and "\<not> is_dir (fi_ent inode)" "\<not> bd_read_only (fs_dev fs)"
    and "used_chain (fatv (content (hw (fs_blk fs))) fs) (fd_first_cluster_low (fi_ent inode)) cs" "list_all (in_region fs) cs"
    and "cs = [] \<longrightarrow> fd_first_cluster_low (fi_ent inode) = 0"
    and "slot_ok n (content (hw (fs_blk fs))) fs cs (fi_loc inode)" "entry_shape (fi_ent inode)"
    and "0 < unat cnt" "length buf = unat cnt" "unat offset + unat cnt < 2 ^ 31" "length sector = 512"
  shows "\<exists>r inode' fs' ns. fat16_write now sector inode buf cnt offset fs = Some (r, inode', fs') \<and> fs_inv rd wr content good n fs' \<and>
    write_spec (content (hw (fs_blk fs))) (content (hw (fs_blk fs'))) fs inode inode' cs ns buf (unat offset) r"
  using block_driver.write_ok [OF assms] by blast

lemma take_drop_patch: "off + length p \<le> length X \<Longrightarrow> take (length p) (drop off (patch off p X)) = p"
  by (simp add: patch_def)

text \<open>Property C10. Reading at the offset of a successful write, through the inode that the write left behind, returns exactly
  the bytes that were stored.\<close>

theorem fat16_write_read:
  assumes d: "block_driver rd wr content good n" and v: "fs_inv rd wr content good n fs"
    and "\<not> is_dir (fi_ent inode)" "\<not> bd_read_only (fs_dev fs)"
    and "used_chain (fatv (content (hw (fs_blk fs))) fs) (fd_first_cluster_low (fi_ent inode)) cs" and reg: "list_all (in_region fs) cs"
    and "cs = [] \<longrightarrow> fd_first_cluster_low (fi_ent inode) = 0"
    and "slot_ok n (content (hw (fs_blk fs))) fs cs (fi_loc inode)" "entry_shape (fi_ent inode)"
    and "0 < unat cnt" and buf: "length buf = unat cnt" and off: "unat offset + unat cnt < 2 ^ 31" and "length sector = 512"
    and sz: "unat (in_size inode) \<le> length (file_data (content (hw (fs_blk fs))) fs cs)" "unat (in_size inode) < 2 ^ 32"
    and w: "fat16_write now sector inode buf cnt offset fs = Some (r, inode', fs')" "r \<noteq> -1"
  shows "\<exists>fs''. fat16_read inode' (of_int r) offset fs' = Some (r, take (nat r) buf, fs'')"
proof -
  let ?D = "content (hw (fs_blk fs))" and ?D' = "content (hw (fs_blk fs'))"
  obtain ns where ws: "fs_inv rd wr content good n fs'" "same_vol fs fs'" "write_spec ?D ?D' fs inode inode' cs ns buf (unat offset) r"
    using block_driver.write_ok [OF d v assms(3-13), of now] w(1) by auto
  let ?f = "file_data ?D fs (cs @ ns)"
  have s: "grown ?D ?D' fs (fd_first_cluster_low (fi_ent inode')) cs ns" "file_data ?D' fs (cs @ ns) = patch (unat offset) (take (nat r) buf) ?f"
    "0 < r" "r \<le> int (length buf)" "unat offset + nat r \<le> length ?f" "unat (in_size inode') = max (unat (in_size inode)) (unat offset + nat r)"
    using ws(3) w(2) unfolding write_spec_def by blast+
  note sv = same_vol_fns [OF ws(2)] block_driver.same_vol_data [OF d ws(2)]
  have ur: "nat r \<le> unat cnt" using nat_mono [OF s(4)] buf by simp
  then have cr: "unat (of_int r :: u64) = nat r"
    using s(3) off by (simp add: of_nat_nat [symmetric] unat_of_nat_small del: of_nat_nat)
  have len: "length (take (nat r) buf) = nat r" using ur buf by simp
  have lf: "length (patch (unat offset) (take (nat r) buf) ?f) = length ?f" using s(5) len by simp
  have ch: "fat_chain (fatv ?D' fs') (fd_first_cluster_low (fi_ent inode')) (cs @ ns)" "list_all (in_region fs') (cs @ ns)"
    using s(1) reg by (simp_all add: grown_def used_chain_def sv)
  have "unat (in_size inode') \<le> length (file_data ?D' fs' (cs @ ns))" "unat (in_size inode') < 2 ^ 32"
    using s(2,5,6) sz off ur lf by (simp_all add: sv file_data_append)
  moreover have "unat offset < 2 ^ 62" "unat (of_int r :: u64) < 2 ^ 62" using off ur cr by simp_all
  ultimately obtain fs'' where "fat16_read inode' (of_int r) offset fs' =
      (let data = take (nat r) (drop (unat offset) (take (unat (in_size inode')) (file_data ?D' fs' (cs @ ns))))
       in Some (int (length data), data, fs''))"
    using read_file_ok [OF d ws(1) ch, of offset "of_int r"] cr by auto
  moreover have "min (nat r) (unat (in_size inode') - unat offset) = nat r" unfolding s(6) by linarith
  then have "take (nat r) (drop (unat offset) (take (unat (in_size inode')) (file_data ?D' fs' (cs @ ns)))) = take (nat r) buf"
    using take_drop_patch [of "unat offset" "take (nat r) buf" ?f] s(2,5) len by (simp add: sv drop_take)
  ultimately show ?thesis using len s(3) by auto
qed

text \<open>Three bytes written across the border of the two clusters of the demonstration file.\<close>

lemma demo_slot: "slot_ok 8 demo_disk demo_fs [2, 3] (fi_loc demo_file)"
proof -
  have far: "4 \<le> unat (fat16_cluster_to_lba demo_fs k)" if "in_region demo_fs k" for k
    using unat_cluster_lba(3) [of 8 demo_fs k] demo_fs_inv that by (simp add: fs_inv_def fs_base_def) (simp add: demo_fs_def)
  have "ucast (dl_lba (fi_loc demo_file)) \<notin> sectors_of demo_fs k" if "in_region demo_fs k" for k
    using far [OF that] by (simp add: sector_span_def demo_file_def)
  then show ?thesis by (simp add: slot_ok_def) (simp add: demo_file_def demo_fs_def)
qed

lemma demo_used: "used_chain (fatv demo_disk demo_fs) 2 [2, 3]"
  using demo_chain by (simp add: used_chain_def demo_fatv)

lemma demo_file_facts:
  "\<not> is_dir (fi_ent demo_file)" "\<not> bd_read_only (fs_dev demo_fs)" "list_all (in_region demo_fs) [2, 3]"
  "entry_shape (fi_ent demo_file)" "fd_first_cluster_low (fi_ent demo_file) = 2" "in_size demo_file = 600"
  by (simp_all add: demo_file_def is_dir_def zero_entry_def dir_of_def demo_fs_def ram_dev_def in_region_def)

lemmas demo_write_facts = demo_slot demo_used demo_hw demo_file_facts

theorem fat16_write_effect_witness:
  "\<exists>r inode' fs' ns. fat16_write (0, 0) (replicate 512 0) demo_file [1, 2, 3] 3 511 demo_fs = Some (r, inode', fs') \<and> demo_inv fs' \<and>
    write_spec demo_disk (hw (fs_blk fs')) demo_fs demo_file inode' [2, 3] ns [1, 2, 3] 511 r"
  using fat16_write_effect [OF demo_driver demo_fs_inv, of demo_file "[2, 3]" 3 "[1, 2, 3]" 511 "replicate 512 0" "(0, 0)"] demo_write_facts
  by simp

lemma demo_write_full:
  "\<exists>inode' fs'. fat16_write (0, 0) (replicate 512 0) demo_file [1, 2, 3] 3 511 demo_fs = Some (3, inode', fs')"
proof -
  obtain r inode' fs' ns where w: "fat16_write (0, 0) (replicate 512 0) demo_file [1, 2, 3] 3 511 demo_fs = Some (r, inode', fs')"
    "write_spec demo_disk (hw (fs_blk fs')) demo_fs demo_file inode' [2, 3] ns [1, 2, 3] 511 r"
    using block_driver.write_ok [OF demo_driver demo_fs_inv, of demo_file "[2, 3]" 3 "[1, 2, 3]" 511 "replicate 512 0" "(0, 0)"] demo_write_facts
    by auto
  have "1024 \<le> length (file_data demo_disk demo_fs ([2, 3] @ ns))" by (simp add: demo_cluster_data)
  then have "r = 3" using w(2) unfolding write_spec_def by (auto simp del: file_data_simps append_Cons)
  then show ?thesis using w(1) by blast
qed

theorem fat16_write_read_witness:
  "\<exists>inode' fs' fs''. fat16_write (0, 0) (replicate 512 0) demo_file [1, 2, 3] 3 511 demo_fs = Some (3, inode', fs') \<and>
    fat16_read inode' 3 511 fs' = Some (3, [1, 2, 3], fs'')"
proof -
  obtain inode' fs' where w: "fat16_write (0, 0) (replicate 512 0) demo_file [1, 2, 3] 3 511 demo_fs = Some (3, inode', fs')"
    using demo_write_full by blast
  have "\<exists>fs''. fat16_read inode' (of_int 3) 511 fs' = Some (3, take (nat 3) [1, 2, 3], fs'')"
    by (rule fat16_write_read [OF demo_driver demo_fs_inv, of demo_file "[2, 3]", OF _ _ _ _ _ _ _ _ _ _ _ _ _ w])
      (use demo_write_facts in \<open>simp_all add: demo_cluster_data\<close>)
  then show ?thesis using w by auto
qed

end
