(* ===== verification/Vfs_Path.thy ===== *)
theory Vfs_Path
  imports Kstring
begin

text \<open>
  \<^verbatim>\<open>vfs_resolve_path\<close> of \<^verbatim>\<open>src/lizard/vfs.c\<close>: folding a path against a working directory into a clean absolute path.
  A C string is the list of its bytes before the terminator; \<open>tokens\<close> is the sequence of tokens that repeated calls of
  \<^verbatim>\<open>strtok_r\<close> return, which Kstring proves of the code. The output buffer is the list of its bytes.
\<close>

section \<open>The operation\<close>

definition TASK_CWD_MAX :: nat where "TASK_CWD_MAX = 128"

text \<open>Bytes appended to the work buffer, which keeps a place for its terminator.\<close>

fun work_append :: "u8 list \<Rightarrow> u8 list \<Rightarrow> u8 list option" where
  "work_append w [] = Some w"
| "work_append w (c # cs) = (if length w \<ge> TASK_CWD_MAX * 2 - 1 then None else work_append (w @ [c]) cs)"

definition work_path :: "u8 list \<Rightarrow> u8 list \<Rightarrow> u8 list option" where
  "work_path base inp =
     (if inp \<noteq> [] \<and> hd inp = 47 then work_append [] inp
      else do { w \<leftarrow> work_append [] base;
                w \<leftarrow> (if w = [] \<or> last w \<noteq> 47 then work_append w [47] else Some w);
                work_append w inp })"

fun comp_stack :: "u8 list list \<Rightarrow> u8 list list \<Rightarrow> u8 list list option" where
  "comp_stack comps [] = Some comps"
| "comp_stack comps (tok # toks) =
     (if tok = [46] then comp_stack comps toks
      else if tok = [46, 46] then comp_stack (butlast comps) toks
      else if length comps \<ge> TASK_CWD_MAX div 2 then None
      else comp_stack (comps @ [tok]) toks)"

fun emit_path :: "u8 list \<Rightarrow> nat \<Rightarrow> u8 list list \<Rightarrow> bool \<times> u8 list" where
  "emit_path out pos [] = (True, out[pos := 0])"
| "emit_path out pos (c # cs) =
     (if pos + 1 + length c + 1 > length out then (False, out)
      else emit_path (take pos out @ (47 # c) @ drop (pos + 1 + length c) out) (pos + 1 + length c) cs)"

definition vfs_resolve_path :: "u8 list \<Rightarrow> u8 list \<Rightarrow> u8 list \<Rightarrow> bool \<times> u8 list" where
  "vfs_resolve_path base inp out =
     (case work_path base inp of
        None \<Rightarrow> (False, out)
      | Some w \<Rightarrow>
          (case comp_stack [] (tokens [47] w) of
             None \<Rightarrow> (False, out)
           | Some [] \<Rightarrow> if length out < 2 then (False, out) else (True, out[0 := 47, 1 := 0])
           | Some comps \<Rightarrow> emit_path out 0 comps))"

section \<open>Normal paths\<close>

text \<open>The absolute path that a path means, its components after folding, and a normal path as a string.\<close>

definition abs_path :: "u8 list \<Rightarrow> u8 list \<Rightarrow> u8 list" where
  "abs_path base inp = (if inp \<noteq> [] \<and> hd inp = 47 then inp else base @ 47 # inp)"

fun fold_comps :: "u8 list list \<Rightarrow> u8 list list \<Rightarrow> u8 list list" where
  "fold_comps comps [] = comps"
| "fold_comps comps (t # ts) =
     fold_comps (if t = [46] then comps else if t = [46, 46] then butlast comps else comps @ [t]) ts"

definition norm_comps :: "u8 list \<Rightarrow> u8 list list" where
  "norm_comps p = fold_comps [] (tokens [47] p)"

definition path_str :: "u8 list list \<Rightarrow> u8 list" where
  "path_str cs = (if cs = [] then [47] else concat (map (\<lambda>c. 47 # c) cs))"

definition comp_ok :: "u8 list \<Rightarrow> bool" where
  "comp_ok c \<longleftrightarrow> c \<noteq> [] \<and> 47 \<notin> set c \<and> c \<noteq> [46] \<and> c \<noteq> [46, 46]"

lemma tokens_delim: "tokens [47] (47 # s) = tokens [47] s"
  by (subst (1 2) tokens.simps) simp

lemma tokens_Nil [simp]: "tokens ds [] = []"
  by (subst tokens.simps) simp

lemma tokens_word:
  assumes "c \<noteq> []" "47 \<notin> set c" "s = [] \<or> hd s = 47"
  shows "tokens [47] (c @ s) = c # tokens [47] (tl s)"
proof -
  obtain x xs where x: "c = x # xs" "x \<noteq> 47" using assms(1,2) by (cases c) auto
  then have "dropWhile (\<lambda>x. x \<in> set [47]) (c @ s) = c @ s" by simp
  moreover have "takeWhile (\<lambda>x. x \<notin> set [47]) (c @ s) = c @ takeWhile (\<lambda>x. x \<notin> set [47]) s"
    "dropWhile (\<lambda>x. x \<notin> set [47]) (c @ s) = dropWhile (\<lambda>x. x \<notin> set [47]) s"
    using assms(2) by (intro takeWhile_append2 dropWhile_append2; auto)+
  moreover have "takeWhile (\<lambda>x. x \<notin> set [47]) s = []" "dropWhile (\<lambda>x. x \<notin> set [47]) s = s"
    using assms(3) by (cases s; simp)+
  ultimately show ?thesis
    using x by (subst tokens.simps) (simp only: Let_def append_Nil2, simp)
qed

lemma tokens_members:
  assumes "t \<in> set (tokens [47] s)"
  shows "t \<noteq> [] \<and> 47 \<notin> set t"
  using assms
proof (induction "[47] :: u8 list" s rule: tokens.induct)
  case (1 s)
  let ?r = "dropWhile (\<lambda>c. c \<in> set [47]) s"
  show ?case
  proof (cases "?r = []")
    case True
    then show ?thesis using 1(2) unfolding tokens.simps [of _ s] Let_def by simp
  next
    case False
    then obtain x xs where r: "?r = x # xs" by (cases ?r) auto
    have "x \<noteq> 47" using hd_dropWhile [OF False] r by simp
    then have "takeWhile (\<lambda>c. c \<notin> set [47]) ?r \<noteq> []" "47 \<notin> set (takeWhile (\<lambda>c. c \<notin> set [47]) ?r)"
      unfolding r by (auto dest: set_takeWhileD)
    moreover have "tokens [47] s = takeWhile (\<lambda>c. c \<notin> set [47]) ?r # tokens [47] (tl (dropWhile (\<lambda>c. c \<notin> set [47]) ?r))"
      by (subst tokens.simps) (simp only: Let_def False if_False)
    then have "t = takeWhile (\<lambda>c. c \<notin> set [47]) ?r \<or> t \<in> set (tokens [47] (tl (dropWhile (\<lambda>c. c \<notin> set [47]) ?r)))"
      using 1(2) by (simp only: list.set insert_iff)
    ultimately show ?thesis using 1(1) [OF refl False] by metis
  qed
qed

lemma tokens_append: "tokens [47] (xs @ 47 # s) = tokens [47] xs @ tokens [47] s"
proof (induction xs rule: length_induct)
  case (1 xs)
  show ?case
  proof (cases xs)
    case (Cons x ys)
    show ?thesis
    proof (cases "x = 47")
      case True
      then show ?thesis using 1 Cons by (simp add: tokens_delim)
    next
      case False
      let ?w = "takeWhile (\<lambda>c. c \<noteq> 47) xs" and ?r = "dropWhile (\<lambda>c. c \<noteq> 47) xs"
      have w: "?w \<noteq> []" "47 \<notin> set ?w" using False Cons by (auto dest: set_takeWhileD)
      have r: "?r = [] \<or> hd ?r = 47" using hd_dropWhile [of "\<lambda>c. c \<noteq> 47" xs] by auto
      have xs: "xs = ?w @ ?r" by simp
      have "tokens [47] xs = ?w # tokens [47] (tl ?r)" using tokens_word [OF w r] xs by simp
      moreover have "tokens [47] (xs @ 47 # s) = ?w # tokens [47] (tl (?r @ 47 # s))"
      proof -
        have "xs @ 47 # s = ?w @ ?r @ 47 # s" by (simp flip: append_assoc)
        moreover have "?r @ 47 # s = [] \<or> hd (?r @ 47 # s) = 47" unfolding hd_append using r by auto
        ultimately show ?thesis using tokens_word [OF w] by metis
      qed
      moreover have "tokens [47] (tl (?r @ 47 # s)) = tokens [47] (tl ?r) @ tokens [47] s"
      proof (cases ?r)
        case r: (Cons y zs)
        have "length zs < length xs" using r length_dropWhile_le [of "\<lambda>c. c \<noteq> 47" xs] by simp
        then show ?thesis using 1 r by simp
      next
        case Nil
        then show ?thesis by (simp only: append_Nil list.sel tokens_Nil)
      qed
      ultimately show ?thesis by simp
    qed
  qed (simp add: tokens_delim)
qed

lemma tokens_path_str: "list_all comp_ok cs \<Longrightarrow> tokens [47] (path_str cs) = cs"
proof (induction cs)
  case (Cons c cs)
  have c: "c \<noteq> []" "47 \<notin> set c" using Cons.prems by (simp_all add: comp_ok_def)
  let ?s = "concat (map (\<lambda>c. 47 # c) cs)"
  have "tokens [47] (tl ?s) = cs"
  proof (cases cs)
    case (Cons d ds)
    then have "tokens [47] (tl ?s) = tokens [47] (path_str cs)" by (simp add: path_str_def tokens_delim)
    then show ?thesis using Cons.IH Cons.prems by simp
  qed simp
  moreover have "?s = [] \<or> hd ?s = 47" by (cases cs) simp_all
  ultimately show ?case using tokens_word [OF c, of ?s] by (simp add: path_str_def tokens_delim)
qed (simp add: path_str_def tokens_delim)

section \<open>The stack of components\<close>

lemma fold_comps_ok:
  "list_all comp_ok comps \<Longrightarrow> (\<And>t. t \<in> set ts \<Longrightarrow> t \<noteq> [] \<and> 47 \<notin> set t) \<Longrightarrow> list_all comp_ok (fold_comps comps ts)"
proof (induction ts arbitrary: comps)
  case (Cons t ts)
  have "list_all comp_ok (butlast comps)" using Cons.prems(1) by (auto simp: list_all_iff dest: in_set_butlastD)
  then have "list_all comp_ok (if t = [46] then comps else if t = [46, 46] then butlast comps else comps @ [t])"
    using Cons.prems(1) Cons.prems(2) [of t] by (simp add: comp_ok_def [of t])
  from Cons.IH [OF this] show ?case using Cons.prems(2) by simp
qed simp

lemma fold_comps_normal: "list_all comp_ok ts \<Longrightarrow> fold_comps comps ts = comps @ ts"
  by (induction ts arbitrary: comps) (auto simp: comp_ok_def)

lemma norm_comps_ok: "list_all comp_ok (norm_comps p)"
  unfolding norm_comps_def using tokens_members by (intro fold_comps_ok) auto

lemma norm_comps_path_str: "list_all comp_ok cs \<Longrightarrow> norm_comps (path_str cs) = cs"
  by (simp add: norm_comps_def tokens_path_str fold_comps_normal)

lemma comp_stack_fold: "comp_stack comps ts = Some cs \<Longrightarrow> cs = fold_comps comps ts"
  by (induction comps ts rule: comp_stack.induct) (auto split: if_splits)

text \<open>No more components than tokens are ever on the stack.\<close>

lemma comp_stack_bound: "length comps + length ts \<le> TASK_CWD_MAX div 2 \<Longrightarrow> comp_stack comps ts = Some (fold_comps comps ts)"
  by (induction comps ts rule: comp_stack.induct) auto

section \<open>The work buffer\<close>

lemma work_append_eq: "work_append w cs = (if cs = [] \<or> length w + length cs \<le> 255 then Some (w @ cs) else None)"
  by (induction w cs rule: work_append.induct) (auto simp: TASK_CWD_MAX_def)

lemma work_path_tokens:
  assumes "work_path base inp = Some w"
  shows "tokens [47] w = tokens [47] (abs_path base inp)"
proof (cases "inp \<noteq> [] \<and> hd inp = 47")
  case True
  then show ?thesis using assms by (auto simp: work_path_def abs_path_def work_append_eq split: if_splits)
next
  case False
  then have "abs_path base inp = base @ 47 # inp" by (auto simp: abs_path_def)
  then have a: "tokens [47] (abs_path base inp) = tokens [47] base @ tokens [47] inp" by (simp add: tokens_append)
  show ?thesis
  proof (cases "base = [] \<or> last base \<noteq> 47")
    case True
    then have "w = base @ 47 # inp" using assms False by (auto simp: work_path_def work_append_eq split: if_splits)
    then show ?thesis using a tokens_append by simp
  next
    case b: False
    then obtain b' where b': "base = b' @ [47]" by (metis append_butlast_last_id)
    have "w = base @ inp" using assms False b by (auto simp: work_path_def work_append_eq split: if_splits)
    then have "tokens [47] w = tokens [47] (b' @ [47]) @ tokens [47] inp"
      using b' tokens_append [of b' inp] tokens_append [of b' "[]"] by simp
    then show ?thesis using a b' by simp
  qed
qed

section \<open>The output buffer\<close>

lemma emit_path_ok:
  assumes "pos + length (concat (map (\<lambda>c. 47 # c) cs)) + 1 \<le> length out"
  shows "emit_path out pos cs = (True, take pos out @ concat (map (\<lambda>c. 47 # c) cs) @ 0 # drop (pos + length (concat (map (\<lambda>c. 47 # c) cs)) + 1) out)"
  using assms
proof (induction cs arbitrary: pos out)
  case Nil
  then show ?case by (simp add: upd_conv_take_nth_drop)
next
  case (Cons c cs)
  then show ?case by (simp add: Cons.IH ac_simps)
qed

lemma emit_path_fails:
  assumes "pos + length (concat (map (\<lambda>c. 47 # c) cs)) + 1 > length out" "pos < length out"
  shows "fst (emit_path out pos cs) = False"
  using assms
proof (induction cs arbitrary: pos out)
  case (Cons c cs)
  then show ?case by (auto simp: add.assoc)
qed simp

lemma length_emit_path: "length (snd (emit_path out pos cs)) = length out"
  by (induction out pos cs rule: emit_path.induct) auto

lemma work_path_fails: "work_path base inp = None \<Longrightarrow> 255 < length (abs_path base inp)"
  by (auto simp: work_path_def abs_path_def work_append_eq split: if_splits)

section \<open>What path resolution promises\<close>

text \<open>Property C12. A resolved path is the normal form of the path taken from the working directory: absolute, with no empty,
  dot or dot-dot component, terminated, and nothing behind the terminator is changed. Resolving it again from any directory
  gives the same components. Resolution fails only for a path above 255 bytes, one of more than 64 components, or a result that
  does not fit the buffer.\<close>

theorem vfs_resolve_path_spec:
  "case vfs_resolve_path base inp out of (ok, out') \<Rightarrow>
     let p = abs_path base inp; cs = norm_comps p in
     length out' = length out \<and>
     (if ok then list_all comp_ok cs \<and> length (path_str cs) < length out \<and> out' = path_str cs @ 0 # drop (length (path_str cs) + 1) out \<and>
        (\<forall>base'. norm_comps (abs_path base' (path_str cs)) = cs)
      else 255 < length p \<or> 64 < length (tokens [47] p) \<or> length out \<le> length (path_str cs))"
proof -
  let ?p = "abs_path base inp"
  let ?cs = "norm_comps ?p"
  have again: "norm_comps (abs_path base' (path_str ?cs)) = ?cs" for base'
  proof -
    have "abs_path base' (path_str ?cs) = path_str ?cs" by (cases ?cs) (simp_all add: abs_path_def path_str_def)
    then show ?thesis using norm_comps_path_str [OF norm_comps_ok] by simp
  qed
  show ?thesis
  proof (cases "work_path base inp")
    case None
    then show ?thesis using work_path_fails by (simp add: vfs_resolve_path_def Let_def)
  next
    case (Some w)
    note w = work_path_tokens [OF Some]
    show ?thesis
    proof (cases "comp_stack [] (tokens [47] w)")
      case None
      have "\<not> length (tokens [47] ?p) \<le> 64"
      proof
        assume "length (tokens [47] ?p) \<le> 64"
        then show False using comp_stack_bound [of "[]" "tokens [47] w"] None w by (simp add: TASK_CWD_MAX_def)
      qed
      then show ?thesis using Some None by (simp add: vfs_resolve_path_def Let_def)
    next
      case cs: (Some cs)
      then have eq: "cs = ?cs" using comp_stack_fold w by (simp add: norm_comps_def)
      show ?thesis
      proof (cases cs)
        case Nil
        then have n: "?cs = []" using eq by simp
        have run: "vfs_resolve_path base inp out = (if length out < 2 then (False, out) else (True, out[0 := 47, 1 := 0]))"
          using Some cs Nil by (simp add: vfs_resolve_path_def)
        show ?thesis
        proof (cases "length out < 2")
          case False
          then obtain a b r where "out = a # b # r" by (cases out; cases "tl out") auto
          then show ?thesis unfolding run using again n by (simp add: path_str_def Let_def)
        qed (simp add: run n path_str_def Let_def)
      next
        case (Cons c ds)
        then have ne: "?cs \<noteq> []" using eq by simp
        have run: "vfs_resolve_path base inp out = emit_path out 0 ?cs"
          using Some cs Cons eq by (simp add: vfs_resolve_path_def split: list.splits)
        have ps: "path_str ?cs = concat (map (\<lambda>c. 47 # c) ?cs)" using ne by (simp add: path_str_def)
        show ?thesis
        proof (cases "length (path_str ?cs) < length out")
          case True
          then have "emit_path out 0 ?cs = (True, path_str ?cs @ 0 # drop (length (path_str ?cs) + 1) out)"
            using emit_path_ok [of 0 ?cs out] ps by simp
          then show ?thesis unfolding run using again True norm_comps_ok by (simp add: Let_def)
        next
          case False
          have "fst (emit_path out 0 ?cs) = False"
            using emit_path_fails [of out 0 ?cs] False ps Cons eq by (cases out) auto
          then show ?thesis
            unfolding run using False length_emit_path [of out 0 ?cs] by (cases "emit_path out 0 ?cs") (simp add: Let_def)
        qed
      qed
    qed
  qed
qed

end
