(* ===== verification/Vfs.thy ===== *)
theory Vfs
  imports Vfs_Path Fat16 Blkdev_Manager
begin

text \<open>
  The virtual file system: \<^verbatim>\<open>src/lizard/dentry.c\<close>, \<^verbatim>\<open>src/lizard/fs.c\<close>, \<^verbatim>\<open>src/lizard/vfs.c\<close> and
  \<^verbatim>\<open>src/lizard/vfs_helper.c\<close>. Dentries, inodes and open files are objects at addresses of the kernel heap; using one that has
  been released is a fault (\<open>None\<close>). FAT16 is the only file system, so every inode carries the operation tables of fat16.c and the
  tests for missing operations succeed. A list of children is the sequence of its elements, which Klist justifies.
\<close>

section \<open>State\<close>

definition NAME_MAX :: nat where "NAME_MAX = 255"

record dentry =
  d_name :: "u8 list"
  d_children :: "vaddr list"
  d_parent :: vaddr
  d_inode :: vaddr
  d_refcount :: int

record vfile =
  f_inode :: vaddr
  f_offset :: u64
  f_flags :: u32
  f_private :: vaddr

record fs_type =
  ft_ptr :: vaddr
  ft_name :: "u8 list"

record 'h vfs =
  v_dentries :: "vaddr \<rightharpoonup> dentry"
  v_inodes :: "vaddr \<rightharpoonup> fat16_inode"
  v_files :: "vaddr \<rightharpoonup> vfile"
  v_types :: "fs_type list"
  v_type_count :: int
  v_root :: vaddr
  v_fs :: "'h fat16"
  v_mem :: mem
  v_now :: "u16 \<times> u16"

abbreviation sizeof_dentry :: u64 where "sizeof_dentry \<equiv> 336"
abbreviation sizeof_file :: u64 where "sizeof_file \<equiv> 32"

section \<open>fs.c\<close>

primrec fs_find_locked :: "u8 list \<Rightarrow> fs_type list \<Rightarrow> fs_type option" where
  "fs_find_locked name [] = None"
| "fs_find_locked name (t # ts) = (if ft_name t = name then Some t else fs_find_locked name ts)"

definition fs_register :: "fs_type option \<Rightarrow> 'h vfs \<Rightarrow> int \<times> 'h vfs" where
  "fs_register t s =
     (case t of
        None \<Rightarrow> (0, s)
      | Some t \<Rightarrow>
          if ft_name t = [] then (0, s)
          else if fs_find_locked (ft_name t) (v_types s) \<noteq> None then (-1, s)
          else (0, s\<lparr>v_types := t # v_types s, v_type_count := v_type_count s + 1\<rparr>))"

text \<open>Unlinking a type that is not on the list follows pointers that were never set: a fault.\<close>

definition fs_unregister :: "fs_type option \<Rightarrow> 'h vfs \<Rightarrow> (int \<times> 'h vfs) option" where
  "fs_unregister t s =
     (case t of
        None \<Rightarrow> Some (0, s)
      | Some t \<Rightarrow> if t \<in> set (v_types s) then Some (0, s\<lparr>v_types := remove1 t (v_types s), v_type_count := v_type_count s - 1\<rparr>) else None)"

definition fs_find :: "u8 list \<Rightarrow> 'h vfs \<Rightarrow> fs_type option" where
  "fs_find name s = fs_find_locked name (v_types s)"

definition fs_type_count :: "'h vfs \<Rightarrow> int" where
  "fs_type_count s = v_type_count s"

definition fs_detect :: "'h block_dev \<Rightarrow> 'h vfs \<Rightarrow> fs_type option" where
  "fs_detect dev s = (case v_types s of [] \<Rightarrow> None | t # _ \<Rightarrow> Some t)"

section \<open>dentry.c\<close>

definition dentry_alloc :: "u64 \<Rightarrow> u8 list \<Rightarrow> 'h vfs \<Rightarrow> (vaddr \<times> 'h vfs) option" where
  "dentry_alloc hhdm name s =
     do { (d, m) \<leftarrow> zalloc hhdm sizeof_dentry (v_mem s);
          let s = s\<lparr>v_mem := m\<rparr>;
          if d = 0 then Some (0, s)
          else Some (d, s\<lparr>v_dentries := (v_dentries s)(d \<mapsto> \<lparr>d_name = take (NAME_MAX - 1) name, d_children = [], d_parent = 0,
                                                            d_inode = 0, d_refcount = 1\<rparr>)\<rparr>) }"

definition dentry_get :: "vaddr \<Rightarrow> 'h vfs \<Rightarrow> 'h vfs option" where
  "dentry_get d s =
     (if d = 0 then Some s
      else do { e \<leftarrow> v_dentries s d; Some (s\<lparr>v_dentries := (v_dentries s)(d \<mapsto> e\<lparr>d_refcount := d_refcount e + 1\<rparr>)\<rparr>) })"

definition dentry_put :: "u64 \<Rightarrow> vaddr \<Rightarrow> 'h vfs \<Rightarrow> 'h vfs option" where
  "dentry_put hhdm d s =
     (if d = 0 then Some s
      else do { e \<leftarrow> v_dentries s d;
                if d_refcount e - 1 = 0
                then do { m \<leftarrow> mem_free hhdm d (v_mem s); Some (s\<lparr>v_dentries := (v_dentries s)(d := None), v_mem := m\<rparr>) }
                else Some (s\<lparr>v_dentries := (v_dentries s)(d \<mapsto> e\<lparr>d_refcount := d_refcount e - 1\<rparr>)\<rparr>) })"

definition dentry_add :: "vaddr \<Rightarrow> vaddr \<Rightarrow> 'h vfs \<Rightarrow> 'h vfs option" where
  "dentry_add parent child s =
     (if parent = 0 \<or> child = 0 then Some s
      else do { p \<leftarrow> v_dentries s parent;
                let s = s\<lparr>v_dentries := (v_dentries s)(parent \<mapsto> p\<lparr>d_children := d_children p @ [child]\<rparr>)\<rparr>;
                c \<leftarrow> v_dentries s child;
                Some (s\<lparr>v_dentries := (v_dentries s)(child \<mapsto> c\<lparr>d_parent := parent\<rparr>)\<rparr>) })"

primrec find_child :: "(vaddr \<rightharpoonup> dentry) \<Rightarrow> u8 list \<Rightarrow> vaddr list \<Rightarrow> vaddr option" where
  "find_child ds name [] = Some 0"
| "find_child ds name (c # cs) = do { e \<leftarrow> ds c; if d_name e = name then Some c else find_child ds name cs }"

definition dentry_lookup :: "vaddr \<Rightarrow> u8 list \<Rightarrow> 'h vfs \<Rightarrow> (vaddr \<times> 'h vfs) option" where
  "dentry_lookup parent name s =
     (if parent = 0 then Some (0, s)
      else do { p \<leftarrow> v_dentries s parent;
                d \<leftarrow> find_child (v_dentries s) name (d_children p);
                s \<leftarrow> dentry_get d s;
                Some (d, s) })"

section \<open>Calls into the file system\<close>

text \<open>The result of an inode operation on a dentry: the volume, the heap and, on success, the inode of the dentry.\<close>

definition attach_inode :: "vaddr \<Rightarrow> fat16_inode option \<times> 'h fat16 \<times> mem \<Rightarrow> 'h vfs \<Rightarrow> (bool \<times> 'h vfs) option" where
  "attach_inode d r s =
     (case r of (i, fs, m) \<Rightarrow>
        let s = s\<lparr>v_fs := fs, v_mem := m\<rparr> in
        case i of
          None \<Rightarrow> Some (False, s)
        | Some i \<Rightarrow>
            do { e \<leftarrow> v_dentries s d;
                 Some (True, s\<lparr>v_dentries := (v_dentries s)(d \<mapsto> e\<lparr>d_inode := in_ptr i\<rparr>), v_inodes := (v_inodes s)(in_ptr i \<mapsto> i)\<rparr>) })"

definition vfs_get_root :: "'h vfs \<Rightarrow> (vaddr \<times> 'h vfs) option" where
  "vfs_get_root s = do { s \<leftarrow> dentry_get (v_root s) s; Some (v_root s, s) }"

definition vfs_lookup :: "u64 \<Rightarrow> vaddr \<Rightarrow> u8 list \<Rightarrow> 'h vfs \<Rightarrow> (vaddr \<times> 'h vfs) option" where
  "vfs_lookup hhdm parent name s =
     do { (d, s) \<leftarrow> dentry_lookup parent name s;
          if d \<noteq> 0 then Some (d, s)
          else do { (d, s) \<leftarrow> dentry_alloc hhdm name s;
                    if d = 0 then Some (0, s)
                    else do { p \<leftarrow> v_dentries s parent;
                              e \<leftarrow> v_dentries s d;
                              (found, s) \<leftarrow>
                                (if d_inode p = 0 then Some (False, s)
                                 else do { pi \<leftarrow> v_inodes s (d_inode p);
                                           r \<leftarrow> fat16_lookup hhdm pi (d_name e) (v_fs s) (v_mem s);
                                           attach_inode d r s });
                              if found
                              then do { s \<leftarrow> dentry_add parent d s; s \<leftarrow> dentry_get d s; Some (d, s) }
                              else do { s \<leftarrow> dentry_put hhdm d s; Some (0, s) } } } }"

section \<open>Paths\<close>

lemma skip_shorter:
  assumes "path \<noteq> []" "0 < n"
  shows "length (dropWhile (\<lambda>c. c = 47) (drop (min (length (takeWhile (\<lambda>c. c \<noteq> 47) path)) n) path)) < length path"
proof -
  obtain x xs where p: "path = x # xs" using assms(1) by (cases path) auto
  let ?k = "min (length (takeWhile (\<lambda>c. c \<noteq> 47) path)) n"
  show ?thesis
  proof (cases "x = 47")
    case True
    then show ?thesis using p length_dropWhile_le [of "\<lambda>c. c = 47" xs] by simp
  next
    case False
    then have "0 < ?k" using p assms(2) by simp
    then have "length (drop ?k path) < length path" using p by simp
    then show ?thesis using length_dropWhile_le le_less_trans by blast
  qed
qed

text \<open>The loop of \<^verbatim>\<open>vfs_path_lookup\<close>: the next component holds at most 254 bytes.\<close>

function path_walk :: "u64 \<Rightarrow> vaddr \<Rightarrow> u8 list \<Rightarrow> 'h vfs \<Rightarrow> (vaddr \<times> 'h vfs) option" where
  "path_walk hhdm cur path s =
     (if path = [] then Some (cur, s)
      else let name = take (NAME_MAX - 1) (takeWhile (\<lambda>c. c \<noteq> 47) path);
               rest = dropWhile (\<lambda>c. c = 47) (drop (length name) path)
           in case vfs_lookup hhdm cur name s of
                None \<Rightarrow> None
              | Some (next, s) \<Rightarrow>
                  (case dentry_put hhdm cur s of
                     None \<Rightarrow> None
                   | Some s \<Rightarrow> if next = 0 then Some (0, s) else path_walk hhdm next rest s))"
  by pat_completeness auto
termination
  by (relation "measure (\<lambda>(_, _, path, _). length path)") (auto simp: NAME_MAX_def intro!: skip_shorter)

declare path_walk.simps [simp del]

definition vfs_path_lookup :: "u64 \<Rightarrow> u8 list \<Rightarrow> 'h vfs \<Rightarrow> (vaddr \<times> 'h vfs) option" where
  "vfs_path_lookup hhdm path s =
     (if path = [] then Some (0, s)
      else do { (cur, s) \<leftarrow> vfs_get_root s;
                let path = dropWhile (\<lambda>c. c = 47) path;
                if path = [] then Some (cur, s) else path_walk hhdm cur path s })"

lemma seg_shorter:
  "takeWhile (\<lambda>c. c \<noteq> 47) seg \<noteq> [] \<Longrightarrow> length (dropWhile (\<lambda>c. c = 47) (dropWhile (\<lambda>c. c \<noteq> 47) seg)) < length seg" for seg :: "u8 list"
proof -
  assume "takeWhile (\<lambda>c. c \<noteq> 47) seg \<noteq> []"
  then have "length (dropWhile (\<lambda>c. c \<noteq> 47) seg) < length seg"
    by (cases seg) (auto split: if_splits simp: less_Suc_eq_le length_dropWhile_le)
  then show ?thesis using length_dropWhile_le le_less_trans by blast
qed

text \<open>The loop of \<^verbatim>\<open>vfs_lookup_parent\<close>; the result is the parent and the last component, or 0.\<close>

function parent_walk :: "u64 \<Rightarrow> vaddr \<Rightarrow> u8 list \<Rightarrow> 'h vfs \<Rightarrow> (vaddr \<times> u8 list \<times> 'h vfs) option" where
  "parent_walk hhdm cur seg s =
     (let name = takeWhile (\<lambda>c. c \<noteq> 47) seg; rest = dropWhile (\<lambda>c. c = 47) (dropWhile (\<lambda>c. c \<noteq> 47) seg) in
      if name = [] \<or> length name \<ge> NAME_MAX
      then (case dentry_put hhdm cur s of None \<Rightarrow> None | Some s \<Rightarrow> Some (0, [], s))
      else if rest = [] then Some (cur, name, s)
      else case vfs_lookup hhdm cur name s of
             None \<Rightarrow> None
           | Some (child, s) \<Rightarrow>
               (case dentry_put hhdm cur s of
                  None \<Rightarrow> None
                | Some s \<Rightarrow> if child = 0 then Some (0, [], s) else parent_walk hhdm child rest s))"
  by pat_completeness auto
termination
  by (relation "measure (\<lambda>(_, _, seg, _). length seg)") (auto intro!: seg_shorter)

declare parent_walk.simps [simp del]

definition vfs_lookup_parent :: "u64 \<Rightarrow> u8 list \<Rightarrow> 'h vfs \<Rightarrow> (vaddr \<times> u8 list \<times> 'h vfs) option" where
  "vfs_lookup_parent hhdm path s =
     (if path = [] \<or> hd path \<noteq> 47 then Some (0, [], s)
      else let path = dropWhile (\<lambda>c. c = 47) path in
           if path = [] then Some (0, [], s)
           else do { (cur, s) \<leftarrow> vfs_get_root s; parent_walk hhdm cur path s })"

section \<open>Creating and removing\<close>

definition vfs_mknod :: "u64 \<Rightarrow> u8 list \<Rightarrow> bool \<Rightarrow> 'h vfs \<Rightarrow> (int \<times> 'h vfs) option" where
  "vfs_mknod hhdm path dir s =
     do { (parent, leaf, s) \<leftarrow> vfs_lookup_parent hhdm path s;
          if parent = 0 then Some (-1, s)
          else do { p \<leftarrow> v_dentries s parent;
                    (rc, s) \<leftarrow>
                      (if d_inode p = 0 then Some (-1, s)
                       else do { (hit, s) \<leftarrow> dentry_lookup parent leaf s;
                                 if hit \<noteq> 0 then Some (-1, s)
                                 else do { (d, s) \<leftarrow> dentry_alloc hhdm leaf s;
                                           if d = 0 then Some (-1, s)
                                           else do { pi \<leftarrow> v_inodes s (d_inode p);
                                                     e \<leftarrow> v_dentries s d;
                                                     r \<leftarrow> (if dir then fat16_mkdir hhdm (v_now s) pi (d_name e) (v_fs s) (v_mem s)
                                                          else fat16_create hhdm (v_now s) pi (d_name e) (v_fs s) (v_mem s));
                                                     (ok, s) \<leftarrow> attach_inode d r s;
                                                     if ok then do { s \<leftarrow> dentry_add parent d s; Some (0, s) }
                                                     else do { s \<leftarrow> dentry_put hhdm d s; Some (-1, s) } } } });
                    s \<leftarrow> dentry_put hhdm parent s;
                    Some (rc, s) } }"

definition vfs_create :: "u64 \<Rightarrow> u8 list \<Rightarrow> 'h vfs \<Rightarrow> (int \<times> 'h vfs) option" where
  "vfs_create hhdm path s = vfs_mknod hhdm path False s"

definition vfs_mkdir :: "u64 \<Rightarrow> u8 list \<Rightarrow> 'h vfs \<Rightarrow> (int \<times> 'h vfs) option" where
  "vfs_mkdir hhdm path s = vfs_mknod hhdm path True s"

text \<open>Dropping a removed name from the cache: \<^verbatim>\<open>list_del\<close> takes the dentry out of the children of its parent.\<close>

definition uncache :: "u64 \<Rightarrow> vaddr \<Rightarrow> u8 list \<Rightarrow> 'h vfs \<Rightarrow> 'h vfs option" where
  "uncache hhdm parent leaf s =
     do { (cached, s) \<leftarrow> dentry_lookup parent leaf s;
          if cached = 0 then Some s
          else do { p \<leftarrow> v_dentries s parent;
                    let s = s\<lparr>v_dentries := (v_dentries s)(parent \<mapsto> p\<lparr>d_children := remove1 cached (d_children p)\<rparr>)\<rparr>;
                    s \<leftarrow> dentry_put hhdm cached s;
                    dentry_put hhdm cached s } }"

definition vfs_remove :: "u64 \<Rightarrow> u8 list \<Rightarrow> bool \<Rightarrow> 'h vfs \<Rightarrow> (int \<times> 'h vfs) option" where
  "vfs_remove hhdm path dir s =
     do { (parent, leaf, s) \<leftarrow> vfs_lookup_parent hhdm path s;
          if parent = 0 then Some (-1, s)
          else do { p \<leftarrow> v_dentries s parent;
                    (rc, s) \<leftarrow>
                      (if d_inode p = 0 then Some (-1, s)
                       else do { (d, s) \<leftarrow> dentry_alloc hhdm leaf s;
                                 if d = 0 then Some (-1, s)
                                 else do { pi \<leftarrow> v_inodes s (d_inode p);
                                           e \<leftarrow> v_dentries s d;
                                           (ok, fs) \<leftarrow> (if dir then fat16_rmdir pi (d_name e) (v_fs s) else fat16_unlink pi (d_name e) (v_fs s));
                                           let s = s\<lparr>v_fs := fs\<rparr>;
                                           s \<leftarrow> (if ok then uncache hhdm parent leaf s else Some s);
                                           s \<leftarrow> dentry_put hhdm d s;
                                           Some (if ok then 0 else -1, s) } });
                    s \<leftarrow> dentry_put hhdm parent s;
                    Some (rc, s) } }"

definition vfs_unlink :: "u64 \<Rightarrow> u8 list \<Rightarrow> 'h vfs \<Rightarrow> (int \<times> 'h vfs) option" where
  "vfs_unlink hhdm path s = vfs_remove hhdm path False s"

definition vfs_rmdir :: "u64 \<Rightarrow> u8 list \<Rightarrow> 'h vfs \<Rightarrow> (int \<times> 'h vfs) option" where
  "vfs_rmdir hhdm path s = vfs_remove hhdm path True s"

section \<open>Open files\<close>

definition O_WRONLY :: u32 where "O_WRONLY = 1"
definition O_RDWR :: u32 where "O_RDWR = 2"
definition O_CREAT :: u32 where "O_CREAT = 0x40"
definition O_TRUNC :: u32 where "O_TRUNC = 0x200"
definition O_APPEND :: u32 where "O_APPEND = 0x400"

text \<open>The part of \<^verbatim>\<open>vfs_open\<close> behind the look-up: truncation and the open file.\<close>

definition open_dentry :: "u64 \<Rightarrow> vaddr \<Rightarrow> u32 \<Rightarrow> 'h vfs \<Rightarrow> (vaddr \<times> 'h vfs) option" where
  "open_dentry hhdm d flags s =
     do { e \<leftarrow> v_dentries s d;
          if d_inode e = 0 then do { s \<leftarrow> dentry_put hhdm d s; Some (0, s) }
          else do { i \<leftarrow> v_inodes s (d_inode e);
                    (ok, s) \<leftarrow>
                      (if flags AND O_TRUNC \<noteq> 0 \<and> flags AND (O_WRONLY OR O_RDWR) \<noteq> 0
                       then do { (ok, i, fs) \<leftarrow> fat16_truncate (v_now s) i 0 (v_fs s);
                                 Some (ok, s\<lparr>v_inodes := (v_inodes s)(d_inode e \<mapsto> i), v_fs := fs\<rparr>) }
                       else Some (True, s));
                    if \<not> ok then do { s \<leftarrow> dentry_put hhdm d s; Some (0, s) }
                    else do { (f, m) \<leftarrow> zalloc hhdm sizeof_file (v_mem s);
                              let s = s\<lparr>v_mem := m\<rparr>;
                              if f = 0 then do { s \<leftarrow> dentry_put hhdm d s; Some (0, s) }
                              else if fat16_open i \<noteq> 0
                              then do { s \<leftarrow> dentry_put hhdm d s; m \<leftarrow> mem_free hhdm f (v_mem s); Some (0, s\<lparr>v_mem := m\<rparr>) }
                              else Some (f, s\<lparr>v_files := (v_files s)(f \<mapsto> \<lparr>f_inode = d_inode e, f_offset = 0, f_flags = flags,
                                                                         f_private = d\<rparr>)\<rparr>) } } }"

definition vfs_open :: "u64 \<Rightarrow> u8 list \<Rightarrow> u32 \<Rightarrow> 'h vfs \<Rightarrow> (vaddr \<times> 'h vfs) option" where
  "vfs_open hhdm path flags s =
     do { (d, s) \<leftarrow> vfs_path_lookup hhdm path s;
          (d, s) \<leftarrow> (if d = 0 \<and> flags AND O_CREAT \<noteq> 0
                     then do { (rc, s) \<leftarrow> vfs_create hhdm path s;
                               if rc \<noteq> 0 then Some (0, s) else vfs_path_lookup hhdm path s }
                     else Some (d, s));
          if d = 0 then Some (0, s) else open_dentry hhdm d flags s }"

definition vfs_close :: "u64 \<Rightarrow> vaddr \<Rightarrow> 'h vfs \<Rightarrow> 'h vfs option" where
  "vfs_close hhdm f s =
     (if f = 0 then Some s
      else do { file \<leftarrow> v_files s f;
                s \<leftarrow> (if f_private file \<noteq> 0 then dentry_put hhdm (f_private file) s else Some s);
                m \<leftarrow> mem_free hhdm f (v_mem s);
                Some (s\<lparr>v_mem := m, v_files := (v_files s)(f := None)\<rparr>) })"

definition vfs_read :: "vaddr \<Rightarrow> u64 \<Rightarrow> 'h vfs \<Rightarrow> (int \<times> u8 list \<times> 'h vfs) option" where
  "vfs_read f cnt s =
     (if f = 0 then Some (-1, [], s)
      else do { file \<leftarrow> v_files s f;
                if f_inode file = 0 then Some (-1, [], s)
                else do { i \<leftarrow> v_inodes s (f_inode file);
                          (n, buf, fs) \<leftarrow> fat16_read i cnt (f_offset file) (v_fs s);
                          let file = (if n > 0 then file\<lparr>f_offset := f_offset file + of_int n\<rparr> else file);
                          Some (n, buf, s\<lparr>v_fs := fs, v_files := (v_files s)(f \<mapsto> file)\<rparr>) } })"

definition vfs_write :: "u8 list \<Rightarrow> vaddr \<Rightarrow> u8 list \<Rightarrow> u64 \<Rightarrow> 'h vfs \<Rightarrow> (int \<times> 'h vfs) option" where
  "vfs_write sector f buf cnt s =
     (if f = 0 then Some (-1, s)
      else do { file \<leftarrow> v_files s f;
                if f_inode file = 0 then Some (-1, s)
                else do { i \<leftarrow> v_inodes s (f_inode file);
                          let file = (if f_flags file AND O_APPEND \<noteq> 0 then file\<lparr>f_offset := in_size i\<rparr> else file);
                          (n, i, fs) \<leftarrow> fat16_write (v_now s) sector i buf cnt (f_offset file) (v_fs s);
                          let file = (if n > 0 then file\<lparr>f_offset := f_offset file + of_int n\<rparr> else file);
                          Some (n, s\<lparr>v_fs := fs, v_inodes := (v_inodes s)(f_inode file \<mapsto> i), v_files := (v_files s)(f \<mapsto> file)\<rparr>) } })"

text \<open>The result is the address of the buffer with its bytes, or nothing. Reading into a missing buffer is a fault.\<close>

definition vfs_read_all :: "u64 \<Rightarrow> u8 list \<Rightarrow> 'h vfs \<Rightarrow> ((vaddr \<times> u8 list) option \<times> 'h vfs) option" where
  "vfs_read_all hhdm path s =
     do { (d, s) \<leftarrow> vfs_path_lookup hhdm path s;
          if d = 0 then Some (None, s)
          else do { e \<leftarrow> v_dentries s d;
                    if d_inode e = 0 then do { s \<leftarrow> dentry_put hhdm d s; Some (None, s) }
                    else do { i \<leftarrow> v_inodes s (d_inode e);
                              (p, m) \<leftarrow> zalloc hhdm (in_size i) (v_mem s);
                              (n, buf, fs) \<leftarrow> fat16_read i (in_size i) 0 (v_fs s);
                              let s = s\<lparr>v_fs := fs, v_mem := m\<rparr>;
                              if p = 0 \<and> buf \<noteq> [] then None
                              else if n \<noteq> sint (in_size i)
                              then do { m \<leftarrow> mem_free hhdm p (v_mem s); s \<leftarrow> dentry_put hhdm d (s\<lparr>v_mem := m\<rparr>); Some (None, s) }
                              else do { s \<leftarrow> dentry_put hhdm d s; Some (Some (p, buf), s) } } } }"

section \<open>The root file system\<close>

text \<open>\<^verbatim>\<open>setup_root\<close> keeps the device name of the command line; a name by identifier is a panic.\<close>

definition setup_root :: "u8 list \<Rightarrow> u8 list option" where
  "setup_root dev_str =
     (if take 5 dev_str = [85, 85, 73, 68, 61] then None
      else if take 9 dev_str = [80, 65, 82, 84, 85, 85, 73, 68, 61] then None
      else if take 6 dev_str = [76, 65, 66, 69, 76, 61] then None
      else Some (take 63 dev_str))"

text \<open>\<^verbatim>\<open>set_root\<close> mounts the root device: \<open>None\<close> is a panic. The root dentry is its own parent.\<close>

abbreviation sizeof_super_block :: u64 where "sizeof_super_block \<equiv> 80"

definition root_dentry_alloc :: "u64 \<Rightarrow> mem \<Rightarrow> (vaddr option \<times> mem) option" where
  "root_dentry_alloc hhdm m = do { (d, m) \<leftarrow> zalloc hhdm sizeof_dentry m; Some (if d = 0 then None else Some d, m) }"

definition set_root :: "u64 \<Rightarrow> 'h block_dev \<Rightarrow> 'h blk \<Rightarrow> 'h vfs \<Rightarrow> 'h vfs option" where
  "set_root hhdm dev st s =
     do { _ \<leftarrow> fs_detect dev s;
          (sb, m) \<leftarrow> zalloc hhdm sizeof_super_block (v_mem s);
          if sb = 0 then None
          else do { (r, _, m) \<leftarrow> fat16_mount_fs hhdm (root_dentry_alloc hhdm) dev st m;
                    (fs, i, d) \<leftarrow> r;
                    Some (s\<lparr>v_root := d, v_fs := fs, v_mem := m, v_inodes := (v_inodes s)(in_ptr i \<mapsto> i),
                            v_dentries := (v_dentries s)(d \<mapsto> \<lparr>d_name = [47], d_children = [], d_parent = d, d_inode = in_ptr i,
                                                               d_refcount = 1\<rparr>)\<rparr>) } }"

definition vfs_init :: "u64 \<Rightarrow> u8 list \<Rightarrow> 'h blkdev_manager \<Rightarrow> 'h vfs \<Rightarrow> 'h vfs option" where
  "vfs_init hhdm rootdev_str bm s =
     (let d = blkdev_manager_get_by_name rootdev_str bm in
      if d = 0 then None else do { dev \<leftarrow> bm_devs bm d; set_root hhdm dev (bm_blk bm) s })"

definition fat16_init :: "u64 \<Rightarrow> 'h vfs \<Rightarrow> (int \<times> 'h vfs) option" where
  "fat16_init hhdm s =
     do { (t, m) \<leftarrow> zalloc hhdm 80 (v_mem s);
          let s = s\<lparr>v_mem := m\<rparr>;
          if t = 0 then Some (-1, s)
          else Some (fs_register (Some \<lparr>ft_ptr = t, ft_name = [102, 97, 116, 49, 54]\<rparr>) s) }"

end
