(* ===== verification/Vfs_Refs.thy ===== *)
theory Vfs_Refs
  imports Vfs
begin

text \<open>
  The reference counts of the dentry cache. A dentry carries one reference for its place in the list of its parent and one for
  every holder; \<open>R\<close> is the multiset of the references that callers hold. Path look-up adds exactly the reference it hands out.
\<close>

section \<open>The heap under a look-up\<close>

text \<open>What a file-system call may do to the heap: keep it well formed and release nothing that was allocated before.\<close>

definition heap_kept :: "u64 \<Rightarrow> mem \<Rightarrow> mem \<Rightarrow> bool" where
  "heap_kept h m m' \<longleftrightarrow> (heap_inv h (fst m) \<longrightarrow> heap_inv h (fst m') \<and> allocated (fst m) \<subseteq> allocated (fst m'))"

lemma heap_kept_refl: "heap_kept h m m"
  by (simp add: heap_kept_def)

lemma heap_kept_trans: "heap_kept h a b \<Longrightarrow> heap_kept h b c \<Longrightarrow> heap_kept h a c"
  by (auto simp: heap_kept_def)

lemma make_inode_kept:
  assumes "fat16_make_inode h ent loc m = Some (i, m')"
  shows "heap_kept h m m'"
  unfolding heap_kept_def
proof
  assume inv: "heap_inv h (fst m)"
  obtain p m1 where z1: "zalloc h sizeof_inode m = Some (p, m1)" using assms by (auto simp: fat16_make_inode_def inode_alloc_def split: bind_splits)
  note k1 = zalloc_ok [OF inv _ z1]
  show "heap_inv h (fst m') \<and> allocated (fst m) \<subseteq> allocated (fst m')"
  proof (cases "p = 0")
    case True
    then show ?thesis using assms z1 k1 by (simp add: fat16_make_inode_def inode_alloc_def)
  next
    case p: False
    obtain q m2 where z2: "zalloc h sizeof_inode_info m1 = Some (q, m2)"
      using assms z1 p by (auto simp: fat16_make_inode_def inode_alloc_def split: bind_splits)
    note k2 = zalloc_ok [OF k1(1) _ z2]
    show ?thesis
    proof (cases "q = 0")
      case False
      then show ?thesis using assms z1 z2 p k1 k2 by (auto simp: fat16_make_inode_def inode_alloc_def)
    next
      case True
      have pa: "p \<in> allocated (fst m2)" "p \<notin> allocated (fst m)" using k1 k2 p by auto
      obtain kh where f: "kfree h p (fst m2) = Some kh" "heap_inv h kh" "allocated kh = allocated (fst m2) - {p}"
        using kfree_ok [OF k2(1) pa(1)] by auto
      then have "m' = (kh, snd m2)"
        using assms z1 z2 p True by (simp add: fat16_make_inode_def inode_alloc_def inode_free_def mem_free_def)
      then show ?thesis using f k1 k2 pa(2) by auto
    qed
  qed
qed

lemma lookup_cb_kept: "lookup_cb h name e off loc (i, m) = Some (r, i', m') \<Longrightarrow> heap_kept h m m'"
  using make_inode_kept [of h e loc m] by (auto simp: lookup_cb_def heap_kept_refl split: if_splits bind_splits option.splits)

section \<open>Invariants of a directory walk\<close>

text \<open>A transitive relation that every call of the callback keeps relates the context before and after a walk.\<close>

locale dir_walk =
  fixes rel :: "'c \<Rightarrow> 'c \<Rightarrow> bool" and cb :: "'c dir_cb"
  assumes rel_refl: "rel x x" and rel_trans: "rel x y \<Longrightarrow> rel y z \<Longrightarrow> rel x z"
    and cb_step: "cb e off loc x = Some (r, y) \<Longrightarrow> rel x y"
begin

lemma walk_slots_rel: "walk_slots n i buf lba off cb x = Some (r, ended, off', y) \<Longrightarrow> rel x y"
proof (induction n arbitrary: i off x)
  case (Suc n)
  then show ?case
    by (auto simp: Let_def rel_refl split: if_splits bind_splits dest: cb_step intro: rel_trans)
qed (simp add: rel_refl)

lemma walk_sector_rel: "walk_sector fs lba off cb x = Some (r, ended, off', y, fs') \<Longrightarrow> rel x y"
  by (auto simp: walk_sector_def rel_refl split: prod.splits option.splits bind_splits dest: walk_slots_rel)

lemma walk_sectors_rel: "walk_sectors n lba off cb x fs = Some (r, ended, off', y, fs') \<Longrightarrow> rel x y"
proof (induction n arbitrary: lba off x fs)
  case (Suc n)
  then show ?case
    by (auto split: if_splits bind_splits dest!: walk_sector_rel Suc.IH intro: rel_trans)
qed (simp add: rel_refl)

lemma walk_chain_rel':
  assumes "walk_chain c off cb x fs = Some res"
  shows "rel x (fst (snd res))"
proof -
  have "cb' = cb \<longrightarrow> rel x (fst (snd res))" if w: "walk_chain c off cb' x fs = Some res" for c off cb' x res and fs :: "'b fat16"
  proof (rule walk_chain.raw_induct [where P = "\<lambda>c off cb' x fs res. cb' = cb \<longrightarrow> rel x (fst (snd res))", OF _ w], intro impI)
    fix walk c off cb' x res
    fix fs :: "'b fat16"
    assume ih: "\<And>c off cb' x fs res. walk c off cb' x fs = Some res \<Longrightarrow> cb' = cb \<longrightarrow> rel x (fst (snd res))"
      and run: "(if \<not> fat16_cluster_valid c then Some (0, x, fs)
        else do { (r, ended, off, x, fs) \<leftarrow> walk_sectors (unat (spc fs)) (fat16_cluster_to_lba fs c) off cb' x fs;
                  if r \<noteq> 0 then Some (r, x, fs)
                  else do { (n, fs) \<leftarrow> fat16_next_cluster fs c; if ended then Some (0, x, fs) else walk n off cb' x fs } }) = Some res"
      and eq: "cb' = cb"
    show "rel x (fst (snd res))"
    proof (cases "fat16_cluster_valid c")
      case True
      then obtain r ended off1 x1 fs1 where w: "walk_sectors (unat (spc fs)) (fat16_cluster_to_lba fs c) off cb x fs = Some (r, ended, off1, x1, fs1)"
        "(if r \<noteq> 0 then Some (r, x1, fs1)
          else do { (n, fs2) \<leftarrow> fat16_next_cluster fs1 c; if ended then Some (0, x1, fs2) else walk n off1 cb x1 fs2 }) = Some res"
        using run eq by (auto simp: bind_eq_Some_conv simp del: split_paired_Ex)
      have x1: "rel x x1" by (rule walk_sectors_rel [OF w(1)])
      show ?thesis
      proof (cases "r \<noteq> 0 \<or> ended")
        case True
        then show ?thesis using w(2) x1 by (auto split: if_splits bind_splits)
      next
        case False
        then obtain n fs2 where "walk n off1 cb x1 fs2 = Some res" using w(2) by (auto split: bind_splits)
        then have "rel x1 (fst (snd res))" using ih by blast
        then show ?thesis by (rule rel_trans [OF x1])
      qed
    qed (use run rel_refl in auto)
  qed
  then show ?thesis using assms by blast
qed

lemma walk_chain_rel: "walk_chain c off cb x fs = Some (r, y, fs') \<Longrightarrow> rel x y"
  using walk_chain_rel' by fastforce

lemma walk_dir_rel: "fat16_walk_dir fs first cb x = Some (r, y, fs') \<Longrightarrow> rel x y"
  by (auto simp: fat16_walk_dir_def split: if_splits bind_splits dest: walk_sectors_rel walk_chain_rel)

end

interpretation lookup: dir_walk "\<lambda>x y. heap_kept h (snd x) (snd y)" "lookup_cb h name" for h name
proof
  show "heap_kept h (snd x) (snd y)" if "lookup_cb h name e off loc x = Some (r, y)" for e off loc r and x y :: "fat16_inode option \<times> mem"
    using lookup_cb_kept [of h name e off loc "fst x" "snd x" r "fst y" "snd y"] that by simp
qed (auto intro: heap_kept_refl heap_kept_trans)

lemma lookup_kept: "fat16_lookup h dir name fs m = Some (i, fs', m') \<Longrightarrow> heap_kept h m m'"
  by (auto simp: fat16_lookup_def split: bind_splits dest!: lookup.walk_dir_rel)

section \<open>The reference counts\<close>

text \<open>A dentry in the list of some other one.\<close>

definition cached :: "'h vfs \<Rightarrow> vaddr \<Rightarrow> bool" where
  "cached s d \<longleftrightarrow> (\<exists>p e. v_dentries s p = Some e \<and> d \<in> set (d_children e))"

text \<open>Every count is the number of references held plus one for a cached dentry, and is positive; listed and held dentries exist;
  a listed dentry names its parent; every dentry is an object of the heap.\<close>

definition dentry_ok :: "'h vfs \<Rightarrow> vaddr multiset \<Rightarrow> vaddr \<Rightarrow> dentry \<Rightarrow> bool" where
  "dentry_ok s R d e \<longleftrightarrow> d_refcount e = int (count R d) + (if cached s d then 1 else 0) \<and> 0 < d_refcount e \<and>
     (\<forall>c\<in>set (d_children e). \<exists>e'. v_dentries s c = Some e' \<and> d_parent e' = d)"

definition ref_inv :: "u64 \<Rightarrow> vaddr multiset \<Rightarrow> 'h vfs \<Rightarrow> bool" where
  "ref_inv h R s \<longleftrightarrow> heap_inv h (fst (v_mem s)) \<and> dom (v_dentries s) \<subseteq> allocated (fst (v_mem s)) \<and> v_dentries s 0 = None \<and>
     (\<forall>d e. v_dentries s d = Some e \<longrightarrow> dentry_ok s R d e) \<and> (\<forall>d. d \<in># R \<longrightarrow> d \<in> dom (v_dentries s))"

lemma ref_invD:
  assumes "ref_inv h R s"
  shows "heap_inv h (fst (v_mem s))" "dom (v_dentries s) \<subseteq> allocated (fst (v_mem s))" "v_dentries s 0 = None"
    "v_dentries s d = Some e \<Longrightarrow> dentry_ok s R d e" "d \<in># R \<Longrightarrow> \<exists>e. v_dentries s d = Some e"
  using assms by (auto simp: ref_inv_def)

lemma cached_live: "ref_inv h R s \<Longrightarrow> cached s d \<Longrightarrow> \<exists>e. v_dentries s d = Some e"
  by (fastforce simp: ref_inv_def cached_def dentry_ok_def)

lemma cached_upd:
  assumes "v_dentries s d = Some e" "d_children e' = d_children e"
  shows "cached (s\<lparr>v_dentries := (v_dentries s)(d \<mapsto> e')\<rparr>) = cached s"
proof
  fix x
  show "cached (s\<lparr>v_dentries := (v_dentries s)(d \<mapsto> e')\<rparr>) x = cached s x"
    unfolding cached_def using assms by (auto split: if_splits) (metis option.inject)
qed

text \<open>A change of one dentry that keeps its children and its parent, with a count that matches the new references.\<close>

lemma ref_inv_upd:
  assumes "ref_inv h R s" "v_dentries s d = Some e" "d_children e' = d_children e" "d_parent e' = d_parent e"
    and "d_refcount e' = int (count R' d) + (if cached s d then 1 else 0)" "0 < d_refcount e'"
    and "\<And>x. x \<noteq> d \<Longrightarrow> count R' x = count R x"
  shows "ref_inv h R' (s\<lparr>v_dentries := (v_dentries s)(d \<mapsto> e')\<rparr>)"
proof -
  let ?s = "s\<lparr>v_dentries := (v_dentries s)(d \<mapsto> e')\<rparr>"
  note c = cached_upd [OF assms(2,3)]
  note inv = assms(1)
  have live: "x \<in> dom (v_dentries s)" if "x \<in># R'" for x
  proof (cases "x = d")
    case True
    then show ?thesis using assms(2) by auto
  next
    case False
    then have "x \<in># R" using that assms(7) by (metis count_eq_zero_iff)
    then show ?thesis using ref_invD(5) [OF inv] by auto
  qed
  have "dentry_ok ?s R' x f" if x: "v_dentries ?s x = Some f" for x f
  proof (cases "x = d")
    case True
    then have f: "f = e'" using x by simp
    have "dentry_ok s R d e" using ref_invD(4) [OF inv assms(2)] .
    then show ?thesis using True assms(2-6) f c by (fastforce simp: dentry_ok_def)
  next
    case False
    then have "dentry_ok s R x f" using x ref_invD(4) [OF inv] by simp
    then show ?thesis using False assms(2,4,7) c by (fastforce simp: dentry_ok_def)
  qed
  then show "ref_inv h R' ?s"
    using inv assms(2) live by (auto simp: ref_inv_def)
qed

lemma dentry_get_inv:
  assumes "ref_inv h R s" "d \<noteq> 0" "dentry_get d s = Some s'"
  shows "ref_inv h (add_mset d R) s'" "cached s' = cached s"
proof -
  obtain e where e: "v_dentries s d = Some e" "s' = s\<lparr>v_dentries := (v_dentries s)(d \<mapsto> e\<lparr>d_refcount := d_refcount e + 1\<rparr>)\<rparr>"
    using assms(2,3) by (auto simp: dentry_get_def split: bind_splits)
  note ok = ref_invD(4) [OF assms(1) e(1)]
  show "ref_inv h (add_mset d R) s'"
    unfolding e(2) using ok by (intro ref_inv_upd [OF assms(1) e(1)]) (simp_all add: dentry_ok_def)
  show "cached s' = cached s"
    unfolding e(2) by (rule cached_upd [OF e(1)]) simp
qed

text \<open>Giving a reference back, of a dentry that stays cached or held.\<close>

lemma dentry_put_inv:
  assumes "ref_inv h (add_mset d R) s" "d \<noteq> 0" "cached s d \<or> d \<in># R" "dentry_put h d s = Some s'"
  shows "ref_inv h R s'" "cached s' = cached s"
proof -
  obtain e where e: "v_dentries s d = Some e" using assms(2,4) by (auto simp: dentry_put_def split: bind_splits)
  note ok = ref_invD(4) [OF assms(1) e(1)]
  have pos: "0 < d_refcount e - 1" using ok assms(3) by (auto simp: dentry_ok_def count_greater_zero_iff [symmetric] simp del: count_greater_zero_iff)
  then have s': "s' = s\<lparr>v_dentries := (v_dentries s)(d \<mapsto> e\<lparr>d_refcount := d_refcount e - 1\<rparr>)\<rparr>"
    using assms(2,4) e by (simp add: dentry_put_def)
  show "ref_inv h R s'"
    unfolding s' using ok pos by (intro ref_inv_upd [OF assms(1) e]) (simp_all add: dentry_ok_def)
  show "cached s' = cached s"
    unfolding s' by (rule cached_upd [OF e]) simp
qed

section \<open>Look-up\<close>

lemma find_child_mem: "find_child ds name cs = Some d \<Longrightarrow> d = 0 \<or> d \<in> set cs"
  by (induction cs) (auto split: bind_splits if_splits)

lemma dentry_lookup_inv:
  assumes "ref_inv h R s" "parent \<noteq> 0" "dentry_lookup parent name s = Some (d, s')"
  shows "if d = 0 then s' = s else ref_inv h (add_mset d R) s' \<and> cached s d \<and> cached s' = cached s"
proof -
  obtain p where p: "v_dentries s parent = Some p" "find_child (v_dentries s) name (d_children p) = Some d" "dentry_get d s = Some s'"
    using assms(2,3) by (auto simp: dentry_lookup_def split: bind_splits)
  show ?thesis
  proof (cases "d = 0")
    case True
    then show ?thesis using p(3) by (simp add: dentry_get_def)
  next
    case False
    then have "cached s d" using p(1) find_child_mem [OF p(2)] by (auto simp: cached_def)
    then show ?thesis using dentry_get_inv [OF assms(1) False p(3)] False by simp
  qed
qed

lemma ref_inv_cong:
  assumes "v_dentries s' = v_dentries s"
  shows "cached s' = cached s" "v_mem s' = v_mem s \<Longrightarrow> ref_inv h R s' = ref_inv h R s"
proof -
  show c: "cached s' = cached s" using assms by (simp add: cached_def fun_eq_iff)
  have "dentry_ok s' = dentry_ok s" using assms by (simp add: dentry_ok_def c fun_eq_iff)
  then show "v_mem s' = v_mem s \<Longrightarrow> ref_inv h R s' = ref_inv h R s" using assms by (simp add: ref_inv_def)
qed

lemma ref_inv_mem:
  assumes "ref_inv h R s" "heap_kept h (v_mem s) m"
  shows "ref_inv h R (s\<lparr>v_fs := fs, v_mem := m\<rparr>)" "cached (s\<lparr>v_fs := fs, v_mem := m\<rparr>) = cached s"
proof -
  show c: "cached (s\<lparr>v_fs := fs, v_mem := m\<rparr>) = cached s" by (simp add: cached_def fun_eq_iff)
  show "ref_inv h R (s\<lparr>v_fs := fs, v_mem := m\<rparr>)"
  proof -
    have "dentry_ok (s\<lparr>v_fs := fs, v_mem := m\<rparr>) = dentry_ok s" by (simp add: dentry_ok_def c fun_eq_iff)
    then show ?thesis using assms by (simp add: ref_inv_def heap_kept_def) blast
  qed
qed

lemma zalloc_kept: "sz \<le> 131072 \<Longrightarrow> zalloc h sz m = Some (p, m') \<Longrightarrow> heap_kept h m m'"
  using zalloc_ok [of h m sz p m'] by (auto simp: heap_kept_def)

lemma dentry_alloc_inv:
  assumes inv: "ref_inv h R s" and a: "dentry_alloc h name s = Some (d, s')"
  shows "if d = 0 then ref_inv h R s' \<and> v_dentries s' = v_dentries s
    else ref_inv h (add_mset d R) s' \<and> v_dentries s d = None \<and> \<not> cached s' d \<and> cached s' = cached s \<and>
      v_dentries s' = (v_dentries s)(d \<mapsto> \<lparr>d_name = take (NAME_MAX - 1) name, d_children = [], d_parent = 0, d_inode = 0, d_refcount = 1\<rparr>)"
proof -
  obtain p m where z0: "zalloc h sizeof_dentry (v_mem s) = Some (p, m)"
    using a by (cases "zalloc h sizeof_dentry (v_mem s)") (auto simp: dentry_alloc_def)
  then have "p = d" using a by (auto simp: dentry_alloc_def Let_def split: if_splits)
  note z = z0 [unfolded this]
  let ?m = "s\<lparr>v_mem := m\<rparr>"
  have m: "ref_inv h R ?m" "cached ?m = cached s"
    using ref_inv_mem [OF inv zalloc_kept [OF _ z], of "v_fs s"] by simp_all
  show ?thesis
  proof (cases "d = 0")
    case True
    then have "s' = ?m" using a z by (simp add: dentry_alloc_def)
    then show ?thesis using True m by simp
  next
    case False
    let ?e = "\<lparr>d_name = take (NAME_MAX - 1) name, d_children = [], d_parent = 0, d_inode = 0, d_refcount = 1\<rparr>"
    have s': "s' = ?m\<lparr>v_dentries := (v_dentries s)(d \<mapsto> ?e)\<rparr>" using a z False by (simp add: dentry_alloc_def)
    have fresh: "v_dentries s d = None" "d \<in> allocated (fst m)"
      using zalloc_ok(3) [OF ref_invD(1) [OF inv] _ z] False ref_invD(2) [OF inv] by auto
    have nc: "\<not> cached s d" using cached_live [OF inv, of d] fresh(1) by auto
    have dR: "d \<notin># R" using ref_invD(5) [OF inv, of d] fresh(1) by auto
    have c: "cached s' = cached s"
    proof
      fix x
      have "q \<noteq> d" if "v_dentries s q = Some f" for q f using that fresh(1) by auto
      then show "cached s' x = cached s x" unfolding s' cached_def by (auto split: if_splits)
    qed
    have "dentry_ok s' (add_mset d R) x f" if x: "v_dentries s' x = Some f" for x f
    proof (cases "x = d")
      case True
      then have "f = ?e" using x s' by simp
      then show ?thesis using True c nc dR by (simp add: dentry_ok_def not_in_iff)
    next
      case xd: False
      then have "dentry_ok s R x f" using x s' ref_invD(4) [OF inv] by simp
      then show ?thesis using xd c s' fresh(1) by (fastforce simp: dentry_ok_def)
    qed
    then have "ref_inv h (add_mset d R) s'"
      using m(1) False fresh(2) s' ref_invD(5) [OF inv] unfolding ref_inv_def by auto
    then show ?thesis using False fresh(1) nc c s' by simp
  qed
qed

lemma attach_inode_inv:
  assumes "ref_inv h R s" "attach_inode d (i, fs, m) s = Some (ok, s')" "heap_kept h (v_mem s) m"
  shows "ref_inv h R s'" "cached s' = cached s"
    "map_option (\<lambda>e. (d_children e, d_refcount e)) \<circ> v_dentries s' = map_option (\<lambda>e. (d_children e, d_refcount e)) \<circ> v_dentries s"
proof -
  let ?m = "s\<lparr>v_fs := fs, v_mem := m\<rparr>"
  note m = ref_inv_mem [OF assms(1,3), of fs]
  have "ref_inv h R s' \<and> cached s' = cached s \<and>
    map_option (\<lambda>e. (d_children e, d_refcount e)) \<circ> v_dentries s' = map_option (\<lambda>e. (d_children e, d_refcount e)) \<circ> v_dentries s"
  proof (cases i)
    case None
    then have "s' = ?m" using assms(2) by (simp add: attach_inode_def Let_def)
    then show ?thesis using m by (simp only:) simp
  next
    case (Some j)
    then obtain e where e: "v_dentries ?m d = Some e"
      "s' = ?m\<lparr>v_dentries := (v_dentries ?m)(d \<mapsto> e\<lparr>d_inode := in_ptr j\<rparr>), v_inodes := (v_inodes s)(in_ptr j \<mapsto> j)\<rparr>"
      using assms(2) by (auto simp: attach_inode_def Let_def split: bind_splits)
    let ?u = "?m\<lparr>v_dentries := (v_dentries ?m)(d \<mapsto> e\<lparr>d_inode := in_ptr j\<rparr>)\<rparr>"
    have "ref_inv h R ?u" using ref_invD(4) [OF m(1) e(1)] by (intro ref_inv_upd [OF m(1) e(1)]) (simp_all add: dentry_ok_def)
    moreover have "cached ?u = cached s" using cached_upd [OF e(1), of "e\<lparr>d_inode := in_ptr j\<rparr>"] m(2) by simp
    moreover have "ref_inv h R s' = ref_inv h R ?u" "cached s' = cached ?u" using ref_inv_cong(1) [of s' ?u] ref_inv_cong(2) [of s' ?u h R] by (simp_all add: e(2))
    moreover have "map_option (\<lambda>e. (d_children e, d_refcount e)) \<circ> v_dentries s' = map_option (\<lambda>e. (d_children e, d_refcount e)) \<circ> v_dentries s"
      using e by (simp add: fun_eq_iff)
    ultimately show ?thesis by simp
  qed
  then show "ref_inv h R s'" "cached s' = cached s"
    "map_option (\<lambda>e. (d_children e, d_refcount e)) \<circ> v_dentries s' = map_option (\<lambda>e. (d_children e, d_refcount e)) \<circ> v_dentries s"
    by simp_all
qed

text \<open>Giving back the only reference of a dentry that was never cached releases it.\<close>

lemma dentry_put_fresh:
  assumes inv: "ref_inv h (add_mset d R) s" and e: "v_dentries s d = Some e" "d_children e = []"
    and nc: "\<not> cached s d" "d \<notin># R"
  obtains s' where "dentry_put h d s = Some s'" "ref_inv h R s'" "cached s' = cached s" "v_dentries s' = (v_dentries s)(d := None)"
    "v_root s' = v_root s"
proof -
  have d0: "d \<noteq> 0" using e(1) ref_invD(3) [OF inv] by auto
  have one: "d_refcount e = 1" using ref_invD(4) [OF inv e(1)] nc by (simp add: dentry_ok_def not_in_iff)
  have da: "d \<in> allocated (fst (v_mem s))" using ref_invD(2) [OF inv] e(1) by auto
  obtain kh where f: "kfree h d (fst (v_mem s)) = Some kh" "heap_inv h kh" "allocated kh = allocated (fst (v_mem s)) - {d}"
    using kfree_ok [OF ref_invD(1) [OF inv] da] by auto
  let ?s = "s\<lparr>v_dentries := (v_dentries s)(d := None), v_mem := (kh, snd (v_mem s))\<rparr>"
  have put: "dentry_put h d s = Some ?s" using d0 e(1) one f(1) by (simp add: dentry_put_def mem_free_def)
  have c: "cached ?s = cached s"
  proof
    fix x
    have "q \<noteq> d" if "v_dentries s q = Some f" "x \<in> set (d_children f)" for q f using that e by auto
    then show "cached ?s x = cached s x" unfolding cached_def by (auto split: if_splits)
  qed
  have ok: "dentry_ok ?s R x f" if x: "v_dentries ?s x = Some f" for x f
  proof -
    have xd: "x \<noteq> d" "v_dentries s x = Some f" using x by (auto split: if_splits)
    then have "d \<notin> set (d_children f)" using nc(1) by (auto simp: cached_def)
    then show ?thesis using ref_invD(4) [OF inv xd(2)] xd(1) c by (fastforce simp: dentry_ok_def)
  qed
  have live: "x \<in> dom (v_dentries ?s)" if "x \<in># R" for x
    using that nc(2) ref_invD(5) [OF inv, of x] by auto
  have "ref_inv h R ?s"
    using f ref_invD(2,3) [OF inv] ok live unfolding ref_inv_def by auto
  then show ?thesis using that put c by simp
qed

text \<open>Entering a dentry in the cache: the reference of its creator becomes the one of the cache.\<close>

lemma dentry_add_inv:
  assumes inv: "ref_inv h (add_mset d R) s" and nc: "\<not> cached s d" and np: "d \<noteq> parent" "parent \<noteq> 0" "d \<noteq> 0"
    and a: "dentry_add parent d s = Some s'"
  shows "ref_inv h R s'" "cached s' x \<longleftrightarrow> cached s x \<or> x = d" "v_root s' = v_root s"
proof -
  obtain p c where pc: "v_dentries s parent = Some p" "v_dentries s d = Some c"
    "s' = s\<lparr>v_dentries := (v_dentries s)(parent \<mapsto> p\<lparr>d_children := d_children p @ [d]\<rparr>, d \<mapsto> c\<lparr>d_parent := parent\<rparr>)\<rparr>"
    using a np by (auto simp: dentry_add_def Let_def split: bind_splits)
  have ch: "cached s' x \<longleftrightarrow> cached s x \<or> x = d" for x
  proof
    assume "cached s' x"
    then obtain q e where "v_dentries s' q = Some e" "x \<in> set (d_children e)" by (auto simp: cached_def)
    then have "x = d \<or> (\<exists>e. v_dentries s q = Some e \<and> x \<in> set (d_children e))"
      using pc np by (cases "q = parent"; cases "q = d") auto
    then show "cached s x \<or> x = d" by (auto simp: cached_def)
  next
    assume "cached s x \<or> x = d"
    then show "cached s' x"
    proof
      assume "x = d"
      then show ?thesis using pc np by (auto simp: cached_def intro!: exI [of _ parent])
    next
      assume "cached s x"
      then obtain q e where q: "v_dentries s q = Some e" "x \<in> set (d_children e)" by (auto simp: cached_def)
      then obtain e' where "v_dentries s' q = Some e'" "x \<in> set (d_children e')" using pc np by (cases "q = parent"; cases "q = d") auto
      then show ?thesis by (auto simp: cached_def)
    qed
  qed
  have kid: "\<exists>g'. v_dentries s' y = Some g' \<and> d_parent g' = d_parent g" if "v_dentries s y = Some g" "y \<noteq> d" for y g
    using that pc np by (cases "y = parent") auto
  have notd: "d \<notin> set (d_children g)" if "v_dentries s y = Some g" for y g using nc that by (auto simp: cached_def)
  have ok: "dentry_ok s' R y g" if y: "v_dentries s' y = Some g" for y g
  proof -
    obtain g0 where g0: "v_dentries s y = Some g0" "d_refcount g = d_refcount g0"
      "set (d_children g) = set (d_children g0) \<union> (if y = parent then {d} else {})"
      using y pc np by (cases "y = parent"; cases "y = d") auto
    note o0 = ref_invD(4) [OF inv g0(1)]
    have cnt: "d_refcount g = int (count R y) + (if cached s' y then 1 else 0)" "0 < d_refcount g"
      using o0 g0(2) ch nc unfolding dentry_ok_def by (auto split: if_splits)
    have "\<exists>e'. v_dentries s' z = Some e' \<and> d_parent e' = y" if z: "z \<in> set (d_children g)" for z
    proof (cases "z = d")
      case True
      then have "y = parent" using z g0(3) notd [OF g0(1)] by (auto split: if_splits)
      then show ?thesis using True pc np by simp
    next
      case False
      then have "z \<in> set (d_children g0)" using z g0(3) by (auto split: if_splits)
      then obtain e' where "v_dentries s z = Some e'" "d_parent e' = y" using o0 by (auto simp: dentry_ok_def)
      then show ?thesis using kid [OF _ False] by blast
    qed
    then show ?thesis using cnt by (simp add: dentry_ok_def)
  qed
  show "ref_inv h R s'"
    using inv ok pc np unfolding ref_inv_def by (auto simp: domIff)
  show "cached s' x \<longleftrightarrow> cached s x \<or> x = d" by (rule ch)
  show "v_root s' = v_root s" using pc by simp
qed

text \<open>The part of a look-up behind the allocation of a dentry: it is entered in the cache or released again.\<close>

lemma lookup_miss:
  assumes inv: "ref_inv h (add_mset d R) s" and e: "v_dentries s d = Some e" "d_children e = []"
    and nc: "\<not> cached s d" "d \<notin># R" and np: "d \<noteq> parent" "parent \<noteq> 0" "d \<noteq> 0"
    and f: "(if i = 0 then Some (False, s)
             else do { pi \<leftarrow> v_inodes s i; r \<leftarrow> fat16_lookup h pi (d_name e) (v_fs s) (v_mem s); attach_inode d r s }) = Some (found, s1)"
    and r: "(if found then do { s \<leftarrow> dentry_add parent d s1; s \<leftarrow> dentry_get d s; Some (d, s) }
             else do { s \<leftarrow> dentry_put h d s1; Some (0, s) }) = Some (d', s')"
  shows "ref_inv h (if d' = 0 then R else add_mset d' R) s' \<and> (d' \<noteq> 0 \<longrightarrow> cached s' d') \<and> (\<forall>x. cached s x \<longrightarrow> cached s' x)"
proof -
  let ?shape = "map_option (\<lambda>e. (d_children e, d_refcount e))"
  have i1: "ref_inv h (add_mset d R) s1 \<and> cached s1 = cached s \<and> ?shape \<circ> v_dentries s1 = ?shape \<circ> v_dentries s"
  proof (cases "i = 0")
    case True
    then show ?thesis using f inv by simp
  next
    case False
    then obtain pi n fs m where fl: "fat16_lookup h pi (d_name e) (v_fs s) (v_mem s) = Some (n, fs, m)" "attach_inode d (n, fs, m) s = Some (found, s1)"
      using f by (auto split: bind_splits)
    then show ?thesis using attach_inode_inv [OF inv fl(2) lookup_kept [OF fl(1)]] by blast
  qed
  then have c1: "cached s1 = cached s" and v1: "ref_inv h (add_mset d R) s1" by blast+
  show ?thesis
  proof (cases found)
    case False
    have "?shape (v_dentries s1 d) = ?shape (v_dentries s d)" using i1 unfolding comp_def fun_eq_iff by blast
    then obtain e1 where e1: "v_dentries s1 d = Some e1" "d_children e1 = []" using e by auto
    obtain s2 where "dentry_put h d s1 = Some s2" "ref_inv h R s2" "cached s2 = cached s1"
      using dentry_put_fresh [OF v1 e1] nc c1 by metis
    then show ?thesis using r False c1 by simp
  next
    case True
    then obtain s2 where s2: "dentry_add parent d s1 = Some s2" "dentry_get d s2 = Some s'" "d' = d"
      using r by (auto split: bind_splits)
    have nc1: "\<not> cached s1 d" using nc(1) c1 by simp
    note a = dentry_add_inv [OF v1 nc1 np s2(1)]
    have g: "ref_inv h (add_mset d R) s'" "cached s' = cached s2" using dentry_get_inv [OF a(1) np(3) s2(2)] by blast+
    show ?thesis using a(2) c1 g s2(3) np(3) by simp
  qed
qed

text \<open>A look-up adds the one reference it returns, and the dentry it returns is cached.\<close>

lemma vfs_lookup_inv:
  assumes inv: "ref_inv h R s" and p0: "parent \<noteq> 0" and l: "vfs_lookup h parent name s = Some (d, s')"
  shows "ref_inv h (if d = 0 then R else add_mset d R) s'" "d \<noteq> 0 \<Longrightarrow> cached s' d" "cached s x \<Longrightarrow> cached s' x"
proof -
  obtain d1 s1 where l1: "dentry_lookup parent name s = Some (d1, s1)" using l by (auto simp: vfs_lookup_def split: bind_splits)
  note i1 = dentry_lookup_inv [OF inv p0 l1]
  have "ref_inv h (if d = 0 then R else add_mset d R) s' \<and> (d \<noteq> 0 \<longrightarrow> cached s' d) \<and> (\<forall>x. cached s x \<longrightarrow> cached s' x)"
  proof (cases "d1 = 0")
    case False
    then have "d = d1" "s' = s1" using l l1 by (simp_all add: vfs_lookup_def)
    then show ?thesis using i1 False by simp
  next
    case True
    then have s1: "s1 = s" using i1 by simp
    obtain d2 s2 where l2: "dentry_alloc h name s = Some (d2, s2)" using l l1 True s1 by (auto simp: vfs_lookup_def split: bind_splits)
    note i2 = dentry_alloc_inv [OF inv l2]
    show ?thesis
    proof (cases "d2 = 0")
      case t2: True
      then have "d = 0" "s' = s2" using l l1 l2 True s1 by (simp_all add: vfs_lookup_def)
      then show ?thesis using i2 t2 ref_inv_cong(1) [of s2 s] by simp
    next
      case d2: False
      define e where "e = \<lparr>d_name = take (NAME_MAX - 1) name, d_children = [], d_parent = 0, d_inode = 0, d_refcount = 1\<rparr>"
      have j2: "ref_inv h (add_mset d2 R) s2" "v_dentries s d2 = None" "\<not> cached s2 d2" and c2: "cached s2 = cached s"
        using i2 [unfolded if_not_P [OF d2]] by blast+
      have e2: "v_dentries s2 d2 = Some e" using i2 d2 by (simp add: e_def)
      have dR: "d2 \<notin># R" using ref_invD(5) [OF inv, of d2] j2(2) by auto
      obtain q where "v_dentries s parent = Some q" using l1 p0 by (auto simp: dentry_lookup_def split: bind_splits)
      then have dp: "d2 \<noteq> parent" using j2(2) by auto
      obtain p found s3 where "v_dentries s2 parent = Some p"
        and f: "(if d_inode p = 0 then Some (False, s2)
                 else do { pi \<leftarrow> v_inodes s2 (d_inode p); r \<leftarrow> fat16_lookup h pi (d_name e) (v_fs s2) (v_mem s2); attach_inode d2 r s2 }) = Some (found, s3)"
        and r: "(if found then do { s \<leftarrow> dentry_add parent d2 s3; s \<leftarrow> dentry_get d2 s; Some (d2, s) }
                 else do { s \<leftarrow> dentry_put h d2 s3; Some (0, s) }) = Some (d, s')"
        using l l1 l2 True s1 d2 e2 by (auto simp: vfs_lookup_def bind_eq_Some_conv simp del: split_paired_Ex)
      have "d_children e = []" by (simp add: e_def)
      then show ?thesis using lookup_miss [OF j2(1) e2 _ j2(3) dR dp p0 d2 f r] c2 by simp
    qed
  qed
  then show "ref_inv h (if d = 0 then R else add_mset d R) s'" "d \<noteq> 0 \<Longrightarrow> cached s' d" "cached s x \<Longrightarrow> cached s' x" by blast+
qed

section \<open>Path look-up\<close>

text \<open>Where the cache alone leads from a dentry along components.\<close>

primrec cache_find :: "'h vfs \<Rightarrow> vaddr \<Rightarrow> u8 list list \<Rightarrow> vaddr option" where
  "cache_find s d [] = Some d"
| "cache_find s d (c # cs) =
     (case v_dentries s d of
        None \<Rightarrow> None
      | Some e \<Rightarrow> (case find_child (v_dentries s) c (d_children e) of None \<Rightarrow> None | Some x \<Rightarrow> if x = 0 then None else cache_find s x cs))"

lemma find_child_cong:
  assumes "map_option d_name \<circ> ds' = map_option d_name \<circ> ds"
  shows "find_child ds' c xs = find_child ds c xs"
proof (induction xs)
  case (Cons x xs)
  have "map_option d_name (ds' x) = map_option d_name (ds x)" using assms by (metis comp_apply)
  then show ?case using Cons by (cases "ds' x"; cases "ds x") auto
qed simp

abbreviation shape :: "'h vfs \<Rightarrow> vaddr \<Rightarrow> (u8 list \<times> vaddr list) option" where
  "shape s \<equiv> map_option (\<lambda>e. (d_name e, d_children e)) \<circ> v_dentries s"

lemma shapeD:
  assumes "shape s' = shape s"
  shows "map_option d_name \<circ> v_dentries s' = map_option d_name \<circ> v_dentries s"
    "map_option d_children (v_dentries s' d) = map_option d_children (v_dentries s d)"
proof -
  have n: "map_option d_name x = map_option fst (map_option (\<lambda>e. (d_name e, d_children e)) x)"
    "map_option d_children x = map_option snd (map_option (\<lambda>e. (d_name e, d_children e)) x)" for x :: "dentry option"
    by (simp_all add: option.map_comp comp_def)
  have eq: "map_option (\<lambda>e. (d_name e, d_children e)) (v_dentries s' x) = map_option (\<lambda>e. (d_name e, d_children e)) (v_dentries s x)" for x
    using fun_cong [OF assms, of x] by (simp only: comp_apply)
  show "map_option d_name \<circ> v_dentries s' = map_option d_name \<circ> v_dentries s" unfolding comp_def n eq ..
  show "map_option d_children (v_dentries s' d) = map_option d_children (v_dentries s d)" unfolding n eq ..
qed

lemma cache_find_cong:
  assumes "shape s' = shape s"
  shows "cache_find s' d cs = cache_find s d cs"
proof (induction cs arbitrary: d)
  case (Cons c cs)
  show ?case using shapeD(2) [OF assms, of d] Cons find_child_cong [OF shapeD(1) [OF assms]]
    by (cases "v_dentries s' d"; cases "v_dentries s d") (auto split: option.splits)
qed simp

lemma dentry_get_shape: "dentry_get d s = Some s' \<Longrightarrow> shape s' = shape s"
  by (auto simp: dentry_get_def fun_eq_iff split: if_splits bind_splits)

lemma dentry_put_shape:
  assumes "ref_inv h (add_mset d R) s" "d \<noteq> 0" "cached s d \<or> d \<in># R"
  obtains s' where "dentry_put h d s = Some s'" "shape s' = shape s"
proof -
  obtain e where e: "v_dentries s d = Some e" using ref_invD(5) [OF assms(1), of d] by auto
  note ok = ref_invD(4) [OF assms(1) e]
  have pos: "d_refcount e - 1 \<noteq> 0" using ok assms(3) by (auto simp: dentry_ok_def count_greater_zero_iff [symmetric] simp del: count_greater_zero_iff)
  let ?s = "s\<lparr>v_dentries := (v_dentries s)(d \<mapsto> e\<lparr>d_refcount := d_refcount e - 1\<rparr>)\<rparr>"
  have "dentry_put h d s = Some ?s" using assms(2) e pos by (simp add: dentry_put_def)
  moreover have "shape ?s = shape s" using e by (simp add: fun_eq_iff)
  ultimately show ?thesis by (rule that)
qed

text \<open>A component that the cache holds is found there, and the walk stays inside the cache.\<close>

lemma vfs_lookup_hit:
  assumes "v_dentries s p = Some e" "find_child (v_dentries s) c (d_children e) = Some x" "x \<noteq> 0" "v_dentries s x \<noteq> None" "p \<noteq> 0"
  obtains s' where "vfs_lookup h p c s = Some (x, s')" "shape s' = shape s"
proof -
  obtain s' where g: "dentry_get x s = Some s'" using assms(3,4) by (auto simp: dentry_get_def)
  then have "vfs_lookup h p c s = Some (x, s')" using assms by (simp add: vfs_lookup_def dentry_lookup_def)
  then show ?thesis using that dentry_get_shape [OF g] by blast
qed

lemma tokens_skip: "tokens [47] (dropWhile (\<lambda>c. c = 47) s) = tokens [47] s"
  by (induction s) (auto simp: tokens_delim)

lemma tokens_step:
  assumes "path \<noteq> []" "hd path \<noteq> 47"
  shows "tokens [47] path = takeWhile (\<lambda>c. c \<noteq> 47) path # tokens [47] (dropWhile (\<lambda>c. c = 47) (dropWhile (\<lambda>c. c \<noteq> 47) path))"
proof -
  let ?n = "takeWhile (\<lambda>c. c \<noteq> 47) path" and ?r = "dropWhile (\<lambda>c. c \<noteq> 47) path"
  have r: "?r = [] \<or> hd ?r = 47" using hd_dropWhile [of "\<lambda>c. c \<noteq> 47" path] by auto
  have "?n \<noteq> []" using assms by (cases path) auto
  moreover have "47 \<notin> set ?n" by (auto dest: set_takeWhileD)
  ultimately have "tokens [47] (?n @ ?r) = ?n # tokens [47] (tl ?r)" using r by (intro tokens_word)
  moreover have "tokens [47] (dropWhile (\<lambda>c. c = 47) ?r) = tokens [47] (tl ?r)"
    using r tokens_skip [of ?r] tokens_delim by (metis list.collapse list.sel(2) tokens_Nil)
  ultimately show ?thesis by simp
qed

lemma path_walk_inv:
  assumes "ref_inv h (add_mset cur R) s" "cur \<noteq> 0" "cached s cur \<or> cur \<in># R" "path_walk h cur path s = Some (d, s')"
  shows "ref_inv h (if d = 0 then R else add_mset d R) s'"
  using assms
proof (induction h cur path s rule: path_walk.induct)
  case (1 h cur path s)
  show ?case
  proof (cases "path = []")
    case True
    then show ?thesis using 1(2,3,5) by (simp add: path_walk.simps)
  next
    case False
    let ?n = "take (NAME_MAX - 1) (takeWhile (\<lambda>c. c \<noteq> 47) path)"
    let ?r = "dropWhile (\<lambda>c. c = 47) (drop (length ?n) path)"
    obtain x s1 s2 where st: "vfs_lookup h cur ?n s = Some (x, s1)" "dentry_put h cur s1 = Some s2"
      "(if x = 0 then Some (0, s2) else path_walk h x ?r s2) = Some (d, s')"
      using 1(5) False unfolding path_walk.simps [of h cur path s] Let_def by (auto split: option.splits)
    note l = vfs_lookup_inv [OF 1(2,3) st(1)]
    have c1: "cached s1 cur \<or> cur \<in># R" using 1(4) l(3) by blast
    show ?thesis
    proof (cases "x = 0")
      case True
      then show ?thesis using dentry_put_inv(1) [OF _ 1(3) c1 st(2)] l(1) st(3) by simp
    next
      case x: False
      then have "ref_inv h (add_mset cur (add_mset x R)) s1" using l(1) by (simp add: add_mset_commute)
      note p = dentry_put_inv [OF this 1(3) _ st(2)]
      have c1': "cached s1 cur \<or> cur \<in># add_mset x R" using c1 by auto
      have "cached s2 x" using p(2) [OF c1'] l(2) [OF x] by simp
      then show ?thesis
        using 1(1) [OF False refl refl st(1) refl st(2) x p(1) [OF c1'] x] st(3) x by simp
    qed
  qed
qed

lemma path_walk_cached:
  assumes "ref_inv h (add_mset cur R) s" "cur \<noteq> 0" "cached s cur \<or> cur \<in># R" "path = [] \<or> hd path \<noteq> 47"
    and "list_all (\<lambda>c. length c < NAME_MAX) (tokens [47] path)" "cache_find s cur (tokens [47] path) = Some d"
  shows "\<exists>s'. path_walk h cur path s = Some (d, s') \<and> shape s' = shape s"
  using assms
proof (induction h cur path s rule: path_walk.induct)
  case (1 h cur path s)
  show ?case
  proof (cases "path = []")
    case True
    then show ?thesis using 1(7) by (simp add: path_walk.simps)
  next
    case False
    let ?n = "takeWhile (\<lambda>c. c \<noteq> 47) path"
    let ?r = "dropWhile (\<lambda>c. c = 47) (dropWhile (\<lambda>c. c \<noteq> 47) path)"
    note t = tokens_step [OF False] 1(5) False
    then have tok: "tokens [47] path = ?n # tokens [47] ?r" by blast
    have n: "take (NAME_MAX - 1) ?n = ?n" using 1(6) tok by (simp add: NAME_MAX_def)
    have r: "drop (length ?n) path = dropWhile (\<lambda>c. c \<noteq> 47) path" by (simp add: dropWhile_eq_drop)
    obtain e x where x: "v_dentries s cur = Some e" "find_child (v_dentries s) ?n (d_children e) = Some x" "x \<noteq> 0" "cache_find s x (tokens [47] ?r) = Some d"
      using 1(7) tok by (auto split: option.splits if_splits)
    have cx: "cached s x" using x(1) find_child_mem [OF x(2)] x(3) by (auto simp: cached_def)
    then have lx: "v_dentries s x \<noteq> None" using cached_live [OF 1(2)] by auto
    obtain s1 where s1: "vfs_lookup h cur ?n s = Some (x, s1)" "shape s1 = shape s"
      by (rule vfs_lookup_hit [OF x(1-3) lx 1(3)])
    note l = vfs_lookup_inv [OF 1(2,3) s1(1)]
    have i1: "ref_inv h (add_mset cur (add_mset x R)) s1" using l(1) x(3) by (simp add: add_mset_commute)
    have c1: "cached s1 cur \<or> cur \<in># add_mset x R" using 1(4) l(3) by auto
    obtain s2 where s2: "dentry_put h cur s1 = Some s2" "shape s2 = shape s1" by (rule dentry_put_shape [OF i1 1(3) c1])
    note p = dentry_put_inv [OF i1 1(3) c1 s2(1)]
    have cx2: "cached s2 x \<or> x \<in># R" using p(2) l(2) x(3) by simp
    have hd: "?r = [] \<or> hd ?r \<noteq> 47" using hd_dropWhile [of "\<lambda>c. c = 47"] by auto
    have fd: "cache_find s2 x (tokens [47] ?r) = Some d" using x(4) cache_find_cong [of s2 s] s1(2) s2(2) by simp
    have all: "list_all (\<lambda>c. length c < NAME_MAX) (tokens [47] ?r)" using 1(6) tok by simp
    have "\<exists>s'. path_walk h x ?r s2 = Some (d, s') \<and> shape s' = shape s2"
      using 1(1) [OF False refl refl, unfolded n r, OF s1(1) refl s2(1) x(3) p(1) x(3) cx2 hd all fd] .
    then obtain s' where "path_walk h x ?r s2 = Some (d, s')" "shape s' = shape s" using s1(2) s2(2) by (simp only:) blast
    moreover have "path_walk h cur path s = path_walk h x ?r s2"
      using s1(1) s2(1) x(3) False unfolding path_walk.simps [of h cur path s] Let_def n r by simp
    ultimately show ?thesis by (simp only:) blast
  qed
qed

text \<open>The dentry that the cache holds for a path, where every component is cached.\<close>

definition cache_hit :: "'h vfs \<Rightarrow> u8 list \<Rightarrow> vaddr option" where
  "cache_hit s path =
     (if list_all (\<lambda>c. length c < NAME_MAX) (tokens [47] path) then cache_find s (v_root s) (tokens [47] path) else None)"

lemma path_lookup_start:
  assumes inv: "ref_inv h R s" "v_root s \<in># R" and "path \<noteq> []"
  obtains s1 where "vfs_path_lookup h path s = path_walk h (v_root s) (dropWhile (\<lambda>c. c = 47) path) s1"
    "ref_inv h (add_mset (v_root s) R) s1" "v_root s \<noteq> 0" "shape s1 = shape s"
proof -
  obtain e where e: "v_dentries s (v_root s) = Some e" using ref_invD(5) [OF inv] by auto
  then have r0: "v_root s \<noteq> 0" using ref_invD(3) [OF inv(1)] by auto
  obtain s1 where g: "dentry_get (v_root s) s = Some s1" "v_root s1 = v_root s" using e r0 by (simp add: dentry_get_def)
  have "vfs_path_lookup h path s = path_walk h (v_root s) (dropWhile (\<lambda>c. c = 47) path) s1"
    using g assms(3) by (simp add: vfs_path_lookup_def vfs_get_root_def Let_def path_walk.simps)
  then show ?thesis using that dentry_get_inv(1) [OF inv(1) r0 g(1)] r0 dentry_get_shape [OF g(1)] by blast
qed

text \<open>
  Property C13. While the cache holds one reference for every listed dentry and the callers hold the references \<open>R\<close>, one of
  them on the root, a path look-up that returns leaves exactly \<open>R\<close> and the reference on the dentry it returns: the dentries it
  passes keep their counts, a dentry it allocates for a missing name is released, and the heap and the lists stay well formed. It
  returns whenever the whole path is cached, with the cached dentry, and then changes no name and no list.
\<close>

theorem vfs_path_lookup_refs:
  assumes "ref_inv h R s" "v_root s \<in># R" "path \<noteq> []"
  shows "case vfs_path_lookup h path s of
      None \<Rightarrow> cache_hit s path = None
    | Some (d, s') \<Rightarrow> ref_inv h (if d = 0 then R else add_mset d R) s' \<and>
        (case cache_hit s path of None \<Rightarrow> True | Some x \<Rightarrow> d = x \<and> shape s' = shape s)"
proof -
  let ?p = "dropWhile (\<lambda>c. c = 47) path"
  obtain s1 where w: "vfs_path_lookup h path s = path_walk h (v_root s) ?p s1"
    and i: "ref_inv h (add_mset (v_root s) R) s1" "v_root s \<noteq> 0" and sh: "shape s1 = shape s"
    by (rule path_lookup_start [OF assms])
  have hd: "?p = [] \<or> hd ?p \<noteq> 47" using hd_dropWhile [of "\<lambda>c. c = 47"] by auto
  have hit: "\<exists>s'. path_walk h (v_root s) ?p s1 = Some (x, s') \<and> shape s' = shape s1" if "cache_hit s path = Some x" for x
  proof -
    have "list_all (\<lambda>c. length c < NAME_MAX) (tokens [47] ?p)" "cache_find s1 (v_root s) (tokens [47] ?p) = Some x"
      using that cache_find_cong [OF sh] unfolding cache_hit_def tokens_skip by (auto split: if_splits)
    then show ?thesis using path_walk_cached [OF i _ hd] assms(2) by blast
  qed
  show ?thesis
  proof (cases "path_walk h (v_root s) ?p s1")
    case None
    then show ?thesis using hit w by (cases "cache_hit s path") auto
  next
    case (Some r)
    obtain d s' where r: "r = (d, s')" by (cases r)
    have "ref_inv h (if d = 0 then R else add_mset d R) s'"
      using path_walk_inv [OF i] assms(2) Some r by blast
    moreover have "d = x \<and> shape s' = shape s" if "cache_hit s path = Some x" for x
      using hit [OF that] Some r sh by (auto simp only: option.inject prod.inject)
    ultimately show ?thesis using w Some r by (auto split: option.split)
  qed
qed

text \<open>A file system with nothing cached but its root.\<close>

definition demo_vfs :: "vaddr \<Rightarrow> kheap \<Rightarrow> (u64 \<Rightarrow> u8 list) vfs" where
  "demo_vfs p kh = \<lparr>v_dentries = [p \<mapsto> \<lparr>d_name = [47], d_children = [], d_parent = p, d_inode = 0, d_refcount = 1\<rparr>],
     v_inodes = Map.empty, v_files = Map.empty, v_types = [], v_type_count = 0, v_root = p, v_fs = demo_fs,
     v_mem = (kh, \<lambda>_. 0), v_now = (0, 0)\<rparr>"

lemma demo_vfs_inv:
  assumes "heap_inv h kh" "p \<in> allocated kh" "p \<noteq> 0"
  shows "ref_inv h {#p#} (demo_vfs p kh)"
proof -
  have "\<not> cached (demo_vfs p kh) p" by (simp add: cached_def demo_vfs_def)
  then show ?thesis using assms by (auto simp: ref_inv_def dentry_ok_def demo_vfs_def split: if_splits)
qed

theorem vfs_path_lookup_refs_witness:
  "\<exists>p kh s'. ref_inv demo_h {#p#} (demo_vfs p kh) \<and> vfs_path_lookup demo_h [47] (demo_vfs p kh) = Some (p, s') \<and> ref_inv demo_h {#p, p#} s'"
proof -
  obtain p kh where k: "heap_inv demo_h kh" "p \<in> allocated kh" "p \<noteq> 0"
    using demo_alloc8 kmalloc_ok [OF demo_heap_inv, of 8] by auto
  note inv = demo_vfs_inv [OF k]
  have hit: "cache_hit (demo_vfs p kh) [47] = Some p" by (simp add: cache_hit_def tokens_delim demo_vfs_def)
  have "\<exists>s'. vfs_path_lookup demo_h [47] (demo_vfs p kh) = Some (p, s') \<and> ref_inv demo_h {#p, p#} s'"
    using vfs_path_lookup_refs [OF inv, of "[47]"] hit k(3)
    by (cases "vfs_path_lookup demo_h [47] (demo_vfs p kh)") (auto simp: demo_vfs_def)
  then show ?thesis using inv by blast
qed

section \<open>Creating a name that exists\<close>


text \<open>A root directory whose file \<^verbatim>\<open>a\<close> is cached.\<close>

definition demo_tree :: "(u64 \<Rightarrow> u8 list) vfs" where
  "demo_tree = \<lparr>v_dentries = [0x1000 \<mapsto> \<lparr>d_name = [47], d_children = [0x2000], d_parent = 0x1000, d_inode = 0x3000, d_refcount = 1\<rparr>,
                               0x2000 \<mapsto> \<lparr>d_name = [97], d_children = [], d_parent = 0x1000, d_inode = 0x4000, d_refcount = 1\<rparr>],
     v_inodes = Map.empty, v_files = Map.empty, v_types = [], v_type_count = 0, v_root = 0x1000, v_fs = demo_fs,
     v_mem = (demo_heap, \<lambda>_. 0), v_now = (0, 0)\<rparr>"


end
