(* ===== verification/Pgtable.thy ===== *)
theory Pgtable
  imports Buddy
begin

text \<open>
  Four-level page tables: \<^verbatim>\<open>src/lizard/pgtable.c\<close> and \<^verbatim>\<open>src/lizard/vmm.c\<close>. Memory is the function from the address of
  an aligned 64-bit word, in the direct map, to its contents; a table is 512 consecutive words of a page frame that the buddy
  allocator handed out. The kernel can reach every page frame through the direct map at \<open>h\<close> (\<^verbatim>\<open>hhdm_offset\<close>). Clearing a
  missing page (address 0) is a fault, \<open>None\<close>; \<^verbatim>\<open>invlpg\<close> has no effect on the tables.
\<close>

section \<open>pgtable.c\<close>

record pgmem =
  pm_buddy :: buddy_allocator
  pm_mem :: "u64 \<Rightarrow> u64"

definition PAGE_PRESENT :: u64 where "PAGE_PRESENT = 1"
definition PAGE_WRITABLE :: u64 where "PAGE_WRITABLE = 2"
definition PAGE_USER :: u64 where "PAGE_USER = 4"
definition PAGE_HUGE :: u64 where "PAGE_HUGE = 0x80"
definition KERNEL_PML4_INDEX :: nat where "KERNEL_PML4_INDEX = 256"

definition zero_page :: "u64 \<Rightarrow> (u64 \<Rightarrow> u64) \<Rightarrow> u64 \<Rightarrow> u64" where
  "zero_page page m = (\<lambda>a. if a - page < 4096 then 0 else m a)"

definition pgtable_alloc_table :: "u64 \<Rightarrow> pgmem \<Rightarrow> (vaddr \<times> pgmem) option" where
  "pgtable_alloc_table h st =
     do { (page, b) \<leftarrow> buddy_alloc h (pm_buddy st) 0;
          if page = 0 then None else Some (page, st\<lparr>pm_buddy := b, pm_mem := zero_page page (pm_mem st)\<rparr>) }"

definition copy_entries :: "u64 \<Rightarrow> u64 \<Rightarrow> nat list \<Rightarrow> (u64 \<Rightarrow> u64) \<Rightarrow> u64 \<Rightarrow> u64" where
  "copy_entries dst src is m = fold (\<lambda>i m. m(dst + 8 * of_nat i := m (src + 8 * of_nat i))) is m"

definition pgtable_create :: "u64 \<Rightarrow> vaddr \<Rightarrow> pgmem \<Rightarrow> (vaddr \<times> pgmem) option" where
  "pgtable_create h kernel_pml4 st =
     do { (pml4, st) \<leftarrow> pgtable_alloc_table h st;
          Some (pml4, st\<lparr>pm_mem := copy_entries pml4 kernel_pml4 [KERNEL_PML4_INDEX..<512] (pm_mem st)\<rparr>) }"

definition pgtable_free :: "u64 \<Rightarrow> vaddr \<Rightarrow> pgmem \<Rightarrow> pgmem option" where
  "pgtable_free h v st = (if v = 0 then Some st else do { b \<leftarrow> buddy_free h (pm_buddy st) v 0; Some (st\<lparr>pm_buddy := b\<rparr>) })"

definition present :: "u64 \<Rightarrow> bool" where
  "present e \<longleftrightarrow> e AND PAGE_PRESENT \<noteq> 0"

definition pgtable_table_empty :: "(u64 \<Rightarrow> u64) \<Rightarrow> u64 \<Rightarrow> bool" where
  "pgtable_table_empty m table = list_all (\<lambda>i. \<not> present (m (table + 8 * of_nat i))) [0..<512]"

text \<open>The four indices of a virtual address, from the top table down, and the table that an entry names.\<close>

definition pt_index :: "u64 \<Rightarrow> nat \<Rightarrow> u64" where
  "pt_index va k = drop_bit k va AND 0x1FF"

definition entry_table :: "u64 \<Rightarrow> u64 \<Rightarrow> vaddr" where
  "entry_table h e = (e AND NOT 0xFFF) + h"

text \<open>One level of \<^verbatim>\<open>pgtable_map\<close>: the table below an entry, allocated when the entry is empty.\<close>

definition next_table :: "u64 \<Rightarrow> vaddr \<Rightarrow> u64 \<Rightarrow> u64 \<Rightarrow> pgmem \<Rightarrow> (vaddr \<times> pgmem) option" where
  "next_table h table i flags st =
     (if \<not> present (pm_mem st (table + 8 * i))
      then do { (t, st) \<leftarrow> pgtable_alloc_table h st;
                Some (t, st\<lparr>pm_mem := (pm_mem st)(table + 8 * i := (t - h) OR flags)\<rparr>) }
      else Some (entry_table h (pm_mem st (table + 8 * i)), st))"

definition pgtable_map :: "u64 \<Rightarrow> vaddr \<Rightarrow> vaddr \<Rightarrow> paddr \<Rightarrow> u64 \<Rightarrow> pgmem \<Rightarrow> pgmem option" where
  "pgtable_map h pml4 va pa flags st =
     (let va = align_ptr_down va 4096; pa = align_ptr_down pa 4096 in
      do { (pdpt, st) \<leftarrow> next_table h pml4 (pt_index va 39) flags st;
           (pd, st) \<leftarrow> next_table h pdpt (pt_index va 30) flags st;
           (pt, st) \<leftarrow> next_table h pd (pt_index va 21) flags st;
           Some (st\<lparr>pm_mem := (pm_mem st)(pt + 8 * pt_index va 12 := pa OR flags)\<rparr>) })"

primrec pgtable_maprange :: "nat \<Rightarrow> u64 \<Rightarrow> vaddr \<Rightarrow> vaddr \<Rightarrow> paddr \<Rightarrow> u64 \<Rightarrow> pgmem \<Rightarrow> pgmem option" where
  "pgtable_maprange 0 h pml4 va pa flags st = Some st"
| "pgtable_maprange (Suc n) h pml4 va pa flags st =
     do { st \<leftarrow> pgtable_map h pml4 va pa flags st; pgtable_maprange n h pml4 (va + 4096) (pa + 4096) flags st }"

definition pgtable_kva :: "u64 \<Rightarrow> vaddr \<Rightarrow> vaddr \<Rightarrow> (u64 \<Rightarrow> u64) \<Rightarrow> vaddr" where
  "pgtable_kva h pml4 va m =
     (let off = va AND 0xFFF; e3 = m (pml4 + 8 * pt_index va 39) in
      if \<not> present e3 then 0
      else let e2 = m (entry_table h e3 + 8 * pt_index va 30) in
        if \<not> present e2 then 0
        else let e1 = m (entry_table h e2 + 8 * pt_index va 21) in
          if \<not> present e1 then 0
          else let e0 = m (entry_table h e1 + 8 * pt_index va 12) in
            if \<not> present e0 then 0 else entry_table h e0 + off)"

definition pgtable_unmap :: "u64 \<Rightarrow> vaddr \<Rightarrow> vaddr \<Rightarrow> pgmem \<Rightarrow> pgmem option" where
  "pgtable_unmap h pml4 va st =
     (let va = align_ptr_down va 4096;
          a3 = pml4 + 8 * pt_index va 39; pdpt = entry_table h (pm_mem st a3);
          a2 = pdpt + 8 * pt_index va 30; pd = entry_table h (pm_mem st a2);
          a1 = pd + 8 * pt_index va 21; pt = entry_table h (pm_mem st a1);
          a0 = pt + 8 * pt_index va 12
      in if \<not> present (pm_mem st a3) \<or> \<not> present (pm_mem st a2) \<or> \<not> present (pm_mem st a1) \<or> \<not> present (pm_mem st a0)
         then Some st
         else do { let pa = pm_mem st a0 AND NOT 0xFFF;
                   let st = st\<lparr>pm_mem := (pm_mem st)(a0 := 0)\<rparr>;
                   b \<leftarrow> buddy_free h (pm_buddy st) (pa + h) 0;
                   let st = st\<lparr>pm_buddy := b\<rparr>;
                   if \<not> pgtable_table_empty (pm_mem st) pt then Some st
                   else do { st \<leftarrow> pgtable_free h pt (st\<lparr>pm_mem := (pm_mem st)(a1 := 0)\<rparr>);
                             if \<not> pgtable_table_empty (pm_mem st) pd then Some st
                             else do { st \<leftarrow> pgtable_free h pd (st\<lparr>pm_mem := (pm_mem st)(a2 := 0)\<rparr>);
                                       if \<not> pgtable_table_empty (pm_mem st) pdpt then Some st
                                       else pgtable_free h pdpt (st\<lparr>pm_mem := (pm_mem st)(a3 := 0)\<rparr>) } } })"

primrec foldM :: "('a \<Rightarrow> 's \<Rightarrow> 's option) \<Rightarrow> 'a list \<Rightarrow> 's \<Rightarrow> 's option" where
  "foldM f [] s = Some s"
| "foldM f (x # xs) s = do { s \<leftarrow> f x s; foldM f xs s }"

primrec pgtable_free_level :: "nat \<Rightarrow> u64 \<Rightarrow> vaddr \<Rightarrow> pgmem \<Rightarrow> pgmem option" where
  "pgtable_free_level 0 h table st =
     foldM (\<lambda>i st.
       let e = pm_mem st (table + 8 * of_nat i) in
       if \<not> present e then Some st
       else do { b \<leftarrow> buddy_free h (pm_buddy st) (entry_table h e) 0;
                 Some (st\<lparr>pm_buddy := b, pm_mem := (pm_mem st)(table + 8 * of_nat i := 0)\<rparr>) }) [0..<512] st"
| "pgtable_free_level (Suc level) h table st =
     foldM (\<lambda>i st.
       let e = pm_mem st (table + 8 * of_nat i) in
       if \<not> present e then Some st
       else do { st \<leftarrow> (if e AND PAGE_HUGE \<noteq> 0 then Some st
                       else do { st \<leftarrow> pgtable_free_level level h (entry_table h e) st; pgtable_free h (entry_table h e) st });
                 Some (st\<lparr>pm_mem := (pm_mem st)(table + 8 * of_nat i := 0)\<rparr>) })
       [0..<if Suc level = 3 then KERNEL_PML4_INDEX else 512] st"

definition pgtable_free_tree :: "u64 \<Rightarrow> vaddr \<Rightarrow> pgmem \<Rightarrow> pgmem option" where
  "pgtable_free_tree h pml4 st =
     (if pml4 = 0 then Some st else do { st \<leftarrow> pgtable_free_level 3 h pml4 st; pgtable_free h pml4 st })"

definition pgtable_is_mapped :: "u64 \<Rightarrow> vaddr \<Rightarrow> vaddr \<Rightarrow> (u64 \<Rightarrow> u64) \<Rightarrow> bool" where
  "pgtable_is_mapped h pml4 va m =
     (let va = align_ptr_down va 4096; e3 = m (pml4 + 8 * pt_index va 39) in
      present e3 \<and>
      (let e2 = m (entry_table h e3 + 8 * pt_index va 30) in
       present e2 \<and>
       (let e1 = m (entry_table h e2 + 8 * pt_index va 21) in
        present e1 \<and> present (m (entry_table h e1 + 8 * pt_index va 12)))))"

section \<open>vmm.c\<close>

record vmm =
  vm_pg :: pgmem
  vm_current :: vaddr
  vm_kernel :: vaddr
  vm_cr3 :: paddr

definition pgtable_switch :: "u64 \<Rightarrow> vaddr \<Rightarrow> vmm \<Rightarrow> vmm" where
  "pgtable_switch h pml4 s = s\<lparr>vm_cr3 := pml4 - h\<rparr>"

definition vmm_switch_pml4 :: "u64 \<Rightarrow> vaddr \<Rightarrow> vmm \<Rightarrow> vmm" where
  "vmm_switch_pml4 h pml4 s = pgtable_switch h pml4 (s\<lparr>vm_current := pml4\<rparr>)"

definition vmm_map_page :: "u64 \<Rightarrow> vaddr \<Rightarrow> paddr \<Rightarrow> u64 \<Rightarrow> vmm \<Rightarrow> vmm option" where
  "vmm_map_page h va pa flags s = do { g \<leftarrow> pgtable_map h (vm_current s) va pa flags (vm_pg s); Some (s\<lparr>vm_pg := g\<rparr>) }"

definition vmm_unmap_page :: "u64 \<Rightarrow> vaddr \<Rightarrow> vmm \<Rightarrow> vmm option" where
  "vmm_unmap_page h va s = do { g \<leftarrow> pgtable_unmap h (vm_current s) va (vm_pg s); Some (s\<lparr>vm_pg := g\<rparr>) }"

text \<open>A failed allocation is not noticed: the page is then mapped to the frame number that \<^verbatim>\<open>0 - hhdm_offset\<close> gives.\<close>

definition vmm_alloc :: "u64 \<Rightarrow> vaddr \<Rightarrow> vaddr \<Rightarrow> u64 \<Rightarrow> pgmem \<Rightarrow> (vaddr \<times> pgmem) option" where
  "vmm_alloc h pml4 va flags st =
     do { (p, b) \<leftarrow> buddy_alloc h (pm_buddy st) 0;
          st \<leftarrow> pgtable_map h pml4 va (p - h) flags (st\<lparr>pm_buddy := b\<rparr>);
          Some (p, st) }"

definition vmm_alloc_page :: "u64 \<Rightarrow> vmm \<Rightarrow> (vaddr \<times> vmm) option" where
  "vmm_alloc_page h s =
     do { (p, b) \<leftarrow> buddy_alloc h (pm_buddy (vm_pg s)) 0;
          g \<leftarrow> pgtable_map h (vm_current s) p (p - h) (PAGE_PRESENT OR PAGE_WRITABLE) ((vm_pg s)\<lparr>pm_buddy := b\<rparr>);
          Some (p, s\<lparr>vm_pg := g\<rparr>) }"

definition vmm_free_page :: "u64 \<Rightarrow> vaddr \<Rightarrow> vmm \<Rightarrow> vmm option" where
  "vmm_free_page h va s = do { g \<leftarrow> pgtable_unmap h (vm_current s) va (vm_pg s); Some (s\<lparr>vm_pg := g\<rparr>) }"

definition map_entry :: "u64 \<Rightarrow> vaddr \<Rightarrow> bi_mmap_entry \<Rightarrow> pgmem \<Rightarrow> pgmem option" where
  "map_entry h pml4 e st =
     (let start = align_down (e_base e) 4096; end = align_up (e_base e + e_len e) 4096 in
      pgtable_maprange (unat ((end - start) div 4096)) h pml4 (start + h) start (PAGE_PRESENT OR PAGE_WRITABLE) st)"

definition vmm_init :: "u64 \<Rightarrow> boot_info option \<Rightarrow> u64 \<Rightarrow> u64 \<Rightarrow> vaddr \<Rightarrow> u64 \<Rightarrow> vmm \<Rightarrow> vmm option" where
  "vmm_init h bi kernel_start kernel_end framebuffer framebuffer_length s =
     do { bi \<leftarrow> bi;
          (pml4, g) \<leftarrow> pgtable_alloc_table h (vm_pg s);
          let vstart = align_down kernel_start 4096;
          let vend = align_up kernel_end 4096;
          let pstart = bi_kernel_phys_base bi - (kernel_start - vstart);
          g \<leftarrow> pgtable_maprange (unat ((vend - vstart) div 4096)) h pml4 vstart pstart (PAGE_PRESENT OR PAGE_WRITABLE) g;
          g \<leftarrow> (if framebuffer_length \<noteq> 0
               then pgtable_maprange (unat (framebuffer_length div 4096)) h pml4 framebuffer (framebuffer - h) (PAGE_PRESENT OR PAGE_WRITABLE) g
               else Some g);
          g \<leftarrow> foldM (map_entry h pml4) (bi_entries bi) g;
          Some (pgtable_switch h pml4 (s\<lparr>vm_pg := g, vm_kernel := pml4, vm_current := pml4\<rparr>)) }"

section \<open>Walking the tables\<close>

text \<open>The frame below an entry, and the frame that a list of indices leads to.\<close>

definition child :: "u64 \<Rightarrow> (u64 \<Rightarrow> u64) \<Rightarrow> vaddr \<Rightarrow> u64 \<Rightarrow> vaddr option" where
  "child h m t i = (let e = m (t + 8 * i) in if present e then Some (entry_table h e) else None)"

primrec walk :: "u64 \<Rightarrow> (u64 \<Rightarrow> u64) \<Rightarrow> vaddr \<Rightarrow> u64 list \<Rightarrow> vaddr option" where
  "walk h m t [] = Some t"
| "walk h m t (i # is) = (case child h m t i of None \<Rightarrow> None | Some t \<Rightarrow> walk h m t is)"

definition va_path :: "vaddr \<Rightarrow> u64 list" where
  "va_path va = [pt_index va 39, pt_index va 30, pt_index va 21, pt_index va 12]"

lemma kva_walk:
  "pgtable_kva h pml4 va m = (case walk h m pml4 (va_path va) of None \<Rightarrow> 0 | Some f \<Rightarrow> f + (va AND 0xFFF))"
  by (simp add: pgtable_kva_def va_path_def child_def Let_def)

lemma pt_index_less: "pt_index va k < 512"
proof -
  have "(0x1FF :: u64) = mask 9" by (simp add: mask_eq_exp_minus_1)
  then have "pt_index va k = drop_bit k va mod 2 ^ 9" unfolding pt_index_def by (metis take_bit_eq_mask take_bit_eq_mod)
  then show ?thesis by (simp add: word_less_nat_alt unat_mod_distrib)
qed

lemma pt_index_align:
  assumes "12 \<le> k"
  shows "pt_index (align_ptr_down va 4096) k = pt_index va k"
proof -
  have "align_ptr_down va 4096 = va AND NOT (mask 12)" by (simp add: align_ptr_down_def mask_eq_exp_minus_1)
  then show ?thesis unfolding pt_index_def by (intro bit_eqI) (use assms in \<open>auto simp: bit_simps dest: bit_imp_le_length\<close>)
qed

lemma is_mapped_walk: "pgtable_is_mapped h pml4 va m \<longleftrightarrow> walk h m pml4 (va_path va) \<noteq> None"
  by (simp add: pgtable_is_mapped_def va_path_def child_def pt_index_align Let_def)

lemma walk_append: "walk h m t (is @ js) = (case walk h m t is of None \<Rightarrow> None | Some t \<Rightarrow> walk h m t js)"
  by (induction "is" arbitrary: t) (auto split: option.splits)

text \<open>An entry that names a frame.\<close>

lemma entry_decode:
  assumes "4096 dvd unat x" "flags AND NOT 0xFFF = 0" "present flags"
  shows "present (x OR flags)" "(x OR flags) AND NOT 0xFFF = x"
proof -
  have x: "x AND 0xFFF = 0"
  proof -
    have "(0xFFF :: u64) = mask 12" by (simp add: mask_eq_exp_minus_1)
    then have "x AND 0xFFF = x mod 2 ^ 12" by (metis take_bit_eq_mask take_bit_eq_mod)
    then show ?thesis using assms(1) by (simp add: word_unat_eq_iff unat_mod_distrib)
  qed
  have f: "flags AND NOT 0xFFF = 0" "flags AND 1 \<noteq> 0" using assms(2,3) by (simp_all add: present_def PAGE_PRESENT_def)
  have "(x OR flags) AND 1 = (x AND 1) OR (flags AND 1)" by (rule bit_eqI) (auto simp: bit_simps)
  then show "present (x OR flags)" using f(2) by (simp add: present_def PAGE_PRESENT_def or_eq_0_iff)
  have "(x OR flags) AND NOT 0xFFF = (x AND NOT 0xFFF) OR (flags AND NOT 0xFFF)" by (rule bit_eqI) (auto simp: bit_simps)
  also have "\<dots> = x AND NOT 0xFFF" using f(1) by simp
  also have "\<dots> = (x AND NOT 0xFFF) OR (x AND 0xFFF)" using x by simp
  also have "\<dots> = x" by (rule bit_eqI) (auto simp only: bit_or_iff bit_and_iff bit_not_iff)
  finally show "(x OR flags) AND NOT 0xFFF = x" .
qed

section \<open>Cells of page frames\<close>

lemma addr_of_unat:
  assumes "p < n" "unat h + n * 4096 < 2 ^ 64"
  shows "unat (addr_of h p) = unat h + p * 4096"
proof -
  have lt: "unat h + p * 4096 < 2 ^ 64" using assms by linarith
  then have "unat (of_nat (p * 4096) :: u64) = p * 4096" by (intro unat_of_nat_small) simp
  then show ?thesis unfolding addr_of_def using lt by (subst unat_add_lem [THEN iffD1]) simp_all
qed

lemma cell_unat:
  assumes "p < n" "unat h + n * 4096 < 2 ^ 64" "i < 512"
  shows "unat (addr_of h p + 8 * i) = unat h + p * 4096 + 8 * unat i"
proof -
  have i: "unat i < 512" using assms(3) by (simp add: word_less_nat_alt)
  then have u: "unat (8 * i) = 8 * unat i" by (simp add: unat_word_ariths)
  have "p * 4096 + 4096 \<le> n * 4096" using assms(1) by simp
  then have "unat h + p * 4096 + 8 * unat i < 2 ^ 64" using assms(2) i by linarith
  then show ?thesis using addr_of_unat [OF assms(1,2)] u by (subst unat_add_lem [THEN iffD1]) simp_all
qed

lemma cell_arith: "p * 4096 + 8 * a = q * 4096 + 8 * b \<Longrightarrow> a < 512 \<Longrightarrow> b < 512 \<Longrightarrow> p = q \<and> a = b" for p q a b :: nat
proof -
  assume a: "p * 4096 + 8 * a = q * 4096 + 8 * b" "a < 512" "b < 512"
  have "(p * 4096 + 8 * a) div 4096 = p" "(q * 4096 + 8 * b) div 4096 = q" using a(2,3) by simp_all
  then show "p = q \<and> a = b" using a(1) by simp
qed

lemma cell_range_arith: "p * 4096 \<le> q * 4096 + 8 * a \<Longrightarrow> a < 512 \<Longrightarrow> q * 4096 + 8 * a - p * 4096 < 4096 \<longleftrightarrow> p = q" for p q a :: nat
  by auto

lemma cell_inj:
  assumes "p < n" "q < n" "unat h + n * 4096 < 2 ^ 64" "i < 512" "j < 512" "addr_of h p + 8 * i = addr_of h q + 8 * j"
  shows "p = q \<and> i = j"
proof -
  have "unat h + p * 4096 + 8 * unat i = unat h + q * 4096 + 8 * unat j"
    using cell_unat [OF assms(1,3,4)] cell_unat [OF assms(2,3,5)] assms(6) by simp
  moreover have "unat i < 512" "unat j < 512" using assms(4,5) by (simp_all add: word_less_nat_alt)
  ultimately have "p = q" "unat i = unat j" using cell_arith [of p "unat i" q "unat j"] by auto
  then show ?thesis by (simp add: word_unat_eq_iff)
qed

lemma zero_page_cell:
  assumes "p < n" "q < n" "unat h + n * 4096 < 2 ^ 64" "i < 512"
  shows "zero_page (addr_of h p) m (addr_of h q + 8 * i) = (if p = q then 0 else m (addr_of h q + 8 * i))"
proof -
  let ?a = "addr_of h q + 8 * i"
  have ua: "unat ?a = unat h + q * 4096 + 8 * unat i" "unat (addr_of h p) = unat h + p * 4096"
    using cell_unat [OF assms(2-4)] addr_of_unat [OF assms(1,3)] by simp_all
  have i: "unat i < 512" using assms(4) by (simp add: word_less_nat_alt)
  have "?a - addr_of h p < 4096 \<longleftrightarrow> p = q"
  proof (cases "addr_of h p \<le> ?a")
    case True
    then have "unat (?a - addr_of h p) = unat ?a - unat (addr_of h p)" by (rule unat_sub)
    then have "?a - addr_of h p < 4096 \<longleftrightarrow> unat h + q * 4096 + 8 * unat i - (unat h + p * 4096) < 4096"
      by (simp add: word_less_nat_alt ua)
    moreover have "unat h + p * 4096 \<le> unat h + q * 4096 + 8 * unat i" using True ua by (simp add: word_le_nat_alt)
    ultimately show ?thesis using i cell_range_arith [of p q "unat i"] by simp
  next
    case False
    then have lt: "unat ?a < unat (addr_of h p)" by (simp add: word_le_nat_alt)
    then have "p \<noteq> q" using ua by auto
    moreover have "\<not> ?a - addr_of h p < 4096"
    proof -
      have "unat (?a - addr_of h p) = 2 ^ 64 - (unat (addr_of h p) - unat ?a)"
        using lt by (simp add: unat_sub_if_size size_word.rep_eq)
      moreover have "unat (addr_of h p) - unat ?a \<le> p * 4096" using ua by simp
      moreover have "unat h + p * 4096 + 4096 < 2 ^ 64 \<or> unat h + p * 4096 + 4096 \<le> 2 ^ 64" using assms(1,3) by linarith
      ultimately show ?thesis using ua lt assms(1,3) i by (simp add: word_less_nat_alt)
    qed
    ultimately show ?thesis by simp
  qed
  then show ?thesis by (simp add: zero_page_def)
qed

section \<open>Address spaces\<close>

text \<open>
  \<open>P\<close> is the set of the top tables in use. Every table that one of them leads to lies in a frame that is not free, and no table
  is reached on two ways, but for the tables of the kernel half, which address spaces share at the same place.
\<close>

definition frame :: "u64 \<Rightarrow> pgmem \<Rightarrow> vaddr \<Rightarrow> bool" where
  "frame h st t \<longleftrightarrow> (\<exists>p < length (b_pages (pm_buddy st)). t = addr_of h p \<and> p \<notin> free_pages (pm_buddy st))"

definition idx_ok :: "nat \<Rightarrow> u64 list \<Rightarrow> bool" where
  "idx_ok n is \<longleftrightarrow> length is \<le> n \<and> list_all (\<lambda>i. i < 512) is"

definition kernel_half :: "u64 list \<Rightarrow> bool" where
  "kernel_half is \<longleftrightarrow> is \<noteq> [] \<and> 256 \<le> hd is"

definition spaces_ok :: "u64 \<Rightarrow> vaddr set \<Rightarrow> pgmem \<Rightarrow> bool" where
  "spaces_ok h P st \<longleftrightarrow> buddy_ok h (pm_buddy st) \<and> 4096 dvd unat h \<and>
     (\<forall>r\<in>P. \<forall>is t. idx_ok 3 is \<longrightarrow> walk h (pm_mem st) r is = Some t \<longrightarrow> frame h st t) \<and>
     (\<forall>r\<in>P. \<forall>r'\<in>P. \<forall>is js t. idx_ok 3 is \<longrightarrow> idx_ok 3 js \<longrightarrow> walk h (pm_mem st) r is = Some t \<longrightarrow>
        walk h (pm_mem st) r' js = Some t \<longrightarrow> is = js \<and> (r = r' \<or> kernel_half is))"

lemma spaces_okD:
  assumes "spaces_ok h P st"
  shows "buddy_ok h (pm_buddy st)" "4096 dvd unat h" "unat h + length (b_pages (pm_buddy st)) * 4096 < 2 ^ 64"
    "r \<in> P \<Longrightarrow> idx_ok 3 is \<Longrightarrow> walk h (pm_mem st) r is = Some t \<Longrightarrow> frame h st t"
    "r \<in> P \<Longrightarrow> r' \<in> P \<Longrightarrow> idx_ok 3 is \<Longrightarrow> idx_ok 3 js \<Longrightarrow> walk h (pm_mem st) r is = Some t \<Longrightarrow>
       walk h (pm_mem st) r' js = Some t \<Longrightarrow> is = js \<and> (r = r' \<or> kernel_half is)"
  using assms unfolding spaces_ok_def buddy_ok_def by blast+

lemma walk_cong:
  assumes "\<And>ks k ls t. js = ks @ k # ls \<Longrightarrow> walk h m r ks = Some t \<Longrightarrow> m' (t + 8 * k) = m (t + 8 * k)"
  shows "walk h m' r js = walk h m r js"
  using assms
proof (induction js arbitrary: r)
  case (Cons j js)
  have c: "child h m' r j = child h m r j" using Cons.prems [of "[]" j js r] by (simp add: child_def)
  show ?case
  proof (cases "child h m r j")
    case (Some t)
    have "m' (u + 8 * k) = m (u + 8 * k)" if "js = ks @ k # ls" "walk h m t ks = Some u" for ks k ls u
      using that Some by (intro Cons.prems [of "j # ks" k ls]) simp_all
    then show ?thesis using Cons.IH [of t] c Some by simp
  qed (simp add: c)
qed simp

lemma idx_ok_prefix: "idx_ok n (ks @ k # ls) \<Longrightarrow> idx_ok (n - 1) ks \<and> k < 512"
  by (auto simp: idx_ok_def)

lemma addr_of_inj: "p < n \<Longrightarrow> q < n \<Longrightarrow> unat h + n * 4096 < 2 ^ 64 \<Longrightarrow> addr_of h p = addr_of h q \<Longrightarrow> p = q"
  using cell_inj [of p n q h 0 0] by simp

text \<open>A cell of a private table is read on one way only.\<close>

lemma private_cell:
  assumes inv: "spaces_ok h P st" and r: "r \<in> P" "r' \<in> P" and w: "walk h (pm_mem st) r is = Some t" "idx_ok 3 is" "i < 512"
    and priv: "\<not> kernel_half (is @ [i]) \<or> P = {r}"
    and w': "walk h (pm_mem st) r' ks = Some u" "idx_ok 3 ks" "k < 512" and eq: "u + 8 * k = t + 8 * i"
  shows "r' = r \<and> ks = is \<and> k = i"
proof -
  obtain p q where p: "t = addr_of h p" "p < length (b_pages (pm_buddy st))" and q: "u = addr_of h q" "q < length (b_pages (pm_buddy st))"
    using spaces_okD(4) [OF inv r(1) w(2,1)] spaces_okD(4) [OF inv r(2) w'(2,1)] by (auto simp: frame_def)
  have "q = p \<and> k = i" using cell_inj [OF q(2) p(2) spaces_okD(3) [OF inv] w'(3) w(3)] eq p(1) q(1) by simp
  then have ut: "u = t" "k = i" using p(1) q(1) by simp_all
  have "is = ks \<and> (r = r' \<or> kernel_half is)" by (rule spaces_okD(5) [OF inv r w(2) w'(2) w(1) w'(1) [unfolded ut(1)]])
  moreover have "r = r'" if "kernel_half is"
  proof -
    have "kernel_half (is @ [i])" using that by (simp add: kernel_half_def)
    then show ?thesis using priv r(2) by simp
  qed
  ultimately show ?thesis using ut(2) by auto
qed

lemma order0_alloc:
  assumes "buddy_ok h b" "free_pages b \<noteq> {}"
  obtains p b' where "buddy_alloc h b 0 = Some (addr_of h p, b')" "buddy_ok h b'" "length (b_pages b') = length (b_pages b)"
    "p < length (b_pages b)" "p \<in> free_pages b" "free_pages b' = free_pages b - {p}" "addr_of h p \<noteq> 0"
proof -
  obtain v b' where a: "buddy_alloc h b (int 0) = Some (v, b')" "buddy_ok h b'" "length (b_pages b') = length (b_pages b)"
    "if v = 0 then b' = b
     else 2 ^ 0 dvd page_of h v \<and> page_of h v + 2 ^ 0 \<le> length (b_pages b) \<and> {page_of h v..<page_of h v + 2 ^ 0} \<subseteq> free_pages b \<and>
       free_pages b' = free_pages b - {page_of h v..<page_of h v + 2 ^ 0} \<and> addr_of h (page_of h v) = v"
    using buddy_alloc_law [OF assms(1), of 0] by auto
  have "v \<noteq> 0"
  proof
    assume v: "v = 0"
    have inv: "buddy_inv b" and ok: "unat h + length (b_pages b) * 4096 < 2 ^ 64" "h \<noteq> 0" using assms(1) by (simp_all add: buddy_ok_def)
    have "blocks b \<noteq> {}" using inv assms(2) by (auto simp: buddy_inv_def covered_def)
    then obtain p where "buddy_alloc h b (int 0) = Some (of_nat (p * 4096) + h, b')" "took_block b p 0 b'"
      using buddy_alloc_cases [OF inv, of 0 h] a(1) by fastforce
    then show False using v a(1) page_of_vaddr(2) [OF _ ok, of p] by (auto simp: took_block_def)
  qed
  moreover have "{page_of h v..<page_of h v + 2 ^ 0} = {page_of h v}" by auto
  ultimately show ?thesis using a by (intro that [of "page_of h v" b']) auto
qed

section \<open>Mapping a page\<close>

definition flags_ok :: "u64 \<Rightarrow> bool" where
  "flags_ok flags \<longleftrightarrow> present flags \<and> flags AND NOT 0xFFF = 0"

lemma flags_entry:
  assumes "flags_ok flags" "4096 dvd unat x"
  shows "present (x OR flags)" "entry_table h (x OR flags) = x + h"
  using entry_decode [OF assms(2)] assms(1) by (simp_all add: flags_ok_def entry_table_def)

lemma addr_of_sub: "addr_of h p - h = of_nat (p * 4096)"
  by (simp add: addr_of_def)

lemma frame_offset: "p < n \<Longrightarrow> unat h + n * 4096 < 2 ^ 64 \<Longrightarrow> 4096 dvd unat (of_nat (p * 4096) :: u64)"
proof -
  assume "p < n" "unat h + n * 4096 < 2 ^ 64"
  then have "p * 4096 < 2 ^ 64" by linarith
  then have "unat (of_nat (p * 4096) :: u64) = p * 4096" by (intro unat_of_nat_small) simp
  then show ?thesis by simp
qed

text \<open>A new table below an empty entry: the ways that go through the entry end at the new, empty table.\<close>

definition grown_walk :: "vaddr \<Rightarrow> u64 list \<Rightarrow> vaddr \<Rightarrow> (vaddr \<Rightarrow> u64 list \<Rightarrow> vaddr option) \<Rightarrow> vaddr \<Rightarrow> u64 list \<Rightarrow> vaddr option" where
  "grown_walk r is c f r' js =
     (if r' = r \<and> take (length is) js = is then (if js = is then Some c else None) else f r' js)"

lemma grow_walk:
  assumes inv: "spaces_ok h P st" and r: "r \<in> P" and w: "walk h (pm_mem st) r is = Some t" "idx_ok 2 is" "i < 512"
    and priv: "\<not> kernel_half (is @ [i]) \<or> P = {r}" and fl: "flags_ok flags"
    and p: "p < length (b_pages (pm_buddy st))" "p \<in> free_pages (pm_buddy st)"
    and m: "m = (zero_page (addr_of h p) (pm_mem st))(t + 8 * i := (addr_of h p - h) OR flags)"
    and r': "r' \<in> P" "idx_ok 4 js"
  shows "walk h m r' js = grown_walk r (is @ [i]) (addr_of h p) (walk h (pm_mem st)) r' js"
proof -
  note len = spaces_okD(3) [OF inv]
  have i3: "idx_ok 3 is" using w(2) by (auto simp: idx_ok_def)
  have cell: "m (u + 8 * k) = pm_mem st (u + 8 * k)"
    if u: "walk h (pm_mem st) q ks = Some u" "q \<in> P" "idx_ok 3 ks" "k < 512" and ne: "\<not> (q = r \<and> ks = is \<and> k = i)" for q ks k u
  proof -
    obtain x where x: "u = addr_of h x" "x < length (b_pages (pm_buddy st))" "x \<notin> free_pages (pm_buddy st)"
      using spaces_okD(4) [OF inv u(2,3,1)] by (auto simp: frame_def)
    then have "zero_page (addr_of h p) (pm_mem st) (u + 8 * k) = pm_mem st (u + 8 * k)"
      using zero_page_cell [OF p(1) x(2) len u(4)] p(2) by auto
    moreover have "u + 8 * k \<noteq> t + 8 * i" using private_cell [OF inv r u(2) w(1) i3 w(3) priv u(1,3,4)] ne by blast
    ultimately show ?thesis by (simp add: m)
  qed
  have other: "walk h m q ks = walk h (pm_mem st) q ks"
    if q: "q \<in> P" "idx_ok 4 ks" and ne: "\<not> (q = r \<and> take (length (is @ [i])) ks = is @ [i])" for q ks
  proof (rule walk_cong)
    fix a k ls u
    assume ks: "ks = a @ k # ls" and u: "walk h (pm_mem st) q a = Some u"
    have "idx_ok 3 a" "k < 512" using idx_ok_prefix [of 4 a k ls] q(2) ks by simp_all
    moreover have "\<not> (q = r \<and> a = is \<and> k = i)" using ne ks by auto
    ultimately show "m (u + 8 * k) = pm_mem st (u + 8 * k)" by (intro cell [OF u q(1)])
  qed
  show ?thesis
  proof (cases "r' = r \<and> take (length (is @ [i])) js = is @ [i]")
    case False
    then show ?thesis using other [OF r' False] by (simp only: grown_walk_def if_False)
  next
    case True
    then obtain ls where js: "js = (is @ [i]) @ ls" by (metis append_take_drop_id)
    have "walk h m r is = Some t" using other [OF r, of "is"] i3 w(1) by (simp add: idx_ok_def)
    moreover have "child h m t i = Some (addr_of h p)"
      using flags_entry [OF fl frame_offset [OF p(1) len]] by (simp add: child_def m addr_of_sub) (simp add: addr_of_def)
    ultimately have isw: "walk h m r (is @ [i]) = Some (addr_of h p)" by (simp add: walk_append)
    have "walk h m (addr_of h p) ls = None" if ne: "ls \<noteq> []"
    proof -
      obtain k l where l: "ls = k # l" using ne by (cases ls) auto
      have k: "k < 512" using r'(2) js l by (simp add: idx_ok_def)
      obtain x where x: "t = addr_of h x" "x < length (b_pages (pm_buddy st))" "x \<notin> free_pages (pm_buddy st)"
        using spaces_okD(4) [OF inv r i3 w(1)] by (auto simp: frame_def)
      then have "addr_of h p + 8 * k \<noteq> t + 8 * i" using cell_inj [OF p(1) x(2) len k w(3)] p(2) by auto
      then have "m (addr_of h p + 8 * k) = 0" using zero_page_cell [OF p(1) p(1) len k] by (simp add: m)
      then show ?thesis by (simp add: l child_def present_def)
    qed
    then show ?thesis using True isw js unfolding grown_walk_def by (simp add: walk_append del: append_assoc)
  qed
qed

text \<open>Tables were added with at most \<open>n\<close> free pages, and no address is mapped differently.\<close>

definition grew :: "u64 \<Rightarrow> vaddr set \<Rightarrow> nat \<Rightarrow> pgmem \<Rightarrow> pgmem \<Rightarrow> bool" where
  "grew h P n st st' \<longleftrightarrow> spaces_ok h P st' \<and>
     (\<forall>r\<in>P. \<forall>js. idx_ok 4 js \<and> length js = 4 \<longrightarrow> walk h (pm_mem st') r js = walk h (pm_mem st) r js) \<and>
     free_pages (pm_buddy st') \<subseteq> free_pages (pm_buddy st) \<and> card (free_pages (pm_buddy st)) \<le> n + card (free_pages (pm_buddy st'))"

lemma grew_trans: "grew h P a st st' \<Longrightarrow> grew h P b st' st'' \<Longrightarrow> grew h P (a + b) st st''"
  unfolding grew_def by auto

lemma next_table_ok:
  assumes inv: "spaces_ok h P st" and r: "r \<in> P" and w: "walk h (pm_mem st) r is = Some t" "idx_ok 2 is" "i < 512"
    and priv: "\<not> kernel_half (is @ [i]) \<or> P = {r}" and fl: "flags_ok flags" and free: "0 < card (free_pages (pm_buddy st))"
  shows "\<exists>c st'. next_table h t i flags st = Some (c, st') \<and> grew h P 1 st st' \<and> walk h (pm_mem st') r (is @ [i]) = Some c"
proof (cases "present (pm_mem st (t + 8 * i))")
  case True
  then show ?thesis
    using inv w(1) by (intro exI [of _ "entry_table h (pm_mem st (t + 8 * i))"] exI [of _ st])
      (simp add: next_table_def walk_append child_def grew_def)
next
  case False
  note len = spaces_okD(3) [OF inv]
  obtain p b where a: "buddy_alloc h (pm_buddy st) 0 = Some (addr_of h p, b)" "buddy_ok h b" "length (b_pages b) = length (b_pages (pm_buddy st))"
    and p: "p < length (b_pages (pm_buddy st))" "p \<in> free_pages (pm_buddy st)" "free_pages b = free_pages (pm_buddy st) - {p}" "addr_of h p \<noteq> 0"
    using order0_alloc [OF spaces_okD(1) [OF inv]] free by (metis card.empty less_irrefl)
  define m where "m = (zero_page (addr_of h p) (pm_mem st))(t + 8 * i := (addr_of h p - h) OR flags)"
  let ?st = "st\<lparr>pm_buddy := b, pm_mem := m\<rparr>"
  have run: "next_table h t i flags st = Some (addr_of h p, ?st)"
    using False a(1) p(4) by (simp add: next_table_def pgtable_alloc_table_def m_def)
  have gw: "walk h m r' js = grown_walk r (is @ [i]) (addr_of h p) (walk h (pm_mem st)) r' js" if "r' \<in> P" "idx_ok 4 js" for r' js
    by (rule grow_walk [OF inv r w priv fl p(1,2) m_def that])
  have none: "walk h (pm_mem st) r (is @ [i]) = None" using w(1) False by (simp add: walk_append child_def)
  have i4: "idx_ok 4 (is @ [i])" and le3: "length (is @ [i]) \<le> 3" using w(2,3) by (auto simp: idx_ok_def)
  have up: "idx_ok 4 js" if "idx_ok 3 js" for js using that by (simp add: idx_ok_def)
  have new: "(r' = r \<and> js = is @ [i] \<and> u = addr_of h p) \<or> (walk h (pm_mem st) r' js = Some u \<and> u \<noteq> addr_of h p \<and> frame h st u)"
    if "r' \<in> P" "idx_ok 3 js" "walk h m r' js = Some u" for r' js u
  proof (cases "r' = r \<and> take (length (is @ [i])) js = is @ [i]")
    case True
    then show ?thesis using gw [OF that(1) up [OF that(2)]] that(3) by (simp add: grown_walk_def split: if_splits)
  next
    case F: False
    then have o: "walk h (pm_mem st) r' js = Some u" using gw [OF that(1) up [OF that(2)]] that(3) by (simp only: grown_walk_def if_False)
    moreover have "frame h st u" by (rule spaces_okD(4) [OF inv that(1,2) o])
    moreover have "u \<noteq> addr_of h p" using \<open>frame h st u\<close> addr_of_inj [OF _ p(1) len] p(2) by (auto simp: frame_def)
    ultimately show ?thesis by blast
  qed
  have keep: "frame h ?st u" if "frame h st u" for u using that a(3) p(3) by (auto simp: frame_def)
  have fresh: "frame h ?st (addr_of h p)" using p(1,3) a(3) by (auto simp: frame_def)
  have "frame h ?st u" if "r' \<in> P" "idx_ok 3 js" "walk h m r' js = Some u" for r' js u
    using new [OF that] keep fresh by blast
  moreover have "ks = js \<and> (q = r' \<or> kernel_half ks)"
    if "q \<in> P" "r' \<in> P" "idx_ok 3 ks" "idx_ok 3 js" "walk h m q ks = Some u" "walk h m r' js = Some u" for q r' ks js u
    using new [OF that(1,3,5)] new [OF that(2,4,6)] spaces_okD(5) [OF inv that(1-4)] by blast
  ultimately have "spaces_ok h P ?st" unfolding spaces_ok_def using a(2) spaces_okD(2) [OF inv] by simp
  moreover have "walk h m r (is @ [i]) = Some (addr_of h p)" using gw [OF r i4] by (simp add: grown_walk_def)
  moreover have "walk h m r' js = walk h (pm_mem st) r' js" if "r' \<in> P" "idx_ok 4 js" "length js = 4" for r' js
  proof (cases "r' = r \<and> take (length (is @ [i])) js = is @ [i]")
    case True
    then obtain ls where js: "js = (is @ [i]) @ ls" by (metis append_take_drop_id)
    have "walk h (pm_mem st) r js = None" using none unfolding js walk_append [of _ _ _ "is @ [i]"] by simp
    moreover have "js \<noteq> is @ [i]" using that(3) le3 by auto
    ultimately show ?thesis using gw [OF that(1,2)] True by (simp add: grown_walk_def)
  next
    case F: False
    then show ?thesis using gw [OF that(1,2)] by (simp only: grown_walk_def if_False)
  qed
  moreover have "finite (free_pages (pm_buddy st))" unfolding free_pages_def by simp
  ultimately have "grew h P 1 st ?st" "walk h (pm_mem ?st) r (is @ [i]) = Some (addr_of h p)"
    using p(2,3) by (simp_all add: grew_def card_Diff_singleton)
  then show ?thesis using run by blast
qed

text \<open>Storing an entry of a last-level table.\<close>

lemma leaf_ok:
  assumes inv: "spaces_ok h P st" and r: "r \<in> P" and w: "walk h (pm_mem st) r is = Some t" "idx_ok 3 is" "length is = 3" "i < 512"
    and priv: "\<not> kernel_half (is @ [i]) \<or> P = {r}" and m_def: "m = (pm_mem st)(t + 8 * i := e)"
  shows "r' \<in> P \<Longrightarrow> idx_ok 4 js \<Longrightarrow>
      walk h m r' js = (if r' = r \<and> js = is @ [i] then (if present e then Some (entry_table h e) else None) else walk h (pm_mem st) r' js)"
    and "spaces_ok h P (st\<lparr>pm_mem := m\<rparr>)"
proof -
  have walk: "walk h m r' js = (if r' = r \<and> js = is @ [i] then (if present e then Some (entry_table h e) else None) else walk h (pm_mem st) r' js)"
    if r': "r' \<in> P" "idx_ok 4 js" for r' js
  proof -
    have other: "walk h m r' js = walk h (pm_mem st) r' js" if ne: "\<not> (r' = r \<and> js = is @ [i])" and r': "r' \<in> P" "idx_ok 4 js" for r' js
    proof (rule walk_cong)
      fix ks k ls u
      assume js: "js = ks @ k # ls" and u: "walk h (pm_mem st) r' ks = Some u"
      have k: "idx_ok 3 ks" "k < 512" using idx_ok_prefix [of 4 ks k ls] r'(2) js by simp_all
      have "u + 8 * k \<noteq> t + 8 * i"
      proof
        assume "u + 8 * k = t + 8 * i"
        then have "r' = r \<and> ks = is \<and> k = i" using private_cell [OF inv r r'(1) w(1,2,4) priv u k] by blast
        moreover have "length js \<le> 4" using r'(2) by (simp add: idx_ok_def)
        ultimately show False using ne js w(3) by auto
      qed
      then show "m (u + 8 * k) = pm_mem st (u + 8 * k)" by (simp add: m_def)
    qed
    show ?thesis
    proof (cases "r' = r \<and> js = is @ [i]")
      case True
      have "walk h m r is = Some t" using other [OF _ r, of "is"] w(1-3) by (simp add: idx_ok_def)
      then show ?thesis using True by (simp add: walk_append child_def m_def)
    next
      case False
      then show ?thesis using other [OF False r'] by (simp only: if_False)
    qed
  qed
  then show "r' \<in> P \<Longrightarrow> idx_ok 4 js \<Longrightarrow>
      walk h m r' js = (if r' = r \<and> js = is @ [i] then (if present e then Some (entry_table h e) else None) else walk h (pm_mem st) r' js)" .
  have same: "walk h m r' js = walk h (pm_mem st) r' js" if "r' \<in> P" "idx_ok 3 js" for r' js
    using walk [OF that(1), of js] that(2) w(3) by (auto simp: idx_ok_def)
  then show "spaces_ok h P (st\<lparr>pm_mem := m\<rparr>)"
    using inv unfolding spaces_ok_def frame_def by simp
qed

lemma map_ok:
  assumes inv: "spaces_ok h P st" and r: "r \<in> P" and priv: "pt_index va 39 < 256 \<or> P = {r}" and fl: "flags_ok flags"
    and free: "3 \<le> card (free_pages (pm_buddy st))"
  shows "\<exists>st'. pgtable_map h r va pa flags st = Some st' \<and> spaces_ok h P st' \<and>
    (\<forall>r'\<in>P. \<forall>js. idx_ok 4 js \<and> length js = 4 \<longrightarrow> walk h (pm_mem st') r' js =
       (if r' = r \<and> js = va_path va then Some (align_ptr_down pa 4096 + h) else walk h (pm_mem st) r' js)) \<and>
    free_pages (pm_buddy st') \<subseteq> free_pages (pm_buddy st) \<and> card (free_pages (pm_buddy st)) \<le> 3 + card (free_pages (pm_buddy st'))"
proof -
  let ?a = "pt_index va 39" and ?b = "pt_index va 30" and ?c = "pt_index va 21" and ?d = "pt_index va 12"
  have lt: "?a < 512" "?b < 512" "?c < 512" "?d < 512" by (rule pt_index_less)+
  have pr: "\<not> kernel_half (?a # ks) \<or> P = {r}" for ks using priv by (auto simp: kernel_half_def not_le)
  have ne: "free_pages b \<noteq> {}" if "0 < card (free_pages b)" for b using that by auto
  obtain t1 s1 where n1: "next_table h r ?a flags st = Some (t1, s1)" "grew h P 1 st s1" "walk h (pm_mem s1) r ([] @ [?a]) = Some t1"
    using next_table_ok [OF inv r, of "[]" r ?a flags] lt(1) pr [of "[]"] fl free by (auto simp: idx_ok_def)
  have g1: "spaces_ok h P s1" "0 < card (free_pages (pm_buddy s1))" using n1(2) free by (auto simp: grew_def)
  obtain t2 s2 where n2: "next_table h t1 ?b flags s1 = Some (t2, s2)" "grew h P 1 s1 s2" "walk h (pm_mem s2) r (([] @ [?a]) @ [?b]) = Some t2"
    using next_table_ok [OF g1(1) r n1(3) _ lt(2) _ fl g1(2)] lt(1) pr [of "[?b]"] by (auto simp: idx_ok_def)
  have g2: "spaces_ok h P s2" "0 < card (free_pages (pm_buddy s2))" using n1(2) n2(2) free by (auto simp: grew_def)
  obtain t3 s3 where n3: "next_table h t2 ?c flags s2 = Some (t3, s3)" "grew h P 1 s2 s3" "walk h (pm_mem s3) r ((([] @ [?a]) @ [?b]) @ [?c]) = Some t3"
    using next_table_ok [OF g2(1) r n2(3) _ lt(3) _ fl g2(2)] lt(1,2) pr [of "[?b, ?c]"] by (auto simp: idx_ok_def)
  have g3: "grew h P 3 st s3" using grew_trans [OF grew_trans [OF n1(2) n2(2)] n3(2)] by (simp add: numeral_3_eq_3)
  then have i3: "spaces_ok h P s3" by (simp add: grew_def)
  let ?e = "align_ptr_down pa 4096 OR flags"
  let ?s = "s3\<lparr>pm_mem := (pm_mem s3)(t3 + 8 * ?d := ?e)\<rparr>"
  have "4096 dvd unat (align_ptr_down pa 4096)" by (simp add: unat_align_ptr_down_page)
  note e = flags_entry(1) [OF fl this] flags_entry(2) [OF fl this, of h]
  have run: "pgtable_map h r va pa flags st = Some ?s"
    using n1(1) n2(1) n3(1) by (simp add: pgtable_map_def pt_index_align)
  have "idx_ok 3 [?a, ?b, ?c]" using lt by (simp add: idx_ok_def)
  then have i3': "idx_ok 3 ((([] @ [?a]) @ [?b]) @ [?c])" by simp
  have l: "r' \<in> P \<Longrightarrow> idx_ok 4 js \<Longrightarrow> walk h (pm_mem ?s) r' js = (if r' = r \<and> js = va_path va then Some (align_ptr_down pa 4096 + h) else walk h (pm_mem s3) r' js)"
    "spaces_ok h P ?s" for r' js
    using leaf_ok [OF i3 r n3(3) i3' _ lt(4), where m = "pm_mem ?s" and e = ?e] pr [of "[?b, ?c, ?d]"] e by (simp_all add: va_path_def)
  show ?thesis
  proof (intro exI conjI)
    show "pgtable_map h r va pa flags st = Some ?s" "spaces_ok h P ?s" by (fact run l(2))+
    show "\<forall>r'\<in>P. \<forall>js. idx_ok 4 js \<and> length js = 4 \<longrightarrow> walk h (pm_mem ?s) r' js =
       (if r' = r \<and> js = va_path va then Some (align_ptr_down pa 4096 + h) else walk h (pm_mem st) r' js)"
      using l(1) g3 unfolding grew_def by (metis (no_types, lifting))
  qed (use g3 in \<open>simp_all add: grew_def\<close>)
qed

lemma va_path_ok: "idx_ok 4 (va_path w)" "length (va_path w) = 4"
  by (simp_all add: idx_ok_def va_path_def pt_index_less)

section \<open>New address spaces\<close>

text \<open>A new table: a frame that was free, all of whose entries are empty.\<close>

lemma alloc_table_ok:
  assumes ok: "buddy_ok h (pm_buddy st)" and free: "0 < card (free_pages (pm_buddy st))"
  obtains p st' where "pgtable_alloc_table h st = Some (addr_of h p, st')" "buddy_ok h (pm_buddy st')"
    "pm_mem st' = zero_page (addr_of h p) (pm_mem st)" "length (b_pages (pm_buddy st')) = length (b_pages (pm_buddy st))"
    "p < length (b_pages (pm_buddy st))" "p \<in> free_pages (pm_buddy st)" "free_pages (pm_buddy st') = free_pages (pm_buddy st) - {p}"
proof -
  obtain p b where "buddy_alloc h (pm_buddy st) 0 = Some (addr_of h p, b)" "buddy_ok h b" "length (b_pages b) = length (b_pages (pm_buddy st))"
    "p < length (b_pages (pm_buddy st))" "p \<in> free_pages (pm_buddy st)" "free_pages b = free_pages (pm_buddy st) - {p}" "addr_of h p \<noteq> 0"
    using order0_alloc [OF ok] free by (metis card.empty less_irrefl)
  then show ?thesis
    by (intro that [of p "st\<lparr>pm_buddy := b, pm_mem := zero_page (addr_of h p) (pm_mem st)\<rparr>"]) (simp_all add: pgtable_alloc_table_def)
qed

lemma copy_entries_cell:
  assumes "p < n" "q < n" "p \<noteq> q" "unat h + n * 4096 < 2 ^ 64" "set is \<subseteq> {..<512}"
    and "x < n" "i < 512"
  shows "copy_entries (addr_of h p) (addr_of h q) is m (addr_of h x + 8 * i) =
    (if x = p \<and> unat i \<in> set is then m (addr_of h q + 8 * i) else m (addr_of h x + 8 * i))"
  using assms(5-)
proof (induction "is" arbitrary: m x i)
  case Nil
  then show ?case by (simp add: copy_entries_def)
next
  case (Cons j js)
  have uj: "unat (of_nat j :: u64) = j" using Cons.prems(1) by (intro unat_of_nat_small) auto
  then have j: "(of_nat j :: u64) < 512" using Cons.prems(1) by (simp add: word_less_nat_alt)
  let ?m = "m(addr_of h p + 8 * of_nat j := m (addr_of h q + 8 * of_nat j))"
  have hit: "addr_of h y + 8 * l = addr_of h p + 8 * of_nat j \<longleftrightarrow> y = p \<and> unat l = j" if "y < n" "l < 512" for y l
    using cell_inj [OF that(1) assms(1,4) that(2) j] uj by (auto simp: word_unat_eq_iff)
  have step: "copy_entries (addr_of h p) (addr_of h q) (j # js) m = copy_entries (addr_of h p) (addr_of h q) js ?m"
    by (simp add: copy_entries_def)
  have "copy_entries (addr_of h p) (addr_of h q) (j # js) m (addr_of h x + 8 * i) =
      (if x = p \<and> unat i \<in> set js then ?m (addr_of h q + 8 * i) else ?m (addr_of h x + 8 * i))"
    unfolding step by (rule Cons.IH) (use Cons.prems in auto)
  moreover have "?m (addr_of h q + 8 * i) = m (addr_of h q + 8 * i)" using hit [OF assms(2) Cons.prems(3)] assms(3) by simp
  moreover have "?m (addr_of h x + 8 * i) = (if x = p \<and> unat i = j then m (addr_of h q + 8 * i) else m (addr_of h x + 8 * i))"
    using hit [OF Cons.prems(2,3)] by (simp only: fun_upd_apply) (auto simp: word_unat_eq_iff uj)
  ultimately show ?case by (cases "x = p"; cases "unat i = j") (simp_all del: fun_upd_apply)
qed

lemma create_walk:
  assumes inv: "spaces_ok h P st" and k: "k \<in> P" and p: "p < length (b_pages (pm_buddy st))" "p \<in> free_pages (pm_buddy st)"
    and m: "m = copy_entries (addr_of h p) k [256..<512] (zero_page (addr_of h p) (pm_mem st))"
  shows "r \<in> P \<Longrightarrow> idx_ok 4 js \<Longrightarrow> walk h m r js = walk h (pm_mem st) r js"
    and "idx_ok 4 js \<Longrightarrow> js \<noteq> [] \<Longrightarrow> walk h m (addr_of h p) js = (if kernel_half js then walk h (pm_mem st) k js else None)"
proof -
  note len = spaces_okD(3) [OF inv]
  obtain q where q: "k = addr_of h q" "q < length (b_pages (pm_buddy st))" "q \<notin> free_pages (pm_buddy st)"
    using spaces_okD(4) [OF inv k, of "[]" k] by (auto simp: idx_ok_def frame_def)
  then have pq: "p \<noteq> q" using p(2) by auto
  have cell: "m (addr_of h x + 8 * i) = (if x = p then (if 256 \<le> i then pm_mem st (k + 8 * i) else 0) else pm_mem st (addr_of h x + 8 * i))"
    if "x < length (b_pages (pm_buddy st))" "i < 512" for x i
  proof -
    have "256 \<le> i \<longleftrightarrow> unat i \<in> set [256..<512]" using that(2) unfolding set_upt atLeastLessThan_iff by (simp add: word_le_nat_alt word_less_nat_alt)
    then show ?thesis
      unfolding m q(1) using copy_entries_cell [OF p(1) q(2) pq len _ that, of "[256..<512]"] zero_page_cell [OF p(1) _ len that(2)] that(1) q(2) pq
      by (auto simp del: upt_Suc set_upt simp: set_upt [symmetric])
  qed
  have old: "walk h m r js = walk h (pm_mem st) r js" if r: "r \<in> P" "idx_ok 4 js" for r js
  proof (rule walk_cong)
    fix ks i ls u
    assume js: "js = ks @ i # ls" and u: "walk h (pm_mem st) r ks = Some u"
    have i: "idx_ok 3 ks" "i < 512" using idx_ok_prefix [of 4 ks i ls] r(2) js by simp_all
    obtain x where x: "u = addr_of h x" "x < length (b_pages (pm_buddy st))" "x \<notin> free_pages (pm_buddy st)"
      using spaces_okD(4) [OF inv r(1) i(1) u] by (auto simp: frame_def)
    then show "m (u + 8 * i) = pm_mem st (u + 8 * i)" using cell [OF x(2) i(2)] p(2) by auto
  qed
  then show "r \<in> P \<Longrightarrow> idx_ok 4 js \<Longrightarrow> walk h m r js = walk h (pm_mem st) r js" .
  assume js: "idx_ok 4 js" "js \<noteq> []"
  then obtain i ls where l: "js = i # ls" "i < 512" "idx_ok 3 ls" by (cases js) (auto simp: idx_ok_def)
  show "walk h m (addr_of h p) js = (if kernel_half js then walk h (pm_mem st) k js else None)"
  proof (cases "256 \<le> i")
    case False
    then show ?thesis using cell [OF p(1) l(2)] l(1) by (simp add: child_def present_def kernel_half_def)
  next
    case True
    have "child h m (addr_of h p) i = child h m k i" using cell [OF p(1) l(2)] cell [OF q(2) l(2)] True pq q(1) by (simp add: child_def)
    then have "walk h m (addr_of h p) js = walk h m k js" using l(1) by simp
    then show ?thesis using old [OF k js(1)] True l(1) by (simp add: kernel_half_def)
  qed
qed

lemma create_ok:
  assumes inv: "spaces_ok h P st" and k: "k \<in> P" and free: "0 < card (free_pages (pm_buddy st))"
  shows "\<exists>r st'. pgtable_create h k st = Some (r, st') \<and> r \<notin> P \<and> spaces_ok h (insert r P) st' \<and>
    (\<forall>js. idx_ok 4 js \<and> js \<noteq> [] \<longrightarrow> walk h (pm_mem st') r js = (if kernel_half js then walk h (pm_mem st) k js else None)) \<and>
    (\<forall>r'\<in>P. \<forall>js. idx_ok 4 js \<longrightarrow> walk h (pm_mem st') r' js = walk h (pm_mem st) r' js)"
proof -
  note len = spaces_okD(3) [OF inv]
  obtain p s1 where a: "pgtable_alloc_table h st = Some (addr_of h p, s1)" "buddy_ok h (pm_buddy s1)"
    "pm_mem s1 = zero_page (addr_of h p) (pm_mem st)" "length (b_pages (pm_buddy s1)) = length (b_pages (pm_buddy st))"
    and p: "p < length (b_pages (pm_buddy st))" "p \<in> free_pages (pm_buddy st)" "free_pages (pm_buddy s1) = free_pages (pm_buddy st) - {p}"
    by (rule alloc_table_ok [OF spaces_okD(1) [OF inv] free])
  define m where "m = copy_entries (addr_of h p) k [256..<512] (zero_page (addr_of h p) (pm_mem st))"
  let ?r = "addr_of h p" and ?st = "s1\<lparr>pm_mem := m\<rparr>"
  have run: "pgtable_create h k st = Some (?r, ?st)"
    unfolding pgtable_create_def KERNEL_PML4_INDEX_def by (simp only: a(1,3) bind.bind_lunit prod.case m_def)
  note cw = create_walk [OF inv k p(1,2) m_def]
  have up: "idx_ok 4 js" if "idx_ok 3 js" for js using that by (simp add: idx_ok_def)
  have new: "u \<noteq> ?r" if "frame h st u" for u using that addr_of_inj [OF _ p(1) len] p(2) by (auto simp: frame_def)
  have keep: "frame h ?st u" if "frame h st u" for u using that a(4) p(3) by (auto simp: frame_def)
  have fresh: "frame h ?st ?r" using p(1,3) a(4) by (auto simp: frame_def)
  have rP: "?r \<notin> P" using new spaces_okD(4) [OF inv, of ?r "[]" ?r] by (auto simp: idx_ok_def)
  have cases: "(r = ?r \<and> js = [] \<and> u = ?r) \<or>
      (\<exists>q\<in>P. (r = q \<or> r = ?r \<and> q = k \<and> kernel_half js) \<and> walk h (pm_mem st) q js = Some u \<and> u \<noteq> ?r \<and> frame h st u)"
    if "r \<in> insert ?r P" "idx_ok 3 js" "walk h m r js = Some u" for r js u
  proof (cases "r = ?r")
    case True
    show ?thesis
    proof (cases "js = []")
      case False
      then have "kernel_half js" "walk h (pm_mem st) k js = Some u"
        using cw(2) [OF up [OF that(2)] False] that(3) True by (auto split: if_splits)
      then show ?thesis using spaces_okD(4) [OF inv k that(2)] new True k by blast
    qed (use True that(3) in simp)
  next
    case False
    then have "r \<in> P" "walk h (pm_mem st) r js = Some u" using that(1,3) cw(1) [of r js] up [OF that(2)] by auto
    then show ?thesis using spaces_okD(4) [OF inv _ that(2)] new by blast
  qed
  have fr: "frame h ?st u" if "r \<in> insert ?r P" "idx_ok 3 js" "walk h m r js = Some u" for r js u
    using cases [OF that] keep fresh by blast
  have inj: "ks = js \<and> (q = r \<or> kernel_half ks)"
    if "q \<in> insert ?r P" "r \<in> insert ?r P" "idx_ok 3 ks" "idx_ok 3 js" "walk h m q ks = Some u" "walk h m r js = Some u" for q r ks js u
  proof (cases "u = ?r")
    note two = cases [OF that(1,3,5)] cases [OF that(2,4,6)]
    case True
    then show ?thesis using two by blast
  next
    note two = cases [OF that(1,3,5)] cases [OF that(2,4,6)] and src = that(3,4)
    case False
    then obtain a b where "a \<in> P" "b \<in> P" "walk h (pm_mem st) a ks = Some u" "walk h (pm_mem st) b js = Some u"
      "q = a \<or> kernel_half ks" "r = b \<or> kernel_half js"
      using two by blast
    then show ?thesis using spaces_okD(5) [OF inv _ _ src] by blast
  qed
  have "spaces_ok h (insert ?r P) ?st"
    unfolding spaces_ok_def using a(2) spaces_okD(2) [OF inv] fr inj by simp
  then show ?thesis using run rP cw by (intro exI [of _ ?r] exI [of _ ?st]) simp
qed

section \<open>What the page tables promise\<close>


text \<open>
  A new address space translates the kernel half as the kernel does and nothing else, and the address spaces that
  exist translate as before.
\<close>

theorem pgtable_create_exact:
  assumes "spaces_ok h P st" "k \<in> P" "0 < card (free_pages (pm_buddy st))"
  shows "\<exists>r st'. pgtable_create h k st = Some (r, st') \<and> r \<notin> P \<and> spaces_ok h (insert r P) st' \<and>
    (\<forall>w. pgtable_kva h r w (pm_mem st') = (if pt_index w 39 < 256 then 0 else pgtable_kva h k w (pm_mem st))) \<and>
    (\<forall>r'\<in>P. \<forall>w. pgtable_kva h r' w (pm_mem st') = pgtable_kva h r' w (pm_mem st))"
proof -
  obtain r st' where c: "pgtable_create h k st = Some (r, st')" "r \<notin> P" "spaces_ok h (insert r P) st'"
    and new: "\<forall>js. idx_ok 4 js \<and> js \<noteq> [] \<longrightarrow> walk h (pm_mem st') r js = (if kernel_half js then walk h (pm_mem st) k js else None)"
    and old: "\<forall>r'\<in>P. \<forall>js. idx_ok 4 js \<longrightarrow> walk h (pm_mem st') r' js = walk h (pm_mem st) r' js"
    using create_ok [OF assms] by blast
  have "kernel_half (va_path w) \<longleftrightarrow> \<not> pt_index w 39 < 256" "va_path w \<noteq> []" for w by (auto simp: kernel_half_def va_path_def not_less)
  then show ?thesis using c new old va_path_ok by (intro exI [of _ r] exI [of _ st']) (simp add: kva_walk)
qed

text \<open>The machine of ten pages of Buddy, with one table on it.\<close>

lemma demo_space:
  obtains r st where "spaces_ok 0xFFFF800000000000 {r} st" "card (free_pages (pm_buddy st)) = 7"
proof -
  let ?h = "0xFFFF800000000000 :: u64" and ?st = "\<lparr>pm_buddy = demo_buddy, pm_mem = \<lambda>_. 0\<rparr>"
  have c8: "card (free_pages demo_buddy) = 8" by (simp add: demo_buddy_free)
  have "buddy_ok ?h (pm_buddy ?st)" "0 < card (free_pages (pm_buddy ?st))" using demo_buddy_ok c8 by simp_all
  from alloc_table_ok [OF this] obtain p st where a: "pgtable_alloc_table ?h ?st = Some (addr_of ?h p, st)"
    "buddy_ok ?h (pm_buddy st)" "pm_mem st = zero_page (addr_of ?h p) (pm_mem ?st)"
    "length (b_pages (pm_buddy st)) = length (b_pages (pm_buddy ?st))" "p < length (b_pages (pm_buddy ?st))" "p \<in> free_pages (pm_buddy ?st)"
    "free_pages (pm_buddy st) = free_pages (pm_buddy ?st) - {p}" .
  have z: "pm_mem st = (\<lambda>_. 0)" using a(3) by (simp add: zero_page_def fun_eq_iff)
  have only: "is = [] \<and> u = addr_of ?h p" if "walk ?h (pm_mem st) (addr_of ?h p) is = Some u" for "is" u
    using that by (cases "is") (simp_all add: z child_def present_def)
  have "frame ?h st (addr_of ?h p)" using a(4,5,7) by (auto simp: frame_def)
  then have "spaces_ok ?h {addr_of ?h p} st"
    unfolding spaces_ok_def using a(2) only by (simp, blast)
  moreover have "card (free_pages (pm_buddy st)) = 7" using a(6,7) c8 by (simp add: card_Diff_singleton)
  ultimately show ?thesis by (rule that)
qed

lemma demo_flags: "flags_ok (PAGE_PRESENT OR PAGE_WRITABLE OR PAGE_USER)"
  by (simp add: flags_ok_def present_def PAGE_PRESENT_def PAGE_WRITABLE_def PAGE_USER_def)


theorem pgtable_create_exact_witness:
  "\<exists>k st r st'. spaces_ok 0xFFFF800000000000 {k} st \<and> pgtable_create 0xFFFF800000000000 k st = Some (r, st') \<and> r \<noteq> k"
proof -
  obtain k st where s: "spaces_ok 0xFFFF800000000000 {k} st" "card (free_pages (pm_buddy st)) = 7" by (rule demo_space)
  then show ?thesis using pgtable_create_exact [OF s(1), of k] by auto
qed

end
