(* ===== verification/Task.thy ===== *)
theory Task
  imports Pgtable Kmalloc
begin

text \<open>
  Tasks and the process tree: \<^verbatim>\<open>src/lizard/task.c\<close> and \<^verbatim>\<open>src/lizard/task.h\<close>, with the timer interrupt of
  \<^verbatim>\<open>src/lizard/pit.c\<close>. Tasks are objects at addresses; using an address that holds none is a fault (\<open>None\<close>). The lists
  \<^verbatim>\<open>task_list\<close> and \<^verbatim>\<open>children\<close> are the sequences of their elements, which Klist justifies; \<open>t_sibling\<close> says whether the link
  \<^verbatim>\<open>sibling\<close> is set. The register frame of the interrupted code, which \<^verbatim>\<open>ptrace\<close> points to, is part of the state. A trap into the
  scheduler (\<^verbatim>\<open>int $48\<close>) is a call of \<^verbatim>\<open>scheduler\<close>, so an operation that blocks ends with that call and goes on when its
  task is scheduled again.
\<close>

section \<open>State\<close>

definition TASK_NAME_MAX_LEN :: nat where "TASK_NAME_MAX_LEN = 32"
definition USER_STACK_BASE :: u64 where "USER_STACK_BASE = 0x700000000000"
definition USER_STACK_PAGES :: nat where "USER_STACK_PAGES = 64"
definition TASK_FD_BASE :: int where "TASK_FD_BASE = 3"
definition TASK_MAX_FDS :: nat where "TASK_MAX_FDS = 16"
definition KSTACK_ORDER :: int where "KSTACK_ORDER = 2"
definition KSTACK_PAGES :: nat where "KSTACK_PAGES = 4"
definition RFLAGS_DEFAULT :: u64 where "RFLAGS_DEFAULT = 0x202"
definition TASK_TIMESLICE :: u32 where "TASK_TIMESLICE = 5"
definition KERNEL_CS :: u64 where "KERNEL_CS = 0x08"
definition KERNEL_SS :: u64 where "KERNEL_SS = 0x10"
definition USER_CS :: u64 where "USER_CS = 0x1B"
definition USER_SS :: u64 where "USER_SS = 0x23"

record cpu_state =
  r_rax :: u64
  r_rbx :: u64
  r_rcx :: u64
  r_rdx :: u64
  r_rdi :: u64
  r_rsi :: u64
  r_rbp :: u64
  r_r8 :: u64
  r_r9 :: u64
  r_r10 :: u64
  r_r11 :: u64
  r_r12 :: u64
  r_r13 :: u64
  r_r14 :: u64
  r_r15 :: u64
  r_vec :: u64
  r_errcode :: u64
  r_rip :: u64
  r_cs :: u64
  r_rflags :: u64
  r_rsp :: u64
  r_ss :: u64

definition zero_regs :: cpu_state where
  "zero_regs = \<lparr>r_rax = 0, r_rbx = 0, r_rcx = 0, r_rdx = 0, r_rdi = 0, r_rsi = 0, r_rbp = 0, r_r8 = 0, r_r9 = 0, r_r10 = 0, r_r11 = 0,
     r_r12 = 0, r_r13 = 0, r_r14 = 0, r_r15 = 0, r_vec = 0, r_errcode = 0, r_rip = 0, r_cs = 0, r_rflags = 0, r_rsp = 0, r_ss = 0\<rparr>"

datatype task_state = TASK_STATE_RUNNING | TASK_STATE_READY | TASK_STATE_WAITING | TASK_STATE_TERMINATED | TASK_STATE_NEW | TASK_STATE_ZOMBIE

datatype wait_kind = WAIT_NONE | WAIT_SLEEP | WAIT_CHILD | WAIT_INPUT

record task =
  t_name :: "u8 list"
  t_pid :: u32
  t_exit_code :: int
  t_state :: task_state
  t_wait_kind :: wait_kind
  t_is_user :: bool
  t_on_heap :: bool
  t_regs :: cpu_state
  t_pml4 :: vaddr
  t_kernel_stack :: u64
  t_parent :: vaddr
  t_children :: "vaddr list"
  t_sibling :: bool
  t_priority :: u32
  t_ticks_remaining :: u32
  t_sleep_until :: u32
  t_fd_table :: "vaddr list"
  t_cwd :: "u8 list"

record ksys =
  k_tasks :: "vaddr \<rightharpoonup> task"
  k_list :: "vaddr list"
  k_idle :: vaddr
  k_current :: vaddr
  k_pid_counter :: u32
  k_ticks :: u64
  k_enabled :: bool
  k_ptrace :: cpu_state
  k_kernel_pml4 :: vaddr
  k_current_pml4 :: vaddr
  k_cr3 :: paddr
  k_rsp0 :: u64
  k_words :: "u64 \<Rightarrow> u64"
  k_mem :: "kheap \<times> bmem"

text \<open>The page allocator of the heap is the one of the page tables.\<close>

definition pages_of_sys :: "ksys \<Rightarrow> pgmem" where
  "pages_of_sys s = \<lparr>pm_buddy = mm_buddy (kh_mm (fst (k_mem s))), pm_mem = k_words s\<rparr>"

definition put_pages :: "pgmem \<Rightarrow> ksys \<Rightarrow> ksys" where
  "put_pages g s =
     s\<lparr>k_words := pm_mem g,
       k_mem := ((fst (k_mem s))\<lparr>kh_mm := (kh_mm (fst (k_mem s)))\<lparr>mm_buddy := pm_buddy g\<rparr>\<rparr>, snd (k_mem s))\<rparr>"

definition upd_task :: "vaddr \<Rightarrow> (task \<Rightarrow> task) \<Rightarrow> ksys \<Rightarrow> ksys option" where
  "upd_task t f s = do { e \<leftarrow> k_tasks s t; Some (s\<lparr>k_tasks := (k_tasks s)(t \<mapsto> f e)\<rparr>) }"

section \<open>task.c\<close>

fun zero_pages :: "nat \<Rightarrow> u64 \<Rightarrow> pgmem \<Rightarrow> pgmem" where
  "zero_pages 0 p g = g"
| "zero_pages (Suc n) p g = zero_pages n (p + 4096) (g\<lparr>pm_mem := zero_page p (pm_mem g)\<rparr>)"

fun user_stack_pages :: "nat list \<Rightarrow> u64 \<Rightarrow> vaddr \<Rightarrow> pgmem \<Rightarrow> pgmem option" where
  "user_stack_pages [] h pml4 g = Some g"
| "user_stack_pages (i # is) h pml4 g =
     do { (p, g) \<leftarrow> vmm_alloc h pml4 (USER_STACK_BASE + of_nat i * 4096) (PAGE_PRESENT OR PAGE_WRITABLE OR PAGE_USER) g;
          if p = 0 then None else user_stack_pages is h pml4 (g\<lparr>pm_mem := zero_page p (pm_mem g)\<rparr>) }"

text \<open>A name of more than 32 bytes overruns its field, and a failed allocation is cleared all the same: both are faults.\<close>

definition task_create :: "u64 \<Rightarrow> vaddr \<Rightarrow> u64 \<Rightarrow> u8 list \<Rightarrow> u32 \<Rightarrow> bool \<Rightarrow> ksys \<Rightarrow> ksys option" where
  "task_create h task entry_point name priority is_user s =
     (if length name > TASK_NAME_MAX_LEN then None
      else do { let pid = k_pid_counter s + 1;
                (pml4, g) \<leftarrow> pgtable_create h (k_kernel_pml4 s) (pages_of_sys s);
                (kstack, b) \<leftarrow> buddy_alloc h (pm_buddy g) KSTACK_ORDER;
                if kstack = 0 then None
                else do { let g = zero_pages KSTACK_PAGES kstack (g\<lparr>pm_buddy := b\<rparr>);
                          let top = kstack + of_nat (KSTACK_PAGES * 4096);
                          g \<leftarrow> (if is_user then user_stack_pages [0..<USER_STACK_PAGES] h pml4 g else Some g);
                          let regs = zero_regs\<lparr>r_rip := entry_point, r_rflags := RFLAGS_DEFAULT,
                                               r_cs := (if is_user then USER_CS else KERNEL_CS),
                                               r_ss := (if is_user then USER_SS else KERNEL_SS),
                                               r_rsp := (if is_user then USER_STACK_BASE + of_nat (USER_STACK_PAGES * 4096) else top)\<rparr>;
                          Some ((put_pages g s)\<lparr>k_pid_counter := pid, k_list := task # k_list s,
                            k_tasks := (k_tasks s)(task \<mapsto>
                              \<lparr>t_name = name, t_pid = pid, t_exit_code = 0, t_state = TASK_STATE_NEW, t_wait_kind = WAIT_NONE,
                               t_is_user = is_user, t_on_heap = False, t_regs = regs, t_pml4 = pml4, t_kernel_stack = top,
                               t_parent = 0, t_children = [], t_sibling = True, t_priority = priority,
                               t_ticks_remaining = TASK_TIMESLICE, t_sleep_until = 0,
                               t_fd_table = replicate TASK_MAX_FDS 0, t_cwd = [47]\<rparr>)\<rparr>) } })"

definition task_set_ready :: "vaddr \<Rightarrow> ksys \<Rightarrow> ksys option" where
  "task_set_ready t s = upd_task t (\<lambda>e. if t_state e = TASK_STATE_NEW then e\<lparr>t_state := TASK_STATE_READY\<rparr> else e) s"

text \<open>The registers that a context switch carries: all but the vector and the error code.\<close>

definition copy_context :: "cpu_state \<Rightarrow> cpu_state \<Rightarrow> cpu_state" where
  "copy_context src dst =
     dst\<lparr>r_rax := r_rax src, r_rdi := r_rdi src, r_rsi := r_rsi src, r_rdx := r_rdx src, r_rcx := r_rcx src, r_r8 := r_r8 src,
         r_r9 := r_r9 src, r_r10 := r_r10 src, r_r11 := r_r11 src, r_rbx := r_rbx src, r_rbp := r_rbp src, r_r12 := r_r12 src,
         r_r13 := r_r13 src, r_r14 := r_r14 src, r_r15 := r_r15 src, r_rip := r_rip src, r_cs := r_cs src,
         r_rflags := r_rflags src, r_rsp := r_rsp src, r_ss := r_ss src\<rparr>"

definition task_load_context :: "vaddr \<Rightarrow> ksys \<Rightarrow> ksys option" where
  "task_load_context t s = do { e \<leftarrow> k_tasks s t; Some (s\<lparr>k_ptrace := copy_context (t_regs e) (k_ptrace s)\<rparr>) }"

definition task_save_context :: "ksys \<Rightarrow> ksys option" where
  "task_save_context s = upd_task (k_current s) (\<lambda>e. e\<lparr>t_regs := copy_context (k_ptrace s) (t_regs e)\<rparr>) s"

definition task_switch_to :: "u64 \<Rightarrow> vaddr \<Rightarrow> ksys \<Rightarrow> ksys option" where
  "task_switch_to h next s =
     do { s \<leftarrow> task_save_context s;
          s \<leftarrow> task_load_context next s;
          e \<leftarrow> k_tasks s next;
          let s = (if t_pml4 e \<noteq> 0 then s\<lparr>k_current_pml4 := t_pml4 e, k_cr3 := t_pml4 e - h\<rparr> else s);
          Some (s\<lparr>k_rsp0 := t_kernel_stack e, k_current := next\<rparr>) }"

definition task_wake :: "vaddr \<Rightarrow> ksys \<Rightarrow> ksys option" where
  "task_wake t s =
     (if t = 0 then Some s
      else upd_task t (\<lambda>e. if t_state e = TASK_STATE_WAITING then e\<lparr>t_wait_kind := WAIT_NONE, t_state := TASK_STATE_READY\<rparr> else e) s)"

fun wake_list :: "wait_kind \<Rightarrow> vaddr list \<Rightarrow> ksys \<Rightarrow> (int \<times> ksys) option" where
  "wake_list w [] s = Some (0, s)"
| "wake_list w (t # ts) s =
     do { e \<leftarrow> k_tasks s t;
          if t_state e = TASK_STATE_WAITING \<and> t_wait_kind e = w
          then do { s \<leftarrow> task_wake t s; (n, s) \<leftarrow> wake_list w ts s; Some (n + 1, s) }
          else wake_list w ts s }"

definition task_wake_all :: "wait_kind \<Rightarrow> ksys \<Rightarrow> (int \<times> ksys) option" where
  "task_wake_all w s = wake_list w (k_list s) s"

text \<open>The comparison is of the 64-bit tick count with the 32-bit wake-up time.\<close>

fun tick_list :: "vaddr list \<Rightarrow> ksys \<Rightarrow> ksys option" where
  "tick_list [] s = Some s"
| "tick_list (t # ts) s =
     do { s \<leftarrow> upd_task t (\<lambda>e. if t_state e = TASK_STATE_WAITING \<and> t_wait_kind e = WAIT_SLEEP \<and> k_ticks s \<ge> ucast (t_sleep_until e)
                               then e\<lparr>t_wait_kind := WAIT_NONE, t_state := TASK_STATE_READY\<rparr> else e) s;
          tick_list ts s }"

definition task_tick :: "ksys \<Rightarrow> ksys option" where
  "task_tick s = tick_list (k_list s) s"

definition is_ready :: "ksys \<Rightarrow> vaddr \<Rightarrow> bool" where
  "is_ready s t \<longleftrightarrow> t \<noteq> k_idle s \<and> (case k_tasks s t of None \<Rightarrow> False | Some e \<Rightarrow> t_state e = TASK_STATE_READY)"

definition first_ready :: "ksys \<Rightarrow> vaddr list \<Rightarrow> vaddr" where
  "first_ready s ts = (case List.find (is_ready s) ts of None \<Rightarrow> 0 | Some t \<Rightarrow> t)"

definition next_ready_task :: "ksys \<Rightarrow> vaddr" where
  "next_ready_task s =
     (let right = first_ready s (tl (dropWhile (\<lambda>t. t \<noteq> k_current s) (k_list s))) in
      if right \<noteq> 0 then right else first_ready s (takeWhile (\<lambda>t. t \<noteq> k_current s) (k_list s)))"

text \<open>\<^verbatim>\<open>list_del(&t->sibling)\<close>: the task leaves the list of children it is on.\<close>

definition unlink_sibling :: "vaddr \<Rightarrow> ksys \<Rightarrow> ksys option" where
  "unlink_sibling t s =
     upd_task t (\<lambda>e. e\<lparr>t_sibling := False\<rparr>)
       (s\<lparr>k_tasks := (\<lambda>p. map_option (\<lambda>e. e\<lparr>t_children := remove1 t (t_children e)\<rparr>) (k_tasks s p))\<rparr>)"

definition link_sibling :: "vaddr \<Rightarrow> vaddr \<Rightarrow> ksys \<Rightarrow> ksys option" where
  "link_sibling t p s = do { s \<leftarrow> upd_task t (\<lambda>e. e\<lparr>t_sibling := True\<rparr>) s; upd_task p (\<lambda>e. e\<lparr>t_children := t_children e @ [t]\<rparr>) s }"

fun reparent :: "vaddr list \<Rightarrow> ksys \<Rightarrow> ksys option" where
  "reparent [] s = Some s"
| "reparent (c # cs) s =
     do { s \<leftarrow> upd_task c (\<lambda>e. if t_state e = TASK_STATE_ZOMBIE then e\<lparr>t_state := TASK_STATE_TERMINATED\<rparr> else e) s;
          s \<leftarrow> unlink_sibling c s;
          s \<leftarrow> link_sibling c (k_idle s) s;
          s \<leftarrow> upd_task c (\<lambda>e. e\<lparr>t_parent := k_idle s\<rparr>) s;
          reparent cs s }"

text \<open>\<^verbatim>\<open>task_exit\<close> before its endless loop of traps into the scheduler.\<close>

definition task_exit :: "ksys \<Rightarrow> ksys option" where
  "task_exit s =
     (let me = k_current s in
      if me = 0 \<or> me = k_idle s then Some s
      else do { e \<leftarrow> k_tasks s me;
                s \<leftarrow> reparent (t_children e) s;
                if t_parent e \<noteq> 0 \<and> t_parent e \<noteq> k_idle s
                then do { s \<leftarrow> upd_task me (\<lambda>e. e\<lparr>t_state := TASK_STATE_ZOMBIE\<rparr>) s;
                          p \<leftarrow> k_tasks s (t_parent e);
                          if t_state p = TASK_STATE_WAITING \<and> t_wait_kind p = WAIT_CHILD then task_wake (t_parent e) s else Some s }
                else upd_task me (\<lambda>e. e\<lparr>t_state := TASK_STATE_TERMINATED\<rparr>) s })"

text \<open>One pass of the loop of \<^verbatim>\<open>task_waitpid\<close>: it returns, or the task blocks and the loop starts again when it is woken.\<close>

fun find_child_task :: "ksys \<Rightarrow> int \<Rightarrow> vaddr list \<Rightarrow> (nat \<times> vaddr) option" where
  "find_child_task s pid [] = Some (0, 0)"
| "find_child_task s pid (c # cs) =
     do { e \<leftarrow> k_tasks s c;
          if pid > 0 \<and> sint (t_pid e) \<noteq> pid then find_child_task s pid cs
          else if t_state e = TASK_STATE_ZOMBIE then Some (1, c)
          else do { (n, z) \<leftarrow> find_child_task s pid cs; Some (n + 1, z) } }"

definition ECHILD :: int where "ECHILD = 10"
definition EINVAL :: int where "EINVAL = 22"

datatype wait_result = Returned int "int option" | Blocked

definition task_waitpid :: "int \<Rightarrow> ksys \<Rightarrow> (wait_result \<times> ksys) option" where
  "task_waitpid pid s =
     (let me = k_current s in
      if me = 0 then Some (Returned (- EINVAL) None, s)
      else do { m \<leftarrow> k_tasks s me;
                (matches, zombie) \<leftarrow> find_child_task s pid (t_children m);
                if matches = 0 then Some (Returned (- ECHILD) None, s)
                else if zombie \<noteq> 0
                then do { z \<leftarrow> k_tasks s zombie;
                          s \<leftarrow> unlink_sibling zombie s;
                          s \<leftarrow> upd_task zombie (\<lambda>e. e\<lparr>t_parent := 0, t_state := TASK_STATE_TERMINATED\<rparr>) s;
                          Some (Returned (sint (t_pid z)) (Some (t_exit_code z)), s) }
                else if me = k_idle s then Some (Blocked, s)
                else do { s \<leftarrow> upd_task me (\<lambda>e. e\<lparr>t_wait_kind := WAIT_CHILD, t_state := TASK_STATE_WAITING\<rparr>) s; Some (Blocked, s) } })"

end
