(* ===== verification/Sched.thy ===== *)
theory Sched
  imports Task
begin

text \<open>
  The round-robin scheduler: \<^verbatim>\<open>src/lizard/sched.c\<close>, the operations of \<^verbatim>\<open>src/lizard/task.c\<close> that trap into it, and the timer
  interrupt of \<^verbatim>\<open>src/lizard/pit.c\<close>. The theory shows that the timer gives the processor to every ready task within a quantum
  for each task on the list.
\<close>

section \<open>sched.c\<close>

definition reap_task :: "u64 \<Rightarrow> vaddr \<Rightarrow> ksys \<Rightarrow> ksys option" where
  "reap_task h t s =
     do { e \<leftarrow> k_tasks s t;
          if t = k_idle s \<or> t = k_current s \<or> t_state e \<noteq> TASK_STATE_TERMINATED then Some s
          else do { let s = s\<lparr>k_list := remove1 t (k_list s)\<rparr>;
                    s \<leftarrow> (if t_sibling e then unlink_sibling t s else Some s);
                    s \<leftarrow> (if t_kernel_stack e \<noteq> 0
                         then do { b \<leftarrow> buddy_free h (pm_buddy (pages_of_sys s)) (t_kernel_stack e - of_nat (KSTACK_PAGES * 4096)) KSTACK_ORDER;
                                   Some (put_pages ((pages_of_sys s)\<lparr>pm_buddy := b\<rparr>) s) }
                         else Some s);
                    s \<leftarrow> (if t_pml4 e \<noteq> 0
                         then do { g \<leftarrow> pgtable_free_tree h (t_pml4 e) (pages_of_sys s); Some (put_pages g s) }
                         else Some s);
                    if t_on_heap e
                    then do { kh \<leftarrow> kfree h t (fst (k_mem s)); Some (s\<lparr>k_mem := (kh, snd (k_mem s)), k_tasks := (k_tasks s)(t := None)\<rparr>) }
                    else Some s } }"

definition reap_terminated :: "u64 \<Rightarrow> ksys \<Rightarrow> ksys option" where
  "reap_terminated h s = foldM (reap_task h) (k_list s) s"

text \<open>The choice of the next task, when the quantum of the current one is spent or it cannot run on.\<close>

definition sched_pick :: "u64 \<Rightarrow> bool \<Rightarrow> ksys \<Rightarrow> ksys option" where
  "sched_pick h cur_runnable s =
     (let cur = k_current s; next = next_ready_task s in
      if next = 0 \<and> cur_runnable then upd_task cur (\<lambda>e. e\<lparr>t_ticks_remaining := TASK_TIMESLICE\<rparr>) s
      else let next = (if next = 0 then k_idle s else next) in
           do { s \<leftarrow> (if cur_runnable \<and> cur \<noteq> k_idle s then upd_task cur (\<lambda>e. e\<lparr>t_state := TASK_STATE_READY\<rparr>) s else Some s);
                s \<leftarrow> upd_task next (\<lambda>e. e\<lparr>t_state := TASK_STATE_RUNNING, t_ticks_remaining := TASK_TIMESLICE\<rparr>) s;
                if next \<noteq> cur then task_switch_to h next s else Some s })"

definition scheduler :: "u64 \<Rightarrow> ksys \<Rightarrow> ksys option" where
  "scheduler h s =
     (if \<not> k_enabled s then Some s
      else do { s \<leftarrow> reap_terminated h s;
                c \<leftarrow> k_tasks s (k_current s);
                if t_state c = TASK_STATE_RUNNING \<and> k_current s \<noteq> k_idle s
                then do { let left = (if t_ticks_remaining c \<noteq> 0 then t_ticks_remaining c - 1 else 0);
                          let s = s\<lparr>k_tasks := (k_tasks s)(k_current s \<mapsto> c\<lparr>t_ticks_remaining := left\<rparr>)\<rparr>;
                          if left \<noteq> 0 then Some s else sched_pick h True s }
                else sched_pick h (t_state c = TASK_STATE_RUNNING) s })"

definition isr_scheduler :: "u64 \<Rightarrow> ksys \<Rightarrow> ksys option" where
  "isr_scheduler h s = scheduler h s"

definition sched_init :: "u64 \<Rightarrow> u64 \<Rightarrow> ksys \<Rightarrow> ksys option" where
  "sched_init h idle_func s =
     do { s \<leftarrow> task_create h (k_idle s) idle_func [105, 100, 108, 101] 0 False s;
          s \<leftarrow> upd_task (k_idle s) (\<lambda>e. e\<lparr>t_state := TASK_STATE_RUNNING\<rparr>) s;
          Some (s\<lparr>k_current := k_idle s\<rparr>) }"

definition enable_scheduler :: "ksys \<Rightarrow> ksys" where "enable_scheduler s = s\<lparr>k_enabled := True\<rparr>"
definition disable_scheduler :: "ksys \<Rightarrow> ksys" where "disable_scheduler s = s\<lparr>k_enabled := False\<rparr>"
definition scheduler_is_enabled :: "ksys \<Rightarrow> bool" where "scheduler_is_enabled s = k_enabled s"

section \<open>Operations that give the processor away\<close>

definition task_yield :: "u64 \<Rightarrow> ksys \<Rightarrow> ksys option" where
  "task_yield h s = scheduler h s"

definition task_sleep :: "u64 \<Rightarrow> u32 \<Rightarrow> ksys \<Rightarrow> ksys option" where
  "task_sleep h ms s =
     (if k_current s = 0 then Some s
      else do { s \<leftarrow> upd_task (k_current s) (\<lambda>e. e\<lparr>t_sleep_until := ucast (k_ticks s + ucast ms), t_wait_kind := WAIT_SLEEP, t_state := TASK_STATE_WAITING\<rparr>) s;
                scheduler h s })"

definition task_block :: "u64 \<Rightarrow> wait_kind \<Rightarrow> ksys \<Rightarrow> ksys option" where
  "task_block h w s =
     (if k_current s = 0 \<or> k_current s = k_idle s then Some s
      else do { s \<leftarrow> upd_task (k_current s) (\<lambda>e. e\<lparr>t_wait_kind := w, t_state := TASK_STATE_WAITING\<rparr>) s; scheduler h s })"

text \<open>The timer interrupt, without the clock, which Ktime models.\<close>

definition isr_pit :: "u64 \<Rightarrow> ksys \<Rightarrow> ksys option" where
  "isr_pit h s = do { s \<leftarrow> task_tick (s\<lparr>k_ticks := k_ticks s + 1\<rparr>); scheduler h s }"

section \<open>The order of the rotation\<close>

definition rotation :: "'a \<Rightarrow> 'a list \<Rightarrow> 'a list" where
  "rotation c xs = tl (dropWhile (\<lambda>t. t \<noteq> c) xs) @ takeWhile (\<lambda>t. t \<noteq> c) xs"

lemma rotation_split: "c \<notin> set A \<Longrightarrow> rotation c (A @ c # B) = B @ A"
proof -
  assume c: "c \<notin> set A"
  have "dropWhile (\<lambda>t. t \<noteq> c) (A @ c # B) = c # B" "takeWhile (\<lambda>t. t \<noteq> c) (A @ c # B) = A" using c by (induction A) auto
  then show ?thesis by (simp add: rotation_def)
qed

lemma rotation_step:
  assumes "distinct xs" "c \<in> set xs" "rotation c xs = X @ n # Y"
  shows "rotation n xs = Y @ c # X"
proof -
  obtain A B where xs: "xs = A @ c # B" using assms(2) by (meson split_list)
  then have c: "c \<notin> set A" "c \<notin> set B" using assms(1) by auto
  then have "B @ A = X @ n # Y" using assms(3) xs rotation_split by metis
  then consider (left) us where "B = X @ n # us" "Y = us @ A" | (right) us where "X = B @ us" "A = us @ n # Y"
    by (force simp: append_eq_append_conv2 append_eq_Cons_conv)
  then show ?thesis
  proof cases
    case left
    have "n \<notin> set (A @ c # X)" using assms(1) xs left by auto
    then have "rotation n ((A @ c # X) @ n # us) = us @ A @ c # X" by (rule rotation_split)
    then show ?thesis using xs left by simp
  next
    case right
    have "n \<notin> set us" using assms(1) xs right by auto
    then have "rotation n (us @ n # (Y @ c # B)) = (Y @ c # B) @ us" by (rule rotation_split)
    then show ?thesis using xs right by simp
  qed
qed

lemma set_rotation: "distinct xs \<Longrightarrow> c \<in> set xs \<Longrightarrow> set (rotation c xs) = set xs - {c} \<and> length (rotation c xs) = length xs - 1"
proof -
  assume "distinct xs" "c \<in> set xs"
  then obtain A B where "xs = A @ c # B" "c \<notin> set A" "c \<notin> set B" by (metis disjoint_insert(1) distinct_append distinct.simps(2) list.set(2) split_list)
  then show ?thesis by (auto simp: rotation_split)
qed

text \<open>How far a task is behind the current one.\<close>

definition dist_of :: "vaddr \<Rightarrow> ksys \<Rightarrow> nat" where
  "dist_of t s = length (takeWhile (\<lambda>x. x \<noteq> t) (rotation (k_current s) (k_list s)))"

lemma next_ready_rotation:
  assumes "0 \<notin> set (k_list s)"
  shows "next_ready_task s = first_ready s (rotation (k_current s) (k_list s))"
proof -
  let ?r = "tl (dropWhile (\<lambda>t. t \<noteq> k_current s) (k_list s))" and ?l = "takeWhile (\<lambda>t. t \<noteq> k_current s) (k_list s)"
  have "0 \<notin> set ?r" using assms by (metis empty_iff list.sel(2) list.set(1) list.set_sel(2) set_dropWhileD)
  moreover have "List.find P xs = Some x \<Longrightarrow> x \<in> set xs" for P x and xs :: "vaddr list" by (induction xs) (auto split: if_splits)
  ultimately have "first_ready s ?r \<noteq> 0 \<longleftrightarrow> List.find (is_ready s) ?r \<noteq> None"
    by (auto simp: first_ready_def split: option.splits)
  moreover have "List.find P (xs @ ys) = (case List.find P xs of None \<Rightarrow> List.find P ys | Some x \<Rightarrow> Some x)" for P and xs ys :: "vaddr list"
    by (induction xs) auto
  ultimately show ?thesis
    by (auto simp: next_ready_task_def rotation_def first_ready_def Let_def split: option.splits)
qed

section \<open>Invariants\<close>

text \<open>The tasks on the list exist, the current task and idle are among them, no other task is running, and no quantum is above the
  length of one. A dead task is one that the next pass of the scheduler reclaims.\<close>

definition sched_ok :: "ksys \<Rightarrow> bool" where
  "sched_ok s \<longleftrightarrow> distinct (k_list s) \<and> 0 \<notin> set (k_list s) \<and> k_idle s \<in> set (k_list s) \<and> k_current s \<in> set (k_list s) \<and>
     (\<forall>t\<in>set (k_list s). \<exists>e. k_tasks s t = Some e \<and> t_ticks_remaining e \<le> TASK_TIMESLICE \<and>
        (t_state e = TASK_STATE_RUNNING \<longrightarrow> t = k_current s \<or> t = k_idle s))"

definition no_dead :: "ksys \<Rightarrow> bool" where
  "no_dead s \<longleftrightarrow> (\<forall>t\<in>set (k_list s). \<forall>e. k_tasks s t = Some e \<longrightarrow> t_state e \<noteq> TASK_STATE_TERMINATED)"

lemma reap_none:
  assumes "sched_ok s" "no_dead s"
  shows "reap_terminated h s = Some s"
proof -
  have "foldM (reap_task h) ts s = Some s" if "set ts \<subseteq> set (k_list s)" for ts
    using that
  proof (induction ts)
    case (Cons t ts)
    obtain e where "k_tasks s t = Some e" using assms(1) Cons.prems by (auto simp: sched_ok_def)
    moreover have "t_state e \<noteq> TASK_STATE_TERMINATED" using assms(2) Cons.prems calculation by (auto simp: no_dead_def)
    ultimately have "reap_task h t s = Some s" by (auto simp: reap_task_def)
    then show ?case using Cons by simp
  qed simp
  then show ?thesis by (simp add: reap_terminated_def)
qed

text \<open>What the scheduler looks at in a task.\<close>

definition st_of :: "ksys \<Rightarrow> vaddr \<Rightarrow> task_state option" where
  "st_of s t = map_option t_state (k_tasks s t)"

definition left_of :: "ksys \<Rightarrow> vaddr \<Rightarrow> u32 option" where
  "left_of s t = map_option t_ticks_remaining (k_tasks s t)"

lemmas view_defs = st_of_def left_of_def

lemma is_ready_st: "is_ready s t \<longleftrightarrow> t \<noteq> k_idle s \<and> st_of s t = Some TASK_STATE_READY"
  by (auto simp: is_ready_def st_of_def split: option.splits)

lemma switch_ok:
  assumes "k_tasks s (k_current s) = Some c" "k_tasks s n = Some e"
  obtains s' where "task_switch_to h n s = Some s'" "k_current s' = n" "k_list s' = k_list s" "k_idle s' = k_idle s" "k_enabled s' = k_enabled s"
    "st_of s' = st_of s" "left_of s' = left_of s"
proof -
  let ?c = "c\<lparr>t_regs := copy_context (k_ptrace s) (t_regs c)\<rparr>"
  let ?s1 = "s\<lparr>k_tasks := (k_tasks s)(k_current s \<mapsto> ?c)\<rparr>"
  obtain e1 where e1: "k_tasks ?s1 n = Some e1" using assms(2) by (cases "n = k_current s") auto
  define s2 where "s2 = ?s1\<lparr>k_ptrace := copy_context (t_regs e1) (k_ptrace s)\<rparr>"
  define s3 where "s3 = (if t_pml4 e1 \<noteq> 0 then s2\<lparr>k_current_pml4 := t_pml4 e1, k_cr3 := t_pml4 e1 - h\<rparr> else s2)"
  have "task_switch_to h n s = Some (s3\<lparr>k_rsp0 := t_kernel_stack e1, k_current := n\<rparr>)"
    using assms(1) e1 by (simp add: task_switch_to_def task_save_context_def task_load_context_def upd_task_def s2_def s3_def Let_def)
  moreover have "k_tasks s3 = k_tasks ?s1" "k_list s3 = k_list s" "k_idle s3 = k_idle s" "k_enabled s3 = k_enabled s" by (simp_all add: s3_def s2_def)
  ultimately show ?thesis
    using assms(1) by (intro that [of "s3\<lparr>k_rsp0 := t_kernel_stack e1, k_current := n\<rparr>"]) (simp_all add: view_defs fun_eq_iff)
qed

lemma first_ready_mem: "first_ready s xs \<noteq> 0 \<Longrightarrow> first_ready s xs \<in> set xs \<and> is_ready s (first_ready s xs)"
  by (induction xs) (auto simp: first_ready_def split: option.splits)

lemma first_ready_split:
  assumes "is_ready s t" "t \<in> set xs" "0 \<notin> set xs"
  obtains X Y where "xs = X @ first_ready s xs # Y" "list_all (\<lambda>x. \<not> is_ready s x) X" "is_ready s (first_ready s xs)" "first_ready s xs \<noteq> 0"
proof -
  have "\<exists>X n Y. xs = X @ n # Y \<and> list_all (\<lambda>x. \<not> is_ready s x) X \<and> is_ready s n \<and> first_ready s xs = n"
    using assms(1,2)
  proof (induction xs)
    case (Cons x xs)
    show ?case
    proof (cases "is_ready s x")
      case True
      then show ?thesis by (intro exI [of _ "[]"] exI [of _ x] exI [of _ xs]) (simp add: first_ready_def)
    next
      case False
      then have "t \<in> set xs" using Cons.prems by auto
      then obtain X n Y where "xs = X @ n # Y" "list_all (\<lambda>x. \<not> is_ready s x) X" "is_ready s n" "first_ready s xs = n"
        using Cons.IH Cons.prems(1) by blast
      moreover have "first_ready s (x # xs) = first_ready s xs" using False by (simp add: first_ready_def)
      ultimately show ?thesis using False by (intro exI [of _ "x # X"] exI [of _ n] exI [of _ Y]) simp
    qed
  qed simp
  then show ?thesis using that assms(3) by (metis in_set_conv_decomp)
qed

text \<open>
  One call of the scheduler: the current task keeps the processor with one tick less, or it keeps it because no other task is ready,
  or the first ready task of the rotation gets it, idle if there is none.
\<close>

definition kept :: "ksys \<Rightarrow> ksys \<Rightarrow> bool" where
  "kept s s' \<longleftrightarrow> k_list s' = k_list s \<and> k_idle s' = k_idle s \<and> k_enabled s' = k_enabled s"

definition turn :: "ksys \<Rightarrow> vaddr" where
  "turn s = (let f = first_ready s (rotation (k_current s) (k_list s)) in if f = 0 then k_idle s else f)"

definition spent :: "ksys \<Rightarrow> ksys \<Rightarrow> bool" where
  "spent s s' \<longleftrightarrow> kept s s' \<and> k_current s' = k_current s \<and> st_of s' = st_of s \<and>
     (\<exists>n. left_of s (k_current s) = Some n \<and> 1 < n \<and> left_of s' = (left_of s)(k_current s \<mapsto> n - 1))"

definition stayed :: "ksys \<Rightarrow> ksys \<Rightarrow> bool" where
  "stayed s s' \<longleftrightarrow> kept s s' \<and> k_current s' = k_current s \<and> st_of s' = st_of s \<and> st_of s (k_current s) = Some TASK_STATE_RUNNING \<and>
     first_ready s (rotation (k_current s) (k_list s)) = 0 \<and> left_of s' = (left_of s)(k_current s \<mapsto> TASK_TIMESLICE)"

definition switched :: "ksys \<Rightarrow> ksys \<Rightarrow> bool" where
  "switched s s' \<longleftrightarrow> kept s s' \<and> k_current s' = turn s \<and>
     st_of s' = (if st_of s (k_current s) = Some TASK_STATE_RUNNING \<and> k_current s \<noteq> k_idle s
                 then (st_of s)(k_current s \<mapsto> TASK_STATE_READY) else st_of s)(turn s \<mapsto> TASK_STATE_RUNNING) \<and>
     left_of s' = (left_of s)(turn s \<mapsto> TASK_TIMESLICE)"

lemma upd_task_view:
  assumes "k_tasks s t = Some e"
  shows "upd_task t f s = Some (s\<lparr>k_tasks := (k_tasks s)(t \<mapsto> f e)\<rparr>)"
    "st_of (s\<lparr>k_tasks := (k_tasks s)(t \<mapsto> e')\<rparr>) = (st_of s)(t \<mapsto> t_state e')"
    "left_of (s\<lparr>k_tasks := (k_tasks s)(t \<mapsto> e')\<rparr>) = (left_of s)(t \<mapsto> t_ticks_remaining e')"
  using assms by (auto simp: upd_task_def view_defs fun_eq_iff)

lemma pick_ok:
  assumes ok: "sched_ok s" and c: "k_tasks s (k_current s) = Some c" and r: "r \<longleftrightarrow> t_state c = TASK_STATE_RUNNING"
  obtains s' where "sched_pick h r s = Some s'" "stayed s s' \<or> switched s s'"
proof -
  let ?f = "first_ready s (rotation (k_current s) (k_list s))"
  have nz: "0 \<notin> set (k_list s)" using ok by (simp add: sched_ok_def)
  note nxt = next_ready_rotation [OF nz]
  have run: "st_of s (k_current s) = Some TASK_STATE_RUNNING \<longleftrightarrow> r" using c r by (simp add: st_of_def)
  show ?thesis
  proof (cases "?f = 0 \<and> r")
    case True
    let ?s = "s\<lparr>k_tasks := (k_tasks s)(k_current s \<mapsto> c\<lparr>t_ticks_remaining := TASK_TIMESLICE\<rparr>)\<rparr>"
    have "sched_pick h r s = Some ?s" using True nxt c by (simp add: sched_pick_def upd_task_view)
    moreover have "st_of ?s = st_of s" using c by (simp add: st_of_def fun_eq_iff)
    then have "stayed s ?s" using True run c by (simp add: stayed_def kept_def upd_task_view)
    ultimately show ?thesis using that by blast
  next
    case False
    let ?n = "turn s"
    have n: "(if next_ready_task s = 0 then k_idle s else next_ready_task s) = ?n" using nxt by (simp add: turn_def Let_def)
    have "k_current s \<in> set (k_list s)" "distinct (k_list s)" "k_idle s \<in> set (k_list s)" using ok by (simp_all add: sched_ok_def)
    then have nl: "?n \<in> set (k_list s)"
      using first_ready_mem [of s "rotation (k_current s) (k_list s)"] set_rotation [of "k_list s" "k_current s"] by (auto simp: turn_def Let_def)
    define s1 where "s1 = (if r \<and> k_current s \<noteq> k_idle s then s\<lparr>k_tasks := (k_tasks s)(k_current s \<mapsto> c\<lparr>t_state := TASK_STATE_READY\<rparr>)\<rparr> else s)"
    have s1: "kept s s1" "k_current s1 = k_current s" "left_of s1 = left_of s"
      "st_of s1 = (if r \<and> k_current s \<noteq> k_idle s then (st_of s)(k_current s \<mapsto> TASK_STATE_READY) else st_of s)"
      using c by (auto simp: s1_def kept_def upd_task_view view_defs fun_eq_iff)
    have "k_tasks s1 (k_current s) \<noteq> None" "k_tasks s1 ?n \<noteq> None" using c nl ok by (auto simp: s1_def sched_ok_def)
    then obtain c1 e where c1: "k_tasks s1 (k_current s) = Some c1" and e: "k_tasks s1 ?n = Some e" by blast
    define s2 where "s2 = s1\<lparr>k_tasks := (k_tasks s1)(?n \<mapsto> e\<lparr>t_state := TASK_STATE_RUNNING, t_ticks_remaining := TASK_TIMESLICE\<rparr>)\<rparr>"
    have s2: "kept s s2" "k_current s2 = k_current s" "left_of s2 = (left_of s)(?n \<mapsto> TASK_TIMESLICE)"
      "st_of s2 = (st_of s1)(?n \<mapsto> TASK_STATE_RUNNING)"
      using s1 e by (simp_all add: s2_def upd_task_view kept_def)
    have p: "sched_pick h r s = (if ?n \<noteq> k_current s then task_switch_to h ?n s2 else Some s2)"
    proof -
      have nf: "\<not> (next_ready_task s = 0 \<and> r)" using False nxt by simp
      have "(if r \<and> k_current s \<noteq> k_idle s then upd_task (k_current s) (\<lambda>e. e\<lparr>t_state := TASK_STATE_READY\<rparr>) s else Some s) = Some s1"
        using c by (simp add: s1_def upd_task_view)
      then show ?thesis
        unfolding sched_pick_def Let_def if_not_P [OF nf] n by (simp only: bind.bind_lunit upd_task_view(1) [OF e] s2_def)
    qed
    show ?thesis
    proof (cases "?n = k_current s")
      case True
      then show ?thesis using that [of s2] p s1 s2 run by (simp add: switched_def)
    next
      case ne: False
      have "k_tasks s2 (k_current s2) = Some c1" "k_tasks s2 ?n = Some (e\<lparr>t_state := TASK_STATE_RUNNING, t_ticks_remaining := TASK_TIMESLICE\<rparr>)"
        using c1 ne s2(2) by (simp_all add: s2_def)
      from switch_ok [OF this] obtain s' where s': "task_switch_to h ?n s2 = Some s'" "k_current s' = ?n" "k_list s' = k_list s2" "k_idle s' = k_idle s2"
        "k_enabled s' = k_enabled s2" "st_of s' = st_of s2" "left_of s' = left_of s2" .
      then have "switched s s'" using s1 s2 run by (simp add: switched_def kept_def)
      then show ?thesis using that [of s'] p ne s'(1) by simp
    qed
  qed
qed

section \<open>Every ready task gets the processor\<close>

text \<open>The ticks that may pass before the turn of a task comes.\<close>

definition waiting_time :: "vaddr \<Rightarrow> ksys \<Rightarrow> nat" where
  "waiting_time t s =
     (if st_of s (k_current s) = Some TASK_STATE_RUNNING \<and> k_current s \<noteq> k_idle s
      then max 1 (unat (the (left_of s (k_current s)))) else 1) + unat TASK_TIMESLICE * dist_of t s"

lemma sched_ok_view:
  "sched_ok s \<longleftrightarrow> distinct (k_list s) \<and> 0 \<notin> set (k_list s) \<and> k_idle s \<in> set (k_list s) \<and> k_current s \<in> set (k_list s) \<and>
     (\<forall>t\<in>set (k_list s). (\<exists>n. left_of s t = Some n \<and> n \<le> TASK_TIMESLICE) \<and>
        (st_of s t = Some TASK_STATE_RUNNING \<longrightarrow> t = k_current s \<or> t = k_idle s))"
  unfolding sched_ok_def view_defs by fastforce

lemma no_dead_view: "no_dead s \<longleftrightarrow> (\<forall>t\<in>set (k_list s). st_of s t \<noteq> Some TASK_STATE_TERMINATED)"
  unfolding no_dead_def view_defs by fastforce

definition good :: "ksys \<Rightarrow> bool" where
  "good s \<longleftrightarrow> sched_ok s \<and> no_dead s \<and> k_enabled s"

lemma switched_progress:
  assumes ok: "sched_ok s" "no_dead s" and t: "is_ready s t" "t \<in> set (k_list s)" "t \<noteq> k_current s" and sw: "switched s s'"
  shows "sched_ok s' \<and> no_dead s' \<and> (k_current s' = t \<or> is_ready s' t \<and> waiting_time t s' \<le> unat TASK_TIMESLICE * dist_of t s)"
proof -
  let ?cur = "k_current s" and ?n = "turn s" and ?rot = "rotation (k_current s) (k_list s)"
  have l: "distinct (k_list s)" "0 \<notin> set (k_list s)" "?cur \<in> set (k_list s)" "k_idle s \<in> set (k_list s)" using ok(1) by (simp_all add: sched_ok_def)
  note rot = set_rotation [OF l(1,3)]
  have "t \<in> set ?rot" "0 \<notin> set ?rot" using rot t l(2) by auto
  from first_ready_split [OF t(1) this] obtain X Y where xy: "?rot = X @ first_ready s ?rot # Y" "list_all (\<lambda>x. \<not> is_ready s x) X"
    "is_ready s (first_ready s ?rot)" "first_ready s ?rot \<noteq> 0" .
  then have n: "?n = first_ready s ?rot" by (simp add: turn_def)
  then have xyn: "?rot = X @ ?n # Y" "is_ready s ?n" using xy by simp_all
  have nl: "?n \<in> set (k_list s)" "?n \<noteq> ?cur" "?n \<noteq> k_idle s" using xyn rot by (auto simp: is_ready_st)
  have k: "k_list s' = k_list s" "k_idle s' = k_idle s" "k_current s' = ?n" and left: "left_of s' = (left_of s)(?n \<mapsto> TASK_TIMESLICE)"
    and st: "st_of s' = (if st_of s ?cur = Some TASK_STATE_RUNNING \<and> ?cur \<noteq> k_idle s then (st_of s)(?cur \<mapsto> TASK_STATE_READY) else st_of s)(?n \<mapsto> TASK_STATE_RUNNING)"
    using sw by (simp_all add: switched_def kept_def)
  have "sched_ok s'" using ok(1) nl unfolding sched_ok_view k left st by (auto split: if_splits)
  moreover have "no_dead s'" using ok(2) nl unfolding no_dead_view k st by (auto split: if_splits)
  moreover have "is_ready s' t \<and> waiting_time t s' \<le> unat TASK_TIMESLICE * dist_of t s" if tn: "t \<noteq> ?n"
  proof -
    have r': "rotation ?n (k_list s) = Y @ ?cur # X" by (rule rotation_step [OF l(1,3) xyn(1)])
    have tX: "t \<notin> set X" using xy(2) t(1) by (auto simp: list_all_iff)
    then have tY: "t \<in> set Y" using \<open>t \<in> set ?rot\<close> xyn(1) tn by auto
    have d': "dist_of t s' = length (takeWhile (\<lambda>x. x \<noteq> t) Y)" using tY by (simp add: dist_of_def k r')
    have "takeWhile (\<lambda>x. x \<noteq> t) (X @ ?n # Y) = X @ ?n # takeWhile (\<lambda>x. x \<noteq> t) Y"
      using tX tn by (subst takeWhile_append2) auto
    then have d: "dist_of t s = length X + 1 + dist_of t s'" using d' by (simp add: dist_of_def xyn(1))
    have "is_ready s' t" using t(1,3) tn by (auto simp: is_ready_st k st)
    moreover have "waiting_time t s' = unat TASK_TIMESLICE + unat TASK_TIMESLICE * dist_of t s'"
      using nl by (simp add: waiting_time_def k st left TASK_TIMESLICE_def)
    ultimately show ?thesis using d by simp
  qed
  ultimately show ?thesis using k(3) by blast
qed

lemma scheduler_progress:
  assumes g: "good s" and t: "is_ready s t" "t \<in> set (k_list s)" "t \<noteq> k_current s"
  obtains s' where "scheduler h s = Some s'" "good s'" "k_list s' = k_list s"
    "k_current s' = t \<or> is_ready s' t \<and> t \<noteq> k_current s' \<and> waiting_time t s' < waiting_time t s"
proof -
  have ok: "sched_ok s" "no_dead s" "k_enabled s" using g by (simp_all add: good_def)
  obtain c where c: "k_tasks s (k_current s) = Some c" using ok(1) by (auto simp: sched_ok_def)
  note goal = that
  have pick: ?thesis
    if p: "scheduler h s = sched_pick h r s1" and c1: "k_tasks s1 (k_current s1) = Some c1" "r \<longleftrightarrow> t_state c1 = TASK_STATE_RUNNING"
      and k: "kept s s1" "k_current s1 = k_current s" "st_of s1 = st_of s" "sched_ok s1" for r s1 c1
  proof -
    have no: "no_dead s1" "is_ready s1 t" "t \<in> set (k_list s1)" "t \<noteq> k_current s1"
      using ok(2) k t by (simp_all add: no_dead_view kept_def is_ready_st)
    obtain s' where s': "sched_pick h r s1 = Some s'" "stayed s1 s' \<or> switched s1 s'" by (rule pick_ok [OF k(4) c1])
    have l: "distinct (k_list s1)" "0 \<notin> set (k_list s1)" "k_current s1 \<in> set (k_list s1)" using k(4) by (simp_all add: sched_ok_def)
    have "first_ready s1 (rotation (k_current s1) (k_list s1)) \<noteq> 0"
      using first_ready_split [OF no(2), of "rotation (k_current s1) (k_list s1)"] set_rotation [OF l(1,3)] no(3,4) l(2) by auto
    then have sw: "switched s1 s'" using s'(2) by (auto simp: stayed_def)
    note pr = switched_progress [OF k(4) no sw]
    have d: "dist_of t s1 = dist_of t s" using k by (simp add: dist_of_def kept_def)
    have "unat TASK_TIMESLICE * dist_of t s < waiting_time t s" by (simp add: waiting_time_def less_max_iff_disj)
    moreover have "k_enabled s'" "k_list s' = k_list s" using sw k(1) ok(3) by (simp_all add: switched_def kept_def)
    ultimately show ?thesis
      using goal [of s'] pr p s'(1) d no(4) unfolding good_def by (cases "k_current s' = t") auto
  qed
  show ?thesis
  proof (cases "t_state c = TASK_STATE_RUNNING \<and> k_current s \<noteq> k_idle s")
    case False
    then have "scheduler h s = sched_pick h (t_state c = TASK_STATE_RUNNING) s"
      using ok(3) c reap_none [OF ok(1,2)] by (auto simp: scheduler_def)
    then show ?thesis using pick [of _ s, OF _ c refl] ok(1) by (simp add: kept_def)
  next
    case True
    define left where "left = (if t_ticks_remaining c \<noteq> 0 then t_ticks_remaining c - 1 else 0)"
    define s1 where "s1 = s\<lparr>k_tasks := (k_tasks s)(k_current s \<mapsto> c\<lparr>t_ticks_remaining := left\<rparr>)\<rparr>"
    have run: "scheduler h s = (if left \<noteq> 0 then Some s1 else sched_pick h True s1)"
      using True ok(3) c reap_none [OF ok(1,2)] by (simp add: scheduler_def left_def s1_def Let_def)
    have lc: "left_of s (k_current s) = Some (t_ticks_remaining c)" using c by (simp add: left_of_def)
    have cl: "t_ticks_remaining c \<le> TASK_TIMESLICE" using ok(1) lc by (auto simp: sched_ok_view)
    have ll: "left \<le> TASK_TIMESLICE" using cl unfolding left_def TASK_TIMESLICE_def by (auto simp: word_le_nat_alt unat_minus_one)
    have s1: "kept s s1" "k_current s1 = k_current s" "st_of s1 = st_of s" "left_of s1 = (left_of s)(k_current s \<mapsto> left)"
      using c by (simp_all add: s1_def kept_def upd_task_view view_defs fun_eq_iff)
    have ok1: "sched_ok s1" using ok(1) s1 ll unfolding sched_ok_view kept_def by auto
    show ?thesis
    proof (cases "left = 0")
      case z: True
      show ?thesis
        by (rule pick [of True s1 "c\<lparr>t_ticks_remaining := left\<rparr>"]) (use z run s1 ok1 True in \<open>simp_all add: s1_def\<close>)
    next
      case nz: False
      have "good s1" using g ok1 s1 unfolding good_def no_dead_view kept_def by simp
      moreover have "waiting_time t s1 < waiting_time t s"
      proof -
        have unit_left: "unat left = unat (t_ticks_remaining c) - 1" "t_ticks_remaining c \<noteq> 0"
          using nz unfolding left_def by (simp_all add: unat_minus_one split: if_splits)
        then have "unat left < unat (t_ticks_remaining c)" "1 \<le> unat left" using nz unat_eq_0 [of left] by linarith+
        moreover have "st_of s (k_current s) = Some TASK_STATE_RUNNING" using c True by (simp add: st_of_def)
        ultimately show ?thesis using True s1 lc by (simp add: waiting_time_def dist_of_def kept_def)
      qed
      moreover have "is_ready s1 t" using t(1) s1 by (simp add: is_ready_st kept_def)
      ultimately show ?thesis using goal [of s1] run nz s1 t(3) by (simp add: kept_def)
    qed
  qed
qed

text \<open>The timer wakes sleepers and changes nothing else.\<close>

definition woke :: "ksys \<Rightarrow> ksys \<Rightarrow> bool" where
  "woke s s' \<longleftrightarrow> kept s s' \<and> k_current s' = k_current s \<and> left_of s' = left_of s \<and>
     (\<forall>t. st_of s' t = st_of s t \<or> st_of s t = Some TASK_STATE_WAITING \<and> st_of s' t = Some TASK_STATE_READY)"

lemma woke_trans: "woke s s' \<Longrightarrow> woke s' s'' \<Longrightarrow> woke s s''"
  unfolding woke_def kept_def by (metis option.inject task_state.distinct(7))

lemma tick_list_ok:
  assumes "\<And>t. t \<in> set ts \<Longrightarrow> k_tasks s t \<noteq> None"
  shows "\<exists>s'. tick_list ts s = Some s' \<and> woke s s'"
  using assms
proof (induction ts arbitrary: s)
  case (Cons t ts)
  obtain e where e: "k_tasks s t = Some e" using Cons.prems [of t] by auto
  let ?f = "\<lambda>e. if t_state e = TASK_STATE_WAITING \<and> t_wait_kind e = WAIT_SLEEP \<and> k_ticks s \<ge> ucast (t_sleep_until e)
                then e\<lparr>t_wait_kind := WAIT_NONE, t_state := TASK_STATE_READY\<rparr> else e"
  let ?s = "s\<lparr>k_tasks := (k_tasks s)(t \<mapsto> ?f e)\<rparr>"
  have w: "woke s ?s" using e by (auto simp: woke_def kept_def view_defs fun_eq_iff)
  have "k_tasks ?s x \<noteq> None" if "x \<in> set ts" for x using Cons.prems [of x] that by auto
  then obtain s' where s': "tick_list ts ?s = Some s'" "woke ?s s'" using Cons.IH by blast
  have "tick_list (t # ts) s = tick_list ts ?s" using e by (simp add: upd_task_view)
  then show ?case using s' woke_trans [OF w s'(2)] by simp
qed (simp add: woke_def kept_def)

lemma woke_good:
  assumes "good s" "woke s s'"
  shows "good s'" "waiting_time t s' = waiting_time t s" "is_ready s t \<Longrightarrow> is_ready s' t" "k_list s' = k_list s" "k_current s' = k_current s"
proof -
  have w: "kept s s'" "k_current s' = k_current s" "left_of s' = left_of s"
    "\<And>t. st_of s' t = st_of s t \<or> st_of s t = Some TASK_STATE_WAITING \<and> st_of s' t = Some TASK_STATE_READY"
    using assms(2) unfolding woke_def by blast+
  have run: "st_of s' x = Some TASK_STATE_RUNNING \<longleftrightarrow> st_of s x = Some TASK_STATE_RUNNING"
    "st_of s' x = Some TASK_STATE_TERMINATED \<longleftrightarrow> st_of s x = Some TASK_STATE_TERMINATED"
    "st_of s x = Some TASK_STATE_READY \<Longrightarrow> st_of s' x = Some TASK_STATE_READY" for x
    using w(4) [of x] by auto
  show "good s'" using assms(1) w(1-3) run unfolding good_def sched_ok_view no_dead_view kept_def by simp
  show "waiting_time t s' = waiting_time t s" using w(1-3) run by (simp add: waiting_time_def dist_of_def kept_def)
  show "is_ready s t \<Longrightarrow> is_ready s' t" using w(1) run(3) by (simp add: is_ready_st kept_def)
  show "k_list s' = k_list s" "k_current s' = k_current s" using w by (simp_all add: kept_def)
qed

lemma pit_progress:
  assumes g: "good s" and t: "is_ready s t" "t \<in> set (k_list s)" "t \<noteq> k_current s"
  obtains s' where "isr_pit h s = Some s'" "good s'" "k_list s' = k_list s"
    "k_current s' = t \<or> is_ready s' t \<and> t \<noteq> k_current s' \<and> waiting_time t s' < waiting_time t s"
proof -
  let ?s = "s\<lparr>k_ticks := k_ticks s + 1\<rparr>"
  have v: "st_of ?s = st_of s" "left_of ?s = left_of s" by (simp_all add: view_defs fun_eq_iff)
  have g0: "good ?s" "waiting_time t ?s = waiting_time t s" "is_ready ?s t"
    using g t(1) v unfolding good_def sched_ok_view no_dead_view by (simp_all add: waiting_time_def dist_of_def is_ready_st)
  have "k_tasks ?s x \<noteq> None" if "x \<in> set (k_list ?s)" for x using g that by (auto simp: good_def sched_ok_def)
  then obtain s1 where s1: "task_tick ?s = Some s1" "woke ?s s1" using tick_list_ok [of "k_list ?s" ?s] by (auto simp: task_tick_def)
  note w = woke_good [OF g0(1) s1(2)]
  have t1: "is_ready s1 t" "t \<in> set (k_list s1)" "t \<noteq> k_current s1" using w(3) [OF g0(3)] w(4,5) t by simp_all
  from scheduler_progress [OF w(1) t1] obtain s' where "scheduler h s1 = Some s'" "good s'" "k_list s' = k_list s1"
    "k_current s' = t \<or> is_ready s' t \<and> t \<noteq> k_current s' \<and> waiting_time t s' < waiting_time t s1" .
  then show ?thesis using that [of s'] s1(1) w(2,4) g0(2) by (simp add: isr_pit_def)
qed

primrec timer_run :: "nat \<Rightarrow> u64 \<Rightarrow> ksys \<Rightarrow> ksys option" where
  "timer_run 0 h s = Some s"
| "timer_run (Suc n) h s = do { s \<leftarrow> isr_pit h s; timer_run n h s }"

lemma timer_run_reaches:
  assumes "good s" "is_ready s t" "t \<in> set (k_list s)" "t \<noteq> k_current s"
  shows "\<exists>n s'. n \<le> waiting_time t s \<and> timer_run n h s = Some s' \<and> k_current s' = t"
  using assms
proof (induction "waiting_time t s" arbitrary: s rule: less_induct)
  case less
  from pit_progress [OF less.prems] obtain s1 where s1: "isr_pit h s = Some s1" "good s1" "k_list s1 = k_list s"
    "k_current s1 = t \<or> is_ready s1 t \<and> t \<noteq> k_current s1 \<and> waiting_time t s1 < waiting_time t s" .
  show ?case
  proof (cases "k_current s1 = t")
    case True
    have "1 \<le> waiting_time t s" by (simp add: waiting_time_def trans_le_add1)
    then show ?thesis using True s1(1) by (intro exI [of _ 1] exI [of _ s1]) simp
  next
    case False
    then obtain n s' where "n \<le> waiting_time t s1" "timer_run n h s1 = Some s'" "k_current s' = t"
      using less.hyps [of s1] s1 less.prems(3) by auto
    then show ?thesis using s1 False by (intro exI [of _ "Suc n"] exI [of _ s']) auto
  qed
qed

lemma length_before: "x \<in> set xs \<Longrightarrow> length (takeWhile (\<lambda>y. y \<noteq> x) xs) < length xs"
  by (induction xs) auto

lemma waiting_time_bound:
  assumes "good s" "t \<in> set (k_list s)" "t \<noteq> k_current s"
  shows "waiting_time t s \<le> unat TASK_TIMESLICE * length (k_list s)"
proof -
  have l: "distinct (k_list s)" "k_current s \<in> set (k_list s)" using assms(1) by (simp_all add: good_def sched_ok_def)
  note rot = set_rotation [OF l]
  then have "t \<in> set (rotation (k_current s) (k_list s))" using assms by simp
  then have "dist_of t s < length (rotation (k_current s) (k_list s))"
    unfolding dist_of_def by (rule length_before)
  then have d: "dist_of t s + 1 \<le> length (k_list s)" using rot by simp
  obtain n where "left_of s (k_current s) = Some n" "n \<le> TASK_TIMESLICE" using assms(1) l(2) by (auto simp: good_def sched_ok_view)
  then have "max 1 (unat (the (left_of s (k_current s)))) \<le> unat TASK_TIMESLICE" by (simp add: TASK_TIMESLICE_def word_le_nat_alt)
  then have "waiting_time t s \<le> unat TASK_TIMESLICE * (dist_of t s + 1)" unfolding waiting_time_def TASK_TIMESLICE_def by auto
  also have "\<dots> \<le> unat TASK_TIMESLICE * length (k_list s)" by (rule mult_le_mono2 [OF d])
  finally show ?thesis .
qed

text \<open>
  Property C16. No ready task starves: while the scheduler is enabled and no dead task is on the list, a ready task holds the processor
  after at most one quantum of timer interrupts for every task on the list, whatever sleepers wake up meanwhile.
\<close>

theorem sched_no_starvation:
  assumes "good s" "is_ready s t" "t \<in> set (k_list s)"
  shows "\<exists>n s'. n \<le> unat TASK_TIMESLICE * length (k_list s) \<and> timer_run n h s = Some s' \<and> k_current s' = t"
proof (cases "t = k_current s")
  case True
  then show ?thesis by (intro exI [of _ 0] exI [of _ s]) simp
next
  case False
  then show ?thesis using timer_run_reaches [OF assms False] waiting_time_bound [OF assms(1,3) False] le_trans by blast
qed

text \<open>Idle, a running task and a ready one.\<close>

definition demo_task :: "u32 \<Rightarrow> task_state \<Rightarrow> task" where
  "demo_task pid st = \<lparr>t_name = [], t_pid = pid, t_exit_code = 0, t_state = st, t_wait_kind = WAIT_NONE, t_is_user = False, t_on_heap = False,
     t_regs = zero_regs, t_pml4 = 0, t_kernel_stack = 0, t_parent = 0, t_children = [], t_sibling = False, t_priority = 1,
     t_ticks_remaining = 5, t_sleep_until = 0, t_fd_table = replicate 16 0, t_cwd = [47]\<rparr>"

definition demo_sys :: ksys where
  "demo_sys = \<lparr>k_tasks = [0x1000 \<mapsto> demo_task 1 TASK_STATE_RUNNING, 0x2000 \<mapsto> demo_task 2 TASK_STATE_RUNNING, 0x3000 \<mapsto> demo_task 3 TASK_STATE_READY],
     k_list = [0x3000, 0x2000, 0x1000], k_idle = 0x1000, k_current = 0x2000, k_pid_counter = 3, k_ticks = 0, k_enabled = True,
     k_ptrace = zero_regs, k_kernel_pml4 = 0, k_current_pml4 = 0, k_cr3 = 0, k_rsp0 = 0, k_words = (\<lambda>_. 0), k_mem = (demo_heap, \<lambda>_. 0)\<rparr>"

theorem sched_no_starvation_witness:
  "\<exists>n s'. n \<le> 15 \<and> timer_run n demo_h demo_sys = Some s' \<and> k_current s' = 0x3000"
proof -
  have "good demo_sys" by (auto simp: good_def sched_ok_def no_dead_def demo_sys_def demo_task_def TASK_TIMESLICE_def)
  moreover have "is_ready demo_sys 0x3000" "0x3000 \<in> set (k_list demo_sys)" by (simp_all add: is_ready_def demo_sys_def demo_task_def)
  ultimately show ?thesis using sched_no_starvation [of demo_sys "0x3000" demo_h] by (simp add: TASK_TIMESLICE_def demo_sys_def)
qed

end
