(* ===== verification/Process_Tree.thy ===== *)
theory Process_Tree
  imports Sched
begin

text \<open>
  The process tree under \<^verbatim>\<open>task_exit\<close>, \<^verbatim>\<open>task_waitpid\<close>, \<^verbatim>\<open>spawn\<close> and the reaper. Parent pointers and lists of children agree, a dead
  task has no children, and a task that waits for its exit code to be collected has a living parent other than idle.
\<close>

section \<open>The invariant\<close>

definition dead :: "task_state \<Rightarrow> bool" where
  "dead st \<longleftrightarrow> st = TASK_STATE_ZOMBIE \<or> st = TASK_STATE_TERMINATED"

definition down_ok :: "ksys \<Rightarrow> bool" where
  "down_ok s \<longleftrightarrow> (\<forall>p e. k_tasks s p = Some e \<longrightarrow> distinct (t_children e) \<and> (dead (t_state e) \<longrightarrow> t_children e = []) \<and>
     (\<forall>c\<in>set (t_children e). \<exists>f. k_tasks s c = Some f \<and> t_parent f = p \<and> t_sibling f))"

definition up_ok :: "ksys \<Rightarrow> bool" where
  "up_ok s \<longleftrightarrow> (\<forall>c f. k_tasks s c = Some f \<longrightarrow> t_parent f \<noteq> 0 \<longrightarrow> t_on_heap f \<and> t_parent f \<noteq> c \<and>
     (\<exists>e. k_tasks s (t_parent f) = Some e \<and> c \<in> set (t_children e)))"

definition zombies_ok :: "ksys \<Rightarrow> bool" where
  "zombies_ok s \<longleftrightarrow> (\<forall>c f. k_tasks s c = Some f \<longrightarrow> t_state f = TASK_STATE_ZOMBIE \<longrightarrow> t_parent f \<noteq> 0 \<and> t_parent f \<noteq> k_idle s)"

definition tree_ok :: "ksys \<Rightarrow> bool" where
  "tree_ok s \<longleftrightarrow> down_ok s \<and> up_ok s \<and> zombies_ok s \<and> k_tasks s 0 = None \<and>
     (\<exists>i. k_tasks s (k_idle s) = Some i \<and> t_parent i = 0 \<and> \<not> dead (t_state i))"

lemma tree_okD:
  assumes "tree_ok s"
  shows "k_tasks s p = Some e \<Longrightarrow> distinct (t_children e)"
    "k_tasks s p = Some e \<Longrightarrow> dead (t_state e) \<Longrightarrow> t_children e = []"
    "k_tasks s p = Some e \<Longrightarrow> c \<in> set (t_children e) \<Longrightarrow> \<exists>f. k_tasks s c = Some f \<and> t_parent f = p \<and> t_sibling f"
    "k_tasks s c = Some f \<Longrightarrow> t_parent f \<noteq> 0 \<Longrightarrow> t_parent f \<noteq> c \<and> (\<exists>e. k_tasks s (t_parent f) = Some e \<and> c \<in> set (t_children e))"
    "k_tasks s c = Some f \<Longrightarrow> t_state f = TASK_STATE_ZOMBIE \<Longrightarrow> t_parent f \<noteq> 0 \<and> t_parent f \<noteq> k_idle s"
    "k_tasks s 0 = None" "\<exists>i. k_tasks s (k_idle s) = Some i \<and> t_parent i = 0 \<and> \<not> dead (t_state i)"
    "k_tasks s c = Some f \<Longrightarrow> t_parent f \<noteq> 0 \<Longrightarrow> t_on_heap f"
  using assms unfolding tree_ok_def down_ok_def up_ok_def zombies_ok_def by blast+

text \<open>A parent with children is alive.\<close>

lemma parent_alive: "tree_ok s \<Longrightarrow> k_tasks s p = Some e \<Longrightarrow> c \<in> set (t_children e) \<Longrightarrow> \<not> dead (t_state e)"
  using tree_okD(2) by fastforce

text \<open>A task is on the list of its parent only.\<close>

lemma one_list:
  assumes "tree_ok s" "k_tasks s p = Some e" "c \<in> set (t_children e)" "k_tasks s q = Some g" "q \<noteq> p"
  shows "c \<notin> set (t_children g)"
  using tree_okD(3) [OF assms(1,2,3)] tree_okD(3) [OF assms(1,4), of c] assms(5) by auto

lemma unlink_child:
  assumes ok: "tree_ok s" and p: "k_tasks s p = Some e" "c \<in> set (t_children e)" and f: "k_tasks s c = Some f"
  shows "unlink_sibling c s = Some (s\<lparr>k_tasks := (k_tasks s)(p \<mapsto> e\<lparr>t_children := remove1 c (t_children e)\<rparr>, c \<mapsto> f\<lparr>t_sibling := False\<rparr>)\<rparr>)"
proof -
  have pf: "t_parent f = p" using tree_okD(3) [OF ok p] f by auto
  have cp: "c \<noteq> p"
  proof
    assume "c = p"
    then have "t_parent f = c" "t_parent f \<noteq> 0" using pf p tree_okD(6) [OF ok] by auto
    then show False using tree_okD(4) [OF ok f] by simp
  qed
  have "map_option (\<lambda>e. e\<lparr>t_children := remove1 c (t_children e)\<rparr>) (k_tasks s q) = ((k_tasks s)(p \<mapsto> e\<lparr>t_children := remove1 c (t_children e)\<rparr>)) q" for q
  proof (cases "q = p")
    case False
    then have "c \<notin> set (t_children g)" if "k_tasks s q = Some g" for g using one_list [OF ok p that] by blast
    then show ?thesis using False by (cases "k_tasks s q") (simp_all add: remove1_idem)
  qed (simp add: p)
  then have "(\<lambda>q. map_option (\<lambda>e. e\<lparr>t_children := remove1 c (t_children e)\<rparr>) (k_tasks s q)) = (k_tasks s)(p \<mapsto> e\<lparr>t_children := remove1 c (t_children e)\<rparr>)"
    by (rule ext)
  then show ?thesis using f cp by (simp add: unlink_sibling_def upd_task_def)
qed

text \<open>A change of one task that leaves its place in the tree.\<close>

lemma tree_ok_upd:
  assumes ok: "tree_ok s" and t: "k_tasks s t = Some e"
    and same: "t_children e' = t_children e" "t_parent e' = t_parent e" "t_sibling e' = t_sibling e" "t_on_heap e' = t_on_heap e"
    and st: "dead (t_state e') \<Longrightarrow> t_children e = [] \<and> t \<noteq> k_idle s"
      "t_state e' = TASK_STATE_ZOMBIE \<Longrightarrow> t_parent e \<noteq> 0 \<and> t_parent e \<noteq> k_idle s"
  shows "tree_ok (s\<lparr>k_tasks := (k_tasks s)(t \<mapsto> e')\<rparr>)"
proof -
  let ?s = "s\<lparr>k_tasks := (k_tasks s)(t \<mapsto> e')\<rparr>"
  have fwd: "\<exists>g'. k_tasks ?s x = Some g' \<and> t_parent g' = t_parent g \<and> t_sibling g' = t_sibling g \<and> t_children g' = t_children g"
    if "k_tasks s x = Some g" for x g using that t same by (cases "x = t") auto
  have bwd: "\<exists>g. k_tasks s x = Some g \<and> t_parent g' = t_parent g \<and> t_sibling g' = t_sibling g \<and> t_children g' = t_children g \<and> t_on_heap g' = t_on_heap g \<and>
      (x \<noteq> t \<longrightarrow> g' = g)" if "k_tasks ?s x = Some g'" for x g' using that t same by (cases "x = t") auto
  have "down_ok ?s" unfolding down_ok_def
  proof (intro allI impI conjI ballI)
    fix p g' assume g': "k_tasks ?s p = Some g'"
    obtain g where g: "k_tasks s p = Some g" "t_children g' = t_children g" "p \<noteq> t \<longrightarrow> g' = g" using bwd [OF g'] by blast
    show "distinct (t_children g')" using tree_okD(1) [OF ok g(1)] g(2) by simp
    show "t_children g' = []" if "dead (t_state g')"
      using that g g' t st(1) tree_okD(2) [OF ok g(1)] by (cases "p = t") auto
    fix c assume "c \<in> set (t_children g')"
    then obtain f where "k_tasks s c = Some f" "t_parent f = p" "t_sibling f" using tree_okD(3) [OF ok g(1), of c] g(2) by auto
    then show "\<exists>f. k_tasks ?s c = Some f \<and> t_parent f = p \<and> t_sibling f" using fwd by metis
  qed
  moreover have "up_ok ?s" unfolding up_ok_def
  proof (intro allI impI)
    fix c f' assume f': "k_tasks ?s c = Some f'" "t_parent f' \<noteq> 0"
    obtain f where f: "k_tasks s c = Some f" "t_parent f' = t_parent f" "t_on_heap f' = t_on_heap f" using bwd [OF f'(1)] by blast
    then show "t_on_heap f' \<and> t_parent f' \<noteq> c \<and> (\<exists>e. k_tasks ?s (t_parent f') = Some e \<and> c \<in> set (t_children e))"
      using tree_okD(4,8) [OF ok f(1)] f' fwd by metis
  qed
  moreover have "zombies_ok ?s" using tree_okD(5) [OF ok] st(2) same(2) by (auto simp: zombies_ok_def)
  moreover have "k_tasks ?s 0 = None" using tree_okD(6) [OF ok] t by auto
  moreover have "\<exists>i. k_tasks ?s (k_idle ?s) = Some i \<and> t_parent i = 0 \<and> \<not> dead (t_state i)"
    using tree_okD(7) [OF ok] st(1) same(2) t by (cases "t = k_idle s") auto
  ultimately show ?thesis by (simp add: tree_ok_def)
qed

text \<open>A child goes from its parent to idle.\<close>

definition move_child :: "ksys \<Rightarrow> ksys \<Rightarrow> vaddr \<Rightarrow> vaddr \<Rightarrow> task \<Rightarrow> task \<Rightarrow> task \<Rightarrow> task \<Rightarrow> vaddr list \<Rightarrow> bool" where
  "move_child s s' me c m f i F cs \<longleftrightarrow>
     tree_ok s \<and>
     (k_tasks s me = Some m \<and> t_children m = c # cs \<and> me \<noteq> k_idle s) \<and>
     (k_tasks s c = Some f \<and> t_parent f = me \<and> t_sibling f) \<and>
     (k_tasks s (k_idle s) = Some i \<and> t_parent i = 0 \<and> \<not> dead (t_state i)) \<and>
     (t_children F = t_children f \<and> t_parent F = k_idle s \<and> t_sibling F \<and> t_on_heap F = t_on_heap f \<and> t_state F \<noteq> TASK_STATE_ZOMBIE \<and> (dead (t_state F) \<longrightarrow> t_children f = [])) \<and>
     s' = s\<lparr>k_tasks := (k_tasks s)(c \<mapsto> F, me \<mapsto> m\<lparr>t_children := cs\<rparr>, k_idle s \<mapsto> i\<lparr>t_children := t_children i @ [c]\<rparr>)\<rparr>"

lemma moveD:
  assumes "move_child s s' me c m f i F cs"
  shows "tree_ok s" "k_tasks s me = Some m" "t_children m = c # cs" "me \<noteq> k_idle s" "k_tasks s c = Some f" "t_parent f = me" "t_sibling f"
    "k_tasks s (k_idle s) = Some i" "t_parent i = 0" "\<not> dead (t_state i)"
    "t_children F = t_children f" "t_parent F = k_idle s" "t_sibling F" "t_state F \<noteq> TASK_STATE_ZOMBIE" "dead (t_state F) \<Longrightarrow> t_children f = []"
    "s' = s\<lparr>k_tasks := (k_tasks s)(c \<mapsto> F, me \<mapsto> m\<lparr>t_children := cs\<rparr>, k_idle s \<mapsto> i\<lparr>t_children := t_children i @ [c]\<rparr>)\<rparr>"
    "t_on_heap F = t_on_heap f"
  using assms unfolding move_child_def by blast+

lemma move_distinct:
  assumes mv: "move_child s s' me c m f i F cs"
  shows "c \<noteq> me" "c \<noteq> k_idle s" "c \<notin> set (t_children i)" "distinct (c # cs)"
proof -
  note ok = moveD(1) [OF mv]
  have "me \<noteq> 0" using moveD(2) [OF mv] tree_okD(6) [OF ok] by auto
  then show "c \<noteq> me" "c \<noteq> k_idle s" using tree_okD(4) [OF ok moveD(5) [OF mv]] moveD(5,6,8,9) [OF mv] by auto
  show "c \<notin> set (t_children i)" using one_list [OF ok moveD(2) [OF mv], of c "k_idle s" i] moveD(3,4,8) [OF mv] by auto
  show "distinct (c # cs)" using tree_okD(1) [OF ok moveD(2) [OF mv]] moveD(3) [OF mv] by simp
qed

lemma move_tasks:
  assumes mv: "move_child s s' me c m f i F cs"
  shows "k_tasks s' me = Some (m\<lparr>t_children := cs\<rparr>)" "k_tasks s' (k_idle s) = Some (i\<lparr>t_children := t_children i @ [c]\<rparr>)"
    "k_tasks s' c = Some F" "x \<noteq> me \<Longrightarrow> x \<noteq> c \<Longrightarrow> x \<noteq> k_idle s \<Longrightarrow> k_tasks s' x = k_tasks s x" "k_idle s' = k_idle s" "k_current s' = k_current s"
  using move_distinct(1,2) [OF mv] moveD(4) [OF mv] by (simp_all add: moveD(16) [OF mv])

text \<open>The other tasks keep their places; the lists of the old and the new parent change by the child.\<close>

definition same_place :: "ksys \<Rightarrow> vaddr \<Rightarrow> vaddr \<Rightarrow> vaddr \<Rightarrow> task \<Rightarrow> task \<Rightarrow> bool" where
  "same_place s me c x g g' \<longleftrightarrow> t_state g' = t_state g \<and> t_parent g' = t_parent g \<and> t_wait_kind g' = t_wait_kind g \<and> t_on_heap g' = t_on_heap g \<and> t_sibling g' = t_sibling g \<and>
     set (t_children g') = (set (t_children g) - (if x = me then {c} else {})) \<union> (if x = k_idle s then {c} else {}) \<and> distinct (t_children g')"

lemma move_fwd:
  assumes mv: "move_child s s' me c m f i F cs" and xc: "x \<noteq> c" and g: "k_tasks s x = Some g"
  shows "\<exists>g'. k_tasks s' x = Some g' \<and> same_place s me c x g g'"
proof -
  consider "x = me" | "x = k_idle s" | "x \<noteq> me" "x \<noteq> k_idle s" by blast
  then show ?thesis
    using move_tasks(1,2) [OF mv] move_tasks(4) [OF mv, of x] xc g moveD(2,3,8) [OF mv] move_distinct(3,4) [OF mv] tree_okD(1) [OF moveD(1) [OF mv] g]
    by cases (auto simp: same_place_def)
qed

lemma move_bwd:
  assumes mv: "move_child s s' me c m f i F cs" and xc: "x \<noteq> c" and g': "k_tasks s' x = Some g'"
  shows "\<exists>g. k_tasks s x = Some g \<and> same_place s me c x g g'"
proof -
  have "k_tasks s x \<noteq> None" using g' moveD(2,8) [OF mv] move_tasks(4) [OF mv _ xc] by (metis option.distinct(1))
  then obtain g where "k_tasks s x = Some g" by blast
  then show ?thesis using move_fwd [OF mv xc] g' by fastforce
qed

lemma move_down:
  assumes mv: "move_child s s' me c m f i F cs"
  shows "down_ok s'"
  unfolding down_ok_def
proof (intro allI impI conjI ballI)
  note ok = moveD(1) [OF mv] and m = moveD(2-4) [OF mv] and f = moveD(5-7) [OF mv] and i = moveD(8-10) [OF mv] and fc = moveD(11-15) [OF mv]
    and fwd = move_fwd [OF mv] and bwd = move_bwd [OF mv] and tc = move_tasks(3) [OF mv] and ti = move_tasks(2) [OF mv] and ne = move_distinct(1,2) [OF mv]
  fix p g' assume g': "k_tasks s' p = Some g'"
  have alive: "\<not> dead (t_state m)" using parent_alive [OF ok m(1), of c] m(2) by simp
  show "distinct (t_children g')" using bwd [of p g'] g' tc fc(1) tree_okD(1) [OF ok f(1)] by (cases "p = c") (auto simp: same_place_def)
  show "t_children g' = []" if d: "dead (t_state g')"
  proof (cases "p = c")
    case False
    then obtain g where g: "k_tasks s p = Some g" "same_place s me c p g g'" using bwd [OF False g'] by blast
    then show ?thesis using tree_okD(2) [OF ok g(1)] d i alive m(1) by (auto simp: same_place_def split: if_splits)
  qed (use g' tc fc d in simp)
  fix x assume x: "x \<in> set (t_children g')"
  show "\<exists>h. k_tasks s' x = Some h \<and> t_parent h = p \<and> t_sibling h"
  proof (cases "x = c")
    case True
    have "p = k_idle s"
    proof (cases "p = c")
      case pc: True
      then have "c \<in> set (t_children f)" using x g' tc fc(1) True by simp
      then have "t_parent f = c" using tree_okD(3) [OF ok f(1)] f(1) by force
      then show ?thesis using f(2) ne(1) by simp
    next
      case pc: False
      then show ?thesis using bwd [OF pc g'] x True one_list [OF ok m(1), of c p] m(2) by (auto simp: same_place_def split: if_splits)
    qed
    then show ?thesis using True tc fc by simp
  next
    case xc: False
    have "\<exists>g. k_tasks s p = Some g \<and> x \<in> set (t_children g)"
      using bwd [of p g'] g' x xc tc fc(1) f(1) by (cases "p = c") (auto simp: same_place_def split: if_splits)
    then obtain h where "k_tasks s x = Some h" "t_parent h = p" "t_sibling h" using tree_okD(3) [OF ok] by blast
    then show ?thesis using fwd [OF xc] unfolding same_place_def by metis
  qed
qed

lemma move_up:
  assumes mv: "move_child s s' me c m f i F cs"
  shows "up_ok s'"
  unfolding up_ok_def
proof (intro allI impI)
  note ok = moveD(1) [OF mv] and m = moveD(2-4) [OF mv] and f = moveD(5-7) [OF mv] and i = moveD(8-10) [OF mv] and fc = moveD(11-15) [OF mv]
    and fwd = move_fwd [OF mv] and bwd = move_bwd [OF mv] and tc = move_tasks(3) [OF mv] and ti = move_tasks(2) [OF mv] and ne = move_distinct(1,2) [OF mv]
  fix x g' assume g': "k_tasks s' x = Some g'" "t_parent g' \<noteq> 0"
  show "t_on_heap g' \<and> t_parent g' \<noteq> x \<and> (\<exists>e. k_tasks s' (t_parent g') = Some e \<and> x \<in> set (t_children e))"
  proof (cases "x = c")
    case True
    have "t_parent f \<noteq> 0" using f(2) m(1) tree_okD(6) [OF ok] by auto
    then have "t_on_heap F" using tree_okD(8) [OF ok f(1)] moveD(17) [OF mv] by simp
    then show ?thesis using True g' tc fc ti ne by simp
  next
    case xc: False
    obtain g where g: "k_tasks s x = Some g" "t_parent g' = t_parent g" "t_on_heap g' = t_on_heap g" using bwd [OF xc g'(1)] by (auto simp: same_place_def)
    then obtain e where e: "t_parent g \<noteq> x" "k_tasks s (t_parent g) = Some e" "x \<in> set (t_children e)"
      using tree_okD(4) [OF ok g(1)] g'(2) by auto
    have "\<exists>e'. k_tasks s' (t_parent g) = Some e' \<and> x \<in> set (t_children e')"
      using fwd [OF _ e(2)] e xc tc fc(1) f(1) by (cases "t_parent g = c") (auto simp: same_place_def split: if_splits)
    then show ?thesis using e(1) g g'(2) tree_okD(8) [OF ok g(1)] by simp
  qed
qed

lemma moved_tree_ok:
  assumes mv: "move_child s s' me c m f i F cs"
  shows "tree_ok s'"
proof -
  note ok = moveD(1) [OF mv] and m = moveD(2-4) [OF mv] and f = moveD(5-7) [OF mv] and i = moveD(8-10) [OF mv] and fc = moveD(11-15) [OF mv]
    and fwd = move_fwd [OF mv] and bwd = move_bwd [OF mv] and tc = move_tasks(3) [OF mv] and ti = move_tasks(2) [OF mv] and ne = move_distinct(1,2) [OF mv]
  have "zombies_ok s'" unfolding zombies_ok_def
  proof (intro allI impI)
    fix x g' assume g': "k_tasks s' x = Some g'" "t_state g' = TASK_STATE_ZOMBIE"
    then have xc: "x \<noteq> c" using tc fc(4) by auto
    obtain g where g: "k_tasks s x = Some g" "t_state g' = t_state g" "t_parent g' = t_parent g" using bwd [OF xc g'(1)] by (auto simp: same_place_def)
    then show "t_parent g' \<noteq> 0 \<and> t_parent g' \<noteq> k_idle s'" using tree_okD(5) [OF ok g(1)] g'(2) move_tasks(5) [OF mv] by simp
  qed
  moreover have "k_tasks s' 0 = None" using tree_okD(6) [OF ok] move_tasks(4) [OF mv, of 0] f(1) m(1) i(1) by (metis option.distinct(1))
  ultimately show ?thesis using move_down [OF mv] move_up [OF mv] ti i move_tasks(5) [OF mv] by (simp add: tree_ok_def)
qed

text \<open>One pass of the loop of \<^verbatim>\<open>task_exit\<close>: the first child goes to idle.\<close>

definition to_idle :: "vaddr \<Rightarrow> task \<Rightarrow> task" where
  "to_idle idle f = (if t_state f = TASK_STATE_ZOMBIE then f\<lparr>t_state := TASK_STATE_TERMINATED\<rparr> else f)\<lparr>t_sibling := True, t_parent := idle\<rparr>"

lemma move_child_first:
  assumes ok: "tree_ok s" and m: "k_tasks s me = Some m" "t_children m = c # cs" "me \<noteq> k_idle s"
  obtains f i where "move_child s (s\<lparr>k_tasks := (k_tasks s)(c \<mapsto> to_idle (k_idle s) f, me \<mapsto> m\<lparr>t_children := cs\<rparr>,
      k_idle s \<mapsto> i\<lparr>t_children := t_children i @ [c]\<rparr>)\<rparr>) me c m f i (to_idle (k_idle s) f) cs"
proof -
  obtain f where f: "k_tasks s c = Some f" "t_parent f = me" "t_sibling f" using tree_okD(3) [OF ok m(1), of c] m(2) by auto
  obtain i where i: "k_tasks s (k_idle s) = Some i" "t_parent i = 0" "\<not> dead (t_state i)" using tree_okD(7) [OF ok] by blast
  show ?thesis
    by (rule that [of f i]) (use ok m f i tree_okD(2) [OF ok f(1)] in \<open>auto simp: move_child_def to_idle_def dead_def split: if_splits\<close>)
qed

lemma reparent_step:
  assumes ok: "tree_ok s" and m: "k_tasks s me = Some m" "t_children m = c # cs" "me \<noteq> k_idle s"
  obtains s' f i where "reparent (c # xs) s = reparent xs s'" "move_child s s' me c m f i (to_idle (k_idle s) f) cs"
proof -
  obtain f i where mv: "move_child s (s\<lparr>k_tasks := (k_tasks s)(c \<mapsto> to_idle (k_idle s) f, me \<mapsto> m\<lparr>t_children := cs\<rparr>,
      k_idle s \<mapsto> i\<lparr>t_children := t_children i @ [c]\<rparr>)\<rparr>) me c m f i (to_idle (k_idle s) f) cs" (is "move_child s ?s' me c m f i _ cs")
    by (rule move_child_first [OF assms])
  note f = moveD(5-7) [OF mv] and i = moveD(8) [OF mv] and ne = move_distinct(1,2) [OF mv]
  let ?f = "if t_state f = TASK_STATE_ZOMBIE then f\<lparr>t_state := TASK_STATE_TERMINATED\<rparr> else f"
  define s1 where "s1 = s\<lparr>k_tasks := (k_tasks s)(c \<mapsto> ?f)\<rparr>"
  define s2 where "s2 = s1\<lparr>k_tasks := (k_tasks s1)(me \<mapsto> m\<lparr>t_children := cs\<rparr>, c \<mapsto> ?f\<lparr>t_sibling := False\<rparr>)\<rparr>"
  define s4 where "s4 = s2\<lparr>k_tasks := (k_tasks s2)(c \<mapsto> ?f\<lparr>t_sibling := True\<rparr>, k_idle s \<mapsto> i\<lparr>t_children := t_children i @ [c]\<rparr>)\<rparr>"
  have e1: "upd_task c (\<lambda>e. if t_state e = TASK_STATE_ZOMBIE then e\<lparr>t_state := TASK_STATE_TERMINATED\<rparr> else e) s = Some s1"
    using f(1) by (simp add: upd_task_def s1_def)
  have t1: "tree_ok s1" unfolding s1_def
    by (rule tree_ok_upd [OF ok f(1)]) (use tree_okD(2) [OF ok f(1)] ne in \<open>auto simp: dead_def split: if_splits\<close>)
  have "k_tasks s1 me = Some m" "k_tasks s1 c = Some ?f" using m(1) ne(1) by (simp_all add: s1_def)
  then have e2: "unlink_sibling c s1 = Some s2" using unlink_child [OF t1, of me m c ?f] m(2) by (simp add: s2_def)
  have e3: "link_sibling c (k_idle s2) s2 = Some s4"
    using i ne m(3) by (simp add: link_sibling_def upd_task_def s4_def s2_def s1_def)
  have "k_tasks s4 c = Some (?f\<lparr>t_sibling := True\<rparr>)" "k_idle s4 = k_idle s" using ne by (simp_all add: s4_def s2_def s1_def)
  then have e4: "upd_task c (\<lambda>e. e\<lparr>t_parent := k_idle s4\<rparr>) s4 = Some (s4\<lparr>k_tasks := (k_tasks s4)(c \<mapsto> to_idle (k_idle s) f)\<rparr>)"
    by (simp add: upd_task_def to_idle_def)
  have "(k_tasks s4)(c \<mapsto> to_idle (k_idle s) f) = k_tasks ?s'" using ne m(3) by (auto simp: fun_eq_iff s4_def s2_def s1_def)
  then have "s4\<lparr>k_tasks := (k_tasks s4)(c \<mapsto> to_idle (k_idle s) f)\<rparr> = ?s'" by (simp add: s4_def s2_def s1_def)
  then have "reparent (c # xs) s = reparent xs ?s'" by (simp only: reparent.simps e1 e2 e3 e4 bind.bind_lunit)
  then show ?thesis using that mv by blast
qed

section \<open>Exit\<close>

lemma reparent_all:
  assumes "tree_ok s" "k_tasks s me = Some m" "me \<noteq> k_idle s"
  shows "\<exists>s'. reparent (t_children m) s = Some s' \<and> tree_ok s' \<and> k_tasks s' me = Some (m\<lparr>t_children := []\<rparr>) \<and> k_idle s' = k_idle s \<and> k_current s' = k_current s \<and>
    (\<forall>x. x \<notin> set (t_children m) \<longrightarrow> x \<noteq> me \<longrightarrow> x \<noteq> k_idle s \<longrightarrow> k_tasks s' x = k_tasks s x)"
  using assms
proof (induction "t_children m" arbitrary: s m)
  case Nil
  then show ?case by (intro exI [of _ s]) simp
next
  case (Cons c cs)
  obtain s1 f i where r: "reparent (c # cs) s = reparent cs s1" and mv: "move_child s s1 me c m f i (to_idle (k_idle s) f) cs"
    by (rule reparent_step [OF Cons.prems(1,2) Cons.hyps(2) [symmetric] Cons.prems(3)])
  let ?m = "m\<lparr>t_children := cs\<rparr>"
  have "cs = t_children ?m" by simp
  from Cons.hyps(1) [OF this moved_tree_ok [OF mv] move_tasks(1) [OF mv]]
  obtain s' where s': "reparent cs s1 = Some s'" "tree_ok s'" "k_tasks s' me = Some (m\<lparr>t_children := []\<rparr>)" "k_idle s' = k_idle s" "k_current s' = k_current s"
    "\<forall>x. x \<notin> set cs \<longrightarrow> x \<noteq> me \<longrightarrow> x \<noteq> k_idle s \<longrightarrow> k_tasks s' x = k_tasks s1 x"
    using Cons.prems(3) move_tasks(5,6) [OF mv] by auto
  have "k_tasks s' x = k_tasks s x" if "x \<notin> set (t_children m)" "x \<noteq> me" "x \<noteq> k_idle s" for x
    using that s'(6) move_tasks(4) [OF mv, of x] unfolding Cons.hyps(2) [symmetric] by auto
  then show ?case using r s' unfolding Cons.hyps(2) [symmetric] by (intro exI [of _ s']) simp
qed

text \<open>The state in which a task leaves: a zombie when a parent other than idle can collect it.\<close>

definition last_state :: "ksys \<Rightarrow> task \<Rightarrow> task_state" where
  "last_state s m = (if t_parent m \<noteq> 0 \<and> t_parent m \<noteq> k_idle s then TASK_STATE_ZOMBIE else TASK_STATE_TERMINATED)"

lemma exit_ok:
  assumes ok: "tree_ok s" and m: "k_tasks s (k_current s) = Some m" "k_current s \<noteq> k_idle s"
  obtains s' where "task_exit s = Some s'" "tree_ok s'" "k_tasks s' (k_current s) = Some (m\<lparr>t_children := [], t_state := last_state s m\<rparr>)"
    "k_idle s' = k_idle s" "k_current s' = k_current s"
    "\<And>x e. x \<notin> set (t_children m) \<Longrightarrow> x \<noteq> k_current s \<Longrightarrow> x \<noteq> k_idle s \<Longrightarrow> k_tasks s x = Some e \<Longrightarrow>
      k_tasks s' x = Some (if x = t_parent m \<and> t_state e = TASK_STATE_WAITING \<and> t_wait_kind e = WAIT_CHILD
                           then e\<lparr>t_wait_kind := WAIT_NONE, t_state := TASK_STATE_READY\<rparr> else e)"
proof -
  let ?me = "k_current s" and ?p = "t_parent m" and ?live = "t_parent m \<noteq> 0 \<and> t_parent m \<noteq> k_idle s"
  have me0: "?me \<noteq> 0" using m(1) tree_okD(6) [OF ok] by auto
  obtain s1 where s1: "reparent (t_children m) s = Some s1" "tree_ok s1" "k_tasks s1 ?me = Some (m\<lparr>t_children := []\<rparr>)" "k_idle s1 = k_idle s" "k_current s1 = ?me"
    and oth: "\<forall>x. x \<notin> set (t_children m) \<longrightarrow> x \<noteq> ?me \<longrightarrow> x \<noteq> k_idle s \<longrightarrow> k_tasks s1 x = k_tasks s x"
    using reparent_all [OF ok m] by blast
  define m2 where "m2 = m\<lparr>t_children := [], t_state := last_state s m\<rparr>"
  define s2 where "s2 = s1\<lparr>k_tasks := (k_tasks s1)(?me \<mapsto> m2)\<rparr>"
  have ok2: "tree_ok s2" unfolding s2_def
    by (rule tree_ok_upd [OF s1(2,3)]) (use m(2) s1(4) in \<open>auto simp: m2_def last_state_def\<close>)
  have u2: "upd_task ?me (\<lambda>e. e\<lparr>t_state := last_state s m\<rparr>) s1 = Some s2" using s1(3) by (simp add: upd_task_def s2_def m2_def)
  show ?thesis
  proof (cases ?live)
    case False
    then have "task_exit s = Some s2" using u2 m s1 me0 by (auto simp: task_exit_def last_state_def Let_def)
    then show ?thesis using ok2 s1(4,5) oth False m(1) tree_okD(6) [OF ok] by (intro that [of s2]) (auto simp: s2_def m2_def)
  next
    case True
    then obtain e where e: "k_tasks s1 ?p = Some e" "?me \<in> set (t_children e)" "?p \<noteq> ?me" using tree_okD(4) [OF s1(2,3)] by auto
    let ?w = "t_state e = TASK_STATE_WAITING \<and> t_wait_kind e = WAIT_CHILD"
    define e3 where "e3 = (if ?w then e\<lparr>t_wait_kind := WAIT_NONE, t_state := TASK_STATE_READY\<rparr> else e)"
    define s3 where "s3 = s2\<lparr>k_tasks := (k_tasks s2)(?p \<mapsto> e3)\<rparr>"
    have e2: "k_tasks s2 ?p = Some e" using e by (simp add: s2_def)
    have al: "\<not> dead (t_state e)" by (rule parent_alive [OF s1(2) e(1,2)])
    have ok3: "tree_ok s3" unfolding s3_def
      by (rule tree_ok_upd [OF ok2 e2]) (use al True in \<open>auto simp: e3_def dead_def split: if_splits\<close>)
    have "(if ?w then task_wake ?p s2 else Some s2) = Some s3"
      using e2 True by (auto simp: task_wake_def upd_task_def s3_def e3_def fun_upd_idem)
    then have "task_exit s = Some s3" using u2 m s1 me0 True e2 by (simp add: task_exit_def last_state_def Let_def)
    then show ?thesis
      using ok3 s1(4,5) oth e True by (intro that [of s3]) (auto simp: s3_def s2_def m2_def e3_def)
  qed
qed

section \<open>Waiting for a child\<close>

text \<open>A task leaves the list of its parent and is parentless.\<close>

lemma drop_child:
  assumes ok: "tree_ok s" and p: "k_tasks s p = Some e" "c \<in> set (t_children e)" and f: "k_tasks s c = Some f"
    and f': "t_children f' = t_children f" "t_parent f' = 0" "t_state f' \<noteq> TASK_STATE_ZOMBIE" "dead (t_state f') \<Longrightarrow> t_children f = []"
    and s': "s' = s\<lparr>k_tasks := (k_tasks s)(p \<mapsto> e\<lparr>t_children := remove1 c (t_children e)\<rparr>, c \<mapsto> f')\<rparr>"
  shows "tree_ok s'"
proof -
  have pf: "t_parent f = p" using tree_okD(3) [OF ok p] f by auto
  have p0: "p \<noteq> 0" using p(1) tree_okD(6) [OF ok] by auto
  have cp: "c \<noteq> p" using tree_okD(4) [OF ok f] pf p0 by auto
  have ci: "c \<noteq> k_idle s" using tree_okD(7) [OF ok] f pf p0 by auto
  have fwd: "\<exists>g'. k_tasks s' x = Some g' \<and> t_state g' = t_state g \<and> t_parent g' = t_parent g \<and> t_sibling g' = t_sibling g \<and> t_on_heap g' = t_on_heap g \<and>
      set (t_children g') = set (t_children g) - (if x = p then {c} else {}) \<and> distinct (t_children g')"
    if "x \<noteq> c" "k_tasks s x = Some g" for x g
    using that p tree_okD(1) [OF ok that(2)] by (cases "x = p") (auto simp: s')
  have bwd: "\<exists>g. k_tasks s x = Some g \<and> t_state g' = t_state g \<and> t_parent g' = t_parent g \<and> t_sibling g' = t_sibling g \<and> t_on_heap g' = t_on_heap g \<and>
      set (t_children g') = set (t_children g) - (if x = p then {c} else {}) \<and> distinct (t_children g')"
    if x: "x \<noteq> c" "k_tasks s' x = Some g'" for x g'
  proof -
    have "k_tasks s x \<noteq> None" using x p(1) by (auto simp: s' split: if_splits)
    then show ?thesis using fwd [OF x(1)] x(2) by fastforce
  qed
  have tc: "k_tasks s' c = Some f'" by (simp add: s')
  have none: "c \<notin> set (t_children g)" if "k_tasks s x = Some g" "x \<noteq> p" for x g by (rule one_list [OF ok p that])
  have "down_ok s'" unfolding down_ok_def
  proof (intro allI impI conjI ballI)
    fix x g' assume g': "k_tasks s' x = Some g'"
    show "distinct (t_children g')" using bwd [of x g'] g' tc f'(1) tree_okD(1) [OF ok f] by (cases "x = c") auto
    show "t_children g' = []" if "dead (t_state g')"
      using bwd [of x g'] g' tc f'(1,4) that tree_okD(2) [OF ok, of x] by (cases "x = c") auto
    fix y assume y: "y \<in> set (t_children g')"
    have gy: "\<exists>g. k_tasks s x = Some g \<and> y \<in> set (t_children g) \<and> y \<noteq> c"
    proof (cases "x = c")
      case True
      then have "y \<in> set (t_children f)" using y g' tc f'(1) by simp
      then show ?thesis using f True none [OF f] cp by auto
    next
      case False
      then show ?thesis using bwd [OF False g'] y none [of x] by (auto split: if_splits)
    qed
    then obtain h where "k_tasks s y = Some h" "t_parent h = x" "t_sibling h" using tree_okD(3) [OF ok] by blast
    then show "\<exists>h. k_tasks s' y = Some h \<and> t_parent h = x \<and> t_sibling h" using fwd [of y h] gy by auto
  qed
  moreover have "up_ok s'" unfolding up_ok_def
  proof (intro allI impI)
    fix x g' assume g': "k_tasks s' x = Some g'" "t_parent g' \<noteq> 0"
    then have xc: "x \<noteq> c" using tc f'(2) by auto
    obtain g where g: "k_tasks s x = Some g" "t_parent g' = t_parent g" "t_on_heap g' = t_on_heap g" using bwd [OF xc g'(1)] by blast
    obtain q where q: "t_parent g \<noteq> x" "k_tasks s (t_parent g) = Some q" "x \<in> set (t_children q)" using tree_okD(4) [OF ok g(1)] g'(2) g(2) by auto
    have "\<exists>q'. k_tasks s' (t_parent g) = Some q' \<and> x \<in> set (t_children q')"
      using fwd [OF _ q(2)] q xc tc f'(1) f by (cases "t_parent g = c") (auto split: if_splits)
    then show "t_on_heap g' \<and> t_parent g' \<noteq> x \<and> (\<exists>e. k_tasks s' (t_parent g') = Some e \<and> x \<in> set (t_children e))"
      using q(1) g g'(2) tree_okD(8) [OF ok g(1)] by simp
  qed
  moreover have "zombies_ok s'" unfolding zombies_ok_def
  proof (intro allI impI)
    fix x g' assume g': "k_tasks s' x = Some g'" "t_state g' = TASK_STATE_ZOMBIE"
    then have xc: "x \<noteq> c" using tc f'(3) by auto
    obtain g where "k_tasks s x = Some g" "t_state g' = t_state g" "t_parent g' = t_parent g" using bwd [OF xc g'(1)] by blast
    then show "t_parent g' \<noteq> 0 \<and> t_parent g' \<noteq> k_idle s'" using tree_okD(5) [OF ok] g'(2) by (simp add: s')
  qed
  moreover have "k_tasks s' 0 = None" using tree_okD(6) [OF ok] f p0 by (auto simp: s')
  moreover have "\<exists>i. k_tasks s' (k_idle s') = Some i \<and> t_parent i = 0 \<and> \<not> dead (t_state i)"
    using tree_okD(7) [OF ok] fwd [OF ci [symmetric]] by (fastforce simp: s')
  ultimately show ?thesis by (simp add: tree_ok_def)
qed

definition matches :: "int \<Rightarrow> task \<Rightarrow> bool" where
  "matches pid f \<longleftrightarrow> pid \<le> 0 \<or> sint (t_pid f) = pid"

definition scan_spec :: "ksys \<Rightarrow> int \<Rightarrow> vaddr list \<Rightarrow> nat \<Rightarrow> vaddr \<Rightarrow> bool" where
  "scan_spec s pid cs n z \<longleftrightarrow>
     (if z = 0 then \<forall>c\<in>set cs. \<forall>f. k_tasks s c = Some f \<longrightarrow> matches pid f \<longrightarrow> t_state f \<noteq> TASK_STATE_ZOMBIE
      else 0 < n \<and> z \<in> set cs \<and> (\<exists>f. k_tasks s z = Some f \<and> matches pid f \<and> t_state f = TASK_STATE_ZOMBIE)) \<and>
     (n = 0 \<longleftrightarrow> (\<forall>c\<in>set cs. \<forall>f. k_tasks s c = Some f \<longrightarrow> \<not> matches pid f))"

lemma find_child_task_ok:
  assumes "\<And>c. c \<in> set cs \<Longrightarrow> k_tasks s c \<noteq> None" "0 \<notin> set cs"
  shows "\<exists>n z. find_child_task s pid cs = Some (n, z) \<and> scan_spec s pid cs n z"
  using assms
proof (induction cs)
  case (Cons c cs)
  obtain f where f: "k_tasks s c = Some f" using Cons.prems(1) [of c] by auto
  have "\<And>c. c \<in> set cs \<Longrightarrow> k_tasks s c \<noteq> None" "0 \<notin> set cs" using Cons.prems by auto
  then obtain n z where ih: "find_child_task s pid cs = Some (n, z)" "scan_spec s pid cs n z" using Cons.IH by blast
  show ?case
  proof (cases "pid > 0 \<and> sint (t_pid f) \<noteq> pid")
    case True
    then have nm: "\<not> matches pid f" by (simp add: matches_def)
    have "find_child_task s pid (c # cs) = Some (n, z)" using f True ih(1) by simp
    moreover have "scan_spec s pid (c # cs) n z" using ih(2) nm f unfolding scan_spec_def by (simp split: if_splits)
    ultimately show ?thesis by blast
  next
    case False
    then have mf: "matches pid f" by (auto simp: matches_def)
    show ?thesis
    proof (cases "t_state f = TASK_STATE_ZOMBIE")
      case True
      have "find_child_task s pid (c # cs) = Some (1, c)" using f False True by auto
      moreover have "scan_spec s pid (c # cs) 1 c" using f mf True Cons.prems(2) by (auto simp: scan_spec_def)
      ultimately show ?thesis by blast
    next
      case nz: False
      have "find_child_task s pid (c # cs) = Some (n + 1, z)" using f False nz ih(1) by auto
      moreover have "scan_spec s pid (c # cs) (n + 1) z" using f mf nz ih(2) by (auto simp: scan_spec_def split: if_splits)
      ultimately show ?thesis by blast
    qed
  qed
qed (simp add: scan_spec_def)

text \<open>One pass of \<^verbatim>\<open>task_waitpid\<close> of a living task: a zombie that matches is collected, with its exit code; without a matching
  child the call fails; otherwise the task blocks.\<close>

lemma waitpid_ok:
  assumes ok: "tree_ok s" and m: "k_tasks s (k_current s) = Some m" "\<not> dead (t_state m)"
  obtains r s' where "task_waitpid pid s = Some (r, s')" "tree_ok s'" "k_idle s' = k_idle s" "k_current s' = k_current s"
    "case r of Blocked \<Rightarrow> \<forall>c\<in>set (t_children m). \<forall>f. k_tasks s c = Some f \<longrightarrow> matches pid f \<longrightarrow> t_state f \<noteq> TASK_STATE_ZOMBIE
     | Returned n None \<Rightarrow> n = - ECHILD \<and> s' = s \<and> (\<forall>c\<in>set (t_children m). \<forall>f. k_tasks s c = Some f \<longrightarrow> \<not> matches pid f)
     | Returned n (Some code) \<Rightarrow> \<exists>z f. z \<in> set (t_children m) \<and> k_tasks s z = Some f \<and> matches pid f \<and> t_state f = TASK_STATE_ZOMBIE \<and>
         n = sint (t_pid f) \<and> code = t_exit_code f \<and>
         s' = s\<lparr>k_tasks := (k_tasks s)(k_current s \<mapsto> m\<lparr>t_children := remove1 z (t_children m)\<rparr>,
                z \<mapsto> f\<lparr>t_sibling := False, t_parent := 0, t_state := TASK_STATE_TERMINATED\<rparr>)\<rparr>"
proof -
  let ?me = "k_current s"
  have me0: "?me \<noteq> 0" using m(1) tree_okD(6) [OF ok] by auto
  have ex: "\<And>c. c \<in> set (t_children m) \<Longrightarrow> k_tasks s c \<noteq> None" using tree_okD(3) [OF ok m(1)] by force
  then have "0 \<notin> set (t_children m)" using tree_okD(6) [OF ok] by force
  then obtain n z where fc: "find_child_task s pid (t_children m) = Some (n, z)" "scan_spec s pid (t_children m) n z"
    using find_child_task_ok [OF ex] by blast
  show ?thesis
  proof (cases "n = 0")
    case True
    then have "task_waitpid pid s = Some (Returned (- ECHILD) None, s)" using m fc me0 by (simp add: task_waitpid_def)
    then show ?thesis using that ok True fc(2) by (auto simp: scan_spec_def)
  next
    case n: False
    show ?thesis
    proof (cases "z = 0")
      case True
      let ?s = "s\<lparr>k_tasks := (k_tasks s)(?me \<mapsto> m\<lparr>t_wait_kind := WAIT_CHILD, t_state := TASK_STATE_WAITING\<rparr>)\<rparr>"
      have "task_waitpid pid s = Some (Blocked, if ?me = k_idle s then s else ?s)"
        using m fc me0 n True by (simp add: task_waitpid_def upd_task_def)
      moreover have "tree_ok (if ?me = k_idle s then s else ?s)"
        using ok tree_ok_upd [OF ok m(1), of "m\<lparr>t_wait_kind := WAIT_CHILD, t_state := TASK_STATE_WAITING\<rparr>"] by (simp add: dead_def)
      ultimately show ?thesis using that fc(2) True by (auto simp: scan_spec_def)
    next
      case False
      then obtain f where f: "z \<in> set (t_children m)" "k_tasks s z = Some f" "matches pid f" "t_state f = TASK_STATE_ZOMBIE"
        using fc(2) by (auto simp: scan_spec_def)
      let ?s = "s\<lparr>k_tasks := (k_tasks s)(?me \<mapsto> m\<lparr>t_children := remove1 z (t_children m)\<rparr>,
                z \<mapsto> f\<lparr>t_sibling := False, t_parent := 0, t_state := TASK_STATE_TERMINATED\<rparr>)\<rparr>"
      have "t_children f = []" using tree_okD(2) [OF ok f(2)] f(4) by (simp add: dead_def)
      then have "tree_ok ?s" by (intro drop_child [OF ok m(1) f(1,2)]) simp_all
      moreover have "task_waitpid pid s = Some (Returned (sint (t_pid f)) (Some (t_exit_code f)), ?s)"
        using m fc me0 n False f(2) unlink_child [OF ok m(1) f(1,2)] by (simp add: task_waitpid_def upd_task_def)
      ultimately show ?thesis using that f by auto
    qed
  qed
qed

section \<open>Tasks that come and go\<close>

lemma tree_ok_cong: "k_tasks s' = k_tasks s \<Longrightarrow> k_idle s' = k_idle s \<Longrightarrow> tree_ok s' = tree_ok s"
  by (simp add: tree_ok_def down_ok_def up_ok_def zombies_ok_def)

text \<open>A task that is parentless and childless is not in the tree.\<close>

lemma no_list:
  assumes ok: "tree_ok s" and t: "k_tasks s t = None \<or> (\<exists>e. k_tasks s t = Some e \<and> t_parent e = 0)" and g: "k_tasks s x = Some g"
  shows "t \<notin> set (t_children g)"
proof
  assume "t \<in> set (t_children g)"
  then obtain f where "k_tasks s t = Some f" "t_parent f = x" using tree_okD(3) [OF ok g] by blast
  then show False using t g tree_okD(6) [OF ok] by auto
qed

lemma tree_remove:
  assumes ok: "tree_ok s" and t: "k_tasks s t = Some e" "t_children e = []" "t_parent e = 0" "t \<noteq> k_idle s"
  shows "tree_ok (s\<lparr>k_tasks := (k_tasks s)(t := None)\<rparr>)"
proof -
  let ?s = "s\<lparr>k_tasks := (k_tasks s)(t := None)\<rparr>"
  have no: "t \<notin> set (t_children g)" if "k_tasks s x = Some g" for x g using no_list [OF ok _ that] t by blast
  have "down_ok ?s" unfolding down_ok_def
  proof (intro allI impI conjI ballI)
    fix p g assume "k_tasks ?s p = Some g"
    then have g: "k_tasks s p = Some g" by (simp split: if_splits)
    show "distinct (t_children g)" by (rule tree_okD(1) [OF ok g])
    show "t_children g = []" if "dead (t_state g)" by (rule tree_okD(2) [OF ok g that])
    fix c assume c: "c \<in> set (t_children g)"
    then show "\<exists>f. k_tasks ?s c = Some f \<and> t_parent f = p \<and> t_sibling f" using tree_okD(3) [OF ok g c] no [OF g] by auto
  qed
  moreover have "up_ok ?s" unfolding up_ok_def
  proof (intro allI impI)
    fix c f assume "k_tasks ?s c = Some f" and p: "t_parent f \<noteq> 0"
    then have f: "k_tasks s c = Some f" by (simp split: if_splits)
    show "t_on_heap f \<and> t_parent f \<noteq> c \<and> (\<exists>e. k_tasks ?s (t_parent f) = Some e \<and> c \<in> set (t_children e))"
      using tree_okD(4,8) [OF ok f p] t(1,2) by (cases "t_parent f = t") auto
  qed
  moreover have "zombies_ok ?s" using tree_okD(5) [OF ok] by (simp add: zombies_ok_def)
  ultimately show ?thesis using tree_okD(6,7) [OF ok] t(4) by (simp add: tree_ok_def)
qed

lemma tree_add:
  assumes ok: "tree_ok s" and t: "k_tasks s t = None" "t \<noteq> 0" and e: "t_children e = []" "t_parent e = 0" "t_state e \<noteq> TASK_STATE_ZOMBIE"
  shows "tree_ok (s\<lparr>k_tasks := (k_tasks s)(t \<mapsto> e)\<rparr>)"
proof -
  let ?s = "s\<lparr>k_tasks := (k_tasks s)(t \<mapsto> e)\<rparr>"
  have ti: "t \<noteq> k_idle s" using t(1) tree_okD(7) [OF ok] by auto
  have up: "k_tasks ?s x = Some g" if "k_tasks s x = Some g" for x g using that t(1) by auto
  have "down_ok ?s" unfolding down_ok_def
  proof (intro allI impI conjI ballI)
    fix p g assume g: "k_tasks ?s p = Some g"
    show "distinct (t_children g)" using g e(1) tree_okD(1) [OF ok] by (auto split: if_splits)
    show "t_children g = []" if "dead (t_state g)" using g e(1) tree_okD(2) [OF ok _ that] by (auto split: if_splits)
    fix c assume c: "c \<in> set (t_children g)"
    then have "k_tasks s p = Some g" using g e(1) by (auto split: if_splits)
    then show "\<exists>f. k_tasks ?s c = Some f \<and> t_parent f = p \<and> t_sibling f" using tree_okD(3) [OF ok _ c] up by blast
  qed
  moreover have "up_ok ?s" unfolding up_ok_def
  proof (intro allI impI)
    fix c f assume f: "k_tasks ?s c = Some f" and p: "t_parent f \<noteq> 0"
    then have "k_tasks s c = Some f" using e(2) by (auto split: if_splits)
    then show "t_on_heap f \<and> t_parent f \<noteq> c \<and> (\<exists>e. k_tasks ?s (t_parent f) = Some e \<and> c \<in> set (t_children e))"
      using tree_okD(4,8) [OF ok _ p] up by blast
  qed
  moreover have "zombies_ok ?s" using tree_okD(5) [OF ok] e(3) by (auto simp: zombies_ok_def)
  ultimately show ?thesis using tree_okD(6,7) [OF ok] t(2) ti by (simp add: tree_ok_def)
qed

text \<open>A parentless task becomes the last child of a living task.\<close>

lemma tree_adopt:
  assumes ok: "tree_ok s" and t: "k_tasks s t = None" "t \<noteq> 0" and p: "k_tasks s p = Some m" "\<not> dead (t_state m)"
    and e: "t_children e = []" "t_parent e = p" "t_sibling e" "t_on_heap e" "t_state e \<noteq> TASK_STATE_ZOMBIE"
  shows "tree_ok (s\<lparr>k_tasks := (k_tasks s)(t \<mapsto> e, p \<mapsto> m\<lparr>t_children := t_children m @ [t]\<rparr>)\<rparr>)" (is "tree_ok ?s0")
proof -
  define s' where "s' = ?s0"
  have ti: "t \<noteq> k_idle s" "t \<noteq> p" using t(1) p(1) tree_okD(7) [OF ok] by auto
  have kt: "k_tasks s' t = Some e" "k_tasks s' p = Some (m\<lparr>t_children := t_children m @ [t]\<rparr>)" "k_idle s' = k_idle s" using ti by (simp_all add: s'_def)
  have oth: "k_tasks s' x = k_tasks s x" if "x \<noteq> t" "x \<noteq> p" for x using that by (simp add: s'_def)
  let ?C = "\<lambda>x g. if x = p then t_children g @ [t] else t_children g"
  have no: "t \<notin> set (t_children g)" if "k_tasks s x = Some g" for x g using no_list [OF ok _ that] t by blast
  have fwd: "\<exists>g'. k_tasks s' x = Some g' \<and> t_parent g' = t_parent g \<and> t_sibling g' = t_sibling g \<and> t_state g' = t_state g \<and> t_children g' = ?C x g"
    if "k_tasks s x = Some g" for x g using that t(1) p(1) kt oth [of x] by (cases "x = p"; cases "x = t") auto
  have bwd: "\<exists>g. k_tasks s x = Some g \<and> t_parent g' = t_parent g \<and> t_sibling g' = t_sibling g \<and> t_state g' = t_state g \<and>
      t_on_heap g' = t_on_heap g \<and> t_children g' = ?C x g" if "k_tasks s' x = Some g'" "x \<noteq> t" for x g'
    using that p(1) kt oth [of x] by (cases "x = p") auto
  have "down_ok s'" unfolding down_ok_def
  proof (intro allI impI conjI ballI)
    fix x g' assume g': "k_tasks s' x = Some g'"
    show "distinct (t_children g')"
      using bwd [OF g'] kt(1) g' e(1) tree_okD(1) [OF ok] no by (cases "x = t") (fastforce split: if_splits)+
    show "t_children g' = []" if d: "dead (t_state g')"
      using bwd [OF g'] kt(1) g' e(1) tree_okD(2) [OF ok] d p by (cases "x = t") (fastforce split: if_splits)+
    fix c assume c: "c \<in> set (t_children g')"
    then have "x \<noteq> t" using g' kt(1) e(1) by auto
    then obtain g where g: "k_tasks s x = Some g" "t_children g' = ?C x g" using bwd [OF g'] by blast
    show "\<exists>f. k_tasks s' c = Some f \<and> t_parent f = x \<and> t_sibling f"
    proof (cases "c = t")
      case True
      then show ?thesis using kt(1) e(2,3) c g no [OF g(1)] by (auto split: if_splits)
    next
      case False
      then have "c \<in> set (t_children g)" using c g(2) by (auto split: if_splits)
      then show ?thesis using tree_okD(3) [OF ok g(1)] fwd by metis
    qed
  qed
  moreover have "up_ok s'" unfolding up_ok_def
  proof (intro allI impI)
    fix c f' assume f': "k_tasks s' c = Some f'" and q: "t_parent f' \<noteq> 0"
    show "t_on_heap f' \<and> t_parent f' \<noteq> c \<and> (\<exists>e. k_tasks s' (t_parent f') = Some e \<and> c \<in> set (t_children e))"
    proof (cases "c = t")
      case True
      then show ?thesis using f' kt e ti by auto
    next
      case False
      obtain f where f: "k_tasks s c = Some f" "t_parent f' = t_parent f" "t_on_heap f' = t_on_heap f" using bwd [OF f' False] by blast
      then obtain g where g: "t_on_heap f" "t_parent f \<noteq> c" "k_tasks s (t_parent f) = Some g" "c \<in> set (t_children g)"
        using tree_okD(4,8) [OF ok f(1)] q by auto
      obtain g' where "k_tasks s' (t_parent f) = Some g'" "t_children g' = ?C (t_parent f) g" using fwd [OF g(3)] by blast
      moreover have "c \<in> set (?C (t_parent f) g)" using g(4) by simp
      ultimately show ?thesis using f(2,3) g(1,2) by (auto simp del: fun_upd_apply)
    qed
  qed
  moreover have "zombies_ok s'" unfolding zombies_ok_def
  proof (intro allI impI)
    fix c f' assume f': "k_tasks s' c = Some f'" "t_state f' = TASK_STATE_ZOMBIE"
    then have "c \<noteq> t" using kt(1) e(5) by auto
    then obtain f where "k_tasks s c = Some f" "t_parent f' = t_parent f" "t_state f' = t_state f" using bwd [OF f'(1)] by blast
    then show "t_parent f' \<noteq> 0 \<and> t_parent f' \<noteq> k_idle s'" using tree_okD(5) [OF ok] f'(2) kt(3) by simp
  qed
  moreover have "k_tasks s' 0 = None" using tree_okD(6) [OF ok] t(2) p(1) oth [of 0] by fastforce
  moreover have "\<exists>i. k_tasks s' (k_idle s') = Some i \<and> t_parent i = 0 \<and> \<not> dead (t_state i)"
  proof -
    obtain i where i: "k_tasks s (k_idle s) = Some i" "t_parent i = 0" "\<not> dead (t_state i)" using tree_okD(7) [OF ok] by blast
    then show ?thesis using fwd [OF i(1)] kt(3) by auto
  qed
  ultimately show ?thesis unfolding s'_def [symmetric] tree_ok_def by blast
qed

section \<open>The steps of the system\<close>

text \<open>The end of \<^verbatim>\<open>spawn\<close>: the new task joins the tree under the caller and becomes ready.\<close>

definition join_tree :: "vaddr \<Rightarrow> ksys \<Rightarrow> ksys option" where
  "join_tree t s =
     do { s \<leftarrow> upd_task t (\<lambda>e. e\<lparr>t_parent := k_current s\<rparr>) s; s \<leftarrow> link_sibling t (k_current s) s; task_set_ready t s }"

definition running :: "ksys \<Rightarrow> bool" where
  "running s \<longleftrightarrow> (case k_tasks s (k_current s) of None \<Rightarrow> False | Some m \<Rightarrow> t_state m = TASK_STATE_RUNNING)"

text \<open>
  The running task creates a task, gives up on one or lets it join the tree, exits, waits for a child, or blocks; the scheduler, the timer
  and the interrupts that wake tasks run at any moment.
\<close>

inductive proc_step :: "u64 \<Rightarrow> ksys \<Rightarrow> ksys \<Rightarrow> bool" for h where
  create: "running s \<Longrightarrow> k_tasks s t = None \<Longrightarrow> t \<noteq> 0 \<Longrightarrow> task_create h t entry_point name priority u s = Some s1 \<Longrightarrow>
    upd_task t (\<lambda>e. e\<lparr>t_on_heap := hp\<rparr>) s1 = Some s' \<Longrightarrow> proc_step h s s'"
| discard: "running s \<Longrightarrow> k_tasks s t = Some e \<Longrightarrow> t_state e = TASK_STATE_NEW \<Longrightarrow> t_children e = [] \<Longrightarrow> t \<noteq> k_idle s \<Longrightarrow>
    upd_task t (\<lambda>e. e\<lparr>t_state := TASK_STATE_TERMINATED\<rparr>) s = Some s' \<Longrightarrow> proc_step h s s'"
| join: "running s \<Longrightarrow> k_tasks s t = Some e \<Longrightarrow> t_state e = TASK_STATE_NEW \<Longrightarrow> t_parent e = 0 \<Longrightarrow> t_children e = [] \<Longrightarrow> t_on_heap e \<Longrightarrow>
    t \<noteq> k_idle s \<Longrightarrow> join_tree t s = Some s' \<Longrightarrow> proc_step h s s'"
| exits: "running s \<Longrightarrow> task_exit s = Some s' \<Longrightarrow> proc_step h s s'"
| waits: "running s \<Longrightarrow> task_waitpid pid s = Some (r, s') \<Longrightarrow> proc_step h s s'"
| blocks: "running s \<Longrightarrow> upd_task (k_current s) (\<lambda>e. e\<lparr>t_wait_kind := w, t_state := TASK_STATE_WAITING\<rparr>) s = Some s' \<Longrightarrow> proc_step h s s'"
| wakes: "task_wake_all w s = Some (n, s') \<Longrightarrow> proc_step h s s'"
| ticks: "task_tick (s\<lparr>k_ticks := k_ticks s + 1\<rparr>) = Some s' \<Longrightarrow> proc_step h s s'"
| schedules: "scheduler h s = Some s' \<Longrightarrow> proc_step h s s'"

definition proc_ok :: "ksys \<Rightarrow> bool" where
  "proc_ok s \<longleftrightarrow> tree_ok s \<and> k_current s \<in> dom (k_tasks s)"

text \<open>The reaper may take any task but idle and the current one; the other steps keep the current task.\<close>

definition on_place :: "(task \<Rightarrow> task) \<Rightarrow> bool" where
  "on_place f \<longleftrightarrow> (\<forall>e. t_children (f e) = t_children e \<and> t_parent (f e) = t_parent e \<and> t_sibling (f e) = t_sibling e \<and> t_on_heap (f e) = t_on_heap e \<and>
     (t_state (f e) = t_state e \<or> \<not> dead (t_state (f e))))"

lemma upd_task_tree:
  assumes "proc_ok s" "upd_task t f s = Some s'" "on_place f"
  shows "proc_ok s' \<and> k_idle s' = k_idle s \<and> k_current s' = k_current s \<and> t \<in> dom (k_tasks s')"
proof -
  have ok: "tree_ok s" and cur: "k_current s \<in> dom (k_tasks s)" using assms(1) by (simp_all add: proc_ok_def)
  obtain e where e: "k_tasks s t = Some e" and s': "s' = s\<lparr>k_tasks := (k_tasks s)(t \<mapsto> f e)\<rparr>"
    using assms(2) by (auto simp: upd_task_def split: Option.bind_splits)
  have f: "t_children (f e) = t_children e" "t_parent (f e) = t_parent e" "t_sibling (f e) = t_sibling e" "t_on_heap (f e) = t_on_heap e"
    "t_state (f e) = t_state e \<or> \<not> dead (t_state (f e))" using assms(3) by (simp_all add: on_place_def)
  have "tree_ok s'" unfolding s'
  proof (rule tree_ok_upd [OF ok e f(1-4)])
    assume "dead (t_state (f e))"
    then have "dead (t_state e)" using f(5) by auto
    then show "t_children e = [] \<and> t \<noteq> k_idle s" using tree_okD(2) [OF ok e] tree_okD(7) [OF ok] e by auto
  next
    assume "t_state (f e) = TASK_STATE_ZOMBIE"
    then have "t_state e = TASK_STATE_ZOMBIE" using f(5) by (auto simp: dead_def)
    then show "t_parent e \<noteq> 0 \<and> t_parent e \<noteq> k_idle s" by (rule tree_okD(5) [OF ok e])
  qed
  then show ?thesis using cur by (simp add: s' proc_ok_def)
qed

lemma tick_list_tree: "proc_ok s \<Longrightarrow> tick_list ts s = Some s' \<Longrightarrow> proc_ok s'"
proof (induction ts arbitrary: s)
  case (Cons t ts)
  let ?f = "\<lambda>e. if t_state e = TASK_STATE_WAITING \<and> t_wait_kind e = WAIT_SLEEP \<and> k_ticks s \<ge> ucast (t_sleep_until e)
                then e\<lparr>t_wait_kind := WAIT_NONE, t_state := TASK_STATE_READY\<rparr> else e"
  obtain s1 where s1: "upd_task t ?f s = Some s1" "tick_list ts s1 = Some s'" using Cons.prems(2) by (auto split: Option.bind_splits)
  have "on_place ?f" by (simp add: on_place_def dead_def)
  then have "proc_ok s1" using upd_task_tree [OF Cons.prems(1) s1(1)] by blast
  then show ?case by (rule Cons.IH [OF _ s1(2)])
qed simp

lemma wake_tree: "proc_ok s \<Longrightarrow> task_wake t s = Some s' \<Longrightarrow> proc_ok s'"
  using upd_task_tree [of s t _ s'] by (fastforce simp: task_wake_def on_place_def dead_def split: if_splits)

lemma wake_list_tree: "proc_ok s \<Longrightarrow> wake_list w ts s = Some (n, s') \<Longrightarrow> proc_ok s'"
  by (induction w ts s arbitrary: n rule: wake_list.induct) (auto split: Option.bind_splits if_splits dest: wake_tree)

section \<open>The scheduler and the tree\<close>

lemma switch_tree:
  assumes "proc_ok s" "n \<in> dom (k_tasks s)" "task_switch_to h n s = Some s'"
  shows "proc_ok s'"
proof -
  obtain s1 where s1: "task_save_context s = Some s1" using assms(3) by (auto simp: task_switch_to_def split: Option.bind_splits)
  have "on_place (\<lambda>e. e\<lparr>t_regs := copy_context (k_ptrace s) (t_regs e)\<rparr>)" by (simp add: on_place_def)
  then have p1: "proc_ok s1" using upd_task_tree [OF assms(1)] s1 unfolding task_save_context_def by blast
  have "k_tasks s' = k_tasks s1 \<and> k_idle s' = k_idle s1 \<and> k_current s' = n"
    using assms(3) s1 by (auto simp: task_switch_to_def task_load_context_def Let_def split: Option.bind_splits if_splits)
  moreover have "n \<in> dom (k_tasks s1)" using s1 assms(2) by (auto simp: task_save_context_def upd_task_def split: Option.bind_splits)
  ultimately show ?thesis using p1 tree_ok_cong [of s' s1] by (simp add: proc_ok_def)
qed

lemma pick_tree:
  assumes ok: "proc_ok s" and p: "sched_pick h r s = Some s'"
  shows "proc_ok s'"
proof (cases "next_ready_task s = 0 \<and> r")
  case True
  then have "upd_task (k_current s) (\<lambda>e. e\<lparr>t_ticks_remaining := TASK_TIMESLICE\<rparr>) s = Some s'" using p by (simp add: sched_pick_def)
  then show ?thesis using upd_task_tree [OF ok] by (simp add: on_place_def)
next
  case False
  let ?n = "if next_ready_task s = 0 then k_idle s else next_ready_task s"
  obtain s1 s2 where s1: "(if r \<and> k_current s \<noteq> k_idle s then upd_task (k_current s) (\<lambda>e. e\<lparr>t_state := TASK_STATE_READY\<rparr>) s else Some s) = Some s1"
    and s2: "upd_task ?n (\<lambda>e. e\<lparr>t_state := TASK_STATE_RUNNING, t_ticks_remaining := TASK_TIMESLICE\<rparr>) s1 = Some s2"
    and s': "(if ?n \<noteq> k_current s then task_switch_to h ?n s2 else Some s2) = Some s'"
    using p unfolding sched_pick_def Let_def if_not_P [OF False] by (auto simp del: if_split simp: bind_eq_Some_conv)
  have "on_place (\<lambda>e. e\<lparr>t_state := TASK_STATE_READY\<rparr>)" "on_place (\<lambda>e. e\<lparr>t_state := TASK_STATE_RUNNING, t_ticks_remaining := TASK_TIMESLICE\<rparr>)"
    by (simp_all add: on_place_def dead_def)
  note pl = this
  have p1: "proc_ok s1"
  proof (cases "r \<and> k_current s \<noteq> k_idle s")
    case True
    then show ?thesis using upd_task_tree [OF ok _ pl(1)] s1 by auto
  qed (use s1 ok in auto)
  have p2: "proc_ok s2" "?n \<in> dom (k_tasks s2)" using upd_task_tree [OF p1 s2 pl(2)] by blast+
  show ?thesis
  proof (cases "?n = k_current s")
    case True
    then show ?thesis using s' p2 by simp
  next
    case False
    then show ?thesis using s' switch_tree [OF p2] by auto
  qed
qed

text \<open>The memory that the reaper gives back is not part of the tree.\<close>

lemma put_pages_tree [simp]:
  "k_tasks (put_pages g s) = k_tasks s" "k_idle (put_pages g s) = k_idle s" "k_current (put_pages g s) = k_current s"
  by (simp_all add: put_pages_def)

lemma reap_task_shape:
  assumes "reap_task h t s = Some s'" "k_tasks s t = Some e" "t \<noteq> k_idle s" "t \<noteq> k_current s" "t_state e = TASK_STATE_TERMINATED"
  obtains s1 where "(if t_sibling e then unlink_sibling t (s\<lparr>k_list := remove1 t (k_list s)\<rparr>) else Some (s\<lparr>k_list := remove1 t (k_list s)\<rparr>)) = Some s1"
    "k_tasks s' = (if t_on_heap e then (k_tasks s1)(t := None) else k_tasks s1)" "k_idle s' = k_idle s1" "k_current s' = k_current s1"
proof -
  let ?s0 = "s\<lparr>k_list := remove1 t (k_list s)\<rparr>"
  have "\<not> (t = k_idle s \<or> t = k_current s \<or> t_state e \<noteq> TASK_STATE_TERMINATED)" using assms(3-5) by simp
  from assms(1) [unfolded reap_task_def assms(2) bind.bind_lunit if_not_P [OF this] Let_def]
  obtain s1 s2 s3 where s1: "(if t_sibling e then unlink_sibling t ?s0 else Some ?s0) = Some s1"
    and s2: "(if t_kernel_stack e \<noteq> 0
        then do { b \<leftarrow> buddy_free h (pm_buddy (pages_of_sys s1)) (t_kernel_stack e - of_nat (KSTACK_PAGES * 4096)) KSTACK_ORDER;
                  Some (put_pages ((pages_of_sys s1)\<lparr>pm_buddy := b\<rparr>) s1) } else Some s1) = Some s2"
    and s3: "(if t_pml4 e \<noteq> 0 then do { g \<leftarrow> pgtable_free_tree h (t_pml4 e) (pages_of_sys s2); Some (put_pages g s2) } else Some s2) = Some s3"
    and s': "(if t_on_heap e then do { kh \<leftarrow> kfree h t (fst (k_mem s3)); Some (s3\<lparr>k_mem := (kh, snd (k_mem s3)), k_tasks := (k_tasks s3)(t := None)\<rparr>) }
        else Some s3) = Some s'"
    by (auto simp: bind_eq_Some_conv simp del: if_split)
  have "k_tasks s2 = k_tasks s1 \<and> k_idle s2 = k_idle s1 \<and> k_current s2 = k_current s1"
    using s2 by (cases "t_kernel_stack e = 0") (auto simp: bind_eq_Some_conv)
  moreover have "k_tasks s3 = k_tasks s2 \<and> k_idle s3 = k_idle s2 \<and> k_current s3 = k_current s2"
    using s3 by (cases "t_pml4 e = 0") (auto simp: bind_eq_Some_conv)
  moreover have "k_tasks s' = (if t_on_heap e then (k_tasks s3)(t := None) else k_tasks s3) \<and> k_idle s' = k_idle s3 \<and> k_current s' = k_current s3"
    using s' by (cases "t_on_heap e") (auto simp: bind_eq_Some_conv)
  ultimately show ?thesis using that [OF s1] by simp
qed

lemma unlink_alone:
  assumes ok: "tree_ok s" and t: "k_tasks s t = Some e" "t_parent e = 0"
  shows "unlink_sibling t s = Some (s\<lparr>k_tasks := (k_tasks s)(t \<mapsto> e\<lparr>t_sibling := False\<rparr>)\<rparr>)"
proof -
  have "map_option (\<lambda>e. e\<lparr>t_children := remove1 t (t_children e)\<rparr>) (k_tasks s q) = k_tasks s q" for q
    using no_list [OF ok, of t q] t by (cases "k_tasks s q") (simp_all add: remove1_idem)
  then show ?thesis using t(1) by (simp add: unlink_sibling_def upd_task_def)
qed

lemma reap_task_tree:
  assumes pok: "proc_ok s" and r: "reap_task h t s = Some s'"
  shows "proc_ok s'"
proof -
  have ok: "tree_ok s" and cur: "k_current s \<in> dom (k_tasks s)" using pok by (simp_all add: proc_ok_def)
  obtain e where e: "k_tasks s t = Some e" using r by (auto simp: reap_task_def bind_eq_Some_conv)
  show ?thesis
  proof (cases "t = k_idle s \<or> t = k_current s \<or> t_state e \<noteq> TASK_STATE_TERMINATED")
    case True
    then show ?thesis using r e pok by (simp add: reap_task_def)
  next
    case False
    then have ne: "t \<noteq> k_idle s" "t \<noteq> k_current s" "t_state e = TASK_STATE_TERMINATED" by auto
    define s0 where "s0 = s\<lparr>k_list := remove1 t (k_list s)\<rparr>"
    have ok0: "tree_ok s0" and e0: "k_tasks s0 t = Some e" using ok e tree_ok_cong [of s0 s] by (simp_all add: s0_def)
    obtain s1 where s1: "(if t_sibling e then unlink_sibling t s0 else Some s0) = Some s1"
      and s': "k_tasks s' = (if t_on_heap e then (k_tasks s1)(t := None) else k_tasks s1)" "k_idle s' = k_idle s1" "k_current s' = k_current s1"
      using reap_task_shape [OF r e ne] unfolding s0_def by blast
    have ch: "t_children e = []" using tree_okD(2) [OF ok e] ne(3) by (simp add: dead_def)
    have t0: "t \<noteq> 0" using e tree_okD(6) [OF ok] by auto
    show ?thesis
    proof (cases "t_parent e = 0")
      case True
      have rm: "tree_ok (s0\<lparr>k_tasks := (k_tasks s0)(t := None)\<rparr>)"
        by (rule tree_remove [OF ok0 e0 ch True]) (use ne in \<open>simp add: s0_def\<close>)
      have "tree_ok ((s0\<lparr>k_tasks := (k_tasks s0)(t := None)\<rparr>)\<lparr>k_tasks := (k_tasks (s0\<lparr>k_tasks := (k_tasks s0)(t := None)\<rparr>))(t \<mapsto> e\<lparr>t_sibling := False\<rparr>)\<rparr>)"
        by (rule tree_add [OF rm _ t0]) (use ch True ne in simp_all)
      then have ad: "tree_ok (s0\<lparr>k_tasks := (k_tasks s0)(t \<mapsto> e\<lparr>t_sibling := False\<rparr>)\<rparr>)" by simp
      let ?g = "if t_sibling e then e\<lparr>t_sibling := False\<rparr> else e"
      have k1: "k_tasks s1 = (k_tasks s0)(t \<mapsto> ?g)" "k_idle s1 = k_idle s0" "k_current s1 = k_current s0"
      proof -
        have "s1 = (if t_sibling e then s0\<lparr>k_tasks := (k_tasks s0)(t \<mapsto> e\<lparr>t_sibling := False\<rparr>)\<rparr> else s0)"
          using s1 unfolding unlink_alone [OF ok0 e0 True] by (metis option.inject)
        moreover have "(k_tasks s0)(t \<mapsto> e) = k_tasks s0" using e0 by (rule fun_upd_idem)
        ultimately show "k_tasks s1 = (k_tasks s0)(t \<mapsto> ?g)" "k_idle s1 = k_idle s0" "k_current s1 = k_current s0" by simp_all
      qed
      have ad': "tree_ok (s0\<lparr>k_tasks := (k_tasks s0)(t \<mapsto> ?g)\<rparr>)" using ad ok0 e0 by (simp add: fun_upd_idem)
      have "tree_ok s'"
      proof (cases "t_on_heap e")
        case True
        then show ?thesis using rm tree_ok_cong [of s' "s0\<lparr>k_tasks := (k_tasks s0)(t := None)\<rparr>"] s' k1 by simp
      next
        case False
        then show ?thesis using ad' tree_ok_cong [of s' "s0\<lparr>k_tasks := (k_tasks s0)(t \<mapsto> ?g)\<rparr>"] s' k1 by simp
      qed
      moreover have "k_current s' \<in> dom (k_tasks s')" using s' k1 cur ne by (auto simp: s0_def)
      ultimately show ?thesis by (simp add: proc_ok_def)
    next
      case False
      obtain m where m: "t_parent e \<noteq> t" "k_tasks s0 (t_parent e) = Some m" "t \<in> set (t_children m)" using tree_okD(4) [OF ok0 e0 False] by blast
      obtain f where f: "k_tasks s0 t = Some f" "t_sibling f" using tree_okD(3) [OF ok0 m(2,3)] by blast
      let ?m = "m\<lparr>t_children := remove1 t (t_children m)\<rparr>"
      let ?d = "s0\<lparr>k_tasks := (k_tasks s0)(t_parent e \<mapsto> ?m, t \<mapsto> e\<lparr>t_parent := 0\<rparr>)\<rparr>"
      have heap: "t_on_heap e" "t_sibling e" using tree_okD(8) [OF ok0 e0 False] f e0 by simp_all
      have "unlink_sibling t s0 = Some (s0\<lparr>k_tasks := (k_tasks s0)(t_parent e \<mapsto> ?m, t \<mapsto> e\<lparr>t_sibling := False\<rparr>)\<rparr>)"
        by (rule unlink_child [OF ok0 m(2,3) e0])
      then have k1: "k_tasks s' = (k_tasks s0)(t_parent e \<mapsto> ?m, t := None)" "k_idle s' = k_idle s" "k_current s' = k_current s"
        using s1 s' heap by (auto simp: s0_def)
      have "tree_ok ?d" by (rule drop_child [OF ok0 m(2,3) e0]) (use ch ne in simp_all)
      then have "tree_ok (?d\<lparr>k_tasks := (k_tasks ?d)(t := None)\<rparr>)"
        by (rule tree_remove [of _ t "e\<lparr>t_parent := 0\<rparr>"]) (use ch ne in \<open>simp_all add: s0_def\<close>)
      then have "tree_ok s'" using k1 tree_ok_cong [of s' "?d\<lparr>k_tasks := (k_tasks ?d)(t := None)\<rparr>"] by (simp add: s0_def)
      then show ?thesis using k1 cur ne by (auto simp: proc_ok_def s0_def)
    qed
  qed
qed

lemma reap_tree: "proc_ok s \<Longrightarrow> foldM (reap_task h) ts s = Some s' \<Longrightarrow> proc_ok s'"
  by (induction ts arbitrary: s) (auto simp: bind_eq_Some_conv dest: reap_task_tree)

lemma scheduler_tree:
  assumes "proc_ok s" "scheduler h s = Some s'"
  shows "proc_ok s'"
proof (cases "k_enabled s")
  case True
  then obtain s1 c where s1: "reap_terminated h s = Some s1" and c: "k_tasks s1 (k_current s1) = Some c"
    and s': "(if t_state c = TASK_STATE_RUNNING \<and> k_current s1 \<noteq> k_idle s1
      then let left = (if t_ticks_remaining c \<noteq> 0 then t_ticks_remaining c - 1 else 0);
               s2 = s1\<lparr>k_tasks := (k_tasks s1)(k_current s1 \<mapsto> c\<lparr>t_ticks_remaining := left\<rparr>)\<rparr> in
           if left \<noteq> 0 then Some s2 else sched_pick h True s2
      else sched_pick h (t_state c = TASK_STATE_RUNNING) s1) = Some s'"
    using assms(2) by (auto simp: scheduler_def bind_eq_Some_conv Let_def simp del: if_split)
  have p1: "proc_ok s1" using s1 assms(1) reap_tree unfolding reap_terminated_def by blast
  let ?l = "if t_ticks_remaining c \<noteq> 0 then t_ticks_remaining c - 1 else 0"
  let ?s2 = "s1\<lparr>k_tasks := (k_tasks s1)(k_current s1 \<mapsto> c\<lparr>t_ticks_remaining := ?l\<rparr>)\<rparr>"
  have "upd_task (k_current s1) (\<lambda>e. e\<lparr>t_ticks_remaining := ?l\<rparr>) s1 = Some ?s2" using c by (simp add: upd_task_def)
  then have p2: "proc_ok ?s2" using upd_task_tree [OF p1] by (simp add: on_place_def)
  show ?thesis
    using s' pick_tree [OF p1] pick_tree [OF p2] p2 unfolding Let_def by (metis (no_types, lifting) option.inject)
qed (use assms in \<open>simp add: scheduler_def\<close>)

lemma create_shape:
  assumes "task_create h t entry_point name priority u s = Some s'"
  obtains e where "k_tasks s' = (k_tasks s)(t \<mapsto> e)" "k_idle s' = k_idle s" "k_current s' = k_current s"
    "t_parent e = 0" "t_children e = []" "t_state e = TASK_STATE_NEW"
  using assms by (fastforce simp: task_create_def Let_def bind_eq_Some_conv split: prod.splits if_splits)

lemma join_shape:
  assumes "join_tree t s = Some s'" "k_tasks s t = Some e" "t_state e = TASK_STATE_NEW" "k_tasks s (k_current s) = Some m" "t \<noteq> k_current s"
  shows "s' = s\<lparr>k_tasks := (k_tasks s)(t \<mapsto> e\<lparr>t_parent := k_current s, t_sibling := True, t_state := TASK_STATE_READY\<rparr>,
           k_current s \<mapsto> m\<lparr>t_children := t_children m @ [t]\<rparr>)\<rparr>"
proof -
  have "join_tree t s = Some (s\<lparr>k_tasks := (k_tasks s)(k_current s \<mapsto> m\<lparr>t_children := t_children m @ [t]\<rparr>,
      t \<mapsto> e\<lparr>t_parent := k_current s, t_sibling := True, t_state := TASK_STATE_READY\<rparr>)\<rparr>)"
    using assms(2-5) by (simp add: join_tree_def link_sibling_def task_set_ready_def upd_task_def fun_upd_twist)
  then show ?thesis using assms(1,5) by (simp add: fun_upd_twist)
qed

lemma running_alive: "running s \<Longrightarrow> \<exists>m. k_tasks s (k_current s) = Some m \<and> \<not> dead (t_state m)"
  by (auto simp: running_def dead_def split: option.splits)

lemma exit_keeps:
  assumes "proc_ok s" "running s" "task_exit s = Some s'"
  shows "proc_ok s'"
proof (cases "k_current s = k_idle s")
  case True
  then show ?thesis using assms by (simp add: task_exit_def Let_def)
next
  case False
  obtain m where m: "k_tasks s (k_current s) = Some m" using running_alive [OF assms(2)] by blast
  have ok: "tree_ok s" using assms(1) by (simp add: proc_ok_def)
  show ?thesis by (rule exit_ok [OF ok m False]) (use assms(3) in \<open>auto simp: proc_ok_def\<close>)
qed

lemma wait_keeps:
  assumes "proc_ok s" "running s" "task_waitpid pid s = Some (r, s')"
  shows "proc_ok s'"
proof -
  obtain m where m: "k_tasks s (k_current s) = Some m" "\<not> dead (t_state m)" using running_alive [OF assms(2)] by blast
  have ok: "tree_ok s" using assms(1) by (simp add: proc_ok_def)
  obtain r1 s1 where w: "task_waitpid pid s = Some (r1, s1)" "tree_ok s1" "k_current s1 = k_current s"
    by (rule waitpid_ok [OF ok m, of pid])
  have "dom (k_tasks s) \<subseteq> dom (k_tasks s')"
    using assms(3) by (auto simp: task_waitpid_def Let_def bind_eq_Some_conv upd_task_def unlink_sibling_def split: if_splits)
  then show ?thesis using w assms by (auto simp: proc_ok_def)
qed

lemma proc_step_ok: "proc_step h s s' \<Longrightarrow> proc_ok s \<Longrightarrow> proc_ok s'"
proof (induction rule: proc_step.induct)
  case (create s t entry_point name priority u s1 hp s')
  obtain e where e: "k_tasks s1 = (k_tasks s)(t \<mapsto> e)" "k_idle s1 = k_idle s" "k_current s1 = k_current s" "t_parent e = 0" "t_children e = []" "t_state e = TASK_STATE_NEW"
    by (rule create_shape [OF create.hyps(4)])
  have s': "k_tasks s' = (k_tasks s)(t \<mapsto> e\<lparr>t_on_heap := hp\<rparr>)" "k_idle s' = k_idle s" "k_current s' = k_current s"
    using create.hyps(5) e by (auto simp: upd_task_def)
  have "tree_ok (s\<lparr>k_tasks := (k_tasks s)(t \<mapsto> e\<lparr>t_on_heap := hp\<rparr>)\<rparr>)"
    by (rule tree_add) (use create e in \<open>simp_all add: proc_ok_def\<close>)
  then show ?case using s' create.prems tree_ok_cong [of s' "s\<lparr>k_tasks := (k_tasks s)(t \<mapsto> e\<lparr>t_on_heap := hp\<rparr>)\<rparr>"] by (auto simp: proc_ok_def)
next
  case (discard s t e s')
  then have s': "s' = s\<lparr>k_tasks := (k_tasks s)(t \<mapsto> e\<lparr>t_state := TASK_STATE_TERMINATED\<rparr>)\<rparr>" by (simp add: upd_task_def)
  have "tree_ok s'" unfolding s' by (rule tree_ok_upd) (use discard in \<open>simp_all add: proc_ok_def\<close>)
  then show ?case using discard.prems s' by (auto simp: proc_ok_def)
next
  case (join s t e s')
  have ok: "tree_ok s" using join.prems by (simp add: proc_ok_def)
  obtain m where m: "k_tasks s (k_current s) = Some m" "\<not> dead (t_state m)" using running_alive [OF join.hyps(1)] by blast
  have tc: "t \<noteq> k_current s" using join.hyps(1-3) by (auto simp: running_def)
  let ?e = "e\<lparr>t_parent := k_current s, t_sibling := True, t_state := TASK_STATE_READY\<rparr>" and ?r = "s\<lparr>k_tasks := (k_tasks s)(t := None)\<rparr>"
  have s': "s' = s\<lparr>k_tasks := (k_tasks s)(t \<mapsto> ?e, k_current s \<mapsto> m\<lparr>t_children := t_children m @ [t]\<rparr>)\<rparr>"
    by (rule join_shape [OF join.hyps(8,2,3) m(1) tc])
  have "t \<noteq> 0" using join.hyps(2) tree_okD(6) [OF ok] by auto
  then have "tree_ok (?r\<lparr>k_tasks := (k_tasks ?r)(t \<mapsto> ?e, k_current s \<mapsto> m\<lparr>t_children := t_children m @ [t]\<rparr>)\<rparr>)"
    by (intro tree_adopt [OF tree_remove [OF ok join.hyps(2,5,4,7)]]) (use m tc join.hyps in simp_all)
  then show ?case using join.prems unfolding s' by (simp add: proc_ok_def)
next
  case (blocks s w s')
  then show ?case using upd_task_tree [of s _ _ s'] by (fastforce simp: on_place_def dead_def)
next
  case (wakes w s n s')
  then show ?case using wake_list_tree by (simp add: task_wake_all_def)
next
  case (ticks s s')
  have "proc_ok (s\<lparr>k_ticks := k_ticks s + 1\<rparr>)" using ticks.prems tree_ok_cong [of "s\<lparr>k_ticks := k_ticks s + 1\<rparr>" s] by (simp add: proc_ok_def)
  then show ?case using ticks.hyps tick_list_tree by (simp add: task_tick_def)
qed (blast intro: exit_keeps wait_keeps scheduler_tree)+

lemma proc_run_ok: "(proc_step h)\<^sup>*\<^sup>* s s' \<Longrightarrow> proc_ok s \<Longrightarrow> proc_ok s'"
  by (induction rule: rtranclp_induct) (blast intro: proc_step_ok)+

section \<open>Properties\<close>

text \<open>
  Property C17. The process tree stays whole: along every run of creations, exits, waits, blocks, wake-ups, timer ticks and
  scheduler passes, parent pointers and lists of children agree, no dead task has children, every zombie has a parent that can collect it,
  and the running task can always exit or wait without touching a task that does not exist.
\<close>

theorem process_tree_invariant:
  assumes "tree_ok s" "k_tasks s (k_current s) \<noteq> None" "(proc_step h)\<^sup>*\<^sup>* s s'"
  shows "tree_ok s' \<and> k_tasks s' (k_current s') \<noteq> None \<and> (running s' \<longrightarrow> task_exit s' \<noteq> None \<and> task_waitpid pid s' \<noteq> None)"
proof -
  have "proc_ok s" using assms(1,2) by (auto simp: proc_ok_def)
  then have ok: "tree_ok s'" and c: "k_current s' \<in> dom (k_tasks s')" using proc_run_ok [OF assms(3)] by (simp_all add: proc_ok_def)
  have "task_exit s' \<noteq> None \<and> task_waitpid pid s' \<noteq> None" if run: "running s'"
  proof -
    obtain m where m: "k_tasks s' (k_current s') = Some m" "\<not> dead (t_state m)" using running_alive [OF run] by blast
    have "task_exit s' \<noteq> None"
    proof (cases "k_current s' = k_idle s'")
      case False
      show ?thesis by (rule exit_ok [OF ok m(1) False]) simp
    qed (simp add: task_exit_def Let_def)
    moreover have "task_waitpid pid s' \<noteq> None" by (rule waitpid_ok [OF ok m, of pid]) simp
    ultimately show ?thesis by blast
  qed
  then show ?thesis using ok c by auto
qed

text \<open>Idle, a shell that waits for its child, and the child, which is running.\<close>

definition demo_tree :: ksys where
  "demo_tree = demo_sys\<lparr>k_tasks :=
     [0x1000 \<mapsto> demo_task 1 TASK_STATE_RUNNING,
      0x2000 \<mapsto> (demo_task 2 TASK_STATE_WAITING)\<lparr>t_wait_kind := WAIT_CHILD, t_children := [0x3000]\<rparr>,
      0x3000 \<mapsto> (demo_task 3 TASK_STATE_RUNNING)\<lparr>t_parent := 0x2000, t_sibling := True, t_on_heap := True, t_exit_code := 7\<rparr>],
     k_current := 0x3000\<rparr>"

lemma demo_tree_ok: "tree_ok demo_tree" "k_tasks demo_tree (k_current demo_tree) \<noteq> None" "running demo_tree"
  by (auto simp: tree_ok_def down_ok_def up_ok_def zombies_ok_def dead_def running_def demo_tree_def demo_sys_def demo_task_def split: if_splits)

theorem process_tree_invariant_witness:
  "\<exists>s'. task_exit demo_tree = Some s' \<and> tree_ok s' \<and> k_tasks s' (k_current s') \<noteq> None"
proof -
  have "task_exit demo_tree \<noteq> None"
    using process_tree_invariant [OF demo_tree_ok(1,2) rtranclp.rtrancl_refl] demo_tree_ok(3) by blast
  then obtain s' where s': "task_exit demo_tree = Some s'" by blast
  have "(proc_step demo_h)\<^sup>*\<^sup>* demo_tree s'" by (rule r_into_rtranclp [of "proc_step demo_h"]) (rule exits [OF demo_tree_ok(3) s'])
  then show ?thesis using process_tree_invariant [OF demo_tree_ok(1,2)] s' by blast
qed

lemma exit_waitpid:
  assumes "tree_ok s" "k_tasks s (k_current s) = Some f" "k_current s \<noteq> k_idle s"
    "t_parent f = p" "p \<noteq> 0" "p \<noteq> k_idle s" "k_tasks s p = Some e" "p \<notin> set (t_children f)" "0 < sint (t_pid f)"
    "\<And>x g. x \<in> set (t_children e) \<Longrightarrow> k_tasks s x = Some g \<Longrightarrow> t_pid g = t_pid f \<Longrightarrow> x = k_current s"
  shows "\<exists>s1 s2 f' e'. task_exit s = Some s1 \<and>
    task_waitpid (sint (t_pid f)) (s1\<lparr>k_current := p\<rparr>) = Some (Returned (sint (t_pid f)) (Some (t_exit_code f)), s2) \<and>
    k_tasks s2 (k_current s) = Some f' \<and> t_state f' = TASK_STATE_TERMINATED \<and> t_parent f' = 0 \<and>
    k_tasks s2 p = Some e' \<and> t_children e' = remove1 (k_current s) (t_children e) \<and>
    t_state e' = (if t_state e = TASK_STATE_WAITING \<and> t_wait_kind e = WAIT_CHILD then TASK_STATE_READY else t_state e)"
proof -
  let ?c = "k_current s" and ?pid = "sint (t_pid f)"
  have pc: "?c \<in> set (t_children e)" "p \<noteq> ?c" using tree_okD(4) [OF assms(1,2)] assms(4,5,7) by auto
  let ?e = "if t_state e = TASK_STATE_WAITING \<and> t_wait_kind e = WAIT_CHILD then e\<lparr>t_wait_kind := WAIT_NONE, t_state := TASK_STATE_READY\<rparr> else e"
  obtain s1 where s1: "task_exit s = Some s1" "tree_ok s1" "k_tasks s1 ?c = Some (f\<lparr>t_children := [], t_state := last_state s f\<rparr>)" "k_idle s1 = k_idle s"
    and oth: "\<And>x g. x \<notin> set (t_children f) \<Longrightarrow> x \<noteq> ?c \<Longrightarrow> x \<noteq> k_idle s \<Longrightarrow> k_tasks s x = Some g \<Longrightarrow>
      k_tasks s1 x = Some (if x = t_parent f \<and> t_state g = TASK_STATE_WAITING \<and> t_wait_kind g = WAIT_CHILD
                           then g\<lparr>t_wait_kind := WAIT_NONE, t_state := TASK_STATE_READY\<rparr> else g)"
    by (rule exit_ok [OF assms(1-3)]) blast
  have z: "last_state s f = TASK_STATE_ZOMBIE" using assms(4-6) by (simp add: last_state_def)
  have e1: "k_tasks s1 p = Some ?e" using oth [OF assms(8) pc(2) assms(6,7)] assms(4) by simp
  have "\<not> dead (t_state e)" by (rule parent_alive [OF assms(1,7) pc(1)])
  then have al: "\<not> dead (t_state ?e)" by (simp add: dead_def)
  let ?s = "s1\<lparr>k_current := p\<rparr>"
  have only: "x = ?c" if x: "x \<in> set (t_children ?e)" "k_tasks s1 x = Some g" "matches ?pid g" for x g
  proof (rule ccontr)
    assume ne: "x \<noteq> ?c"
    have xe: "x \<in> set (t_children e)" using x(1) by (simp split: if_splits)
    then obtain g0 where g0: "k_tasks s x = Some g0" "t_parent g0 = p" using tree_okD(3) [OF assms(1,7)] by blast
    have "x \<notin> set (t_children f)" using one_list [OF assms(1,7) xe assms(2)] pc(2) by blast
    moreover have "x \<noteq> k_idle s" using tree_okD(7) [OF assms(1)] g0 assms(5) by auto
    ultimately have "t_pid g = t_pid g0" using oth [OF _ ne _ g0(1)] x(2) by (simp split: if_splits)
    moreover have "t_pid g = t_pid f" using x(3) assms(9) by (simp add: matches_def signed_word_eqI)
    ultimately show False using assms(10) [OF xe g0(1)] ne by simp
  qed
  have ok2: "tree_ok ?s" "k_tasks ?s (k_current ?s) = Some ?e" using s1(2) e1 tree_ok_cong [of ?s s1] by simp_all
  show ?thesis
  proof (rule waitpid_ok [OF ok2 al, of ?pid])
    fix r s2 assume w: "task_waitpid ?pid ?s = Some (r, s2)"
      and r: "case r of Blocked \<Rightarrow> \<forall>c\<in>set (t_children ?e). \<forall>f. k_tasks ?s c = Some f \<longrightarrow> matches ?pid f \<longrightarrow> t_state f \<noteq> TASK_STATE_ZOMBIE
         | Returned n None \<Rightarrow> n = - ECHILD \<and> s2 = ?s \<and> (\<forall>c\<in>set (t_children ?e). \<forall>f. k_tasks ?s c = Some f \<longrightarrow> \<not> matches ?pid f)
         | Returned n (Some code) \<Rightarrow> \<exists>z f. z \<in> set (t_children ?e) \<and> k_tasks ?s z = Some f \<and> matches ?pid f \<and> t_state f = TASK_STATE_ZOMBIE \<and>
             n = sint (t_pid f) \<and> code = t_exit_code f \<and>
             s2 = ?s\<lparr>k_tasks := (k_tasks ?s)(k_current ?s \<mapsto> ?e\<lparr>t_children := remove1 z (t_children ?e)\<rparr>,
                z \<mapsto> f\<lparr>t_sibling := False, t_parent := 0, t_state := TASK_STATE_TERMINATED\<rparr>)\<rparr>"
    have ce: "?c \<in> set (t_children ?e)" using pc(1) by simp
    have mf: "matches ?pid (f\<lparr>t_children := [], t_state := last_state s f\<rparr>)" by (simp add: matches_def)
    have "\<exists>n code. r = Returned n (Some code)"
      using r ce mf s1(3) z by (cases r) (auto split: option.splits)
    then obtain n code where rn: "r = Returned n (Some code)" by blast
    then obtain y g where y: "y \<in> set (t_children ?e)" "k_tasks s1 y = Some g" "matches ?pid g" "n = sint (t_pid g)" "code = t_exit_code g"
      "s2 = ?s\<lparr>k_tasks := (k_tasks ?s)(p \<mapsto> ?e\<lparr>t_children := remove1 y (t_children ?e)\<rparr>,
                y \<mapsto> g\<lparr>t_sibling := False, t_parent := 0, t_state := TASK_STATE_TERMINATED\<rparr>)\<rparr>" using r by auto
    have yc: "y = ?c" by (rule only [OF y(1-3)])
    then have g: "g = f\<lparr>t_children := [], t_state := last_state s f\<rparr>" using y(2) s1(3) by simp
    have "task_waitpid ?pid ?s = Some (Returned ?pid (Some (t_exit_code f)), s2)" using w rn y(4,5) g by simp
    moreover have "k_tasks s2 ?c = Some (g\<lparr>t_sibling := False, t_parent := 0, t_state := TASK_STATE_TERMINATED\<rparr>)"
      "k_tasks s2 p = Some (?e\<lparr>t_children := remove1 ?c (t_children ?e)\<rparr>)" using y(6) yc pc(2) by simp_all
    moreover have "t_children (?e\<lparr>t_children := remove1 ?c (t_children ?e)\<rparr>) = remove1 ?c (t_children e)"
      "t_state (?e\<lparr>t_children := remove1 ?c (t_children ?e)\<rparr>) = (if t_state e = TASK_STATE_WAITING \<and> t_wait_kind e = WAIT_CHILD then TASK_STATE_READY else t_state e)"
      by simp_all
    ultimately show ?thesis using s1(1)
      by (intro exI [of _ s1] exI [of _ s2] exI [of _ "g\<lparr>t_sibling := False, t_parent := 0, t_state := TASK_STATE_TERMINATED\<rparr>"]
          exI [of _ "?e\<lparr>t_children := remove1 ?c (t_children ?e)\<rparr>"] conjI) simp_all
  qed
qed

text \<open>
  Property C18. The exit code reaches the parent: a task whose parent can wait for it leaves, and the \<^verbatim>\<open>waitpid\<close> of the parent for its
  pid returns that pid and the exit code the task left with, wakes the parent if it was blocked in \<^verbatim>\<open>waitpid\<close>, takes the task from the
  list of children and hands it to the reaper.
\<close>

theorem exit_then_waitpid:
  assumes "tree_ok s" "k_tasks s (k_current s) = Some f" "k_current s \<noteq> k_idle s"
    "t_parent f = p" "p \<noteq> 0" "p \<noteq> k_idle s" "k_tasks s p = Some e" "p \<notin> set (t_children f)" "0 < sint (t_pid f)"
    "\<And>x g. x \<in> set (t_children e) \<Longrightarrow> k_tasks s x = Some g \<Longrightarrow> t_pid g = t_pid f \<Longrightarrow> x = k_current s"
  shows "\<exists>s1 s2 f' e'. task_exit s = Some s1 \<and>
    task_waitpid (sint (t_pid f)) (s1\<lparr>k_current := p\<rparr>) = Some (Returned (sint (t_pid f)) (Some (t_exit_code f)), s2) \<and>
    k_tasks s2 (k_current s) = Some f' \<and> t_state f' = TASK_STATE_TERMINATED \<and> t_parent f' = 0 \<and>
    k_tasks s2 p = Some e' \<and> t_children e' = remove1 (k_current s) (t_children e) \<and>
    t_state e' = (if t_state e = TASK_STATE_WAITING \<and> t_wait_kind e = WAIT_CHILD then TASK_STATE_READY else t_state e)"
  by (rule exit_waitpid [OF assms]) blast

theorem exit_then_waitpid_witness:
  "\<exists>s1 s2 f' e'. task_exit demo_tree = Some s1 \<and> task_waitpid 3 (s1\<lparr>k_current := 0x2000\<rparr>) = Some (Returned 3 (Some 7), s2) \<and>
    k_tasks s2 0x3000 = Some f' \<and> t_state f' = TASK_STATE_TERMINATED \<and> k_tasks s2 0x2000 = Some e' \<and> t_children e' = [] \<and> t_state e' = TASK_STATE_READY"
proof -
  define f where "f = (demo_task 3 TASK_STATE_RUNNING)\<lparr>t_parent := 0x2000, t_sibling := True, t_on_heap := True, t_exit_code := 7\<rparr>"
  define e where "e = (demo_task 2 TASK_STATE_WAITING)\<lparr>t_wait_kind := WAIT_CHILD, t_children := [0x3000]\<rparr>"
  have c: "k_current demo_tree = 0x3000" "k_idle demo_tree = 0x1000" by (simp_all add: demo_tree_def demo_sys_def)
  have ft: "k_tasks demo_tree (k_current demo_tree) = Some f" "k_tasks demo_tree 0x2000 = Some e" by (simp_all add: demo_tree_def f_def e_def)
  have p: "t_parent f = 0x2000" "t_children f = []" "t_pid f = 3" "t_exit_code f = 7" by (simp_all add: f_def demo_task_def)
  have e: "t_children e = [0x3000]" "t_state e = TASK_STATE_WAITING" "t_wait_kind e = WAIT_CHILD" by (simp_all add: e_def demo_task_def)
  show ?thesis
    using exit_then_waitpid [OF demo_tree_ok(1) ft(1) _ p(1) _ _ ft(2)] c p e by auto
qed

end
