(* ===== verification/Loader.thy ===== *)
theory Loader
  imports Process_Tree Vfs
begin

text \<open>
  The program loader: \<^verbatim>\<open>src/lizard/loader.c\<close> and \<^verbatim>\<open>src/lizard/elf.h\<close>. The kernel state is the task system and the virtual
  file system over one heap. A frame that holds a page table is seen as words, one that holds data as bytes of the kernel's memory; a page
  of a task is reached through the translation of its address space. The theory shows the layout of the stack a new program starts with.
\<close>

section \<open>State\<close>

definition MAX_PHDRS :: u16 where "MAX_PHDRS = 16"
definition MAX_ARGS :: nat where "MAX_ARGS = 32"
definition ET_EXEC :: u16 where "ET_EXEC = 2"
definition PT_LOAD :: u32 where "PT_LOAD = 1"

abbreviation sizeof_task :: u64 where "sizeof_task \<equiv> 568"

record 'h kern =
  kn_sys :: ksys
  kn_vfs :: "'h vfs"

text \<open>A call into the file system, which uses the heap of the task system.\<close>

definition in_vfs :: "('h vfs \<Rightarrow> ('a \<times> 'h vfs) option) \<Rightarrow> 'h kern \<Rightarrow> ('a \<times> 'h kern) option" where
  "in_vfs f s =
     do { (r, v) \<leftarrow> f ((kn_vfs s)\<lparr>v_mem := k_mem (kn_sys s)\<rparr>);
          Some (r, s\<lparr>kn_vfs := v, kn_sys := (kn_sys s)\<lparr>k_mem := v_mem v\<rparr>\<rparr>) }"

definition close_file :: "u64 \<Rightarrow> vaddr \<Rightarrow> 'h kern \<Rightarrow> 'h kern option" where
  "close_file h f s = do { (_, s) \<leftarrow> in_vfs (\<lambda>v. do { v \<leftarrow> vfs_close h f v; Some ((), v) }) s; Some s }"

definition in_sys :: "(ksys \<Rightarrow> ksys option) \<Rightarrow> 'h kern \<Rightarrow> 'h kern option" where
  "in_sys f s = do { k \<leftarrow> f (kn_sys s); Some (s\<lparr>kn_sys := k\<rparr>) }"

definition put_bytes :: "u64 \<Rightarrow> u8 list \<Rightarrow> bmem \<Rightarrow> bmem" where
  "put_bytes p bs m = (\<lambda>a. if unat (a - p) < length bs then bs ! unat (a - p) else m a)"

definition put_kernel :: "u64 \<Rightarrow> u8 list \<Rightarrow> ksys \<Rightarrow> ksys" where
  "put_kernel p bs k = k\<lparr>k_mem := (fst (k_mem k), put_bytes p bs (snd (k_mem k)))\<rparr>"

section \<open>Reading the file\<close>

lemma read_shrinks:
  fixes len :: u64
  assumes "0 < n" "n \<le> uint len"
  shows "unat (len - of_int n) < unat len"
proof -
  have "n < 2 ^ 64" using assms(2) uint_lt2p [of len] by simp
  then have u: "uint (of_int n :: u64) = n" using assms(1) by (simp add: uint_word_of_int mod_pos_pos_trivial)
  then have "of_int n \<le> len" using assms(2) by (simp add: word_le_def)
  then have "unat (len - of_int n) = unat len - unat (of_int n :: u64)" by (simp add: unat_sub)
  moreover have "unat (of_int n :: u64) = nat n" using u by (metis nat_uint_eq)
  moreover have "unat len = nat (uint len)" by simp
  moreover have "0 < nat n" "nat n \<le> nat (uint len)" using assms by (simp, intro nat_mono)
  ultimately show ?thesis by linarith
qed

text \<open>The loop of \<^verbatim>\<open>read_at\<close>; a read that yields more than was asked for would overrun the destination, a fault.\<close>

function read_loop :: "vaddr \<Rightarrow> u64 \<Rightarrow> 'h vfs \<Rightarrow> (bool \<times> u8 list \<times> 'h vfs) option" where
  "read_loop f len v =
     (if len = 0 then Some (True, [], v)
      else case vfs_read f len v of
             None \<Rightarrow> None
           | Some (n, buf, v) \<Rightarrow>
               if n \<le> 0 then Some (False, buf, v)
               else if n > uint len then None
               else (case read_loop f (len - of_int n) v of
                       None \<Rightarrow> None
                     | Some (ok, rest, v) \<Rightarrow> Some (ok, buf @ rest, v)))"
  by pat_completeness auto
termination
  by (relation "measure (\<lambda>(f, len, v). unat len)") (auto intro!: read_shrinks)

declare read_loop.simps [simp del]

definition read_at :: "vaddr \<Rightarrow> u64 \<Rightarrow> u64 \<Rightarrow> 'h vfs \<Rightarrow> ((bool \<times> u8 list) \<times> 'h vfs) option" where
  "read_at f off len v =
     do { e \<leftarrow> v_files v f;
          (ok, bs, v) \<leftarrow> read_loop f len (v\<lparr>v_files := (v_files v)(f \<mapsto> e\<lparr>f_offset := off\<rparr>)\<rparr>);
          Some ((ok, bs), v) }"

section \<open>Writing to the new task\<close>

function ucopy :: "u64 \<Rightarrow> vaddr \<Rightarrow> (u64 \<Rightarrow> u64) \<Rightarrow> u64 \<Rightarrow> u8 list \<Rightarrow> bmem \<Rightarrow> bmem option" where
  "ucopy h pml4 w uva src m =
     (if src = [] then Some m
      else let k = pgtable_kva h pml4 uva w; chunk = min (4096 - unat (uva AND 0xFFF)) (length src) in
           if k = 0 \<or> chunk = 0 then None else ucopy h pml4 w (uva + of_nat chunk) (drop chunk src) (put_bytes k (take chunk src) m))"
  by pat_completeness auto
termination by (relation "measure (\<lambda>(h, pml4, w, uva, src, m). length src)") auto

declare ucopy.simps [simp del]

definition le64_bytes :: "u64 \<Rightarrow> u8 list" where
  "le64_bytes v = map (\<lambda>i. ucast (drop_bit (8 * i) v)) [0..<8]"

definition uput64 :: "u64 \<Rightarrow> vaddr \<Rightarrow> (u64 \<Rightarrow> u64) \<Rightarrow> u64 \<Rightarrow> u64 \<Rightarrow> bmem \<Rightarrow> bmem option" where
  "uput64 h pml4 w uva val m = ucopy h pml4 w uva (le64_bytes val) m"

text \<open>The argument strings, the last one first; the result holds their addresses in order.\<close>

fun push_strings :: "u64 \<Rightarrow> vaddr \<Rightarrow> (u64 \<Rightarrow> u64) \<Rightarrow> u8 list list \<Rightarrow> u64 \<Rightarrow> u64 list \<Rightarrow> bmem \<Rightarrow> (u64 \<times> u64 list \<times> bmem) option" where
  "push_strings h pml4 w [] sp argp m = Some (sp, argp, m)"
| "push_strings h pml4 w (a # as) sp argp m =
     (let sp = sp - of_nat (length a + 1) in
      do { m \<leftarrow> ucopy h pml4 w sp (a @ [0]) m; push_strings h pml4 w as sp (sp # argp) m })"

fun push_words :: "u64 \<Rightarrow> vaddr \<Rightarrow> (u64 \<Rightarrow> u64) \<Rightarrow> u64 list \<Rightarrow> u64 \<Rightarrow> bmem \<Rightarrow> (u64 \<times> bmem) option" where
  "push_words h pml4 w [] sp m = Some (sp, m)"
| "push_words h pml4 w (v # vs) sp m =
     (let sp = sp - 8 in do { m \<leftarrow> uput64 h pml4 w sp v m; push_words h pml4 w vs sp m })"

definition setup_user_stack :: "u64 \<Rightarrow> vaddr \<Rightarrow> (u64 \<Rightarrow> u64) \<Rightarrow> u64 \<Rightarrow> u8 list list \<Rightarrow> bmem \<Rightarrow> (u64 \<times> bmem) option" where
  "setup_user_stack h pml4 w rsp argv m =
     (let args = take MAX_ARGS argv; argc = length args in
      do { (sp, argp, m) \<leftarrow> push_strings h pml4 w (rev args) rsp [] m;
           let sp = sp AND NOT 0xF;
           let sp = (if odd argc then sp - 8 else sp);
           push_words h pml4 w ([0, 0, 0] @ rev argp @ [of_nat argc]) sp m })"

section \<open>ELF files\<close>

record elf_ehdr =
  e_ident :: "u8 list"
  e_type :: u16
  e_entry :: u64
  e_phoff :: u64
  e_phnum :: u16

record elf_phdr =
  p_type :: u32
  p_offset :: u64
  p_vaddr :: u64
  p_filesz :: u64
  p_memsz :: u64

definition le32_at :: "u8 list \<Rightarrow> nat \<Rightarrow> u32" where
  "le32_at b i = le32 (b ! i) (b ! (i + 1)) (b ! (i + 2)) (b ! (i + 3))"

definition le64_at :: "u8 list \<Rightarrow> nat \<Rightarrow> u64" where
  "le64_at b i = ucast (le32_at b i) OR push_bit 32 (ucast (le32_at b (i + 4)))"

definition ehdr_of :: "u8 list \<Rightarrow> elf_ehdr" where
  "ehdr_of b = \<lparr>e_ident = take 16 b, e_type = le16 (b ! 16) (b ! 17), e_entry = le64_at b 24, e_phoff = le64_at b 32, e_phnum = le16 (b ! 56) (b ! 57)\<rparr>"

definition phdr_of :: "u8 list \<Rightarrow> elf_phdr" where
  "phdr_of b = \<lparr>p_type = le32_at b 0, p_offset = le64_at b 8, p_vaddr = le64_at b 16, p_filesz = le64_at b 32, p_memsz = le64_at b 40\<rparr>"

definition phdrs_of :: "nat \<Rightarrow> u8 list \<Rightarrow> elf_phdr list" where
  "phdrs_of n b = map (\<lambda>i. phdr_of (take 56 (drop (56 * i) b))) [0..<n]"

definition elf_magic :: "elf_ehdr \<Rightarrow> bool" where
  "elf_magic eh \<longleftrightarrow> take 4 (e_ident eh) = [0x7f, 69, 76, 70]"

text \<open>One page of a segment: a frame mapped, cleared and filled. A missing frame is cleared all the same, a fault.\<close>

definition load_page :: "u64 \<Rightarrow> vaddr \<Rightarrow> vaddr \<Rightarrow> elf_phdr \<Rightarrow> u64 \<Rightarrow> 'h kern \<Rightarrow> (bool \<times> 'h kern) option" where
  "load_page h pml4 f ph j s =
     do { (frame, g) \<leftarrow> vmm_alloc h pml4 (p_vaddr ph + j) (PAGE_PRESENT OR PAGE_WRITABLE OR PAGE_USER) (pages_of_sys (kn_sys s));
          if frame = 0 then None
          else do { let k = put_pages (g\<lparr>pm_mem := zero_page frame (pm_mem g)\<rparr>) (kn_sys s);
                    let s = s\<lparr>kn_sys := put_kernel frame (replicate 4096 0) k\<rparr>;
                    let fill = (if p_filesz ph > j then p_filesz ph - j else 0);
                    let fill = (if fill > 4096 then 4096 else fill);
                    if fill = 0 then Some (True, s)
                    else do { ((ok, bs), s) \<leftarrow> in_vfs (read_at f (p_offset ph + j) fill) s;
                              Some (ok, s\<lparr>kn_sys := put_kernel frame bs (kn_sys s)\<rparr>) } } }"

fun load_pages :: "u64 \<Rightarrow> vaddr \<Rightarrow> vaddr \<Rightarrow> elf_phdr \<Rightarrow> nat list \<Rightarrow> 'h kern \<Rightarrow> (bool \<times> 'h kern) option" where
  "load_pages h pml4 f ph [] s = Some (True, s)"
| "load_pages h pml4 f ph (i # is) s =
     do { (ok, s) \<leftarrow> load_page h pml4 f ph (of_nat (4096 * i)) s; if ok then load_pages h pml4 f ph is s else Some (False, s) }"

fun load_segments :: "u64 \<Rightarrow> vaddr \<Rightarrow> vaddr \<Rightarrow> elf_phdr list \<Rightarrow> 'h kern \<Rightarrow> (bool \<times> 'h kern) option" where
  "load_segments h pml4 f [] s = Some (True, s)"
| "load_segments h pml4 f (ph # phs) s =
     (if p_type ph \<noteq> PT_LOAD \<or> p_memsz ph = 0 then load_segments h pml4 f phs s
      else if p_vaddr ph AND 0xFFF \<noteq> 0 then Some (False, s)
      else do { (ok, s) \<leftarrow> load_pages h pml4 f ph [0..<(unat (p_memsz ph) + 4095) div 4096] s;
                if ok then load_segments h pml4 f phs s else Some (False, s) })"

definition load_elf :: "u64 \<Rightarrow> vaddr \<Rightarrow> vaddr \<Rightarrow> u8 list list \<Rightarrow> 'h kern \<Rightarrow> (int \<times> 'h kern) option" where
  "load_elf h f t argv s =
     do { ((ok, b), s) \<leftarrow> in_vfs (read_at f 0 64) s;
          let eh = ehdr_of b;
          if \<not> ok \<or> \<not> elf_magic eh \<or> e_type eh \<noteq> ET_EXEC \<or> e_phnum eh > MAX_PHDRS then Some (-1, s)
          else do { ((ok, b), s) \<leftarrow> in_vfs (read_at f (e_phoff eh) (ucast (e_phnum eh) * 56)) s;
                    if \<not> ok then Some (-1, s)
                    else do { e \<leftarrow> k_tasks (kn_sys s) t;
                              (ok, s) \<leftarrow> load_segments h (t_pml4 e) f (phdrs_of (unat (e_phnum eh)) b) s;
                              s \<leftarrow> in_sys (upd_task t (\<lambda>e. e\<lparr>t_regs := (t_regs e)\<lparr>r_rip := e_entry eh\<rparr>\<rparr>)) s;
                              if \<not> ok then Some (-1, s)
                              else do { (sp, m) \<leftarrow> setup_user_stack h (t_pml4 e) (k_words (kn_sys s)) (r_rsp (t_regs e)) argv (snd (k_mem (kn_sys s)));
                                        s \<leftarrow> in_sys (\<lambda>k. upd_task t (\<lambda>e. e\<lparr>t_regs := (t_regs e)\<lparr>r_rsp := sp\<rparr>\<rparr>) (k\<lparr>k_mem := (fst (k_mem k), m)\<rparr>)) s;
                                        Some (0, s) } } } }"

section \<open>spawn\<close>

definition base_name :: "u8 list \<Rightarrow> u8 list" where
  "base_name path = rev (takeWhile (\<lambda>c. c \<noteq> 47) (rev path))"

definition spawn :: "u64 \<Rightarrow> u8 list \<Rightarrow> u8 list list \<Rightarrow> 'h kern \<Rightarrow> (int \<times> 'h kern) option" where
  "spawn h path argv s =
     do { (f, s) \<leftarrow> in_vfs (vfs_open h path 0) s;
          if f = 0 then Some (-1, s)
          else do { (t, m) \<leftarrow> zalloc h sizeof_task (k_mem (kn_sys s));
                    let s = s\<lparr>kn_sys := (kn_sys s)\<lparr>k_mem := m\<rparr>\<rparr>;
                    if t = 0 then do { s \<leftarrow> close_file h f s; Some (-1, s) }
                    else do { let name = base_name path;
                              s \<leftarrow> in_sys (task_create h t 0 name 1 True) s;
                              s \<leftarrow> in_sys (upd_task t (\<lambda>e. e\<lparr>t_on_heap := True\<rparr>)) s;
                              s \<leftarrow> (if k_current (kn_sys s) = 0 then Some s
                                   else do { c \<leftarrow> k_tasks (kn_sys s) (k_current (kn_sys s));
                                             in_sys (upd_task t (\<lambda>e. e\<lparr>t_cwd := take (TASK_CWD_MAX - 1) (t_cwd c)\<rparr>)) s });
                              let argv = (if argv = [] then [name] else argv);
                              (rc, s) \<leftarrow> load_elf h f t argv s;
                              if rc \<noteq> 0
                              then do { s \<leftarrow> close_file h f s; s \<leftarrow> in_sys (upd_task t (\<lambda>e. e\<lparr>t_state := TASK_STATE_TERMINATED\<rparr>)) s; Some (-1, s) }
                              else do { s \<leftarrow> close_file h f s;
                                        s \<leftarrow> in_sys (join_tree t) s;
                                        e \<leftarrow> k_tasks (kn_sys s) t;
                                        Some (sint (t_pid e), s) } } } }"

section \<open>Memory of a task through its translation\<close>

text \<open>The addresses from \<open>lo\<close> up to \<open>hi\<close> are mapped, and no two of them to the same byte.\<close>

definition addr_span :: "nat \<Rightarrow> nat \<Rightarrow> u64 set" where
  "addr_span lo hi = {va. lo \<le> unat va \<and> unat va < hi}"

definition range_mapped :: "u64 \<Rightarrow> vaddr \<Rightarrow> (u64 \<Rightarrow> u64) \<Rightarrow> nat \<Rightarrow> nat \<Rightarrow> bool" where
  "range_mapped h pml4 w lo hi \<longleftrightarrow> hi < 2 ^ 64 \<and> (\<forall>va\<in>addr_span lo hi. pgtable_kva h pml4 va w \<noteq> 0) \<and> inj_on (\<lambda>va. pgtable_kva h pml4 va w) (addr_span lo hi)"

definition stored :: "u64 \<Rightarrow> vaddr \<Rightarrow> (u64 \<Rightarrow> u64) \<Rightarrow> bmem \<Rightarrow> u64 \<Rightarrow> u8 list \<Rightarrow> bool" where
  "stored h pml4 w m a bs \<longleftrightarrow> (\<forall>j<length bs. m (pgtable_kva h pml4 (a + of_nat j) w) = bs ! j)"

lemma unat_add_nat: "unat a + n < 2 ^ 64 \<Longrightarrow> unat (a + of_nat n) = unat a + n" for a :: u64
proof -
  assume l: "unat a + n < 2 ^ 64"
  then have "unat (of_nat n :: u64) = n" by (simp add: unat_of_nat mod_less)
  then show ?thesis using unat_add_lem [of a "of_nat n"] l by simp
qed

lemma unat_sub_nat: "n \<le> unat a \<Longrightarrow> unat (a - of_nat n) = unat a - n" for a :: u64
proof -
  assume l: "n \<le> unat a"
  then have "n < 2 ^ 64" using unat_lt2p [of a] by simp
  then have "unat (of_nat n :: u64) = n" by (simp add: unat_of_nat mod_less)
  then show ?thesis using l by (simp add: unat_sub word_le_nat_alt)
qed

lemma page_offset: "unat (va AND 0xFFF) = unat va mod 4096" for va :: u64
proof -
  have "va AND 0xFFF = va AND mask 12" by (simp add: mask_eq_exp_minus_1)
  also have "\<dots> = va mod 2 ^ 12" by (metis take_bit_eq_mask take_bit_eq_mod)
  finally show ?thesis by (simp add: unat_mod_distrib)
qed

lemma add_below_div_mod: "n mod m + i < m \<Longrightarrow> (n + i) div m = n div m \<and> (n + i) mod m = n mod m + i" for n m i :: nat
  using div_add1_eq [of n i m] mod_add_eq [of n m i] by simp

text \<open>Within a page the translation is linear.\<close>

lemma same_page:
  assumes "unat va mod 4096 + i < 4096"
  shows "align_ptr_down (va + of_nat i) 4096 = align_ptr_down va 4096" "va + of_nat i AND 0xFFF = (va AND 0xFFF) + of_nat i"
    "unat va + i < 2 ^ 64"
proof -
  have i: "i < 4096" using assms by simp
  have d: "unat va = unat va div 4096 * 4096 + unat va mod 4096" by simp
  have "unat va div 4096 < 2 ^ 52" using unat_lt2p [of va] by (simp add: div_less_iff_less_mult)
  then have "unat va div 4096 * 4096 + 4096 \<le> 2 ^ 64" by simp
  then show b: "unat va + i < 2 ^ 64" using d assms by linarith
  then have u: "unat (va + of_nat i) = unat va + i" by (rule unat_add_nat)
  have dm: "(unat va + i) div 4096 = unat va div 4096" "(unat va + i) mod 4096 = unat va mod 4096 + i"
    using add_below_div_mod [OF assms] by simp_all
  show "align_ptr_down (va + of_nat i) 4096 = align_ptr_down va 4096"
    using unat_align_ptr_down_page [of "va + of_nat i"] unat_align_ptr_down_page [of va] u dm(1) by (simp add: word_unat_eq_iff)
  have "unat ((va AND 0xFFF) + of_nat i) = unat va mod 4096 + i" using unat_add_nat [of "va AND 0xFFF" i] assms by (simp add: page_offset)
  then show "va + of_nat i AND 0xFFF = (va AND 0xFFF) + of_nat i" using u dm(2) by (simp add: word_unat_eq_iff page_offset)
qed

lemma kva_page:
  assumes "unat va mod 4096 + i < 4096" "pgtable_kva h pml4 va w \<noteq> 0"
  shows "pgtable_kva h pml4 (va + of_nat i) w = pgtable_kva h pml4 va w + of_nat i"
proof -
  have "va_path (va + of_nat i) = va_path va"
    using pt_index_align [of 39 "va + of_nat i"] pt_index_align [of 39 va] pt_index_align [of 30 "va + of_nat i"] pt_index_align [of 30 va]
      pt_index_align [of 21 "va + of_nat i"] pt_index_align [of 21 va] pt_index_align [of 12 "va + of_nat i"] pt_index_align [of 12 va]
    by (simp add: va_path_def same_page(1) [OF assms(1)])
  then show ?thesis using assms(2) same_page(2) [OF assms(1)] by (simp add: kva_walk split: option.splits)
qed

lemma put_page:
  assumes rm: "range_mapped h pml4 w lo hi" and u: "lo \<le> unat uva" "unat uva + length bs \<le> hi" "unat uva mod 4096 + length bs \<le> 4096" "bs \<noteq> []"
    and va: "va \<in> addr_span lo hi"
  shows "put_bytes (pgtable_kva h pml4 uva w) bs m (pgtable_kva h pml4 va w) =
    (if unat uva \<le> unat va \<and> unat va < unat uva + length bs then bs ! (unat va - unat uva) else m (pgtable_kva h pml4 va w))"
proof -
  let ?t = "\<lambda>a. pgtable_kva h pml4 a w"
  have hi: "hi < 2 ^ 64" and nz: "\<And>a. a \<in> addr_span lo hi \<Longrightarrow> ?t a \<noteq> 0" and inj: "inj_on ?t (addr_span lo hi)" using rm by (simp_all add: range_mapped_def)
  have at: "uva + of_nat i \<in> addr_span lo hi" "?t (uva + of_nat i) = ?t uva + of_nat i" "unat (uva + of_nat i) = unat uva + i" if i: "i < length bs" for i
  proof -
    show e: "unat (uva + of_nat i) = unat uva + i" using i u hi by (intro unat_add_nat) simp
    then show "uva + of_nat i \<in> addr_span lo hi" using i u by (simp add: addr_span_def)
    have "uva \<in> addr_span lo hi" using u by (simp add: addr_span_def length_greater_0_conv [symmetric] del: length_greater_0_conv)
    then show "?t (uva + of_nat i) = ?t uva + of_nat i" using i u(3) nz by (intro kva_page) simp_all
  qed
  have small: "unat (of_nat i :: u64) = i" if "i < length bs" for i using that u(3) by (simp add: unat_of_nat mod_less)
  show ?thesis
  proof (cases "unat uva \<le> unat va \<and> unat va < unat uva + length bs")
    case True
    then obtain i where i: "unat va = unat uva + i" "i < length bs" by (metis le_Suc_ex nat_add_left_cancel_less)
    then have "va = uva + of_nat i" using at(3) by (simp add: word_unat_eq_iff)
    then have "unat (?t va - ?t uva) = i" using at(2) [OF i(2)] small [OF i(2)] by simp
    then show ?thesis using True i by (simp add: put_bytes_def)
  next
    case False
    have "\<not> unat (?t va - ?t uva) < length bs"
    proof
      assume l: "unat (?t va - ?t uva) < length bs"
      let ?i = "unat (?t va - ?t uva)"
      have "?t va = ?t (uva + of_nat ?i)" using at(2) [OF l] by simp
      then have "va = uva + of_nat ?i" using inj_onD [OF inj _ va at(1) [OF l]] by blast
      then show False using False at(3) [OF l] l by simp
    qed
    then show ?thesis using False by (auto simp: put_bytes_def)
  qed
qed

lemma ucopy_spec:
  assumes rm: "range_mapped h pml4 w lo hi"
  shows "lo \<le> unat uva \<Longrightarrow> unat uva + length src \<le> hi \<Longrightarrow>
    \<exists>m'. ucopy h pml4 w uva src m = Some m' \<and> (\<forall>va\<in>addr_span lo hi. m' (pgtable_kva h pml4 va w) =
      (if unat uva \<le> unat va \<and> unat va < unat uva + length src then src ! (unat va - unat uva) else m (pgtable_kva h pml4 va w)))"
proof (induction "length src" arbitrary: uva src m rule: less_induct)
  case less
  let ?t = "\<lambda>a. pgtable_kva h pml4 a w"
  have hi: "hi < 2 ^ 64" and nz: "\<And>a. a \<in> addr_span lo hi \<Longrightarrow> ?t a \<noteq> 0" using rm by (simp_all add: range_mapped_def)
  show ?case
  proof (cases "src = []")
    case True
    then have "ucopy h pml4 w uva src m = Some m" by (simp add: ucopy.simps)
    then show ?thesis using True by auto
  next
    case False
    define c where "c = min (4096 - unat (uva AND 0xFFF)) (length src)"
    have c: "0 < c" "c \<le> length src" "unat uva mod 4096 + c \<le> 4096" using False by (simp_all add: c_def page_offset)
    have "0 < length src" using False by simp
    then have "uva \<in> addr_span lo hi" using less.prems unfolding addr_span_def by (simp del: length_greater_0_conv)
    then have k: "?t uva \<noteq> 0" by (rule nz)
    let ?m = "put_bytes (?t uva) (take c src) m"
    have step: "ucopy h pml4 w uva src m = ucopy h pml4 w (uva + of_nat c) (drop c src) ?m"
      using False k c(1) by (subst ucopy.simps) (simp add: c_def [symmetric] Let_def)
    have u: "unat (uva + of_nat c) = unat uva + c" using less.prems(2) c hi by (intro unat_add_nat) simp
    obtain m' where m': "ucopy h pml4 w (uva + of_nat c) (drop c src) ?m = Some m'"
      "\<forall>va\<in>addr_span lo hi. m' (?t va) = (if unat uva + c \<le> unat va \<and> unat va < unat uva + length src then drop c src ! (unat va - (unat uva + c)) else ?m (?t va))"
    proof -
      have "length (drop c src) < length src" "lo \<le> unat (uva + of_nat c)" "unat (uva + of_nat c) + length (drop c src) \<le> hi" "unat uva + c + length (drop c src) = unat uva + length src"
        using less.prems c u False by simp_all
      then show ?thesis using less.hyps [of "drop c src" "uva + of_nat c" ?m] that unfolding u by (metis (no_types, lifting))
    qed
    have "m' (?t va) = (if unat uva \<le> unat va \<and> unat va < unat uva + length src then src ! (unat va - unat uva) else m (?t va))"
      if va: "va \<in> addr_span lo hi" for va
      using m'(2) [rule_format, OF va] put_page [OF rm less.prems(1) _ _ _ va, of "take c src" m] less.prems(2) c False by auto
    then show ?thesis using step m'(1) by auto
  qed
qed

text \<open>A block pushed on the stack: it is stored, and what lies above it is kept.\<close>

lemma push_block:
  assumes rm: "range_mapped h pml4 w lo hi" and sp: "lo + length bs \<le> unat sp" "unat sp \<le> hi"
  obtains m' where "ucopy h pml4 w (sp - of_nat (length bs)) bs m = Some m'" "stored h pml4 w m' (sp - of_nat (length bs)) bs"
    "unat (sp - of_nat (length bs)) = unat sp - length bs" "\<And>va. unat sp \<le> unat va \<Longrightarrow> unat va < hi \<Longrightarrow> m' (pgtable_kva h pml4 va w) = m (pgtable_kva h pml4 va w)"
proof -
  let ?sp = "sp - of_nat (length bs)"
  have hi: "hi < 2 ^ 64" using rm by (simp add: range_mapped_def)
  have u: "unat ?sp = unat sp - length bs" using sp(1) by (intro unat_sub_nat) simp
  have l: "lo \<le> unat ?sp" "unat ?sp + length bs \<le> hi" using sp unfolding u by simp_all
  obtain m' where m': "ucopy h pml4 w ?sp bs m = Some m'"
    "\<forall>va\<in>addr_span lo hi. m' (pgtable_kva h pml4 va w) = (if unat ?sp \<le> unat va \<and> unat va < unat ?sp + length bs then bs ! (unat va - unat ?sp) else m (pgtable_kva h pml4 va w))"
    using ucopy_spec [OF rm l, of m] by blast
  have "m' (pgtable_kva h pml4 (?sp + of_nat j) w) = bs ! j" if "j < length bs" for j
  proof -
    have "unat (?sp + of_nat j) = unat ?sp + j" using that u sp hi by (intro unat_add_nat) simp
    moreover have "?sp + of_nat j \<in> addr_span lo hi" using that l calculation by (simp add: addr_span_def)
    ultimately show ?thesis using that m'(2) by (simp only: add_diff_cancel_left' le_add1 nat_add_left_cancel_less simp_thms if_True)
  qed
  moreover have "m' (pgtable_kva h pml4 va w) = m (pgtable_kva h pml4 va w)" if "unat sp \<le> unat va" "unat va < hi" for va
    using that m'(2) [rule_format, of va] u sp by (simp add: addr_span_def)
  ultimately show ?thesis using that m'(1) u by (simp add: stored_def)
qed

lemma stored_keep:
  assumes "stored h pml4 w m a bs" "\<And>va. unat a \<le> unat va \<Longrightarrow> unat va < unat a + length bs \<Longrightarrow> m' (pgtable_kva h pml4 va w) = m (pgtable_kva h pml4 va w)"
    "unat a + length bs < 2 ^ 64"
  shows "stored h pml4 w m' a bs"
proof -
  have "unat (a + of_nat j) = unat a + j" if "j < length bs" for j using that assms(3) by (intro unat_add_nat) simp
  then show ?thesis using assms(1,2) by (simp add: stored_def)
qed

section \<open>The start-up stack\<close>

definition args_size :: "u8 list list \<Rightarrow> nat" where
  "args_size as = sum_list (map (\<lambda>a. length a + 1) as)"

definition kept_above :: "u64 \<Rightarrow> vaddr \<Rightarrow> (u64 \<Rightarrow> u64) \<Rightarrow> nat \<Rightarrow> nat \<Rightarrow> bmem \<Rightarrow> bmem \<Rightarrow> bool" where
  "kept_above h pml4 w n hi m m' \<longleftrightarrow> (\<forall>va. n \<le> unat va \<longrightarrow> unat va < hi \<longrightarrow> m' (pgtable_kva h pml4 va w) = m (pgtable_kva h pml4 va w))"

lemma kept_above_trans:
  "kept_above h pml4 w n hi m m1 \<Longrightarrow> kept_above h pml4 w k hi m1 m2 \<Longrightarrow> k \<le> n \<Longrightarrow> kept_above h pml4 w n hi m m2"
  unfolding kept_above_def by (metis le_trans)

lemma stored_kept:
  assumes "stored h pml4 w m a bs" "kept_above h pml4 w n hi m m'" "n \<le> unat a" "unat a + length bs \<le> hi" "hi < 2 ^ 64"
  shows "stored h pml4 w m' a bs"
  by (rule stored_keep [OF assms(1)]) (use assms(2-5) in \<open>auto simp: kept_above_def\<close>)

lemma push_strings_spec:
  assumes rm: "range_mapped h pml4 w lo hi"
  shows "lo + args_size as \<le> unat sp \<Longrightarrow> unat sp \<le> hi \<Longrightarrow>
    \<exists>sp' ps m'. push_strings h pml4 w as sp argp m = Some (sp', ps @ argp, m') \<and> length ps = length as \<and> unat sp' = unat sp - args_size as \<and>
      kept_above h pml4 w (unat sp) hi m m' \<and>
      (\<forall>i<length as. stored h pml4 w m' (ps ! i) (rev as ! i @ [0]) \<and> unat sp' \<le> unat (ps ! i) \<and> unat (ps ! i) + length (rev as ! i) + 1 \<le> unat sp)"
proof (induction as arbitrary: sp argp m)
  case Nil
  then show ?case by (simp add: args_size_def kept_above_def)
next
  case (Cons a as)
  have hi: "hi < 2 ^ 64" using rm by (simp add: range_mapped_def)
  let ?b = "a @ [0]" and ?sp = "sp - of_nat (length a + 1)"
  have sz: "args_size (a # as) = length a + 1 + args_size as" by (simp add: args_size_def)
  have "lo + length ?b \<le> unat sp" using Cons.prems(1) sz by simp
  from push_block [OF rm this Cons.prems(2), of m] obtain m1 where b: "ucopy h pml4 w (sp - of_nat (length ?b)) ?b m = Some m1"
    "stored h pml4 w m1 (sp - of_nat (length ?b)) ?b" "unat (sp - of_nat (length ?b)) = unat sp - length ?b"
    "\<And>va. unat sp \<le> unat va \<Longrightarrow> unat va < hi \<Longrightarrow> m1 (pgtable_kva h pml4 va w) = m (pgtable_kva h pml4 va w)" by blast
  have lb: "length ?b = length a + 1" by simp
  note m1 = b(1-3) [unfolded lb]
  have k1: "kept_above h pml4 w (unat sp) hi m m1" using b(4) by (simp add: kept_above_def)
  have "lo + args_size as \<le> unat ?sp" "unat ?sp \<le> hi" using Cons.prems sz m1(3) by simp_all
  from Cons.IH [OF this, of "?sp # argp" m1]
  obtain sp' ps m' where ih: "push_strings h pml4 w as ?sp (?sp # argp) m1 = Some (sp', ps @ ?sp # argp, m')" "length ps = length as"
      "unat sp' = unat ?sp - args_size as" "kept_above h pml4 w (unat ?sp) hi m1 m'"
    and st: "\<forall>i<length as. stored h pml4 w m' (ps ! i) (rev as ! i @ [0]) \<and> unat sp' \<le> unat (ps ! i) \<and> unat (ps ! i) + length (rev as ! i) + 1 \<le> unat ?sp" by blast
  have le: "unat ?sp + length ?b = unat sp" using m1(3) Cons.prems sz by simp
  have own: "stored h pml4 w m' ?sp ?b" by (rule stored_kept [OF m1(2) ih(4) order_refl _ hi]) (use le Cons.prems(2) in simp)
  have "stored h pml4 w m' ((ps @ [?sp]) ! i) (rev (a # as) ! i @ [0]) \<and> unat sp' \<le> unat ((ps @ [?sp]) ! i) \<and>
      unat ((ps @ [?sp]) ! i) + length (rev (a # as) ! i) + 1 \<le> unat sp" if i: "i < length (a # as)" for i
  proof (cases "i < length as")
    case True
    then show ?thesis using st ih(2) m1(3) by (fastforce simp: nth_append)
  next
    case False
    then have "i = length as" using i by simp
    then show ?thesis using own ih(2,3) le by (simp add: nth_append)
  qed
  moreover have "kept_above h pml4 w (unat sp) hi m m'" using kept_above_trans [OF k1 ih(4)] m1(3) by simp
  moreover have "push_strings h pml4 w (a # as) sp argp m = Some (sp', (ps @ [?sp]) @ argp, m')" using m1(1) ih(1) by simp
  ultimately show ?case using ih(2,3) m1(3) sz by (intro exI [of _ sp'] exI [of _ "ps @ [?sp]"] exI [of _ m'] conjI) simp_all
qed

lemma length_le64 [simp]: "length (le64_bytes v) = 8"
  by (simp add: le64_bytes_def)

lemma push_words_spec:
  assumes rm: "range_mapped h pml4 w lo hi"
  shows "lo + 8 * length vs \<le> unat sp \<Longrightarrow> unat sp \<le> hi \<Longrightarrow>
    \<exists>sp' m'. push_words h pml4 w vs sp m = Some (sp', m') \<and> unat sp' = unat sp - 8 * length vs \<and> kept_above h pml4 w (unat sp) hi m m' \<and>
      (\<forall>i<length vs. stored h pml4 w m' (sp' + of_nat (8 * i)) (le64_bytes (rev vs ! i)))"
proof (induction vs arbitrary: sp m)
  case Nil
  then show ?case by (simp add: kept_above_def)
next
  case (Cons v vs)
  have hi: "hi < 2 ^ 64" using rm by (simp add: range_mapped_def)
  have "lo + length (le64_bytes v) \<le> unat sp" using Cons.prems(1) by simp
  from push_block [OF rm this Cons.prems(2), of m, unfolded length_le64 of_nat_numeral]
  obtain m1 where m1: "ucopy h pml4 w (sp - 8) (le64_bytes v) m = Some m1" "stored h pml4 w m1 (sp - 8) (le64_bytes v)" "unat (sp - 8) = unat sp - 8"
    and k: "\<And>va. unat sp \<le> unat va \<Longrightarrow> unat va < hi \<Longrightarrow> m1 (pgtable_kva h pml4 va w) = m (pgtable_kva h pml4 va w)" by blast
  have k1: "kept_above h pml4 w (unat sp) hi m m1" using k by (simp add: kept_above_def)
  have l: "lo + 8 * length vs \<le> unat (sp - 8)" "unat (sp - 8) \<le> hi" using Cons.prems m1(3) by simp_all
  from Cons.IH [OF l, of m1]
  obtain sp' m' where ih: "push_words h pml4 w vs (sp - 8) m1 = Some (sp', m')" "unat sp' = unat (sp - 8) - 8 * length vs" "kept_above h pml4 w (unat (sp - 8)) hi m1 m'"
    and st: "\<forall>i<length vs. stored h pml4 w m' (sp' + of_nat (8 * i)) (le64_bytes (rev vs ! i))" by blast
  have "sp' + of_nat (8 * length vs) = sp - 8"
  proof -
    have "unat sp' + 8 * length vs = unat (sp - 8)" using ih(2) l(1) by simp
    moreover from this have "unat (sp' + of_nat (8 * length vs)) = unat sp' + 8 * length vs" using l(2) hi by (intro unat_add_nat) simp
    ultimately show ?thesis by (simp add: word_unat_eq_iff)
  qed
  moreover have "stored h pml4 w m' (sp - 8) (le64_bytes v)"
    by (rule stored_kept [OF m1(2) ih(3) order_refl _ hi]) (use m1(3) Cons.prems in simp)
  ultimately have "stored h pml4 w m' (sp' + of_nat (8 * i)) (le64_bytes (rev (v # vs) ! i))" if "i < length (v # vs)" for i
    using that st by (cases "i < length vs") (auto simp: nth_append less_Suc_eq)
  moreover have "kept_above h pml4 w (unat sp) hi m m'" using kept_above_trans [OF k1 ih(3)] m1(3) by simp
  ultimately show ?case using m1 ih(1,2) by (intro exI [of _ sp'] exI [of _ m'] conjI) (simp_all add: uput64_def)
qed

lemma unat_round16: "unat (a AND NOT 0xF) = unat a div 16 * 16" for a :: u64
proof -
  have "a AND NOT 0xF = a AND NOT (2 ^ 4 - 1)" by simp
  then show ?thesis by (simp only: and_not_mask_pow2 [of 4] unat_sub_mod [of 4]) simp
qed

text \<open>
  Property C19. A new program finds its arguments: the stack pointer is a multiple of 16 and points to the number of arguments, followed
  by the pointers to the arguments in order, a null pointer for each of the argument list, the environment and the auxiliary vector, and every
  pointer leads to the bytes of its argument and their terminator, all read through the address space of the task.
\<close>

theorem user_stack_layout:
  assumes "range_mapped h pml4 w lo hi" "unat rsp = hi" "args = take MAX_ARGS argv" "lo + args_size args + 8 * length args + 64 \<le> hi"
  shows "\<exists>sp ps m'. setup_user_stack h pml4 w rsp argv m = Some (sp, m') \<and> 16 dvd unat sp \<and> lo \<le> unat sp \<and> length ps = length args \<and>
    stored h pml4 w m' sp (le64_bytes (of_nat (length args))) \<and>
    (\<forall>i<length args. stored h pml4 w m' (sp + of_nat (8 * (i + 1))) (le64_bytes (ps ! i)) \<and> stored h pml4 w m' (ps ! i) (args ! i @ [0])) \<and>
    (\<forall>i<3. stored h pml4 w m' (sp + of_nat (8 * (length args + 1 + i))) (le64_bytes 0))"
proof -
  have hi: "hi < 2 ^ 64" using assms(1) by (simp add: range_mapped_def)
  let ?n = "length args"
  have "args_size (rev args) = args_size args" by (simp add: args_size_def rev_map [symmetric])
  then have "lo + args_size (rev args) \<le> unat rsp" "unat rsp \<le> hi" using assms(2,4) by simp_all
  from push_strings_spec [OF assms(1) this, of "[]" m]
  obtain sp1 ps m1 where s1: "push_strings h pml4 w (rev args) rsp [] m = Some (sp1, ps, m1)" "length ps = ?n" "unat sp1 = hi - args_size args"
    and st1: "\<forall>i<?n. stored h pml4 w m1 (ps ! i) (args ! i @ [0]) \<and> unat sp1 \<le> unat (ps ! i) \<and> unat (ps ! i) + length (args ! i) + 1 \<le> hi"
    using assms(2) \<open>args_size (rev args) = args_size args\<close> by auto
  define sp2 where "sp2 = (if odd ?n then (sp1 AND NOT 0xF) - 8 else sp1 AND NOT 0xF)"
  define vs where "vs = [0, 0, 0] @ rev ps @ [of_nat ?n :: u64]"
  have vs: "length vs = ?n + 4" "rev vs = of_nat ?n # ps @ [0, 0, 0]" using s1(2) by (simp_all add: vs_def)
  have r: "unat (sp1 AND NOT 0xF) = unat sp1 div 16 * 16" "unat sp1 - 15 \<le> unat sp1 div 16 * 16" "unat sp1 div 16 * 16 \<le> unat sp1"
    using unat_round16 [of sp1] mod_less_divisor [of 16 "unat sp1"] by (simp, presburger, simp)
  have big: "8 \<le> unat (sp1 AND NOT 0xF)" using r(1,2) s1(3) assms(4) by linarith
  have u2: "unat sp2 = (if odd ?n then unat sp1 div 16 * 16 - 8 else unat sp1 div 16 * 16)"
    using unat_sub_nat [OF big] r(1) by (simp add: sp2_def)
  have "unat sp1 \<le> unat sp2 + 23 \<and> unat sp2 \<le> unat sp1"
  proof -
    define q where "q = unat sp1 div 16 * 16"
    have "unat sp2 = q - 8 \<or> unat sp2 = q" using u2 by (simp add: q_def)
    then show ?thesis using r(2,3) unfolding q_def [symmetric] by linarith
  qed
  then have le2: "unat sp2 \<le> unat sp1" "lo + 8 * length vs \<le> unat sp2" using s1(3) assms(4) vs(1) by linarith+
  then have "unat sp2 \<le> hi" using s1(3) by linarith
  from push_words_spec [OF assms(1) le2(2) this, of m1]
  obtain sp m' where s2: "push_words h pml4 w vs sp2 m1 = Some (sp, m')" "unat sp = unat sp2 - 8 * length vs" "kept_above h pml4 w (unat sp2) hi m1 m'"
    and st2: "\<forall>i<length vs. stored h pml4 w m' (sp + of_nat (8 * i)) (le64_bytes (rev vs ! i))" by blast
  have "setup_user_stack h pml4 w rsp argv m = Some (sp, m')"
    using s1(1) s2(1) unfolding setup_user_stack_def assms(3) [symmetric] Let_def vs_def sp2_def by simp
  moreover have "16 dvd unat sp"
  proof -
    have "unat sp2 - 8 * (?n + 4) = 16 * (unat sp1 div 16 - (?n + 4 + (if odd ?n then 1 else 0)) div 2)"
      unfolding u2 by (cases "odd ?n") (auto elim!: oddE evenE simp: diff_mult_distrib2)
    then show ?thesis using s2(2) vs(1) by simp
  qed
  moreover have "lo \<le> unat sp" using s2(2) le2(2) by simp
  moreover have "stored h pml4 w m' sp (le64_bytes (of_nat ?n))" using st2 [rule_format, of 0] vs by simp
  moreover have "stored h pml4 w m' (sp + of_nat (8 * (i + 1))) (le64_bytes (ps ! i))" if "i < ?n" for i
    using st2 [rule_format, of "i + 1"] vs that s1(2) by (simp add: nth_append)
  moreover have "stored h pml4 w m' (ps ! i) (args ! i @ [0])" if "i < ?n" for i
  proof (rule stored_kept [OF _ s2(3) _ _ hi])
    show "stored h pml4 w m1 (ps ! i) (args ! i @ [0])" "unat sp2 \<le> unat (ps ! i)" "unat (ps ! i) + length (args ! i @ [0]) \<le> hi"
      using st1 [rule_format, OF that] le2(1) by simp_all
  qed
  moreover have "stored h pml4 w m' (sp + of_nat (8 * (?n + 1 + i))) (le64_bytes 0)" if "i < 3" for i
  proof -
    have "[0, 0, 0] ! i = (0 :: u64)" using that by (auto simp: less_Suc_eq numeral_3_eq_3)
    then have "rev vs ! (?n + 1 + i) = 0" using vs(2) s1(2) that by (simp add: nth_append)
    then show ?thesis using st2 [rule_format, of "?n + 1 + i"] vs(1) that by simp
  qed
  ultimately show ?thesis using s1(2) by blast
qed

text \<open>An address space with one page.\<close>

definition demo_words :: "u64 \<Rightarrow> u64" where
  "demo_words = (\<lambda>_. 0)(0xFFFF800000001700 := 0x2001, 0xFFFF800000002000 := 0x3001, 0xFFFF800000003000 := 0x4001, 0xFFFF800000004000 := 0x5001)"

lemma demo_base: "pgtable_kva 0xFFFF800000000000 0xFFFF800000001000 0x700000000000 demo_words = 0xFFFF800000005000"
proof -
  let ?h = "0xFFFF800000000000 :: u64"
  have p: "va_path 0x700000000000 = [224, 0, 0, 0]" by (simp add: va_path_def pt_index_def drop_bit_eq_div)
  have c: "child ?h demo_words 0xFFFF800000001000 224 = Some 0xFFFF800000002000" "child ?h demo_words 0xFFFF800000002000 0 = Some 0xFFFF800000003000"
    "child ?h demo_words 0xFFFF800000003000 0 = Some 0xFFFF800000004000" "child ?h demo_words 0xFFFF800000004000 0 = Some 0xFFFF800000005000"
    by (simp_all add: child_def demo_words_def present_def PAGE_PRESENT_def entry_table_def)
  show ?thesis unfolding kva_walk p by (simp add: c)
qed

lemma demo_kva:
  "i < 4096 \<Longrightarrow> pgtable_kva 0xFFFF800000000000 0xFFFF800000001000 (0x700000000000 + of_nat i) demo_words = 0xFFFF800000005000 + of_nat i"
  using kva_page [of "0x700000000000" i "0xFFFF800000000000" "0xFFFF800000001000" demo_words] demo_base by simp

lemma demo_mapped: "range_mapped 0xFFFF800000000000 0xFFFF800000001000 demo_words 0x700000000000 0x700000001000"
proof -
  let ?t = "\<lambda>va. pgtable_kva 0xFFFF800000000000 0xFFFF800000001000 va demo_words" and ?b = "0x700000000000 :: u64"
  have at: "?t va = 0xFFFF800000005000 + (va - ?b) \<and> unat (va - ?b) < 4096" if "va \<in> addr_span 0x700000000000 0x700000001000" for va
  proof -
    have l: "0x700000000000 \<le> unat va" "unat va < 0x700000001000" using that by (simp_all add: addr_span_def)
    then have u: "unat (va - ?b) < 4096" by (simp add: unat_sub word_le_nat_alt)
    then show ?thesis using demo_kva [of "unat (va - ?b)"] by simp
  qed
  have "?t va \<noteq> 0" if "va \<in> addr_span 0x700000000000 0x700000001000" for va
  proof
    assume z: "?t va = 0"
    have "unat (va - ?b) + 0xFFFF800000005000 < 2 ^ 64" using at [OF that] by simp
    then have "unat (0xFFFF800000005000 + (va - ?b)) = 0xFFFF800000005000 + unat (va - ?b)" using unat_add_lem [of "0xFFFF800000005000" "va - ?b"] by simp
    then show False using at [OF that] z by simp
  qed
  moreover have "inj_on ?t (addr_span 0x700000000000 0x700000001000)" using at by (auto intro!: inj_onI) 
  ultimately show ?thesis by (simp add: range_mapped_def)
qed

theorem user_stack_layout_witness:
  "\<exists>sp ps m'. setup_user_stack 0xFFFF800000000000 0xFFFF800000001000 demo_words 0x700000001000 [[108, 115], [45, 97]] (\<lambda>_. 0) = Some (sp, m') \<and>
     16 dvd unat sp \<and> stored 0xFFFF800000000000 0xFFFF800000001000 demo_words m' sp (le64_bytes 2) \<and>
     stored 0xFFFF800000000000 0xFFFF800000001000 demo_words m' (ps ! 1) [45, 97, 0]"
proof -
  have "unat (0x700000001000 :: u64) = 0x700000001000" "[[108, 115], [45, 97]] = take MAX_ARGS [[108, 115], [45, 97 :: u8]]"
    "0x700000000000 + args_size [[108, 115], [45, 97]] + 8 * length [[108, 115], [45, 97 :: u8]] + 64 \<le> 0x700000001000"
    by (simp_all add: MAX_ARGS_def args_size_def)
  from user_stack_layout [OF demo_mapped this, of "\<lambda>_. 0"] show ?thesis by (auto simp: less_Suc_eq)
qed

end
