(* ===== verification/Ring.thy ===== *)
theory Ring
  imports Lizard_Prelude "HOL-Library.Monad_Syntax"
begin

text \<open>
  Byte rings with free-running 32-bit indices: the raw scancode ring of \<^verbatim>\<open>src/lizard/keyboard.c\<close> and the line ring of
  \<^verbatim>\<open>src/lizard/tty.c\<close>. A full ring drops its oldest byte. The locale \<open>drop_oldest\<close> is what the two share: a push and a pop
  that behave as a queue of bounded length; the indices may wrap around \<open>2 ^ 32\<close>, which both ring sizes divide.
\<close>

section \<open>Rings\<close>

record ring =
  rg_buf :: "nat \<Rightarrow> u8"
  rg_head :: u32
  rg_tail :: u32

definition KBD_RING_SIZE :: u32 where "KBD_RING_SIZE = 256"
definition STDIN_RING_SIZE :: u32 where "STDIN_RING_SIZE = 1024"

text \<open>The keyboard and the terminal test for a full ring in different ways.\<close>

definition kbd_ring_push :: "u8 \<Rightarrow> ring \<Rightarrow> ring" where
  "kbd_ring_push sc r =
     (let next = rg_head r + 1; r = (if next - rg_tail r > KBD_RING_SIZE then r\<lparr>rg_tail := rg_tail r + 1\<rparr> else r) in
      r\<lparr>rg_buf := (rg_buf r)(unat (rg_head r mod KBD_RING_SIZE) := sc), rg_head := next\<rparr>)"

definition stdin_push :: "u8 \<Rightarrow> ring \<Rightarrow> ring" where
  "stdin_push c r =
     (let r = (if rg_head r - rg_tail r \<ge> STDIN_RING_SIZE then r\<lparr>rg_tail := rg_tail r + 1\<rparr> else r) in
      r\<lparr>rg_buf := (rg_buf r)(unat (rg_head r mod STDIN_RING_SIZE) := c), rg_head := rg_head r + 1\<rparr>)"

definition keyboard_pop_scancode :: "ring \<Rightarrow> int \<times> ring" where
  "keyboard_pop_scancode r =
     (if rg_tail r = rg_head r then (- 1, r)
      else (uint (rg_buf r (unat (rg_tail r mod KBD_RING_SIZE))), r\<lparr>rg_tail := rg_tail r + 1\<rparr>))"

definition tty_stdin_available :: "ring \<Rightarrow> bool" where
  "tty_stdin_available r \<longleftrightarrow> rg_head r \<noteq> rg_tail r"

primrec tty_stdin_read :: "nat \<Rightarrow> ring \<Rightarrow> u8 list \<times> ring" where
  "tty_stdin_read 0 r = ([], r)"
| "tty_stdin_read (Suc n) r =
     (if rg_tail r = rg_head r then ([], r)
      else let (cs, r') = tty_stdin_read n (r\<lparr>rg_tail := rg_tail r + 1\<rparr>) in (rg_buf r (unat (rg_tail r mod STDIN_RING_SIZE)) # cs, r'))"

section \<open>Bounded queues\<close>

text \<open>The bytes between the indices, oldest first.\<close>

definition contents :: "nat \<Rightarrow> ring \<Rightarrow> u8 list" where
  "contents m r = map (\<lambda>i. rg_buf r ((unat (rg_tail r) + i) mod 2 ^ m)) [0..<unat (rg_head r - rg_tail r)]"

definition ring_ok :: "nat \<Rightarrow> ring \<Rightarrow> bool" where
  "ring_ok m r \<longleftrightarrow> unat (rg_head r - rg_tail r) \<le> 2 ^ m"

text \<open>The last \<open>n\<close> elements.\<close>

definition lastn :: "nat \<Rightarrow> 'a list \<Rightarrow> 'a list" where
  "lastn n xs = drop (length xs - n) xs"

lemma lastn_lastn: "lastn n (lastn n xs @ ys) = lastn n (xs @ ys)"
proof -
  let ?L = "length xs" and ?C = "length ys"
  have "?L - (?L - n) + ?C - n + (?L - n) = ?L + ?C - n" by arith
  moreover have "?L - (?L - n) + ?C - n - (?L - (?L - n)) = ?L + ?C - n - ?L" by arith
  ultimately show ?thesis by (simp add: lastn_def)
qed

lemma lastn_short: "length xs \<le> n \<Longrightarrow> lastn n xs = xs"
  by (simp add: lastn_def)

locale drop_oldest =
  fixes m :: nat and push :: "u8 \<Rightarrow> ring \<Rightarrow> ring"
  assumes push_contents: "ring_ok m r \<Longrightarrow> contents m (push c r) = lastn (2 ^ m) (contents m r @ [c])"
    and push_ok: "ring_ok m r \<Longrightarrow> ring_ok m (push c r)"
begin

lemma push_list:
  "ring_ok m r \<Longrightarrow> contents m (fold push cs r) = lastn (2 ^ m) (contents m r @ cs) \<and> ring_ok m (fold push cs r)"
proof (induction cs arbitrary: r)
  case Nil
  then show ?case by (simp add: lastn_def ring_ok_def contents_def)
next
  case (Cons c cs)
  have "lastn (2 ^ m) (lastn (2 ^ m) (contents m r @ [c]) @ cs) = lastn (2 ^ m) (contents m r @ c # cs)"
    using lastn_lastn [of "2 ^ m" "contents m r @ [c]" cs] by simp
  then show ?case using Cons.IH [OF push_ok [OF Cons.prems]] push_contents [OF Cons.prems] by simp
qed

end

lemma unat_succ_mod:
  fixes x :: u32
  assumes "m < 32"
  shows "(unat (x + 1) + i) mod 2 ^ m = (unat x + Suc i) mod 2 ^ m"
proof -
  have "(2 :: nat) ^ m dvd 2 ^ 32" by (rule le_imp_power_dvd) (use assms in simp)
  from mod_mod_cancel [OF this, of "unat x + 1"] have "(unat x + 1) mod 2 ^ 32 mod 2 ^ m = (unat x + 1) mod 2 ^ m" .
  moreover have "unat (x + 1) = (unat x + 1) mod 2 ^ 32" by (simp add: unat_word_ariths)
  ultimately have "unat (x + 1) mod 2 ^ m = (unat x + 1) mod 2 ^ m" by (simp only:)
  from mod_add_cong [OF this refl [of "i mod 2 ^ m"]] show ?thesis by simp
qed

lemma unat_mod_pow:
  fixes x :: u32
  assumes "m < 32"
  shows "unat (x mod 2 ^ m) = unat x mod 2 ^ m"
proof -
  have "(2 :: nat) ^ m < 2 ^ 32" by (rule power_strict_increasing [OF assms]) simp
  then have "unat (2 ^ m :: u32) = 2 ^ m" using unat_of_nat [where 'a = 32, of "2 ^ m"] by (simp add: mod_less)
  then show ?thesis by (simp add: unat_mod_distrib)
qed

lemma contents_pop:
  assumes m: "m < 32" and ne: "rg_tail r \<noteq> rg_head r"
  shows "contents m r = rg_buf r (unat (rg_tail r mod 2 ^ m)) # contents m (r\<lparr>rg_tail := rg_tail r + 1\<rparr>)"
    "ring_ok m r \<Longrightarrow> ring_ok m (r\<lparr>rg_tail := rg_tail r + 1\<rparr>)"
proof -
  have n: "unat (rg_head r - rg_tail r) = Suc (unat (rg_head r - (rg_tail r + 1)))"
    using ne unat_minus_one [of "rg_head r - rg_tail r"] by (simp add: diff_diff_eq unat_gt_0)
  have "[0..<Suc k] = 0 # map Suc [0..<k]" for k by (simp add: map_Suc_upt upt_conv_Cons)
  then show "contents m r = rg_buf r (unat (rg_tail r mod 2 ^ m)) # contents m (r\<lparr>rg_tail := rg_tail r + 1\<rparr>)"
    unfolding contents_def n by (simp add: unat_mod_pow [OF m] unat_succ_mod [OF m])
  show "ring_ok m r \<Longrightarrow> ring_ok m (r\<lparr>rg_tail := rg_tail r + 1\<rparr>)" using n by (simp add: ring_ok_def)
qed

lemma contents_push:
  assumes m: "m < 32" and room: "unat (rg_head r - rg_tail r) < 2 ^ m"
  shows "contents m (r\<lparr>rg_buf := (rg_buf r)(unat (rg_head r mod 2 ^ m) := c), rg_head := rg_head r + 1\<rparr>) = contents m r @ [c]" (is "contents m ?r = _")
    "unat (rg_head r + 1 - rg_tail r) = Suc (unat (rg_head r - rg_tail r))"
proof -
  let ?n = "unat (rg_head r - rg_tail r)"
  have "(2 :: nat) ^ m < 2 ^ 32" by (rule power_strict_increasing [OF m]) simp
  then have "Suc ?n < 2 ^ 32" using room by linarith
  then have n: "unat (rg_head r - rg_tail r + 1) = Suc ?n" using unat_add_lem [of "rg_head r - rg_tail r" 1] by simp
  then show n': "unat (rg_head r + 1 - rg_tail r) = Suc ?n" by (simp add: algebra_simps)
  have h: "unat (rg_head r) mod 2 ^ m = (unat (rg_tail r) + ?n) mod 2 ^ m"
  proof -
    have "unat (rg_head r) = (unat (rg_tail r) + ?n) mod 2 ^ 32"
      using unat_word_ariths(1) [of "rg_tail r" "rg_head r - rg_tail r"] by simp
    moreover have "(2 :: nat) ^ m dvd 2 ^ 32" by (rule le_imp_power_dvd) (use m in simp)
    ultimately show ?thesis by (simp only: mod_mod_cancel)
  qed
  have other: "(unat (rg_tail r) + i) mod 2 ^ m \<noteq> (unat (rg_tail r) + ?n) mod 2 ^ m" if "i < ?n" for i
  proof
    assume "(unat (rg_tail r) + i) mod 2 ^ m = (unat (rg_tail r) + ?n) mod 2 ^ m"
    then have "2 ^ m dvd (unat (rg_tail r) + ?n) - (unat (rg_tail r) + i)"
      using that mod_eq_dvd_iff_nat [of "unat (rg_tail r) + i" "unat (rg_tail r) + ?n" "2 ^ m"] by simp
    then have "2 ^ m dvd ?n - i" by simp
    moreover have "0 < ?n - i" "?n - i < 2 ^ m" using that room by simp_all
    ultimately show False by (simp add: nat_dvd_not_less)
  qed
  have "map (\<lambda>i. rg_buf ?r ((unat (rg_tail r) + i) mod 2 ^ m)) [0..<?n] = map (\<lambda>i. rg_buf r ((unat (rg_tail r) + i) mod 2 ^ m)) [0..<?n]"
    using other h by (auto simp: unat_mod_pow [OF m])
  then show "contents m ?r = contents m r @ [c]"
    using n' h unfolding contents_def by (simp add: unat_mod_pow [OF m])
qed

section \<open>The two rings are bounded queues\<close>

lemma length_contents: "length (contents m r) = unat (rg_head r - rg_tail r)"
  by (simp add: contents_def)

lemma full_push:
  assumes m: "m < 32" and ok: "ring_ok m r"
  defines "r1 \<equiv> (if unat (rg_head r - rg_tail r) = 2 ^ m then r\<lparr>rg_tail := rg_tail r + 1\<rparr> else r)"
  shows "contents m (r1\<lparr>rg_buf := (rg_buf r1)(unat (rg_head r1 mod 2 ^ m) := c), rg_head := rg_head r1 + 1\<rparr>) = lastn (2 ^ m) (contents m r @ [c])"
    "ring_ok m (r1\<lparr>rg_buf := (rg_buf r1)(unat (rg_head r1 mod 2 ^ m) := c), rg_head := rg_head r1 + 1\<rparr>)"
proof -
  have r1: "unat (rg_head r1 - rg_tail r1) < 2 ^ m \<and> contents m r1 @ [c] = lastn (2 ^ m) (contents m r @ [c])"
  proof (cases "unat (rg_head r - rg_tail r) = 2 ^ m")
    case True
    then have "0 < unat (rg_head r - rg_tail r)" by simp
    then have ne: "rg_tail r \<noteq> rg_head r" by auto
    note pop = contents_pop(1) [OF m ne]
    have l: "length (contents m r) = 2 ^ m" using True by (simp add: length_contents)
    then have "length (contents m r1) < 2 ^ m" unfolding pop using True by (simp add: r1_def)
    moreover have "lastn (2 ^ m) (contents m r @ [c]) = tl (contents m r) @ [c]" using l by (cases "contents m r") (simp_all add: lastn_def)
    moreover have "tl (contents m r) = contents m r1" using pop True by (simp add: r1_def)
    ultimately show ?thesis by (simp add: length_contents)
  next
    case False
    then have "unat (rg_head r - rg_tail r) < 2 ^ m" using ok by (simp add: ring_ok_def)
    then show ?thesis using False by (simp add: r1_def lastn_short length_contents)
  qed
  then have room: "unat (rg_head r1 - rg_tail r1) < 2 ^ m" by blast
  show "contents m (r1\<lparr>rg_buf := (rg_buf r1)(unat (rg_head r1 mod 2 ^ m) := c), rg_head := rg_head r1 + 1\<rparr>) = lastn (2 ^ m) (contents m r @ [c])"
    using r1 contents_push(1) [OF m room] by simp
  show "ring_ok m (r1\<lparr>rg_buf := (rg_buf r1)(unat (rg_head r1 mod 2 ^ m) := c), rg_head := rg_head r1 + 1\<rparr>)"
    using room contents_push(2) [OF m room] by (simp add: ring_ok_def)
qed

lemma stdin_push_full:
  assumes "ring_ok 10 r"
  shows "stdin_push c r = (let r1 = (if unat (rg_head r - rg_tail r) = 2 ^ 10 then r\<lparr>rg_tail := rg_tail r + 1\<rparr> else r) in
    r1\<lparr>rg_buf := (rg_buf r1)(unat (rg_head r1 mod 2 ^ 10) := c), rg_head := rg_head r1 + 1\<rparr>)"
proof -
  have "rg_head r - rg_tail r \<ge> STDIN_RING_SIZE \<longleftrightarrow> unat (rg_head r - rg_tail r) = 2 ^ 10"
    using assms by (auto simp: STDIN_RING_SIZE_def ring_ok_def word_le_nat_alt)
  then show ?thesis by (simp add: stdin_push_def STDIN_RING_SIZE_def Let_def)
qed

lemma kbd_push_full:
  assumes "ring_ok 8 r"
  shows "kbd_ring_push c r = (let r1 = (if unat (rg_head r - rg_tail r) = 2 ^ 8 then r\<lparr>rg_tail := rg_tail r + 1\<rparr> else r) in
    r1\<lparr>rg_buf := (rg_buf r1)(unat (rg_head r1 mod 2 ^ 8) := c), rg_head := rg_head r1 + 1\<rparr>)"
proof -
  have "unat (rg_head r - rg_tail r) \<le> 256" using assms by (simp add: ring_ok_def)
  moreover from this have "unat (rg_head r - rg_tail r + 1) = unat (rg_head r - rg_tail r) + 1"
    using unat_add_lem [of "rg_head r - rg_tail r" 1] by simp
  moreover have "rg_head r + 1 - rg_tail r = rg_head r - rg_tail r + 1" by simp
  moreover have "unat KBD_RING_SIZE = 256" by (simp add: KBD_RING_SIZE_def)
  ultimately have "rg_head r + 1 - rg_tail r > KBD_RING_SIZE \<longleftrightarrow> unat (rg_head r - rg_tail r) = 2 ^ 8"
    unfolding word_less_nat_alt by (simp only:) auto
  then show ?thesis by (simp add: kbd_ring_push_def KBD_RING_SIZE_def Let_def)
qed

interpretation stdin: drop_oldest 10 stdin_push
  by unfold_locales (unfold stdin_push_full Let_def, (rule full_push; simp)+)

interpretation kbd: drop_oldest 8 kbd_ring_push
  by unfold_locales (unfold kbd_push_full Let_def, (rule full_push; simp)+)

lemma stdin_read_contents:
  "ring_ok 10 r \<Longrightarrow> tty_stdin_read n r = (take n (contents 10 r), snd (tty_stdin_read n r)) \<and>
     contents 10 (snd (tty_stdin_read n r)) = drop n (contents 10 r) \<and> ring_ok 10 (snd (tty_stdin_read n r))"
proof (induction n arbitrary: r)
  case (Suc n)
  show ?case
  proof (cases "rg_tail r = rg_head r")
    case True
    then show ?thesis using Suc.prems by (simp add: contents_def)
  next
    case False
    note pop = contents_pop [where m = 10, simplified, OF False]
    show ?thesis using False Suc.IH [OF pop(2) [OF Suc.prems]] pop(1) by (auto simp: STDIN_RING_SIZE_def split: prod.splits)
  qed
qed simp

lemma kbd_pop_contents:
  "keyboard_pop_scancode r = (case contents 8 r of [] \<Rightarrow> (- 1, r) | c # cs \<Rightarrow> (uint c, r\<lparr>rg_tail := rg_tail r + 1\<rparr>))"
proof (cases "rg_tail r = rg_head r")
  case False
  then show ?thesis using contents_pop(1) [where m = 8, simplified, OF False] by (simp add: keyboard_pop_scancode_def KBD_RING_SIZE_def)
qed (simp add: keyboard_pop_scancode_def contents_def)

text \<open>
  Property C36. Reading from the line ring after any bytes were pushed returns, in order, the oldest of the last 1024 bytes and keeps
  the rest; the scancode ring hands out the oldest of the last 256. The indices may wrap around.
\<close>

theorem rings_are_bounded_queues:
  assumes "ring_ok 10 r" "ring_ok 8 k"
  shows "fst (tty_stdin_read n (fold stdin_push cs r)) = take n (lastn 1024 (contents 10 r @ cs)) \<and>
    contents 10 (snd (tty_stdin_read n (fold stdin_push cs r))) = drop n (lastn 1024 (contents 10 r @ cs)) \<and>
    fst (keyboard_pop_scancode (fold kbd_ring_push cs k)) = (case lastn 256 (contents 8 k @ cs) of [] \<Rightarrow> - 1 | c # _ \<Rightarrow> uint c) \<and>
    contents 8 (snd (keyboard_pop_scancode (fold kbd_ring_push cs k))) = tl (lastn 256 (contents 8 k @ cs))"
proof -
  have s: "contents 10 (fold stdin_push cs r) = lastn 1024 (contents 10 r @ cs)" "ring_ok 10 (fold stdin_push cs r)"
    using stdin.push_list [OF assms(1), of cs] by simp_all
  have k: "contents 8 (fold kbd_ring_push cs k) = lastn 256 (contents 8 k @ cs)" using kbd.push_list [OF assms(2), of cs] by simp
  have "contents 8 (r\<lparr>rg_tail := rg_tail r + 1\<rparr>) = ys" if "contents 8 r = c # ys" for r c ys
  proof -
    have "rg_tail r \<noteq> rg_head r" using that by (auto simp: contents_def)
    then show ?thesis using contents_pop(1) [of 8 r] that by simp
  qed
  then show ?thesis using stdin_read_contents [OF s(2), of n] s k
    by (auto simp: kbd_pop_contents split: list.splits) (metis fst_conv)+
qed

text \<open>An empty ring whose indices are about to wrap.\<close>

definition demo_ring :: ring where
  "demo_ring = \<lparr>rg_buf = (\<lambda>_. 0), rg_head = 0xFFFFFFFF, rg_tail = 0xFFFFFFFF\<rparr>"

theorem rings_are_bounded_queues_witness:
  "fst (tty_stdin_read 2 (fold stdin_push [104, 105, 10] demo_ring)) = [104, 105] \<and>
   contents 10 (snd (tty_stdin_read 2 (fold stdin_push [104, 105, 10] demo_ring))) = [10] \<and>
   fst (keyboard_pop_scancode (fold kbd_ring_push [104, 105, 10] demo_ring)) = 104"
proof -
  have "ring_ok 10 demo_ring" "ring_ok 8 demo_ring" "contents 10 demo_ring = []" "contents 8 demo_ring = []"
    by (simp_all add: ring_ok_def demo_ring_def contents_def)
  then show ?thesis using rings_are_bounded_queues [of demo_ring demo_ring 2 "[104, 105, 10]"] by (simp add: lastn_def)
qed

end
