(* ===== verification/Framebuffer.thy ===== *)
theory Framebuffer
  imports Early_Alloc
begin

text \<open>
  The linear framebuffer: \<^verbatim>\<open>src/lizard/framebuffer.c\<close>. The pixels are the 32-bit words behind the framebuffer address, by their index
  as the code computes it, so that a write outside the screen is a write to some other index. The font is data of the same file and is an
  argument. The last section shows that \<^verbatim>\<open>fb_present_xrgb\<close> shows the image it is given, scaled by the largest whole factor that fits.
\<close>

section \<open>State\<close>

definition FONT_WIDTH :: u64 where "FONT_WIDTH = 8"
definition FONT_HEIGHT :: u64 where "FONT_HEIGHT = 16"

type_synonym pixels = "u64 \<Rightarrow> u32"

record fb =
  fb_addr :: vaddr
  fb_height :: u64
  fb_width :: u64
  fb_pitch :: u32
  fb_length :: u32
  fb_pix :: pixels

record bi_fb =
  bi_fb_base :: u64
  bi_fb_size :: u64
  bi_fb_width :: u32
  bi_fb_height :: u32
  bi_fb_pitch :: u32
  bi_fb_format :: u32

section \<open>framebuffer.c\<close>

definition setup_framebuffer :: "u64 \<Rightarrow> u64 \<Rightarrow> vaddr \<Rightarrow> u32 \<Rightarrow> fb \<Rightarrow> fb" where
  "setup_framebuffer w h a pth f =
     f\<lparr>fb_addr := a, fb_pitch := pth, fb_width := w, fb_height := h, fb_length := (if a \<noteq> 0 then ucast (h * ucast pth) else 0)\<rparr>"

definition init_framebuffer :: "u64 \<Rightarrow> bi_fb option \<Rightarrow> fb \<Rightarrow> fb" where
  "init_framebuffer hhdm bi f =
     (case bi of
        None \<Rightarrow> setup_framebuffer 0 0 0 0 f
      | Some b \<Rightarrow>
          if bi_fb_base b = 0 \<or> bi_fb_format b = 0 then setup_framebuffer 0 0 0 0 f
          else (setup_framebuffer (ucast (bi_fb_width b)) (ucast (bi_fb_height b)) (bi_fb_base b + hhdm) (bi_fb_pitch b) f)
               \<lparr>fb_length := ucast (align_up (ucast (ucast (bi_fb_size b) :: u32)) 4096)\<rparr>)"

definition fb_stride :: "fb \<Rightarrow> u64" where
  "fb_stride f = ucast (fb_pitch f div 4)"

definition draw_pixel :: "u64 \<Rightarrow> u64 \<Rightarrow> u32 \<Rightarrow> fb \<Rightarrow> fb" where
  "draw_pixel x y color f =
     (if fb_addr f = 0 then f else f\<lparr>fb_pix := (fb_pix f)(y * fb_stride f + x := color)\<rparr>)"

definition clear_framebuffer :: "u32 \<Rightarrow> fb \<Rightarrow> fb" where
  "clear_framebuffer bg f =
     fold (\<lambda>y f. fold (\<lambda>x f. draw_pixel (of_nat x) (of_nat y) bg f) [0..<unat (fb_width f)] f) [0..<unat (fb_height f)] f"

text \<open>The character is signed: one above 127 is a negative index, so \<^verbatim>\<open>font\<close> is read outside its 4096 bytes, a fault.\<close>

definition glyph_row :: "u8 list \<Rightarrow> u8 \<Rightarrow> nat \<Rightarrow> u8 option" where
  "glyph_row font c y =
     (let i = unat (scast c * FONT_HEIGHT + of_nat y) in if i < length font then Some (font ! i) else None)"

definition draw_row :: "u64 \<Rightarrow> u64 \<Rightarrow> u32 \<Rightarrow> u32 \<Rightarrow> u8 \<Rightarrow> fb \<Rightarrow> fb" where
  "draw_row x_index y color bg row_data f =
     fold (\<lambda>x f. draw_pixel (x_index + of_nat x) y (if bit row_data (7 - x) then color else bg) f) [0..<8] f"

primrec draw_rows :: "nat list \<Rightarrow> u8 list \<Rightarrow> u32 \<Rightarrow> u64 \<Rightarrow> u64 \<Rightarrow> u32 \<Rightarrow> u8 \<Rightarrow> fb \<Rightarrow> fb option" where
  "draw_rows [] font bg xi yi color c f = Some f"
| "draw_rows (y # ys) font bg xi yi color c f =
     do { row_data \<leftarrow> glyph_row font c y; draw_rows ys font bg xi yi color c (draw_row xi (yi + of_nat y) color bg row_data f) }"

definition draw_char :: "u8 list \<Rightarrow> u32 \<Rightarrow> u64 \<Rightarrow> u64 \<Rightarrow> u32 \<Rightarrow> u8 \<Rightarrow> fb \<Rightarrow> fb option" where
  "draw_char font bg xi yi color c f = (if fb_addr f = 0 then Some f else draw_rows [0..<16] font bg xi yi color c f)"

text \<open>\<^verbatim>\<open>memmove\<close> copies the old contents (Kstring shows it for bytes); the counts are truncated to 32 bits as the code has them.\<close>

definition scroll_framebuffer :: "u32 \<Rightarrow> u32 \<Rightarrow> fb \<Rightarrow> fb" where
  "scroll_framebuffer bg n f =
     (if fb_addr f = 0 \<or> n = 0 \<or> ucast n \<ge> fb_height f then f
      else let off = (ucast (ucast n * fb_width f) :: u32); mv = (ucast ((fb_height f - ucast n) * fb_width f) :: u32); p = fb_pix f in
           f\<lparr>fb_pix := (\<lambda>i. if i < ucast mv then p (i + ucast off) else if i - ucast mv < ucast off then bg else p i)\<rparr>)"

section \<open>Presenting an image\<close>

text \<open>The search for the scale factor, with 32-bit products; it may run forever on a screen of 4294967295 pixels and more.\<close>

partial_function (option) scale_search :: "u32 \<Rightarrow> u32 \<Rightarrow> fb \<Rightarrow> u32 \<Rightarrow> u32 option" where
  [code]: "scale_search sw sh f scale =
     (if ucast (sw * (scale + 1)) \<le> fb_width f \<and> ucast (sh * (scale + 1)) \<le> fb_height f then scale_search sw sh f (scale + 1)
      else Some scale)"

primrec put_run :: "nat \<Rightarrow> u32 \<Rightarrow> u64 \<Rightarrow> pixels \<Rightarrow> pixels" where
  "put_run 0 px d p = p"
| "put_run (Suc k) px d p = put_run k px (d + 1) (p(d := px))"

primrec expand_row :: "nat \<Rightarrow> nat \<Rightarrow> pixels \<Rightarrow> u64 \<Rightarrow> u64 \<Rightarrow> pixels \<Rightarrow> pixels" where
  "expand_row 0 scale src s d p = p"
| "expand_row (Suc n) scale src s d p = expand_row n scale src (s + 1) (d + of_nat scale) (put_run scale (src s) d p)"

primrec copy_row :: "nat \<Rightarrow> pixels \<Rightarrow> u64 \<Rightarrow> u64 \<Rightarrow> pixels \<Rightarrow> pixels" where
  "copy_row 0 q s d p = p"
| "copy_row (Suc n) q s d p = copy_row n q (s + 1) (d + 1) (p(d := q s))"

primrec replicate_rows :: "nat list \<Rightarrow> u64 \<Rightarrow> u64 \<Rightarrow> nat \<Rightarrow> pixels \<Rightarrow> pixels" where
  "replicate_rows [] stride drow dw p = p"
| "replicate_rows (k # ks) stride drow dw p = replicate_rows ks stride drow dw (copy_row dw p drow (drow + of_nat k * stride) p)"

definition present_row :: "pixels \<Rightarrow> u32 \<Rightarrow> u32 \<Rightarrow> u32 \<Rightarrow> u32 \<Rightarrow> u64 \<Rightarrow> u32 \<Rightarrow> pixels \<Rightarrow> pixels" where
  "present_row src sw scale ox oy stride sy p =
     (let srow = ucast sy * ucast sw;
          drow = ucast (oy + sy * scale) * stride + ucast ox;
          p = (if scale = 1 then copy_row (unat sw) src srow drow p else expand_row (unat sw) (unat scale) src srow drow p)
      in replicate_rows [1..<unat scale] stride drow (unat (sw * scale)) p)"

definition fb_present_xrgb :: "bool \<Rightarrow> pixels \<Rightarrow> u32 \<Rightarrow> u32 \<Rightarrow> fb \<Rightarrow> fb option" where
  "fb_present_xrgb src_null src sw sh f =
     (if fb_addr f = 0 \<or> src_null \<or> sw = 0 \<or> sh = 0 then Some f
      else do { scale \<leftarrow> scale_search sw sh f 1;
                let dw = sw * scale; dh = sh * scale;
                    ox = ucast ((fb_width f - ucast dw) div 2); oy = ucast ((fb_height f - ucast dh) div 2) in
                Some (f\<lparr>fb_pix := fold (\<lambda>sy p. present_row src sw scale ox oy (fb_stride f) (of_nat sy) p) [0..<unat sh] (fb_pix f)\<rparr>) })"

section \<open>What the loops do\<close>

lemma unat_pred: "x \<noteq> 0 \<Longrightarrow> unat (x - 1) = unat x - 1" for x :: u64
  by (simp add: unat_minus_one)

lemma unat_diff_of_nat:
  fixes x :: u64
  assumes "n < 2 ^ 64"
  shows "unat (x - of_nat n) = (if n \<le> unat x then unat x - n else 2 ^ 64 + unat x - n)"
proof -
  have "unat (of_nat n :: u64) = n" using assms by (simp add: unat_of_nat mod_less)
  then have "unat (x - of_nat n) = (if n \<le> unat x then unat x - n else unat x + 2 ^ 64 - n)"
    using unat_sub_if_size [of x "of_nat n"] by (simp only: word_size word_le_nat_alt) simp
  then show ?thesis by (cases "n \<le> unat x") (simp_all only: add.commute [of "2 ^ 64"] if_True if_False)
qed

lemma put_run_spec: "n \<le> 2 ^ 64 \<Longrightarrow> put_run n px d p = (\<lambda>j. if unat (j - d) < n then px else p j)"
proof (induction n arbitrary: d p)
  case (Suc n)
  have "(if unat (j - (d + 1)) < n then px else (p(d := px)) j) = (if unat (j - d) < Suc n then px else p j)" for j
  proof (cases "j = d")
    case False
    then have "unat (j - d - 1) = unat (j - d) - 1" "0 < unat (j - d)" by (simp_all add: unat_pred unat_gt_0)
    then show ?thesis using False by (auto simp: diff_diff_eq)
  qed simp
  then show ?case using Suc by (simp add: fun_eq_iff)
qed simp

lemma copy_row_spec: "n \<le> 2 ^ 64 \<Longrightarrow> copy_row n q s d p = (\<lambda>j. if unat (j - d) < n then q (s + (j - d)) else p j)"
proof (induction n arbitrary: s d p)
  case (Suc n)
  have "(if unat (j - (d + 1)) < n then q (s + 1 + (j - (d + 1))) else (p(d := q s)) j) = (if unat (j - d) < Suc n then q (s + (j - d)) else p j)" for j
  proof (cases "j = d")
    case True
    have "unat (- 1 :: u64) = 2 ^ 64 - 1" using unat_diff_of_nat [of 1 0] by simp
    then have "\<not> unat (j - (d + 1)) < n" using Suc.prems True by simp
    then show ?thesis using True by simp
  next
    case False
    then have "unat (j - d - 1) = unat (j - d) - 1" "0 < unat (j - d)" by (simp_all add: unat_pred unat_gt_0)
    then show ?thesis using False by (auto simp: diff_diff_eq algebra_simps)
  qed
  then show ?case using Suc by (simp add: fun_eq_iff)
qed simp

lemma expand_row_spec:
  assumes "0 < k" "n * k \<le> 2 ^ 64" "k < 2 ^ 64"
  shows "expand_row n k src s d p = (\<lambda>j. if unat (j - d) < n * k then src (s + of_nat (unat (j - d) div k)) else p j)"
  using assms(2)
proof (induction n arbitrary: s d p)
  case (Suc n)
  have nk: "n * k \<le> 2 ^ 64" "n * k + k \<le> 2 ^ 64" using Suc.prems by simp_all
  note ih = Suc.IH [OF nk(1)]
  have "(if unat (j - (d + of_nat k)) < n * k then src (s + 1 + of_nat (unat (j - (d + of_nat k)) div k))
         else if unat (j - d) < k then src s else p j)
      = (if unat (j - d) < Suc n * k then src (s + of_nat (unat (j - d) div k)) else p j)" for j
  proof -
    define u where "u = unat (j - d)"
    have e: "unat (j - (d + of_nat k)) = (if k \<le> u then u - k else 2 ^ 64 + u - k)"
      using unat_diff_of_nat [OF assms(3), of "j - d"] by (simp add: u_def diff_diff_eq)
    show ?thesis
    proof (cases "k \<le> u")
      case True
      then have "u div k = Suc ((u - k) div k)" using assms(1) by (simp add: le_div_geq)
      then show ?thesis using True e by (auto simp: u_def [symmetric] algebra_simps)
    next
      case False
      then have "\<not> 2 ^ 64 + u - k < n * k" using nk(2) by linarith
      then show ?thesis using False e assms(1) by (simp add: u_def [symmetric])
    qed
  qed
  then show ?case using assms(3) by (simp add: ih put_run_spec fun_eq_iff)
qed simp

text \<open>A word lies in the first \<open>dw\<close> places of row \<open>k\<close> when its distance from the first row says so.\<close>

lemma row_hit:
  fixes j d S :: u64
  assumes "k * unat S + unat S \<le> 2 ^ 64" "dw \<le> unat S" "0 < unat S" "k * unat S < 2 ^ 64"
  shows "unat (j - (d + of_nat k * S)) < dw \<longleftrightarrow> unat (j - d) div unat S = k \<and> unat (j - d) mod unat S < dw"
    "unat (j - d) div unat S = k \<Longrightarrow> unat (j - (d + of_nat k * S)) = unat (j - d) mod unat S"
proof -
  define u where "u = unat (j - d)"
  have kS: "of_nat k * S = (of_nat (k * unat S) :: u64)" by simp
  have e: "unat (j - (d + of_nat k * S)) = (if k * unat S \<le> u then u - k * unat S else 2 ^ 64 + u - k * unat S)"
    using unat_diff_of_nat [OF assms(4), of "j - d"] unfolding kS by (simp add: u_def diff_diff_eq)
  have q: "k * unat S \<le> u \<and> u - k * unat S < unat S \<longleftrightarrow> u div unat S = k"
  proof
    assume "k * unat S \<le> u \<and> u - k * unat S < unat S"
    then have "u = k * unat S + (u - k * unat S)" "u - k * unat S < unat S" by auto
    then show "u div unat S = k" by (metis add.commute assms(3) div_less div_mult_self3 add.right_neutral less_not_refl)
  next
    assume "u div unat S = k"
    then show "k * unat S \<le> u \<and> u - k * unat S < unat S" using assms(3) by (metis div_times_less_eq_dividend minus_div_mult_eq_mod mod_less_divisor)
  qed
  have m: "u - k * unat S = u mod unat S" if "u div unat S = k" using that by (metis minus_div_mult_eq_mod)
  show "unat (j - (d + of_nat k * S)) = unat (j - d) mod unat S" if "unat (j - d) div unat S = k"
    using that e q m by (simp add: u_def)
  show "unat (j - (d + of_nat k * S)) < dw \<longleftrightarrow> unat (j - d) div unat S = k \<and> unat (j - d) mod unat S < dw"
  proof
    assume l: "unat (j - (d + of_nat k * S)) < dw"
    then have "k * unat S \<le> u" using e assms(1,2) by (auto split: if_splits)
    then show "unat (j - d) div unat S = k \<and> unat (j - d) mod unat S < dw" using l e q m assms(2) by (simp add: u_def)
  qed (use e q m in \<open>auto simp: u_def\<close>)
qed

lemma replicate_rows_spec:
  fixes S :: u64
  assumes "0 < unat S" "dw \<le> unat S" "\<forall>k\<in>set ks. 1 \<le> k \<and> k * unat S + unat S \<le> 2 ^ 64" "\<And>v. v < dw \<Longrightarrow> p (drow + of_nat v) = R v"
  shows "replicate_rows ks S drow dw p =
    (\<lambda>j. if unat (j - drow) div unat S \<in> set ks \<and> unat (j - drow) mod unat S < dw then R (unat (j - drow) mod unat S) else p j)"
  using assms(3,4)
proof (induction ks arbitrary: p)
  case (Cons k ks)
  have k: "1 \<le> k" "k * unat S + unat S \<le> 2 ^ 64" "k * unat S < 2 ^ 64" using Cons.prems(1) assms(1) by simp_all
  have dw: "dw \<le> 2 ^ 64" using assms(2) unat_lt2p [of S] by simp
  define p1 where "p1 = (\<lambda>j. if unat (j - drow) div unat S = k \<and> unat (j - drow) mod unat S < dw then R (unat (j - drow) mod unat S) else p j)"
  have "copy_row dw p drow (drow + of_nat k * S) p j = p1 j" for j
  proof (cases "unat (j - (drow + of_nat k * S)) < dw")
    case True
    have "p (drow + (j - (drow + of_nat k * S))) = R (unat (j - (drow + of_nat k * S)))" using Cons.prems(2) [OF True] by simp
    then show ?thesis using True row_hit [OF k(2) assms(2,1) k(3), of j drow] by (simp add: copy_row_spec [OF dw] p1_def)
  next
    case False
    then have "\<not> (unat (j - drow) div unat S = k \<and> unat (j - drow) mod unat S < dw)" using row_hit(1) [OF k(2) assms(2,1) k(3)] by blast
    then show ?thesis using False unfolding copy_row_spec [OF dw] p1_def by (simp only: if_False)
  qed
  then have cp: "copy_row dw p drow (drow + of_nat k * S) p = p1" by blast
  have "p1 (drow + of_nat v) = R v" if v: "v < dw" for v
  proof -
    have "unat (of_nat v :: u64) = v" using v dw by (simp add: unat_of_nat mod_less)
    moreover have "v div unat S = 0" using v assms(2) by simp
    ultimately show ?thesis using Cons.prems(2) [OF v] k(1) by (simp add: p1_def)
  qed
  moreover have "\<forall>k\<in>set ks. 1 \<le> k \<and> k * unat S + unat S \<le> 2 ^ 64" using Cons.prems(1) by simp
  ultimately show ?case using Cons.IH [of p1] by (auto simp: cp p1_def fun_eq_iff)
qed simp

text \<open>The first output row, and then the rows below it.\<close>

lemma present_row_spec:
  fixes S :: u64 and ox oy sy scale sw :: u32
  assumes k: "1 \<le> unat scale" and w: "unat sw * unat scale < 2 ^ 32" "unat sw * unat scale \<le> unat S" "0 < unat S" "unat scale * unat S \<le> 2 ^ 63"
  defines "D \<equiv> ucast (oy + sy * scale) * S + ucast ox" and "dw \<equiv> unat sw * unat scale"
  shows "present_row src sw scale ox oy S sy p =
    (\<lambda>j. if unat (j - D) div unat S < unat scale \<and> unat (j - D) mod unat S < dw
         then src (ucast sy * ucast sw + of_nat (unat (j - D) mod unat S div unat scale)) else p j)"
proof -
  let ?k = "unat scale"
  define R where "R = (\<lambda>v. src (ucast sy * ucast sw + of_nat (v div ?k)))"
  have dw: "unat (sw * scale) = dw" using w(1) unat_mult_lem [of sw scale] by (simp add: dw_def)
  have k64: "?k < 2 ^ 64" "dw \<le> 2 ^ 64" "unat sw \<le> 2 ^ 64" using unat_lt2p [of scale] unat_lt2p [of sw] w(1) by (simp_all add: dw_def)
  define p1 where "p1 = (if scale = 1 then copy_row (unat sw) src (ucast sy * ucast sw) D p else expand_row (unat sw) ?k src (ucast sy * ucast sw) D p)"
  have p1: "p1 = (\<lambda>j. if unat (j - D) < dw then R (unat (j - D)) else p j)"
  proof (cases "scale = 1")
    case True
    have "R (unat x) = src (ucast sy * ucast sw + x)" for x :: u64 using True by (simp add: R_def)
    then show ?thesis using True copy_row_spec [OF k64(3)] by (simp add: p1_def dw_def fun_eq_iff)
  next
    case False
    then show ?thesis using expand_row_spec [of ?k "unat sw"] k k64 by (simp add: p1_def R_def dw_def fun_eq_iff)
  qed
  have rows: "\<forall>i\<in>set [1..<?k]. 1 \<le> i \<and> i * unat S + unat S \<le> 2 ^ 64"
  proof
    fix i assume "i \<in> set [1..<?k]"
    then have i: "1 \<le> i" "Suc i \<le> ?k" by simp_all
    then have "Suc i * unat S \<le> ?k * unat S" by (intro mult_le_mono1)
    then show "1 \<le> i \<and> i * unat S + unat S \<le> 2 ^ 64" using i w(4) by simp
  qed
  have first: "p1 (D + of_nat v) = R v" if "v < dw" for v
  proof -
    have "unat (of_nat v :: u64) = v" using that k64(2) by (simp add: unat_of_nat mod_less)
    then show ?thesis using that by (simp add: p1)
  qed
  have r: "replicate_rows [1..<?k] S D dw p1 =
      (\<lambda>j. if unat (j - D) div unat S \<in> set [1..<?k] \<and> unat (j - D) mod unat S < dw then R (unat (j - D) mod unat S) else p1 j)"
    by (rule replicate_rows_spec [OF w(3) _ rows]) (use w(2) first in \<open>simp_all add: dw_def\<close>)
  have "present_row src sw scale ox oy S sy p = replicate_rows [1..<?k] S D dw p1"
    by (simp add: present_row_def Let_def D_def p1_def dw)
  also have "\<dots> = (\<lambda>j. if unat (j - D) div unat S < ?k \<and> unat (j - D) mod unat S < dw then R (unat (j - D) mod unat S) else p j)"
  proof
    fix j
    define u where "u = unat (j - D)"
    have "u < dw \<longleftrightarrow> u div unat S = 0 \<and> u mod unat S < dw"
      using w(2,3) by (metis dw_def div_eq_0_iff less_le_trans mod_less not_less_zero)
    moreover have "u mod unat S = u" if "u < dw" using that w(2) by (simp add: dw_def)
    ultimately show "replicate_rows [1..<?k] S D dw p1 j = (if unat (j - D) div unat S < ?k \<and> unat (j - D) mod unat S < dw then R (unat (j - D) mod unat S) else p j)"
      using k unfolding r unfolding p1 u_def [symmetric] by (cases "u div unat S = 0") auto
  qed
  finally show ?thesis unfolding R_def .
qed

text \<open>The same in the coordinates of the screen.\<close>

lemma screen_coord:
  fixes j :: u64
  assumes S: "0 < S" and fit: "x0 + dw \<le> S" and small: "y0 * S + x0 + k * S \<le> 2 ^ 64" "y0 * S + x0 < 2 ^ 64"
  defines "u \<equiv> unat (j - of_nat (y0 * S + x0))" and "y \<equiv> unat j div S" and "x \<equiv> unat j mod S"
  shows "u div S < k \<and> u mod S < dw \<longleftrightarrow> y0 \<le> y \<and> y < y0 + k \<and> x0 \<le> x \<and> x < x0 + dw"
    "y0 \<le> y \<Longrightarrow> x0 \<le> x \<Longrightarrow> u mod S = x - x0"
proof -
  have i: "unat j = y * S + x" and xS: "x < S" using S by (simp_all add: y_def x_def)
  have u: "u = (if y0 * S + x0 \<le> unat j then unat j - (y0 * S + x0) else 2 ^ 64 + unat j - (y0 * S + x0))"
    unfolding u_def by (rule unat_diff_of_nat [OF small(2)])
  have in_row: "u div S = y - y0 \<and> u mod S = x - x0" if c: "y0 \<le> y" "x0 \<le> x"
  proof -
    have "y0 * S \<le> y * S" using c(1) by (rule mult_le_mono1)
    then have "y0 * S + x0 \<le> unat j" using i c by linarith
    then have "u = (y - y0) * S + (x - x0)" using u i c \<open>y0 * S \<le> y * S\<close> by (simp add: diff_mult_distrib)
    then show ?thesis using xS by (simp add: less_imp_diff_less)
  qed
  then show "y0 \<le> y \<Longrightarrow> x0 \<le> x \<Longrightarrow> u mod S = x - x0" by blast
  have left: "\<not> u mod S < dw" if c: "y0 < y" "x < x0"
  proof -
    have "Suc y0 * S \<le> y * S" using c(1) by (intro mult_le_mono1) simp
    then have "y0 * S + x0 \<le> unat j" using i c xS fit by (simp del: mult_le_cancel2)
    then have "u = (y - Suc y0) * S + (S + x - x0)" using u i c xS fit \<open>Suc y0 * S \<le> y * S\<close> by (simp add: diff_mult_distrib)
    moreover have "S + x - x0 < S" "dw \<le> S + x - x0" using c xS fit by simp_all
    ultimately show ?thesis by simp
  qed
  have above: "\<not> u div S < k" if c: "y < y0 \<or> y = y0 \<and> x < x0"
  proof -
    have "unat j < y0 * S + x0"
    proof (cases "y < y0")
      case True
      then have "Suc y * S \<le> y0 * S" by (intro mult_le_mono1) simp
      then show ?thesis using i xS by simp
    qed (use c i in simp)
    then have "k * S \<le> u" using u small(1) by simp
    then show ?thesis using S by (simp add: less_eq_div_iff_mult_less_eq not_less)
  qed
  show "u div S < k \<and> u mod S < dw \<longleftrightarrow> y0 \<le> y \<and> y < y0 + k \<and> x0 \<le> x \<and> x < x0 + dw"
  proof (cases "y0 \<le> y \<and> x0 \<le> x")
    case True
    then show ?thesis using in_row by auto
  next
    case False
    then show ?thesis using left above by (meson le_neq_implies_less not_less)
  qed
qed

section \<open>The scale factor\<close>

lemma unat_ucast_mult: "unat (a * b) = unat a * unat b" if "unat a * unat b < 2 ^ 32" for a b :: u32
  using that unat_mult_lem [of a b] by simp

definition best_scale :: "nat \<Rightarrow> nat \<Rightarrow> nat \<Rightarrow> nat \<Rightarrow> nat" where
  "best_scale w h W H = min (W div w) (H div h)"

lemma fits_iff:
  fixes a :: u32 and W :: u64
  assumes "0 < unat a" "unat a \<le> unat W" "unat W < 2 ^ 31" "n \<le> unat W div unat a"
  shows "ucast (a * (of_nat n + 1)) \<le> W \<longleftrightarrow> Suc n \<le> unat W div unat a"
proof -
  have "unat a * n \<le> unat W" using assms(1,4) by (metis less_eq_div_iff_mult_less_eq mult.commute)
  then have l: "unat a * Suc n < 2 ^ 32" using assms(2,3) by simp
  moreover have "Suc n \<le> unat a * Suc n" using assms(1) by (cases "unat a") simp_all
  ultimately have "Suc n < 2 ^ 32" by simp
  then have "unat (of_nat (Suc n) :: u32) = Suc n" by (simp only: unat_of_nat) (simp add: mod_less)
  moreover have "of_nat (Suc n) = (of_nat n + 1 :: u32)" by simp
  ultimately have "unat (of_nat n + 1 :: u32) = Suc n" by (simp only:)
  then have "unat (a * (of_nat n + 1)) = unat a * Suc n" using unat_ucast_mult [of a "of_nat n + 1"] l by simp
  then have "unat (ucast (a * (of_nat n + 1)) :: u64) = unat a * Suc n" by simp
  then show ?thesis unfolding word_le_nat_alt less_eq_div_iff_mult_less_eq [OF assms(1)] by (simp only: mult.commute)
qed

lemma scale_search_finds:
  assumes "unat (fb_width f) < 2 ^ 31" "unat (fb_height f) < 2 ^ 31" "0 < unat sw" "0 < unat sh"
    "unat sw \<le> unat (fb_width f)" "unat sh \<le> unat (fb_height f)"
  shows "n \<le> best_scale (unat sw) (unat sh) (unat (fb_width f)) (unat (fb_height f)) \<Longrightarrow>
    scale_search sw sh f (of_nat n) = Some (of_nat (best_scale (unat sw) (unat sh) (unat (fb_width f)) (unat (fb_height f))))"
proof (induction "best_scale (unat sw) (unat sh) (unat (fb_width f)) (unat (fb_height f)) - n" arbitrary: n)
  case 0
  then have n: "n = best_scale (unat sw) (unat sh) (unat (fb_width f)) (unat (fb_height f))" by simp
  then have "n \<le> unat (fb_width f) div unat sw" "n \<le> unat (fb_height f) div unat sh"
    "\<not> (Suc n \<le> unat (fb_width f) div unat sw \<and> Suc n \<le> unat (fb_height f) div unat sh)" by (simp_all add: best_scale_def)
  then have "\<not> (ucast (sw * (of_nat n + 1)) \<le> fb_width f \<and> ucast (sh * (of_nat n + 1)) \<le> fb_height f)"
    using fits_iff [OF assms(3,5,1)] fits_iff [OF assms(4,6,2)] by blast
  then show ?case unfolding n [symmetric] by (subst scale_search.simps) (simp only: if_False)
next
  case (Suc d)
  then have "Suc n \<le> best_scale (unat sw) (unat sh) (unat (fb_width f)) (unat (fb_height f))" "d = best_scale (unat sw) (unat sh) (unat (fb_width f)) (unat (fb_height f)) - Suc n" by simp_all
  then have ih: "scale_search sw sh f (of_nat (Suc n)) = Some (of_nat (best_scale (unat sw) (unat sh) (unat (fb_width f)) (unat (fb_height f))))"
    using Suc.hyps(1) by blast
  have "Suc n \<le> best_scale (unat sw) (unat sh) (unat (fb_width f)) (unat (fb_height f))" using Suc by simp
  then have le: "Suc n \<le> unat (fb_width f) div unat sw" "Suc n \<le> unat (fb_height f) div unat sh"
    by (simp_all add: best_scale_def)
  then have "ucast (sw * (of_nat n + 1)) \<le> fb_width f \<and> ucast (sh * (of_nat n + 1)) \<le> fb_height f"
    using fits_iff [OF assms(3,5,1), of n] fits_iff [OF assms(4,6,2), of n] by simp
  moreover have "of_nat (Suc n) = (of_nat n + 1 :: u32)" by simp
  ultimately show ?case using ih by (subst scale_search.simps) (simp only: if_True simp_thms)
qed

section \<open>The image on the screen\<close>

text \<open>The reference: nearest-neighbour scaling by a whole factor, with the image in the middle of the screen.\<close>

definition shown :: "pixels \<Rightarrow> nat \<Rightarrow> nat \<Rightarrow> nat \<Rightarrow> nat \<Rightarrow> nat \<Rightarrow> nat \<Rightarrow> pixels \<Rightarrow> pixels" where
  "shown src w h k x0 y0 S p j =
     (let y = unat j div S; x = unat j mod S in
      if y0 \<le> y \<and> y < y0 + h * k \<and> x0 \<le> x \<and> x < x0 + w * k then src (of_nat ((y - y0) div k * w + (x - x0) div k)) else p j)"

lemma present_row_shown:
  fixes S :: u64 and ox oy scale sw :: u32
  assumes k: "1 \<le> unat scale" and S: "0 < unat S" "unat S < 2 ^ 30" and w: "unat ox + unat sw * unat scale \<le> unat S"
    and n: "unat oy + Suc n * unat scale < 2 ^ 31"
  shows "present_row src sw scale ox oy S (of_nat n) (shown src (unat sw) n (unat scale) (unat ox) (unat oy) (unat S) p) =
    shown src (unat sw) (Suc n) (unat scale) (unat ox) (unat oy) (unat S) p"
proof
  fix j
  let ?k = "unat scale" and ?w = "unat sw" and ?S = "unat S" and ?ox = "unat ox" and ?oy = "unat oy"
  let ?q = "shown src ?w n ?k ?ox ?oy ?S p"
  define D :: u64 where "D = ucast (oy + of_nat n * scale) * S + ucast ox"
  have nk: "n * ?k < 2 ^ 31" "?oy + n * ?k < 2 ^ 31" "?k < 2 ^ 31" using n by simp_all
  have "n \<le> n * ?k" using k by (cases ?k) simp_all
  then have n31: "n < 2 ^ 31" using nk(1) by (rule le_less_trans)
  have oe: "(ucast z :: u64) = of_nat (unat z)" for z :: u32 by simp
  have nw: "unat (of_nat n :: u32) = n" using n31 by (simp add: unat_of_nat mod_less)
  then have "unat (of_nat n * scale) = n * ?k" using unat_ucast_mult [of "of_nat n" scale] nk(1) by simp
  then have "unat (oy + of_nat n * scale) = ?oy + n * ?k" using unat_add_lem [of oy "of_nat n * scale"] nk(2) by simp
  then have D: "D = of_nat ((?oy + n * ?k) * ?S + ?ox)" unfolding D_def oe by simp
  have big: "(?oy + n * ?k + ?k) * ?S \<le> 2 ^ 31 * 2 ^ 30" using n S(2) by (intro mult_le_mono) simp_all
  have kS: "?k * ?S \<le> 2 ^ 63" using mult_le_mono [of ?k "2 ^ 31" ?S "2 ^ 30"] nk(3) S(2) by simp
  have x0: "?ox < 2 ^ 30" using w S(2) k by simp
  have sm: "(?oy + n * ?k) * ?S + ?ox + ?k * ?S \<le> 2 ^ 64" "(?oy + n * ?k) * ?S + ?ox < 2 ^ 64"
    using big x0 by (simp_all add: add_mult_distrib)
  let ?y = "unat j div ?S" and ?x = "unat j mod ?S" and ?u = "unat (j - D)"
  have hit: "?u div ?S < ?k \<and> ?u mod ?S < ?w * ?k \<longleftrightarrow> ?oy + n * ?k \<le> ?y \<and> ?y < ?oy + n * ?k + ?k \<and> ?ox \<le> ?x \<and> ?x < ?ox + ?w * ?k"
    "?oy + n * ?k \<le> ?y \<Longrightarrow> ?ox \<le> ?x \<Longrightarrow> ?u mod ?S = ?x - ?ox"
    unfolding D by (rule screen_coord [OF S(1) w sm])+
  have pr: "present_row src sw scale ox oy S (of_nat n) ?q j =
      (if ?u div ?S < ?k \<and> ?u mod ?S < ?w * ?k then src (ucast (of_nat n :: u32) * ucast sw + of_nat (?u mod ?S div ?k)) else ?q j)"
    unfolding D_def by (subst present_row_spec) (use k w S kS in simp_all)
  show "present_row src sw scale ox oy S (of_nat n) ?q j = shown src ?w (Suc n) ?k ?ox ?oy ?S p j"
  proof (cases "?oy + n * ?k \<le> ?y \<and> ?y < ?oy + n * ?k + ?k \<and> ?ox \<le> ?x \<and> ?x < ?ox + ?w * ?k")
    case True
    have "(?y - ?oy) div ?k = n"
    proof -
      have "?y - ?oy = n * ?k + (?y - ?oy - n * ?k)" "?y - ?oy - n * ?k < ?k" using True by linarith+
      then show ?thesis by (metis add.commute add.right_neutral div_less div_mult_self3 less_nat_zero_code)
    qed
    moreover have "src (ucast (of_nat n :: u32) * ucast sw + of_nat (?u mod ?S div ?k)) = src (of_nat (n * ?w + (?x - ?ox) div ?k))"
      using hit(2) True unfolding oe nw by simp
    moreover have "?y < ?oy + Suc n * ?k" "?oy \<le> ?y" using True by simp_all
    ultimately show ?thesis using True unfolding pr hit(1) shown_def Let_def by (simp only: simp_thms if_True)
  next
    case False
    then have "?q j = shown src ?w (Suc n) ?k ?ox ?oy ?S p j"
      unfolding shown_def Let_def by (rule_tac if_cong) auto
    then show ?thesis using False unfolding pr hit(1) by (simp only: if_False)
  qed
qed

lemma present_rows_shown:
  fixes S :: u64 and ox oy scale sw :: u32
  assumes "1 \<le> unat scale" "0 < unat S" "unat S < 2 ^ 30" "unat ox + unat sw * unat scale \<le> unat S" "unat oy + n * unat scale < 2 ^ 31"
  shows "fold (\<lambda>sy p. present_row src sw scale ox oy S (of_nat sy) p) [0..<n] p = shown src (unat sw) n (unat scale) (unat ox) (unat oy) (unat S) p"
  using assms(5)
proof (induction n)
  case 0
  then show ?case by (auto simp: shown_def Let_def fun_eq_iff)
next
  case (Suc n)
  then show ?case using present_row_shown [OF assms(1-4) Suc.prems] by simp
qed

lemma best_scale_bounds:
  assumes "0 < w" "0 < h" "w \<le> W" "h \<le> H"
  shows "1 \<le> best_scale w h W H" "w * best_scale w h W H \<le> W" "h * best_scale w h W H \<le> H"
proof -
  have "1 \<le> W div w" "1 \<le> H div h" using assms by (simp_all add: Suc_le_eq div_greater_zero_iff)
  then show "1 \<le> best_scale w h W H" by (simp add: best_scale_def)
  have "w * best_scale w h W H \<le> w * (W div w)" "h * best_scale w h W H \<le> h * (H div h)"
    by (intro mult_le_mono2; simp add: best_scale_def)+
  then show "w * best_scale w h W H \<le> W" "h * best_scale w h W H \<le> H" by (meson le_trans times_div_less_eq_dividend)+
qed

lemma centre_offset:
  fixes W :: u64 and a b :: u32
  assumes "unat a * unat b \<le> unat W" "unat W < 2 ^ 31"
  shows "unat (ucast ((W - ucast (a * b)) div 2) :: u32) = (unat W - unat a * unat b) div 2"
proof -
  have ab: "unat (ucast (a * b) :: u64) = unat a * unat b" using assms unat_ucast_mult [of a b] by simp
  have "unat (W - ucast (a * b)) = unat W - unat a * unat b" using assms(1) ab by (simp add: unat_sub word_le_nat_alt)
  then have "unat ((W - ucast (a * b)) div 2) = (unat W - unat a * unat b) div 2" by (simp add: unat_div_distrib)
  moreover have "(unat W - unat a * unat b) div 2 < 2 ^ 32" using assms(2) by simp
  ultimately show ?thesis by (simp add: unsigned_ucast_eq take_bit_eq_mod mod_less)
qed

text \<open>
  Property C35. An image that fits the screen is shown as the reference says: every pixel of the middle rectangle is the image pixel it
  stands for, with the largest whole factor that fits both ways, and every other word is as before. The row buffer, the replication of rows
  and the pointer arithmetic of the code do not show.
\<close>

theorem fb_present_exact:
  assumes "fb_addr f \<noteq> 0" "0 < unat sw" "0 < unat sh" "unat sw \<le> unat (fb_width f)" "unat sh \<le> unat (fb_height f)"
    "unat (fb_width f) < 2 ^ 31" "unat (fb_height f) < 2 ^ 31" "unat (fb_width f) \<le> unat (fb_stride f)"
    "k = best_scale (unat sw) (unat sh) (unat (fb_width f)) (unat (fb_height f))"
  shows "fb_present_xrgb False src sw sh f =
    Some (f\<lparr>fb_pix := shown src (unat sw) (unat sh) k ((unat (fb_width f) - unat sw * k) div 2) ((unat (fb_height f) - unat sh * k) div 2)
                        (unat (fb_stride f)) (fb_pix f)\<rparr>)"
proof -
  let ?W = "unat (fb_width f)" and ?H = "unat (fb_height f)" and ?S = "unat (fb_stride f)" and ?k = "of_nat k :: u32"
  note k = best_scale_bounds [OF assms(2-5), folded assms(9)]
  have "k \<le> unat sw * k" using assms(2) by (cases "unat sw") simp_all
  then have kW: "k < 2 ^ 31" using k(2) assms(6) by linarith
  then have uk: "unat ?k = k" by (simp add: unat_of_nat mod_less)
  have sc: "scale_search sw sh f 1 = Some ?k"
    using scale_search_finds [OF assms(6,7,2-5), of 1] k(1) unfolding assms(9) [symmetric] by simp
  let ?ox = "ucast ((fb_width f - ucast (sw * ?k)) div 2) :: u32" and ?oy = "ucast ((fb_height f - ucast (sh * ?k)) div 2) :: u32"
  have ox: "unat ?ox = (?W - unat sw * k) div 2" using centre_offset [of sw ?k "fb_width f"] k(2) assms(6) uk by simp
  have oy: "unat ?oy = (?H - unat sh * k) div 2" using centre_offset [of sh ?k "fb_height f"] k(3) assms(7) uk by simp
  have S: "?S < 2 ^ 30"
  proof -
    have "?S = unat (fb_pitch f) div 4" by (simp add: fb_stride_def unat_div_distrib)
    then show ?thesis using unat_lt2p [of "fb_pitch f"] by simp
  qed
  have rows: "fold (\<lambda>sy p. present_row src sw ?k ?ox ?oy (fb_stride f) (of_nat sy) p) [0..<unat sh] (fb_pix f) =
      shown src (unat sw) (unat sh) (unat ?k) (unat ?ox) (unat ?oy) ?S (fb_pix f)"
  proof (rule present_rows_shown)
    show "1 \<le> unat ?k" "0 < ?S" "?S < 2 ^ 30" using k(1) uk assms(2,4,8) S by simp_all
    show "unat ?ox + unat sw * unat ?k \<le> ?S" using k(2) assms(8) unfolding ox uk by linarith
    show "unat ?oy + unat sh * unat ?k < 2 ^ 31" using k(3) assms(7) unfolding oy uk by linarith
  qed
  have "sw \<noteq> 0" "sh \<noteq> 0" using assms(2,3) by auto
  then show ?thesis using assms(1) sc rows unfolding fb_present_xrgb_def Let_def ox oy uk by simp
qed

text \<open>A screen of four by two pixels.\<close>

definition demo_fb :: fb where
  "demo_fb = \<lparr>fb_addr = 0x1000, fb_height = 2, fb_width = 4, fb_pitch = 16, fb_length = 32, fb_pix = (\<lambda>_. 0)\<rparr>"

definition demo_image :: pixels where
  "demo_image i = (if i = 0 then 7 else 9)"

theorem fb_present_exact_witness:
  "fb_present_xrgb False demo_image 2 1 demo_fb = Some (demo_fb\<lparr>fb_pix := shown demo_image 2 1 2 0 0 4 (\<lambda>_. 0)\<rparr>) \<and>
   shown demo_image 2 1 2 0 0 4 (\<lambda>_. 0) 1 = 7 \<and> shown demo_image 2 1 2 0 0 4 (\<lambda>_. 0) 6 = 9 \<and> shown demo_image 2 1 2 0 0 4 (\<lambda>_. 0) 8 = 0"
proof -
  have S: "unat (fb_stride demo_fb) = 4" by (simp add: fb_stride_def demo_fb_def)
  have f: "fb_addr demo_fb \<noteq> 0" "fb_width demo_fb = 4" "fb_height demo_fb = 2" "fb_pix demo_fb = (\<lambda>_. 0)" by (simp_all add: demo_fb_def)
  have "2 = best_scale (unat (2 :: u32)) (unat (1 :: u32)) (unat (fb_width demo_fb)) (unat (fb_height demo_fb))" by (simp add: best_scale_def f)
  from fb_present_exact [OF f(1) _ _ _ _ _ _ _ this, of demo_image]
  have "fb_present_xrgb False demo_image 2 1 demo_fb = Some (demo_fb\<lparr>fb_pix := shown demo_image 2 1 2 0 0 4 (\<lambda>_. 0)\<rparr>)"
    unfolding S f by simp
  moreover have "shown demo_image 2 1 2 0 0 4 (\<lambda>_. 0) 1 = 7" "shown demo_image 2 1 2 0 0 4 (\<lambda>_. 0) 6 = 9" "shown demo_image 2 1 2 0 0 4 (\<lambda>_. 0) 8 = 0"
    by (simp_all add: shown_def demo_image_def)
  ultimately show ?thesis by blast
qed

end
