(* ===== verification/Tty.thy ===== *)
theory Tty
  imports Ring Framebuffer Task
begin

text \<open>
  The terminal and the keyboard: \<^verbatim>\<open>src/lizard/tty.c\<close>, \<^verbatim>\<open>src/lizard/tty.h\<close> and \<^verbatim>\<open>src/lizard/keyboard.c\<close>. Bytes for the
  serial port are a log; polling its line status has no other effect. The one lock of the file is held within an operation only. A read of
  the font or an access of the text buffer outside its bounds is a fault (\<open>None\<close>). The theory shows that output keeps the cursor on the
  grid and every pixel on the screen.
\<close>

section \<open>State\<close>

definition TTY_DEFAULT_COLOR :: u32 where "TTY_DEFAULT_COLOR = 0xFFFFFF"
definition TTY_DEFAULT_BG_COLOR :: u32 where "TTY_DEFAULT_BG_COLOR = 0"
definition TAB_SIZE :: u64 where "TAB_SIZE = 4"
definition TTY_LINE_MAX :: nat where "TTY_LINE_MAX = 256"
definition KEY_BACKSPACE :: u8 where "KEY_BACKSPACE = 0x0E"
definition KEY_ENTER :: u8 where "KEY_ENTER = 0x1C"

record tty =
  tt_width :: u64
  tt_height :: u64
  tt_text_width :: u64
  tt_text_height :: u64
  tt_row :: u64
  tt_column :: u64
  tt_color :: u32
  tt_bg :: u32
  tt_cmd_column :: u64
  tt_cmd_row :: u64
  tt_text :: "u64 \<Rightarrow> u8"
  tt_fb :: fb
  tt_serial :: "u8 list"
  tt_stdin :: ring
  tt_line :: "u8 list"

record kbd =
  kb_ring :: ring
  kb_raw :: bool

section \<open>tty.c: output\<close>

definition tty_init :: "tty \<Rightarrow> tty" where
  "tty_init s =
     (let f = tt_fb s in
      (if fb_addr f \<noteq> 0
       then s\<lparr>tt_width := fb_width f, tt_height := fb_height f,
              tt_text_width := fb_width f div FONT_WIDTH, tt_text_height := fb_height f div FONT_HEIGHT\<rparr>
       else s\<lparr>tt_text_width := 80, tt_text_height := 25, tt_width := 80 * FONT_WIDTH, tt_height := 25 * FONT_HEIGHT\<rparr>)
      \<lparr>tt_row := 0, tt_column := 0, tt_bg := TTY_DEFAULT_BG_COLOR, tt_color := TTY_DEFAULT_COLOR\<rparr>)"

definition tty_scroll :: "tty \<Rightarrow> tty" where
  "tty_scroll s = s\<lparr>tt_fb := scroll_framebuffer (tt_bg s) (ucast FONT_HEIGHT) (tt_fb s), tt_row := tt_row s - 1\<rparr>"

definition is_pos_after_input :: "u32 \<Rightarrow> u32 \<Rightarrow> tty \<Rightarrow> bool" where
  "is_pos_after_input row col s \<longleftrightarrow> ucast row > tt_cmd_row s \<or> ucast row = tt_cmd_row s \<and> ucast col > tt_cmd_column s"

definition is_cursor_after_input :: "tty \<Rightarrow> bool" where
  "is_cursor_after_input s = is_pos_after_input (ucast (tt_row s)) (ucast (tt_column s)) s"

definition tty_clean :: "tty \<Rightarrow> tty" where
  "tty_clean s = s\<lparr>tt_row := 0, tt_column := 0, tt_fb := clear_framebuffer (tt_bg s) (tt_fb s)\<rparr>"

definition tty_putentryat :: "u8 list \<Rightarrow> u8 \<Rightarrow> u32 \<Rightarrow> u64 \<Rightarrow> u64 \<Rightarrow> tty \<Rightarrow> tty option" where
  "tty_putentryat font c color x y s =
     do { f \<leftarrow> draw_char font (tt_bg s) (x * FONT_WIDTH) (y * FONT_HEIGHT) color c (tt_fb s);
          let i = y * tt_text_width s + x;
          if i < 1000000 then Some (s\<lparr>tt_fb := f, tt_text := (tt_text s)(i := c)\<rparr>) else None }"

definition serial_putc :: "u8 \<Rightarrow> tty \<Rightarrow> tty" where
  "serial_putc c s = s\<lparr>tt_serial := tt_serial s @ [c]\<rparr>"

definition tty_breakline :: "tty \<Rightarrow> tty" where
  "tty_breakline s =
     (let s = s\<lparr>tt_row := tt_row s + 1, tt_column := 0\<rparr> in if tt_row s = tt_text_height s then tty_scroll s else s)"

text \<open>The end of \<^verbatim>\<open>tty_putchar\<close>, for a character that is shown. A tab is a run of such characters.\<close>

definition put_shown :: "u8 list \<Rightarrow> u8 \<Rightarrow> tty \<Rightarrow> tty option" where
  "put_shown font c s =
     do { s \<leftarrow> tty_putentryat font c (tt_color s) (tt_column s) (tt_row s) s;
          let s = s\<lparr>tt_column := tt_column s + 1\<rparr>;
          Some (if tt_column s = tt_text_width s then tty_breakline s else s) }"

primrec put_spaces :: "nat \<Rightarrow> u8 list \<Rightarrow> tty \<Rightarrow> tty option" where
  "put_spaces 0 font s = Some s"
| "put_spaces (Suc n) font s = do { s \<leftarrow> put_shown font 32 (serial_putc 32 s); put_spaces n font s }"

definition tty_tab :: "u8 list \<Rightarrow> tty \<Rightarrow> tty option" where
  "tty_tab font s = put_spaces (unat (ucast (TAB_SIZE - tt_column s mod TAB_SIZE) :: u8)) font s"

definition tty_putchar :: "u8 list \<Rightarrow> u8 \<Rightarrow> tty \<Rightarrow> tty option" where
  "tty_putchar font c s =
     (let s = (if c = 10 then serial_putc 13 s else s); s = serial_putc c s in
      if c = 10 then Some (tty_breakline s)
      else if c = 9 then tty_tab font s
      else if c = 12 then Some (tty_clean s)
      else put_shown font c s)"

primrec tty_write :: "u8 list \<Rightarrow> u8 list \<Rightarrow> tty \<Rightarrow> tty option" where
  "tty_write font [] s = Some s"
| "tty_write font (c # cs) s = do { s \<leftarrow> tty_putchar font c s; tty_write font cs s }"

text \<open>The argument is the string without its terminator, which \<^verbatim>\<open>strlen\<close> finds.\<close>

definition tty_writestring :: "u8 list \<Rightarrow> u8 list \<Rightarrow> tty \<Rightarrow> tty option" where
  "tty_writestring font cs s = tty_write font cs s"

definition tty_backspace :: "u8 list \<Rightarrow> tty \<Rightarrow> tty option" where
  "tty_backspace font s =
     (if is_cursor_after_input s
      then do { s \<leftarrow> tty_putentryat font 32 (tt_color s) (tt_column s - 1) (tt_row s) s;
                let s = s\<lparr>tt_column := tt_column s - 1\<rparr>;
                Some (if tt_column s = 0 then s\<lparr>tt_column := tt_text_width s, tt_row := tt_row s - 1\<rparr> else s) }
      else Some s)"

section \<open>tty.c: input\<close>

definition is_ascii_character :: "u8 \<Rightarrow> bool" where
  "is_ascii_character c \<longleftrightarrow> 32 \<le> c \<and> c \<le> 126"

definition convertScancode :: "u8 list" where
  "convertScancode =
    [0, 27, 49, 50, 51, 52, 53, 54, 55, 56, 57, 48, 45, 61, 8, 9, 113, 119, 101, 114,
     116, 121, 117, 105, 111, 112, 91, 93, 10, 0, 97, 115, 100, 102, 103, 104, 106, 107, 108, 59,
     39, 96, 0, 92, 122, 120, 99, 118, 98, 110, 109, 44, 46, 47, 0, 42, 0, 32, 0, 0,
     0, 0, 0, 0, 0, 0, 0, 0, 0, 0, 0, 0, 0, 0, 45, 0, 0, 0, 43, 0,
     0, 0, 0, 0, 0, 0, 0, 0, 0, 0, 0, 0, 0, 0, 0, 0, 0, 0, 0, 0,
     0, 0, 0, 0, 0, 0, 0, 0, 0, 0, 0, 0, 0, 0, 0, 0, 0, 0, 0, 0,
     0, 0, 0, 0, 0, 0, 0, 0]"

definition tty_handler_input :: "u8 list \<Rightarrow> u8 \<Rightarrow> tty \<times> ksys \<Rightarrow> (tty \<times> ksys) option" where
  "tty_handler_input font scancode = (\<lambda>(s, k).
     if scancode = KEY_BACKSPACE
     then if tt_line s \<noteq> [] then do { s \<leftarrow> tty_backspace font (s\<lparr>tt_line := butlast (tt_line s)\<rparr>); Some (s, k) } else Some (s, k)
     else if scancode = KEY_ENTER
     then do { let s = tty_breakline s;
               let s = s\<lparr>tt_stdin := stdin_push 10 (fold stdin_push (tt_line s) (tt_stdin s))\<rparr>;
               (n, k) \<leftarrow> task_wake_all WAIT_INPUT k;
               Some (s\<lparr>tt_line := []\<rparr>, k) }
     else if scancode < 0x80
     then let c = convertScancode ! unat scancode in
          if is_ascii_character c \<and> length (tt_line s) < TTY_LINE_MAX - 1
          then do { s \<leftarrow> tty_putchar font c (s\<lparr>tt_line := tt_line s @ [c]\<rparr>);
                    Some (if tt_column s = tt_text_width s then tty_breakline s else s, k) }
          else Some (s, k)
     else Some (s, k))"

section \<open>keyboard.c\<close>

definition keyboard_set_raw :: "bool \<Rightarrow> kbd \<Rightarrow> kbd" where
  "keyboard_set_raw on b =
     (let b = b\<lparr>kb_raw := on\<rparr> in if on then b else b\<lparr>kb_ring := (kb_ring b)\<lparr>rg_tail := rg_head (kb_ring b)\<rparr>\<rparr>)"

text \<open>The interrupt handler drains the controller; the argument is what its data port yields until the buffer is empty.\<close>

fun isr_keyboard :: "u8 list \<Rightarrow> u8 list \<Rightarrow> tty \<times> ksys \<times> kbd \<Rightarrow> (tty \<times> ksys \<times> kbd) option" where
  "isr_keyboard font [] st = Some st"
| "isr_keyboard font (sc # scs) (s, k, b) =
     (if kb_raw b then isr_keyboard font scs (s, k, b\<lparr>kb_ring := kbd_ring_push sc (kb_ring b)\<rparr>)
      else do { (s, k) \<leftarrow> tty_handler_input font sc (s, k); isr_keyboard font scs (s, k, b) })"

section \<open>Drawing stays on the screen\<close>

definition screen_ok :: "fb \<Rightarrow> bool" where
  "screen_ok f \<longleftrightarrow> fb_addr f \<noteq> 0 \<longrightarrow> unat (fb_width f) < 2 ^ 31 \<and> unat (fb_height f) < 2 ^ 31 \<and> unat (fb_width f) \<le> unat (fb_stride f)"

definition on_screen :: "fb \<Rightarrow> fb \<Rightarrow> bool" where
  "on_screen f f' \<longleftrightarrow> f' = f\<lparr>fb_pix := fb_pix f'\<rparr> \<and> (\<forall>i. unat (fb_height f) * unat (fb_stride f) \<le> unat i \<longrightarrow> fb_pix f' i = fb_pix f i)"

lemma on_screen_refl: "on_screen f f"
  by (simp add: on_screen_def)

lemma on_screen_fields:
  assumes "on_screen f f'"
  shows "fb_addr f' = fb_addr f" "fb_width f' = fb_width f" "fb_height f' = fb_height f" "fb_stride f' = fb_stride f" "screen_ok f' = screen_ok f"
proof -
  obtain p where "f' = f\<lparr>fb_pix := p\<rparr>" using assms by (auto simp: on_screen_def)
  then show "fb_addr f' = fb_addr f" "fb_width f' = fb_width f" "fb_height f' = fb_height f" "fb_stride f' = fb_stride f" "screen_ok f' = screen_ok f"
    by (simp_all add: fb_stride_def screen_ok_def)
qed

lemma on_screen_trans: "on_screen f g \<Longrightarrow> on_screen g e \<Longrightarrow> on_screen f e"
proof -
  assume fg: "on_screen f g" and ge: "on_screen g e"
  obtain p where g: "g = f\<lparr>fb_pix := p\<rparr>" using fg by (auto simp: on_screen_def)
  obtain q where e: "e = g\<lparr>fb_pix := q\<rparr>" using ge by (auto simp: on_screen_def)
  show ?thesis using fg ge on_screen_fields(3,4) [OF fg] unfolding on_screen_def by (simp add: g e)
qed

lemma on_screen_fold:
  assumes "\<And>x f'. x \<in> set xs \<Longrightarrow> on_screen f f' \<Longrightarrow> on_screen f' (h x f')"
  shows "on_screen f (fold h xs f)"
proof -
  have "on_screen f f' \<Longrightarrow> on_screen f (fold h xs f')" for f'
    using assms
  proof (induction xs arbitrary: f')
    case (Cons a xs)
    have "on_screen f (h a f')" by (rule on_screen_trans [OF Cons.prems(1)]) (rule Cons.prems(2) [OF _ Cons.prems(1)], simp)
    then show ?case using Cons.IH Cons.prems(2) by simp
  qed simp
  then show ?thesis using on_screen_refl by blast
qed

lemma draw_pixel_on_screen:
  assumes "screen_ok f" "fb_addr f \<noteq> 0 \<Longrightarrow> unat x < unat (fb_width f) \<and> unat y < unat (fb_height f)"
  shows "on_screen f (draw_pixel x y color f)"
proof (cases "fb_addr f = 0")
  case False
  let ?S = "unat (fb_stride f)" and ?H = "unat (fb_height f)"
  have xy: "unat x < ?S" "unat y < ?H" "?H < 2 ^ 31" using assms False by (auto simp: screen_ok_def)
  have S: "?S < 2 ^ 32" by (simp add: fb_stride_def unat_div_distrib) (use unat_lt2p [of "fb_pitch f"] in simp)
  have "Suc (unat y) * ?S \<le> ?H * ?S" using xy(2) by (intro mult_le_mono1) simp
  then have lt: "unat y * ?S + unat x < ?H * ?S" using xy(1) by simp
  have HS: "?H * ?S \<le> 2 ^ 31 * 2 ^ 32" using xy(3) S by (intro mult_le_mono) simp_all
  then have "unat y * ?S < 2 ^ 64" "unat y * ?S + unat x < 2 ^ 64" using lt by simp_all
  then have "unat (y * fb_stride f) = unat y * ?S" "unat (y * fb_stride f + x) = unat y * ?S + unat x"
    using unat_mult_lem [of y "fb_stride f"] unat_add_lem [of "y * fb_stride f" x] by simp_all
  then show ?thesis using False lt by (auto simp: on_screen_def draw_pixel_def)
qed (simp add: draw_pixel_def on_screen_refl)

lemma clear_on_screen:
  assumes "screen_ok f"
  shows "on_screen f (clear_framebuffer bg f)"
  unfolding clear_framebuffer_def
proof (intro on_screen_fold)
  fix y f1 x f2
  assume y: "y \<in> set [0..<unat (fb_height f)]" and f1: "on_screen f f1" and x: "x \<in> set [0..<unat (fb_width f1)]" and f2: "on_screen f1 f2"
  have "unat (of_nat x :: u64) = x" "unat (of_nat y :: u64) = y"
    using x y unat_lt2p [of "fb_width f1"] unat_lt2p [of "fb_height f"] by (simp_all add: unat_of_nat mod_less)
  then show "on_screen f2 (draw_pixel (of_nat x) (of_nat y) bg f2)"
    using x y on_screen_fields [OF f1] on_screen_fields [OF f2] assms by (intro draw_pixel_on_screen) simp_all
qed

lemma scroll_on_screen:
  assumes "screen_ok f"
  shows "on_screen f (scroll_framebuffer bg n f)"
proof (cases "fb_addr f = 0 \<or> n = 0 \<or> ucast n \<ge> fb_height f")
  case False
  let ?W = "unat (fb_width f)" and ?H = "unat (fb_height f)"
  let ?off = "ucast (ucast n * fb_width f) :: u32" and ?mv = "ucast ((fb_height f - ucast n) * fb_width f) :: u32"
  have n: "unat n < ?H" using False by (simp add: word_le_nat_alt not_le)
  have WH: "?W < 2 ^ 31" "?H < 2 ^ 31" "?W \<le> unat (fb_stride f)" using assms False by (auto simp: screen_ok_def)
  have low: "unat (ucast z :: u32) \<le> unat z" for z :: u64 by (simp add: unsigned_ucast_eq take_bit_eq_mod)
  have le_mult: "unat (a * b) \<le> unat a * unat b" for a b :: u64 by (metis mod_less_eq_dividend unat_word_ariths(2))
  have "unat ?off \<le> unat n * ?W" using low [of "ucast n * fb_width f"] le_mult [of "ucast n" "fb_width f"] by simp
  moreover have "unat ?mv \<le> (?H - unat n) * ?W"
    using low [of "(fb_height f - ucast n) * fb_width f"] le_mult [of "fb_height f - ucast n" "fb_width f"] n
    by (simp add: unat_sub word_le_nat_alt)
  moreover have "(?H - unat n) * ?W + unat n * ?W = ?H * ?W" using n by (simp add: diff_mult_distrib)
  ultimately have s: "unat ?mv + unat ?off \<le> ?H * ?W" by linarith
  have HW: "?H * ?W \<le> ?H * unat (fb_stride f)" using WH(3) by (rule mult_le_mono2)
  have "\<not> i < ucast ?mv \<and> \<not> i - ucast ?mv < ucast ?off" if "?H * unat (fb_stride f) \<le> unat i" for i :: u64
  proof -
    have "unat ?mv + unat ?off \<le> unat i" using that s HW by linarith
    then have "ucast ?mv \<le> i" "unat (i - ucast ?mv) = unat i - unat ?mv" "unat ?off \<le> unat i - unat ?mv" by (simp_all add: word_le_nat_alt unat_sub)
    then show ?thesis by (simp add: word_less_nat_alt not_less word_le_nat_alt)
  qed
  then show ?thesis using False by (simp add: scroll_framebuffer_def on_screen_def Let_def)
qed (auto simp: scroll_framebuffer_def on_screen_refl)

section \<open>The cursor stays on the grid\<close>

definition grid_ok :: "tty \<Rightarrow> bool" where
  "grid_ok s \<longleftrightarrow> unat (tt_text_width s) * unat (tt_text_height s) \<le> 1000000 \<and>
     unat (tt_row s) < unat (tt_text_height s) \<and> unat (tt_column s) < unat (tt_text_width s) \<and> screen_ok (tt_fb s) \<and>
     (fb_addr (tt_fb s) \<noteq> 0 \<longrightarrow> unat (tt_text_width s) * 8 \<le> unat (fb_width (tt_fb s)) \<and> unat (tt_text_height s) * 16 \<le> unat (fb_height (tt_fb s)))"

definition kept_tty :: "tty \<Rightarrow> tty \<Rightarrow> bool" where
  "kept_tty s s' \<longleftrightarrow> grid_ok s' \<and> on_screen (tt_fb s) (tt_fb s') \<and> tt_text_width s' = tt_text_width s \<and> tt_text_height s' = tt_text_height s"

lemma kept_tty_trans: "kept_tty s t \<Longrightarrow> kept_tty t u \<Longrightarrow> kept_tty s u"
  using on_screen_trans by (auto simp: kept_tty_def)

lemma scast_ascii: "(scast c :: u64) = ucast c" if "c < 128" for c :: u8
proof -
  have "unat c < 128" using that by (simp add: word_less_nat_alt)
  then have "\<not> bit (unat c) 7" by (simp add: bit_iff_odd)
  then have "\<not> bit c 7" by (simp add: bit_unsigned_iff)
  then show ?thesis by (intro bit_eqI) (auto simp: bit_word_scast_iff bit_simps)
qed

lemma glyph_row_ascii:
  assumes "c < 128" "2048 \<le> length font" "y < 16"
  shows "\<exists>r. glyph_row font c y = Some r"
proof -
  have c: "unat c < 128" using assms(1) by (simp add: word_less_nat_alt)
  have y: "unat (of_nat y :: u64) = y" using assms(3) by (simp add: unat_of_nat mod_less)
  have "unat (ucast c :: u64) = unat c" using unat_lt2p [of c] by (simp add: unsigned_ucast_eq take_bit_eq_mod mod_less)
  then have "unat (scast c * 16 :: u64) = unat c * 16" using c unat_mult_lem [of "ucast c :: u64" 16] by (simp add: scast_ascii [OF assms(1)])
  then have "unat (scast c * FONT_HEIGHT + of_nat y :: u64) = unat c * 16 + y"
    using c y assms(3) unat_add_lem [of "scast c * 16 :: u64" "of_nat y"] by (simp add: FONT_HEIGHT_def)
  then show ?thesis using c assms by (simp add: glyph_row_def Let_def)
qed

lemma draw_row_on_screen:
  assumes "screen_ok f" "fb_addr f \<noteq> 0 \<Longrightarrow> unat x + 8 \<le> unat (fb_width f) \<and> unat y < unat (fb_height f)"
  shows "on_screen f (draw_row x y color bg row_data f)"
  unfolding draw_row_def
proof (rule on_screen_fold)
  fix i f' assume i: "i \<in> set [0..<8 :: nat]" and f': "on_screen f f'"
  show "on_screen f' (draw_pixel (x + of_nat i) y (if bit row_data (7 - i) then color else bg) f')"
  proof (rule draw_pixel_on_screen)
    show "screen_ok f'" using assms(1) on_screen_fields [OF f'] by simp
    assume "fb_addr f' \<noteq> 0"
    then have a: "unat x + 8 \<le> unat (fb_width f)" "unat y < unat (fb_height f)" "unat (fb_width f) < 2 ^ 31"
      using assms on_screen_fields [OF f'] by (auto simp: screen_ok_def)
    have "unat (of_nat i :: u64) = i" using i by (simp add: unat_of_nat mod_less)
    then have "unat (x + of_nat i) = unat x + i" using a i unat_add_lem [of x "of_nat i"] by simp
    then show "unat (x + of_nat i) < unat (fb_width f') \<and> unat y < unat (fb_height f')" using a i on_screen_fields [OF f'] by simp
  qed
qed

lemma draw_rows_on_screen:
  assumes "c < 128" "2048 \<le> length font"
  shows "set ys \<subseteq> {..<16} \<Longrightarrow> screen_ok f \<Longrightarrow> (fb_addr f \<noteq> 0 \<Longrightarrow> unat xi + 8 \<le> unat (fb_width f) \<and> unat yi + 16 \<le> unat (fb_height f)) \<Longrightarrow>
    \<exists>f'. draw_rows ys font bg xi yi color c f = Some f' \<and> on_screen f f'"
proof (induction ys arbitrary: f)
  case (Cons y ys)
  obtain r where r: "glyph_row font c y = Some r" using glyph_row_ascii [OF assms, of y] Cons.prems(1) by auto
  let ?f = "draw_row xi (yi + of_nat y) color bg r f"
  have "on_screen f ?f"
  proof (rule draw_row_on_screen [OF Cons.prems(2)])
    assume a: "fb_addr f \<noteq> 0"
    have "unat (of_nat y :: u64) = y" using Cons.prems(1) by (simp add: unat_of_nat mod_less)
    moreover have "unat (fb_height f) < 2 ^ 31" using Cons.prems(2) a by (simp add: screen_ok_def)
    ultimately have "unat (yi + of_nat y) = unat yi + y" using Cons.prems(1) Cons.prems(3) [OF a] unat_add_lem [of yi "of_nat y"] by simp
    then show "unat xi + 8 \<le> unat (fb_width f) \<and> unat (yi + of_nat y) < unat (fb_height f)" using Cons.prems(1) Cons.prems(3) [OF a] by simp
  qed
  then have o: "on_screen f ?f" "screen_ok ?f" "fb_addr ?f = fb_addr f" "fb_width ?f = fb_width f" "fb_height ?f = fb_height f"
    using on_screen_fields Cons.prems(2) by blast+
  obtain f' where "draw_rows ys font bg xi yi color c ?f = Some f'" "on_screen ?f f'"
    using Cons.IH [OF _ o(2)] Cons.prems o by auto
  then show ?case using r on_screen_trans [OF o(1)] by auto
qed (simp add: on_screen_refl)

lemma breakline_kept:
  assumes "grid_ok s"
  shows "kept_tty s (tty_breakline s)"
proof -
  have r: "unat (tt_row s) < unat (tt_text_height s)" using assms by (simp add: grid_ok_def)
  then have n: "unat (tt_row s + 1) = unat (tt_row s) + 1" using unat_lt2p [of "tt_text_height s"] unat_add_lem [of "tt_row s" 1] by simp
  have sc: "on_screen (tt_fb s) (scroll_framebuffer (tt_bg s) (ucast FONT_HEIGHT) (tt_fb s))" using assms by (intro scroll_on_screen) (simp add: grid_ok_def)
  show ?thesis
  proof (cases "tt_row s + 1 = tt_text_height s")
    case True
    then have "tt_text_height s - 1 = tt_row s" by (metis add_diff_cancel_right')
    then show ?thesis using assms True sc on_screen_fields [OF sc] by (auto simp: tty_breakline_def tty_scroll_def kept_tty_def grid_ok_def Let_def)
  next
    case False
    then have "unat (tt_row s + 1) < unat (tt_text_height s)" using n r by (metis Suc_eq_plus1 less_antisym not_less_eq word_unat_eq_iff)
    then show ?thesis using assms False on_screen_refl by (auto simp: tty_breakline_def kept_tty_def grid_ok_def Let_def)
  qed
qed

lemma put_shown_kept:
  assumes "grid_ok s" "c < 128" "2048 \<le> length font"
  shows "\<exists>s'. put_shown font c s = Some s' \<and> kept_tty s s'"
proof -
  let ?w = "unat (tt_text_width s)" and ?h = "unat (tt_text_height s)" and ?x = "tt_column s" and ?y = "tt_row s"
  have g: "?w * ?h \<le> 1000000" "unat ?y < ?h" "unat ?x < ?w" "screen_ok (tt_fb s)" using assms(1) by (simp_all add: grid_ok_def)
  have "0 < ?w" "0 < ?h" using g(2,3) by linarith+
  then have "?h \<le> ?w * ?h" "?w \<le> ?w * ?h" by simp_all
  then have wh: "?h \<le> 1000000" "?w \<le> 1000000" using g(1) by linarith+
  have x8: "unat (?x * FONT_WIDTH) = unat ?x * 8" "unat (?y * FONT_HEIGHT) = unat ?y * 16"
    using wh g unat_mult_lem [of ?x 8] unat_mult_lem [of ?y 16] by (simp_all add: FONT_WIDTH_def FONT_HEIGHT_def)
  have "\<exists>f. draw_char font (tt_bg s) (?x * FONT_WIDTH) (?y * FONT_HEIGHT) (tt_color s) c (tt_fb s) = Some f \<and> on_screen (tt_fb s) f"
  proof (cases "fb_addr (tt_fb s) = 0")
    case False
    then have f: "?w * 8 \<le> unat (fb_width (tt_fb s))" "?h * 16 \<le> unat (fb_height (tt_fb s))" using assms(1) by (simp_all add: grid_ok_def)
    then have "unat (?x * FONT_WIDTH) + 8 \<le> unat (fb_width (tt_fb s))" "unat (?y * FONT_HEIGHT) + 16 \<le> unat (fb_height (tt_fb s))"
      using g unfolding x8 by linarith+
    then have "\<exists>f. draw_rows [0..<16] font (tt_bg s) (?x * FONT_WIDTH) (?y * FONT_HEIGHT) (tt_color s) c (tt_fb s) = Some f \<and> on_screen (tt_fb s) f"
      by (intro draw_rows_on_screen [OF assms(2,3) _ g(4)]) auto
    then show ?thesis using False by (simp add: draw_char_def)
  qed (simp add: draw_char_def on_screen_refl)
  then obtain f where f: "draw_char font (tt_bg s) (?x * FONT_WIDTH) (?y * FONT_HEIGHT) (tt_color s) c (tt_fb s) = Some f" "on_screen (tt_fb s) f" by blast
  have "Suc (unat ?y) * ?w \<le> ?h * ?w" using g(2) by (intro mult_le_mono1) simp
  then have i: "unat ?y * ?w + unat ?x < 1000000" using g by (simp add: mult.commute)
  then have "unat (?y * tt_text_width s) = unat ?y * ?w" using unat_mult_lem [of ?y "tt_text_width s"] by simp
  then have "unat (?y * tt_text_width s + ?x) = unat ?y * ?w + unat ?x" using i unat_add_lem [of "?y * tt_text_width s" ?x] by simp
  then have idx: "?y * tt_text_width s + ?x < 1000000" using i by (simp add: word_less_nat_alt)
  let ?s1 = "s\<lparr>tt_fb := f, tt_text := (tt_text s)(?y * tt_text_width s + ?x := c)\<rparr>"
  have put: "tty_putentryat font c (tt_color s) ?x ?y s = Some ?s1" using f(1) idx by (simp add: tty_putentryat_def)
  have k1: "kept_tty s ?s1" using assms(1) f(2) on_screen_fields [OF f(2)] by (auto simp: kept_tty_def grid_ok_def)
  have c1: "unat (?x + 1) = unat ?x + 1" using g(3) wh unat_add_lem [of ?x 1] by simp
  let ?s2 = "?s1\<lparr>tt_column := ?x + 1\<rparr>"
  have p2: "put_shown font c s = Some (if ?x + 1 = tt_text_width s then tty_breakline ?s2 else ?s2)" using put by (simp add: put_shown_def Let_def)
  show ?thesis
  proof (cases "?x + 1 = tt_text_width s")
    case True
    have e: "tty_breakline ?s2 = tty_breakline ?s1" by (simp add: tty_breakline_def)
    have "kept_tty ?s1 (tty_breakline ?s1)" using k1 by (intro breakline_kept) (simp add: kept_tty_def)
    then have "kept_tty s (tty_breakline ?s1)" by (rule kept_tty_trans [OF k1])
    moreover have "put_shown font c s = Some (tty_breakline ?s1)" using p2 unfolding if_P [OF True] e .
    ultimately show ?thesis by blast
  next
    case False
    then have "unat (?x + 1) < ?w" using c1 g(3) by (metis Suc_eq_plus1 less_antisym not_less_eq word_unat_eq_iff)
    then have "kept_tty s ?s2" using k1 by (auto simp: kept_tty_def grid_ok_def)
    then show ?thesis using p2 False by auto
  qed
qed

lemma serial_kept: "kept_tty (serial_putc c s) s' = kept_tty s s'" "grid_ok (serial_putc c s) = grid_ok s"
  by (simp_all add: kept_tty_def grid_ok_def serial_putc_def)

lemma clean_kept: "grid_ok s \<Longrightarrow> kept_tty s (tty_clean s)"
proof -
  assume g: "grid_ok s"
  then have sc: "on_screen (tt_fb s) (clear_framebuffer (tt_bg s) (tt_fb s))" by (intro clear_on_screen) (simp add: grid_ok_def)
  have "0 < unat (tt_text_height s)" "0 < unat (tt_text_width s)" using g by (auto simp: grid_ok_def)
  then show ?thesis using g sc on_screen_fields [OF sc] by (auto simp: tty_clean_def kept_tty_def grid_ok_def)
qed

lemma put_spaces_kept:
  assumes "2048 \<le> length font"
  shows "grid_ok s \<Longrightarrow> \<exists>s'. put_spaces n font s = Some s' \<and> kept_tty s s'"
proof (induction n arbitrary: s)
  case 0
  then show ?case by (simp add: kept_tty_def on_screen_refl)
next
  case (Suc n)
  obtain s1 where s1: "put_shown font 32 (serial_putc 32 s) = Some s1" "kept_tty s s1"
    using put_shown_kept [of "serial_putc 32 s" 32, OF _ _ assms] Suc.prems serial_kept by auto
  then obtain s2 where "put_spaces n font s1 = Some s2" "kept_tty s1 s2" using Suc.IH [of s1] by (auto simp: kept_tty_def)
  then show ?case using s1 kept_tty_trans [OF s1(2)] by auto
qed

lemma putchar_kept:
  assumes "grid_ok s" "c < 128" "2048 \<le> length font"
  shows "\<exists>s'. tty_putchar font c s = Some s' \<and> kept_tty s s'"
proof -
  define t where "t = serial_putc c (if c = 10 then serial_putc 13 s else s)"
  have t: "grid_ok t" "kept_tty t u = kept_tty s u" for u using assms(1) by (simp_all add: t_def serial_kept)
  have "tty_putchar font c s = (if c = 10 then Some (tty_breakline t) else if c = 9 then tty_tab font t else if c = 12 then Some (tty_clean t) else put_shown font c t)"
    by (simp add: tty_putchar_def t_def Let_def)
  then show ?thesis
    using breakline_kept [OF t(1)] clean_kept [OF t(1)] put_shown_kept [OF t(1) assms(2,3)] put_spaces_kept [OF assms(3) t(1)]
    unfolding t(2) tty_tab_def by (cases "c = 10"; cases "c = 9"; cases "c = 12") auto
qed

text \<open>
  Property C37. Terminal output stays in bounds: with the cursor on the grid and a screen at least as large as the grid, any ASCII text
  is written without a fault, the cursor is on the grid afterwards, and no word behind the screen is written, scrolling, tabs, new lines and
  form feeds included.
\<close>

theorem tty_write_in_bounds:
  assumes "grid_ok s" "list_all (\<lambda>c. c < 128) cs" "2048 \<le> length font"
  shows "\<exists>s'. tty_write font cs s = Some s' \<and> grid_ok s' \<and> tt_text_width s' = tt_text_width s \<and> tt_text_height s' = tt_text_height s \<and>
    on_screen (tt_fb s) (tt_fb s')"
proof -
  have "\<exists>s'. tty_write font cs s = Some s' \<and> kept_tty s s'"
    using assms(1,2)
  proof (induction cs arbitrary: s)
    case Nil
    then show ?case by (simp add: kept_tty_def on_screen_refl)
  next
    case (Cons c cs)
    obtain s1 where s1: "tty_putchar font c s = Some s1" "kept_tty s s1" using putchar_kept [OF Cons.prems(1) _ assms(3)] Cons.prems(2) by auto
    then obtain s2 where "tty_write font cs s1 = Some s2" "kept_tty s1 s2" using Cons.IH [of s1] Cons.prems(2) by (auto simp: kept_tty_def)
    then show ?case using s1 kept_tty_trans [OF s1(2)] by auto
  qed
  then show ?thesis by (auto simp: kept_tty_def)
qed

text \<open>A serial console of eighty by twenty-five characters.\<close>

definition demo_tty :: tty where
  "demo_tty = tty_init \<lparr>tt_width = 0, tt_height = 0, tt_text_width = 0, tt_text_height = 0, tt_row = 0, tt_column = 0, tt_color = 0, tt_bg = 0,
     tt_cmd_column = 0, tt_cmd_row = 0, tt_text = (\<lambda>_. 0),
     tt_fb = \<lparr>fb_addr = 0, fb_height = 0, fb_width = 0, fb_pitch = 0, fb_length = 0, fb_pix = (\<lambda>_. 0)\<rparr>,
     tt_serial = [], tt_stdin = \<lparr>rg_buf = (\<lambda>_. 0), rg_head = 0, rg_tail = 0\<rparr>, tt_line = []\<rparr>"

lemma demo_tty_ok: "grid_ok demo_tty" "tt_text_width demo_tty = 80" "fb_addr (tt_fb demo_tty) = 0"
  by (simp_all add: demo_tty_def tty_init_def grid_ok_def screen_ok_def Let_def)

theorem tty_write_in_bounds_witness:
  "\<exists>s'. tty_write (replicate 4096 0) [104, 9, 105, 10] demo_tty = Some s' \<and> grid_ok s'"
proof -
  have "list_all (\<lambda>c. c < 128) [104, 9, 105, 10 :: u8]" "2048 \<le> length (replicate 4096 (0 :: u8))" by simp_all
  then show ?thesis using tty_write_in_bounds [OF demo_tty_ok(1)] by blast
qed

text \<open>
  A backspace in column 1 takes the cursor off the grid: the code goes to the line above and to the column behind its last
  one, where the test for the end of the line never holds again.
\<close>

theorem tty_backspace_off_grid:
  assumes "grid_ok s" "tt_column s = 1" "is_cursor_after_input s" "2048 \<le> length font"
  shows "\<exists>s'. tty_backspace font s = Some s' \<and> tt_column s' = tt_text_width s' \<and> \<not> grid_ok s'"
proof -
  have g: "grid_ok (s\<lparr>tt_column := 0\<rparr>)" using assms(1,2) by (auto simp: grid_ok_def)
  obtain s1 where "put_shown font 32 (s\<lparr>tt_column := 0\<rparr>) = Some s1" using put_shown_kept [OF g _ assms(4), of 32] by auto
  then obtain s2 where "tty_putentryat font 32 (tt_color s) 0 (tt_row s) (s\<lparr>tt_column := 0\<rparr>) = Some s2" by (auto simp: put_shown_def bind_eq_Some_conv)
  then have "\<exists>f. draw_char font (tt_bg s) (0 * FONT_WIDTH) (tt_row s * FONT_HEIGHT) (tt_color s) 32 (tt_fb s) = Some f" "tt_row s * tt_text_width s + 0 < 1000000"
    by (auto simp: tty_putentryat_def bind_eq_Some_conv Let_def split: if_splits)
  then obtain s3 where s3: "tty_putentryat font 32 (tt_color s) 0 (tt_row s) s = Some s3" "tt_column s3 = 1" "tt_text_width s3 = tt_text_width s"
    using assms(2) by (auto simp: tty_putentryat_def)
  then show ?thesis using assms(2,3) by (simp add: tty_backspace_def Let_def grid_ok_def)
qed

theorem tty_backspace_off_grid_witness:
  "\<exists>s'. tty_backspace (replicate 4096 0) (demo_tty\<lparr>tt_column := 1, tt_row := 1\<rparr>) = Some s' \<and> tt_column s' = tt_text_width s' \<and> \<not> grid_ok s'"
proof -
  have "grid_ok (demo_tty\<lparr>tt_column := 1, tt_row := 1\<rparr>)" "is_cursor_after_input (demo_tty\<lparr>tt_column := 1, tt_row := 1\<rparr>)"
    by (simp_all add: demo_tty_def tty_init_def grid_ok_def screen_ok_def Let_def is_cursor_after_input_def is_pos_after_input_def)
  then show ?thesis using tty_backspace_off_grid [of "demo_tty\<lparr>tt_column := 1, tt_row := 1\<rparr>" "replicate 4096 0"] by simp
qed

end
