(* ===== verification/Syscall.thy ===== *)
theory Syscall
  imports Loader Tty Ktime
begin

text \<open>
  System calls: \<^verbatim>\<open>src/lizard/syscall.c\<close> with \<^verbatim>\<open>src/abi/syscall.h\<close> and \<^verbatim>\<open>src/abi/errno.h\<close>. The state joins the tasks and
  the file system with the terminal, the keyboard and the clock. The caller's memory is reached through the address space that is live during the call:
  every access goes through the page tables of the current task to a byte of the kernel's memory, and an address that is not canonical or not mapped is
  a fault (\<open>None\<close>), for the kernel has no handler that would recover from it. A range handed on to another component is read as a whole before
  and written as a whole behind the call. A \<^verbatim>\<open>long\<close> is a word; results are the integers it stands for.
\<close>

section \<open>Numbers of the ABI\<close>

definition EPERM :: int where "EPERM = 1"
definition ENOENT :: int where "ENOENT = 2"
definition EIO :: int where "EIO = 5"
definition EBADF :: int where "EBADF = 9"
definition ENOMEM :: int where "ENOMEM = 12"
definition EFAULT :: int where "EFAULT = 14"
definition EEXIST :: int where "EEXIST = 17"
definition ENOTDIR :: int where "ENOTDIR = 20"
definition EISDIR :: int where "EISDIR = 21"
definition ERANGE :: int where "ERANGE = 34"
definition ENAMETOOLONG :: int where "ENAMETOOLONG = 36"
definition ENOSYS :: int where "ENOSYS = 38"
definition ENOTEMPTY :: int where "ENOTEMPTY = 39"

definition SYS_exit :: u64 where "SYS_exit = 0"
definition SYS_write :: u64 where "SYS_write = 1"
definition SYS_read :: u64 where "SYS_read = 2"
definition SYS_sleep :: u64 where "SYS_sleep = 3"
definition SYS_getpid :: u64 where "SYS_getpid = 4"
definition SYS_open :: u64 where "SYS_open = 5"
definition SYS_close :: u64 where "SYS_close = 6"
definition SYS_lseek :: u64 where "SYS_lseek = 7"
definition SYS_fb_info :: u64 where "SYS_fb_info = 8"
definition SYS_fb_blit :: u64 where "SYS_fb_blit = 9"
definition SYS_key_get :: u64 where "SYS_key_get = 10"
definition SYS_uptime_ms :: u64 where "SYS_uptime_ms = 11"
definition SYS_spawn :: u64 where "SYS_spawn = 12"
definition SYS_waitpid :: u64 where "SYS_waitpid = 13"
definition SYS_yield :: u64 where "SYS_yield = 14"
definition SYS_readdir :: u64 where "SYS_readdir = 15"
definition SYS_chdir :: u64 where "SYS_chdir = 16"
definition SYS_getcwd :: u64 where "SYS_getcwd = 17"
definition SYS_mkdir :: u64 where "SYS_mkdir = 18"
definition SYS_unlink :: u64 where "SYS_unlink = 19"
definition SYS_rmdir :: u64 where "SYS_rmdir = 20"

definition LZ_SEEK_SET :: u64 where "LZ_SEEK_SET = 0"
definition LZ_SEEK_CUR :: u64 where "LZ_SEEK_CUR = 1"
definition LZ_SEEK_END :: u64 where "LZ_SEEK_END = 2"

definition BOOT_HHDM_BASE :: u64 where "BOOT_HHDM_BASE = 0xFFFF800000000000"
definition SPAWN_MAX_ARGS :: nat where "SPAWN_MAX_ARGS = 32"
definition S_IFDIR_MASK :: u32 where "S_IFDIR_MASK = 0x4000"

abbreviation sizeof_fb_info :: u64 where "sizeof_fb_info \<equiv> 16"
abbreviation sizeof_dirent :: u64 where "sizeof_dirent \<equiv> 280"

section \<open>State\<close>

record 'h lizard =
  lz_kern :: "'h kern"
  lz_tty :: tty
  lz_kbd :: kbd
  lz_time :: time_state

text \<open>How a call ends: with a result, with the caller blocked in a loop that is entered again when it runs, or never.\<close>

datatype outcome = Ret int | Retry | Gone

type_synonym 'h handler = "'h lizard \<Rightarrow> (outcome \<times> 'h lizard) option"

abbreviation lz_sys :: "'h lizard \<Rightarrow> ksys" where "lz_sys s \<equiv> kn_sys (lz_kern s)"

definition on_kern :: "('h kern \<Rightarrow> ('a \<times> 'h kern) option) \<Rightarrow> 'h lizard \<Rightarrow> ('a \<times> 'h lizard) option" where
  "on_kern f s = do { (r, k) \<leftarrow> f (lz_kern s); Some (r, s\<lparr>lz_kern := k\<rparr>) }"

definition on_vfs :: "('h vfs \<Rightarrow> ('a \<times> 'h vfs) option) \<Rightarrow> 'h lizard \<Rightarrow> ('a \<times> 'h lizard) option" where
  "on_vfs f s = on_kern (in_vfs f) s"

definition on_sys :: "(ksys \<Rightarrow> ksys option) \<Rightarrow> 'h lizard \<Rightarrow> 'h lizard option" where
  "on_sys f s = do { k \<leftarrow> in_sys f (lz_kern s); Some (s\<lparr>lz_kern := k\<rparr>) }"

definition on_unit :: "('h vfs \<Rightarrow> 'h vfs option) \<Rightarrow> 'h lizard \<Rightarrow> 'h lizard option" where
  "on_unit f s = do { (_, s) \<leftarrow> on_vfs (\<lambda>v. do { v \<leftarrow> f v; Some ((), v) }) s; Some s }"

section \<open>The caller's memory\<close>

definition canonical :: "u64 \<Rightarrow> bool" where
  "canonical a \<longleftrightarrow> a < 0x800000000000 \<or> 0xFFFF800000000000 \<le> a"

definition user_kva :: "u64 \<Rightarrow> ksys \<Rightarrow> u64 \<Rightarrow> u64 option" where
  "user_kva h k a =
     (let p = pgtable_kva h (k_current_pml4 k) a (k_words k) in if canonical a \<and> p \<noteq> 0 then Some p else None)"

primrec load_user :: "u64 \<Rightarrow> ksys \<Rightarrow> nat \<Rightarrow> u64 \<Rightarrow> u8 list option" where
  "load_user h k 0 a = Some []"
| "load_user h k (Suc n) a = do { p \<leftarrow> user_kva h k a; bs \<leftarrow> load_user h k n (a + 1); Some (snd (k_mem k) p # bs) }"

fun store_user :: "u64 \<Rightarrow> u64 \<Rightarrow> u8 list \<Rightarrow> ksys \<Rightarrow> ksys option" where
  "store_user h a [] k = Some k"
| "store_user h a (b # bs) k =
     do { p \<leftarrow> user_kva h k a; store_user h (a + 1) bs (k\<lparr>k_mem := (fst (k_mem k), (snd (k_mem k))(p := b))\<rparr>) }"

definition user_ptr_ok :: "u64 \<Rightarrow> u64 \<Rightarrow> bool" where
  "user_ptr_ok p len \<longleftrightarrow> \<not> (p = 0 \<or> sint len < 0) \<and> \<not> p \<ge> BOOT_HHDM_BASE \<and> \<not> p + len < p"

text \<open>The loop of \<^verbatim>\<open>copy_user_str\<close>: the error, or the bytes before the terminator.\<close>

primrec copy_chars :: "u64 \<Rightarrow> ksys \<Rightarrow> nat \<Rightarrow> u64 \<Rightarrow> (int + u8 list) option" where
  "copy_chars h k 0 a = Some (Inl (- EINVAL))"
| "copy_chars h k (Suc n) a =
     do { p \<leftarrow> user_kva h k a;
          let c = snd (k_mem k) p;
          if c = 0 then Some (Inr [])
          else do { r \<leftarrow> copy_chars h k n (a + 1); Some (map_sum id (\<lambda>cs. c # cs) r) } }"

definition copy_user_str :: "u64 \<Rightarrow> ksys \<Rightarrow> u64 \<Rightarrow> nat \<Rightarrow> (int + u8 list) option" where
  "copy_user_str h k uptr n = (if \<not> user_ptr_ok uptr (of_nat n) then Some (Inl (- EFAULT)) else copy_chars h k n uptr)"

text \<open>
  The start of every call that takes a path: the string, folded against the working directory into a buffer of \<open>m\<close> bytes. The bytes
  that the buffer held before do not show in the string.
\<close>

definition user_path :: "u64 \<Rightarrow> nat \<Rightarrow> nat \<Rightarrow> u64 \<Rightarrow> ksys \<Rightarrow> (int + u8 list) option" where
  "user_path h n m upath k =
     do { r \<leftarrow> copy_user_str h k upath n;
          case r of
            Inl e \<Rightarrow> Some (Inl e)
          | Inr path \<Rightarrow>
              do { c \<leftarrow> k_tasks k (k_current k);
                   let (ok, out) = vfs_resolve_path (t_cwd c) path (replicate m 0);
                   Some (if ok then Inr (takeWhile (\<lambda>b. b \<noteq> 0) out) else Inl (- ENAMETOOLONG)) } }"

section \<open>The descriptors of a task\<close>

definition fd_alloc :: "vaddr \<Rightarrow> ksys \<Rightarrow> (int \<times> ksys) option" where
  "fd_alloc f k =
     do { e \<leftarrow> k_tasks k (k_current k);
          let i = length (takeWhile (\<lambda>x. x \<noteq> 0) (take TASK_MAX_FDS (t_fd_table e)));
          if i < TASK_MAX_FDS
          then do { k \<leftarrow> upd_task (k_current k) (\<lambda>e. e\<lparr>t_fd_table := (t_fd_table e)[i := f]\<rparr>) k; Some (TASK_FD_BASE + int i, k) }
          else Some (- 1, k) }"

definition fd_get :: "u64 \<Rightarrow> ksys \<Rightarrow> vaddr option" where
  "fd_get fd k =
     (if k_current k = 0 then Some 0
      else if sint fd < TASK_FD_BASE \<or> sint fd \<ge> TASK_FD_BASE + int TASK_MAX_FDS then Some 0
      else do { e \<leftarrow> k_tasks k (k_current k); Some (t_fd_table e ! nat (sint fd - TASK_FD_BASE)) })"

definition fd_clear :: "nat \<Rightarrow> vaddr \<Rightarrow> ksys \<Rightarrow> ksys option" where
  "fd_clear i t k = upd_task t (\<lambda>e. e\<lparr>t_fd_table := (t_fd_table e)[i := 0]\<rparr>) k"

fun close_fds :: "u64 \<Rightarrow> vaddr \<Rightarrow> nat list \<Rightarrow> 'h lizard \<Rightarrow> 'h lizard option" where
  "close_fds h t [] s = Some s"
| "close_fds h t (i # is) s =
     do { e \<leftarrow> k_tasks (lz_sys s) t;
          let f = t_fd_table e ! i;
          s \<leftarrow> (if f = 0 then Some s else do { s \<leftarrow> on_unit (vfs_close h f) s; on_sys (fd_clear i t) s });
          close_fds h t is s }"

definition task_close_all_fds :: "u64 \<Rightarrow> vaddr \<Rightarrow> 'h lizard \<Rightarrow> 'h lizard option" where
  "task_close_all_fds h t s = close_fds h t [0..<TASK_MAX_FDS] s"

section \<open>Files\<close>

text \<open>\<open>font\<close> is the table of glyphs and \<open>sector\<close> the sector buffer of a write before it is filled.\<close>

definition sys_write :: "u64 \<Rightarrow> u8 list \<Rightarrow> u8 list \<Rightarrow> u64 \<Rightarrow> u64 \<Rightarrow> u64 \<Rightarrow> 'h handler" where
  "sys_write h font sector fd ubuf len s =
     (if \<not> user_ptr_ok ubuf len then Some (Ret (- EFAULT), s)
      else if fd = 1 \<or> fd = 2
      then do { bs \<leftarrow> load_user h (lz_sys s) (unat len) ubuf;
                t \<leftarrow> tty_write font bs (lz_tty s);
                Some (Ret (sint len), s\<lparr>lz_tty := t\<rparr>) }
      else do { f \<leftarrow> fd_get fd (lz_sys s);
                if f = 0 then Some (Ret (- EBADF), s)
                else do { bs \<leftarrow> load_user h (lz_sys s) (unat len) ubuf;
                          (n, s) \<leftarrow> on_vfs (vfs_write sector f bs len) s;
                          Some (Ret n, s) } })"

definition sys_read :: "u64 \<Rightarrow> u64 \<Rightarrow> u64 \<Rightarrow> u64 \<Rightarrow> 'h handler" where
  "sys_read h fd ubuf len s =
     (if \<not> user_ptr_ok ubuf len then Some (Ret (- EFAULT), s)
      else if len = 0 then Some (Ret 0, s)
      else if fd = 0
      then if \<not> tty_stdin_available (tt_stdin (lz_tty s))
           then do { s \<leftarrow> on_sys (task_block h WAIT_INPUT) s; Some (Retry, s) }
           else do { let (bs, r) = tty_stdin_read (unat len) (tt_stdin (lz_tty s));
                     s \<leftarrow> on_sys (store_user h ubuf bs) (s\<lparr>lz_tty := (lz_tty s)\<lparr>tt_stdin := r\<rparr>\<rparr>);
                     Some (Ret (int (length bs)), s) }
      else if fd = 1 \<or> fd = 2 then Some (Ret (- EBADF), s)
      else do { f \<leftarrow> fd_get fd (lz_sys s);
                if f = 0 then Some (Ret (- EBADF), s)
                else do { ((n, bs), s) \<leftarrow> on_vfs (\<lambda>v. do { (n, bs, v) \<leftarrow> vfs_read f len v; Some ((n, bs), v) }) s;
                          s \<leftarrow> on_sys (store_user h ubuf bs) s;
                          Some (Ret n, s) } })"

definition sys_open :: "u64 \<Rightarrow> u64 \<Rightarrow> u64 \<Rightarrow> 'h handler" where
  "sys_open h upath flags s =
     do { r \<leftarrow> user_path h 128 256 upath (lz_sys s);
          case r of
            Inl e \<Rightarrow> Some (Ret e, s)
          | Inr abspath \<Rightarrow>
              do { (f, s) \<leftarrow> on_vfs (vfs_open h abspath (ucast flags)) s;
                   if f = 0 then Some (Ret (- ENOENT), s)
                   else do { (fd, k) \<leftarrow> fd_alloc f (lz_sys s);
                             let s = s\<lparr>lz_kern := (lz_kern s)\<lparr>kn_sys := k\<rparr>\<rparr>;
                             if fd < 0 then do { s \<leftarrow> on_unit (vfs_close h f) s; Some (Ret (- ENOMEM), s) }
                             else Some (Ret fd, s) } } }"

definition sys_close :: "u64 \<Rightarrow> u64 \<Rightarrow> 'h handler" where
  "sys_close h fd s =
     do { f \<leftarrow> fd_get fd (lz_sys s);
          if f = 0 then Some (Ret (- EBADF), s)
          else do { s \<leftarrow> on_unit (vfs_close h f) s;
                    s \<leftarrow> on_sys (fd_clear (nat (sint fd - TASK_FD_BASE)) (k_current (lz_sys s))) s;
                    Some (Ret 0, s) } }"

text \<open>The sum of base and offset wraps around.\<close>

definition sys_lseek :: "u64 \<Rightarrow> u64 \<Rightarrow> u64 \<Rightarrow> 'h handler" where
  "sys_lseek fd off whence s =
     do { f \<leftarrow> fd_get fd (lz_sys s);
          if f = 0 then Some (Ret (- EBADF), s)
          else do { let v = kn_vfs (lz_kern s);
                    file \<leftarrow> v_files v f;
                    base \<leftarrow> (if whence = LZ_SEEK_SET then Some (Some 0)
                            else if whence = LZ_SEEK_CUR then Some (Some (f_offset file))
                            else if whence = LZ_SEEK_END
                            then if f_inode file = 0 then Some (Some 0) else do { i \<leftarrow> v_inodes v (f_inode file); Some (Some (in_size i)) }
                            else Some None);
                    case base of
                      None \<Rightarrow> Some (Ret (- EINVAL), s)
                    | Some base \<Rightarrow>
                        let pos = base + off in
                        if sint pos < 0 then Some (Ret (- EINVAL), s)
                        else Some (Ret (sint pos), s\<lparr>lz_kern := (lz_kern s)\<lparr>kn_vfs := v\<lparr>v_files := (v_files v)(f \<mapsto> file\<lparr>f_offset := pos\<rparr>)\<rparr>\<rparr>\<rparr>) } }"

section \<open>Screen, keyboard and time\<close>

definition le32_bytes :: "u32 \<Rightarrow> u8 list" where
  "le32_bytes v = map (\<lambda>i. ucast (drop_bit (8 * i) v)) [0..<4]"

definition sys_fb_info :: "u64 \<Rightarrow> u64 \<Rightarrow> 'h handler" where
  "sys_fb_info h uout s =
     (if \<not> user_ptr_ok uout sizeof_fb_info then Some (Ret (- EFAULT), s)
      else do { let f = tt_fb (lz_tty s);
                s \<leftarrow> on_sys (store_user h uout (le32_bytes (ucast (fb_width f)) @ le32_bytes (ucast (fb_height f)) @ le32_bytes (fb_pitch f) @ le32_bytes 32)) s;
                Some (Ret 0, s) })"

definition sys_fb_blit :: "u64 \<Rightarrow> u64 \<Rightarrow> u64 \<Rightarrow> u64 \<Rightarrow> 'h handler" where
  "sys_fb_blit h usrc w ht s =
     (if sint w \<le> 0 \<or> sint ht \<le> 0 \<or> sint w > 8192 \<or> sint ht > 8192 then Some (Ret (- EINVAL), s)
      else if \<not> user_ptr_ok usrc (w * ht * 4) then Some (Ret (- EFAULT), s)
      else do { let f = tt_fb (lz_tty s);
                bs \<leftarrow> (if fb_addr f = 0 then Some [] else load_user h (lz_sys s) (unat (w * ht * 4)) usrc);
                f \<leftarrow> fb_present_xrgb False (\<lambda>i. le32_at bs (4 * unat i)) (ucast w) (ucast ht) f;
                Some (Ret 0, s\<lparr>lz_tty := (lz_tty s)\<lparr>tt_fb := f\<rparr>\<rparr>) })"

definition sys_key_get :: "'h handler" where
  "sys_key_get s =
     (let b = keyboard_set_raw True (lz_kbd s); (sc, r) = keyboard_pop_scancode (kb_ring b) in
      Some (Ret (if sc < 0 then 0 else sc), s\<lparr>lz_kbd := b\<lparr>kb_ring := r\<rparr>\<rparr>))"

definition sys_uptime_ms :: "'h handler" where
  "sys_uptime_ms s = Some (Ret (time_uptime_ms (lz_time s)), s)"

section \<open>Processes\<close>

definition sys_sleep :: "u64 \<Rightarrow> u64 \<Rightarrow> 'h handler" where
  "sys_sleep h ms s =
     (if sint ms < 0 then Some (Ret (- EINVAL), s) else do { s \<leftarrow> on_sys (task_sleep h (ucast ms)) s; Some (Ret 0, s) })"

definition sys_getpid :: "'h handler" where
  "sys_getpid s =
     (if k_current (lz_sys s) = 0 then Some (Ret 0, s)
      else do { e \<leftarrow> k_tasks (lz_sys s) (k_current (lz_sys s)); Some (Ret (uint (t_pid e)), s) })"

definition sys_exit :: "u64 \<Rightarrow> u64 \<Rightarrow> 'h handler" where
  "sys_exit h code s =
     do { let me = k_current (lz_sys s);
          s \<leftarrow> (if me = 0 then Some s
               else do { s \<leftarrow> on_sys (upd_task me (\<lambda>e. e\<lparr>t_exit_code := sint (ucast code :: u32)\<rparr>)) s; task_close_all_fds h me s });
          let s = s\<lparr>lz_kbd := keyboard_set_raw False (lz_kbd s)\<rparr>;
          s \<leftarrow> on_sys task_exit s;
          s \<leftarrow> on_sys (scheduler h) s;
          Some (Gone, s) }"

text \<open>The arguments from the slot \<open>argc\<close> on, of which \<open>n\<close> may still be taken, into the rest of a buffer of 1024 bytes.\<close>

fun spawn_args :: "u64 \<Rightarrow> ksys \<Rightarrow> nat \<Rightarrow> u64 \<Rightarrow> nat \<Rightarrow> (int + u8 list list) option" where
  "spawn_args h k n slot off =
     (if \<not> user_ptr_ok slot 8 then Some (Inl (- EFAULT))
      else case load_user h k 8 slot of
             None \<Rightarrow> None
           | Some b \<Rightarrow>
               if le64_at b 0 = 0 then Some (Inr [])
               else (case n of
                       0 \<Rightarrow> Some (Inl (- EINVAL))
                     | Suc n \<Rightarrow>
                         (case copy_user_str h k (le64_at b 0) (1024 - off) of
                            None \<Rightarrow> None
                          | Some (Inl e) \<Rightarrow> Some (Inl e)
                          | Some (Inr a) \<Rightarrow> map_option (map_sum id (\<lambda>as. a # as)) (spawn_args h k n (slot + 8) (off + length a + 1)))))"

declare spawn_args.simps [simp del]

definition sys_spawn :: "u64 \<Rightarrow> u64 \<Rightarrow> u64 \<Rightarrow> 'h handler" where
  "sys_spawn h upath uargv s =
     do { r \<leftarrow> user_path h 128 256 upath (lz_sys s);
          case r of
            Inl e \<Rightarrow> Some (Ret e, s)
          | Inr abspath \<Rightarrow>
              do { args \<leftarrow> (if uargv = 0 then Some (Inr []) else spawn_args h (lz_sys s) SPAWN_MAX_ARGS uargv 0);
                   case args of
                     Inl e \<Rightarrow> Some (Ret e, s)
                   | Inr argv \<Rightarrow>
                       do { (pid, s) \<leftarrow> on_kern (spawn h abspath argv) s;
                            Some (Ret (if pid < 0 then - ENOENT else pid), s) } } }"

definition sys_waitpid :: "u64 \<Rightarrow> u64 \<Rightarrow> u64 \<Rightarrow> 'h handler" where
  "sys_waitpid h pid ustatus s =
     (if ustatus \<noteq> 0 \<and> \<not> user_ptr_ok ustatus 4 then Some (Ret (- EFAULT), s)
      else do { (r, k) \<leftarrow> task_waitpid (sint (ucast pid :: u32)) (lz_sys s);
                let s = s\<lparr>lz_kern := (lz_kern s)\<lparr>kn_sys := k\<rparr>\<rparr>;
                case r of
                  Blocked \<Rightarrow> do { s \<leftarrow> on_sys (\<lambda>k. if k_current k = k_idle k then Some k else scheduler h k) s; Some (Retry, s) }
                | Returned rpid status \<Rightarrow>
                    if rpid < 0 then Some (Ret rpid, s)
                    else do { s \<leftarrow> (if ustatus = 0 then Some s
                                   else on_sys (store_user h ustatus (le32_bytes (of_int (case status of None \<Rightarrow> 0 | Some c \<Rightarrow> c)))) s);
                              Some (Ret rpid, s) } })"

definition sys_yield :: "u64 \<Rightarrow> 'h handler" where
  "sys_yield h s = do { s \<leftarrow> on_sys (task_yield h) s; Some (Ret 0, s) }"

section \<open>Directories\<close>

text \<open>The entries taken so far and how many may be taken; the caller's array is filled from them.\<close>

definition readdir_filldir :: "int \<Rightarrow> dirent list \<Rightarrow> dirent \<Rightarrow> int \<times> dirent list" where
  "readdir_filldir limit ds d = (if int (length ds) \<ge> limit then (- 1, ds) else (0, ds @ [d]))"

definition dirent_code :: "dirent_type \<Rightarrow> u8" where
  "dirent_code t = (case t of DT_UNKNOWN \<Rightarrow> 0 | DT_DIR \<Rightarrow> 4 | DT_REG \<Rightarrow> 8)"

text \<open>The bytes of an entry without the padding behind them.\<close>

definition dirent_bytes :: "dirent \<Rightarrow> u8 list" where
  "dirent_bytes d =
     le64_bytes (de_inode d) @ le64_bytes (ucast (de_offset d)) @ map (\<lambda>i. ucast (drop_bit (8 * i) (de_reclen d))) [0..<2] @
     dirent_code (de_type d) # take 256 (de_name d @ replicate 256 0)"

fun put_dirents :: "u64 \<Rightarrow> u64 \<Rightarrow> dirent list \<Rightarrow> ksys \<Rightarrow> ksys option" where
  "put_dirents h a [] k = Some k"
| "put_dirents h a (d # ds) k = do { k \<leftarrow> store_user h a (dirent_bytes d) k; put_dirents h (a + sizeof_dirent) ds k }"

definition sys_readdir :: "u64 \<Rightarrow> u64 \<Rightarrow> u64 \<Rightarrow> u64 \<Rightarrow> 'h handler" where
  "sys_readdir h fd ubuf n s =
     (if sint n \<le> 0 then Some (Ret (- EINVAL), s)
      else if \<not> user_ptr_ok ubuf (n * sizeof_dirent) then Some (Ret (- EFAULT), s)
      else do { f \<leftarrow> fd_get fd (lz_sys s);
                if f = 0 then Some (Ret (- EBADF), s)
                else do { let v = kn_vfs (lz_kern s);
                          file \<leftarrow> v_files v f;
                          if f_inode file = 0 then Some (Ret (- ENOTDIR), s)
                          else do { i \<leftarrow> v_inodes v (f_inode file);
                                    (_, off, ds, fs) \<leftarrow> fat16_readdir (readdir_filldir (sint (ucast n :: u32))) i (f_offset file) [] (v_fs v);
                                    let v = v\<lparr>v_fs := fs, v_files := (v_files v)(f \<mapsto> file\<lparr>f_offset := off\<rparr>)\<rparr>;
                                    s \<leftarrow> on_sys (put_dirents h ubuf ds) (s\<lparr>lz_kern := (lz_kern s)\<lparr>kn_vfs := v\<rparr>\<rparr>);
                                    Some (Ret (int (length ds)), s) } } })"

text \<open>Looking a path up and giving the dentry back: nothing there, or whether it is a directory.\<close>

definition probe_path :: "u64 \<Rightarrow> u8 list \<Rightarrow> 'h vfs \<Rightarrow> (bool option \<times> 'h vfs) option" where
  "probe_path h path v =
     do { (d, v) \<leftarrow> vfs_path_lookup h path v;
          if d = 0 then Some (None, v)
          else do { e \<leftarrow> v_dentries v d;
                    dir \<leftarrow> (if d_inode e = 0 then Some False else do { i \<leftarrow> v_inodes v (d_inode e); Some (in_mode i AND S_IFDIR_MASK \<noteq> 0) });
                    v \<leftarrow> dentry_put h d v;
                    Some (Some dir, v) } }"

definition path_exists :: "u64 \<Rightarrow> u8 list \<Rightarrow> 'h vfs \<Rightarrow> (bool \<times> 'h vfs) option" where
  "path_exists h path v =
     do { (d, v) \<leftarrow> vfs_path_lookup h path v; v \<leftarrow> (if d = 0 then Some v else dentry_put h d v); Some (d \<noteq> 0, v) }"

definition sys_chdir :: "u64 \<Rightarrow> u64 \<Rightarrow> 'h handler" where
  "sys_chdir h upath s =
     do { r \<leftarrow> user_path h TASK_CWD_MAX TASK_CWD_MAX upath (lz_sys s);
          case r of
            Inl e \<Rightarrow> Some (Ret e, s)
          | Inr abspath \<Rightarrow>
              do { (d, s) \<leftarrow> on_vfs (probe_path h abspath) s;
                   case d of
                     None \<Rightarrow> Some (Ret (- ENOENT), s)
                   | Some dir \<Rightarrow>
                       if \<not> dir then Some (Ret (- ENOTDIR), s)
                       else do { s \<leftarrow> on_sys (upd_task (k_current (lz_sys s)) (\<lambda>e. e\<lparr>t_cwd := abspath\<rparr>)) s; Some (Ret 0, s) } } }"

definition sys_getcwd :: "u64 \<Rightarrow> u64 \<Rightarrow> u64 \<Rightarrow> 'h handler" where
  "sys_getcwd h ubuf n s =
     (if sint n \<le> 0 then Some (Ret (- EINVAL), s)
      else if \<not> user_ptr_ok ubuf n then Some (Ret (- EFAULT), s)
      else do { e \<leftarrow> k_tasks (lz_sys s) (k_current (lz_sys s));
                let len = length (t_cwd e);
                if len + 1 > unat n then Some (Ret (- ERANGE), s)
                else do { s \<leftarrow> on_sys (store_user h ubuf (t_cwd e @ [0])) s; Some (Ret (int len), s) } })"

text \<open>The path before the last slash, of which the slash of the root is kept.\<close>

definition parent_path :: "u8 list \<Rightarrow> u8 list" where
  "parent_path p = (let cut = length p - 1 - length (takeWhile (\<lambda>c. c \<noteq> 47) (rev p)) in if 47 \<in> set p \<and> cut \<noteq> 0 then take cut p else take 1 p)"

definition sys_mkdir :: "u64 \<Rightarrow> u64 \<Rightarrow> 'h handler" where
  "sys_mkdir h upath s =
     do { r \<leftarrow> user_path h 128 256 upath (lz_sys s);
          case r of
            Inl e \<Rightarrow> Some (Ret e, s)
          | Inr abspath \<Rightarrow>
              if length abspath \<le> 1 then Some (Ret (- EEXIST), s)
              else do { (found, s) \<leftarrow> on_vfs (path_exists h abspath) s;
                        if found then Some (Ret (- EEXIST), s)
                        else do { (pd, s) \<leftarrow> on_vfs (probe_path h (parent_path abspath)) s;
                                  case pd of
                                    None \<Rightarrow> Some (Ret (- ENOENT), s)
                                  | Some dir \<Rightarrow>
                                      if \<not> dir then Some (Ret (- ENOTDIR), s)
                                      else do { (rc, s) \<leftarrow> on_vfs (vfs_mkdir h abspath) s; Some (Ret (if rc \<noteq> 0 then - EIO else 0), s) } } } }"

definition do_remove :: "u64 \<Rightarrow> u64 \<Rightarrow> bool \<Rightarrow> 'h handler" where
  "do_remove h upath want_dir s =
     do { r \<leftarrow> user_path h 128 256 upath (lz_sys s);
          case r of
            Inl e \<Rightarrow> Some (Ret e, s)
          | Inr abspath \<Rightarrow>
              if length abspath \<le> 1 then Some (Ret (- EPERM), s)
              else do { (d, s) \<leftarrow> on_vfs (probe_path h abspath) s;
                        case d of
                          None \<Rightarrow> Some (Ret (- ENOENT), s)
                        | Some dir \<Rightarrow>
                            if want_dir \<and> \<not> dir then Some (Ret (- ENOTDIR), s)
                            else if \<not> want_dir \<and> dir then Some (Ret (- EISDIR), s)
                            else if want_dir
                            then do { (rc, s) \<leftarrow> on_vfs (vfs_rmdir h abspath) s; Some (Ret (if rc = 0 then 0 else - ENOTEMPTY), s) }
                            else do { (rc, s) \<leftarrow> on_vfs (vfs_unlink h abspath) s; Some (Ret (if rc = 0 then 0 else - EIO), s) } } }"

definition sys_unlink :: "u64 \<Rightarrow> u64 \<Rightarrow> 'h handler" where
  "sys_unlink h upath = do_remove h upath False"

definition sys_rmdir :: "u64 \<Rightarrow> u64 \<Rightarrow> 'h handler" where
  "sys_rmdir h upath = do_remove h upath True"

section \<open>Dispatch\<close>

text \<open>The table that \<^verbatim>\<open>syscall_init\<close> fills, by number and argument registers.\<close>

definition syscall_table :: "u64 \<Rightarrow> u8 list \<Rightarrow> u8 list \<Rightarrow> u64 \<Rightarrow> u64 \<Rightarrow> u64 \<Rightarrow> u64 \<Rightarrow> 'h handler option" where
  "syscall_table h font sector nr a0 a1 a2 =
     (if nr = SYS_exit then Some (sys_exit h a0)
      else if nr = SYS_write then Some (sys_write h font sector a0 a1 a2)
      else if nr = SYS_read then Some (sys_read h a0 a1 a2)
      else if nr = SYS_sleep then Some (sys_sleep h a0)
      else if nr = SYS_getpid then Some sys_getpid
      else if nr = SYS_open then Some (sys_open h a0 a1)
      else if nr = SYS_close then Some (sys_close h a0)
      else if nr = SYS_lseek then Some (sys_lseek a0 a1 a2)
      else if nr = SYS_fb_info then Some (sys_fb_info h a0)
      else if nr = SYS_fb_blit then Some (sys_fb_blit h a0 a1 a2)
      else if nr = SYS_key_get then Some sys_key_get
      else if nr = SYS_uptime_ms then Some sys_uptime_ms
      else if nr = SYS_spawn then Some (sys_spawn h a0 a1)
      else if nr = SYS_waitpid then Some (sys_waitpid h a0 a1)
      else if nr = SYS_yield then Some (sys_yield h)
      else if nr = SYS_readdir then Some (sys_readdir h a0 a1 a2)
      else if nr = SYS_chdir then Some (sys_chdir h a0)
      else if nr = SYS_getcwd then Some (sys_getcwd h a0 a1)
      else if nr = SYS_mkdir then Some (sys_mkdir h a0)
      else if nr = SYS_unlink then Some (sys_unlink h a0)
      else if nr = SYS_rmdir then Some (sys_rmdir h a0)
      else None)"

text \<open>The frame of the caller, with the result in its register when the call has ended.\<close>

definition syscall_handler_c :: "u64 \<Rightarrow> u8 list \<Rightarrow> u8 list \<Rightarrow> cpu_state \<Rightarrow> 'h lizard \<Rightarrow> (outcome \<times> cpu_state \<times> 'h lizard) option" where
  "syscall_handler_c h font sector regs s =
     do { (r, s) \<leftarrow> (case syscall_table h font sector (r_rax regs) (r_rdi regs) (r_rsi regs) (r_rdx regs) of
                      None \<Rightarrow> Some (Ret (- ENOSYS), s)
                    | Some f \<Rightarrow> f s);
          Some (r, case r of Ret v \<Rightarrow> regs\<lparr>r_rax := of_int v\<rparr> | _ \<Rightarrow> regs, s) }"

end
