(* ===== verification/Syscall_Safe.thy ===== *)
theory Syscall_Safe
  imports Syscall
begin

text \<open>
  What system calls promise. Every task keeps a working directory that is an absolute normal path within its field and a table of sixteen
  descriptors, whatever calls are made; a directory that is entered is the one that is reported; descriptors are handed out lowest first and
  closing one restores the table; and no call that checks its pointer reaches the kernel half through it.
\<close>

section \<open>Well-formed tasks\<close>

definition cwd_ok :: "u8 list \<Rightarrow> bool" where
  "cwd_ok c \<longleftrightarrow> (\<exists>cs. list_all comp_ok cs \<and> c = path_str cs) \<and> 0 \<notin> set c \<and> length c < TASK_CWD_MAX"

definition task_wf :: "task \<Rightarrow> bool" where
  "task_wf e \<longleftrightarrow> cwd_ok (t_cwd e) \<and> length (t_fd_table e) = TASK_MAX_FDS"

definition tasks_wf :: "ksys \<Rightarrow> bool" where
  "tasks_wf k \<longleftrightarrow> (\<forall>t e. k_tasks k t = Some e \<longrightarrow> task_wf e)"

definition keeps_wf :: "(ksys \<Rightarrow> ksys option) \<Rightarrow> bool" where
  "keeps_wf f \<longleftrightarrow> (\<forall>k k'. tasks_wf k \<longrightarrow> f k = Some k' \<longrightarrow> tasks_wf k')"

lemma keeps_wfD: "f k = Some k' \<Longrightarrow> keeps_wf f \<Longrightarrow> tasks_wf k \<Longrightarrow> tasks_wf k'"
  by (simp add: keeps_wf_def)

lemma tasks_wf_upd [simp]:
  "tasks_wf (k\<lparr>k_list := l\<rparr>) = tasks_wf k" "tasks_wf (k\<lparr>k_current := c\<rparr>) = tasks_wf k" "tasks_wf (k\<lparr>k_mem := m\<rparr>) = tasks_wf k"
  "tasks_wf (k\<lparr>k_ptrace := r\<rparr>) = tasks_wf k" "tasks_wf (k\<lparr>k_rsp0 := x\<rparr>) = tasks_wf k" "tasks_wf (k\<lparr>k_current_pml4 := p\<rparr>) = tasks_wf k"
  "tasks_wf (k\<lparr>k_cr3 := p\<rparr>) = tasks_wf k" "tasks_wf (k\<lparr>k_words := w\<rparr>) = tasks_wf k" "tasks_wf (k\<lparr>k_pid_counter := n\<rparr>) = tasks_wf k"
  "tasks_wf (put_pages g k) = tasks_wf k"
  by (simp_all add: tasks_wf_def put_pages_def)

lemma tasks_wfD: "tasks_wf k \<Longrightarrow> k_tasks k t = Some e \<Longrightarrow> task_wf e"
  by (simp add: tasks_wf_def)

lemma tasks_wf_set: "tasks_wf k \<Longrightarrow> task_wf e \<Longrightarrow> tasks_wf (k\<lparr>k_tasks := (k_tasks k)(t \<mapsto> e)\<rparr>)"
  by (simp add: tasks_wf_def)

lemma tasks_wf_drop: "tasks_wf k \<Longrightarrow> tasks_wf (k\<lparr>k_tasks := (k_tasks k)(t := None)\<rparr>)"
  by (simp add: tasks_wf_def)

lemma upd_task_wf: "(\<And>e. task_wf e \<Longrightarrow> task_wf (f e)) \<Longrightarrow> keeps_wf (upd_task t f)"
  by (auto simp: keeps_wf_def upd_task_def tasks_wf_set tasks_wfD Option.bind_eq_Some_conv)

lemma upd_wfD: "upd_task t f k = Some k' \<Longrightarrow> tasks_wf k \<Longrightarrow> (\<And>e. task_wf e \<Longrightarrow> task_wf (f e)) \<Longrightarrow> tasks_wf k'"
  using keeps_wfD [OF _ upd_task_wf] by blast

text \<open>The fields a change of a task may touch without harm.\<close>

lemma task_wf_fields [simp]:
  "task_wf (e\<lparr>t_state := a\<rparr>) = task_wf e" "task_wf (e\<lparr>t_wait_kind := w\<rparr>) = task_wf e" "task_wf (e\<lparr>t_regs := r\<rparr>) = task_wf e"
  "task_wf (e\<lparr>t_parent := p\<rparr>) = task_wf e" "task_wf (e\<lparr>t_children := cs\<rparr>) = task_wf e" "task_wf (e\<lparr>t_sibling := b\<rparr>) = task_wf e"
  "task_wf (e\<lparr>t_ticks_remaining := n\<rparr>) = task_wf e" "task_wf (e\<lparr>t_sleep_until := n\<rparr>) = task_wf e" "task_wf (e\<lparr>t_exit_code := x\<rparr>) = task_wf e"
  "task_wf (e\<lparr>t_on_heap := b\<rparr>) = task_wf e" "task_wf (e\<lparr>t_fd_table := (t_fd_table e)[i := f]\<rparr>) = task_wf e"
  by (simp_all add: task_wf_def)

lemma keeps_bind: "keeps_wf f \<Longrightarrow> keeps_wf g \<Longrightarrow> keeps_wf (\<lambda>k. f k \<bind> g)"
  unfolding keeps_wf_def Option.bind_eq_Some_conv by blast

lemma keeps_Some [simp]: "keeps_wf Some"
  by (simp add: keeps_wf_def)

lemma keeps_wfI: "(\<And>k k'. tasks_wf k \<Longrightarrow> f k = Some k' \<Longrightarrow> tasks_wf k') \<Longrightarrow> keeps_wf f"
  by (simp add: keeps_wf_def)

section \<open>Operations on tasks\<close>

lemma bind_SomeE: "f \<bind> g = Some y \<Longrightarrow> (\<And>x. f = Some x \<Longrightarrow> g x = Some y \<Longrightarrow> P) \<Longrightarrow> P"
  by (auto simp: Option.bind_eq_Some_conv)

lemma unlink_sibling_wf: "keeps_wf (unlink_sibling t)"
proof -
  have "tasks_wf (k\<lparr>k_tasks := \<lambda>p. map_option (\<lambda>e. e\<lparr>t_children := remove1 t (t_children e)\<rparr>) (k_tasks k p)\<rparr>)" if "tasks_wf k" for k
    using that by (auto simp: tasks_wf_def)
  then show ?thesis unfolding keeps_wf_def unlink_sibling_def by (auto elim!: upd_wfD)
qed

lemma link_sibling_wf: "keeps_wf (link_sibling t p)"
  unfolding link_sibling_def by (intro keeps_bind upd_task_wf) simp_all

lemma reparent_wf: "keeps_wf (reparent cs)"
proof (induction cs)
  case (Cons c cs)
  have "keeps_wf (\<lambda>k. upd_task c (\<lambda>e. e\<lparr>t_parent := k_idle k\<rparr>) k)"
    by (auto simp: keeps_wf_def elim!: upd_wfD)
  moreover have "keeps_wf (\<lambda>k. link_sibling c (k_idle k) k)" using keeps_wfD [OF _ link_sibling_wf] by (simp add: keeps_wf_def)
  ultimately show ?case by (auto intro!: keeps_bind upd_task_wf unlink_sibling_wf Cons.IH)
qed (simp add: keeps_wf_def)

lemma task_wake_wf: "keeps_wf (task_wake t)"
  by (auto simp: keeps_wf_def task_wake_def elim!: upd_wfD split: if_splits)

lemma task_exit_wf: "keeps_wf task_exit"
  unfolding keeps_wf_def task_exit_def Let_def
  by (auto simp: Option.bind_eq_Some_conv split: if_splits dest: keeps_wfD [OF _ reparent_wf] keeps_wfD [OF _ task_wake_wf] upd_wfD)

lemma task_waitpid_wf: "tasks_wf k \<Longrightarrow> task_waitpid pid k = Some (r, k') \<Longrightarrow> tasks_wf k'"
  unfolding task_waitpid_def Let_def
  by (auto simp: Option.bind_eq_Some_conv split: if_splits prod.splits dest!: keeps_wfD [OF _ unlink_sibling_wf] upd_wfD)

lemma foldM_wf:
  assumes "\<And>t. keeps_wf (f t)"
  shows "keeps_wf (foldM f ts)"
proof (induction ts)
  case (Cons t ts)
  show ?case using keeps_bind [OF assms [of t] Cons.IH] by (simp add: keeps_wf_def)
qed (simp add: keeps_wf_def)

lemma reap_task_wf: "keeps_wf (reap_task h t)"
proof (rule keeps_wfI)
  fix k k' assume wf: "tasks_wf k" and r: "reap_task h t k = Some k'"
  obtain e where e: "k_tasks k t = Some e" using r by (auto simp: reap_task_def Option.bind_eq_Some_conv)
  define unmap where "unmap = (\<lambda>s :: ksys. if t_pml4 e \<noteq> 0 then do { g \<leftarrow> pgtable_free_tree h (t_pml4 e) (pages_of_sys s); Some (put_pages g s) } else Some s)"
  define unstack where "unstack = (\<lambda>s :: ksys. if t_kernel_stack e \<noteq> 0
    then do { b \<leftarrow> buddy_free h (pm_buddy (pages_of_sys s)) (t_kernel_stack e - of_nat (KSTACK_PAGES * 4096)) KSTACK_ORDER;
              Some (put_pages ((pages_of_sys s)\<lparr>pm_buddy := b\<rparr>) s) } else Some s)"
  define free where "free = (\<lambda>s :: ksys. if t_on_heap e
    then do { kh \<leftarrow> kfree h t (fst (k_mem s)); Some (s\<lparr>k_mem := (kh, snd (k_mem s)), k_tasks := (k_tasks s)(t := None)\<rparr>) } else Some s)"
  have "tasks_wf (s\<lparr>k_mem := m, k_tasks := (k_tasks s)(t := None)\<rparr>)" if "tasks_wf s" for m s using tasks_wf_drop [of "s\<lparr>k_mem := m\<rparr>"] that by simp
  then have "keeps_wf free" "keeps_wf unmap" "keeps_wf unstack"
    unfolding free_def unmap_def unstack_def by (auto intro!: keeps_wfI simp: Option.bind_eq_Some_conv split: if_splits)
  moreover have "keeps_wf (\<lambda>s. if t_sibling e then unlink_sibling t s else Some s)" using unlink_sibling_wf by (cases "t_sibling e") simp_all
  ultimately have body: "keeps_wf (\<lambda>s. do { s \<leftarrow> (if t_sibling e then unlink_sibling t s else Some s); s \<leftarrow> unstack s; s \<leftarrow> unmap s; free s })" (is "keeps_wf ?body")
    by (intro keeps_bind)
  have eq: "reap_task h t k = (if t = k_idle k \<or> t = k_current k \<or> t_state e \<noteq> TASK_STATE_TERMINATED then Some k else ?body (k\<lparr>k_list := remove1 t (k_list k)\<rparr>))"
    by (simp add: reap_task_def e Let_def unmap_def unstack_def free_def)
  show "tasks_wf k'"
  proof (cases "t = k_idle k \<or> t = k_current k \<or> t_state e \<noteq> TASK_STATE_TERMINATED")
    case False
    then have "?body (k\<lparr>k_list := remove1 t (k_list k)\<rparr>) = Some k'" using r eq by simp
    then show ?thesis by (rule keeps_wfD [OF _ body]) (simp add: wf)
  qed (use r eq wf in simp)
qed

lemma task_switch_to_wf: "keeps_wf (task_switch_to h t)"
proof (rule keeps_wfI)
  fix k k' assume wf: "tasks_wf k" and r: "task_switch_to h t k = Some k'"
  then obtain k1 k2 e where k: "task_save_context k = Some k1" "task_load_context t k1 = Some k2" "k_tasks k2 t = Some e"
    "k' = (if t_pml4 e \<noteq> 0 then k2\<lparr>k_current_pml4 := t_pml4 e, k_cr3 := t_pml4 e - h\<rparr> else k2)\<lparr>k_rsp0 := t_kernel_stack e, k_current := t\<rparr>"
    unfolding task_switch_to_def Let_def Option.bind_eq_Some_conv by blast
  have "tasks_wf k1" using k(1) wf unfolding task_save_context_def by (rule upd_wfD) simp
  then have "tasks_wf k2" using k(2) by (auto simp: task_load_context_def Option.bind_eq_Some_conv)
  then show "tasks_wf k'" using k(4) by simp
qed

lemma sched_pick_wf: "keeps_wf (sched_pick h b)"
  unfolding keeps_wf_def sched_pick_def Let_def
  by (auto simp: Option.bind_eq_Some_conv split: if_splits dest!: upd_wfD keeps_wfD [OF _ task_switch_to_wf])

lemma scheduler_wf: "keeps_wf (scheduler h)"
proof (unfold keeps_wf_def, intro allI impI)
  fix k k' assume wf: "tasks_wf k" and s: "scheduler h k = Some k'"
  show "tasks_wf k'"
  proof (cases "k_enabled k")
    case True
    then obtain k1 c where r: "reap_terminated h k = Some k1" "k_tasks k1 (k_current k1) = Some c" using s by (auto simp: scheduler_def Option.bind_eq_Some_conv)
    have w1: "tasks_wf k1" using keeps_wfD [OF _ foldM_wf [OF reap_task_wf] wf] r(1) by (simp add: reap_terminated_def)
    have "tasks_wf (k1\<lparr>k_tasks := (k_tasks k1)(k_current k1 \<mapsto> c\<lparr>t_ticks_remaining := n\<rparr>)\<rparr>)" for n using w1 tasks_wfD [OF w1 r(2)] by (simp add: tasks_wf_set)
    then show ?thesis using s True r keeps_wfD [OF _ sched_pick_wf] w1 by (auto simp: scheduler_def Let_def split: if_splits)
  qed (use s wf in \<open>simp add: scheduler_def\<close>)
qed

lemma task_sleep_wf: "keeps_wf (task_sleep h ms)"
  unfolding keeps_wf_def task_sleep_def
  by (auto simp: Option.bind_eq_Some_conv split: if_splits dest!: upd_wfD keeps_wfD [OF _ scheduler_wf])

lemma task_block_wf: "keeps_wf (task_block h w)"
  unfolding keeps_wf_def task_block_def
  by (auto simp: Option.bind_eq_Some_conv split: if_splits dest!: upd_wfD keeps_wfD [OF _ scheduler_wf])

lemma task_create_wf: "keeps_wf (task_create h t entry nm pr u)"
proof -
  have "cwd_ok [47]" by (auto simp: cwd_ok_def TASK_CWD_MAX_def path_str_def intro!: exI [of _ "[]"])
  then show ?thesis unfolding keeps_wf_def task_create_def Let_def
    by (auto simp: Option.bind_eq_Some_conv split: if_splits simp: tasks_wf_def task_wf_def put_pages_def)
qed

lemma store_user_wf: "tasks_wf k \<Longrightarrow> store_user h a bs k = Some k' \<Longrightarrow> tasks_wf k'"
proof (induction bs arbitrary: a k)
  case (Cons b bs)
  then obtain p where "store_user h (a + 1) bs (k\<lparr>k_mem := (fst (k_mem k), (snd (k_mem k))(p := b))\<rparr>) = Some k'" by (auto simp: Option.bind_eq_Some_conv)
  then show ?case by (rule Cons.IH [rotated]) (simp add: Cons.prems(1))
qed simp

lemma put_dirents_wf: "tasks_wf k \<Longrightarrow> put_dirents h a ds k = Some k' \<Longrightarrow> tasks_wf k'"
  by (induction ds arbitrary: a k) (auto simp: Option.bind_eq_Some_conv dest: store_user_wf)

section \<open>Paths of the caller\<close>

lemma tokens_bytes: "t \<in> set (tokens [47] s) \<Longrightarrow> set t \<subseteq> set s"
proof (induction "[47] :: u8 list" s rule: tokens.induct)
  case (1 s)
  let ?r = "dropWhile (\<lambda>c. c \<in> set [47]) s"
  have d: "set (dropWhile P xs) \<subseteq> set xs" "set (takeWhile P xs) \<subseteq> set xs" "set (tl xs) \<subseteq> set xs" for P and xs :: "u8 list"
    by (auto dest: set_dropWhileD set_takeWhileD) (cases xs; simp)
  have sub: "set (tl (dropWhile (\<lambda>c. c \<notin> set [47]) ?r)) \<subseteq> set s" "set (takeWhile (\<lambda>c. c \<notin> set [47]) ?r) \<subseteq> set s"
    using d by (meson subset_trans)+
  show ?case
  proof (cases "?r = []")
    case True
    then show ?thesis using 1(2) unfolding tokens.simps [of _ s] Let_def by simp
  next
    case False
    have "tokens [47] s = takeWhile (\<lambda>c. c \<notin> set [47]) ?r # tokens [47] (tl (dropWhile (\<lambda>c. c \<notin> set [47]) ?r))"
      by (subst tokens.simps) (simp only: Let_def False if_False)
    then have "t = takeWhile (\<lambda>c. c \<notin> set [47]) ?r \<or> t \<in> set (tokens [47] (tl (dropWhile (\<lambda>c. c \<notin> set [47]) ?r)))"
      using 1(2) by (simp only: list.set insert_iff)
    then show ?thesis by (elim disjE) (simp only: sub(2), rule subset_trans [OF 1(1) [OF refl False] sub(1)])
  qed
qed

lemma fold_comps_bytes: "\<forall>c\<in>set comps \<union> set ts. z \<notin> set c \<Longrightarrow> c \<in> set (fold_comps comps ts) \<Longrightarrow> z \<notin> set c"
  by (induction comps ts rule: fold_comps.induct) (auto split: if_splits dest: in_set_butlastD)

lemma norm_path_bytes: "0 \<notin> set p \<Longrightarrow> 0 \<notin> set (path_str (norm_comps p))"
proof -
  assume z: "0 \<notin> set p"
  have "\<forall>c\<in>set [] \<union> set (tokens [47] p). 0 \<notin> set c" using tokens_bytes [of _ p] z by auto
  then have "0 \<notin> set c" if "c \<in> set (norm_comps p)" for c using fold_comps_bytes that unfolding norm_comps_def by blast
  then show ?thesis by (auto simp: path_str_def)
qed

lemma resolve_written:
  assumes r: "vfs_resolve_path base inp out = (True, out')"
  shows "length (path_str (norm_comps (abs_path base inp))) < length out"
    "\<exists>rest. out' = path_str (norm_comps (abs_path base inp)) @ 0 # rest"
proof -
  let ?cs = "norm_comps (abs_path base inp)"
  obtain w cs where w: "work_path base inp = Some w" "comp_stack [] (tokens [47] w) = Some cs"
    using r by (auto simp: vfs_resolve_path_def split: option.splits)
  have cs: "cs = ?cs" using comp_stack_fold [OF w(2)] work_path_tokens [OF w(1)] by (simp add: norm_comps_def)
  have "length (path_str ?cs) < length out \<and> (\<exists>rest. out' = path_str ?cs @ 0 # rest)"
  proof (cases "?cs = []")
    case True
    then have l: "2 \<le> length out" "out' = out[0 := 47, 1 := 0]" using r w cs by (simp_all add: vfs_resolve_path_def split: if_splits)
    then obtain a b rest where "out = a # b # rest" by (cases out; cases "tl out") auto
    then show ?thesis using l True by (simp add: path_str_def)
  next
    case False
    let ?n = "length (concat (map (\<lambda>c. 47 # c) ?cs))"
    have e: "emit_path out 0 ?cs = (True, out')" using r w cs False by (simp add: vfs_resolve_path_def split: list.splits)
    have "out \<noteq> []" using e False by (cases ?cs) auto
    then have "?n + 1 \<le> length out" using emit_path_fails [of out 0 ?cs] e by (cases "?n + 1 \<le> length out") auto
    then show ?thesis using emit_path_ok [of 0 ?cs out] e False by (simp add: path_str_def)
  qed
  then show "length (path_str ?cs) < length out" "\<exists>rest. out' = path_str ?cs @ 0 # rest" by simp_all
qed

lemma copy_chars_bytes: "copy_chars h k n a = Some (Inr cs) \<Longrightarrow> 0 \<notin> set cs"
proof (induction n arbitrary: a cs)
  case (Suc n)
  then obtain p r where p: "snd (k_mem k) p \<noteq> 0 \<longrightarrow> copy_chars h k n (a + 1) = Some r \<and> map_sum id (\<lambda>cs. snd (k_mem k) p # cs) r = Inr cs"
    "snd (k_mem k) p = 0 \<longrightarrow> cs = []"
    by (auto simp: Option.bind_eq_Some_conv Let_def split: if_splits)
  then show ?case using Suc.IH by (cases "snd (k_mem k) p = 0"; cases r) auto
qed simp

text \<open>A path that a call takes from its caller is an absolute normal path of the length its buffer allows.\<close>

lemma user_path_ok:
  assumes u: "user_path h n m upath k = Some (Inr p)" and wf: "tasks_wf k"
  obtains c path where "k_tasks k (k_current k) = Some c" "copy_user_str h k upath n = Some (Inr path)"
    "p = path_str (norm_comps (abs_path (t_cwd c) path))" "0 \<notin> set p" "length p < m"
proof -
  obtain path c out where p: "copy_user_str h k upath n = Some (Inr path)" "k_tasks k (k_current k) = Some c"
    "vfs_resolve_path (t_cwd c) path (replicate m 0) = (True, out)" "p = takeWhile (\<lambda>b. b \<noteq> 0) out"
  proof -
    obtain r where r: "copy_user_str h k upath n = Some r" using u by (auto simp: user_path_def elim: bind_SomeE)
    then obtain path where path: "r = Inr path" using u by (cases r) (auto simp: user_path_def)
    then obtain c where c: "k_tasks k (k_current k) = Some c" using u r by (auto simp: user_path_def elim: bind_SomeE)
    obtain ok out where o: "vfs_resolve_path (t_cwd c) path (replicate m 0) = (ok, out)" by fastforce
    then have "ok" "p = takeWhile (\<lambda>b. b \<noteq> 0) out" using u r path c by (simp_all add: user_path_def split: if_splits)
    then show ?thesis using that r path c o by simp
  qed
  have "0 \<notin> set (t_cwd c)" using tasks_wfD [OF wf p(2)] by (simp add: task_wf_def cwd_ok_def)
  moreover have "0 \<notin> set path" using p(1) copy_chars_bytes by (auto simp: copy_user_str_def split: if_splits)
  ultimately have "0 \<notin> set (path_str (norm_comps (abs_path (t_cwd c) path)))" by (intro norm_path_bytes) (auto simp: abs_path_def)
  moreover from this have "p = path_str (norm_comps (abs_path (t_cwd c) path))"
    using p(4) resolve_written(2) [OF p(3)] by (auto simp: takeWhile_append takeWhile_eq_all_conv)
  ultimately show ?thesis using that [OF p(2,1)] resolve_written(1) [OF p(3)] by simp
qed

lemma user_path_cwd:
  assumes "user_path h n TASK_CWD_MAX upath k = Some (Inr p)" "tasks_wf k"
  shows "cwd_ok p"
  using user_path_ok [OF assms] norm_comps_ok by (metis cwd_ok_def)

section \<open>The handlers keep tasks well formed\<close>

abbreviation lz_wf :: "'h lizard \<Rightarrow> bool" where "lz_wf s \<equiv> tasks_wf (lz_sys s)"

lemma in_vfs_sys:
  assumes "in_vfs f s = Some (r, s')"
  shows "\<exists>m. kn_sys s' = (kn_sys s)\<lparr>k_mem := m\<rparr>"
  using assms by (auto simp: in_vfs_def Option.bind_eq_Some_conv simp del: split_paired_Ex)

lemma on_vfs_sys:
  assumes "on_vfs f s = Some (r, s')"
  shows "\<exists>m. lz_sys s' = (lz_sys s)\<lparr>k_mem := m\<rparr>"
  using assms in_vfs_sys by (fastforce simp: on_vfs_def on_kern_def Option.bind_eq_Some_conv)

lemma on_vfs_wf: "on_vfs f s = Some (r, s') \<Longrightarrow> lz_wf s \<Longrightarrow> lz_wf s'"
  using on_vfs_sys by (metis tasks_wf_upd(3))

lemma on_unit_sys: "on_unit f s = Some s' \<Longrightarrow> \<exists>m. lz_sys s' = (lz_sys s)\<lparr>k_mem := m\<rparr>"
  using on_vfs_sys by (fastforce simp: on_unit_def Option.bind_eq_Some_conv)

lemma on_unit_wf: "on_unit f s = Some s' \<Longrightarrow> lz_wf s \<Longrightarrow> lz_wf s'"
  using on_unit_sys by (metis tasks_wf_upd(3))

lemma on_sys_eq: "on_sys f s = Some s' \<longleftrightarrow> (\<exists>k. f (lz_sys s) = Some k \<and> s' = s\<lparr>lz_kern := (lz_kern s)\<lparr>kn_sys := k\<rparr>\<rparr>)"
  by (auto simp: on_sys_def in_sys_def Option.bind_eq_Some_conv)

lemma on_sys_wf: "on_sys f s = Some s' \<Longrightarrow> keeps_wf f \<Longrightarrow> lz_wf s \<Longrightarrow> lz_wf s'"
  by (auto simp: on_sys_eq dest: keeps_wfD)

lemma store_keeps: "keeps_wf (store_user h a bs)" "keeps_wf (put_dirents h a ds)"
  using store_user_wf put_dirents_wf by (blast intro: keeps_wfI)+

lemma fd_clear_wf: "keeps_wf (fd_clear i t)"
  unfolding fd_clear_def by (rule upd_task_wf) simp

lemma close_fds_wf: "close_fds h t is s = Some s' \<Longrightarrow> lz_wf s \<Longrightarrow> lz_wf s'"
proof (induction "is" arbitrary: s)
  case (Cons i "is")
  then obtain e :: task and s1 where s1: "close_fds h t is s1 = Some s'"
    "(if t_fd_table e ! i = 0 then Some s else do { s \<leftarrow> on_unit (vfs_close h (t_fd_table e ! i)) s; on_sys (fd_clear i t) s }) = Some s1"
    unfolding close_fds.simps Let_def by (elim bind_SomeE) blast
  then have "lz_wf s1" using Cons.prems(2)
    by (auto split: if_splits elim!: bind_SomeE dest: on_unit_wf on_sys_wf [OF _ fd_clear_wf])
  then show ?case using Cons.IH s1(1) by blast
qed simp

lemmas handler_wf = on_vfs_wf on_unit_wf on_sys_wf [OF _ store_keeps(1)] on_sys_wf [OF _ store_keeps(2)] on_sys_wf [OF _ fd_clear_wf]
  on_sys_wf [OF _ task_block_wf] on_sys_wf [OF _ task_sleep_wf] on_sys_wf [OF _ scheduler_wf] on_sys_wf [OF _ task_exit_wf]

lemma sys_write_wf: "sys_write h font sector fd a n s = Some (r, s') \<Longrightarrow> lz_wf s \<Longrightarrow> lz_wf s'"
  unfolding sys_write_def by (auto split: if_splits elim!: bind_SomeE dest: handler_wf)

lemma sys_read_wf: "sys_read h fd a n s = Some (r, s') \<Longrightarrow> lz_wf s \<Longrightarrow> lz_wf s'"
  unfolding sys_read_def Let_def by (auto split: if_splits prod.splits elim!: bind_SomeE dest!: handler_wf)

lemma fd_alloc_wf: "fd_alloc f k = Some (fd, k') \<Longrightarrow> tasks_wf k \<Longrightarrow> tasks_wf k'"
  unfolding fd_alloc_def Let_def by (auto split: if_splits elim!: bind_SomeE upd_wfD)

lemma sys_open_wf: "sys_open h a fl s = Some (r, s') \<Longrightarrow> lz_wf s \<Longrightarrow> lz_wf s'"
  unfolding sys_open_def Let_def
  by (auto split: if_splits sum.splits elim!: bind_SomeE dest!: on_vfs_wf fd_alloc_wf on_unit_wf)

lemma sys_close_wf: "sys_close h fd s = Some (r, s') \<Longrightarrow> lz_wf s \<Longrightarrow> lz_wf s'"
  unfolding sys_close_def by (auto split: if_splits elim!: bind_SomeE dest!: handler_wf)

lemma sys_lseek_wf: "sys_lseek fd off wh s = Some (r, s') \<Longrightarrow> lz_wf s \<Longrightarrow> lz_wf s'"
  unfolding sys_lseek_def Let_def by (auto split: if_splits option.splits elim!: bind_SomeE)

lemma screen_wf:
  "sys_fb_info h a s = Some (r, s') \<Longrightarrow> lz_wf s \<Longrightarrow> lz_wf s'"
  "sys_fb_blit h a w ht s = Some (r, s') \<Longrightarrow> lz_wf s \<Longrightarrow> lz_wf s'"
  "sys_key_get s = Some (r, s') \<Longrightarrow> lz_wf s \<Longrightarrow> lz_wf s'"
  "sys_uptime_ms s = Some (r, s') \<Longrightarrow> lz_wf s \<Longrightarrow> lz_wf s'"
  "sys_getpid s = Some (r, s') \<Longrightarrow> lz_wf s \<Longrightarrow> lz_wf s'"
  unfolding sys_fb_info_def sys_fb_blit_def sys_key_get_def sys_uptime_ms_def sys_getpid_def Let_def
  by (auto split: if_splits prod.splits elim!: bind_SomeE dest!: handler_wf)

lemma sys_sleep_wf: "sys_sleep h ms s = Some (r, s') \<Longrightarrow> lz_wf s \<Longrightarrow> lz_wf s'"
  unfolding sys_sleep_def by (auto split: if_splits elim!: bind_SomeE dest!: handler_wf)

lemma sys_yield_wf: "sys_yield h s = Some (r, s') \<Longrightarrow> lz_wf s \<Longrightarrow> lz_wf s'"
  unfolding sys_yield_def task_yield_def by (auto elim!: bind_SomeE dest!: handler_wf)

lemma exit_code_wf: "keeps_wf (upd_task t (\<lambda>e. e\<lparr>t_exit_code := x\<rparr>))"
  by (rule upd_task_wf) simp

lemma sys_exit_wf: "sys_exit h code s = Some (r, s') \<Longrightarrow> lz_wf s \<Longrightarrow> lz_wf s'"
proof -
  assume r: "sys_exit h code s = Some (r, s')" and wf: "lz_wf s"
  let ?me = "k_current (lz_sys s)"
  obtain s1 s2 where s1: "(if ?me = 0 then Some s else do { s \<leftarrow> on_sys (upd_task ?me (\<lambda>e. e\<lparr>t_exit_code := sint (ucast code :: u32)\<rparr>)) s; task_close_all_fds h ?me s }) = Some s1"
    and s2: "on_sys task_exit (s1\<lparr>lz_kbd := keyboard_set_raw False (lz_kbd s1)\<rparr>) = Some s2" "on_sys (scheduler h) s2 = Some s'"
    using r unfolding sys_exit_def Let_def by (elim bind_SomeE) auto
  have "lz_wf s1"
  proof (cases "?me = 0")
    case False
    then obtain s0 where s0: "on_sys (upd_task ?me (\<lambda>e. e\<lparr>t_exit_code := sint (ucast code :: u32)\<rparr>)) s = Some s0" "task_close_all_fds h ?me s0 = Some s1"
      using s1 by (auto elim: bind_SomeE)
    show ?thesis by (rule close_fds_wf [OF s0(2) [unfolded task_close_all_fds_def]]) (rule on_sys_wf [OF s0(1) exit_code_wf wf])
  qed (use s1 wf in simp)
  then have "lz_wf s2" using on_sys_wf [OF s2(1) task_exit_wf] by simp
  then show "lz_wf s'" by (rule on_sys_wf [OF s2(2) scheduler_wf])
qed

lemma sys_waitpid_wf: "sys_waitpid h pid a s = Some (r, s') \<Longrightarrow> lz_wf s \<Longrightarrow> lz_wf s'"
  unfolding sys_waitpid_def Let_def
  by (auto simp: on_sys_eq split: if_splits wait_result.splits elim!: bind_SomeE
      dest!: task_waitpid_wf [rotated] keeps_wfD [OF _ scheduler_wf] keeps_wfD [OF _ store_keeps(1)])

lemma sys_readdir_wf: "sys_readdir h fd a n s = Some (r, s') \<Longrightarrow> lz_wf s \<Longrightarrow> lz_wf s'"
  unfolding sys_readdir_def Let_def by (auto split: if_splits prod.splits elim!: bind_SomeE dest!: handler_wf)

lemma sys_getcwd_wf: "sys_getcwd h a n s = Some (r, s') \<Longrightarrow> lz_wf s \<Longrightarrow> lz_wf s'"
  unfolding sys_getcwd_def Let_def by (auto split: if_splits elim!: bind_SomeE dest!: handler_wf)

lemma sys_mkdir_wf: "sys_mkdir h a s = Some (r, s') \<Longrightarrow> lz_wf s \<Longrightarrow> lz_wf s'"
  unfolding sys_mkdir_def by (auto split: if_splits sum.splits option.splits elim!: bind_SomeE dest!: on_vfs_wf)

lemma do_remove_wf: "do_remove h a b s = Some (r, s') \<Longrightarrow> lz_wf s \<Longrightarrow> lz_wf s'"
  unfolding do_remove_def by (auto split: if_splits sum.splits option.splits elim!: bind_SomeE dest!: on_vfs_wf)

lemma set_cwd_wf: "cwd_ok p \<Longrightarrow> keeps_wf (upd_task t (\<lambda>e. e\<lparr>t_cwd := p\<rparr>))"
  by (rule upd_task_wf) (simp add: task_wf_def)

lemma sys_chdir_wf: "sys_chdir h a s = Some (r, s') \<Longrightarrow> lz_wf s \<Longrightarrow> lz_wf s'"
  unfolding sys_chdir_def
  by (auto split: if_splits sum.splits option.splits elim!: bind_SomeE
      dest!: on_vfs_wf user_path_cwd [THEN set_cwd_wf, THEN on_sys_wf [rotated]])

section \<open>Starting a program\<close>

abbreviation kn_wf :: "'h kern \<Rightarrow> bool" where "kn_wf s \<equiv> tasks_wf (kn_sys s)"

lemma in_vfs_wf: "in_vfs f s = Some (r, s') \<Longrightarrow> kn_wf s \<Longrightarrow> kn_wf s'"
  using in_vfs_sys by (metis tasks_wf_upd(3))

lemma close_file_wf: "close_file h f s = Some s' \<Longrightarrow> kn_wf s \<Longrightarrow> kn_wf s'"
  unfolding close_file_def by (auto elim!: bind_SomeE dest: in_vfs_wf)

lemma in_sys_wf: "in_sys f s = Some s' \<Longrightarrow> keeps_wf f \<Longrightarrow> kn_wf s \<Longrightarrow> kn_wf s'"
  by (auto simp: in_sys_def elim!: bind_SomeE dest: keeps_wfD)

lemma put_kernel_wf [simp]: "tasks_wf (put_kernel p bs k) = tasks_wf k"
  by (simp add: put_kernel_def)

lemma load_page_wf: "load_page h pml4 f ph j s = Some (ok, s') \<Longrightarrow> kn_wf s \<Longrightarrow> kn_wf s'"
  unfolding load_page_def Let_def by (auto split: if_splits elim!: bind_SomeE dest!: in_vfs_wf)

lemma load_pages_wf: "load_pages h pml4 f ph is s = Some (ok, s') \<Longrightarrow> kn_wf s \<Longrightarrow> kn_wf s'"
  by (induction "is" arbitrary: s) (auto split: if_splits elim!: bind_SomeE dest: load_page_wf)

lemma load_segments_wf: "load_segments h pml4 f phs s = Some (ok, s') \<Longrightarrow> kn_wf s \<Longrightarrow> kn_wf s'"
  by (induction phs arbitrary: s) (auto split: if_splits elim!: bind_SomeE dest: load_pages_wf)

lemma set_regs_wf: "keeps_wf (upd_task t (\<lambda>e. e\<lparr>t_regs := f e\<rparr>))"
  by (rule upd_task_wf) simp

lemma set_stack_wf: "keeps_wf (\<lambda>k. upd_task t (\<lambda>e. e\<lparr>t_regs := f e\<rparr>) (k\<lparr>k_mem := (fst (k_mem k), m)\<rparr>))"
  using keeps_wfD [OF _ set_regs_wf] by (fastforce intro: keeps_wfI)

lemma load_elf_wf: "load_elf h f t argv s = Some (rc, s') \<Longrightarrow> kn_wf s \<Longrightarrow> kn_wf s'"
  unfolding load_elf_def Let_def
  by (auto split: if_splits elim!: bind_SomeE dest!: in_vfs_wf load_segments_wf in_sys_wf [OF _ set_regs_wf] in_sys_wf [OF _ set_stack_wf])

lemma join_tree_wf: "keeps_wf (join_tree t)"
proof (rule keeps_wfI)
  fix k k' assume wf: "tasks_wf k" and j: "join_tree t k = Some k'"
  then obtain k1 k2 where k: "upd_task t (\<lambda>e. e\<lparr>t_parent := k_current k\<rparr>) k = Some k1" "link_sibling t (k_current k1) k1 = Some k2" "task_set_ready t k2 = Some k'"
    unfolding join_tree_def by (elim bind_SomeE) auto
  have "tasks_wf k1" using k(1) wf by (rule upd_wfD) simp
  then have "tasks_wf k2" by (rule keeps_wfD [OF k(2) link_sibling_wf])
  with k(3) show "tasks_wf k'" unfolding task_set_ready_def by (rule upd_wfD) simp
qed

lemma task_flag_wf: "keeps_wf (upd_task t (\<lambda>e. e\<lparr>t_on_heap := b\<rparr>))" "keeps_wf (upd_task t (\<lambda>e. e\<lparr>t_state := st\<rparr>))"
  by (rule upd_task_wf, simp)+

lemma cwd_whole: "cwd_ok c \<Longrightarrow> take (TASK_CWD_MAX - Suc 0) c = c"
  by (auto simp: cwd_ok_def TASK_CWD_MAX_def)

lemma inherit_wf: "in_sys (upd_task t (\<lambda>e. e\<lparr>t_cwd := take (TASK_CWD_MAX - Suc 0) (t_cwd c)\<rparr>)) s = Some s' \<Longrightarrow> k_tasks (kn_sys s) u = Some c \<Longrightarrow> kn_wf s \<Longrightarrow> kn_wf s'"
proof -
  assume i: "in_sys (upd_task t (\<lambda>e. e\<lparr>t_cwd := take (TASK_CWD_MAX - Suc 0) (t_cwd c)\<rparr>)) s = Some s'" "k_tasks (kn_sys s) u = Some c" and wf: "kn_wf s"
  have "cwd_ok (t_cwd c)" using tasks_wfD [OF wf i(2)] by (simp add: task_wf_def)
  then have "keeps_wf (upd_task t (\<lambda>e. e\<lparr>t_cwd := take (TASK_CWD_MAX - Suc 0) (t_cwd c)\<rparr>))" by (simp add: cwd_whole set_cwd_wf)
  then show "kn_wf s'" using in_sys_wf [OF i(1)] wf by blast
qed

lemma spawn_wf: "spawn h path argv s = Some (pid, s') \<Longrightarrow> kn_wf s \<Longrightarrow> kn_wf s'"
  unfolding spawn_def Let_def
  by (auto split: if_splits elim!: bind_SomeE dest!: in_vfs_wf close_file_wf in_sys_wf [OF _ task_create_wf] in_sys_wf [OF _ task_flag_wf(1)]
      in_sys_wf [OF _ task_flag_wf(2)] inherit_wf load_elf_wf in_sys_wf [OF _ join_tree_wf])

lemma sys_spawn_wf: "sys_spawn h a b s = Some (r, s') \<Longrightarrow> lz_wf s \<Longrightarrow> lz_wf s'"
  unfolding sys_spawn_def by (auto simp: on_kern_def split: if_splits sum.splits elim!: bind_SomeE dest!: spawn_wf)

section \<open>Every call\<close>

lemmas calls_wf = sys_write_wf sys_read_wf sys_open_wf sys_close_wf sys_lseek_wf screen_wf sys_sleep_wf sys_yield_wf sys_exit_wf sys_waitpid_wf
  sys_readdir_wf sys_getcwd_wf sys_mkdir_wf do_remove_wf sys_chdir_wf sys_spawn_wf

lemma syscall_table_wf: "syscall_table h font sector nr a0 a1 a2 = Some f \<Longrightarrow> f s = Some (r, s') \<Longrightarrow> lz_wf s \<Longrightarrow> lz_wf s'"
  unfolding syscall_table_def sys_unlink_def sys_rmdir_def by (auto split: if_splits dest: calls_wf)

text \<open>
  Property C20. Whatever system call is made with whatever registers, every task keeps what the code takes for granted of it: a working directory
  that is an absolute path in normal form, free of terminators and short enough for its field, and a table of sixteen descriptors.
\<close>

theorem syscalls_keep_tasks_wf:
  assumes "tasks_wf (lz_sys s)" "syscall_handler_c h font sector regs s = Some (r, regs', s')"
  shows "tasks_wf (lz_sys s')"
  using assms unfolding syscall_handler_c_def by (auto elim!: bind_SomeE split: option.splits dest: syscall_table_wf)

section \<open>The caller's memory\<close>

lemma user_kva_mem [simp]: "user_kva h (k\<lparr>k_mem := m\<rparr>) a = user_kva h k a"
  by (simp add: user_kva_def)

lemma user_kva_canonical: "user_kva h k a = Some p \<Longrightarrow> canonical a"
  by (simp add: user_kva_def Let_def split: if_splits)

lemma canonical_next: "a < 0x800000000000 \<Longrightarrow> canonical (a + 1) \<Longrightarrow> a + 1 < 0x800000000000" for a :: u64
proof -
  assume a: "a < 0x800000000000" "canonical (a + 1)"
  have u: "unat (a + 1) = unat a + 1" using a(1) unat_add_nat [of a 1] by (simp add: word_less_nat_alt)
  then show "a + 1 < 0x800000000000" using a by (auto simp: canonical_def word_less_nat_alt word_le_nat_alt)
qed

text \<open>A run of accesses that starts in the user half cannot leave it: it would have to pass an address that is not canonical.\<close>

lemma run_low:
  assumes "\<And>i. i < n \<Longrightarrow> canonical (a + of_nat i)" "a < BOOT_HHDM_BASE" "i < n"
  shows "a + of_nat i < 0x800000000000"
  using assms(3)
proof (induction i)
  case 0
  then show ?case using assms(1) [of 0] assms(2) by (auto simp: canonical_def BOOT_HHDM_BASE_def)
next
  case (Suc i)
  then show ?case using canonical_next [of "a + of_nat i"] assms(1) [of "Suc i"] by (simp add: ac_simps)
qed

lemma load_user_run:
  "load_user h k n a = (if \<forall>i<n. user_kva h k (a + of_nat i) \<noteq> None then Some (map (\<lambda>i. snd (k_mem k) (the (user_kva h k (a + of_nat i)))) [0..<n]) else None)"
proof (induction n arbitrary: a)
  case (Suc n)
  have all: "(\<forall>i<Suc n. P i) \<longleftrightarrow> P 0 \<and> (\<forall>i<n. P (Suc i))" for P using less_Suc_eq_0_disj by auto
  have up: "[0..<Suc n] = 0 # map Suc [0..<n]" by (simp add: map_Suc_upt upt_conv_Cons)
  have sh: "a + 1 + of_nat i = a + of_nat (Suc i)" for i by simp
  show ?case unfolding load_user.simps Suc.IH up all sh by (cases "user_kva h k a") (simp_all add: comp_def)
qed simp

lemma load_user_eq:
  "load_user h k n a = Some bs \<longleftrightarrow> (\<forall>i<n. user_kva h k (a + of_nat i) \<noteq> None) \<and> bs = map (\<lambda>i. snd (k_mem k) (the (user_kva h k (a + of_nat i)))) [0..<n]"
proof -
  have "(if c then Some x else None) = Some y \<longleftrightarrow> c \<and> y = x" for c and x y :: "u8 list" by auto
  then show ?thesis unfolding load_user_run .
qed

definition write_all :: "(u64 \<times> u8) list \<Rightarrow> bmem \<Rightarrow> bmem" where
  "write_all = fold (\<lambda>(p, b) m. m(p := b))"

lemma write_all_other: "p \<notin> fst ` set ws \<Longrightarrow> write_all ws m p = m p"
  by (induction ws arbitrary: m) (auto simp: write_all_def)

lemma write_all_read: "distinct ps \<Longrightarrow> length ps = length bs \<Longrightarrow> map (write_all (zip ps bs) m) ps = bs"
proof (induction ps bs arbitrary: m rule: list_induct2')
  case (4 p ps b bs)
  have "write_all (zip (p # ps) (b # bs)) m = write_all (zip ps bs) (m(p := b))" by (simp add: write_all_def)
  moreover have "p \<notin> fst ` set (zip ps bs)" using 4(2) by (auto dest: set_zip_leftD)
  ultimately show ?case using 4 write_all_other [of p "zip ps bs" "m(p := b)"] by simp
qed simp_all

lemma store_user_eq:
  "store_user h a bs k = Some k' \<longleftrightarrow> (\<forall>i<length bs. user_kva h k (a + of_nat i) \<noteq> None) \<and>
     k' = k\<lparr>k_mem := (fst (k_mem k), write_all (zip (map (\<lambda>i. the (user_kva h k (a + of_nat i))) [0..<length bs]) bs) (snd (k_mem k)))\<rparr>"
proof (induction bs arbitrary: a k)
  case (Cons b bs)
  have all: "(\<forall>i<Suc n. P i) \<longleftrightarrow> P 0 \<and> (\<forall>i<n. P (Suc i))" for P n using less_Suc_eq_0_disj by auto
  have "[0..<Suc n] = 0 # map Suc [0..<n]" for n by (simp add: map_Suc_upt upt_conv_Cons)
  then show ?case by (auto simp: Option.bind_eq_Some_conv Cons.IH all ac_simps write_all_def comp_def fun_upd_def simp del: upt_Suc)
qed (auto simp: write_all_def)


section \<open>Changing directory\<close>

definition user_buf :: "u64 \<Rightarrow> ksys \<Rightarrow> u64 \<Rightarrow> nat \<Rightarrow> bool" where
  "user_buf h k a n \<longleftrightarrow> (\<forall>i<n. user_kva h k (a + of_nat i) \<noteq> None) \<and> distinct (map (\<lambda>i. user_kva h k (a + of_nat i)) [0..<n])"

lemma store_then_load:
  assumes "user_buf h k a (length bs)"
  shows "\<exists>k'. store_user h a bs k = Some k' \<and> load_user h k' (length bs) a = Some bs"
proof -
  let ?ps = "map (\<lambda>i. the (user_kva h k (a + of_nat i))) [0..<length bs]"
  have m: "\<forall>i<length bs. user_kva h k (a + of_nat i) \<noteq> None" using assms by (simp add: user_buf_def)
  have "distinct ?ps"
  proof -
    have "inj_on (\<lambda>i. user_kva h k (a + of_nat i)) {0..<length bs}" using assms by (simp add: user_buf_def distinct_map)
    moreover have "user_kva h k (a + of_nat i) = Some (the (user_kva h k (a + of_nat i)))" if "i \<in> {0..<length bs}" for i using m that by auto
    ultimately have "inj_on (\<lambda>i. the (user_kva h k (a + of_nat i))) {0..<length bs}" unfolding inj_on_def by metis
    then show ?thesis by (simp add: distinct_map)
  qed
  from write_all_read [OF this, of bs "snd (k_mem k)"]
  have "map (\<lambda>i. write_all (zip ?ps bs) (snd (k_mem k)) (the (user_kva h k (a + of_nat i)))) [0..<length bs] = bs" by (simp add: comp_def)
  then show ?thesis using m
    by (intro exI [of _ "k\<lparr>k_mem := (fst (k_mem k), write_all (zip ?ps bs) (snd (k_mem k)))\<rparr>"]) (simp add: store_user_eq load_user_eq)
qed

lemma user_path_error: "user_path h n m a k = Some (Inl e) \<Longrightarrow> e < 0"
proof -
  assume u: "user_path h n m a k = Some (Inl e)"
  have c: "copy_chars h k n b = Some (Inl e') \<Longrightarrow> e' < 0" for b e' n
  proof (induction n arbitrary: b)
    case (Suc n)
    then obtain r where "copy_chars h k n (b + 1) = Some r" "r = Inl e'"
      by (auto simp: Let_def split: if_splits elim!: bind_SomeE) (case_tac xa; simp)
    then show ?case using Suc.IH by blast
  qed (simp add: EINVAL_def)
  obtain r where r: "copy_user_str h k a n = Some r" using u by (auto simp: user_path_def elim: bind_SomeE)
  show "e < 0"
  proof (cases r)
    case (Inl x)
    then show ?thesis using u r c by (auto simp: user_path_def copy_user_str_def EFAULT_def split: if_splits)
  next
    case (Inr x)
    then show ?thesis using u r by (auto simp: user_path_def Let_def ENAMETOOLONG_def elim!: bind_SomeE split: prod.splits if_splits)
  qed
qed

text \<open>
  Property C22. The directory that a task has entered is the one it is told: after a successful \<^verbatim>\<open>chdir\<close>, \<^verbatim>\<open>getcwd\<close> into any mapped buffer that is large
  enough stores the normal form of the path, taken from the old working directory, with its terminator, and returns its length.
\<close>

theorem chdir_getcwd:
  assumes "tasks_wf (lz_sys s)" "sys_chdir h upath s = Some (Ret 0, s1)"
    and "k_tasks (lz_sys s) (k_current (lz_sys s)) = Some c" "copy_user_str h (lz_sys s) upath TASK_CWD_MAX = Some (Inr path)"
    and "p = path_str (norm_comps (abs_path (t_cwd c) path))"
    and "user_ptr_ok ubuf n" "length p < unat n" "user_buf h (lz_sys s) ubuf (length p + 1)"
  shows "\<exists>s2. sys_getcwd h ubuf n s1 = Some (Ret (int (length p)), s2) \<and> load_user h (lz_sys s2) (length p + 1) ubuf = Some (p @ [0])"
proof -
  obtain r where r: "user_path h TASK_CWD_MAX TASK_CWD_MAX upath (lz_sys s) = Some r" using assms(2) by (auto simp: sys_chdir_def elim: bind_SomeE)
  then obtain q where q: "r = Inr q" using user_path_error assms(2) by (cases r) (fastforce simp: sys_chdir_def)+
  have qp: "q = p" using user_path_ok [OF r [unfolded q] assms(1)] assms(3-5) by (metis Inr_inject option.inject)
  obtain s0 d where d: "on_vfs (probe_path h p) s = Some (d, s0)" using assms(2) r q qp by (auto simp: sys_chdir_def elim!: bind_SomeE)
  then have "on_sys (upd_task (k_current (lz_sys s0)) (\<lambda>e. e\<lparr>t_cwd := p\<rparr>)) s0 = Some s1"
    using assms(2) r q qp by (auto simp: sys_chdir_def ENOENT_def ENOTDIR_def split: option.splits if_splits elim!: bind_SomeE)
  moreover obtain m where m: "lz_sys s0 = (lz_sys s)\<lparr>k_mem := m\<rparr>" using on_vfs_sys [OF d] by blast
  ultimately have s1: "lz_sys s1 = (lz_sys s0)\<lparr>k_tasks := (k_tasks (lz_sys s))(k_current (lz_sys s) \<mapsto> c\<lparr>t_cwd := p\<rparr>)\<rparr>"
    using assms(3) by (auto simp: on_sys_eq upd_task_def)
  have "user_kva h (lz_sys s1) a = user_kva h (lz_sys s) a" for a by (simp add: s1 m user_kva_def)
  then have "user_buf h (lz_sys s1) ubuf (length (p @ [0]))" using assms(8) by (simp add: user_buf_def)
  from store_then_load [OF this] obtain k2 where k2: "store_user h ubuf (p @ [0]) (lz_sys s1) = Some k2" "load_user h k2 (length (p @ [0])) ubuf = Some (p @ [0])" by blast
  have "0 < sint n"
  proof -
    have "n \<noteq> 0" "0 \<le> sint n" using assms(6,7) by (auto simp: user_ptr_ok_def)
    then show ?thesis by (metis order_le_less signed_0 signed_word_eqI)
  qed
  then have "sys_getcwd h ubuf n s1 = Some (Ret (int (length p)), s1\<lparr>lz_kern := (lz_kern s1)\<lparr>kn_sys := k2\<rparr>\<rparr>)"
    using assms(6,7) k2(1) by (simp add: sys_getcwd_def s1 m on_sys_def in_sys_def)
  then show ?thesis using k2(2) by auto
qed

section \<open>Descriptors\<close>

text \<open>
  Property C23. Descriptors are handed out lowest first: an open file gets the first free entry of the table as the number 3 and up, is found
  there, every other descriptor is left alone, and clearing the entry restores the table. Only a full table is refused, unchanged.
\<close>

theorem fd_alloc_lowest:
  assumes "tasks_wf k" "k_current k \<noteq> 0" "k_tasks k (k_current k) = Some c" "f \<noteq> 0"
  shows "\<exists>fd k1. fd_alloc f k = Some (fd, k1) \<and>
    (if 0 \<in> set (t_fd_table c)
     then 3 \<le> fd \<and> fd < 19 \<and> fd_get (of_int fd) k = Some 0 \<and> (\<forall>j. 3 \<le> j \<and> j < fd \<longrightarrow> fd_get (of_int j) k \<noteq> Some 0) \<and>
       (\<forall>j. 3 \<le> j \<and> j < 19 \<longrightarrow> fd_get (of_int j) k1 = (if j = fd then Some f else fd_get (of_int j) k)) \<and>
       fd_clear (nat (fd - 3)) (k_current k) k1 = Some k
     else fd = - 1 \<and> k1 = k)"
proof -
  let ?t = "t_fd_table c" and ?i = "length (takeWhile (\<lambda>x. x \<noteq> 0) (t_fd_table c))"
  have len: "length ?t = 16" using tasks_wfD [OF assms(1,3)] by (simp add: task_wf_def TASK_MAX_FDS_def)
  have get: "fd_get (of_int j) k' = map_option (\<lambda>e. t_fd_table e ! nat (j - 3)) (k_tasks k' (k_current k'))"
    if "3 \<le> j" "j < 19" "k_current k' \<noteq> 0" for j k'
  proof -
    have "sint (of_int j :: u64) = j" using that(1,2) sint_add_small [of j 0] by simp
    then show ?thesis using that by (cases "k_tasks k' (k_current k')") (simp_all add: fd_get_def TASK_FD_BASE_def TASK_MAX_FDS_def)
  qed
  have before: "?t ! j \<noteq> 0" if "j < ?i" for j
    using that nth_mem [of j "takeWhile (\<lambda>x. x \<noteq> 0) ?t"] takeWhile_nth [of j "\<lambda>x. x \<noteq> 0" ?t] by (auto dest: set_takeWhileD)
  have run: "fd_alloc f k = (if ?i < 16 then Some (3 + int ?i, k\<lparr>k_tasks := (k_tasks k)(k_current k \<mapsto> c\<lparr>t_fd_table := ?t[?i := f]\<rparr>)\<rparr>) else Some (- 1, k))"
    using assms(3) len by (simp add: fd_alloc_def upd_task_def TASK_MAX_FDS_def TASK_FD_BASE_def Let_def)
  show ?thesis
  proof (cases "0 \<in> set ?t")
    case True
    then have i: "?i < 16" using len length_takeWhile_le [of "\<lambda>x. x \<noteq> 0" ?t] takeWhile_eq_all_conv [of "\<lambda>x. x \<noteq> 0" ?t] takeWhile_eq_take [of "\<lambda>x. x \<noteq> 0" ?t]
      by (metis le_neq_implies_less take_all_iff order_refl)
    have z: "?t ! ?i = 0" using nth_length_takeWhile [of "\<lambda>x. x \<noteq> 0" ?t] i len by simp
    let ?k1 = "k\<lparr>k_tasks := (k_tasks k)(k_current k \<mapsto> c\<lparr>t_fd_table := ?t[?i := f]\<rparr>)\<rparr>"
    have free: "fd_get (of_int (3 + int ?i)) k = Some 0" using get [of "3 + int ?i" k] i z assms(2,3) by simp
    have used: "fd_get (of_int j) k \<noteq> Some 0" if "3 \<le> j" "j < 3 + int ?i" for j
    proof -
      have "?t ! nat (j - 3) \<noteq> 0" using that by (intro before) auto
      moreover have "j < 19" using that i by simp
      ultimately show ?thesis using get [of j k] that(1) assms(2,3) by simp
    qed
    have after: "fd_get (of_int j) ?k1 = (if j = 3 + int ?i then Some f else fd_get (of_int j) k)" if "3 \<le> j" "j < 19" for j
    proof -
      have "nat (j - 3) = ?i \<longleftrightarrow> j = 3 + int ?i" using that by auto
      then show ?thesis using get [OF that, of ?k1] get [OF that, of k] assms(2,3) i len that(1) by (auto simp: nth_list_update)
    qed
    have "?t[?i := 0] = ?t" using z by (metis list_update_id)
    then have restored: "fd_clear (nat (3 + int ?i - 3)) (k_current k) ?k1 = Some k" using assms(3) by (simp add: fd_clear_def upd_task_def fun_upd_idem)
    show ?thesis using True run i free used after restored by (intro exI [of _ "3 + int ?i"] exI [of _ ?k1]) simp
  next
    case False
    then have "?i = 16" using len by (metis (mono_tags, lifting) takeWhile_eq_all_conv)
    then show ?thesis using run False by simp
  qed
qed

section \<open>A task in the root directory\<close>

definition demo_caller :: ksys where
  "demo_caller = demo_sys\<lparr>k_current_pml4 := 0xFFFF800000001000, k_words := demo_words,
     k_mem := (demo_heap, (\<lambda>_. 0)(0xFFFF800000005000 := 47, 0xFFFF800000005001 := 46))\<rparr>"

definition demo_root :: "(u64 \<Rightarrow> u8 list) vfs" where
  "demo_root = \<lparr>v_dentries = [0x8000 \<mapsto> \<lparr>d_name = [47], d_children = [], d_parent = 0x8000, d_inode = 0x9000, d_refcount = 1\<rparr>],
     v_inodes = [0x9000 \<mapsto> \<lparr>in_ptr = 0x9000, in_info = 0xA000, in_mode = FAT16_MODE_DIR, in_size = 0, fi_ent = zero_entry, fi_loc = \<lparr>dl_lba = 0, dl_off = 0\<rparr>\<rparr>],
     v_files = Map.empty, v_types = [], v_type_count = 0, v_root = 0x8000, v_fs = demo_fs, v_mem = (demo_heap, \<lambda>_. 0), v_now = (0, 0)\<rparr>"

definition demo_lizard :: "(u64 \<Rightarrow> u8 list) lizard" where
  "demo_lizard = \<lparr>lz_kern = \<lparr>kn_sys = demo_caller, kn_vfs = demo_root\<rparr>, lz_tty = demo_tty, lz_kbd = \<lparr>kb_ring = demo_ring, kb_raw = False\<rparr>,
     lz_time = \<lparr>wall_clock = \<lparr>sec = 0, nsec = 0\<rparr>, mono_clock = \<lparr>sec = 0, nsec = 0\<rparr>, boot_wall = \<lparr>sec = 0, nsec = 0\<rparr>, boot_mono = \<lparr>sec = 0, nsec = 0\<rparr>\<rparr>\<rparr>"

lemma demo_wf: "tasks_wf demo_caller"
proof -
  have "cwd_ok [47]" by (auto simp: cwd_ok_def TASK_CWD_MAX_def path_str_def intro!: exI [of _ "[]"])
  then show ?thesis by (auto simp: tasks_wf_def task_wf_def demo_caller_def demo_sys_def demo_task_def TASK_MAX_FDS_def split: if_splits)
qed

lemma demo_user: "i < 4096 \<Longrightarrow> user_kva demo_h demo_caller (0x700000000000 + of_nat i) = Some (0xFFFF800000005000 + of_nat i)"
proof -
  assume i: "i < 4096"
  have u: "unat (0x700000000000 + of_nat i :: u64) = 0x700000000000 + i" "unat (0xFFFF800000005000 + of_nat i :: u64) = 0xFFFF800000005000 + i"
    using i by (simp_all add: unat_add_nat)
  then have "canonical (0x700000000000 + of_nat i)" using i by (simp add: canonical_def word_less_nat_alt)
  moreover have "0xFFFF800000005000 + of_nat i \<noteq> (0 :: u64)" using u(2) by (metis add_is_0 unat_0 zero_neq_numeral)
  ultimately show ?thesis using demo_kva [OF i] by (simp add: user_kva_def demo_caller_def demo_h_def)
qed

lemma demo_byte: "i < 4096 \<Longrightarrow> snd (k_mem demo_caller) (0xFFFF800000005000 + of_nat i) = (if i = 0 then 47 else if i = 1 then 46 else 0)"
proof -
  assume i: "i < 4096"
  have "(0xFFFF800000005000 + of_nat i = (0xFFFF800000005000 + of_nat j :: u64)) \<longleftrightarrow> i = j" if "j < 4096" for j
    using unat_add_nat [of "0xFFFF800000005000" i] unat_add_nat [of "0xFFFF800000005000" j] i that by (simp add: word_unat_eq_iff)
  from this [of 0] this [of 1] show ?thesis by (simp add: demo_caller_def)
qed

lemma demo_path: "copy_user_str demo_h demo_caller 0x700000000000 128 = Some (Inr [47, 46])"
proof -
  have ok: "user_ptr_ok 0x700000000000 128" by (simp add: user_ptr_ok_def BOOT_HHDM_BASE_def)
  have nz: "(46 :: u8) \<noteq> 0" "(47 :: u8) \<noteq> 0" by simp_all
  have c: "copy_chars demo_h demo_caller (Suc n) (0x700000000000 + of_nat i) =
      (if i < 2 then map_option (map_sum id (\<lambda>cs. (if i = 0 then 47 else 46) # cs)) (copy_chars demo_h demo_caller n (0x700000000000 + of_nat (Suc i))) else Some (Inr []))"
    if "i < 4096" for n i
    using demo_user [OF that] demo_byte [OF that] nz by (cases "copy_chars demo_h demo_caller n (0x700000000000 + of_nat (Suc i))") (auto simp: Let_def ac_simps)
  have "copy_chars demo_h demo_caller (Suc (Suc (Suc 125))) (0x700000000000 + of_nat 0) = Some (Inr [47, 46])"
    by (subst c, simp, subst c, simp, subst c, simp, simp)
  then show ?thesis using ok by (simp add: copy_user_str_def)
qed

lemma demo_chdir: "\<exists>s1. sys_chdir demo_h 0x700000000000 demo_lizard = Some (Ret 0, s1)"
proof -
  have "tokens [47] [47, 46] = [[46]]" using tokens_delim [of "[46]"] tokens_word [of "[46]" "[]"] by simp
  moreover have "replicate 128 0 = 0 # 0 # replicate 126 (0 :: u8)" using replicate_Suc [of 127 "0 :: u8"] replicate_Suc [of 126 "0 :: u8"] by simp
  ultimately have "vfs_resolve_path [47] [47, 46] (replicate 128 0) = (True, 47 # 0 # replicate 126 0)"
    by (simp add: vfs_resolve_path_def work_path_def work_append_eq)
  moreover have "k_tasks demo_caller (k_current demo_caller) = Some (demo_task 2 TASK_STATE_RUNNING)" "t_cwd (demo_task 2 TASK_STATE_RUNNING) = [47]"
    by (simp_all add: demo_caller_def demo_sys_def demo_task_def)
  ultimately have "user_path demo_h 128 128 0x700000000000 demo_caller = Some (Inr [47])" by (simp add: user_path_def demo_path)
  moreover obtain v where "probe_path demo_h [47] (demo_root\<lparr>v_mem := k_mem demo_caller\<rparr>) = Some (Some True, v)"
  proof -
    have "\<exists>v. probe_path demo_h [47] (demo_root\<lparr>v_mem := k_mem demo_caller\<rparr>) = Some (Some True, v)"
      by (simp add: probe_path_def vfs_path_lookup_def vfs_get_root_def dentry_get_def dentry_put_def demo_root_def FAT16_MODE_DIR_def S_IFDIR_MASK_def)
    then show ?thesis using that by blast
  qed
  moreover obtain k where "upd_task (k_current demo_caller) (\<lambda>e. e\<lparr>t_cwd := [47]\<rparr>) (demo_caller\<lparr>k_mem := v_mem v\<rparr>) = Some k"
    by (simp add: upd_task_def demo_caller_def demo_sys_def)
  ultimately show ?thesis
    by (simp add: sys_chdir_def TASK_CWD_MAX_def demo_lizard_def on_vfs_def on_kern_def in_vfs_def on_sys_def in_sys_def)
qed

lemma demo_buf: "user_buf demo_h demo_caller 0x700000000100 2"
proof -
  have "user_kva demo_h demo_caller 0x700000000100 = Some 0xFFFF800000005100" "user_kva demo_h demo_caller 0x700000000101 = Some 0xFFFF800000005101"
    using demo_user [of 256] demo_user [of 257] by simp_all
  then show ?thesis by (auto simp: user_buf_def numeral_2_eq_2 less_Suc_eq)
qed

theorem chdir_getcwd_witness:
  "\<exists>s1 s2. sys_chdir demo_h 0x700000000000 demo_lizard = Some (Ret 0, s1) \<and> sys_getcwd demo_h 0x700000000100 8 s1 = Some (Ret 1, s2) \<and>
     load_user demo_h (lz_sys s2) 2 0x700000000100 = Some [47, 0]"
proof -
  obtain s1 where s1: "sys_chdir demo_h 0x700000000000 demo_lizard = Some (Ret 0, s1)" using demo_chdir by blast
  have sys: "lz_sys demo_lizard = demo_caller" by (simp add: demo_lizard_def)
  have c: "k_tasks demo_caller (k_current demo_caller) = Some (demo_task 2 TASK_STATE_RUNNING)" by (simp add: demo_caller_def demo_sys_def)
  have p: "[47] = path_str (norm_comps (abs_path (t_cwd (demo_task 2 TASK_STATE_RUNNING)) [47, 46]))"
    using tokens_delim [of "[46]"] tokens_word [of "[46]" "[]"] by (simp add: abs_path_def norm_comps_def path_str_def)
  have b: "user_ptr_ok 0x700000000100 8" "length [47 :: u8] < unat (8 :: u64)" by (simp_all add: user_ptr_ok_def BOOT_HHDM_BASE_def)
  from chdir_getcwd [OF _ s1 _ _ p b, unfolded sys, OF demo_wf c] demo_path demo_buf show ?thesis using s1 by (auto simp: TASK_CWD_MAX_def numeral_2_eq_2)
qed

theorem syscalls_keep_tasks_wf_witness:
  "\<exists>regs' s'. syscall_handler_c demo_h [] [] (zero_regs\<lparr>r_rax := SYS_chdir, r_rdi := 0x700000000000\<rparr>) demo_lizard = Some (Ret 0, regs', s') \<and> tasks_wf (lz_sys s')"
proof -
  obtain s1 where "sys_chdir demo_h 0x700000000000 demo_lizard = Some (Ret 0, s1)" using demo_chdir by blast
  then have r: "\<exists>regs'. syscall_handler_c demo_h [] [] (zero_regs\<lparr>r_rax := SYS_chdir, r_rdi := 0x700000000000\<rparr>) demo_lizard = Some (Ret 0, regs', s1)"
    by (simp add: syscall_handler_c_def syscall_table_def SYS_chdir_def SYS_exit_def SYS_write_def SYS_read_def SYS_sleep_def SYS_getpid_def SYS_open_def
        SYS_close_def SYS_lseek_def SYS_fb_info_def SYS_fb_blit_def SYS_key_get_def SYS_uptime_ms_def SYS_spawn_def SYS_waitpid_def SYS_yield_def SYS_readdir_def)
  moreover have "tasks_wf (lz_sys demo_lizard)" using demo_wf by (simp add: demo_lizard_def)
  ultimately show ?thesis using syscalls_keep_tasks_wf by blast
qed


theorem fd_alloc_lowest_witness:
  "\<exists>fd k1. fd_alloc 0x5000 demo_caller = Some (fd, k1) \<and> 3 \<le> fd \<and> fd_get (of_int fd) k1 = Some 0x5000"
proof -
  have "k_current demo_caller \<noteq> 0" "k_tasks demo_caller (k_current demo_caller) = Some (demo_task 2 TASK_STATE_RUNNING)" "(0x5000 :: u64) \<noteq> 0"
    by (simp_all add: demo_caller_def demo_sys_def)
  moreover have "0 \<in> set (t_fd_table (demo_task 2 TASK_STATE_RUNNING))" by (simp add: demo_task_def)
  ultimately show ?thesis using fd_alloc_lowest [OF demo_wf, of "demo_task 2 TASK_STATE_RUNNING" "0x5000"] by force
qed

end
