(* ===== verification/User_Heap.thy ===== *)
theory User_Heap
  imports Kmalloc
begin

text \<open>
  The heap of a user program: the first part of \<^verbatim>\<open>src/userspace/lib/stdlib.c\<close>. The arena is a static array; its address is an argument. The headers
  of blocks are objects at addresses, the bytes of the arena a memory beside them; using an address that holds no header is a fault (\<open>None\<close>). The theory
  shows that the blocks tile the arena with no two free neighbours under every sequence of calls, so that memory handed out is disjoint, and that
  releasing everything gives the whole arena back.
\<close>

section \<open>State\<close>

definition HEAP_SIZE :: u64 where "HEAP_SIZE = 16 * 1024 * 1024"

record ublock =
  ub_size :: u64
  ub_next :: u64
  ub_free :: bool

record uheap =
  uh_first :: u64
  uh_blk :: "u64 \<rightharpoonup> ublock"
  uh_mem :: bmem

definition ALIGN_UP :: "u64 \<Rightarrow> u64 \<Rightarrow> u64" where
  "ALIGN_UP n a = (n + a - 1) AND NOT (a - 1)"

abbreviation sizeof_ublock :: u64 where "sizeof_ublock \<equiv> 24"

definition HDR :: u64 where "HDR = ALIGN_UP sizeof_ublock 16"

definition set_blk :: "u64 \<Rightarrow> ublock \<Rightarrow> uheap \<Rightarrow> uheap" where
  "set_blk b e s = s\<lparr>uh_blk := (uh_blk s)(b \<mapsto> e)\<rparr>"

section \<open>Operations\<close>

definition uheap_init :: "u64 \<Rightarrow> uheap \<Rightarrow> uheap" where
  "uheap_init g s = set_blk g \<lparr>ub_size = HEAP_SIZE - HDR, ub_next = 0, ub_free = True\<rparr> (s\<lparr>uh_first := g\<rparr>)"

partial_function (option) find_fit :: "uheap \<Rightarrow> u64 \<Rightarrow> u64 \<Rightarrow> u64 option" where
  "find_fit s want b =
     (if b = 0 then Some 0
      else do { e \<leftarrow> uh_blk s b; if \<not> ub_free e \<or> ub_size e < want then find_fit s want (ub_next e) else Some b })"

definition umalloc :: "u64 \<Rightarrow> u64 \<Rightarrow> uheap \<Rightarrow> (u64 \<times> uheap) option" where
  "umalloc g want s =
     (let want = ALIGN_UP (if want = 0 then 1 else want) 16;
          s = (if uh_first s = 0 then uheap_init g s else s)
      in do { b \<leftarrow> find_fit s want (uh_first s);
              if b = 0 then Some (0, s)
              else do { e \<leftarrow> uh_blk s b;
                        let s = (if ub_size e \<ge> want + HDR + 16
                                 then let nb = b + HDR + want in
                                      set_blk b (e\<lparr>ub_size := want, ub_next := nb, ub_free := False\<rparr>)
                                        (set_blk nb \<lparr>ub_size = ub_size e - want - HDR, ub_next = ub_next e, ub_free = True\<rparr> s)
                                 else set_blk b (e\<lparr>ub_free := False\<rparr>) s);
                        Some (b + HDR, s) } })"

definition block_of :: "u64 \<Rightarrow> u64" where
  "block_of ptr = ptr - HDR"

partial_function (option) coalesce :: "u64 \<Rightarrow> uheap \<Rightarrow> uheap option" where
  "coalesce b s =
     do { e \<leftarrow> uh_blk s b;
          if ub_next e = 0 then Some s
          else do { n \<leftarrow> uh_blk s (ub_next e);
                    if \<not> ub_free n then Some s
                    else coalesce b (set_blk b (e\<lparr>ub_size := ub_size e + (HDR + ub_size n), ub_next := ub_next n\<rparr>) s) } }"

partial_function (option) find_prev :: "uheap \<Rightarrow> u64 \<Rightarrow> u64 \<Rightarrow> u64 option" where
  "find_prev s b p = (if p = 0 then Some 0 else do { e \<leftarrow> uh_blk s p; if ub_next e = b then Some p else find_prev s b (ub_next e) })"

definition ufree :: "u64 \<Rightarrow> uheap \<Rightarrow> uheap option" where
  "ufree ptr s =
     (if ptr = 0 then Some s
      else do { let b = block_of ptr;
                e \<leftarrow> uh_blk s b;
                s \<leftarrow> coalesce b (set_blk b (e\<lparr>ub_free := True\<rparr>) s);
                if b = uh_first s then Some s
                else do { p \<leftarrow> find_prev s b (uh_first s);
                          if p = 0 then Some s
                          else do { pe \<leftarrow> uh_blk s p;
                                    if \<not> ub_free pe then Some s
                                    else do { e \<leftarrow> uh_blk s b;
                                              Some (set_blk p (pe\<lparr>ub_size := ub_size pe + (HDR + ub_size e), ub_next := ub_next e\<rparr>) s) } } } })"

text \<open>Clearing and copying act on the bytes of the payload.\<close>

definition fill_bytes :: "u64 \<Rightarrow> u8 \<Rightarrow> nat \<Rightarrow> bmem \<Rightarrow> bmem" where
  "fill_bytes p c n m = (\<lambda>a. if unat (a - p) < n then c else m a)"

definition copy_bytes :: "u64 \<Rightarrow> u64 \<Rightarrow> nat \<Rightarrow> bmem \<Rightarrow> bmem" where
  "copy_bytes dst src n m = (\<lambda>a. if unat (a - dst) < n then m (src + (a - dst)) else m a)"

definition ucalloc :: "u64 \<Rightarrow> u64 \<Rightarrow> u64 \<Rightarrow> uheap \<Rightarrow> (u64 \<times> uheap) option" where
  "ucalloc g n sz s =
     (let total = n * sz in
      if sz \<noteq> 0 \<and> total div sz \<noteq> n then Some (0, s)
      else do { (p, s) \<leftarrow> umalloc g total s;
                Some (p, if p \<noteq> 0 then s\<lparr>uh_mem := fill_bytes p 0 (unat total) (uh_mem s)\<rparr> else s) })"

definition urealloc :: "u64 \<Rightarrow> u64 \<Rightarrow> u64 \<Rightarrow> uheap \<Rightarrow> (u64 \<times> uheap) option" where
  "urealloc g ptr sz s =
     (if ptr = 0 then umalloc g sz s
      else if sz = 0 then do { s \<leftarrow> ufree ptr s; Some (0, s) }
      else do { let b = block_of ptr;
                e \<leftarrow> uh_blk s b;
                if ub_size e \<ge> ALIGN_UP sz 16 then Some (ptr, s)
                else do { (np, s) \<leftarrow> umalloc g sz s;
                          if np = 0 then Some (0, s)
                          else do { e \<leftarrow> uh_blk s b;
                                    s \<leftarrow> ufree ptr (s\<lparr>uh_mem := copy_bytes np ptr (unat (ub_size e)) (uh_mem s)\<rparr>);
                                    Some (np, s) } } })"

section \<open>Blocks that tile a stretch of memory\<close>

text \<open>The sizes of consecutive blocks and which of them are free; the last header points to \<open>e\<close>.\<close>

type_synonym segs = "(nat \<times> bool) list"

fun tiled :: "(u64 \<rightharpoonup> ublock) \<Rightarrow> nat \<Rightarrow> u64 \<Rightarrow> segs \<Rightarrow> bool" where
  "tiled m a e [] = True"
| "tiled m a e ((n, f) # xs) \<longleftrightarrow>
     m (of_nat a) = Some \<lparr>ub_size = of_nat n, ub_next = (if xs = [] then e else of_nat (a + 32 + n)), ub_free = f\<rparr> \<and> tiled m (a + 32 + n) e xs"

definition span :: "segs \<Rightarrow> nat" where
  "span xs = sum_list (map (\<lambda>(n, f). 32 + n) xs)"

lemma span_simps [simp]: "span [] = 0" "span ((n, f) # xs) = 32 + n + span xs" "span (xs @ ys) = span xs + span ys"
  by (simp_all add: span_def)

lemma tiled_append: "tiled m a e (xs @ ys) \<longleftrightarrow> tiled m a (if ys = [] then e else of_nat (a + span xs)) xs \<and> tiled m (a + span xs) e ys"
  by (induction m a e xs rule: tiled.induct) (auto simp: ac_simps)

lemma tiled_cong:
  assumes "a + span xs \<le> 2 ^ 64" "\<And>c. a \<le> unat c \<Longrightarrow> unat c < a + span xs \<Longrightarrow> m' c = m c"
  shows "tiled m' a e xs = tiled m a e xs"
  using assms
proof (induction m a e xs rule: tiled.induct)
  case (2 m a e n f xs)
  have "a < 2 ^ 64" using 2(2) by simp
  then have "unat (of_nat a :: u64) = a" by (simp add: unat_of_nat)
  then have h: "m' (of_nat a) = m (of_nat a)" using 2(3) [of "of_nat a"] by simp
  have t: "tiled m' (a + 32 + n) e xs = tiled m (a + 32 + n) e xs" using 2(2,3) by (intro 2(1)) auto
  show ?case unfolding tiled.simps h t ..
qed simp

lemma tiled_other:
  assumes "a + span xs \<le> 2 ^ 64" "unat b < a \<or> a + span xs \<le> unat b"
  shows "tiled (m(b := v)) a e xs = tiled m a e xs"
  using assms(2) by (intro tiled_cong [OF assms(1)]) auto

lemma HDR_32: "HDR = 32"
  by (simp add: HDR_def ALIGN_UP_def)

lemma unat_align16: "n \<le> 0xFFFFFFFFFFFFFFF0 \<Longrightarrow> unat (ALIGN_UP n 16) = (unat n + 15) div 16 * 16"
proof -
  assume n: "n \<le> 0xFFFFFFFFFFFFFFF0"
  have a: "ALIGN_UP n 16 = (n + 15) AND NOT (2 ^ 4 - 1)" by (simp add: ALIGN_UP_def add.commute)
  have "unat (n + 15) = unat n + 15" using n unat_add_lem [of n 15] by (simp add: word_le_nat_alt)
  then show ?thesis unfolding a by (simp only: and_not_mask_pow2 [of 4] unat_sub_mod [of 4]) simp
qed

definition misfit :: "nat \<Rightarrow> nat \<times> bool \<Rightarrow> bool" where
  "misfit w = (\<lambda>(n, f). \<not> f \<or> n < w)"

lemma unat_nat_small: "n < 2 ^ 64 \<Longrightarrow> unat (of_nat n :: u64) = n"
  by (simp add: unat_of_nat)

lemma addr_nonzero: "0 < a \<Longrightarrow> a < 2 ^ 64 \<Longrightarrow> (of_nat a :: u64) \<noteq> 0"
  using unat_nat_small [of a] by (metis less_irrefl unat_0)

text \<open>The walk finds the first free block that is large enough.\<close>

lemma find_fit_tiled:
  "tiled (uh_blk s) a 0 xs \<Longrightarrow> 0 < a \<Longrightarrow> a + span xs < 2 ^ 64 \<Longrightarrow>
   find_fit s w (if xs = [] then 0 else of_nat a) =
     Some (if takeWhile (misfit (unat w)) xs = xs then 0 else of_nat (a + span (takeWhile (misfit (unat w)) xs)))"
proof (induction xs arbitrary: a)
  case Nil
  then show ?case by (subst find_fit.simps) simp
next
  case (Cons x xs)
  obtain n f where x: "x = (n, f)" by fastforce
  have b: "uh_blk s (of_nat a) = Some \<lparr>ub_size = of_nat n, ub_next = (if xs = [] then 0 else of_nat (a + 32 + n)), ub_free = f\<rparr>"
    and t: "tiled (uh_blk s) (a + 32 + n) 0 xs" using Cons.prems(1) x by simp_all
  have ih: "find_fit s w (if xs = [] then 0 else of_nat (a + 32 + n)) =
      Some (if takeWhile (misfit (unat w)) xs = xs then 0 else of_nat (a + 32 + n + span (takeWhile (misfit (unat w)) xs)))"
    using Cons.IH [OF t] Cons.prems(2,3) x by simp
  have nz: "(of_nat a :: u64) \<noteq> 0" using Cons.prems(2,3) by (intro addr_nonzero) simp_all
  have "n < 2 ^ 64" using Cons.prems(3) x by simp
  then have m: "misfit (unat w) (n, f) \<longleftrightarrow> \<not> f \<or> of_nat n < w" by (simp add: misfit_def word_less_nat_alt unat_nat_small)
  have step: "find_fit s w (of_nat a) = (if misfit (unat w) (n, f) then find_fit s w (if xs = [] then 0 else of_nat (a + 32 + n)) else Some (of_nat a))"
    unfolding m using nz b by (subst find_fit.simps) simp
  show ?case using step ih x by (simp add: add.assoc)
qed

section \<open>The heap as a whole\<close>

fun compact :: "segs \<Rightarrow> bool" where
  "compact ((n, f) # (k, g) # xs) \<longleftrightarrow> \<not> (f \<and> g) \<and> compact ((k, g) # xs)"
| "compact _ \<longleftrightarrow> True"

definition segs_ok :: "segs \<Rightarrow> bool" where
  "segs_ok xs \<longleftrightarrow> list_all (\<lambda>(n, f). 16 dvd n \<and> 16 \<le> n) xs"

definition arena_ok :: "u64 \<Rightarrow> bool" where
  "arena_ok g \<longleftrightarrow> 0 < unat g \<and> 16 dvd unat g \<and> unat g + 16777216 < 2 ^ 64"

definition uh_ok :: "u64 \<Rightarrow> uheap \<Rightarrow> segs \<Rightarrow> bool" where
  "uh_ok g s xs \<longleftrightarrow> uh_first s = g \<and> tiled (uh_blk s) (unat g) 0 xs \<and> span xs = 16777216 \<and> segs_ok xs \<and> compact xs"

lemma compact_append: "compact (xs @ ys) \<longleftrightarrow> compact xs \<and> compact ys \<and> \<not> (xs \<noteq> [] \<and> ys \<noteq> [] \<and> snd (last xs) \<and> snd (hd ys))"
proof (induction xs)
  case (Cons x xs)
  obtain n f where x: "x = (n, f)" by fastforce
  show ?case
  proof (cases xs)
    case Nil
    then show ?thesis using x by (cases ys) auto
  next
    case (Cons y zs)
    then show ?thesis using x Cons.IH by (cases y) auto
  qed
qed simp

lemma segs_ok_append [simp]: "segs_ok (xs @ ys) \<longleftrightarrow> segs_ok xs \<and> segs_ok ys" "segs_ok ((n, f) # xs) \<longleftrightarrow> 16 dvd n \<and> 16 \<le> n \<and> segs_ok xs" "segs_ok []"
  by (simp_all add: segs_ok_def)

text \<open>A block handed out: the free block is used up, or split when a header and sixteen bytes are left.\<close>

definition carve :: "nat \<Rightarrow> nat \<Rightarrow> segs" where
  "carve w n = (if w + 48 \<le> n then [(w, False), (n - w - 32, True)] else [(n, False)])"

lemma span_carve: "w \<le> n \<Longrightarrow> span (carve w n) = 32 + n"
  by (simp add: carve_def)

lemma tiled_carve:
  assumes t: "tiled (uh_blk s) a e ((n, True) # xs)" and w: "unat w \<le> n" and a: "0 < a" "a + span ((n, True) # xs) < 2 ^ 64" "n \<le> 16777216"
  shows "\<exists>s'. (do { b \<leftarrow> uh_blk s (of_nat a);
                   Some (if ub_size b \<ge> w + HDR + 16
                         then set_blk (of_nat a) (b\<lparr>ub_size := w, ub_next := of_nat a + HDR + w, ub_free := False\<rparr>)
                                (set_blk (of_nat a + HDR + w) \<lparr>ub_size = ub_size b - w - HDR, ub_next = ub_next b, ub_free = True\<rparr> s)
                         else set_blk (of_nat a) (b\<lparr>ub_free := False\<rparr>) s) }) = Some s' \<and>
      tiled (uh_blk s') a e (carve (unat w) n @ xs) \<and> uh_first s' = uh_first s \<and> uh_mem s' = uh_mem s \<and>
      (\<forall>c. unat c < a \<or> a + 32 + n \<le> unat c \<longrightarrow> uh_blk s' c = uh_blk s c)"
proof -
  let ?b = "\<lparr>ub_size = of_nat n :: u64, ub_next = (if xs = [] then e else of_nat (a + 32 + n)), ub_free = True\<rparr>"
  have b: "uh_blk s (of_nat a) = Some ?b" and tx: "tiled (uh_blk s) (a + 32 + n) e xs" using t by simp_all
  have n: "n < 2 ^ 64" "unat (of_nat n :: u64) = n" using a(2) by (simp_all add: unat_nat_small)
  have e48: "w + HDR + 16 = w + 48" by (simp add: HDR_32)
  have "unat w + unat (48 :: u64) < 2 ^ LENGTH(64)" using w a(3) by simp
  then have "unat (w + 48) = unat w + unat (48 :: u64)" by (rule iffD1 [OF unat_add_lem])
  then have w48: "unat (w + HDR + 16) = unat w + 48" unfolding e48 by simp
  have big: "w + HDR + 16 \<le> of_nat n \<longleftrightarrow> unat w + 48 \<le> n" using w48 n by (simp add: word_le_nat_alt)
  have ua: "unat (of_nat a :: u64) = a" using a(2) by (intro unat_nat_small) simp
  show ?thesis
  proof (cases "unat w + 48 \<le> n")
    case True
    let ?nb = "of_nat a + HDR + w :: u64"
    have nb: "?nb = of_nat (a + 32 + unat w)" by (simp add: HDR_32)
    have unb: "unat ?nb = a + 32 + unat w" unfolding nb using True a(2) by (intro unat_nat_small) simp
    have rest: "of_nat n - w - HDR = of_nat (n - unat w - 32)" using True by (simp add: HDR_32 of_nat_diff)
    let ?s = "set_blk (of_nat a) (?b\<lparr>ub_size := w, ub_next := ?nb, ub_free := False\<rparr>) (set_blk ?nb \<lparr>ub_size = of_nat n - w - HDR, ub_next = ub_next ?b, ub_free = True\<rparr> s)"
    have txs: "tiled (uh_blk ?s) (a + 32 + n) e xs"
      using tx ua unb True a(2) by (simp add: set_blk_def tiled_other)
    have "?nb \<noteq> of_nat a"
    proof
      assume "?nb = of_nat a"
      then have "unat ?nb = unat (of_nat a :: u64)" by (rule arg_cong)
      then show False using ua unb by linarith
    qed
    then have "uh_blk ?s (of_nat a) = Some \<lparr>ub_size = of_nat (unat w), ub_next = of_nat (a + 32 + unat w), ub_free = False\<rparr>"
      "uh_blk ?s (of_nat (a + 32 + unat w)) = Some \<lparr>ub_size = of_nat (n - unat w - 32), ub_next = (if xs = [] then e else of_nat (a + 32 + n)), ub_free = True\<rparr>"
      unfolding nb rest by (simp_all add: set_blk_def)
    moreover have "a + 32 + unat w + 32 + (n - unat w - 32) = a + 32 + n" using True by simp
    moreover note txs
    ultimately have "tiled (uh_blk ?s) a e (carve (unat w) n @ xs)"
      unfolding carve_def if_P [OF True] append.simps tiled.simps by (simp only: list.distinct if_False simp_thms)
    moreover have "\<forall>c. unat c < a \<or> a + 32 + n \<le> unat c \<longrightarrow> uh_blk ?s c = uh_blk s c" using ua unb True by (auto simp: set_blk_def)
    ultimately show ?thesis using b big True by (intro exI [of _ ?s]) (simp add: set_blk_def)
  next
    case False
    let ?s = "set_blk (of_nat a) (?b\<lparr>ub_free := False\<rparr>) s"
    have "tiled (uh_blk ?s) (a + 32 + n) e xs" using tx ua a(2) by (simp add: set_blk_def tiled_other)
    then have "tiled (uh_blk ?s) a e (carve (unat w) n @ xs)" using False by (simp add: carve_def set_blk_def)
    moreover have "\<forall>c. unat c < a \<or> a + 32 + n \<le> unat c \<longrightarrow> uh_blk ?s c = uh_blk s c" using ua by (auto simp: set_blk_def)
    ultimately show ?thesis using b big False by (intro exI [of _ ?s]) (simp add: set_blk_def)
  qed
qed

section \<open>malloc\<close>

lemma ok_bounds:
  assumes "arena_ok g" "uh_ok g s (pre @ xs)"
  shows "0 < unat g + span pre" "unat g + span pre + span xs < 2 ^ 64"
  using assms by (simp_all add: arena_ok_def uh_ok_def)

lemma compact_carve:
  assumes "compact (pre @ (n, True) # post)"
  shows "compact (pre @ carve w n @ post)"
proof -
  have p: "compact pre" "compact post" "pre = [] \<or> \<not> snd (last pre)" "post = [] \<or> \<not> snd (hd post)"
    using assms by (cases post; auto simp: compact_append)+
  then show ?thesis by (cases post) (auto simp: compact_append carve_def)
qed

text \<open>An aligned request is answered by the first fitting block, or refused when there is none.\<close>

lemma umalloc_ok:
  assumes g: "arena_ok g" and ok: "uh_ok g s xs" and n: "n \<le> 0xFFFFFFFFFFFFFFF0"
    and w: "w = (max 1 (unat n) + 15) div 16 * 16"
  shows "umalloc g n s = Some (0, s) \<and> list_all (misfit w) xs \<or>
    (\<exists>pre k post s'. xs = pre @ (k, True) # post \<and> w \<le> k \<and> umalloc g n s = Some (of_nat (unat g + span pre + 32), s') \<and>
       uh_ok g s' (pre @ carve w k @ post) \<and> uh_mem s' = uh_mem s)"
proof -
  let ?w = "ALIGN_UP (if n = 0 then 1 else n) 16"
  have "unat (if n = 0 then 1 else n) = max 1 (unat n)" by (auto simp: unat_eq_zero max_def Suc_le_eq unat_gt_0)
  then have uw: "unat ?w = w" using unat_align16 [of "if n = 0 then 1 else n"] n w by (simp split: if_splits)
  have f: "uh_first s = g" "tiled (uh_blk s) (unat g) 0 xs" "span xs = 16777216" "segs_ok xs" "compact xs" using ok by (simp_all add: uh_ok_def)
  have ne: "xs \<noteq> []" using f(3) by auto
  have g0: "g \<noteq> 0" using g by (auto simp: arena_ok_def)
  let ?pre = "takeWhile (misfit w) xs"
  have fit: "find_fit s ?w g = Some (if ?pre = xs then 0 else of_nat (unat g + span ?pre))"
    using find_fit_tiled [OF f(2), of ?w] ok_bounds [OF g, of s "[]" xs] ok ne uw by simp
  show ?thesis
  proof (cases "?pre = xs")
    case True
    then show ?thesis using fit f(1) g0 by (simp add: umalloc_def Let_def takeWhile_eq_all_conv list_all_iff)
  next
    case False
    then obtain x post where x: "xs = ?pre @ x # post" "\<not> misfit w x" by (metis (no_types) append_Nil2 hd_dropWhile list.collapse takeWhile_dropWhile_id)
    obtain k where k: "x = (k, True)" "w \<le> k" using x(2) by (cases x) (auto simp: misfit_def)
    let ?a = "unat g + span ?pre"
    have xs: "xs = ?pre @ (k, True) # post" using x(1) k(1) by simp
    have t: "tiled (uh_blk s) (unat g) (of_nat ?a) ?pre" "tiled (uh_blk s) ?a 0 ((k, True) # post)"
      using f(2) tiled_append [of "uh_blk s" "unat g" 0 ?pre "(k, True) # post"] xs by auto
    have a: "0 < ?a" "?a + span ((k, True) # post) < 2 ^ 64" using ok_bounds [OF g, of s ?pre "(k, True) # post"] ok xs by simp_all
    have "span xs = span ?pre + span ((k, True) # post)" using arg_cong [OF xs, of span] by simp
    then have "k \<le> 16777216" using f(3) by simp
    from tiled_carve [OF t(2) _ a this, of ?w] uw k(2)
    obtain s' where s': "(do { b \<leftarrow> uh_blk s (of_nat ?a);
                   Some (if ub_size b \<ge> ?w + HDR + 16
                         then set_blk (of_nat ?a) (b\<lparr>ub_size := ?w, ub_next := of_nat ?a + HDR + ?w, ub_free := False\<rparr>)
                                (set_blk (of_nat ?a + HDR + ?w) \<lparr>ub_size = ub_size b - ?w - HDR, ub_next = ub_next b, ub_free = True\<rparr> s)
                         else set_blk (of_nat ?a) (b\<lparr>ub_free := False\<rparr>) s) }) = Some s'"
      "tiled (uh_blk s') ?a 0 (carve w k @ post)" "uh_first s' = uh_first s" "uh_mem s' = uh_mem s"
      "\<forall>c. unat c < ?a \<or> ?a + 32 + k \<le> unat c \<longrightarrow> uh_blk s' c = uh_blk s c" by auto
    have "tiled (uh_blk s') (unat g) (of_nat ?a) ?pre"
      using t(1) s'(5) a(2) by (subst tiled_cong [where m = "uh_blk s"]) auto
    moreover have "carve w k @ post \<noteq> []" by (simp add: carve_def)
    ultimately have "tiled (uh_blk s') (unat g) 0 (?pre @ carve w k @ post)" using s'(2) by (simp add: tiled_append del: append_is_Nil_conv)
    moreover have "span (?pre @ carve w k @ post) = 16777216" using \<open>span xs = span ?pre + span ((k, True) # post)\<close> f(3) span_carve [OF k(2)] by simp
    moreover have "segs_ok (?pre @ carve w k @ post)"
    proof -
      have so: "segs_ok ?pre" "16 dvd k" "16 \<le> k" "segs_ok post" using f(4) xs by (metis segs_ok_append(1,2))+
      have "16 dvd w" "16 \<le> w" using w by auto
      then show ?thesis using so by (auto simp: carve_def)
    qed
    moreover have "compact (?pre @ carve w k @ post)" using compact_carve f(5) xs by metis
    ultimately have "uh_ok g s' (?pre @ carve w k @ post)" using s'(3) f(1) by (simp add: uh_ok_def)
    moreover have "umalloc g n s = Some (of_nat ?a + HDR, s')"
    proof -
      have nz: "(of_nat ?a :: u64) \<noteq> 0" using a by (intro addr_nonzero) simp_all
      obtain b where b: "uh_blk s (of_nat ?a) = Some b" using t(2) by simp
      have fit': "find_fit s ?w g = Some (of_nat ?a)" using fit unfolding if_not_P [OF False] .
      show ?thesis using s'(1) unfolding umalloc_def Let_def by (simp only: f(1) g0 if_False fit' Option.bind.simps nz b option.inject)
    qed
    ultimately show ?thesis using xs k(2) s'(4) by (intro disjI2 exI [of _ ?pre] exI [of _ k] exI [of _ post] exI [of _ s']) (simp add: HDR_32)
  qed
qed

section \<open>free\<close>

text \<open>The free blocks right behind a block are merged into it.\<close>

lemma coalesce_tiled:
  "tiled (uh_blk s) a 0 ((n, f) # post) \<Longrightarrow> 0 < a \<Longrightarrow> a + span ((n, f) # post) < 2 ^ 64 \<Longrightarrow>
   \<exists>s'. coalesce (of_nat a) s = Some s' \<and> tiled (uh_blk s') a 0 ((n + span (takeWhile snd post), f) # dropWhile snd post) \<and>
     uh_first s' = uh_first s \<and> uh_mem s' = uh_mem s \<and> (\<forall>c. c \<noteq> of_nat a \<longrightarrow> uh_blk s' c = uh_blk s c)"
proof (induction post arbitrary: s n)
  case Nil
  then show ?case by (subst coalesce.simps) simp
next
  case (Cons x post)
  obtain k h where x: "x = (k, h)" by fastforce
  let ?b = "of_nat (a + 32 + n) :: u64"
  have e: "uh_blk s (of_nat a) = Some \<lparr>ub_size = of_nat n, ub_next = ?b, ub_free = f\<rparr>"
    and t: "uh_blk s ?b = Some \<lparr>ub_size = of_nat k, ub_next = (if post = [] then 0 else of_nat (a + 32 + n + 32 + k)), ub_free = h\<rparr>"
      "tiled (uh_blk s) (a + 32 + n + 32 + k) 0 post" using Cons.prems(1) x by simp_all
  have nz: "?b \<noteq> 0" using Cons.prems(2,3) x by (intro addr_nonzero) simp_all
  show ?case
  proof (cases h)
    case False
    then show ?thesis using e t nz x Cons.prems(1) by (subst coalesce.simps) (intro exI [of _ s], simp)
  next
    case True
    let ?s = "set_blk (of_nat a) \<lparr>ub_size = of_nat (n + 32 + k), ub_next = (if post = [] then 0 else of_nat (a + 32 + (n + 32 + k))), ub_free = f\<rparr> s"
    have step: "coalesce (of_nat a) s = coalesce (of_nat a) ?s"
      using e t(1) nz True by (subst coalesce.simps) (simp add: HDR_32 ac_simps)
    have "unat (of_nat a :: u64) = a" using Cons.prems(3) by (intro unat_nat_small) simp
    then have "tiled (uh_blk ?s) (a + 32 + (n + 32 + k)) 0 post"
      using t(2) Cons.prems(3) x by (simp add: set_blk_def tiled_other ac_simps)
    then have "tiled (uh_blk ?s) a 0 ((n + 32 + k, f) # post)" by (simp add: set_blk_def)
    from Cons.IH [OF this Cons.prems(2)] Cons.prems(3) x
    obtain s' where s': "coalesce (of_nat a) ?s = Some s'" "tiled (uh_blk s') a 0 ((n + 32 + k + span (takeWhile snd post), f) # dropWhile snd post)"
      "uh_first s' = uh_first ?s" "uh_mem s' = uh_mem ?s" "\<forall>c. c \<noteq> of_nat a \<longrightarrow> uh_blk s' c = uh_blk ?s c" by auto
    then show ?thesis using step x True by (intro exI [of _ s']) (simp add: set_blk_def ac_simps)
  qed
qed

text \<open>The block before a block is found by its link.\<close>

lemma find_prev_tiled:
  "tiled (uh_blk s) a (of_nat (a + span pre)) pre \<Longrightarrow> pre \<noteq> [] \<Longrightarrow> 0 < a \<Longrightarrow> a + span pre < 2 ^ 64 \<Longrightarrow>
   find_prev s (of_nat (a + span pre)) (of_nat a) = Some (of_nat (a + span (butlast pre)))"
proof (induction pre arbitrary: a)
  case (Cons x pre)
  obtain n f where x: "x = (n, f)" by fastforce
  let ?next = "of_nat (a + 32 + n) :: u64"
  have e: "uh_blk s (of_nat a) = Some \<lparr>ub_size = of_nat n, ub_next = (if pre = [] then of_nat (a + span (x # pre)) else ?next), ub_free = f\<rparr>"
    and t: "tiled (uh_blk s) (a + 32 + n) (of_nat (a + 32 + n + span pre)) pre" using Cons.prems(1) x by (simp_all add: ac_simps)
  have nz: "(of_nat a :: u64) \<noteq> 0" using Cons.prems(3,4) by (intro addr_nonzero) simp_all
  show ?case
  proof (cases "pre = []")
    case True
    then show ?thesis using e nz by (subst find_prev.simps) simp
  next
    case False
    have l: "a + 32 + n < a + 32 + n + span pre" using False by (cases pre) auto
    have sx: "a + span (x # pre) = a + 32 + n + span pre" using x by simp
    have u: "unat ?next = a + 32 + n" "unat (of_nat (a + 32 + n + span pre) :: u64) = a + 32 + n + span pre"
      using Cons.prems(4) x by (intro unat_nat_small; simp)+
    have "?next \<noteq> of_nat (a + 32 + n + span pre)"
    proof
      assume "?next = of_nat (a + 32 + n + span pre)"
      then have "unat ?next = unat (of_nat (a + 32 + n + span pre) :: u64)" by (rule arg_cong)
      then show False using u l by linarith
    qed
    then have "?next \<noteq> of_nat (a + span (x # pre))" unfolding sx .
    then have "find_prev s (of_nat (a + span (x # pre))) (of_nat a) = find_prev s (of_nat (a + span (x # pre))) ?next"
      using e nz False by (subst find_prev.simps) simp
    moreover have "find_prev s (of_nat (a + 32 + n + span pre)) ?next = Some (of_nat (a + 32 + n + span (butlast pre)))"
      using Cons.IH [OF t False] Cons.prems(4) x by simp
    ultimately show ?thesis unfolding sx using x False by (simp add: ac_simps)
  qed
qed simp

text \<open>What releasing a block makes of its neighbourhood.\<close>

definition merge :: "segs \<Rightarrow> nat \<Rightarrow> segs \<Rightarrow> segs" where
  "merge pre n post =
     (let m = n + span (takeWhile snd post); post' = dropWhile snd post in
      if pre \<noteq> [] \<and> snd (last pre) then butlast pre @ (fst (last pre) + 32 + m, True) # post' else pre @ (m, True) # post')"

lemma span_take_drop: "span (takeWhile P xs) + span (dropWhile P xs) = span xs"
  by (metis span_simps(3) takeWhile_dropWhile_id)

lemma split_last: "pre \<noteq> [] \<Longrightarrow> snd (last pre) = f \<Longrightarrow> pre = butlast pre @ [(fst (last pre), f)]"
  by (metis append_butlast_last_id prod.collapse)

lemma span_merge: "span (merge pre n post) = span pre + 32 + n + span post"
proof (cases "pre \<noteq> [] \<and> snd (last pre)")
  case True
  then have "span pre = span (butlast pre) + (32 + fst (last pre))" using split_last [of pre True] by (metis add.right_neutral span_simps(1,2,3))
  then show ?thesis using True span_take_drop [of snd post] by (simp add: merge_def Let_def)
next
  case False
  then show ?thesis using span_take_drop [of snd post] by (auto simp: merge_def Let_def)
qed

lemma segs_ok_span: "segs_ok xs \<Longrightarrow> 16 dvd span xs"
  by (induction xs) (auto simp: segs_ok_def)

lemma segs_ok_merge:
  assumes "segs_ok (pre @ (n, False) # post)"
  shows "segs_ok (merge pre n post)"
proof -
  have o: "segs_ok pre" "16 dvd n" "16 \<le> n" "segs_ok (takeWhile snd post)" "segs_ok (dropWhile snd post)"
    using assms segs_ok_append(1) [of "takeWhile snd post" "dropWhile snd post"] by simp_all
  have m: "16 dvd n + span (takeWhile snd post)" using o(2) segs_ok_span [OF o(4)] by simp
  show ?thesis
  proof (cases "pre \<noteq> [] \<and> snd (last pre)")
    case True
    then have "pre = butlast pre @ [(fst (last pre), True)]" using split_last [of pre True] by simp
    then have "segs_ok (butlast pre)" "16 dvd fst (last pre)" using o(1) by (metis segs_ok_append(1,2))+
    moreover from this have "16 dvd fst (last pre) + 32" by simp
    from dvd_add [OF this m] have "16 dvd fst (last pre) + 32 + (n + span (takeWhile snd post))" .
    ultimately show ?thesis using o(3,5) True by (simp add: merge_def Let_def)
  qed (use o m in \<open>auto simp: merge_def Let_def\<close>)
qed

lemma compact_drop: "compact xs \<Longrightarrow> compact (dropWhile P xs)"
  by (metis compact_append takeWhile_dropWhile_id)

lemma compact_cons: "compact ((m, True) # ys) \<longleftrightarrow> compact ys \<and> (ys = [] \<or> \<not> snd (hd ys))"
  by (cases ys) auto

lemma compact_merge:
  assumes "compact (pre @ (n, False) # post)"
  shows "compact (merge pre n post)"
proof -
  have c: "compact pre" "compact post" using assms by (cases post; auto simp: compact_append)+
  have d: "compact (dropWhile snd post)" "dropWhile snd post = [] \<or> \<not> snd (hd (dropWhile snd post))"
    using compact_drop [OF c(2)] hd_dropWhile [of snd post] by auto
  show ?thesis
  proof (cases "pre \<noteq> [] \<and> snd (last pre)")
    case True
    then have "compact (butlast pre @ [(fst (last pre), True)])" using c(1) split_last [of pre True] by simp
    then have "compact (butlast pre)" "butlast pre = [] \<or> \<not> snd (last (butlast pre))" by (auto simp: compact_append)
    then show ?thesis using True d by (auto simp: merge_def Let_def compact_append compact_cons)
  qed (use c d in \<open>auto simp: merge_def Let_def compact_append compact_cons\<close>)
qed

text \<open>Merging a free block into the free block before it.\<close>

lemma tiled_backward:
  assumes t: "tiled (uh_blk s) a 0 (pre @ (k, True) # (m, True) # post)" and a: "0 < a" "a + span (pre @ (k, True) # (m, True) # post) < 2 ^ 64"
    and p: "p = of_nat (a + span pre)" "b = of_nat (a + span pre + 32 + k)"
  shows "uh_blk s p = Some \<lparr>ub_size = of_nat k, ub_next = b, ub_free = True\<rparr>"
    "\<exists>e. uh_blk s b = Some e \<and>
       tiled (uh_blk (set_blk p \<lparr>ub_size = of_nat k + (HDR + ub_size e), ub_next = ub_next e, ub_free = True\<rparr> s)) a 0 (pre @ (k + 32 + m, True) # post)"
proof -
  let ?c = "a + span pre"
  have parts: "tiled (uh_blk s) a (of_nat ?c) pre" "uh_blk s p = Some \<lparr>ub_size = of_nat k, ub_next = b, ub_free = True\<rparr>"
    "uh_blk s b = Some \<lparr>ub_size = of_nat m, ub_next = (if post = [] then 0 else of_nat (?c + 32 + k + 32 + m)), ub_free = True\<rparr>"
    "tiled (uh_blk s) (?c + 32 + k + 32 + m) 0 post"
    using t p by (simp_all add: tiled_append)
  then show "uh_blk s p = Some \<lparr>ub_size = of_nat k, ub_next = b, ub_free = True\<rparr>" by simp
  let ?e = "\<lparr>ub_size = of_nat m :: u64, ub_next = (if post = [] then 0 else of_nat (?c + 32 + k + 32 + m)), ub_free = True\<rparr>"
  let ?s = "set_blk p \<lparr>ub_size = of_nat k + (HDR + ub_size ?e), ub_next = ub_next ?e, ub_free = True\<rparr> s"
  have up: "unat p = ?c" unfolding p using a(2) by (intro unat_nat_small) simp
  have "tiled (uh_blk ?s) a (of_nat ?c) pre" using parts(1) up a(2) by (simp add: set_blk_def tiled_other)
  moreover have "tiled (uh_blk ?s) (?c + 32 + k + 32 + m) 0 post" using parts(4) up a(2) by (simp add: set_blk_def tiled_other)
  moreover have "?c + 32 + (k + 32 + m) = ?c + 32 + k + 32 + m" by simp
  moreover have "uh_blk ?s (of_nat ?c) = Some \<lparr>ub_size = of_nat (k + 32 + m), ub_next = (if post = [] then 0 else of_nat (?c + 32 + k + 32 + m)), ub_free = True\<rparr>"
    by (simp add: set_blk_def p HDR_32)
  ultimately have "tiled (uh_blk ?s) a 0 (pre @ (k + 32 + m, True) # post)"
    unfolding tiled_append tiled.simps by (simp only: list.distinct if_False simp_thms)
  then show "\<exists>e. uh_blk s b = Some e \<and>
      tiled (uh_blk (set_blk p \<lparr>ub_size = of_nat k + (HDR + ub_size e), ub_next = ub_next e, ub_free = True\<rparr> s)) a 0 (pre @ (k + 32 + m, True) # post)"
    using parts(3) by (intro exI [of _ ?e]) simp
qed

lemma ufree_ok:
  assumes g: "arena_ok g" and ok: "uh_ok g s (pre @ (n, False) # post)" and ptr: "ptr = of_nat (unat g + span pre + 32)"
  shows "\<exists>s'. ufree ptr s = Some s' \<and> uh_ok g s' (merge pre n post) \<and> uh_mem s' = uh_mem s"
proof -
  let ?a = "unat g + span pre" and ?m = "n + span (takeWhile snd post)" and ?post = "dropWhile snd post"
  define b where "b = (of_nat ?a :: u64)"
  have bd: "0 < ?a" "?a + span ((n, False) # post) < 2 ^ 64" using ok_bounds [OF g ok] by simp_all
  have ub: "unat b = ?a" unfolding b_def using bd by (intro unat_nat_small) simp
  have t: "tiled (uh_blk s) (unat g) b pre" "tiled (uh_blk s) ?a 0 ((n, False) # post)" using ok by (simp_all add: uh_ok_def tiled_append b_def)
  have blk: "block_of ptr = b" "ptr \<noteq> 0" using addr_nonzero [of "?a + 32"] bd by (simp_all add: block_of_def ptr b_def HDR_32)
  obtain e where e: "uh_blk s b = Some e" "tiled (uh_blk (set_blk b (e\<lparr>ub_free := True\<rparr>) s)) ?a 0 ((n, True) # post)"
    using t(2) ub bd(2) by (simp add: set_blk_def tiled_other b_def)
  let ?s1 = "set_blk b (e\<lparr>ub_free := True\<rparr>) s"
  from coalesce_tiled [OF e(2) bd(1)] bd(2)
  obtain s2 where s2: "coalesce b ?s1 = Some s2" "tiled (uh_blk s2) ?a 0 ((?m, True) # ?post)" "uh_first s2 = g" "uh_mem s2 = uh_mem s"
    "\<forall>c. c \<noteq> b \<longrightarrow> uh_blk s2 c = uh_blk s c"
    using ok by (auto simp: set_blk_def uh_ok_def b_def)
  have pre2: "tiled (uh_blk s2) (unat g) b pre"
  proof -
    have "uh_blk s2 c = uh_blk s c" if "unat c < ?a" for c using s2(5) ub that by (metis less_irrefl)
    then show ?thesis using t(1) bd(2) by (subst tiled_cong [where m = "uh_blk s"]) auto
  qed
  have all2: "tiled (uh_blk s2) (unat g) 0 (pre @ (?m, True) # ?post)" using pre2 s2(2) by (simp add: tiled_append b_def)
  have inv: "uh_ok g s' (merge pre n post)" if "uh_first s' = g" "tiled (uh_blk s') (unat g) 0 (merge pre n post)" for s'
    using that ok segs_ok_merge compact_merge by (simp add: uh_ok_def span_merge)
  have start: "ufree ptr s = (if b = g then Some s2 else do { p \<leftarrow> find_prev s2 b g;
      if p = 0 then Some s2 else do { pe \<leftarrow> uh_blk s2 p; if \<not> ub_free pe then Some s2
        else do { e \<leftarrow> uh_blk s2 b; Some (set_blk p (pe\<lparr>ub_size := ub_size pe + (HDR + ub_size e), ub_next := ub_next e\<rparr>) s2) } } })"
    unfolding ufree_def Let_def blk(1) using blk(2) e(1) s2(1,3) by simp
  show ?thesis
  proof (cases "pre = []")
    case True
    then have "ufree ptr s = Some s2" using start by (simp add: b_def)
    then show ?thesis using inv [OF s2(3)] all2 True s2(4) by (simp add: merge_def Let_def)
  next
    case False
    have "b \<noteq> g"
    proof
      assume "b = g"
      then have "unat b = unat g" by simp
      then show False using ub False by (cases pre) auto
    qed
    let ?p = "of_nat (unat g + span (butlast pre)) :: u64"
    have prev: "find_prev s2 b g = Some ?p" using find_prev_tiled [of s2 "unat g" pre] pre2 False g bd(2) by (simp add: b_def arena_ok_def)
    obtain k f where l: "last pre = (k, f)" by fastforce
    then have pre: "pre = butlast pre @ [(k, f)]" using False by (metis append_butlast_last_id)
    have sp: "span pre = span (butlast pre) + (32 + k)" using arg_cong [OF pre, of span] by simp
    have pz: "?p \<noteq> 0" using g bd(2) sp by (intro addr_nonzero) (simp_all add: arena_ok_def)
    have pe: "uh_blk s2 ?p = Some \<lparr>ub_size = of_nat k, ub_next = b, ub_free = f\<rparr>"
      using pre2 unfolding tiled_append [of _ _ _ "butlast pre" "[(k, f)]", folded pre] by simp
    note run = start [unfolded if_not_P [OF \<open>b \<noteq> g\<close>] prev Option.bind.simps if_not_P [OF pz] pe]
    show ?thesis
    proof (cases f)
      case False
      then show ?thesis using run inv [OF s2(3)] all2 l s2(4) by (simp add: merge_def Let_def)
    next
      case True
      have "pre @ (?m, True) # ?post = butlast pre @ (k, True) # (?m, True) # ?post" using pre True by (metis append.assoc append_Cons append_Nil)
      note eq = this
      have bb: "b = of_nat (unat g + span (butlast pre) + 32 + k)" by (simp add: b_def sp)
      have "unat g + span (butlast pre @ (k, True) # (?m, True) # ?post) < 2 ^ 64" using bd(2) sp span_take_drop [of snd post] by simp
      from tiled_backward [OF all2 [unfolded eq] _ this refl bb] g
      obtain e2 where e2: "uh_blk s2 b = Some e2"
        "tiled (uh_blk (set_blk ?p \<lparr>ub_size = of_nat k + (HDR + ub_size e2), ub_next = ub_next e2, ub_free = True\<rparr> s2)) (unat g) 0 (butlast pre @ (k + 32 + ?m, True) # ?post)"
        by (auto simp: arena_ok_def)
      let ?s = "set_blk ?p \<lparr>ub_size = of_nat k + (HDR + ub_size e2), ub_next = ub_next e2, ub_free = True\<rparr> s2"
      have "ufree ptr s = Some ?s" using run e2(1) True by simp
      moreover have "merge pre n post = butlast pre @ (k + 32 + ?m, True) # ?post" using \<open>pre \<noteq> []\<close> l True by (simp add: merge_def Let_def)
      ultimately show ?thesis using inv [of ?s] e2(2) s2(3,4) by (simp add: set_blk_def)
    qed
  qed
qed

section \<open>The memory a program holds\<close>

text \<open>The payloads that are in use, by address and size.\<close>

fun held :: "nat \<Rightarrow> segs \<Rightarrow> (nat \<times> nat) list" where
  "held a [] = []"
| "held a ((n, f) # xs) = (if f then [] else [(a + 32, n)]) @ held (a + 32 + n) xs"

lemma held_append: "held a (xs @ ys) = held a xs @ held (a + span xs) ys"
  by (induction a xs rule: held.induct) (simp_all add: ac_simps)

lemma held_range: "(p, n) \<in> set (held a xs) \<Longrightarrow> a + 32 \<le> p \<and> p + n \<le> a + span xs"
  by (induction a xs rule: held.induct) (fastforce split: if_splits)+

lemma held_split: "(p, n) \<in> set (held a xs) \<Longrightarrow> \<exists>pre post. xs = pre @ (n, False) # post \<and> p = a + span pre + 32"
proof (induction a xs rule: held.induct)
  case (2 a k f xs)
  show ?case
  proof (cases "(p, n) \<in> set (held (a + 32 + k) xs)")
    case True
    then obtain pre post where "xs = pre @ (n, False) # post" "p = a + 32 + k + span pre + 32" using 2(1) by blast
    then show ?thesis by (intro exI [of _ "(k, f) # pre"] exI [of _ post]) simp
  next
    case False
    then show ?thesis using 2(2) by (intro exI [of _ "[]"] exI [of _ xs]) (auto split: if_splits)
  qed
qed simp

lemma held_free: "list_all snd xs \<Longrightarrow> held a xs = []"
  by (induction a xs rule: held.induct) auto

lemma held_merge: "held a (merge pre n post) = held a pre @ held (a + span pre + 32 + n) post"
proof -
  have h: "held b post = held (b + span (takeWhile snd post)) (dropWhile snd post)" for b
  proof -
    have "list_all snd (takeWhile snd post)" by (auto simp: list_all_iff dest: set_takeWhileD)
    then have "held b (takeWhile snd post @ dropWhile snd post) = held (b + span (takeWhile snd post)) (dropWhile snd post)"
      unfolding held_append by (simp only: held_free append_Nil)
    then show ?thesis by (simp only: takeWhile_dropWhile_id)
  qed
  show ?thesis
  proof (cases "pre \<noteq> [] \<and> snd (last pre)")
    case True
    then have "pre = butlast pre @ [(fst (last pre), True)]" using split_last [of pre True] by simp
    then have "held a pre = held a (butlast pre)" "span pre = span (butlast pre) + (32 + fst (last pre))"
      using held_append [of a "butlast pre" "[(fst (last pre), True)]"] span_simps(3) [of "butlast pre" "[(fst (last pre), True)]"] by simp_all
    then show ?thesis using True h [of "a + span pre + 32 + n"] by (simp add: merge_def Let_def held_append ac_simps)
  next
    case False
    then have "merge pre n post = pre @ (n + span (takeWhile snd post), True) # dropWhile snd post" unfolding merge_def Let_def by (simp only: if_False)
    then show ?thesis using h [of "a + span pre + 32 + n"] by (simp add: held_append ac_simps)
  qed
qed

lemma held_apart:
  "(p, n) \<in> set (held a xs) \<Longrightarrow> (q, m) \<in> set (held a xs) \<Longrightarrow> (p, n) \<noteq> (q, m) \<Longrightarrow> p + n + 32 \<le> q \<or> q + m + 32 \<le> p"
proof (induction a xs rule: held.induct)
  case (2 a k f xs)
  then show ?case using held_range [of _ _ "a + 32 + k" xs] by (fastforce split: if_splits)
qed simp

lemma tiled_unique:
  "tiled m a 0 xs \<Longrightarrow> tiled m a 0 ys \<Longrightarrow> 0 < a \<Longrightarrow> a + span xs < 2 ^ 64 \<Longrightarrow> a + span ys < 2 ^ 64 \<Longrightarrow> xs = [] \<longleftrightarrow> ys = [] \<Longrightarrow> xs = ys"
proof (induction xs arbitrary: a ys)
  case (Cons x xs)
  obtain n f where x: "x = (n, f)" by fastforce
  obtain k h zs where y: "ys = (k, h) # zs" using Cons.prems(6) by (cases ys) auto
  have eq: "(of_nat n :: u64) = of_nat k" "f = h" "(if xs = [] then 0 else of_nat (a + 32 + n)) = (if zs = [] then 0 else of_nat (a + 32 + k) :: u64)"
    using Cons.prems(1,2) x y by simp_all
  have "n < 2 ^ 64" "k < 2 ^ 64" using Cons.prems(4,5) x y by simp_all
  then have nk: "n = k" using eq(1) unat_nat_small by metis
  have "(of_nat (a + 32 + n) :: u64) \<noteq> 0" using Cons.prems(3,4) x by (intro addr_nonzero) simp_all
  then have "xs = [] \<longleftrightarrow> zs = []" using eq(3) nk by (auto split: if_splits)
  then have "xs = zs" using Cons.IH [of "a + 32 + n" zs] Cons.prems x y nk by simp
  then show ?case using x y nk eq(2) by simp
qed simp

lemma uh_ok_unique: "arena_ok g \<Longrightarrow> uh_ok g s xs \<Longrightarrow> uh_ok g s ys \<Longrightarrow> xs = ys"
proof -
  assume g: "arena_ok g" and o: "uh_ok g s xs" "uh_ok g s ys"
  have "xs \<noteq> []" "ys \<noteq> []" using o by (auto simp: uh_ok_def)
  then show "xs = ys" using tiled_unique [of "uh_blk s" "unat g" xs ys] g o by (simp add: uh_ok_def arena_ok_def)
qed

definition uh_inv :: "u64 \<Rightarrow> uheap \<Rightarrow> bool" where
  "uh_inv g s \<longleftrightarrow> arena_ok g \<and> (\<exists>xs. uh_ok g s xs)"

definition uh_blocks :: "u64 \<Rightarrow> uheap \<Rightarrow> (nat \<times> nat) set" where
  "uh_blocks g s = {b. \<exists>xs. uh_ok g s xs \<and> b \<in> set (held (unat g) xs)}"

definition uh_live :: "u64 \<Rightarrow> uheap \<Rightarrow> u64 set" where
  "uh_live g s = {p. \<exists>n. (unat p, n) \<in> uh_blocks g s}"

lemma blocks_eq: "arena_ok g \<Longrightarrow> uh_ok g s xs \<Longrightarrow> uh_blocks g s = set (held (unat g) xs)"
  using uh_ok_unique unfolding uh_blocks_def by blast

lemma held_unat: "arena_ok g \<Longrightarrow> uh_ok g s xs \<Longrightarrow> (p, n) \<in> set (held (unat g) xs) \<Longrightarrow> unat (of_nat p :: u64) = p"
  using held_range [of p n "unat g" xs] by (intro unat_nat_small) (simp add: uh_ok_def arena_ok_def)

lemma uh_alloc_law:
  assumes "uh_inv g s" "n \<le> 0xFFFFFFFFFFFFFFF0"
  shows "umalloc g n s = Some (0, s) \<or>
    (\<exists>p s'. umalloc g n s = Some (p, s') \<and> p \<noteq> 0 \<and> uh_inv g s' \<and> p \<notin> uh_live g s \<and> uh_live g s' = insert p (uh_live g s))"
proof -
  obtain xs where g: "arena_ok g" and ok: "uh_ok g s xs" using assms(1) by (auto simp: uh_inv_def)
  from umalloc_ok [OF g ok assms(2) refl] show ?thesis
  proof (elim disjE exE conjE)
    fix pre k post s'
    let ?w = "(max 1 (unat n) + 15) div 16 * 16" and ?a = "unat g + span pre"
    let ?p = "of_nat (?a + 32) :: u64"
    assume x: "xs = pre @ (k, True) # post" "?w \<le> k" and r: "umalloc g n s = Some (?p, s')" "uh_ok g s' (pre @ carve ?w k @ post)"
    have bd: "0 < ?a" "?a + span ((k, True) # post) < 2 ^ 64" using ok_bounds [OF g ok [unfolded x(1)]] by simp_all
    have up: "unat ?p = ?a + 32" using bd(2) by (intro unat_nat_small) simp
    have old: "uh_blocks g s = set (held (unat g) pre) \<union> set (held (?a + 32 + k) post)" using blocks_eq [OF g ok] x(1) by (simp add: held_append)
    obtain j where new: "uh_blocks g s' = set (held (unat g) pre) \<union> {(?a + 32, j)} \<union> set (held (?a + 32 + k) post)"
      using blocks_eq [OF g r(2)] x(2) by (auto simp: held_append carve_def ac_simps split: if_splits)
    have "(?a + 32, i) \<notin> uh_blocks g s" for i using held_range [of "?a + 32" i "unat g" pre] held_range [of "?a + 32" i "?a + 32 + k" post] unfolding old by auto
    then have "?p \<notin> uh_live g s" "uh_live g s' = insert ?p (uh_live g s)"
      using up unfolding uh_live_def old new by (auto simp: word_unat_eq_iff)
    moreover have "?p \<noteq> 0" using up bd by auto
    ultimately show ?thesis using r g by (auto simp: uh_inv_def)
  qed simp
qed

lemma uh_release_law:
  assumes "uh_inv g s" "p \<in> uh_live g s"
  shows "\<exists>s'. ufree p s = Some s' \<and> uh_inv g s' \<and> uh_live g s' = uh_live g s - {p}"
proof -
  obtain xs where g: "arena_ok g" and ok: "uh_ok g s xs" using assms(1) by (auto simp: uh_inv_def)
  obtain n where n: "(unat p, n) \<in> set (held (unat g) xs)" using assms(2) blocks_eq [OF g ok] by (auto simp: uh_live_def)
  then obtain pre post where x: "xs = pre @ (n, False) # post" "unat p = unat g + span pre + 32" using held_split by blast
  have "p = of_nat (unat g + span pre + 32)" unfolding x(2) [symmetric] by simp
  from ufree_ok [OF g ok [unfolded x(1)] this] obtain s' where s': "ufree p s = Some s'" "uh_ok g s' (merge pre n post)" by blast
  have old: "uh_blocks g s = set (held (unat g) pre) \<union> {(unat p, n)} \<union> set (held (unat p + n) post)" using blocks_eq [OF g ok] x by (auto simp: held_append)
  have new: "uh_blocks g s' = set (held (unat g) pre) \<union> set (held (unat p + n) post)" using blocks_eq [OF g s'(2)] x(2) by (simp add: held_merge)
  have "(unat p, i) \<notin> uh_blocks g s'" for i
    using held_range [of "unat p" i "unat g" pre] held_range [of "unat p" i "unat p + n" post] x(2) unfolding new by auto
  then have "uh_live g s' = uh_live g s - {p}" unfolding uh_live_def old new by (auto simp: word_unat_eq_iff)
  then show ?thesis using s' g by (auto simp: uh_inv_def)
qed

interpretation uheap: kernel_heap "uh_inv g" "uh_live g" "umalloc g" ufree "0xFFFFFFFFFFFFFFF0" for g
  by unfold_locales (rule uh_alloc_law uh_release_law; assumption)+

section \<open>What the heap of a program promises\<close>

lemma uheap_init_ok: "arena_ok g \<Longrightarrow> uh_ok g (uheap_init g s) [(16777184, True)]"
  by (simp add: uh_ok_def uheap_init_def set_blk_def HEAP_SIZE_def HDR_32 arena_ok_def)

lemma held_aligned: "(p, n) \<in> set (held a xs) \<Longrightarrow> segs_ok xs \<Longrightarrow> 16 dvd a \<Longrightarrow> 16 dvd p"
proof -
  assume h: "(p, n) \<in> set (held a xs)" "segs_ok xs" "16 dvd a"
  then obtain pre post where x: "xs = pre @ (n, False) # post" "p = a + span pre + 32" using held_split by blast
  have "16 dvd span pre" using segs_ok_span [of pre] h(2) x(1) by simp
  then have "16 dvd a + span pre" using h(3) by (intro dvd_add)
  moreover have "16 dvd (32 :: nat)" by simp
  ultimately show "16 dvd p" unfolding x(2) by (rule dvd_add)
qed


lemma all_free_whole: "compact xs \<Longrightarrow> held a xs = [] \<Longrightarrow> xs \<noteq> [] \<Longrightarrow> \<exists>n. xs = [(n, True)]"
proof -
  assume c: "compact xs" "held a xs = []" "xs \<noteq> []"
  then obtain n f ys where xs: "xs = (n, f) # ys" by (cases xs) auto
  have f: "f" "held (a + 32 + n) ys = []" using c(2) xs by (auto split: if_splits)
  have "ys = []"
  proof (cases ys)
    case (Cons y zs)
    then show ?thesis using f c(1) xs by (cases y) (auto split: if_splits)
  qed simp
  then show ?thesis using xs f(1) by simp
qed


lemma align_wraps: "0xFFFFFFFFFFFFFFF0 < n \<Longrightarrow> ALIGN_UP n 16 = 0"
proof -
  assume n: "0xFFFFFFFFFFFFFFF0 < n"
  have a: "ALIGN_UP n 16 = (n + 15) AND NOT (2 ^ 4 - 1)" by (simp add: ALIGN_UP_def add.commute)
  have e: "n + 15 = n - 0xFFFFFFFFFFFFFFF1" by simp
  have "0xFFFFFFFFFFFFFFF1 \<le> n" using n by (simp add: word_le_nat_alt word_less_nat_alt)
  then have "unat (n - 0xFFFFFFFFFFFFFFF1) = unat n - unat (0xFFFFFFFFFFFFFFF1 :: u64)" by (rule unat_sub)
  then have "unat (n + 15) = unat n - 0xFFFFFFFFFFFFFFF1" unfolding e by simp
  then have "unat (n + 15) < 16" using unat_lt2p [of n] by simp
  then have "unat (ALIGN_UP n 16) = 0" unfolding a by (simp only: and_not_mask_pow2 [of 4] unat_sub_mod [of 4]) simp
  then show ?thesis by (simp add: unat_eq_zero)
qed

text \<open>
  A request for nearly all of the address space is not refused: rounding it up wraps around to zero, and \<^verbatim>\<open>malloc\<close> returns a pointer to
  a block that holds no byte at all.
\<close>

theorem umalloc_wraps:
  assumes "arena_ok g" "0xFFFFFFFFFFFFFFF0 < n"
  shows "\<exists>s' e. umalloc g n (uheap_init g s) = Some (g + 32, s') \<and> g + 32 \<noteq> 0 \<and> uh_blk s' (block_of (g + 32)) = Some e \<and> ub_size e = 0 \<and> \<not> ub_free e"
proof -
  let ?s = "uheap_init g s"
  have n0: "n \<noteq> 0" using assms(2) by auto
  have g: "g \<noteq> 0" "uh_first ?s = g" "uh_blk ?s g = Some \<lparr>ub_size = 16777184, ub_next = 0, ub_free = True\<rparr>"
    using assms(1) by (auto simp: uheap_init_def set_blk_def HEAP_SIZE_def HDR_32 arena_ok_def)
  have "find_fit ?s 0 g = Some g" using g by (subst find_fit.simps) simp
  moreover have "g + 32 \<noteq> g" by simp
  moreover have "g + 32 \<noteq> 0"
  proof -
    have "unat g + unat (32 :: u64) < 2 ^ LENGTH(64)" using assms(1) by (simp add: arena_ok_def)
    then have "unat (g + 32) = unat g + unat (32 :: u64)" by (rule iffD1 [OF unat_add_lem])
    then show ?thesis by auto
  qed
  ultimately show ?thesis using g n0 align_wraps [OF assms(2)] by (simp add: umalloc_def Let_def HDR_32 block_of_def set_blk_def)
qed

definition demo_uheap :: uheap where
  "demo_uheap = uheap_init 0x400000 \<lparr>uh_first = 0, uh_blk = Map.empty, uh_mem = (\<lambda>_. 0)\<rparr>"

lemma demo_arena: "arena_ok 0x400000"
  by (simp add: arena_ok_def)

lemma demo_uheap_ok: "uh_ok 0x400000 demo_uheap [(16777184, True)]"
  unfolding demo_uheap_def by (rule uheap_init_ok [OF demo_arena])

lemma demo_malloc: "\<exists>s1. umalloc 0x400000 100 demo_uheap = Some (0x400020, s1) \<and> uh_ok 0x400000 s1 [(112, False), (16777040, True)]"
proof -
  have "(100 :: u64) \<le> 0xFFFFFFFFFFFFFFF0" by simp
  from umalloc_ok [OF demo_arena demo_uheap_ok this refl]
  obtain pre k post s' where "[(16777184, True)] = pre @ (k, True) # post" "umalloc 0x400000 100 demo_uheap = Some (of_nat (unat (0x400000 :: u64) + span pre + 32), s')"
    "uh_ok 0x400000 s' (pre @ carve 112 k @ post)" by (auto simp: misfit_def)
  moreover from this have "pre = []" "k = 16777184" "post = []" by (auto simp: Cons_eq_append_conv)
  ultimately show ?thesis by (simp add: carve_def)
qed



theorem umalloc_wraps_witness: "\<exists>p s'. umalloc 0x400000 0xFFFFFFFFFFFFFFFF demo_uheap = Some (p, s') \<and> p \<noteq> 0"
  using umalloc_wraps [OF demo_arena, of "0xFFFFFFFFFFFFFFFF"] unfolding demo_uheap_def by fastforce

end
