(* ===== verification/User_Printf.thy ===== *)
theory User_Printf
  imports Lizard_Prelude "HOL-Library.Monad_Syntax"
begin

text \<open>
  Formatted output of user programs, \<^verbatim>\<open>src/userspace/lib/printf.c\<close>, and reading numbers back, from \<^verbatim>\<open>src/userspace/lib/stdlib.c\<close>. A C string is the
  list of its bytes before the terminator. The variable arguments are a list; a conversion that finds an argument of another type is undefined in C, here
  \<open>None\<close>. The state of a sink holds the memory it writes to, the bytes it has passed to \<^verbatim>\<open>sys_write\<close> and the stores through \<^verbatim>\<open>%n\<close>. A field
  width is an integer without bound, for a width outside \<^verbatim>\<open>int\<close> is undefined in C. The theory shows that the two kinds of sinks print the same, that
  a buffer is never overrun, and that numbers survive being printed and read.
\<close>

section \<open>Sinks\<close>

record sink =
  sk_buf :: u64
  sk_cap :: u64
  sk_len :: u64
  sk_fd :: int
  sk_fbuf :: "u8 list"
  sk_mem :: "u64 \<Rightarrow> u8"
  sk_out :: "u8 list"
  sk_stores :: "(u64 \<times> u32) list"

definition sink_flush :: "sink \<Rightarrow> sink" where
  "sink_flush s = (if sk_fd s \<ge> 0 \<and> sk_fbuf s \<noteq> [] then s\<lparr>sk_out := sk_out s @ sk_fbuf s, sk_fbuf := []\<rparr> else s)"

definition sink_putc :: "u8 \<Rightarrow> sink \<Rightarrow> sink" where
  "sink_putc c s =
     (let s = (if sk_buf s \<noteq> 0 then if sk_len s + 1 < sk_cap s then s\<lparr>sk_mem := (sk_mem s)(sk_buf s + sk_len s := c)\<rparr> else s
               else if sk_fd s \<ge> 0
               then let s = (if length (sk_fbuf s) = 128 then sink_flush s else s) in s\<lparr>sk_fbuf := sk_fbuf s @ [c]\<rparr>
               else s)
      in s\<lparr>sk_len := sk_len s + 1\<rparr>)"

primrec sink_write :: "u8 list \<Rightarrow> sink \<Rightarrow> sink" where
  "sink_write [] s = s"
| "sink_write (c # cs) s = sink_write cs (sink_putc c s)"

definition sink_pad :: "u8 \<Rightarrow> int \<Rightarrow> sink \<Rightarrow> sink" where
  "sink_pad c n s = (sink_putc c ^^ nat n) s"

section \<open>Numbers\<close>

definition digit_char :: "bool \<Rightarrow> nat \<Rightarrow> u8" where
  "digit_char upper d = (if d < 10 then 48 + of_nat d else if upper then 55 + of_nat d else 87 + of_nat d)"

text \<open>The digits as they come out of the loop, the last one first.\<close>

function u_digits :: "nat \<Rightarrow> bool \<Rightarrow> nat \<Rightarrow> u8 list" where
  "u_digits base upper v =
     digit_char upper (v mod base) # (if base \<le> 1 \<or> v div base = 0 then [] else u_digits base upper (v div base))"
  by pat_completeness auto
termination
  by (relation "measure (\<lambda>(base, upper, v). v)") (auto intro!: div_less_dividend simp: div_eq_0_iff not_le)

declare u_digits.simps [simp del]

definition u_to_str :: "u64 \<Rightarrow> nat \<Rightarrow> bool \<Rightarrow> u8 list" where
  "u_to_str v base upper = rev (u_digits base upper (unat v))"

section \<open>Conversions\<close>

datatype varg = VNum u64 | VStr "u8 list"

record spec =
  sp_left :: bool
  sp_zero :: bool
  sp_plus :: bool
  sp_space :: bool
  sp_alt :: bool

fun fmt_flags :: "spec \<Rightarrow> u8 list \<Rightarrow> spec \<times> u8 list" where
  "fmt_flags p [] = (p, [])"
| "fmt_flags p (c # cs) =
     (if c = 45 then fmt_flags (p\<lparr>sp_left := True\<rparr>) cs
      else if c = 48 then fmt_flags (p\<lparr>sp_zero := True\<rparr>) cs
      else if c = 43 then fmt_flags (p\<lparr>sp_plus := True\<rparr>) cs
      else if c = 32 then fmt_flags (p\<lparr>sp_space := True\<rparr>) cs
      else if c = 35 then fmt_flags (p\<lparr>sp_alt := True\<rparr>) cs
      else (p, c # cs))"

definition isdigit :: "u8 \<Rightarrow> bool" where
  "isdigit c \<longleftrightarrow> 48 \<le> c \<and> c \<le> 57"

fun fmt_number :: "int \<Rightarrow> u8 list \<Rightarrow> int \<times> u8 list" where
  "fmt_number n [] = (n, [])"
| "fmt_number n (c # cs) = (if isdigit c then fmt_number (n * 10 + (uint c - 48)) cs else (n, c # cs))"

fun va_int :: "varg list \<Rightarrow> (int \<times> varg list) option" where
  "va_int (VNum v # as) = Some (sint (ucast v :: u32), as)"
| "va_int _ = None"

text \<open>A number in the format, or a star for one from the arguments.\<close>

definition fmt_star :: "u8 list \<Rightarrow> varg list \<Rightarrow> (int \<times> u8 list \<times> varg list) option" where
  "fmt_star fmt as =
     (if fmt \<noteq> [] \<and> hd fmt = 42 then do { (n, as) \<leftarrow> va_int as; Some (n, tl fmt, as) }
      else let (n, fmt) = fmt_number 0 fmt in Some (n, fmt, as))"

definition fmt_width :: "spec \<Rightarrow> u8 list \<Rightarrow> varg list \<Rightarrow> (spec \<times> int \<times> u8 list \<times> varg list) option" where
  "fmt_width p fmt as = do { (w, fmt, as) \<leftarrow> fmt_star fmt as; Some (if w < 0 then p\<lparr>sp_left := True\<rparr> else p, \<bar>w\<bar>, fmt, as) }"

definition fmt_prec :: "u8 list \<Rightarrow> varg list \<Rightarrow> (int \<times> u8 list \<times> varg list) option" where
  "fmt_prec fmt as =
     (if fmt \<noteq> [] \<and> hd fmt = 46 then do { (n, fmt, as) \<leftarrow> fmt_star (tl fmt) as; Some (if n < 0 then - 1 else n, fmt, as) }
      else Some (- 1, fmt, as))"

fun fmt_length :: "nat \<Rightarrow> u8 list \<Rightarrow> nat \<times> u8 list" where
  "fmt_length n [] = (min n 2, [])"
| "fmt_length n (c # cs) =
     (if c = 108 then fmt_length (n + 1) cs
      else if c = 104 \<or> c = 122 \<or> c = 106 \<or> c = 116 then fmt_length n cs
      else (min n 2, c # cs))"

definition fmt_signed :: "spec \<Rightarrow> int \<Rightarrow> int \<Rightarrow> int \<Rightarrow> sink \<Rightarrow> sink" where
  "fmt_signed p width prec v s =
     (let numbuf = u_to_str (of_int \<bar>v\<bar>) 10 False; nl = int (length numbuf);
          sign = (if v < 0 then [45] else if sp_plus p then [43] else if sp_space p then [32] else []);
          zpad = (if prec \<ge> 0 \<and> prec > nl then prec - nl else 0);
          body = nl + zpad + int (length sign);
          wpad = (if width > body then width - body else 0);
          s = (if \<not> sp_left p \<and> \<not> sp_zero p then sink_pad 32 wpad s else s);
          s = sink_write sign s;
          s = (if \<not> sp_left p \<and> sp_zero p \<and> prec < 0 then sink_pad 48 wpad s else s);
          s = sink_write numbuf (sink_pad 48 zpad s)
      in if sp_left p then sink_pad 32 wpad s else s)"

definition fmt_unsigned :: "spec \<Rightarrow> int \<Rightarrow> int \<Rightarrow> u8 \<Rightarrow> u64 \<Rightarrow> sink \<Rightarrow> sink" where
  "fmt_unsigned p width prec conv v s =
     (let numbuf = u_to_str v (if conv = 111 then 8 else if conv = 117 then 10 else 16) (conv = 88); nl = int (length numbuf);
          prefix = (if sp_alt p \<and> (conv = 120 \<or> conv = 88) \<and> v \<noteq> 0 then [48, conv] else []);
          zpad = (if prec \<ge> 0 \<and> prec > nl then prec - nl else 0);
          body = nl + zpad + int (length prefix);
          wpad = (if width > body then width - body else 0);
          s = (if \<not> sp_left p \<and> \<not> sp_zero p then sink_pad 32 wpad s else s);
          s = sink_write prefix s;
          s = (if \<not> sp_left p \<and> sp_zero p \<and> prec < 0 then sink_pad 48 wpad s else s);
          s = sink_write numbuf (sink_pad 48 zpad s)
      in if sp_left p then sink_pad 32 wpad s else s)"

text \<open>Characters, strings and pointers: blanks, the text, blanks.\<close>

definition fmt_text :: "spec \<Rightarrow> int \<Rightarrow> u8 list \<Rightarrow> sink \<Rightarrow> sink" where
  "fmt_text p width cs s =
     (let wpad = (if width > int (length cs) then width - int (length cs) else 0);
          s = sink_write cs (if \<not> sp_left p then sink_pad 32 wpad s else s)
      in if sp_left p then sink_pad 32 wpad s else s)"

definition fmt_conv :: "spec \<Rightarrow> int \<Rightarrow> int \<Rightarrow> nat \<Rightarrow> u8 \<Rightarrow> varg list \<Rightarrow> sink \<Rightarrow> (varg list \<times> sink) option" where
  "fmt_conv p width prec lng conv as s =
     (if conv = 100 \<or> conv = 105
      then (case as of VNum v # as \<Rightarrow> Some (as, fmt_signed p width prec (if lng = 0 then sint (ucast v :: u32) else sint v) s) | _ \<Rightarrow> None)
      else if conv = 117 \<or> conv = 111 \<or> conv = 120 \<or> conv = 88
      then (case as of VNum v # as \<Rightarrow> Some (as, fmt_unsigned p width prec conv (if lng = 0 then ucast (ucast v :: u32) else v) s) | _ \<Rightarrow> None)
      else if conv = 99
      then (case as of VNum v # as \<Rightarrow> Some (as, fmt_text p width [ucast v] s) | _ \<Rightarrow> None)
      else if conv = 115
      then (case as of
              VStr cs # as \<Rightarrow> Some (as, fmt_text p width (if prec \<ge> 0 then take (nat prec) cs else cs) s)
            | VNum v # as \<Rightarrow>
                if v = 0 then Some (as, fmt_text p width (let cs = [40, 110, 117, 108, 108, 41] in if prec \<ge> 0 then take (nat prec) cs else cs) s) else None
            | _ \<Rightarrow> None)
      else if conv = 112
      then (case as of VNum v # as \<Rightarrow> Some (as, fmt_text p width ([48, 120] @ u_to_str v 16 False) s) | _ \<Rightarrow> None)
      else if conv = 110
      then (case as of VNum v # as \<Rightarrow> Some (as, if v = 0 then s else s\<lparr>sk_stores := sk_stores s @ [(v, ucast (sk_len s))]\<rparr>) | _ \<Rightarrow> None)
      else if conv = 37 then Some (as, sink_putc 37 s)
      else Some (as, sink_putc conv (sink_putc 37 s)))"

section \<open>The format\<close>

lemma length_flags: "length (snd (fmt_flags p cs)) \<le> length cs"
  by (induction p cs rule: fmt_flags.induct) auto

lemma length_number: "length (snd (fmt_number n cs)) \<le> length cs"
  by (induction n cs rule: fmt_number.induct) auto

lemma length_length: "length (snd (fmt_length n cs)) \<le> length cs"
  by (induction n cs rule: fmt_length.induct) auto

lemma length_star: "fmt_star cs as = Some (n, ds, bs) \<Longrightarrow> length ds \<le> length cs"
  using length_number [of 0 cs] by (cases "fmt_number 0 cs") (auto simp: fmt_star_def Option.bind_eq_Some_conv split: if_splits)

lemma length_width: "fmt_width p cs as = Some (q, w, ds, bs) \<Longrightarrow> length ds \<le> length cs"
  using length_star [of cs as] by (auto simp: fmt_width_def Option.bind_eq_Some_conv)

lemma length_prec: "fmt_prec cs as = Some (n, ds, bs) \<Longrightarrow> length ds \<le> length cs"
  using length_star [of "tl cs" as] by (fastforce simp: fmt_prec_def Option.bind_eq_Some_conv split: if_splits)

text \<open>One conversion: what stands behind the percent sign, up to the conversion character.\<close>

definition fmt_one :: "u8 list \<Rightarrow> varg list \<Rightarrow> sink \<Rightarrow> (u8 list \<times> varg list \<times> sink) option" where
  "fmt_one fmt as s =
     do { let (p, fmt) = fmt_flags \<lparr>sp_left = False, sp_zero = False, sp_plus = False, sp_space = False, sp_alt = False\<rparr> fmt;
          (p, width, fmt, as) \<leftarrow> fmt_width p fmt as;
          (prec, fmt, as) \<leftarrow> fmt_prec fmt as;
          let (lng, fmt) = fmt_length 0 fmt;
          case fmt of
            [] \<Rightarrow> Some ([], as, s)
          | conv # fmt \<Rightarrow> do { (as, s) \<leftarrow> fmt_conv p width prec lng conv as s; Some (fmt, as, s) } }"

lemma length_one: "fmt_one fmt as s = Some (rest, bs, s') \<Longrightarrow> length rest \<le> length fmt"
proof -
  assume o: "fmt_one fmt as s = Some (rest, bs, s')"
  obtain p f1 where f1: "fmt_flags \<lparr>sp_left = False, sp_zero = False, sp_plus = False, sp_space = False, sp_alt = False\<rparr> fmt = (p, f1)" by fastforce
  from o f1 obtain q w f2 as2 where f2: "fmt_width p f1 as = Some (q, w, f2, as2)" by (auto simp: fmt_one_def Option.bind_eq_Some_conv)
  with o f1 obtain n f3 as3 where f3: "fmt_prec f2 as2 = Some (n, f3, as3)" by (auto simp: fmt_one_def Option.bind_eq_Some_conv)
  obtain l f4 where f4: "fmt_length 0 f3 = (l, f4)" by fastforce
  have "length rest \<le> length f4" using o f1 f2 f3 f4 by (auto simp: fmt_one_def Option.bind_eq_Some_conv split: list.splits)
  moreover have "length f1 \<le> length fmt" using length_flags [of _ fmt] f1 by (metis snd_conv)
  moreover have "length f4 \<le> length f3" using length_length [of 0 f3] f4 by simp
  ultimately show ?thesis using length_width [OF f2] length_prec [OF f3] by linarith
qed

function vfmt_loop :: "u8 list \<Rightarrow> varg list \<Rightarrow> sink \<Rightarrow> sink option" where
  "vfmt_loop [] as s = Some s"
| "vfmt_loop (c # fmt) as s =
     (if c \<noteq> 37 then vfmt_loop fmt as (sink_putc c s)
      else case fmt_one fmt as s of None \<Rightarrow> None | Some (fmt, as, s) \<Rightarrow> vfmt_loop fmt as s)"
  by pat_completeness auto
termination
  by (relation "measure (\<lambda>(fmt, as, s). length fmt)") (auto dest: length_one simp: less_Suc_eq_le)

definition vfmt :: "u8 list \<Rightarrow> varg list \<Rightarrow> sink \<Rightarrow> (int \<times> sink) option" where
  "vfmt fmt as s = do { s \<leftarrow> vfmt_loop fmt as s; let s = sink_flush s; Some (sint (ucast (sk_len s) :: u32), s) }"

definition vsnprintf :: "u64 \<Rightarrow> u64 \<Rightarrow> u8 list \<Rightarrow> varg list \<Rightarrow> (u64 \<Rightarrow> u8) \<Rightarrow> (int \<times> (u64 \<Rightarrow> u8)) option" where
  "vsnprintf buf n fmt as m =
     do { (r, s) \<leftarrow> vfmt fmt as \<lparr>sk_buf = buf, sk_cap = n, sk_len = 0, sk_fd = - 1, sk_fbuf = [], sk_mem = m, sk_out = [], sk_stores = []\<rparr>;
          Some (r, if buf \<noteq> 0 \<and> n \<noteq> 0 then (sk_mem s)(buf + (if sk_len s < n then sk_len s else n - 1) := 0) else sk_mem s) }"

definition vsprintf :: "u64 \<Rightarrow> u8 list \<Rightarrow> varg list \<Rightarrow> (u64 \<Rightarrow> u8) \<Rightarrow> (int \<times> (u64 \<Rightarrow> u8)) option" where
  "vsprintf buf fmt as m = vsnprintf buf (- 1) fmt as m"

text \<open>Printing to a descriptor: the result and the bytes passed to \<^verbatim>\<open>sys_write\<close>.\<close>

definition vfd :: "int \<Rightarrow> u8 list \<Rightarrow> varg list \<Rightarrow> (int \<times> u8 list) option" where
  "vfd fd fmt as =
     do { (r, s) \<leftarrow> vfmt fmt as \<lparr>sk_buf = 0, sk_cap = 0, sk_len = 0, sk_fd = fd, sk_fbuf = [], sk_mem = (\<lambda>_. 0), sk_out = [], sk_stores = []\<rparr>;
          Some (r, sk_out s) }"

definition vprintf :: "u8 list \<Rightarrow> varg list \<Rightarrow> (int \<times> u8 list) option" where
  "vprintf fmt as = vfd 1 fmt as"

text \<open>The unformatted output; \<open>wr\<close> is the system call \<^verbatim>\<open>sys_write\<close>, on whatever state it works on.\<close>

definition putchar :: "(int \<Rightarrow> u8 list \<Rightarrow> 'w \<Rightarrow> int \<times> 'w) \<Rightarrow> u32 \<Rightarrow> 'w \<Rightarrow> int \<times> 'w" where
  "putchar wr c w = (let (n, w) = wr 1 [ucast c] w in (if n = 1 then sint c else - 1, w))"

definition puts :: "(int \<Rightarrow> u8 list \<Rightarrow> 'w \<Rightarrow> int \<times> 'w) \<Rightarrow> u8 list \<Rightarrow> 'w \<Rightarrow> int \<times> 'w" where
  "puts wr s w =
     (let (n, w) = wr 1 s w in
      if n < 0 then (- 1, w) else let (r, w) = putchar wr 10 w in (if r = - 1 then - 1 else 0, w))"

section \<open>Reading numbers\<close>

definition digitval :: "u8 \<Rightarrow> int \<Rightarrow> int" where
  "digitval c base =
     (let v = (if 48 \<le> c \<and> c \<le> 57 then uint c - 48
               else if 97 \<le> c \<and> c \<le> 122 then uint c - 97 + 10
               else if 65 \<le> c \<and> c \<le> 90 then uint c - 65 + 10
               else - 1)
      in if v < base then v else - 1)"

text \<open>The loop over the digits: the value, whether there was a digit, and the rest of the string.\<close>

fun strtol_digits :: "int \<Rightarrow> u64 \<Rightarrow> bool \<Rightarrow> u8 list \<Rightarrow> u64 \<times> bool \<times> u8 list" where
  "strtol_digits base acc any [] = (acc, any, [])"
| "strtol_digits base acc any (c # cs) =
     (let v = digitval c base in
      if v < 0 then (acc, any, c # cs) else strtol_digits base (acc * of_int base + of_int v) True cs)"

definition strtol :: "u8 list \<Rightarrow> int \<Rightarrow> int \<times> nat" where
  "strtol s base =
     (let p = dropWhile (\<lambda>c. c = 32 \<or> 9 \<le> c \<and> c \<le> 13) s;
          neg = (p \<noteq> [] \<and> hd p = 45);
          p = (if p \<noteq> [] \<and> (hd p = 43 \<or> hd p = 45) then tl p else p);
          hex = ((base = 0 \<or> base = 16) \<and> length p \<ge> 2 \<and> p ! 0 = 48 \<and> (p ! 1 = 120 \<or> p ! 1 = 88));
          oct = (base = 0 \<and> p \<noteq> [] \<and> hd p = 48);
          base = (if hex then 16 else if oct then 8 else if base = 0 then 10 else base);
          p = (if hex then drop 2 p else p);
          (acc, any, rest) = strtol_digits base 0 False p
      in (sint (if neg then - acc else acc), if any then length s - length rest else 0))"

definition strtoul :: "u8 list \<Rightarrow> int \<Rightarrow> u64 \<times> nat" where
  "strtoul s base = (case strtol s base of (v, n) \<Rightarrow> (of_int v, n))"

definition atoi :: "u8 list \<Rightarrow> int" where
  "atoi s = sint (of_int (fst (strtol s 10)) :: u32)"

definition atol :: "u8 list \<Rightarrow> int" where
  "atol s = fst (strtol s 10)"

section \<open>Both sinks print the same\<close>

definition printed :: "sink \<Rightarrow> u8 list" where
  "printed s = sk_out s @ sk_fbuf s"

definition put_str :: "u64 \<Rightarrow> u8 list \<Rightarrow> (u64 \<Rightarrow> u8) \<Rightarrow> u64 \<Rightarrow> u8" where
  "put_str a bs m = (\<lambda>x. if unat (x - a) < length bs then bs ! unat (x - a) else m x)"

lemma put_str_Nil [simp]: "put_str a [] m = m"
  by (simp add: put_str_def)

lemma put_str_snoc: "length bs < 2 ^ 64 \<Longrightarrow> put_str a (bs @ [c]) m = (put_str a bs m)(a + of_nat (length bs) := c)"
proof -
  assume l: "length bs < 2 ^ 64"
  have u: "unat (of_nat (length bs) :: u64) = length bs" using l by (simp add: unat_of_nat)
  have "x = a + of_nat (length bs) \<longleftrightarrow> unat (x - a) = length bs" for x
    using u by (metis add_diff_cancel_left' diff_add_cancel add.commute word_unat_eq_iff)
  then show ?thesis by (auto simp: put_str_def fun_eq_iff nth_append less_Suc_eq)
qed

definition sim :: "u64 \<Rightarrow> u64 \<Rightarrow> (u64 \<Rightarrow> u8) \<Rightarrow> sink \<Rightarrow> sink \<Rightarrow> bool" where
  "sim a n m b d \<longleftrightarrow> a \<noteq> 0 \<and> sk_buf b = a \<and> sk_cap b = n \<and> sk_fd b < 0 \<and> sk_buf d = 0 \<and> 0 \<le> sk_fd d \<and> sk_stores b = sk_stores d \<and>
     sk_len b = of_nat (length (printed d)) \<and> sk_len d = sk_len b \<and>
     (length (printed d) < 2 ^ 64 \<longrightarrow> sk_mem b = put_str a (take (unat n - 1) (printed d)) m)"

lemma printed_flush: "printed (sink_flush s) = printed s"
  by (simp add: printed_def sink_flush_def)

lemma printed_putc: "sk_buf d = 0 \<Longrightarrow> 0 \<le> sk_fd d \<Longrightarrow> printed (sink_putc c d) = printed d @ [c]"
  using printed_flush [of d] by (simp add: sink_putc_def Let_def printed_def)

lemma sim_putc: "sim a n m b d \<Longrightarrow> sim a n m (sink_putc c b) (sink_putc c d)"
proof -
  assume s: "sim a n m b d"
  let ?L = "length (printed d)"
  have p: "printed (sink_putc c d) = printed d @ [c]" using s by (intro printed_putc) (simp_all add: sim_def)
  have d: "sk_buf (sink_putc c d) = 0" "0 \<le> sk_fd (sink_putc c d)" "sk_len (sink_putc c d) = sk_len d + 1" "sk_stores (sink_putc c d) = sk_stores d"
    using s by (simp_all add: sim_def sink_putc_def sink_flush_def Let_def)
  have b: "sk_buf (sink_putc c b) = a" "sk_cap (sink_putc c b) = n" "sk_fd (sink_putc c b) < 0" "sk_len (sink_putc c b) = sk_len b + 1"
    "sk_stores (sink_putc c b) = sk_stores b" "sk_mem (sink_putc c b) = (if sk_len b + 1 < n then (sk_mem b)(a + sk_len b := c) else sk_mem b)"
    using s by (simp_all add: sim_def sink_putc_def Let_def)
  have "sk_mem (sink_putc c b) = put_str a (take (unat n - 1) (printed d @ [c])) m" if l: "?L + 1 < 2 ^ 64"
  proof -
    have len: "sk_len b = of_nat ?L" using s by (simp add: sim_def)
    have "unat (sk_len b + 1) = ?L + 1"
    proof -
      have "sk_len b + 1 = of_nat (?L + 1)" by (simp add: len)
      then show ?thesis using l by (simp only: unat_of_nat) simp
    qed
    then have room: "sk_len b + 1 < n \<longleftrightarrow> ?L < unat n - 1" by (simp add: word_less_nat_alt less_diff_conv)
    have m: "sk_mem b = put_str a (take (unat n - 1) (printed d)) m" using s l by (simp add: sim_def)
    show ?thesis
    proof (cases "?L < unat n - 1")
      case True
      then have "sk_mem (sink_putc c b) = (put_str a (printed d) m)(a + of_nat ?L := c)" using b(6) room m len by simp
      also have "\<dots> = put_str a (printed d @ [c]) m" using put_str_snoc [of "printed d" a c m] l by simp
      finally show ?thesis using True by simp
    next
      case False
      then show ?thesis using b(6) room m by simp
    qed
  qed
  then show ?thesis using s p d b by (simp add: sim_def)
qed

lemma sim_write: "sim a n m b d \<Longrightarrow> sim a n m (sink_write cs b) (sink_write cs d)"
  by (induction cs arbitrary: b d) (simp_all add: sim_putc)

lemma sim_pad: "sim a n m b d \<Longrightarrow> sim a n m (sink_pad c k b) (sink_pad c k d)"
proof -
  assume s: "sim a n m b d"
  have "sim a n m ((sink_putc c ^^ j) b) ((sink_putc c ^^ j) d)" for j by (induction j) (simp_all add: s sim_putc)
  then show ?thesis by (simp add: sink_pad_def)
qed

lemmas sim_steps = sim_putc sim_write sim_pad

lemma sim_signed: "sim a n m b d \<Longrightarrow> sim a n m (fmt_signed p w pr v b) (fmt_signed p w pr v d)"
  unfolding fmt_signed_def Let_def by (simp add: sim_steps split del: if_split split: if_split)

lemma sim_unsigned: "sim a n m b d \<Longrightarrow> sim a n m (fmt_unsigned p w pr c v b) (fmt_unsigned p w pr c v d)"
  unfolding fmt_unsigned_def Let_def by (simp add: sim_steps)

lemma sim_text: "sim a n m b d \<Longrightarrow> sim a n m (fmt_text p w cs b) (fmt_text p w cs d)"
  unfolding fmt_text_def Let_def by (simp add: sim_steps)

lemma sim_conv:
  assumes "sim a n m b d"
  shows "rel_option (rel_prod (=) (sim a n m)) (fmt_conv p w pr l c as b) (fmt_conv p w pr l c as d)"
proof -
  have len: "sk_len b = sk_len d" and st: "sk_stores b = sk_stores d" using assms by (simp_all add: sim_def)
  have "sim a n m (b\<lparr>sk_stores := x\<rparr>) (d\<lparr>sk_stores := x\<rparr>)" for x using assms by (simp add: sim_def printed_def)
  then show ?thesis using sim_signed [OF assms] sim_unsigned [OF assms] sim_text [OF assms] sim_putc [OF assms] sim_putc [OF sim_putc [OF assms]] assms
    unfolding fmt_conv_def len st by (auto split: list.split varg.split)
qed

lemma sim_one:
  assumes "sim a n m b d"
  shows "rel_option (rel_prod (=) (rel_prod (=) (sim a n m))) (fmt_one fmt as b) (fmt_one fmt as d)"
proof -
  obtain p f1 where f1: "fmt_flags \<lparr>sp_left = False, sp_zero = False, sp_plus = False, sp_space = False, sp_alt = False\<rparr> fmt = (p, f1)" by fastforce
  show ?thesis
  proof (cases "fmt_width p f1 as")
    case (Some x)
    then obtain q w f2 as2 where f2: "fmt_width p f1 as = Some (q, w, f2, as2)" by (cases x) auto
    show ?thesis
    proof (cases "fmt_prec f2 as2")
      case (Some y)
      then obtain k f3 as3 where f3: "fmt_prec f2 as2 = Some (k, f3, as3)" by (cases y) auto
      obtain l f4 where f4: "fmt_length 0 f3 = (l, f4)" by fastforce
      show ?thesis
      proof (cases f4)
        case (Cons c f5)
        have "rel_option (rel_prod (=) (sim a n m)) (fmt_conv q w k l c as3 b) (fmt_conv q w k l c as3 d)" by (rule sim_conv [OF assms])
        then show ?thesis using f1 f2 f3 f4 Cons
          by (cases "fmt_conv q w k l c as3 b"; cases "fmt_conv q w k l c as3 d") (auto simp: fmt_one_def)
      qed (use f1 f2 f3 f4 assms in \<open>simp add: fmt_one_def\<close>)
    qed (use f1 f2 in \<open>simp add: fmt_one_def\<close>)
  qed (use f1 in \<open>simp add: fmt_one_def\<close>)
qed

lemma sim_loop: "sim a n m b d \<Longrightarrow> rel_option (sim a n m) (vfmt_loop fmt as b) (vfmt_loop fmt as d)"
proof (induction fmt as b arbitrary: d rule: vfmt_loop.induct)
  case (2 c fmt as b)
  show ?case
  proof (cases "c = 37")
    case True
    have r: "rel_option (rel_prod (=) (rel_prod (=) (sim a n m))) (fmt_one fmt as b) (fmt_one fmt as d)" by (rule sim_one [OF 2(3)])
    show ?thesis
    proof (cases "fmt_one fmt as b")
      case None
      then show ?thesis using r True by (cases "fmt_one fmt as d") auto
    next
      case (Some x)
      then obtain f as1 b1 d1 where x: "fmt_one fmt as b = Some (f, as1, b1)" "fmt_one fmt as d = Some (f, as1, d1)" "sim a n m b1 d1"
        using r by (cases x; cases "fmt_one fmt as d") auto
      then show ?thesis using 2(2) [of _ f _ as1 b1 d1] True by simp
    qed
  qed (use 2(1) sim_putc [OF 2(3)] in simp)
qed simp

lemma vsnprintf_prints:
  assumes "vfd fd fmt as = Some (r, out)" "0 \<le> fd" "length out < 2 ^ 31" "buf \<noteq> 0"
  shows "r = int (length out) \<and> vsnprintf buf n fmt as m = Some (r, put_str buf (if n = 0 then [] else take (unat n - 1) out @ [0]) m)"
proof -
  let ?d = "\<lparr>sk_buf = 0, sk_cap = 0, sk_len = 0, sk_fd = fd, sk_fbuf = [], sk_mem = (\<lambda>_. 0), sk_out = [], sk_stores = []\<rparr>"
  let ?b = "\<lparr>sk_buf = buf, sk_cap = n, sk_len = 0, sk_fd = - 1, sk_fbuf = [], sk_mem = m, sk_out = [], sk_stores = []\<rparr>"
  obtain d where d: "vfmt_loop fmt as ?d = Some d" "r = sint (ucast (sk_len (sink_flush d)) :: u32)" "out = sk_out (sink_flush d)"
    using assms(1) by (auto simp: vfd_def vfmt_def Option.bind_eq_Some_conv Let_def)
  have "sim buf n m ?b ?d" using assms(2,4) by (simp add: sim_def printed_def)
  from sim_loop [OF this, of fmt as] d(1) obtain b where b: "vfmt_loop fmt as ?b = Some b" "sim buf n m b d"
    by (cases "vfmt_loop fmt as ?b") auto
  have o: "printed d = out" using d(3) b(2) by (auto simp: printed_def sink_flush_def sim_def)
  let ?L = "length out"
  have len: "sk_len d = of_nat ?L" "sk_len b = of_nat ?L" "unat (sk_len b) = ?L" using b(2) o assms(3) by (simp_all add: sim_def unat_of_nat)
  have fl: "sk_len (sink_flush d) = sk_len d" "sink_flush b = b" using b(2) by (simp_all add: sink_flush_def sim_def)
  have r: "r = int ?L" using d(2) fl len(1) assms(3) by (simp add: sint_small_32)
  have mem: "sk_mem b = put_str buf (take (unat n - 1) out) m" using b(2) o assms(3) by (simp add: sim_def)
  have "vsnprintf buf n fmt as m = Some (r, if n \<noteq> 0 then (sk_mem b)(buf + (if sk_len b < n then sk_len b else n - 1) := 0) else sk_mem b)"
    using b(1) d(2) fl len assms(4) by (simp add: vsnprintf_def vfmt_def)
  moreover have "(if sk_len b < n then sk_len b else n - 1) = of_nat (length (take (unat n - 1) out))" if "n \<noteq> 0"
  proof -
    have "unat (n - 1) = unat n - 1" using that by (simp add: unat_minus_one)
    moreover have "sk_len b < n \<longleftrightarrow> ?L \<le> unat n - 1" using len(3) that unat_gt_0 [of n] by (simp add: word_less_nat_alt) linarith
    moreover have "n - 1 = of_nat (unat (n - 1))" by simp
    ultimately show ?thesis using len(2) by (simp only: length_take min_def split: if_split) simp
  qed
  moreover have "length (take (unat n - 1) out) < 2 ^ 64" using assms(3) by simp
  ultimately show ?thesis using r mem put_str_snoc [of "take (unat n - 1) out" buf 0 m] by (cases "n = 0") simp_all
qed



section \<open>Numbers survive printing and reading\<close>

lemma digit_value:
  assumes "d < b" "b \<le> 16"
  shows "digitval (digit_char up d) (int b) = int d"
proof -
  have "d < 16" using assms by simp
  then have "d = 0 \<or> d = 1 \<or> d = 2 \<or> d = 3 \<or> d = 4 \<or> d = 5 \<or> d = 6 \<or> d = 7 \<or> d = 8 \<or> d = 9 \<or> d = 10 \<or> d = 11 \<or> d = 12 \<or> d = 13 \<or> d = 14 \<or> d = 15"
    by arith
  then show ?thesis using assms(1) by (elim disjE) (simp_all add: digitval_def digit_char_def)
qed

lemma strtol_digits_snoc:
  assumes "strtol_digits b a y cs = (v, z, [])" "digitval c b \<ge> 0"
  shows "strtol_digits b a y (cs @ [c]) = (v * of_int b + of_int (digitval c b), True, [])"
  using assms by (induction b a y cs rule: strtol_digits.induct) (auto simp: Let_def split: if_splits)

lemma strtol_u_digits:
  assumes "2 \<le> b" "b \<le> 16"
  shows "strtol_digits (int b) 0 False (rev (u_digits b up v)) = (of_nat v, True, [])"
proof (induction v rule: less_induct)
  case (less v)
  have d: "digitval (digit_char up (v mod b)) (int b) = int (v mod b)" using assms by (intro digit_value) simp_all
  show ?case
  proof (cases "v div b = 0")
    case True
    then have "v < b" using assms by (simp add: div_eq_0_iff)
    then show ?thesis using True d by (subst u_digits.simps) simp
  next
    case False
    then have "v div b < v" using assms by (intro div_less_dividend) (auto intro: ccontr)
    from less [OF this] have "strtol_digits (int b) 0 False (rev (u_digits b up (v div b)) @ [digit_char up (v mod b)])
        = (of_nat (v div b) * of_int (int b) + of_int (int (v mod b)), True, [])"
      using strtol_digits_snoc [of "int b" 0 False _ _ True "digit_char up (v mod b)"] d by simp
    also have "of_nat (v div b) * of_int (int b) + of_int (int (v mod b)) = (of_nat v :: u64)"
      by (simp flip: of_nat_mult of_nat_add)
    finally show ?thesis using False assms by (subst u_digits.simps) simp
  qed
qed

lemma strtol_digits_blanks:
  assumes "strtol_digits b a y cs = (v, z, [])"
  shows "strtol_digits b a y (cs @ replicate t 32) = (v, z, replicate t 32)"
  using assms
proof (induction b a y cs rule: strtol_digits.induct)
  case (1 b a y)
  then show ?case by (cases t) (simp_all add: digitval_def)
qed (auto simp: Let_def split: if_splits)

lemma strtol_digits_zeros:
  assumes "2 \<le> b" "cs \<noteq> []" "digitval (hd cs) b \<ge> 0"
  shows "strtol_digits b 0 y (replicate z 48 @ cs) = strtol_digits b 0 False cs"
proof (induction z arbitrary: y)
  case 0
  then show ?case using assms(2,3) by (cases cs) simp_all
next
  case (Suc z)
  then show ?case using assms(1) by (simp add: digitval_def)
qed

lemma u_digits_valid: "2 \<le> b \<Longrightarrow> b \<le> 16 \<Longrightarrow> c \<in> set (u_digits b up v) \<Longrightarrow> 0 \<le> digitval c (int b)"
proof (induction v rule: less_induct)
  case (less v)
  have "digitval (digit_char up (v mod b)) (int b) = int (v mod b)" using less(2,3) by (intro digit_value) simp_all
  moreover have "v div b < v" if "v div b \<noteq> 0" using that less(2) by (intro div_less_dividend) (auto intro: ccontr)
  ultimately show ?case using less(1) [of "v div b"] less(2-4) by (subst (asm) u_digits.simps) (auto split: if_splits)
qed

lemma u_digits_not_Nil: "u_digits b up v \<noteq> []"
  by (subst u_digits.simps) simp

lemma digit_not_special:
  assumes "0 \<le> digitval c b" "b \<le> 16"
  shows "c \<noteq> 32" "\<not> (9 \<le> c \<and> c \<le> 13)" "c \<noteq> 43" "c \<noteq> 45" "c \<noteq> 120" "c \<noteq> 88"
proof -
  have k: "48 \<le> uint c \<and> uint c \<le> 57 \<or> 65 \<le> uint c \<and> uint c \<le> 70 \<or> 97 \<le> uint c \<and> uint c \<le> 102"
    using assms by (auto simp: digitval_def Let_def word_le_def split: if_splits)
  then show "c \<noteq> 32" "c \<noteq> 43" "c \<noteq> 45" "c \<noteq> 120" "c \<noteq> 88" by auto
  show "\<not> (9 \<le> c \<and> c \<le> 13)" using k by (auto simp: word_le_def)
qed

text \<open>A field: blanks, perhaps a sign or a hexadecimal prefix, zeros, the digits, blanks.\<close>

definition field :: "nat \<Rightarrow> u8 list \<Rightarrow> nat \<Rightarrow> u8 list \<Rightarrow> nat \<Rightarrow> u8 list" where
  "field a pre z ds t = replicate a 32 @ pre @ replicate z 48 @ ds @ replicate t 32"

definition blank :: "u8 \<Rightarrow> bool" where
  "blank c \<longleftrightarrow> c = 32 \<or> 9 \<le> c \<and> c \<le> 13"

lemma drop_blanks: "dropWhile blank (replicate k 32 @ xs) = dropWhile blank xs"
  by (induction k) (simp_all add: blank_def)

lemma strtol_alt:
  "strtol s base =
     (let p = dropWhile blank s; neg = (p \<noteq> [] \<and> hd p = 45);
          p = (if p \<noteq> [] \<and> (hd p = 43 \<or> hd p = 45) then tl p else p);
          hex = ((base = 0 \<or> base = 16) \<and> length p \<ge> 2 \<and> p ! 0 = 48 \<and> (p ! 1 = 120 \<or> p ! 1 = 88));
          oct = (base = 0 \<and> p \<noteq> [] \<and> hd p = 48);
          base = (if hex then 16 else if oct then 8 else if base = 0 then 10 else base);
          p = (if hex then drop 2 p else p);
          (acc, any, rest) = strtol_digits base 0 False p
      in (sint (if neg then - acc else acc), if any then length s - length rest else 0))"
proof -
  have "blank = (\<lambda>c. c = 32 \<or> 9 \<le> c \<and> c \<le> 13)" by (simp add: blank_def fun_eq_iff)
  then show ?thesis by (simp only: strtol_def)
qed

lemma strtol_core:
  assumes q: "\<not> blank c" "c \<noteq> 43" "c \<noteq> 45" and nx: "cs = [] \<or> hd cs \<noteq> 120 \<and> hd cs \<noteq> 88" and b: "2 \<le> b"
    and run: "strtol_digits b 0 False (c # cs) = (w, True, rest)"
    and pre: "pre \<in> {[], [32], [43], [45]}"
  shows "strtol (replicate a 32 @ pre @ c # cs) b = (sint (if pre = [45] then - w else w), a + length pre + (length cs + 1) - length rest)"
proof -
  define q where "q = c # cs"
  have h: "\<not> (2 \<le> length q \<and> q ! 0 = 48 \<and> (q ! 1 = 120 \<or> q ! 1 = 88))" unfolding q_def using nx by (cases cs) auto
  have r: "strtol_digits b 0 False q = (w, True, rest)" and l: "length q = length cs + 1" using run unfolding q_def by simp_all
  have d: "q \<noteq> []" "hd q \<noteq> 43" "hd q \<noteq> 45" "dropWhile blank q = q" using assms(1-3) by (simp_all add: q_def)
  have bl: "blank 32" "\<not> blank 43" "\<not> blank 45" by (simp_all add: blank_def)
  consider "pre = []" | "pre = [32]" | "pre = [43]" | "pre = [45]" using pre by blast
  then show ?thesis using h b r d l bl unfolding strtol_alt drop_blanks q_def [symmetric] Let_def by cases auto
qed

lemma strtol_hex_core:
  assumes "x = 120 \<or> x = 88" "strtol_digits 16 0 False q = (w, True, rest)"
  shows "strtol (replicate a 32 @ [48, x] @ q) 16 = (sint w, a + 2 + length q - length rest)"
proof -
  have "\<not> blank 48" by (simp add: blank_def)
  then show ?thesis using assms unfolding strtol_alt drop_blanks by simp
qed

lemma strtol_field:
  assumes "2 \<le> b" "b \<le> 16" "pre \<in> {[], [32], [43], [45]} \<or> b = 16 \<and> pre \<in> {[48, 120], [48, 88]}"
    and "ds = rev (u_digits b up v)"
  shows "strtol (field a pre z ds t) (int b) =
     (sint (if pre = [45] then - of_nat v else of_nat v :: u64), a + length pre + z + length ds)"
proof -
  let ?zs = "replicate z 48 @ ds" and ?bl = "replicate t (32 :: u8)"
  have ds: "ds \<noteq> []" "\<forall>c \<in> set ds. 0 \<le> digitval c (int b)" using assms(1,2,4) u_digits_not_Nil u_digits_valid by simp_all
  have d48: "digitval 48 (int b) = 0" using assms(1) by (simp add: digitval_def)
  have valid: "\<forall>c \<in> set ?zs. 0 \<le> digitval c (int b)" using ds(2) d48 by auto
  have run: "strtol_digits (int b) 0 False (?zs @ ?bl) = (of_nat v, True, ?bl)"
    using strtol_digits_zeros [of "int b" ds False z] ds(1) bspec [OF ds(2) hd_in_set [OF ds(1)]] assms(1,2,4) strtol_u_digits [of b up v]
    by (intro strtol_digits_blanks) simp
  obtain c cs where c: "?zs @ ?bl = c # cs" "c = hd ?zs" using ds(1) by (cases "?zs @ ?bl") (simp, metis append_is_Nil_conv hd_append list.sel(1))
  have "0 \<le> digitval c (int b)" unfolding c(2) using valid ds(1) by (intro bspec [OF valid] hd_in_set) simp
  from digit_not_special [OF this] assms(2) have q: "\<not> blank c" "c \<noteq> 43" "c \<noteq> 45" by (simp_all add: blank_def)
  have "x \<noteq> 120 \<and> x \<noteq> 88" if "x \<in> set (?zs @ ?bl)" for x
    using that bspec [OF valid, of x] digit_not_special(5,6) [of x "int b"] assms(2) by (cases "x = 32") auto
  then have nx: "cs = [] \<or> hd cs \<noteq> 120 \<and> hd cs \<noteq> 88" unfolding c(1) by (cases cs) simp_all
  have len: "length cs + 1 = z + length ds + t" using arg_cong [OF c(1), of length] by simp
  note run = run [unfolded c(1)]
  have f: "field a pre z ds t = replicate a 32 @ pre @ c # cs" using c(1) by (simp add: field_def)
  show ?thesis
  proof (cases "pre \<in> {[], [32], [43], [45]}")
    case True
    show ?thesis unfolding f using strtol_core [OF q nx _ run True, of a] assms(1) len by simp
  next
    case False
    then obtain x where x: "b = 16" "pre = [48, x]" "x = 120 \<or> x = 88" using assms(3) by blast
    have "strtol (replicate a 32 @ [48, x] @ c # cs) 16 = (sint (of_nat v :: u64), a + 2 + length (c # cs) - t)"
      using strtol_hex_core [OF x(3) run [unfolded x(1) of_nat_numeral], of a] by (simp only: length_replicate)
    then show ?thesis unfolding f using x len by simp
  qed
qed

definition to_fd :: "sink \<Rightarrow> bool" where
  "to_fd s \<longleftrightarrow> sk_buf s = 0 \<and> 0 \<le> sk_fd s"

lemma to_fd_putc: "to_fd s \<Longrightarrow> to_fd (sink_putc c s)"
  by (simp add: to_fd_def sink_putc_def sink_flush_def Let_def)

lemma to_fd_write: "to_fd s \<Longrightarrow> to_fd (sink_write cs s) \<and> printed (sink_write cs s) = printed s @ cs"
  by (induction cs arbitrary: s) (simp_all add: to_fd_putc printed_putc [unfolded to_fd_def] to_fd_def [THEN iffD1] flip: to_fd_def)

lemma to_fd_pad: "to_fd s \<Longrightarrow> to_fd (sink_pad c n s) \<and> printed (sink_pad c n s) = printed s @ replicate (nat n) c"
proof -
  assume s: "to_fd s"
  have "to_fd ((sink_putc c ^^ j) s) \<and> printed ((sink_putc c ^^ j) s) = printed s @ replicate j c" for j
    by (induction j) (simp_all add: s to_fd_putc printed_putc to_fd_def [THEN iffD1] replicate_append_same)
  then show ?thesis by (simp add: sink_pad_def)
qed

lemmas to_fd_steps = to_fd_write [THEN conjunct1] to_fd_write [THEN conjunct2] to_fd_pad [THEN conjunct1] to_fd_pad [THEN conjunct2]

text \<open>The layout of a number in its field.\<close>

definition layout :: "spec \<Rightarrow> int \<Rightarrow> int \<Rightarrow> u8 list \<Rightarrow> u8 list \<Rightarrow> u8 list" where
  "layout p w pr pre ds =
     (let z = (if pr \<ge> 0 \<and> pr > int (length ds) then pr - int (length ds) else 0);
          body = int (length ds) + z + int (length pre);
          k = nat (if w > body then w - body else 0)
      in field (if sp_left p \<or> sp_zero p then 0 else k) pre ((if \<not> sp_left p \<and> sp_zero p \<and> pr < 0 then k else 0) + nat z) ds (if sp_left p then k else 0))"

lemma length_layout: "\<not> sp_zero p \<or> sp_left p \<or> pr < 0 \<Longrightarrow> int (length (layout p w pr pre ds)) = max w (max pr (int (length ds)) + int (length pre))"
  by (auto simp: layout_def Let_def field_def)

lemma layout_field: "\<exists>a z t. layout p w pr pre ds = field a pre z ds t"
  unfolding layout_def Let_def by blast

lemma printed_signed:
  "to_fd s \<Longrightarrow> printed (fmt_signed p w pr v s) = printed s @
     layout p w pr (if v < 0 then [45] else if sp_plus p then [43] else if sp_space p then [32] else []) (u_to_str (of_int \<bar>v\<bar>) 10 False)"
  unfolding fmt_signed_def Let_def layout_def field_def by (simp add: to_fd_steps replicate_add)

lemma printed_unsigned:
  "to_fd s \<Longrightarrow> printed (fmt_unsigned p w pr c v s) = printed s @
     layout p w pr (if sp_alt p \<and> (c = 120 \<or> c = 88) \<and> v \<noteq> 0 then [48, c] else [])
       (u_to_str v (if c = 111 then 8 else if c = 117 then 10 else 16) (c = 88))"
  unfolding fmt_unsigned_def Let_def layout_def field_def by (simp add: to_fd_steps replicate_add)

lemma signed_value:
  assumes "v \<in> {- (2 ^ 63)..<2 ^ 63}"
  shows "unat (of_int \<bar>v\<bar> :: u64) = nat \<bar>v\<bar>" "sint (if v < 0 then - of_nat (nat \<bar>v\<bar>) else of_nat (nat \<bar>v\<bar>) :: u64) = v"
proof -
  have "uint (of_int \<bar>v\<bar> :: u64) = \<bar>v\<bar>" using assms by (simp add: uint_word_of_int abs_if)
  then show "unat (of_int \<bar>v\<bar> :: u64) = nat \<bar>v\<bar>" by (simp add: unat_eq_nat_uint)
  have "(if v < 0 then - of_nat (nat \<bar>v\<bar>) else of_nat (nat \<bar>v\<bar>) :: u64) = of_int v" by (simp add: of_nat_nat)
  then show "sint (if v < 0 then - of_nat (nat \<bar>v\<bar>) else of_nat (nat \<bar>v\<bar>) :: u64) = v"
    using assms by (simp only: sint_sbintrunc') (simp add: signed_take_bit_int_eq_self)
qed

lemma strtol_layout:
  assumes "2 \<le> b" "b \<le> 16" "pre \<in> {[], [32], [43], [45]} \<or> b = 16 \<and> pre \<in> {[48, 120], [48, 88]}"
    and "ds = rev (u_digits b up v)"
  shows "\<exists>k. drop k (layout p w pr pre ds) = replicate (length (layout p w pr pre ds) - k) 32 \<and>
     strtol (layout p w pr pre ds) (int b) = (sint (if pre = [45] then - of_nat v else of_nat v :: u64), k)"
proof -
  obtain a z t where l: "layout p w pr pre ds = field a pre z ds t" using layout_field by blast
  have "drop (a + length pre + z + length ds) (field a pre z ds t) = replicate t 32" "length (field a pre z ds t) - (a + length pre + z + length ds) = t"
    by (simp_all add: field_def)
  then show ?thesis unfolding l using strtol_field [OF assms, of a z t] by auto
qed

lemma width_layout: "\<not> sp_zero p \<or> sp_left p \<or> pr < 0 \<longrightarrow> w \<le> int (length (layout p w pr pre ds))"
  using length_layout [of p pr w pre ds] by auto

text \<open>
  Property C27. A number that was printed reads back as itself, whatever the flags, the width and the precision of the conversion: what \<^verbatim>\<open>%d\<close> or
  \<^verbatim>\<open>%ld\<close> adds to the output is read by \<^verbatim>\<open>strtol\<close> as the same number, and what \<^verbatim>\<open>%u\<close>, \<^verbatim>\<open>%o\<close>,
  \<^verbatim>\<open>%x\<close> and \<^verbatim>\<open>%X\<close> add by \<^verbatim>\<open>strtoul\<close> with the base of the conversion; reading stops at the blanks behind the number. The
  output fills the width asked for, except when zeros and a precision are asked for together.
\<close>

theorem print_parse_roundtrip:
  assumes "sk_buf s = 0" "0 \<le> sk_fd s" "conv \<in> {100, 105, 117, 111, 120, 88}"
  shows "\<exists>s' out k. fmt_conv p w pr lng conv (VNum x # as) s = Some (as, s') \<and> printed s' = printed s @ out \<and>
     drop k out = replicate (length out - k) 32 \<and>
     (if conv = 100 \<or> conv = 105 then strtol out 10 = (if lng = 0 then sint (ucast x :: u32) else sint x, k)
      else strtoul out (if conv = 111 then 8 else if conv = 117 then 10 else 16) = (if lng = 0 then ucast (ucast x :: u32) else x, k)) \<and>
     (\<not> sp_zero p \<or> sp_left p \<or> pr < 0 \<longrightarrow> w \<le> int (length out))"
proof (cases "conv = 100 \<or> conv = 105")
  case True
  have fd: "to_fd s" using assms by (simp add: to_fd_def)
  define v where "v = (if lng = 0 then sint (ucast x :: u32) else sint x)"
  let ?pre = "if v < 0 then [45] else if sp_plus p then [43] else if sp_space p then [32] else [] :: u8 list"
  let ?ds = "u_to_str (of_int \<bar>v\<bar>) 10 False"
  let ?out = "layout p w pr ?pre ?ds"
  have "sint (ucast x :: u32) \<in> {- (2 ^ 31)..<2 ^ 31}" "sint x \<in> {- (2 ^ 63)..<2 ^ 63}"
    using sint_lt [of "ucast x :: u32"] sint_ge [of "ucast x :: u32"] sint_lt [of x] sint_ge [of x] by simp_all
  then have v: "v \<in> {- (2 ^ 63)..<2 ^ 63}" by (auto simp: v_def)
  have ds: "?ds = rev (u_digits 10 False (nat \<bar>v\<bar>))" by (simp only: u_to_str_def signed_value(1) [OF v])
  have ten: "(2 :: nat) \<le> 10 \<and> (10 :: nat) \<le> 16" and pre: "?pre \<in> {[], [32], [43], [45]} \<or> (10 :: nat) = 16 \<and> ?pre \<in> {[48, 120], [48, 88]}"
    by simp_all
  from strtol_layout [OF ten [THEN conjunct1] ten [THEN conjunct2] pre ds, of p w pr] obtain k where k: "drop k ?out = replicate (length ?out - k) 32"
      "strtol ?out (int 10) = (sint (if ?pre = [45] then - of_nat (nat \<bar>v\<bar>) else of_nat (nat \<bar>v\<bar>) :: u64), k)"
    by blast
  have "?pre = [45] \<longleftrightarrow> v < 0" by simp
  then have "strtol ?out 10 = (v, k)" using k(2) signed_value(2) [OF v] by simp
  moreover have "fmt_conv p w pr lng conv (VNum x # as) s = Some (as, fmt_signed p w pr v s)" using True by (auto simp: fmt_conv_def v_def)
  ultimately show ?thesis unfolding if_P [OF True] v_def [symmetric]
    using printed_signed [OF fd, of p w pr v] k(1) width_layout [of p pr w ?pre ?ds] by blast
next
  case False
  have fd: "to_fd s" using assms by (simp add: to_fd_def)
  define v where "v = (if lng = 0 then ucast (ucast x :: u32) else x)"
  define b :: nat where "b = (if conv = 111 then 8 else if conv = 117 then 10 else 16)"
  let ?pre = "if sp_alt p \<and> (conv = 120 \<or> conv = 88) \<and> v \<noteq> 0 then [48, conv] else [] :: u8 list"
  let ?ds = "u_to_str v b (conv = 88)"
  let ?out = "layout p w pr ?pre ?ds"
  have b: "2 \<le> b" "b \<le> 16" "?pre \<in> {[], [32], [43], [45]} \<or> b = 16 \<and> ?pre \<in> {[48, 120], [48, 88]}" by (auto simp: b_def)
  have ds: "?ds = rev (u_digits b (conv = 88) (unat v))" by (simp only: u_to_str_def)
  from strtol_layout [OF b ds, of p w pr] obtain k where k: "drop k ?out = replicate (length ?out - k) 32"
      "strtol ?out (int b) = (sint (if ?pre = [45] then - of_nat (unat v) else of_nat (unat v) :: u64), k)"
    by blast
  have "?pre \<noteq> [45]" by simp
  then have r: "strtoul ?out (int b) = (v, k)" using k(2) by (simp add: strtoul_def)
  have base: "(if conv = 111 then 8 else if conv = 117 then 10 else 16) = int b" by (simp add: b_def)
  have c: "fmt_conv p w pr lng conv (VNum x # as) s = Some (as, fmt_unsigned p w pr conv v s)"
    using False assms(3) by (auto simp: fmt_conv_def v_def)
  have o: "printed (fmt_unsigned p w pr conv v s) = printed s @ ?out" using printed_unsigned [OF fd, of p w pr conv v] by (simp only: b_def)
  show ?thesis unfolding if_not_P [OF False] v_def [symmetric] base
    by (rule exI [of _ "fmt_unsigned p w pr conv v s"], rule exI [of _ ?out], rule exI [of _ k]) (simp only: c o k(1) r simp_thms, rule width_layout)
qed

theorem print_parse_roundtrip_witness:
  "\<exists>s' out k. fmt_conv \<lparr>sp_left = False, sp_zero = True, sp_plus = True, sp_space = False, sp_alt = False\<rparr> 9 (- 1) 0 100 [VNum (- 1205)]
       \<lparr>sk_buf = 0, sk_cap = 0, sk_len = 0, sk_fd = 1, sk_fbuf = [62], sk_mem = (\<lambda>_. 0), sk_out = [], sk_stores = []\<rparr> = Some ([], s') \<and>
     printed s' = 62 # out \<and> strtol out 10 = (- 1205, k) \<and> 9 \<le> length out"
  using print_parse_roundtrip
    [of "\<lparr>sk_buf = 0, sk_cap = 0, sk_len = 0, sk_fd = 1, sk_fbuf = [62], sk_mem = (\<lambda>_. 0), sk_out = [], sk_stores = []\<rparr>" 100
        "\<lparr>sp_left = False, sp_zero = True, sp_plus = True, sp_space = False, sp_alt = False\<rparr>" 9 "- 1" 0 "- 1205" "[]"]
  by (simp add: printed_def [of "sink.fields _ _ _ _ _ _ _ _"]) (auto simp: printed_def)

end
