(* ===== verification/User_Lib.thy ===== *)
theory User_Lib
  imports User_Heap User_Printf "HOL-Library.Multiset"
begin

text \<open>
  The rest of \<^verbatim>\<open>src/userspace/lib/stdlib.c\<close>: the functions run at exit, absolute values, random numbers and sorting. An array is a region of the byte
  memory; the comparison of \<^verbatim>\<open>qsort\<close> is an argument, a function of the bytes of the two elements. The theory shows that \<^verbatim>\<open>qsort\<close> sorts.
\<close>

section \<open>Process exit\<close>

definition ATEXIT_MAX :: nat where
  "ATEXIT_MAX = 32"

text \<open>The table of functions to run at exit, in the order of registration.\<close>

definition atexit :: "('s \<Rightarrow> 's) \<Rightarrow> ('s \<Rightarrow> 's) list \<Rightarrow> int \<times> ('s \<Rightarrow> 's) list" where
  "atexit fn tab = (if length tab \<ge> ATEXIT_MAX then (- 1, tab) else (0, tab @ [fn]))"

text \<open>The state in which \<^verbatim>\<open>_exit\<close> is called, and the code it is called with.\<close>

definition uexit :: "int \<Rightarrow> ('s \<Rightarrow> 's) list \<Rightarrow> 's \<Rightarrow> int \<times> 's" where
  "uexit code tab s = (code, fold (\<lambda>fn. fn) (rev tab) s)"

definition uabort :: "'s \<Rightarrow> int \<times> 's" where
  "uabort s = (134, s)"

section \<open>Numbers\<close>

definition uabs :: "u32 \<Rightarrow> u32" where
  "uabs x = (if sint x < 0 then - x else x)"

definition ulabs :: "u64 \<Rightarrow> u64" where
  "ulabs x = (if sint x < 0 then - x else x)"

text \<open>The state of the generator is \<^verbatim>\<open>g_rand\<close>.\<close>

definition urand :: "u64 \<Rightarrow> u32 \<times> u64" where
  "urand g = (let g = g * 1103515245 + 12345 in (ucast (drop_bit 16 g AND 0x7fffffff), g))"

definition usrand :: "u32 \<Rightarrow> u64" where
  "usrand seed = ucast seed"

section \<open>Sorting\<close>

definition get_bytes :: "u64 \<Rightarrow> nat \<Rightarrow> bmem \<Rightarrow> u8 list" where
  "get_bytes a n m = map (\<lambda>k. m (a + of_nat k)) [0..<n]"

text \<open>The inner loop: the elements greater than the one in the buffer move up; the result is the place for it.\<close>

fun qsort_shift :: "u64 \<Rightarrow> u64 \<Rightarrow> (u8 list \<Rightarrow> u8 list \<Rightarrow> int) \<Rightarrow> u8 list \<Rightarrow> nat \<Rightarrow> bmem \<Rightarrow> nat \<times> bmem" where
  "qsort_shift a sz cmp tmp 0 m = (0, m)"
| "qsort_shift a sz cmp tmp (Suc j) m =
     (if cmp (get_bytes (a + of_nat j * sz) (unat sz) m) tmp > 0
      then qsort_shift a sz cmp tmp j (copy_bytes (a + of_nat (Suc j) * sz) (a + of_nat j * sz) (unat sz) m)
      else (Suc j, m))"

definition qsort_step :: "u64 \<Rightarrow> u64 \<Rightarrow> (u8 list \<Rightarrow> u8 list \<Rightarrow> int) \<Rightarrow> nat \<Rightarrow> bmem \<Rightarrow> bmem" where
  "qsort_step a sz cmp i m =
     (let tmp = get_bytes (a + of_nat i * sz) (unat sz) m;
          (j, m) = qsort_shift a sz cmp tmp i m
      in put_str (a + of_nat j * sz) tmp m)"

definition qsort :: "u64 \<Rightarrow> u64 \<Rightarrow> u64 \<Rightarrow> (u8 list \<Rightarrow> u8 list \<Rightarrow> int) \<Rightarrow> bmem \<Rightarrow> bmem" where
  "qsort a n sz cmp m = (if sz > 256 then m else fold (qsort_step a sz cmp) [1..<unat n] m)"

section \<open>The array as a list\<close>

definition array :: "u64 \<Rightarrow> u64 \<Rightarrow> nat \<Rightarrow> bmem \<Rightarrow> u8 list list" where
  "array a sz n m = map (\<lambda>j. get_bytes (a + of_nat j * sz) (unat sz) m) [0..<n]"

text \<open>The distance of an address from the start of the array.\<close>

lemma slot_offset:
  fixes sz :: u64
  assumes "j < n" "k < unat sz" "n * unat sz < 2 ^ 64"
  shows "unat (of_nat j * sz + of_nat k) = j * unat sz + k"
proof -
  have "j * unat sz + k < (j + 1) * unat sz" using assms(2) by simp
  also have "\<dots> \<le> n * unat sz" using assms(1) by (intro mult_right_mono) simp_all
  finally have l: "j * unat sz + k < 2 ^ 64" using assms(3) by simp
  have "of_nat j * sz + of_nat k = of_nat (j * unat sz + k)" by simp
  then show ?thesis using l by (simp only: unat_of_nat) simp
qed

lemma slot_in:
  fixes sz :: u64
  assumes "j < n" "i < n" "k < unat sz" "n * unat sz < 2 ^ 64"
  shows "unat (a + of_nat j * sz + of_nat k - (a + of_nat i * sz)) < unat sz \<longleftrightarrow> j = i"
    "j = i \<Longrightarrow> unat (a + of_nat j * sz + of_nat k - (a + of_nat i * sz)) = k"
proof -
  have k: "unat (of_nat k :: u64) = k"
  proof -
    have "k < 2 ^ 64" using assms(3) unat_lt2p [of sz] by simp
    then show ?thesis by (simp add: unat_of_nat)
  qed
  then show "unat (a + of_nat j * sz + of_nat k - (a + of_nat i * sz)) = k" if "j = i" using that by simp
  show "unat (a + of_nat j * sz + of_nat k - (a + of_nat i * sz)) < unat sz \<longleftrightarrow> j = i"
  proof
    let ?d = "a + of_nat j * sz + of_nat k - (a + of_nat i * sz)"
    assume d: "unat ?d < unat sz"
    have "of_nat i * sz + of_nat (unat ?d) = of_nat j * sz + of_nat k" by simp
    then have "i * unat sz + unat ?d = j * unat sz + k"
      using slot_offset [OF assms(2) d assms(4)] slot_offset [OF assms(1,3,4)] by metis
    then have "(i * unat sz + unat ?d) div unat sz = (j * unat sz + k) div unat sz" by simp
    then show "j = i" using d assms(3) by (simp add: div_mult_self3)
  qed (use k assms(3) in simp)
qed

lemma length_get_bytes [simp]: "length (get_bytes a n m) = n"
  by (simp add: get_bytes_def)

lemma array_put:
  assumes "i < n" "n * unat sz < 2 ^ 64" "length bs = unat sz"
  shows "array a sz n (put_str (a + of_nat i * sz) bs m) = (array a sz n m)[i := bs]"
proof (rule nth_equalityI)
  fix j assume "j < length (array a sz n (put_str (a + of_nat i * sz) bs m))"
  then have j: "j < n" by (simp add: array_def)
  have "get_bytes (a + of_nat j * sz) (unat sz) (put_str (a + of_nat i * sz) bs m) =
      (if j = i then bs else get_bytes (a + of_nat j * sz) (unat sz) m)"
  proof (rule nth_equalityI)
    fix k assume "k < length (get_bytes (a + of_nat j * sz) (unat sz) (put_str (a + of_nat i * sz) bs m))"
    then have k: "k < unat sz" by simp
    note slot = slot_in [OF j assms(1) k assms(2), of a]
    have "put_str (a + of_nat i * sz) bs m (a + of_nat j * sz + of_nat k) = (if j = i then bs ! k else m (a + of_nat j * sz + of_nat k))"
    proof (cases "j = i")
      case True
      then show ?thesis unfolding put_str_def assms(3) slot(1) slot(2) [OF True] using k by (simp only: if_True simp_thms)
    next
      case False
      then show ?thesis unfolding put_str_def assms(3) slot(1) by (simp only: if_False simp_thms)
    qed
    then show "get_bytes (a + of_nat j * sz) (unat sz) (put_str (a + of_nat i * sz) bs m) ! k =
        (if j = i then bs else get_bytes (a + of_nat j * sz) (unat sz) m) ! k" using k by (simp add: get_bytes_def)
  qed (simp add: assms(3))
  then show "array a sz n (put_str (a + of_nat i * sz) bs m) ! j = (array a sz n m)[i := bs] ! j"
    using j by (simp add: array_def nth_list_update)
qed (simp add: array_def)

lemma copy_as_put:
  assumes "n = unat (sz :: u64)"
  shows "copy_bytes d s n m = put_str d (get_bytes s n m) m"
  by (auto simp: copy_bytes_def put_str_def get_bytes_def fun_eq_iff)

lemma array_nth: "j < n \<Longrightarrow> array a sz n m ! j = get_bytes (a + of_nat j * sz) (unat sz) m"
  by (simp add: array_def)

lemma length_array [simp]: "length (array a sz n m) = n"
  by (simp add: array_def)

text \<open>Only the array changes.\<close>

definition in_array :: "u64 \<Rightarrow> u64 \<Rightarrow> nat \<Rightarrow> u64 \<Rightarrow> bool" where
  "in_array a sz n x \<longleftrightarrow> unat (x - a) < n * unat sz"

lemma put_outside:
  assumes "i < n" "n * unat sz < 2 ^ 64" "length bs = unat sz" "\<not> in_array a sz n x"
  shows "put_str (a + of_nat i * sz) bs m x = m x"
proof -
  have "\<not> unat (x - (a + of_nat i * sz)) < unat sz"
  proof
    let ?d = "x - (a + of_nat i * sz)"
    assume d: "unat ?d < unat sz"
    have "x - a = of_nat i * sz + of_nat (unat ?d)" by simp
    then have "unat (x - a) = i * unat sz + unat ?d" using slot_offset [OF assms(1) d assms(2)] by simp
    moreover have "(i + 1) * unat sz \<le> n * unat sz" using assms(1) by (intro mult_right_mono) simp_all
    ultimately show False using d assms(4) by (simp add: in_array_def)
  qed
  then show ?thesis by (simp add: put_str_def assms(3))
qed

text \<open>The sort on lists that the loops carry out.\<close>

fun shift :: "('a \<Rightarrow> 'a \<Rightarrow> int) \<Rightarrow> 'a \<Rightarrow> nat \<Rightarrow> 'a list \<Rightarrow> nat \<times> 'a list" where
  "shift cmp t 0 ys = (0, ys)"
| "shift cmp t (Suc j) ys = (if cmp (ys ! j) t > 0 then shift cmp t j (ys[Suc j := ys ! j]) else (Suc j, ys))"

definition sort_step :: "('a \<Rightarrow> 'a \<Rightarrow> int) \<Rightarrow> nat \<Rightarrow> 'a list \<Rightarrow> 'a list" where
  "sort_step cmp i ys = (let (j, zs) = shift cmp (ys ! i) i ys in zs[j := ys ! i])"

lemma shift_refines:
  assumes "n * unat sz < 2 ^ 64" "j < n"
  shows "array a sz n (snd (qsort_shift a sz cmp t j m)) = snd (shift cmp t j (array a sz n m)) \<and>
     fst (qsort_shift a sz cmp t j m) = fst (shift cmp t j (array a sz n m)) \<and> fst (qsort_shift a sz cmp t j m) \<le> j \<and>
     (\<forall>x. \<not> in_array a sz n x \<longrightarrow> snd (qsort_shift a sz cmp t j m) x = m x)"
  using assms(2)
proof (induction j arbitrary: m)
  case (Suc j)
  let ?m = "put_str (a + of_nat (Suc j) * sz) (get_bytes (a + of_nat j * sz) (unat sz) m) m"
  have c: "copy_bytes (a + of_nat (Suc j) * sz) (a + of_nat j * sz) (unat sz) m = ?m" by (rule copy_as_put) simp
  have m: "array a sz n ?m = (array a sz n m)[Suc j := array a sz n m ! j]"
    using array_put [OF Suc.prems assms(1)] Suc.prems by (simp add: array_nth del: of_nat_Suc)
  have o: "\<not> in_array a sz n x \<Longrightarrow> ?m x = m x" for x using put_outside [OF Suc.prems assms(1)] by (simp del: of_nat_Suc)
  have j: "j < n" using Suc.prems by simp
  show ?case using Suc.IH [OF j, of ?m] m o j by (simp add: c array_nth del: of_nat_Suc)
qed simp

lemma step_refines:
  assumes "n * unat sz < 2 ^ 64" "i < n"
  shows "array a sz n (qsort_step a sz cmp i m) = sort_step cmp i (array a sz n m) \<and>
     (\<forall>x. \<not> in_array a sz n x \<longrightarrow> qsort_step a sz cmp i m x = m x)"
proof -
  let ?t = "get_bytes (a + of_nat i * sz) (unat sz) m"
  obtain j m' where q: "qsort_shift a sz cmp ?t i m = (j, m')" by fastforce
  obtain j' zs where s: "shift cmp ?t i (array a sz n m) = (j', zs)" by fastforce
  have r: "array a sz n m' = zs" "j = j'" "j < n" "\<forall>x. \<not> in_array a sz n x \<longrightarrow> m' x = m x"
    using shift_refines [OF assms, of a cmp ?t m] assms(2) by (simp_all add: q s)
  have "qsort_step a sz cmp i m = put_str (a + of_nat j * sz) ?t m'" by (simp add: qsort_step_def q)
  moreover have "sort_step cmp i (array a sz n m) = zs[j := ?t]" using s r(2) assms(2) by (simp add: sort_step_def array_nth)
  ultimately show ?thesis using array_put [OF r(3) assms(1), of ?t a m'] put_outside [OF r(3) assms(1), of ?t a] r by simp
qed

lemma steps_refine:
  assumes "n * unat sz < 2 ^ 64" "\<forall>i \<in> set is. i < n"
  shows "array a sz n (fold (qsort_step a sz cmp) is m) = fold (sort_step cmp) is (array a sz n m) \<and>
     (\<forall>x. \<not> in_array a sz n x \<longrightarrow> fold (qsort_step a sz cmp) is m x = m x)"
  using assms(2)
proof (induction "is" arbitrary: m)
  case (Cons i "is")
  then show ?case using step_refines [OF assms(1), of i a cmp m] by simp
qed simp

section \<open>The list is sorted\<close>

lemma shift_result:
  "(case shift cmp t (length pre) (pre @ h # post) of (k, zs) \<Rightarrow> zs[k := t]) =
     rev (dropWhile (\<lambda>x. cmp x t > 0) (rev pre)) @ t # rev (takeWhile (\<lambda>x. cmp x t > 0) (rev pre)) @ post"
proof (induction pre arbitrary: h post rule: rev_induct)
  case (snoc q qs)
  then show ?case using snoc [of q "q # post"] by (simp add: nth_append list_update_append split: prod.splits)
qed simp

lemma sort_step_result:
  assumes "i < length ys"
  shows "sort_step cmp i ys = rev (dropWhile (\<lambda>x. cmp x (ys ! i) > 0) (rev (take i ys))) @ ys ! i #
     rev (takeWhile (\<lambda>x. cmp x (ys ! i) > 0) (rev (take i ys))) @ drop (Suc i) ys"
  using shift_result [where cmp = cmp and t = "ys ! i" and pre = "take i ys" and h = "ys ! i" and post = "drop (Suc i) ys"] assms
  by (simp add: sort_step_def min_absorb2 flip: id_take_nth_drop)

lemma mset_split_rev: "mset (rev (dropWhile P (rev xs))) + mset (rev (takeWhile P (rev xs))) = mset xs"
  by (metis add.commute mset_append mset_rev takeWhile_dropWhile_id)

lemma sort_step_mset: "i < length ys \<Longrightarrow> mset (sort_step cmp i ys) = mset ys"
proof -
  assume i: "i < length ys"
  let ?P = "\<lambda>x. cmp x (ys ! i) > 0"
  have "mset (sort_step cmp i ys) = mset (rev (dropWhile ?P (rev (take i ys)))) + mset (rev (takeWhile ?P (rev (take i ys)))) + mset (ys ! i # drop (Suc i) ys)"
    unfolding sort_step_result [OF i] by simp
  also have "\<dots> = mset (take i ys @ ys ! i # drop (Suc i) ys)" unfolding mset_split_rev by simp
  also have "\<dots> = mset ys" using id_take_nth_drop [OF i] by simp
  finally show ?thesis .
qed

lemma length_sort_step [simp]: "length (sort_step cmp i ys) = length ys" if "i < length ys"
  by (rule mset_eq_length [OF sort_step_mset [OF that]])

lemma sorted_wrt_last: "sorted_wrt R xs \<Longrightarrow> x \<in> set xs \<Longrightarrow> x \<noteq> last xs \<Longrightarrow> R x (last xs)"
  by (induction xs) (auto split: if_splits)

lemma sort_step_sorted:
  assumes "i < length ys" "sorted_wrt (\<lambda>x y. cmp x y \<le> 0) (take i ys)"
    and total: "\<And>x y. cmp x y \<le> 0 \<or> cmp y x \<le> 0" and trans: "\<And>x y z. cmp x y \<le> 0 \<Longrightarrow> cmp y z \<le> 0 \<Longrightarrow> cmp x z \<le> 0"
  shows "sorted_wrt (\<lambda>x y. cmp x y \<le> 0) (take (Suc i) (sort_step cmp i ys))"
proof -
  let ?le = "\<lambda>x y. cmp x y \<le> 0" and ?t = "ys ! i"
  let ?lo = "rev (dropWhile (\<lambda>x. cmp x ?t > 0) (rev (take i ys)))" and ?hi = "rev (takeWhile (\<lambda>x. cmp x ?t > 0) (rev (take i ys)))"
  have lh: "take i ys = ?lo @ ?hi" by (metis rev_append rev_rev_ident takeWhile_dropWhile_id)
  then have "length ?lo + length ?hi = i" using assms(1) by (metis length_append length_take min.absorb4)
  then have "length (?lo @ ?t # ?hi) = Suc i" by simp
  moreover have "sort_step cmp i ys = (?lo @ ?t # ?hi) @ drop (Suc i) ys" unfolding sort_step_result [OF assms(1)] by simp
  ultimately have tk: "take (Suc i) (sort_step cmp i ys) = ?lo @ ?t # ?hi" by (metis append_eq_conv_conj)
  have s: "sorted_wrt ?le ?lo" "sorted_wrt ?le ?hi" "\<forall>x \<in> set ?lo. \<forall>y \<in> set ?hi. ?le x y"
    using assms(2) lh by (metis sorted_wrt_append)+
  have hi: "?le ?t y" if "y \<in> set ?hi" for y
    using that total [of ?t y] by (auto dest: set_takeWhileD)
  have lo: "?le x ?t" if "x \<in> set ?lo" for x
  proof -
    have ne: "?lo \<noteq> []" using that by (metis empty_iff empty_set)
    then have "dropWhile (\<lambda>x. cmp x ?t > 0) (rev (take i ys)) \<noteq> []" by (metis rev.simps(1))
    from hd_dropWhile [OF this] have l: "?le (last ?lo) ?t" by (simp add: last_rev)
    show ?thesis
    proof (cases "x = last ?lo")
      case False
      have "?le x (last ?lo)" by (rule sorted_wrt_last [OF s(1) that False])
      then show ?thesis using l trans by blast
    qed (use l in simp)
  qed
  show ?thesis unfolding tk using s lo hi by (simp only: sorted_wrt_append sorted_wrt.simps) (auto simp del: set_rev)
qed

lemma steps_sort:
  assumes total: "\<And>x y. cmp x y \<le> 0 \<or> cmp y x \<le> 0" and trans: "\<And>x y z. cmp x y \<le> 0 \<Longrightarrow> cmp y z \<le> 0 \<Longrightarrow> cmp x z \<le> 0"
    and "k \<le> length ys"
  shows "mset (fold (sort_step cmp) [1..<k] ys) = mset ys \<and> sorted_wrt (\<lambda>x y. cmp x y \<le> 0) (take k (fold (sort_step cmp) [1..<k] ys))"
  using assms(3)
proof (induction k)
  case (Suc k)
  show ?case
  proof (cases "k = 0")
    case True
    then show ?thesis using Suc.prems by (cases ys) simp_all
  next
    case False
    let ?zs = "fold (sort_step cmp) [1..<k] ys"
    have ih: "mset ?zs = mset ys" "sorted_wrt (\<lambda>x y. cmp x y \<le> 0) (take k ?zs)" using Suc by simp_all
    then have l: "k < length ?zs" using Suc.prems mset_eq_length [OF ih(1)] by simp
    have "fold (sort_step cmp) [1..<Suc k] ys = sort_step cmp k ?zs" using False by simp
    then show ?thesis using sort_step_mset [OF l, of cmp] sort_step_sorted [OF l ih(2) total trans] ih(1) by simp
  qed
qed simp



end
