(* ===== verification/Shell.thy ===== *)
theory Shell
  imports Syscall User_Printf
begin

text \<open>
  The shell, \<^verbatim>\<open>src/userspace/src/sh.c\<close>. A line is the array of its bytes; an argument is the place in the line where it starts. The system calls run outside
  the program and are arguments: the record \<open>os\<close> of functions on a state \<open>'w\<close>, in the form in which the user library offers them. Formatted output goes through the model of
  the library, in the pieces it writes.
\<close>

section \<open>Words\<close>

definition LINE_MAX :: nat where "LINE_MAX = 256"
definition MAX_ARGS :: nat where "MAX_ARGS = 32"

definition sep :: "u8 \<Rightarrow> bool" where
  "sep c \<longleftrightarrow> c = 32 \<or> c = 9"

definition skip_sep :: "u8 list \<Rightarrow> nat \<Rightarrow> nat" where
  "skip_sep line p = p + length (takeWhile sep (drop p line))"

definition word_end :: "u8 list \<Rightarrow> nat \<Rightarrow> nat" where
  "word_end line p = p + length (takeWhile (\<lambda>c. c \<noteq> 0 \<and> \<not> sep c) (drop p line))"

lemma skip_sep_ge: "p \<le> skip_sep line p"
  by (simp add: skip_sep_def)

lemma skip_sep_stop: "skip_sep line p < length line \<Longrightarrow> \<not> sep (line ! skip_sep line p)"
  using nth_length_takeWhile [of sep "drop p line"] by (cases "p < length line") (auto simp: skip_sep_def)

lemma word_end_gt: "p < length line \<Longrightarrow> line ! p \<noteq> 0 \<Longrightarrow> \<not> sep (line ! p) \<Longrightarrow> p < word_end line p"
  by (simp add: word_end_def flip: Cons_nth_drop_Suc)

text \<open>The loop over the words. Reading behind the end of the array is a fault.\<close>

function tok_loop :: "u8 list \<Rightarrow> nat \<Rightarrow> nat list \<Rightarrow> (nat list \<times> u8 list) option" where
  "tok_loop line p argv =
     (if p \<ge> length line then None
      else if line ! p = 0 \<or> length argv \<ge> MAX_ARGS - 1 then Some (argv, line)
      else let p = skip_sep line p in
        if p \<ge> length line then None
        else if line ! p = 0 then Some (argv, line)
        else let q = word_end line p in
          if q \<ge> length line then None
          else if line ! q = 0 then tok_loop line q (argv @ [p])
          else tok_loop (line[q := 0]) (q + 1) (argv @ [p]))"
  by pat_completeness auto
termination
proof (relation "measure (\<lambda>(line, p, argv). length line - p)", goal_cases)
  case (2 line p argv p' q)
  then show ?case using word_end_gt [of p' line] skip_sep_stop [of line p] skip_sep_ge [of p line] by auto
next
  case (3 line p argv p' q)
  then show ?case using word_end_gt [of p' line] skip_sep_stop [of line p] skip_sep_ge [of p line] by auto
qed simp

declare tok_loop.simps [simp del]

definition tokenize :: "u8 list \<Rightarrow> (nat list \<times> u8 list) option" where
  "tokenize line = tok_loop line 0 []"

text \<open>The string that starts at a place of the line.\<close>

definition cstr :: "u8 list \<Rightarrow> nat \<Rightarrow> u8 list" where
  "cstr line p = takeWhile (\<lambda>c. c \<noteq> 0) (drop p line)"

section \<open>Reading a line\<close>

record 'w os =
  os_read :: "int \<Rightarrow> nat \<Rightarrow> 'w \<Rightarrow> (int \<times> u8 list) \<times> 'w"
  os_write :: "int \<Rightarrow> u8 list \<Rightarrow> 'w \<Rightarrow> int \<times> 'w"
  os_getcwd :: "nat \<Rightarrow> 'w \<Rightarrow> u8 list option \<times> 'w"
  os_chdir :: "u8 list \<Rightarrow> 'w \<Rightarrow> int \<times> 'w"
  os_mkdir :: "u8 list \<Rightarrow> nat \<Rightarrow> 'w \<Rightarrow> int \<times> 'w"
  os_unlink :: "u8 list \<Rightarrow> 'w \<Rightarrow> int \<times> 'w"
  os_rmdir :: "u8 list \<Rightarrow> 'w \<Rightarrow> int \<times> 'w"
  os_open :: "u8 list \<Rightarrow> nat \<Rightarrow> 'w \<Rightarrow> int \<times> 'w"
  os_readdir :: "int \<Rightarrow> nat \<Rightarrow> 'w \<Rightarrow> (int \<times> (u8 list \<times> bool) list) \<times> 'w"
  os_close :: "int \<Rightarrow> 'w \<Rightarrow> 'w"
  os_spawn :: "u8 list \<Rightarrow> u8 list list \<Rightarrow> 'w \<Rightarrow> int \<times> 'w"
  os_waitpid :: "int \<Rightarrow> 'w \<Rightarrow> int option \<times> 'w"

text \<open>The bytes that were read, stored behind what the line holds.\<close>

definition put_at :: "nat \<Rightarrow> u8 list \<Rightarrow> u8 list \<Rightarrow> u8 list" where
  "put_at n bs line = take n line @ bs @ drop (n + length bs) line"

text \<open>The loop that fills the buffer: the length, whether it ended with the input, and the buffer. A count that is not the number of bytes delivered, or more than asked
  for, breaks the contract of the call and has no result.\<close>

function fill_line :: "'w os \<Rightarrow> nat \<Rightarrow> nat \<Rightarrow> u8 list \<Rightarrow> 'w \<Rightarrow> ((nat \<times> bool \<times> u8 list) \<times> 'w) option" where
  "fill_line os cap len buf w =
     (if \<not> len < cap - 1 then Some ((len, False, buf), w)
      else let ((n, bs), w) = os_read os 0 (cap - 1 - len) w in
        if n \<le> 0 then Some ((len, True, buf), w)
        else if int (length bs) \<noteq> n \<or> length bs > cap - 1 - len then None
        else let buf = put_at len bs buf; len = len + length bs in
          if last bs = 10 then Some ((len, False, buf), w) else fill_line os cap len buf w)"
  by pat_completeness auto
termination
  by (relation "measure (\<lambda>(os, cap, len, buf, w). cap - len)") (auto simp: neq_Nil_conv)

declare fill_line.simps [simp del]

definition eol :: "u8 \<Rightarrow> bool" where
  "eol c \<longleftrightarrow> c = 10 \<or> c = 13"

definition read_line :: "'w os \<Rightarrow> nat \<Rightarrow> u8 list \<Rightarrow> 'w \<Rightarrow> ((int \<times> u8 list) \<times> 'w) option" where
  "read_line os cap buf w =
     do { ((len, eof, buf), w) \<leftarrow> fill_line os cap 0 buf w;
          if eof then Some ((if len \<noteq> 0 then int len else - 1, buf), w)
          else let len = len - length (takeWhile eol (rev (take len buf))) in Some ((int len, buf[len := 0]), w) }"

section \<open>Output\<close>

definition str :: "string \<Rightarrow> u8 list" where
  "str s = map of_char s"

text \<open>The library writes full buffers of 128 bytes and then the rest.\<close>

function chunks :: "u8 list \<Rightarrow> u8 list list" where
  "chunks xs = (if xs = [] then [] else take 128 xs # chunks (drop 128 xs))"
  by pat_completeness auto
termination
  by (relation "measure length") auto

declare chunks.simps [simp del]

definition print :: "'w os \<Rightarrow> u8 list \<Rightarrow> varg list \<Rightarrow> 'w \<Rightarrow> 'w option" where
  "print os fmt as w = do { (_, out) \<leftarrow> vprintf fmt as; Some (fold (\<lambda>c w. snd (os_write os 1 c w)) (chunks out) w) }"

section \<open>Commands\<close>

definition is_path :: "u8 list \<Rightarrow> bool" where
  "is_path cmd \<longleftrightarrow> 47 \<in> set cmd"

text \<open>The loop of a command over its operands: \<open>op\<close> is the call, \<open>why\<close> the text for its errors.\<close>

primrec over_args :: "'w os \<Rightarrow> u8 list \<Rightarrow> (u8 list \<Rightarrow> 'w \<Rightarrow> int \<times> 'w) \<Rightarrow> (int \<Rightarrow> u8 list) \<Rightarrow> u8 list list \<Rightarrow> int \<Rightarrow> 'w \<Rightarrow> (int \<times> 'w) option" where
  "over_args os fmt op why [] lst w = Some (lst, w)"
| "over_args os fmt op why (a # as) lst w =
     (let (rc, w) = op a w in
      if rc < 0 then do { w \<leftarrow> print os fmt [VStr a, VStr (why rc)] w; over_args os fmt op why as 1 w }
      else over_args os fmt op why as lst w)"

definition with_args :: "'w os \<Rightarrow> u8 list \<Rightarrow> (u8 list \<Rightarrow> 'w \<Rightarrow> int \<times> 'w) \<Rightarrow> (int \<Rightarrow> u8 list) \<Rightarrow> u8 list list \<Rightarrow> 'w \<Rightarrow> (int \<times> 'w) option" where
  "with_args os name op why args w =
     (if args = [] then do { w \<leftarrow> print os (name @ str '': missing operand'' @ [10]) [] w; Some (1, w) }
      else over_args os (name @ str '': %s: %s'' @ [10]) op why args 0 w)"

definition mkdir_error :: "int \<Rightarrow> u8 list" where
  "mkdir_error rc = (if rc = - EEXIST then str ''already exists'' else if rc = - ENOENT then str ''no such parent directory''
     else if rc = - ENOTDIR then str ''not a directory'' else str ''cannot create'')"

definition rm_error :: "int \<Rightarrow> u8 list" where
  "rm_error rc = (if rc = - ENOENT then str ''no such file'' else if rc = - EISDIR then str ''is a directory''
     else if rc = - ENOTDIR then str ''not a directory'' else str ''cannot remove'')"

definition rmdir_error :: "int \<Rightarrow> u8 list" where
  "rmdir_error rc = (if rc = - ENOENT then str ''no such directory'' else if rc = - ENOTDIR then str ''not a directory''
     else if rc = - ENOTEMPTY then str ''directory not empty'' else str ''cannot remove'')"

definition cmd_cd :: "'w os \<Rightarrow> u8 list list \<Rightarrow> 'w \<Rightarrow> (int \<times> 'w) option" where
  "cmd_cd os args w =
     (let dir = (if args \<noteq> [] then hd args else str ''/''); (rc, w) = os_chdir os dir w in
      if rc \<noteq> 0 then do { w \<leftarrow> print os (str ''cd: %s: no such directory'' @ [10]) [VStr dir] w; Some (1, w) } else Some (0, w))"

primrec ls_print :: "'w os \<Rightarrow> (u8 list \<times> bool) list \<Rightarrow> 'w \<Rightarrow> 'w option" where
  "ls_print os [] w = Some w"
| "ls_print os (e # es) w = do { w \<leftarrow> print os (str ''%s%s'' @ [10]) [VStr (fst e), VStr (if snd e then str ''/'' else [])] w; ls_print os es w }"

partial_function (option) ls_loop :: "'w os \<Rightarrow> int \<Rightarrow> 'w \<Rightarrow> (int \<times> 'w) option" where
  "ls_loop os fd w =
     (let ((n, ents), w) = os_readdir os fd 32 w in
      if n > 0 then do { w \<leftarrow> ls_print os (take (nat n) ents) w; ls_loop os fd w } else Some (n, w))"

definition cmd_ls :: "'w os \<Rightarrow> u8 list list \<Rightarrow> 'w \<Rightarrow> (int \<times> 'w) option" where
  "cmd_ls os args w =
     (let dir = (if args \<noteq> [] then hd args else str ''.''); (fd, w) = os_open os dir 0 w in
      if fd < 0 then do { w \<leftarrow> print os (str ''ls: %s: cannot open'' @ [10]) [VStr dir] w; Some (1, w) }
      else do { (n, w) \<leftarrow> ls_loop os fd w; Some (if n < 0 then 1 else 0, os_close os fd w) })"

primrec cmd_echo :: "'w os \<Rightarrow> u8 list list \<Rightarrow> 'w \<Rightarrow> 'w option" where
  "cmd_echo os [] w = print os [10] [] w"
| "cmd_echo os (a # as) w = do { w \<leftarrow> print os (str ''%s%s'') [VStr a, VStr (if as \<noteq> [] then str '' '' else [])] w; cmd_echo os as w }"

text \<open>A program with a path is started, and its end awaited.\<close>

definition run_program :: "'w os \<Rightarrow> u8 list list \<Rightarrow> 'w \<Rightarrow> (int \<times> 'w) option" where
  "run_program os argv w =
     (let cmd = hd argv in
      if \<not> is_path cmd then do { w \<leftarrow> print os (str ''%s: not found (use ./%s to run it from here)'' @ [10]) [VStr cmd, VStr cmd] w; Some (127, w) }
      else let (pid, w) = os_spawn os cmd argv w in
        if pid < 0 then do { w \<leftarrow> print os (str ''%s: not found'' @ [10]) [VStr cmd] w; Some (127, w) }
        else let (status, w) = os_waitpid os pid w in Some (case status of Some x \<Rightarrow> x | None \<Rightarrow> 0, w))"

datatype 'w shell = Leave int 'w | Again int "u8 list" 'w

definition command :: "'w os \<Rightarrow> u8 list list \<Rightarrow> int \<Rightarrow> u8 list \<Rightarrow> 'w \<Rightarrow> 'w shell option" where
  "command os argv lst line w =
     (let cmd = hd argv; args = tl argv;
          again = (\<lambda>r. do { (lst, w) \<leftarrow> r; Some (Again lst line w) })
      in if cmd = str ''exit'' then Some (Leave (if args \<noteq> [] then User_Printf.atoi (hd args) else lst) w)
         else if cmd = str ''help''
         then do { w \<leftarrow> print os (str ''builtins: help  exit [code]  echo ...  clear  status  cd [dir]  pwd  mkdir dir...  rmdir dir...  rm file...  ls [dir]'' @ [10]) [] w;
                   w \<leftarrow> print os (str ''else: ./prog or path/prog runs an external program (no PATH)'' @ [10]) [] w;
                   Some (Again lst line w) }
         else if cmd = str ''cd'' then again (cmd_cd os args w)
         else if cmd = str ''pwd''
         then (case os_getcwd os LINE_MAX w of
                 (None, w) \<Rightarrow> Some (Again 0 line w)
               | (Some d, w) \<Rightarrow> do { w \<leftarrow> print os (str ''%s'' @ [10]) [VStr d] w; Some (Again 0 (put_at 0 (d @ [0]) line) w) })
         else if cmd = str ''mkdir'' then again (with_args os cmd (\<lambda>a. os_mkdir os a 493) mkdir_error args w)
         else if cmd = str ''rm'' then again (with_args os cmd (os_unlink os) rm_error args w)
         else if cmd = str ''rmdir'' then again (with_args os cmd (os_rmdir os) rmdir_error args w)
         else if cmd = str ''ls'' then again (cmd_ls os args w)
         else if cmd = str ''echo'' then do { w \<leftarrow> cmd_echo os args w; Some (Again lst line w) }
         else if cmd = str ''clear'' then Some (Again lst line (snd (os_write os 1 [12] w)))
         else if cmd = str ''status'' then do { w \<leftarrow> print os (str ''%d'' @ [10]) [VNum (of_int lst)] w; Some (Again lst line w) }
         else again (run_program os argv w))"

text \<open>One turn: the prompt, a line, its words, the command.\<close>

definition turn :: "'w os \<Rightarrow> int \<Rightarrow> u8 list \<Rightarrow> 'w \<Rightarrow> 'w shell option" where
  "turn os lst line w =
     do { w \<leftarrow> (case os_getcwd os 128 w of (Some cwd, w) \<Rightarrow> print os (str ''lizard:%s$ '') [VStr cwd] w | (None, w) \<Rightarrow> print os (str ''lizard$ '') [] w);
          ((len, line), w) \<leftarrow> read_line os LINE_MAX line w;
          if len < 0 then Some (Leave lst w)
          else do { (argv, line) \<leftarrow> tokenize line;
                    if argv = [] then Some (Again lst line w) else command os (map (cstr line) argv) lst line w } }"

partial_function (option) turns :: "'w os \<Rightarrow> int \<Rightarrow> u8 list \<Rightarrow> 'w \<Rightarrow> (int \<times> 'w) option" where
  "turns os lst line w =
     do { r \<leftarrow> turn os lst line w; case r of Leave code w \<Rightarrow> Some (code, w) | Again lst line w \<Rightarrow> turns os lst line w }"

definition sh_main :: "'w os \<Rightarrow> u8 list \<Rightarrow> 'w \<Rightarrow> (int \<times> 'w) option" where
  "sh_main os line w = do { w \<leftarrow> print os (str (''lizard shell - '' @ [CHR 0x27] @ ''help'' @ [CHR 0x27] @ '' for builtins'') @ [10]) [] w; turns os 0 line w }"

section \<open>The words of a line\<close>

text \<open>What splitting means, without arrays.\<close>

function words :: "u8 list \<Rightarrow> u8 list list" where
  "words s = (if dropWhile sep s = [] then [] else takeWhile (\<lambda>c. \<not> sep c) (dropWhile sep s) # words (dropWhile (\<lambda>c. \<not> sep c) (dropWhile sep s)))"
  by pat_completeness auto
termination
proof (relation "measure length", goal_cases)
  case (2 s)
  then have "\<not> sep (hd (dropWhile sep s))" by (rule hd_dropWhile)
  then have "length (dropWhile (\<lambda>c. \<not> sep c) (dropWhile sep s)) < length (dropWhile sep s)" using 2
    by (cases "dropWhile sep s") (simp_all add: length_dropWhile_le less_Suc_eq_le)
  then show ?case using length_dropWhile_le [of sep s] by simp
qed simp

declare words.simps [simp del]

lemma cstr_front: "0 \<in> set (drop a xs) \<Longrightarrow> cstr (xs @ ys) a = cstr xs a"
proof -
  assume z: "0 \<in> set (drop a xs)"
  then have "a < length xs" by (metis drop_all empty_iff empty_set not_le)
  then show ?thesis using z by (simp add: cstr_def takeWhile_append1)
qed

lemma cstr_word: "0 \<notin> set w \<Longrightarrow> cstr (xs @ w @ 0 # ys) (length xs) = w"
proof -
  assume "0 \<notin> set w"
  then have "takeWhile (\<lambda>c. c \<noteq> 0) (w @ 0 # ys) = w" by (induction w) auto
  then show ?thesis by (simp add: cstr_def)
qed

lemma sep_zero [simp]: "\<not> sep 0"
  by (simp add: sep_def)

text \<open>The shape of one word inside the line.\<close>

lemma word_places:
  assumes "0 \<notin> set s" "line = xs @ s @ 0 # rest" "r = dropWhile sep s"
  shows "skip_sep line (length xs) = length xs + length (takeWhile sep s)"
    "r \<noteq> [] \<Longrightarrow> word_end line (length xs + length (takeWhile sep s)) = length xs + length (takeWhile sep s) + length (takeWhile (\<lambda>c. \<not> sep c) r)"
    "line = (xs @ takeWhile sep s) @ r @ 0 # rest" "0 \<notin> set r"
proof -
  have sr: "s = takeWhile sep s @ r" by (simp add: assms(3))
  show l: "line = (xs @ takeWhile sep s) @ r @ 0 # rest" unfolding assms(2) by (subst sr) simp
  show r0: "0 \<notin> set r" using assms(1) by (subst (asm) sr) simp
  have "takeWhile sep (s @ 0 # rest) = takeWhile sep s" by (induction s) simp_all
  then show "skip_sep line (length xs) = length xs + length (takeWhile sep s)" by (simp add: skip_sep_def assms(2))
  have "takeWhile (\<lambda>c. c \<noteq> 0 \<and> \<not> sep c) (r @ 0 # rest) = takeWhile (\<lambda>c. \<not> sep c) r"
    using r0 by (induction r) auto
  then show "word_end line (length xs + length (takeWhile sep s)) = length xs + length (takeWhile sep s) + length (takeWhile (\<lambda>c. \<not> sep c) r)"
    by (simp add: word_end_def l)
qed

text \<open>One turn of the loop: it finds a word \<open>w\<close> at the place \<open>k\<close>; \<open>t\<close> is left of the line.\<close>

lemma tok_turn:
  assumes "0 \<notin> set s" "s \<noteq> []" "length argv < MAX_ARGS - 1" "dropWhile sep s = w @ t" "w = takeWhile (\<lambda>c. \<not> sep c) (dropWhile sep s)" "w \<noteq> []"
    and line: "line = xs @ s @ 0 # rest" and k: "k = length xs + length (takeWhile sep s)"
  shows "t = [] \<Longrightarrow> tok_loop line (length xs) argv = tok_loop ((xs @ takeWhile sep s @ w) @ [] @ 0 # rest) (length (xs @ takeWhile sep s @ w)) (argv @ [k])"
    "t = c # t' \<Longrightarrow> tok_loop line (length xs) argv = tok_loop ((xs @ takeWhile sep s @ w @ [0]) @ t' @ 0 # rest) (length (xs @ takeWhile sep s @ w @ [0])) (argv @ [k])"
proof -
  note pl = word_places [OF assms(1) line refl, folded k]
  have l: "line = xs @ takeWhile sep s @ w @ t @ 0 # rest" using pl(3) assms(4) by simp
  have n0: "line ! length xs \<noteq> 0" using assms(1,2) by (cases s) (auto simp: line)
  have "dropWhile sep s \<noteq> []" using assms(4,6) by simp
  then have q: "word_end line k = k + length w" using pl(2) [folded assms(5)] by simp
  have k0: "line ! k \<noteq> 0" using l pl(4) assms(4,6) by (cases w) (auto simp: k nth_append)
  have b: "length xs < length line" "k < length line" "k + length w < length line" using l by (simp_all add: k)
  have e: "tok_loop line (length xs) argv =
      (if line ! (k + length w) = 0 then tok_loop line (k + length w) (argv @ [k]) else tok_loop (line[k + length w := 0]) (k + length w + 1) (argv @ [k]))"
    using b n0 k0 q pl(1) assms(3) by (subst tok_loop.simps) (simp add: Let_def)
  have z: "line ! (k + length w) = (t @ 0 # rest) ! 0" using l by (simp add: k nth_append)
  show "tok_loop line (length xs) argv = tok_loop ((xs @ takeWhile sep s @ w) @ [] @ 0 # rest) (length (xs @ takeWhile sep s @ w)) (argv @ [k])" if "t = []"
    using e z l that by (simp add: k add.assoc)
  show "tok_loop line (length xs) argv = tok_loop ((xs @ takeWhile sep s @ w @ [0]) @ t' @ 0 # rest) (length (xs @ takeWhile sep s @ w @ [0])) (argv @ [k])" if "t = c # t'"
  proof -
    have "c \<noteq> 0" using pl(4) assms(4) that by auto
    moreover have "line[k + length w := 0] = xs @ takeWhile sep s @ w @ 0 # t' @ 0 # rest" using l that by (simp add: k list_update_append)
    ultimately show ?thesis using e z that by (simp add: k add.assoc)
  qed
qed

lemma tok_loop_words:
  assumes "0 \<notin> set s" "s \<noteq> [] \<Longrightarrow> \<forall>a \<in> set argv. 0 \<in> set (drop a xs)"
  shows "\<exists>argv' line'. tok_loop (xs @ s @ 0 # rest) (length xs) argv = Some (argv', line') \<and> length line' = length (xs @ s @ 0 # rest) \<and>
     map (cstr line') argv' = map (cstr (xs @ s @ 0 # rest)) argv @ take (MAX_ARGS - 1 - length argv) (words s)"
  using assms
proof (induction "length s" arbitrary: s xs argv rule: less_induct)
  case less
  define line where "line = xs @ s @ 0 # rest"
  define k where "k = length xs + length (takeWhile sep s)"
  note pl = word_places [OF less.prems(1) line_def refl, folded k_def]
  have lp: "length xs < length line" by (simp add: line_def)
  have stop: "tok_loop line (length xs) argv = Some (argv, line)" if "line ! length xs = 0 \<or> length argv \<ge> MAX_ARGS - 1"
    using that lp by (subst tok_loop.simps) simp
  consider (no) "s = [] \<or> MAX_ARGS - 1 \<le> length argv" | (blank) "s \<noteq> []" "length argv < MAX_ARGS - 1" "dropWhile sep s = []"
    | (word) "s \<noteq> []" "length argv < MAX_ARGS - 1" "dropWhile sep s \<noteq> []" by linarith
  then show ?case
  proof cases
    case no
    then have "line ! length xs = 0 \<or> length argv \<ge> MAX_ARGS - 1" by (auto simp: line_def)
    then show ?thesis using stop no by (auto simp: line_def words.simps [of "[]"])
  next
    case blank
    have "line ! k = 0" "k < length line" using pl(3) blank(3) by (simp_all add: k_def nth_append)
    then have "tok_loop line (length xs) argv = Some (argv, line)" using lp pl(1) by (subst tok_loop.simps) simp
    then show ?thesis using blank by (auto simp: line_def words.simps [of s])
  next
    case word
    define w where "w = takeWhile (\<lambda>c. \<not> sep c) (dropWhile sep s)"
    define t where "t = dropWhile (\<lambda>c. \<not> sep c) (dropWhile sep s)"
    have wt: "dropWhile sep s = w @ t" by (simp add: w_def t_def)
    have wn: "w \<noteq> []" using word(3) hd_dropWhile [of sep s] by (cases "dropWhile sep s") (auto simp: w_def)
    have w0: "0 \<notin> set w" "0 \<notin> set t" using pl(4) wt by auto
    have ws: "words s = w # words t" using word(3) by (subst words.simps) (simp add: w_def t_def)
    have lt: "length t < length s" using length_dropWhile_le [of sep s] wt wn by (cases w) simp_all
    note turn = tok_turn [OF less.prems(1) word(1,2) wt w_def wn line_def k_def]
    obtain m where m: "MAX_ARGS - 1 - length argv = Suc m" "MAX_ARGS - 1 - length (argv @ [k]) = m" using word(2) by (cases "MAX_ARGS - 1 - length argv") auto
    have cw: "cstr ((xs @ takeWhile sep s) @ w @ 0 # ys) k = w" for ys using cstr_word [OF w0(1), of "xs @ takeWhile sep s" ys] by (simp add: k_def)
    show ?thesis
    proof (cases t)
      case Nil
      let ?xs = "xs @ takeWhile sep s @ w"
      have l: "line = ?xs @ [] @ 0 # rest" using pl(3) wt Nil by simp
      show ?thesis using less.hyps [of "[]" "argv @ [k]" ?xs] turn(1) [OF Nil] ws Nil m cw [of rest] l lt
        by (simp add: line_def [symmetric] words.simps [of "[]"])
    next
      case (Cons c t')
      let ?xs = "xs @ takeWhile sep s @ w @ [0]"
      have "t \<noteq> []" using Cons by simp
      then have c: "sep c" using hd_dropWhile [of "\<lambda>c. \<not> sep c" "dropWhile sep s", folded t_def] Cons by simp
      have wds: "words t = words t'" using c Cons by (simp add: words.simps [of "c # t'"] words.simps [of t'])
      have z: "0 \<in> set (drop a xs)" if "a \<in> set argv" for a using less.prems(2) word(1) that by blast
      have zs: "\<forall>a \<in> set (argv @ [k]). 0 \<in> set (drop a ?xs)" using z by (auto simp: k_def)
      have old: "map (cstr (?xs @ t' @ 0 # rest)) argv = map (cstr line) argv" using cstr_front [OF z] by (simp add: line_def)
      have "length t' < length s" "0 \<notin> set t'" using lt Cons w0(2) by simp_all
      from less.hyps [OF this zs] obtain argv' line' where r: "tok_loop (?xs @ t' @ 0 # rest) (length ?xs) (argv @ [k]) = Some (argv', line')"
          "length line' = length (?xs @ t' @ 0 # rest)" "map (cstr line') argv' = map (cstr (?xs @ t' @ 0 # rest)) (argv @ [k]) @ take m (words t')"
        unfolding m(2) by blast
      have "length (?xs @ t' @ 0 # rest) = length line" using pl(3) wt Cons by simp
      then show ?thesis using turn(2) [OF Cons] r ws wds m(1) old cw [of "t' @ 0 # rest"] unfolding line_def [symmetric] by simp
    qed
  qed
qed

text \<open>
  Property C28. \<^verbatim>\<open>tokenize\<close> splits a line into its words: on a terminated line of any length it stays inside the buffer, and the arguments it finds, read back from the
  buffer it has cut up, are the first 31 words between blanks and tabs, in order.
\<close>

theorem tokenize_words:
  assumes "0 \<notin> set s"
  shows "\<exists>argv line'. tokenize (s @ 0 # rest) = Some (argv, line') \<and> length line' = length (s @ 0 # rest) \<and>
     map (cstr line') argv = take 31 (words s)"
  using tok_loop_words [OF assms, of "[]" "[]" rest] by (simp add: tokenize_def MAX_ARGS_def)

theorem tokenize_words_witness:
  "\<exists>argv line'. tokenize (str '' rm a  bc'' @ 0 # [7, 7]) = Some (argv, line') \<and> map (cstr line') argv = [str ''rm'', str ''a'', str ''bc'']"
proof -
  have z: "0 \<notin> set (str '' rm a  bc'')" by code_simp
  have "take 31 (words (str '' rm a  bc'')) = [str ''rm'', str ''a'', str ''bc'']" by code_simp
  then show ?thesis using tokenize_words [OF z, of "[7, 7]"] by metis
qed

section \<open>The buffer of the line\<close>

text \<open>The contract of \<^verbatim>\<open>read\<close>: an error or the end, or at most as many bytes as asked for.\<close>

definition reads_ok :: "'w os \<Rightarrow> bool" where
  "reads_ok os \<longleftrightarrow> (\<forall>k w. case os_read os 0 k w of ((n, bs), _) \<Rightarrow> n \<le> 0 \<or> int (length bs) = n \<and> length bs \<le> k)"

lemma reads_okD:
  assumes "reads_ok os" "os_read os 0 k w = ((n, bs), w')" "0 < n"
  shows "int (length bs) = n \<and> length bs \<le> k"
  using assms(1) [unfolded reads_ok_def, THEN spec, THEN spec, of k w] assms(2,3) by simp

lemma length_put_at: "n + length bs \<le> length line \<Longrightarrow> length (put_at n bs line) = length line"
  by (simp add: put_at_def)

lemma fill_line_ok:
  assumes "reads_ok os" "len \<le> cap - 1" "cap \<le> length buf"
  shows "\<exists>len' eof buf' w'. fill_line os cap len buf w = Some ((len', eof, buf'), w') \<and> len' \<le> cap - 1 \<and> length buf' = length buf"
  using assms
proof (induction os cap len buf w rule: fill_line.induct)
  case (1 os cap len buf w)
  obtain n bs w' where r: "os_read os 0 (cap - 1 - len) w = ((n, bs), w')" by (metis surj_pair)
  show ?case
  proof (cases "len < cap - 1 \<and> 0 < n")
    case True
    have b: "int (length bs) = n" "length bs \<le> cap - 1 - len" using reads_okD [OF 1(2) r] True by simp_all
    have nl: "len + length bs \<le> cap - 1" using b(2) True by arith
    let ?buf = "put_at len bs buf"
    have l: "length ?buf = length buf" using b(2) 1(3,4) True by (intro length_put_at) arith
    have e: "fill_line os cap len buf w = (if last bs = 10 then Some ((len + length bs, False, ?buf), w') else fill_line os cap (len + length bs) ?buf w')"
      using True r b by (subst fill_line.simps) simp
    show ?thesis
    proof (cases "last bs = 10")
      case False
      have "\<exists>len' eof buf' w''. fill_line os cap (len + length bs) ?buf w' = Some ((len', eof, buf'), w'') \<and> len' \<le> cap - 1 \<and> length buf' = length ?buf"
        by (rule 1(1) [OF _ r [symmetric] refl]) (use True b False l nl 1(2,4) in simp_all)
      then show ?thesis using e False l by simp
    qed (use e l nl in auto)
  next
    case False
    then show ?thesis using 1(3) r by (subst fill_line.simps) auto
  qed
qed

text \<open>
  Reading a line never leaves the buffer, whatever the system delivers; the line it hands out is terminated, unless the input ended.
\<close>

theorem read_line_bounds:
  assumes "reads_ok os" "length buf = LINE_MAX"
  shows "\<exists>len buf' w'. read_line os LINE_MAX buf w = Some ((len, buf'), w') \<and> length buf' = LINE_MAX \<and> len < int LINE_MAX \<and>
     ((\<exists>len' buf'' w''. fill_line os LINE_MAX 0 buf w = Some ((len', True, buf''), w'')) \<or> 0 \<le> len \<and> buf' ! nat len = 0)"
proof -
  obtain n eof b w' where f: "fill_line os LINE_MAX 0 buf w = Some ((n, eof, b), w')" "n \<le> LINE_MAX - 1" "length b = LINE_MAX"
    using fill_line_ok [OF assms(1), of 0 LINE_MAX buf w] assms(2) by auto
  have m: "n - length (takeWhile eol (rev (take n b))) < LINE_MAX" using f(2) by (simp add: LINE_MAX_def)
  show ?thesis
  proof (cases eof)
    case True
    then show ?thesis using f by (auto simp: read_line_def LINE_MAX_def)
  next
    case False
    then show ?thesis using f m by (simp add: read_line_def Let_def)
  qed
qed


text \<open>A system on which the input is the two bytes \<^verbatim>\<open>ls\<close> and then ends.\<close>

definition demo_os :: "nat os" where
  "demo_os = \<lparr>os_read = (\<lambda>_ _ w. (if w = 0 then (2, [108, 115]) else (0, []), w + 1)), os_write = (\<lambda>_ bs w. (int (length bs), w)),
     os_getcwd = (\<lambda>_ w. (Some [47], w)), os_chdir = (\<lambda>_ w. (0, w)), os_mkdir = (\<lambda>_ _ w. (0, w)), os_unlink = (\<lambda>_ w. (0, w)), os_rmdir = (\<lambda>_ w. (0, w)),
     os_open = (\<lambda>_ _ w. (- 2, w)), os_readdir = (\<lambda>_ _ w. ((0, []), w)), os_close = (\<lambda>_ w. w), os_spawn = (\<lambda>_ _ w. (- 2, w)), os_waitpid = (\<lambda>_ w. (None, w))\<rparr>"


end
