(* ===== verification/Platform.thy ===== *)
theory Platform
  imports Ata Task
begin

text \<open>
  The tables the processor reads: \<^verbatim>\<open>src/lizard/gdt.c\<close>, \<^verbatim>\<open>src/lizard/tss.c\<close> and \<^verbatim>\<open>src/lizard/idt.c\<close>; the interrupt controller
  \<^verbatim>\<open>src/lizard/pic.c\<close>, the programming of the timer chip in \<^verbatim>\<open>src/lizard/pit.c\<close> and the timer registry \<^verbatim>\<open>src/lizard/timer.c\<close>. A descriptor is the record of
  its fields; what the processor makes of it is the decoding of the architecture manual (\<open>seg_base\<close>, \<open>seg_limit\<close>, \<open>gate_offset\<close>). The instructions that load
  the tables are not modelled. The theory shows that the selectors of the kernel select the segments they are meant for, and that user programs can raise no gate but the one of the
  system calls.
\<close>

section \<open>Segment descriptors\<close>

definition GDT_MAX_ENTRIES :: nat where "GDT_MAX_ENTRIES = 1024"

record global_descriptor =
  gd_limit_low :: u16
  gd_base_low :: u16
  gd_base_middle :: u8
  gd_access :: u8
  gd_granularity :: u8
  gd_base_high :: u8

definition GDT_KERNEL_CODE :: u8 where "GDT_KERNEL_CODE = 0x9A"
definition GDT_KERNEL_DATA :: u8 where "GDT_KERNEL_DATA = 0x92"
definition GDT_USER_CODE :: u8 where "GDT_USER_CODE = 0xFA"
definition GDT_USER_DATA :: u8 where "GDT_USER_DATA = 0xF2"
definition GDT_GRAN_4KB :: u8 where "GDT_GRAN_4KB = 0x80"
definition GDT_GRAN_64BIT :: u8 where "GDT_GRAN_64BIT = 0x20"
definition GDT_GRAN_LIMIT_HIGH :: u8 where "GDT_GRAN_LIMIT_HIGH = 0x0F"
definition TSS_SEL :: u64 where "TSS_SEL = 0x28"

definition gdt_create_gate :: "u64 \<Rightarrow> u64 \<Rightarrow> u8 \<Rightarrow> u8 \<Rightarrow> global_descriptor" where
  "gdt_create_gate base limit access granularity =
     \<lparr>gd_limit_low = ucast (limit AND 0xFFFF), gd_base_low = ucast (base AND 0xFFFF), gd_base_middle = ucast (drop_bit 16 base AND 0xFF), gd_access = access,
      gd_granularity = ucast (drop_bit 16 limit AND 0x0F) OR (granularity AND 0xF0), gd_base_high = ucast (drop_bit 24 base AND 0xFF)\<rparr>"

text \<open>The eight bytes of a descriptor read as one word, and a word stored over a descriptor.\<close>

definition desc_of_word :: "u64 \<Rightarrow> global_descriptor" where
  "desc_of_word w =
     \<lparr>gd_limit_low = ucast w, gd_base_low = ucast (drop_bit 16 w), gd_base_middle = ucast (drop_bit 32 w), gd_access = ucast (drop_bit 40 w),
      gd_granularity = ucast (drop_bit 48 w), gd_base_high = ucast (drop_bit 56 w)\<rparr>"

definition word_of_desc :: "global_descriptor \<Rightarrow> u64" where
  "word_of_desc d =
     ucast (gd_limit_low d) OR push_bit 16 (ucast (gd_base_low d)) OR push_bit 32 (ucast (gd_base_middle d)) OR push_bit 40 (ucast (gd_access d)) OR
     push_bit 48 (ucast (gd_granularity d)) OR push_bit 56 (ucast (gd_base_high d))"

record gdt =
  gdt_table :: "global_descriptor list"
  gdt_next_index :: nat
  gdt_is_dynamic :: bool

definition gdt_add_gate :: "u64 \<Rightarrow> u64 \<Rightarrow> u8 \<Rightarrow> u8 \<Rightarrow> gdt \<Rightarrow> (nat \<times> gdt) option" where
  "gdt_add_gate base limit access granularity g =
     (if \<not> gdt_is_dynamic g \<or> gdt_next_index g \<ge> GDT_MAX_ENTRIES then None
      else Some (gdt_next_index g, g\<lparr>gdt_table := (gdt_table g)[gdt_next_index g := gdt_create_gate base limit access granularity], gdt_next_index := gdt_next_index g + 1\<rparr>))"

definition gdt_add_tss_gate :: "u64 \<Rightarrow> u64 \<Rightarrow> u8 \<Rightarrow> u8 \<Rightarrow> gdt \<Rightarrow> (nat \<times> gdt) option" where
  "gdt_add_tss_gate base limit access granularity g =
     (if \<not> gdt_is_dynamic g \<or> gdt_next_index g + 1 \<ge> GDT_MAX_ENTRIES then None
      else let i = gdt_next_index g
           in Some (i, g\<lparr>gdt_table := (gdt_table g)[i := gdt_create_gate base limit access granularity, i + 1 := desc_of_word (drop_bit 32 base)],
                         gdt_next_index := i + 2\<rparr>))"

text \<open>The first table, of five descriptors.\<close>

definition init_gdt :: "global_descriptor list" where
  "init_gdt =
     (let gran = GDT_GRAN_4KB OR GDT_GRAN_64BIT OR GDT_GRAN_LIMIT_HIGH
      in [gdt_create_gate 0 0 0 0, gdt_create_gate 0 0xFFFFFFFF GDT_KERNEL_CODE gran, gdt_create_gate 0 0xFFFFFFFF GDT_KERNEL_DATA gran,
          gdt_create_gate 0 0xFFFFFFFF GDT_USER_CODE gran, gdt_create_gate 0 0xFFFFFFFF GDT_USER_DATA gran])"

abbreviation sizeof_tss :: u64 where "sizeof_tss \<equiv> 104"

record tss =
  tss_rsp0 :: u64
  tss_iopb_offset :: u16

text \<open>The result is the selector loaded into the task register. The fields of the segment that are not named stay zero.\<close>

definition tss_init :: "u64 \<Rightarrow> gdt \<Rightarrow> (u16 \<times> tss \<times> gdt) option" where
  "tss_init main_tss g =
     do { (i, g) \<leftarrow> gdt_add_tss_gate main_tss (sizeof_tss - 1) 0x89 0 g;
          Some (of_nat (i * 8), \<lparr>tss_rsp0 = 0, tss_iopb_offset = ucast sizeof_tss\<rparr>, g) }"

definition tss_set_stack :: "u64 \<Rightarrow> tss \<Rightarrow> tss" where
  "tss_set_stack stack t = t\<lparr>tss_rsp0 := stack\<rparr>"

definition gdt_init_dynamic :: "global_descriptor list \<Rightarrow> u64 \<Rightarrow> (u16 \<times> tss \<times> gdt) option" where
  "gdt_init_dynamic boot_gdt main_tss =
     tss_init main_tss \<lparr>gdt_table = take 5 boot_gdt @ replicate (GDT_MAX_ENTRIES - 5) (desc_of_word 0), gdt_next_index = 5, gdt_is_dynamic = True\<rparr>"

section \<open>Interrupt gates\<close>

definition IDT_ENTRIES :: nat where "IDT_ENTRIES = 256"
definition SYSCALL_ISR_INDEX :: nat where "SYSCALL_ISR_INDEX = 0x80"

record idt_entry =
  ie_offset_low :: u16
  ie_selector :: u16
  ie_ist :: u8
  ie_type_attr :: u8
  ie_offset_mid :: u16
  ie_offset_high :: u32
  ie_zero :: u32

definition set_idt_gate :: "nat \<Rightarrow> u64 \<Rightarrow> u8 \<Rightarrow> idt_entry list \<Rightarrow> idt_entry list option" where
  "set_idt_gate vector isr flags idt =
     (if vector < length idt
      then Some (idt[vector := \<lparr>ie_offset_low = ucast (isr AND 0xFFFF), ie_selector = ucast KERNEL_CS, ie_ist = 0, ie_type_attr = flags,
                                ie_offset_mid = ucast (drop_bit 16 isr AND 0xFFFF), ie_offset_high = ucast (drop_bit 32 isr AND 0xFFFFFFFF), ie_zero = 0\<rparr>])
      else None)"

fun init_gates :: "(nat \<Rightarrow> u64) \<Rightarrow> nat list \<Rightarrow> idt_entry list \<Rightarrow> idt_entry list option" where
  "init_gates isr_stub_table [] idt = Some idt"
| "init_gates isr_stub_table (i # is) idt = do { idt \<leftarrow> set_idt_gate i (isr_stub_table i) 0x8E idt; init_gates isr_stub_table is idt }"

definition init_idt :: "(nat \<Rightarrow> u64) \<Rightarrow> idt_entry list \<Rightarrow> idt_entry list option" where
  "init_idt isr_stub_table idt = init_gates isr_stub_table [0..<IDT_ENTRIES] idt"

text \<open>The gate of the system calls, the last step of \<^verbatim>\<open>syscall_init\<close>.\<close>

definition syscall_gate :: "u64 \<Rightarrow> idt_entry list \<Rightarrow> idt_entry list option" where
  "syscall_gate isr_syscall_stub idt = set_idt_gate SYSCALL_ISR_INDEX isr_syscall_stub 0xEE idt"

section \<open>The interrupt controller\<close>

definition PIC1_COMMAND :: u16 where "PIC1_COMMAND = 0x20"
definition PIC1_DATA :: u16 where "PIC1_DATA = 0x21"
definition PIC2_COMMAND :: u16 where "PIC2_COMMAND = 0xA0"
definition PIC2_DATA :: u16 where "PIC2_DATA = 0xA1"
definition PIC_EOI :: u8 where "PIC_EOI = 0x20"

definition PIC_remap :: "'h ports \<Rightarrow> 'h \<Rightarrow> 'h" where
  "PIC_remap P h =
     fold (\<lambda>(port, v). outb P port v)
       [(PIC1_COMMAND, 0x11), (PIC2_COMMAND, 0x11), (PIC1_DATA, 32), (PIC2_DATA, 40), (PIC1_DATA, 0x04), (PIC2_DATA, 0x02), (PIC1_DATA, 0x01), (PIC2_DATA, 0x01),
        (PIC1_DATA, 0xFF), (PIC2_DATA, 0xFF)] h"

definition PIC_sendEOI :: "'h ports \<Rightarrow> u8 \<Rightarrow> 'h \<Rightarrow> 'h" where
  "PIC_sendEOI P irq h = outb P PIC1_COMMAND PIC_EOI (if irq \<ge> 8 then outb P PIC2_COMMAND PIC_EOI h else h)"

definition PIC_unmaskIRQ :: "'h ports \<Rightarrow> u8 \<Rightarrow> 'h \<Rightarrow> 'h" where
  "PIC_unmaskIRQ P irq h =
     (let (port, irq) = (if irq < 8 then (PIC1_DATA, irq) else (PIC2_DATA, irq - 8));
          (value, h) = inb P port h
      in outb P port (value AND ucast (NOT (push_bit (unat irq) 1 :: u32))) h)"

definition PIC_unmaskVector :: "'h ports \<Rightarrow> u8 \<Rightarrow> 'h \<Rightarrow> 'h" where
  "PIC_unmaskVector P vector h = (if vector < 32 \<or> vector > 47 then h else PIC_unmaskIRQ P (vector - 32) h)"

section \<open>The timer chip\<close>

definition PIT_COMMAND :: u16 where "PIT_COMMAND = 0x43"
definition PIT_CHANNEL0 :: u16 where "PIT_CHANNEL0 = 0x40"
definition PIT_FREQUENCY_HZ :: u32 where "PIT_FREQUENCY_HZ = 1193182"
definition PIT_TARGET_HZ :: u32 where "PIT_TARGET_HZ = 1000"
definition PIT_DESIRED_FREQUENCY_HZ :: u32 where "PIT_DESIRED_FREQUENCY_HZ = PIT_FREQUENCY_HZ div PIT_TARGET_HZ"
definition PIT_VECTOR_INDEX :: u8 where "PIT_VECTOR_INDEX = 32"

definition pit_stop :: "'h ports \<Rightarrow> 'h \<Rightarrow> 'h" where
  "pit_stop P h = (let (mask, h) = inb P PIC1_DATA h in outb P PIC1_DATA (mask OR 1) h)"

definition pit_start :: "'h ports \<Rightarrow> 'h \<Rightarrow> 'h" where
  "pit_start P h = PIC_unmaskVector P PIT_VECTOR_INDEX h"

definition pit_init :: "'h ports \<Rightarrow> 'h \<Rightarrow> int \<times> 'h" where
  "pit_init P h =
     (let h = outb P PIT_COMMAND 0x36 h;
          h = outb P PIT_CHANNEL0 (ucast (PIT_DESIRED_FREQUENCY_HZ AND 0xFF)) h
      in (0, outb P PIT_CHANNEL0 (ucast (drop_bit 8 PIT_DESIRED_FREQUENCY_HZ)) h))"

text \<open>The registry: the drivers, the latest first, and the active one. A driver need not have every operation.\<close>

record 'h timer_driver =
  td_init :: "('h \<Rightarrow> int \<times> 'h) option"
  td_start :: "('h \<Rightarrow> 'h) option"
  td_stop :: "('h \<Rightarrow> 'h) option"
  td_read :: "('h \<Rightarrow> u64) option"

record 'h timers =
  tm_active :: "'h timer_driver option"
  tm_registered :: "'h timer_driver list"

definition register_timer :: "'h timer_driver \<Rightarrow> 'h timers \<Rightarrow> 'h timers" where
  "register_timer d t = t\<lparr>tm_registered := d # tm_registered t, tm_active := (case tm_active t of None \<Rightarrow> Some d | Some a \<Rightarrow> Some a)\<rparr>"

definition timer_init :: "'h timers \<Rightarrow> 'h \<Rightarrow> int \<times> 'h" where
  "timer_init t h = (case Option.bind (tm_active t) td_init of Some f \<Rightarrow> f h | None \<Rightarrow> (- 1, h))"

definition timer_start :: "'h timers \<Rightarrow> 'h \<Rightarrow> 'h" where
  "timer_start t h = (case Option.bind (tm_active t) td_start of Some f \<Rightarrow> f h | None \<Rightarrow> h)"

definition timer_stop :: "'h timers \<Rightarrow> 'h \<Rightarrow> 'h" where
  "timer_stop t h = (case Option.bind (tm_active t) td_stop of Some f \<Rightarrow> f h | None \<Rightarrow> h)"

definition timer_read :: "'h timers \<Rightarrow> 'h \<Rightarrow> u64" where
  "timer_read t h = (case Option.bind (tm_active t) td_read of Some f \<Rightarrow> f h | None \<Rightarrow> 0)"

definition pit_driver :: "'h ports \<Rightarrow> ('h \<Rightarrow> u64) \<Rightarrow> 'h timer_driver" where
  "pit_driver P pit_get_ticks = \<lparr>td_init = Some (pit_init P), td_start = Some (pit_start P), td_stop = Some (pit_stop P), td_read = Some pit_get_ticks\<rparr>"

section \<open>What the processor reads\<close>

definition seg_base :: "global_descriptor \<Rightarrow> u64" where
  "seg_base d = ucast (gd_base_low d) OR push_bit 16 (ucast (gd_base_middle d)) OR push_bit 24 (ucast (gd_base_high d))"

definition seg_limit :: "global_descriptor \<Rightarrow> u64" where
  "seg_limit d = ucast (gd_limit_low d) OR push_bit 16 (ucast (gd_granularity d AND 0x0F))"

definition seg_dpl :: "global_descriptor \<Rightarrow> nat" where
  "seg_dpl d = unat (drop_bit 5 (gd_access d) AND 3)"

definition gate_offset :: "idt_entry \<Rightarrow> u64" where
  "gate_offset e = ucast (ie_offset_low e) OR push_bit 16 (ucast (ie_offset_mid e)) OR push_bit 32 (ucast (ie_offset_high e))"

definition gate_dpl :: "idt_entry \<Rightarrow> nat" where
  "gate_dpl e = unat (drop_bit 5 (ie_type_attr e) AND 3)"

text \<open>The descriptor of a task state segment takes two entries, the second with the high half of the address.\<close>

definition tss_base :: "global_descriptor \<Rightarrow> global_descriptor \<Rightarrow> u64" where
  "tss_base lo hi = seg_base lo OR push_bit 32 (word_of_desc hi)"

lemma masks:
  "(0x0F :: u64) = mask 4" "(0xFF :: u64) = mask 8" "(0xFFFF :: u64) = mask 16" "(0xFFFFF :: u64) = mask 20" "(0xFFFFFFFF :: u64) = mask 32"
  "(0x0F :: u8) = mask 4" "(0xF0 :: u8) = push_bit 4 (mask 4)"
  by (simp_all add: mask_eq_exp_minus_1 push_bit_eq_mult)

lemma bit_offset: "bit w n \<Longrightarrow> \<not> bit w (k + (n - k)) \<Longrightarrow> n < k"
  by (metis le_add_diff_inverse not_le)

lemma word_desc: "word_of_desc (desc_of_word w) = w"
proof (rule bit_word_eqI)
  fix n assume "n < LENGTH(64)"
  then have n: "n < 64" by simp
  consider "n < 16" | "16 \<le> n" "n < 32" | "32 \<le> n" "n < 40" | "40 \<le> n" "n < 48" | "48 \<le> n" "n < 56" | "56 \<le> n" by linarith
  then show "bit (word_of_desc (desc_of_word w)) n = bit w n" using n by cases (auto simp: desc_of_word_def word_of_desc_def bit_simps)
qed

lemma seg_base_create: "seg_base (gdt_create_gate base limit access gran) = base AND mask 32"
  by (rule bit_word_eqI) (auto simp: seg_base_def gdt_create_gate_def masks bit_simps dest: bit_offset)

lemma seg_limit_create: "seg_limit (gdt_create_gate base limit access gran) = limit AND mask 20"
  by (rule bit_word_eqI) (auto simp: seg_limit_def gdt_create_gate_def masks bit_simps)

lemma tss_base_create: "tss_base (gdt_create_gate base limit access gran) (desc_of_word (drop_bit 32 base)) = base"
  unfolding tss_base_def seg_base_create word_desc by (rule bit_word_eqI) (auto simp: bit_simps dest: bit_offset)

lemma gate_offset_set: "gate_offset \<lparr>ie_offset_low = ucast (a AND 0xFFFF), ie_selector = sel, ie_ist = i, ie_type_attr = flags,
    ie_offset_mid = ucast (drop_bit 16 a AND 0xFFFF), ie_offset_high = ucast (drop_bit 32 a AND 0xFFFFFFFF), ie_zero = z\<rparr> = a"
  by (rule bit_word_eqI) (auto simp: gate_offset_def masks bit_simps dest: bit_offset)

section \<open>The selectors of the kernel\<close>

text \<open>A selector names a flat 64-bit segment, present, of the kind asked for, at the privilege level the selector asks for.\<close>

definition selects :: "global_descriptor list \<Rightarrow> u64 \<Rightarrow> bool \<Rightarrow> bool" where
  "selects tab sel code \<longleftrightarrow>
     (let d = tab ! (unat sel div 8)
      in unat sel div 8 < length tab \<and> bit (gd_access d) 7 \<and> bit (gd_access d) 4 \<and> bit (gd_access d) 3 = code \<and> bit (gd_granularity d) 5 \<and>
         seg_dpl d = unat sel mod 4 \<and> seg_base d = 0 \<and> seg_limit d = 0xFFFFF)"

lemma length_init_gdt [simp]: "length init_gdt = 5"
  by (simp add: init_gdt_def Let_def)

lemma dynamic_table:
  "gdt_init_dynamic init_gdt a = Some (ucast TSS_SEL, \<lparr>tss_rsp0 = 0, tss_iopb_offset = 104\<rparr>,
     \<lparr>gdt_table = init_gdt @ gdt_create_gate a 103 0x89 0 # desc_of_word (drop_bit 32 a) # replicate 1017 (desc_of_word 0), gdt_next_index = 7, gdt_is_dynamic = True\<rparr>)"
proof -
  have r: "replicate 1019 (desc_of_word 0) = desc_of_word 0 # desc_of_word 0 # replicate 1017 (desc_of_word 0)"
    by (simp add: numeral_eq_Suc)
  show ?thesis
    by (simp add: gdt_init_dynamic_def tss_init_def gdt_add_tss_gate_def GDT_MAX_ENTRIES_def TSS_SEL_def r list_update_append)
qed

lemma boot_selects: "selects (init_gdt @ rest) KERNEL_CS True" "selects (init_gdt @ rest) KERNEL_SS False"
  "selects (init_gdt @ rest) USER_CS True" "selects (init_gdt @ rest) USER_SS False"
  by (simp_all add: selects_def KERNEL_CS_def KERNEL_SS_def USER_CS_def USER_SS_def init_gdt_def gdt_create_gate_def seg_base_def seg_limit_def seg_dpl_def
      GDT_KERNEL_CODE_def GDT_KERNEL_DATA_def GDT_USER_CODE_def GDT_USER_DATA_def GDT_GRAN_4KB_def GDT_GRAN_64BIT_def GDT_GRAN_LIMIT_HIGH_def)

text \<open>
  Property C34. The selectors of the kernel fit its table: after \<^verbatim>\<open>init_gdt\<close> and \<^verbatim>\<open>gdt_init_dynamic\<close>, which do not panic, the selectors with which tasks
  start name present flat 64-bit segments, code and data, whose privilege is the one the selector asks for; \<^verbatim>\<open>TSS_SEL\<close> is the selector loaded into
  the task register, and its descriptor gives the whole 64-bit address of the task state segment and its size.
\<close>

theorem selectors_fit_table:
  "\<exists>g. gdt_init_dynamic init_gdt main_tss = Some (ucast TSS_SEL, \<lparr>tss_rsp0 = 0, tss_iopb_offset = 104\<rparr>, g) \<and>
     selects (gdt_table g) KERNEL_CS True \<and> selects (gdt_table g) KERNEL_SS False \<and> selects (gdt_table g) USER_CS True \<and> selects (gdt_table g) USER_SS False \<and>
     tss_base (gdt_table g ! (unat TSS_SEL div 8)) (gdt_table g ! (unat TSS_SEL div 8 + 1)) = main_tss \<and>
     seg_limit (gdt_table g ! (unat TSS_SEL div 8)) = 103 \<and> length (gdt_table g) = GDT_MAX_ENTRIES"
proof -
  have "(init_gdt @ x # y # r) ! 5 = x" "(init_gdt @ x # y # r) ! 6 = y" for x y r by (simp_all add: nth_append)
  moreover have "(103 :: u64) AND mask 20 = 103" by (simp add: mask_eq_exp_minus_1)
  ultimately show ?thesis
    by (simp add: dynamic_table boot_selects TSS_SEL_def tss_base_create seg_limit_create GDT_MAX_ENTRIES_def)
qed

section \<open>The gates user programs can raise\<close>

definition gate :: "u64 \<Rightarrow> u8 \<Rightarrow> idt_entry" where
  "gate isr flags = \<lparr>ie_offset_low = ucast (isr AND 0xFFFF), ie_selector = ucast KERNEL_CS, ie_ist = 0, ie_type_attr = flags,
     ie_offset_mid = ucast (drop_bit 16 isr AND 0xFFFF), ie_offset_high = ucast (drop_bit 32 isr AND 0xFFFFFFFF), ie_zero = 0\<rparr>"

lemma set_gate: "v < length idt \<Longrightarrow> set_idt_gate v isr flags idt = Some (idt[v := gate isr flags])"
  by (simp add: set_idt_gate_def gate_def)

lemma gate_fields: "gate_offset (gate isr flags) = isr" "ie_type_attr (gate isr flags) = flags" "ie_selector (gate isr flags) = ucast KERNEL_CS" "ie_ist (gate isr flags) = 0"
  unfolding gate_def gate_offset_set by simp_all

lemma init_gates_result:
  assumes "\<forall>i \<in> set is. i < length idt"
  shows "\<exists>idt'. init_gates tab is idt = Some idt' \<and> length idt' = length idt \<and>
    (\<forall>v < length idt. idt' ! v = (if v \<in> set is then gate (tab v) 0x8E else idt ! v))"
  using assms
proof (induction "is" arbitrary: idt)
  case (Cons i "is")
  let ?idt = "idt[i := gate (tab i) 0x8E]"
  obtain idt' where "init_gates tab is ?idt = Some idt'" "length idt' = length idt"
    "\<forall>v < length idt. idt' ! v = (if v \<in> set is then gate (tab v) 0x8E else ?idt ! v)"
    using Cons.IH [of ?idt] Cons.prems by auto
  then show ?case using Cons.prems by (auto simp: set_gate nth_list_update)
qed simp

text \<open>
  Property C33. Once the interrupt table and the gate of the system calls are set up, every vector leads to its own stub, in the code segment of the kernel and with
  interrupts disabled, and \<^verbatim>\<open>0x80\<close> to the system call; that is the only vector a user program can raise by an instruction, every other gate asks
  for the privilege of the kernel.
\<close>

theorem only_syscalls_from_user:
  assumes "length idt = IDT_ENTRIES" "v < IDT_ENTRIES"
  shows "\<exists>idt1 idt2. init_idt isr_stub_table idt = Some idt1 \<and> syscall_gate stub idt1 = Some idt2 \<and> length idt2 = IDT_ENTRIES \<and>
     gate_offset (idt2 ! v) = (if v = SYSCALL_ISR_INDEX then stub else isr_stub_table v) \<and>
     ie_selector (idt2 ! v) = ucast KERNEL_CS \<and> ie_type_attr (idt2 ! v) AND 0x9F = 0x8E \<and>
     gate_dpl (idt2 ! v) = (if v = SYSCALL_ISR_INDEX then 3 else 0)"
proof -
  obtain idt1 where i: "init_idt isr_stub_table idt = Some idt1" "length idt1 = 256" "\<forall>v < 256. idt1 ! v = gate (isr_stub_table v) 0x8E"
    using init_gates_result [of "[0..<256]" idt isr_stub_table] assms(1) by (auto simp: init_idt_def IDT_ENTRIES_def)
  let ?idt = "idt1[0x80 := gate stub 0xEE]"
  have s: "syscall_gate stub idt1 = Some ?idt" using i(2) by (simp add: syscall_gate_def SYSCALL_ISR_INDEX_def set_gate)
  have "?idt ! v = (if v = 0x80 then gate stub 0xEE else gate (isr_stub_table v) 0x8E)" using i assms(2) by (simp add: IDT_ENTRIES_def nth_list_update)
  then show ?thesis using i(1,2) s by (simp add: gate_fields gate_dpl_def IDT_ENTRIES_def SYSCALL_ISR_INDEX_def)
qed

theorem only_syscalls_from_user_witness:
  "\<exists>idt1 idt2. init_idt (\<lambda>v. 0xFFFFFFFF80100000 + of_nat v * 16) (replicate 256 (gate 0 0)) = Some idt1 \<and> syscall_gate 0xFFFFFFFF80200000 idt1 = Some idt2 \<and>
     gate_offset (idt2 ! 0x80) = 0xFFFFFFFF80200000 \<and> gate_dpl (idt2 ! 0x80) = 3"
  using only_syscalls_from_user [of "replicate 256 (gate 0 0)" "0x80" "\<lambda>v. 0xFFFFFFFF80100000 + of_nat v * 16" "0xFFFFFFFF80200000"]
  by (auto simp: IDT_ENTRIES_def SYSCALL_ISR_INDEX_def)

section \<open>Masking\<close>

text \<open>Unmasking a line clears its bit of the mask of its controller and no other.\<close>

lemma unmask_bit: "i < 8 \<Longrightarrow> bit (m AND ucast (NOT (push_bit i 1 :: u32)) :: u8) j \<longleftrightarrow> bit m j \<and> j \<noteq> i"
  by (cases "j < 8") (auto simp: bit_simps dest: bit_imp_le_length)

end
