(* ===== verification/Exception.thy ===== *)
theory Exception
  imports Platform Syscall
begin

text \<open>
  Interrupts and exceptions: \<^verbatim>\<open>src/lizard/exception.c\<close> and the dispatch of \<^verbatim>\<open>src/lizard/idt.c\<close>. The trap frame is \<open>k_ptrace\<close>. The messages of the
  handler are not modelled, but the memory they read is: walking the frames reads the kernel's address space through the page tables, and a page that is not mapped is
  a fault inside the handler, which ends in a panic (\<open>None\<close>). The address of the function \<^verbatim>\<open>task_exit\<close> is an argument.
\<close>

section \<open>Exceptions\<close>

definition HIGH_HALF_MIN :: u64 where "HIGH_HALF_MIN = 0xFFFF800000000000"

definition load_word :: "u64 \<Rightarrow> ksys \<Rightarrow> u64 \<Rightarrow> u64 option" where
  "load_word h k a = do { bs \<leftarrow> load_user h k 8 a; Some (le64_at bs 0) }"

text \<open>The return addresses that are printed, for at most as many frames as the first argument says.\<close>

primrec frames :: "nat \<Rightarrow> u64 \<Rightarrow> ksys \<Rightarrow> u64 \<Rightarrow> u64 list option" where
  "frames 0 h k rbp = Some []"
| "frames (Suc i) h k rbp =
     (if rbp < HIGH_HALF_MIN \<or> rbp AND 7 \<noteq> 0 then Some []
      else do { ret \<leftarrow> load_word h k (rbp + 8);
                next \<leftarrow> load_word h k rbp;
                if ret < HIGH_HALF_MIN then Some []
                else if next \<le> rbp then Some [ret]
                else do { rs \<leftarrow> frames i h k next; Some (ret # rs) } })"

definition backtrace :: "u64 \<Rightarrow> ksys \<Rightarrow> u64 \<Rightarrow> u64 list option" where
  "backtrace h k rbp = frames 20 h k rbp"

definition exception_handle :: "u64 \<Rightarrow> u64 \<Rightarrow> ksys \<Rightarrow> ksys option" where
  "exception_handle h task_exit_addr s =
     do { let regs = k_ptrace s;
          let from_user = (r_cs regs AND 3 = 3);
          _ \<leftarrow> backtrace h s (r_rbp regs);
          if from_user \<and> k_enabled s \<and> k_current s \<noteq> 0 \<and> k_current s \<noteq> k_idle s
          then do { e \<leftarrow> k_tasks s (k_current s);
                    s \<leftarrow> upd_task (k_current s) (\<lambda>e. e\<lparr>t_exit_code := - sint (ucast (r_vec regs) :: u32)\<rparr>) s;
                    Some (s\<lparr>k_ptrace := regs\<lparr>r_cs := KERNEL_CS, r_ss := KERNEL_SS, r_rsp := t_kernel_stack e, r_rflags := 2, r_rip := task_exit_addr\<rparr>\<rparr>) }
          else None }"

text \<open>The common entry of all interrupts; \<open>io\<close> is the hardware behind the ports.\<close>

definition isr_common_entry :: "'h ports \<Rightarrow> u64 \<Rightarrow> u64 \<Rightarrow> (nat \<Rightarrow> (ksys \<Rightarrow> ksys option) option) \<Rightarrow> nat \<Rightarrow> ksys \<times> 'h \<Rightarrow> (ksys \<times> 'h) option" where
  "isr_common_entry P h task_exit_addr isr_table int_id = (\<lambda>(s, io).
     if int_id < 32 then do { s \<leftarrow> exception_handle h task_exit_addr s; Some (s, io) }
     else case isr_table int_id of
            Some f \<Rightarrow> do { s \<leftarrow> f s; Some (s, PIC_sendEOI P 15 io) }
          | None \<Rightarrow> Some (s, io))"

section \<open>A user program that faults\<close>

lemma frames_user: "rbp < HIGH_HALF_MIN \<Longrightarrow> backtrace h k rbp = Some []"
  by (simp add: backtrace_def numeral_eq_Suc)

lemma load_fault: "user_kva h k a = None \<Longrightarrow> load_word h k a = None"
  by (simp add: load_word_def numeral_eq_Suc)


text \<open>The task that runs in the example tree, in user mode, with an invalid instruction.\<close>

definition demo_fault :: "u64 \<Rightarrow> ksys" where
  "demo_fault rbp = demo_tree\<lparr>k_ptrace := zero_regs\<lparr>r_cs := USER_CS, r_vec := 6, r_rbp := rbp\<rparr>\<rparr>"


text \<open>
  Property C32. The handler trusts the frame pointer of the program that faulted: a user program that faults with a frame pointer in the kernel's half, aligned, where
  nothing is mapped, makes the handler itself fault, and with it the kernel.
\<close>

theorem user_frame_pointer_crashes:
  assumes "HIGH_HALF_MIN \<le> r_rbp (k_ptrace s)" "r_rbp (k_ptrace s) AND 7 = 0" "user_kva h s (r_rbp (k_ptrace s) + 8) = None"
  shows "exception_handle h te s = None"
proof -
  have "backtrace h s (r_rbp (k_ptrace s)) = None" using assms load_fault [OF assms(3)] by (simp add: backtrace_def numeral_eq_Suc not_less)
  then show ?thesis by (simp add: exception_handle_def)
qed

theorem user_frame_pointer_crashes_witness:
  "r_cs (k_ptrace (demo_fault 0xFFFFFFFF00000000)) = USER_CS \<and> exception_handle demo_h 0xFFFFFFFF80101000 (demo_fault 0xFFFFFFFF00000000) = None"
proof -
  let ?s = "demo_fault 0xFFFFFFFF00000000"
  have r: "r_rbp (k_ptrace ?s) = 0xFFFFFFFF00000000" "r_cs (k_ptrace ?s) = USER_CS" "k_words ?s = (\<lambda>_. 0)"
    by (simp_all add: demo_fault_def demo_tree_def demo_sys_def)
  have "pgtable_kva demo_h (k_current_pml4 ?s) a (k_words ?s) = 0" for a by (simp add: pgtable_kva_def r present_def)
  then have "user_kva demo_h ?s (r_rbp (k_ptrace ?s) + 8) = None" by (simp add: user_kva_def)
  then have "exception_handle demo_h 0xFFFFFFFF80101000 ?s = None"
    by (intro user_frame_pointer_crashes) (simp_all add: r HIGH_HALF_MIN_def)
  then show ?thesis using r(2) by simp
qed

end
