(* ===== verification/Spec2Isabelle.thy ===== *)
theory Spec2Isabelle
  imports Ktime Klist Early_Alloc Buddy Slab Kstring Kmalloc Blk_Dev Blkdev_Manager Ata Ata_Detect Fat16_Effect Vfs_Refs Syscall_Safe User_Lib Shell Exception
begin

text \<open>
  \<^bold>\<open>Verification of Lizard-OS.\<close> Lizard-OS is a 64-bit kernel for the PC with a small user space. This development models the kernel's own logic and the core of
  the user library as executable definitions, file by file, and proves what makes each part correct.

  \<^bold>\<open>Conventions.\<close> A machine integer is a word of its width, so that it wraps around as in C; \<^verbatim>\<open>int\<close> and \<^verbatim>\<open>ssize_t\<close> results
  are integers. A structure is a record and an enumeration a datatype. Stateful code takes its state and returns it changed. A definition that can
  fault (a null or dangling pointer, a read outside an array, a panic) returns an option, with \<open>None\<close> for the fault; an error the code
  reports is an ordinary value. Loops are structural or well-founded recursions; where a loop may run forever or leave its data on bad input (FAT chains, strings without a terminator) it
  is a \<^verbatim>\<open>partial_function\<close> on options, so that not returning is \<open>None\<close>, and a theorem that says what it computes also says that it returns. No definition uses
  fuel. Hardware (ports, the disk, the clock chip) and data the build generates are arguments.

  \<^bold>\<open>How the parts interact.\<close> The boot loader hands the memory map over (Early_Alloc). Early allocations build the page database of the buddy
  allocator (Buddy), from which slabs (Slab), the kernel heap (Kmalloc), page tables (Pgtable) and tasks (Task) take their pages. The disk
  driver (Ata, Ata_Detect) offers sectors through the block layer (Blk_Dev, Blkdev_Manager), on which FAT16 stands; the VFS caches its entries. The
  timer interrupt drives the clock and the scheduler (Sched); the keyboard interrupt drives the terminal (Tty). System calls (Syscall) compose all of
  them for the running task, and the loader starts new ones. Shared state is threaded explicitly: a call into the file system from the loader takes the
  heap along (\<open>in_vfs\<close>), the page tables use the allocator of the heap (\<open>pages_of_sys\<close>).

  \<^bold>\<open>Theories and sources\<close> (paths under \<^verbatim>\<open>src/\<close>).

  \<^item> Lizard_Prelude: word types and the lemmas on words, lists and alignment that the components share, with \<^verbatim>\<open>lizard/helpers\<close>.
  \<^item> Ktime: \<^verbatim>\<open>lizard/ktime\<close>, \<^verbatim>\<open>lizard/rtc\<close>. The clocks advance by exactly the ticks, and the calendar conversion inverts the reading of the clock chip.
  \<^item> Klist: \<^verbatim>\<open>nolibc/list.h\<close> on a store of links. The operations refine operations on sequences, which later theories use in place of links.
  \<^item> Early_Alloc, Buddy: \<^verbatim>\<open>lizard/boot\<close>, \<^verbatim>\<open>lizard/early_alloc\<close>, \<^verbatim>\<open>lizard/buddy\<close>. Allocations are disjoint, complete and undone by a release; initialisation
    establishes the invariant with exactly the usable pages.
  \<^item> Slab, Kmalloc: \<^verbatim>\<open>lizard/slab\<close>, \<^verbatim>\<open>lizard/kmalloc\<close>. Live objects never overlap, no sequence of legal calls panics, and requests are total.
  \<^item> Kstring: \<^verbatim>\<open>nolibc/string.c\<close> on a byte memory: copying with overlap, comparison, tokens, number formatting.
  \<^item> Blk_Dev, Blkdev_Manager: \<^verbatim>\<open>lizard/blk_dev\<close>, \<^verbatim>\<open>lizard/blkdev_manager\<close>, \<^verbatim>\<open>lizard/mbr\<close>. The locale \<open>block_driver\<close> states what a driver promises; the cached device
    refines an array of sectors; partitions stay inside their disk.
  \<^item> Ata, Ata_Detect: \<^verbatim>\<open>lizard/ata\<close> on a protocol model of the drive; the driver meets the contract of the block layer.
  \<^item> Fat16_Dir, Fat16_Table, Fat16, Fat16_File, Fat16_Write, Fat16_Effect: \<^verbatim>\<open>lizard/fat16\<close>, \<^verbatim>\<open>lizard/fat16_helpers\<close>. Names, the allocation table, reading, and
    the effect of a write on the whole volume.
  \<^item> Vfs_Path, Vfs, Vfs_Refs: \<^verbatim>\<open>lizard/vfs\<close>, \<^verbatim>\<open>lizard/vfs_helper\<close>, \<^verbatim>\<open>lizard/dentry\<close>, \<^verbatim>\<open>lizard/fs\<close>. Path folding is normalisation; references are counted exactly.
  \<^item> Pgtable: \<^verbatim>\<open>lizard/pgtable\<close>, \<^verbatim>\<open>lizard/vmm\<close>. Mapping changes the translation of one page of one address space and no other.
  \<^item> Task, Sched, Process_Tree: \<^verbatim>\<open>lizard/task\<close>, \<^verbatim>\<open>lizard/sched\<close>, the interrupt of \<^verbatim>\<open>lizard/pit\<close>. No ready task starves; the process tree stays a tree under every step
    of a transition relation.
  \<^item> Loader: \<^verbatim>\<open>lizard/loader\<close>, \<^verbatim>\<open>lizard/elf.h\<close>. The stack a program starts with.
  \<^item> Ring, Framebuffer, Tty: \<^verbatim>\<open>lizard/keyboard\<close>, \<^verbatim>\<open>lizard/framebuffer\<close>, \<^verbatim>\<open>lizard/tty\<close>. Rings are bounded queues (locale \<open>drop_oldest\<close>), presenting an image is scaling,
    text output stays on the screen.
  \<^item> Syscall, Syscall_Safe: \<^verbatim>\<open>lizard/syscall.c\<close>, \<^verbatim>\<open>abi\<close>. Every handler; no call breaks the tasks or reaches the kernel through the caller's pointers.
  \<^item> User_Heap, User_Printf, User_Lib: \<^verbatim>\<open>userspace/lib/stdlib.c\<close>, \<^verbatim>\<open>userspace/lib/printf.c\<close>. The heap meets the same locale as the kernel's (\<open>kernel_heap\<close>), both
    kinds of output print the same, numbers survive printing and reading, and sorting sorts.
  \<^item> Shell: \<^verbatim>\<open>userspace/src/sh.c\<close>, on a record of system calls; splitting a line gives its words, and reading one stays in its buffer.
  \<^item> Platform, Exception: \<^verbatim>\<open>lizard/gdt\<close>, \<^verbatim>\<open>lizard/tss\<close>, \<^verbatim>\<open>lizard/idt\<close>, \<^verbatim>\<open>lizard/pic\<close>, \<^verbatim>\<open>lizard/pit\<close>, \<^verbatim>\<open>lizard/timer\<close>, \<^verbatim>\<open>lizard/exception\<close>. The tables the
    processor reads decode to what was meant; a fault of a program ends that program, unless its frame pointer points into unmapped kernel memory.

  \<^bold>\<open>Sizes and bounds.\<close> Sizes of structures are those of the x86-64 ABI. Theorems that need it assume what the boot protocol gives: the direct map at
  \<open>0xFFFF800000000000\<close>, and memory below its end.

  \<^bold>\<open>Not modelled.\<close>
  \<^item> \<^verbatim>\<open>boot/\<close>: the UEFI loader is a sequence of firmware calls.
  \<^item> \<^verbatim>\<open>lizard/head.S\<close>, \<^verbatim>\<open>isr_vector.asm\<close>, \<^verbatim>\<open>cpuid\<close>, \<^verbatim>\<open>panic\<close>, \<^verbatim>\<open>main.c\<close> and the loading of registers: assembly, reports
    on a fault that ends the run, and the order of initialisation calls. A panic is \<open>None\<close> where the model reaches it.
  \<^item> \<^verbatim>\<open>lizard/spinlock\<close>, \<^verbatim>\<open>atomic.h\<close>: the kernel runs on one processor, and the paths modelled run with interrupts disabled or under these locks.
  \<^item> \<^verbatim>\<open>nolibc/stdio.c\<close>: the console output of the kernel, used for messages only.
  \<^item> \<^verbatim>\<open>runtime/cc-runtime.c\<close>: compiler support code taken from LLVM.
  \<^item> \<^verbatim>\<open>userspace/\<close> outside the theories above: thin wrappers of system calls, floating-point formatting and test programs.
\<close>

end
